(* ===== verification/Prelude.thy ===== *)
theory Prelude
  imports Main "HOL-Library.Word"
begin

unbundle bit_operations_syntax

section \<open>Bytes, integers of the C program, and byte-at-a-time machines\<close>

text \<open>
  This theory holds what every component of the development shares: the type of an
  nginx byte (\<open>u_char\<close>), names for the ASCII characters the sources compare
  with, the integer types of the LP64 build the model fixes (\<open>ngx_int_t\<close>,
  \<open>ssize_t\<close>, \<open>off_t\<close> and \<open>time_t\<close> are 64 bits wide, with their wrap-around
  written out), the return codes of \<open>src/core/ngx_core.h\<close>, reads of memory that can
  fail, digit values, and the loop that all incremental parsers of
  \<open>src/http/ngx_http_parse.c\<close> have in common, with the interface
  \<open>byte_machine\<close> that states what restarting such a loop promises.
\<close>

named_theorems byte_simps \<open>order and arithmetic of bytes reduced to integers\<close>
named_theorems step_simps \<open>unfolding of the one-byte steps of the parsers\<close>

subsection \<open>Bytes\<close>

type_synonym u_char = "8 word"

abbreviation (input) ch_NUL :: u_char where "ch_NUL \<equiv> 0x00"
abbreviation (input) ch_TAB :: u_char where "ch_TAB \<equiv> 0x09"
abbreviation (input) ch_LF :: u_char where "ch_LF \<equiv> 0x0A"
abbreviation (input) ch_CR :: u_char where "ch_CR \<equiv> 0x0D"
abbreviation (input) ch_SP :: u_char where "ch_SP \<equiv> 0x20"
abbreviation (input) ch_bang :: u_char where "ch_bang \<equiv> 0x21"
abbreviation (input) ch_quot :: u_char where "ch_quot \<equiv> 0x22"
abbreviation (input) ch_hash :: u_char where "ch_hash \<equiv> 0x23"
abbreviation (input) ch_dollar :: u_char where "ch_dollar \<equiv> 0x24"
abbreviation (input) ch_percent :: u_char where "ch_percent \<equiv> 0x25"
abbreviation (input) ch_amp :: u_char where "ch_amp \<equiv> 0x26"
abbreviation (input) ch_apos :: u_char where "ch_apos \<equiv> 0x27"
abbreviation (input) ch_lpar :: u_char where "ch_lpar \<equiv> 0x28"
abbreviation (input) ch_rpar :: u_char where "ch_rpar \<equiv> 0x29"
abbreviation (input) ch_star :: u_char where "ch_star \<equiv> 0x2A"
abbreviation (input) ch_plus :: u_char where "ch_plus \<equiv> 0x2B"
abbreviation (input) ch_comma :: u_char where "ch_comma \<equiv> 0x2C"
abbreviation (input) ch_minus :: u_char where "ch_minus \<equiv> 0x2D"
abbreviation (input) ch_dot :: u_char where "ch_dot \<equiv> 0x2E"
abbreviation (input) ch_slash :: u_char where "ch_slash \<equiv> 0x2F"
abbreviation (input) ch_0 :: u_char where "ch_0 \<equiv> 0x30"
abbreviation (input) ch_1 :: u_char where "ch_1 \<equiv> 0x31"
abbreviation (input) ch_9 :: u_char where "ch_9 \<equiv> 0x39"
abbreviation (input) ch_colon :: u_char where "ch_colon \<equiv> 0x3A"
abbreviation (input) ch_semi :: u_char where "ch_semi \<equiv> 0x3B"
abbreviation (input) ch_lt :: u_char where "ch_lt \<equiv> 0x3C"
abbreviation (input) ch_eq :: u_char where "ch_eq \<equiv> 0x3D"
abbreviation (input) ch_gt :: u_char where "ch_gt \<equiv> 0x3E"
abbreviation (input) ch_quest :: u_char where "ch_quest \<equiv> 0x3F"
abbreviation (input) ch_A :: u_char where "ch_A \<equiv> 0x41"
abbreviation (input) ch_F :: u_char where "ch_F \<equiv> 0x46"
abbreviation (input) ch_H :: u_char where "ch_H \<equiv> 0x48"
abbreviation (input) ch_P :: u_char where "ch_P \<equiv> 0x50"
abbreviation (input) ch_T :: u_char where "ch_T \<equiv> 0x54"
abbreviation (input) ch_Z :: u_char where "ch_Z \<equiv> 0x5A"
abbreviation (input) ch_lbrack :: u_char where "ch_lbrack \<equiv> 0x5B"
abbreviation (input) ch_bslash :: u_char where "ch_bslash \<equiv> 0x5C"
abbreviation (input) ch_rbrack :: u_char where "ch_rbrack \<equiv> 0x5D"
abbreviation (input) ch_under :: u_char where "ch_under \<equiv> 0x5F"
abbreviation (input) ch_a :: u_char where "ch_a \<equiv> 0x61"
abbreviation (input) ch_f :: u_char where "ch_f \<equiv> 0x66"
abbreviation (input) ch_z :: u_char where "ch_z \<equiv> 0x7A"
abbreviation (input) ch_tilde :: u_char where "ch_tilde \<equiv> 0x7E"

text \<open>The bytes of a string literal of the source, without its terminating zero.\<close>

definition bytes :: "string \<Rightarrow> u_char list" where
  "bytes s = map of_char s"

lemma bytes_simps [simp]:
  "bytes [] = []"
  "bytes (c # s) = of_char c # bytes s"
  "length (bytes s) = length s"
  by (simp_all add: bytes_def)

lemma u_char_le_iff [byte_simps]: "(c::u_char) \<le> d \<longleftrightarrow> uint c \<le> uint d"
  by (rule word_le_def)

lemma u_char_less_iff [byte_simps]: "(c::u_char) < d \<longleftrightarrow> uint c < uint d"
  by (rule word_less_def)

lemma u_char_eq_iff: "(c::u_char) = d \<longleftrightarrow> uint c = uint d"
  by (rule word_uint_eq_iff)

lemma uint_u_char_bounds [simp, intro]:
  "0 \<le> uint (c::u_char)" "uint (c::u_char) < 256" "uint (c::u_char) \<le> 255"
  using uint_bounded [of c] by simp_all

lemma unat_high_nibble: "unat (drop_bit 4 (c::u_char)) = unat c div 16"
  by (simp add: unat_drop_bit_eq) (simp add: drop_bit_eq_div)

lemma unat_low_nibble: "unat ((c::u_char) AND 0xf) = unat c mod 16"
proof -
  have "c AND 0xf = take_bit 4 c"
    by (simp add: take_bit_eq_mask mask_eq_exp_minus_1)
  also have "\<dots> = c mod 16" by (simp add: take_bit_eq_mod)
  finally show ?thesis by (simp add: unat_mod_distrib)
qed

lemma unat_u_char_less [simp, intro]: "unat (c::u_char) < 256"
  using unsigned_less [of c] by simp

lemma unat_u_char_le_iff: "(c::u_char) \<le> d \<longleftrightarrow> unat c \<le> unat d" "c < d \<longleftrightarrow> unat c < unat d"
  by (simp_all add: word_le_nat_alt word_less_nat_alt)

lemma high_nibble_less [simp]: "unat (c::u_char) div 16 < 16"
  by (rule less_mult_imp_div_less) simp

lemma unat_plus_byte: "unat (a::u_char) + unat b < 256 \<Longrightarrow> unat (a + b) = unat a + unat b"
  using unat_add_lem [of a b] by simp

lemma unat_plus_32: "unat (c::u_char) < 224 \<Longrightarrow> unat (c + 0x20) = unat c + 32"
  using unat_plus_byte [of c "0x20"] by simp

text \<open>The idiom \<open>c | 0x20\<close>, which lowers an ASCII letter: bit 5 is set.\<close>

lemma or_0x20: "(c::u_char) OR 0x20 = (if bit c 5 then c else c + 0x20)"
proof -
  have "c OR 0x20 = set_bit 5 c" by (simp add: set_bit_eq_or push_bit_eq_mult)
  then show ?thesis by (simp add: set_bit_eq)
qed

lemma bit_5_byte: "bit (c::u_char) 5 \<longleftrightarrow> odd (unat c div 32)"
proof -
  have "bit c 5 \<longleftrightarrow> bit (unat c) 5" by (simp add: bit_unsigned_iff)
  then show ?thesis by (simp add: bit_iff_odd)
qed

lemma unat_or_0x20: "unat ((c::u_char) OR 0x20) = (if odd (unat c div 32) then unat c else unat c + 32)"
proof (cases "bit c 5")
  case True
  then have "odd (unat c div 32)" using bit_5_byte by blast
  with True show ?thesis by (simp add: or_0x20)
next
  case False
  then have e: "even (unat c div 32)" using bit_5_byte by blast
  have "224 \<le> unat c \<Longrightarrow> unat c div 32 = 7" using unat_u_char_less [of c] by linarith
  with e have "\<not> 224 \<le> unat c" by auto
  then have "unat c < 224" by simp
  then show ?thesis using False e by (simp add: or_0x20 unat_plus_32)
qed

subsection \<open>Integers and return codes\<close>

text \<open>
  The value range of the 64-bit signed types (\<open>NGX_MAX_INT_T_VALUE\<close>,
  \<open>NGX_MAX_SIZE_T_VALUE\<close>, \<open>NGX_MAX_OFF_T_VALUE\<close>, \<open>NGX_MAX_TIME_T_VALUE\<close> are all the same
  number in this build), and the value an assignment to a signed 64-bit variable stores.
\<close>

abbreviation (input) NGX_MAX_INT_T_VALUE :: int where
  "NGX_MAX_INT_T_VALUE \<equiv> 9223372036854775807"

definition s64 :: "int \<Rightarrow> int" where
  "s64 x = (x + 9223372036854775808) mod 18446744073709551616 - 9223372036854775808"

lemma s64_id [simp]: "-9223372036854775808 \<le> x \<Longrightarrow> x \<le> NGX_MAX_INT_T_VALUE \<Longrightarrow> s64 x = x"
  by (simp add: s64_def)

lemma s64_range: "-9223372036854775808 \<le> s64 x \<and> s64 x \<le> NGX_MAX_INT_T_VALUE"
  using pos_mod_bound [of 18446744073709551616 "x + 9223372036854775808"]
  by (simp add: s64_def)

lemma s64_add: "s64 (s64 x + y) = s64 (x + y)"
  by (simp add: s64_def mod_simps algebra_simps)

lemma s64_diff: "s64 (x - s64 y) = s64 (x - y)"
  by (simp add: s64_def mod_simps algebra_simps)

lemma s64_s64: "s64 (s64 x) = s64 x"
  using s64_add [of x 0] by simp

text \<open>\<open>ngx_abs\<close> of \<open>src/core/ngx_core.h\<close> on \<open>ngx_int_t\<close>, and signed readings of words.\<close>

definition ngx_abs :: "int \<Rightarrow> int" where
  "ngx_abs x = (if x \<ge> 0 then x else s64 (- x))"

lemma ngx_abs_small: "\<bar>x\<bar> < 9223372036854775808 \<Longrightarrow> ngx_abs x = \<bar>x\<bar>"
  by (simp add: ngx_abs_def)

lemma sint_small:
  assumes "unat (w :: 64 word) < 9223372036854775808"
  shows "sint w = int (unat w)"
proof -
  have u: "uint w = int (unat w)" by simp
  then have "- 9223372036854775808 \<le> uint w" "uint w < 9223372036854775808" using assms by linarith+
  then have "signed_take_bit 63 (uint w) = uint w" by (intro signed_take_bit_int_eq_self) simp_all
  then show ?thesis unfolding u by (simp add: sint_uint)
qed

lemma sint_of_int64:
  "- 9223372036854775808 \<le> x \<Longrightarrow> x < 9223372036854775808 \<Longrightarrow> sint (of_int x :: 64 word) = x"
  by (simp add: signed_of_int signed_take_bit_int_eq_self)

lemma le_zdiv_iff_mult_le: "0 < (s::int) \<Longrightarrow> v \<le> m div s \<longleftrightarrow> v * s \<le> m"
proof
  assume s: "0 < s" and "v \<le> m div s"
  then have "v * s \<le> (m div s) * s" by (intro mult_right_mono) auto
  also have "\<dots> \<le> m" using s by (metis mult_div_mod_eq pos_mod_sign le_add_same_cancel1 mult.commute)
  finally show "v * s \<le> m" .
next
  assume s: "0 < s" and "v * s \<le> m"
  then show "v \<le> m div s" using zdiv_mono1 [of "v * s" m s] by simp
qed

abbreviation (input) NGX_OK :: int where "NGX_OK \<equiv> 0"
abbreviation (input) NGX_ERROR :: int where "NGX_ERROR \<equiv> -1"
abbreviation (input) NGX_AGAIN :: int where "NGX_AGAIN \<equiv> -2"
abbreviation (input) NGX_BUSY :: int where "NGX_BUSY \<equiv> -3"
abbreviation (input) NGX_DONE :: int where "NGX_DONE \<equiv> -4"
abbreviation (input) NGX_DECLINED :: int where "NGX_DECLINED \<equiv> -5"

subsection \<open>Memory reads\<close>

text \<open>
  A read through a pointer into a buffer of known extent. Outside the buffer the C program
  has undefined behaviour, which is the value None.
\<close>

definition rd :: "'a list \<Rightarrow> nat \<Rightarrow> 'a option" where
  "rd xs i = (if i < length xs then Some (xs ! i) else None)"

lemma rd_in [simp]: "i < length xs \<Longrightarrow> rd xs i = Some (xs ! i)"
  by (simp add: rd_def)

lemma rd_out [simp]: "length xs \<le> i \<Longrightarrow> rd xs i = None"
  by (simp add: rd_def)

lemma rd_Cons [simp]: "rd (x # xs) (Suc i) = rd xs i" "rd (x # xs) 0 = Some x"
  by (simp_all add: rd_def)

text \<open>The bytes between two pointers into a buffer.\<close>

definition byte_range :: "u_char list \<Rightarrow> nat \<Rightarrow> nat \<Rightarrow> u_char list" where
  "byte_range buf a b = take (b - a) (drop a buf)"

lemma byte_range_pieces: "a = length pre \<Longrightarrow> b = length pre + length xs \<Longrightarrow> byte_range (pre @ xs @ ys) a b = xs"
  by (simp add: byte_range_def)

lemma byte_range_take: "b \<le> n \<Longrightarrow> byte_range (take n buf) a b = byte_range buf a b"
  by (simp add: byte_range_def drop_take min_def)

lemma byte_range_snoc: "a \<le> b \<Longrightarrow> b < length buf \<Longrightarrow> byte_range buf a (Suc b) = byte_range buf a b @ [buf ! b]"
  by (simp add: byte_range_def Suc_diff_le take_Suc_conv_app_nth)

lemma byte_range_empty [simp]: "byte_range buf a a = []"
  by (simp add: byte_range_def)

subsection \<open>Digits\<close>

definition is_digit :: "u_char \<Rightarrow> bool" where
  "is_digit c \<longleftrightarrow> ch_0 \<le> c \<and> c \<le> ch_9"

lemma is_digit_uint: "is_digit c \<longleftrightarrow> 48 \<le> uint c \<and> uint c \<le> 57"
  by (simp add: is_digit_def byte_simps)

definition dec_val :: "u_char list \<Rightarrow> int" where
  "dec_val = foldl (\<lambda>v c. v * 10 + (uint c - 48)) 0"

lemma dec_val_Nil [simp]: "dec_val [] = 0"
  by (simp add: dec_val_def)

lemma dec_val_snoc [simp]: "dec_val (xs @ [c]) = dec_val xs * 10 + (uint c - 48)"
  by (simp add: dec_val_def)

lemma foldl_dec_val:
  "foldl (\<lambda>v c. v * 10 + (uint c - 48)) v xs = v * 10 ^ length xs + dec_val xs"
  by (induction xs rule: rev_induct) (simp_all add: algebra_simps)

lemma dec_val_append: "dec_val (xs @ ys) = dec_val xs * 10 ^ length ys + dec_val ys"
  using foldl_dec_val [of "dec_val xs" ys] by (simp add: dec_val_def)

lemma dec_val_Cons: "dec_val (c # cs) = (uint c - 48) * 10 ^ length cs + dec_val cs"
  using dec_val_append [of "[c]" cs] by (simp add: dec_val_def)

lemma dec_val_nonneg: "list_all is_digit xs \<Longrightarrow> 0 \<le> dec_val xs"
  by (induction xs rule: rev_induct) (simp_all add: is_digit_uint)

subsection \<open>The loop of an incremental parser\<close>

text \<open>
  Every parser of \<open>ngx_http_parse.c\<close> is a loop
  \<^verbatim>\<open>for (p = b->pos; p < b->last; p++) { ch = *p; switch (state) { ... } }\<close>
  whose body either goes on, with a new state, or leaves the loop. \<open>scan\<close> is that
  loop: it is given the body, the position of the first byte and the bytes from there to
  \<open>b->last\<close>; leaving the loop by its condition is \<open>Inl\<close> of the state, leaving it from
  the body is \<open>Inr\<close>.
\<close>

datatype ('s, 'r) action = Next 's | Stop 'r

fun scan :: "('s \<Rightarrow> nat \<Rightarrow> u_char \<Rightarrow> ('s, 'r) action) \<Rightarrow> nat \<Rightarrow> u_char list \<Rightarrow> 's \<Rightarrow> 's + 'r"
where
  "scan body p [] s = Inl s"
| "scan body p (ch # rest) s =
     (case body s p ch of
        Next s' \<Rightarrow> scan body (Suc p) rest s'
      | Stop r \<Rightarrow> Inr r)"

lemma scan_append:
  "scan body p (xs @ ys) s =
     (case scan body p xs s of
        Inl s' \<Rightarrow> scan body (p + length xs) ys s'
      | Inr r \<Rightarrow> Inr r)"
  by (induction xs arbitrary: p s) (auto split: action.splits sum.splits)

lemma scan_append_Inl:
  "scan body p xs s = Inl s' \<Longrightarrow> scan body p (xs @ ys) s = scan body (p + length xs) ys s'"
  by (simp add: scan_append)

text \<open>Invariants of the loop over a buffer, which may speak of the buffer's bytes.\<close>

lemma scan_invariant:
  assumes step: "\<And>p s s'. I p s \<Longrightarrow> p < length buf \<Longrightarrow> body s p (buf ! p) = Next s' \<Longrightarrow> I (Suc p) s'"
  shows "I p s \<Longrightarrow> p \<le> length buf \<Longrightarrow>
    (case scan body p (drop p buf) s of
       Inl s' \<Rightarrow> I (length buf) s'
     | Inr r \<Rightarrow> \<exists>q s'. I q s' \<and> p \<le> q \<and> q < length buf \<and> body s' q (buf ! q) = Stop r)"
proof (induction "length buf - p" arbitrary: p s)
  case 0
  then show ?case by simp
next
  case (Suc k)
  then have p: "p < length buf" "drop p buf = buf ! p # drop (Suc p) buf"
    by (simp_all add: Cons_nth_drop_Suc)
  show ?case
  proof (cases "body s p (buf ! p)")
    case (Next s1)
    have "I (Suc p) s1" by (rule step [OF Suc.prems(1) p(1) Next])
    moreover have "k = length buf - Suc p" "Suc p \<le> length buf" using Suc.hyps(2) by simp_all
    ultimately show ?thesis
      using Suc.hyps(1) [of "Suc p" s1] p(2) Next by (auto split: sum.splits dest: Suc_leD)
  next
    case (Stop r)
    with p Suc.prems(1) show ?thesis by auto
  qed
qed

text \<open>
  The interface of an incremental parser: an invariant of the state between two bytes, and
  a measure of what the parser has stored. A client that feeds the parser in pieces relies
  on two laws: the body keeps the invariant, and a body that looks behind \<open>p\<close> reads
  only memory that the earlier calls have already seen.
\<close>

locale byte_machine =
  fixes body :: "u_char list \<Rightarrow> 's \<Rightarrow> nat \<Rightarrow> u_char \<Rightarrow> ('s, 'r) action"
    and inv :: "nat \<Rightarrow> 's \<Rightarrow> bool"
  assumes inv_step: "inv p s \<Longrightarrow> body buf s p ch = Next s' \<Longrightarrow> inv (Suc p) s'"
    and looks_behind: "inv p s \<Longrightarrow> p < n \<Longrightarrow> body (take n buf) s p ch = body buf s p ch"
begin

lemma scan_inv: "inv p s \<Longrightarrow> scan (body buf) p xs s = Inl s' \<Longrightarrow> inv (p + length xs) s'"
proof (induction xs arbitrary: p s)
  case (Cons x xs)
  from Cons.prems obtain s1 where "body buf s p x = Next s1"
    and "scan (body buf) (Suc p) xs s1 = Inl s'"
    by (auto split: action.splits)
  with Cons.prems Cons.IH show ?case
    by (fastforce dest: inv_step)
qed simp

lemma scan_take:
  "inv p s \<Longrightarrow> p + length xs \<le> n \<Longrightarrow> scan (body (take n buf)) p xs s = scan (body buf) p xs s"
proof (induction xs arbitrary: p s)
  case (Cons x xs)
  then have "body (take n buf) s p x = body buf s p x"
    by (intro looks_behind) auto
  with Cons show ?case
    by (auto split: action.splits dest: inv_step)
qed simp

text \<open>
  Restart: parsing what has arrived so far, and continuing from the saved state when more
  bytes are in the buffer, is parsing everything at once.
\<close>

lemma scan_restart:
  assumes "inv pos s" and "pos \<le> n" and "n \<le> length buf"
    and "scan (body (take n buf)) pos (drop pos (take n buf)) s = Inl s'"
  shows "scan (body buf) pos (drop pos buf) s = scan (body buf) n (drop n buf) s'"
proof -
  have split: "drop pos buf = drop pos (take n buf) @ drop n buf"
    using assms(2) by (metis append_take_drop_id drop_take drop_drop le_add_diff_inverse2)
  have "scan (body buf) pos (drop pos (take n buf)) s = Inl s'"
    using scan_take [OF assms(1), of "drop pos (take n buf)" n buf] assms(2-4) by simp
  then show ?thesis
    using assms(2,3) by (simp add: split scan_append)
qed

lemma scan_stop:
  "inv p s \<Longrightarrow> scan (body buf) p xs s = Inr r \<Longrightarrow>
   \<exists>q s' ch. inv q s' \<and> p \<le> q \<and> q < p + length xs \<and> body buf s' q ch = Stop r"
proof (induction xs arbitrary: p s)
  case (Cons x xs)
  show ?case
  proof (cases "body buf s p x")
    case (Next s1)
    with Cons.IH [OF inv_step [OF Cons.prems(1) Next]] Cons.prems(2) show ?thesis
      by (auto 4 4 intro: Suc_leD)
  next
    case (Stop r')
    with Cons.prems have "body buf s p x = Stop r" by simp
    with Cons.prems(1) show ?thesis by (intro exI [of _ p] exI [of _ s] exI [of _ x]) simp
  qed
qed simp

text \<open>And a verdict reached on the bytes so far does not change when more arrive.\<close>

lemma scan_verdict:
  assumes "inv pos s" and "pos \<le> n" and "n \<le> length buf"
    and "scan (body (take n buf)) pos (drop pos (take n buf)) s = Inr r"
  shows "scan (body buf) pos (drop pos buf) s = Inr r"
proof -
  have split: "drop pos buf = drop pos (take n buf) @ drop n buf"
    using assms(2) by (metis append_take_drop_id drop_take drop_drop le_add_diff_inverse2)
  have "scan (body buf) pos (drop pos (take n buf)) s = Inr r"
    using scan_take [OF assms(1), of "drop pos (take n buf)" n buf] assms(2-4) by simp
  then show ?thesis
    by (simp add: split scan_append)
qed

end

end
