(* ===== verification/Rbtree.thy ===== *)
theory Rbtree
  imports Prelude "HOL-Library.Monad_Syntax"
begin

section \<open>The red-black tree: the code\<close>

text \<open>
  \<open>src/core/ngx_rbtree.c\<close> on an explicit memory of nodes. An address is a number, 0 the null
  pointer; a read or a write at an address without a node is the value None, and so is a loop that
  does not return, as the loops are partial functions into the option type. \<open>ngx_rbtree_t\<close> is the
  memory together with the root; the sentinel, which the functions are given in C too, is an
  argument. Where the C code has the same statements twice, with left and right exchanged, they are
  one definition here with the side as its argument.
\<close>

subsection \<open>Nodes and memory\<close>

type_synonym addr = nat

record rb_node =
  rb_key :: "64 word"
  rb_left :: addr
  rb_right :: addr
  rb_parent :: addr
  rb_red :: bool

record rbtree =
  rb_mem :: "addr \<Rightarrow> rb_node option"
  rb_root :: addr

datatype side = Lft | Rgt

fun opp :: "side \<Rightarrow> side" where
  "opp Lft = Rgt"
| "opp Rgt = Lft"

fun child :: "side \<Rightarrow> rb_node \<Rightarrow> addr" where
  "child Lft n = rb_left n"
| "child Rgt n = rb_right n"

fun set_child :: "side \<Rightarrow> addr \<Rightarrow> rb_node \<Rightarrow> rb_node" where
  "set_child Lft p n = n\<lparr>rb_left := p\<rparr>"
| "set_child Rgt p n = n\<lparr>rb_right := p\<rparr>"

definition wr :: "(rb_node \<Rightarrow> rb_node) \<Rightarrow> addr \<Rightarrow> rbtree \<Rightarrow> rbtree option" where
  "wr f a t = (case rb_mem t a of None \<Rightarrow> None | Some n \<Rightarrow> Some (t\<lparr>rb_mem := (rb_mem t)(a \<mapsto> f n)\<rparr>))"

abbreviation (input) put_child :: "side \<Rightarrow> addr \<Rightarrow> addr \<Rightarrow> rbtree \<Rightarrow> rbtree option" where
  "put_child d p \<equiv> wr (set_child d p)"

abbreviation (input) put_parent :: "addr \<Rightarrow> addr \<Rightarrow> rbtree \<Rightarrow> rbtree option" where
  "put_parent p \<equiv> wr (\<lambda>n. n\<lparr>rb_parent := p\<rparr>)"

abbreviation (input) put_red :: "bool \<Rightarrow> addr \<Rightarrow> rbtree \<Rightarrow> rbtree option" where
  "put_red c \<equiv> wr (\<lambda>n. n\<lparr>rb_red := c\<rparr>)"

subsection \<open>Rotations\<close>

text \<open>\<open>ngx_rbtree_left_rotate\<close> for \<open>Lft\<close>, \<open>ngx_rbtree_right_rotate\<close> for \<open>Rgt\<close>.\<close>

text \<open>The pointer to \<open>node\<close> in the tree is made to point to \<open>temp\<close>.\<close>

definition replace_child :: "side \<Rightarrow> addr \<Rightarrow> addr \<Rightarrow> rbtree \<Rightarrow> rbtree option" where
  "replace_child d node temp t =
     (if node = rb_root t then Some (t\<lparr>rb_root := temp\<rparr>)
      else do {
        n \<leftarrow> rb_mem t node;
        p \<leftarrow> rb_mem t (rb_parent n);
        put_child (if node = child d p then d else opp d) temp (rb_parent n) t
      })"

definition rb_rotate :: "side \<Rightarrow> addr \<Rightarrow> addr \<Rightarrow> rbtree \<Rightarrow> rbtree option" where
  "rb_rotate d sentinel node t = do {
     n \<leftarrow> rb_mem t node;
     let temp = child (opp d) n;
     m \<leftarrow> rb_mem t temp;
     t \<leftarrow> put_child (opp d) (child d m) node t;
     m \<leftarrow> rb_mem t temp;
     t \<leftarrow> (if child d m \<noteq> sentinel then put_parent node (child d m) t else Some t);
     n \<leftarrow> rb_mem t node;
     t \<leftarrow> put_parent (rb_parent n) temp t;
     t \<leftarrow> replace_child d node temp t;
     t \<leftarrow> put_child d node temp t;
     put_parent temp node t
   }"

abbreviation (input) ngx_rbtree_left_rotate :: "addr \<Rightarrow> addr \<Rightarrow> rbtree \<Rightarrow> rbtree option" where
  "ngx_rbtree_left_rotate \<equiv> rb_rotate Lft"

abbreviation (input) ngx_rbtree_right_rotate :: "addr \<Rightarrow> addr \<Rightarrow> rbtree \<Rightarrow> rbtree option" where
  "ngx_rbtree_right_rotate \<equiv> rb_rotate Rgt"

subsection \<open>Insertion\<close>

text \<open>
  \<open>ngx_rbtree_insert_value\<close> and \<open>ngx_rbtree_insert_timer_value\<close> differ in the comparison \<open>lt\<close> of the
  two nodes, given as their addresses and keys: the callbacks of other trees compare what is stored
  beside the key as well. The loop gives the node \<open>temp\<close> it ends at and the side of its pointer \<open>p\<close>.
\<close>

partial_function (option) rb_descend ::
  "(addr \<times> 64 word \<Rightarrow> addr \<times> 64 word \<Rightarrow> bool) \<Rightarrow> addr \<Rightarrow> addr \<Rightarrow> addr \<Rightarrow> rbtree \<Rightarrow> (addr \<times> side) option"
where
  "rb_descend lt sentinel node temp t = do {
     n \<leftarrow> rb_mem t node;
     m \<leftarrow> rb_mem t temp;
     let d = (if lt (node, rb_key n) (temp, rb_key m) then Lft else Rgt);
     if child d m = sentinel then Some (temp, d)
     else rb_descend lt sentinel node (child d m) t
   }"

definition rb_insert_by ::
  "(addr \<times> 64 word \<Rightarrow> addr \<times> 64 word \<Rightarrow> bool) \<Rightarrow> addr \<Rightarrow> addr \<Rightarrow> addr \<Rightarrow> rbtree \<Rightarrow> rbtree option"
where
  "rb_insert_by lt temp node sentinel t = do {
     (temp, d) \<leftarrow> rb_descend lt sentinel node temp t;
     t \<leftarrow> put_child d node temp t;
     t \<leftarrow> put_parent temp node t;
     t \<leftarrow> put_child Lft sentinel node t;
     t \<leftarrow> put_child Rgt sentinel node t;
     put_red True node t
   }"

fun key_less :: "addr \<times> 64 word \<Rightarrow> addr \<times> 64 word \<Rightarrow> bool" where
  "key_less (a, k) (a', k') \<longleftrightarrow> k < k'"

fun timer_less :: "addr \<times> 64 word \<Rightarrow> addr \<times> 64 word \<Rightarrow> bool" where
  "timer_less (a, k) (a', k') \<longleftrightarrow> sint (k - k') < 0"

abbreviation (input) ngx_rbtree_insert_value :: "addr \<Rightarrow> addr \<Rightarrow> addr \<Rightarrow> rbtree \<Rightarrow> rbtree option" where
  "ngx_rbtree_insert_value \<equiv> rb_insert_by key_less"

abbreviation (input) ngx_rbtree_insert_timer_value :: "addr \<Rightarrow> addr \<Rightarrow> addr \<Rightarrow> rbtree \<Rightarrow> rbtree option" where
  "ngx_rbtree_insert_timer_value \<equiv> rb_insert_by timer_less"

text \<open>
  The body of the loop of \<open>ngx_rbtree_insert\<close> when the parent is the child of the grandparent on side
  \<open>d\<close>: the node to go on with. Its end, shared by the two cases of a black uncle, comes first.
\<close>

definition rb_insert_lift :: "side \<Rightarrow> addr \<Rightarrow> addr \<Rightarrow> rbtree \<Rightarrow> rbtree option" where
  "rb_insert_lift d sentinel node t = do {
     n \<leftarrow> rb_mem t node;
     t \<leftarrow> put_red False (rb_parent n) t;
     n \<leftarrow> rb_mem t node;
     p \<leftarrow> rb_mem t (rb_parent n);
     t \<leftarrow> put_red True (rb_parent p) t;
     n \<leftarrow> rb_mem t node;
     p \<leftarrow> rb_mem t (rb_parent n);
     rb_rotate (opp d) sentinel (rb_parent p) t
   }"

definition rb_insert_side :: "side \<Rightarrow> addr \<Rightarrow> addr \<Rightarrow> rbtree \<Rightarrow> (addr \<times> rbtree) option" where
  "rb_insert_side d sentinel node t = do {
     n \<leftarrow> rb_mem t node;
     p \<leftarrow> rb_mem t (rb_parent n);
     g \<leftarrow> rb_mem t (rb_parent p);
     let temp = child (opp d) g;
     u \<leftarrow> rb_mem t temp;
     if rb_red u then do {
       t \<leftarrow> put_red False (rb_parent n) t;
       t \<leftarrow> put_red False temp t;
       t \<leftarrow> put_red True (rb_parent p) t;
       Some (rb_parent p, t)
     } else do {
       (node, t) \<leftarrow> (if node = child (opp d) p
                     then do { t \<leftarrow> rb_rotate d sentinel (rb_parent n) t; Some (rb_parent n, t) }
                     else Some (node, t));
       t \<leftarrow> rb_insert_lift d sentinel node t;
       Some (node, t)
     }
   }"

partial_function (option) rb_insert_loop :: "addr \<Rightarrow> addr \<Rightarrow> rbtree \<Rightarrow> rbtree option" where
  "rb_insert_loop sentinel node t =
     (if node = rb_root t then Some t
      else do {
        n \<leftarrow> rb_mem t node;
        p \<leftarrow> rb_mem t (rb_parent n);
        if \<not> rb_red p then Some t
        else do {
          g \<leftarrow> rb_mem t (rb_parent p);
          (node, t) \<leftarrow> rb_insert_side (if rb_parent n = rb_left g then Lft else Rgt) sentinel node t;
          rb_insert_loop sentinel node t
        }
      })"

definition ngx_rbtree_insert ::
  "(addr \<Rightarrow> addr \<Rightarrow> addr \<Rightarrow> rbtree \<Rightarrow> rbtree option) \<Rightarrow> addr \<Rightarrow> addr \<Rightarrow> rbtree \<Rightarrow> rbtree option"
where
  "ngx_rbtree_insert ins sentinel node t =
     (if rb_root t = sentinel then do {
        t \<leftarrow> put_parent 0 node t;
        t \<leftarrow> put_child Lft sentinel node t;
        t \<leftarrow> put_child Rgt sentinel node t;
        t \<leftarrow> put_red False node t;
        Some (t\<lparr>rb_root := node\<rparr>)
      } else do {
        t \<leftarrow> ins (rb_root t) node sentinel t;
        t \<leftarrow> rb_insert_loop sentinel node t;
        put_red False (rb_root t) t
      })"

subsection \<open>Deletion\<close>

partial_function (option) ngx_rbtree_min :: "addr \<Rightarrow> addr \<Rightarrow> rbtree \<Rightarrow> addr option" where
  "ngx_rbtree_min node sentinel t = do {
     n \<leftarrow> rb_mem t node;
     if rb_left n \<noteq> sentinel then ngx_rbtree_min (rb_left n) sentinel t else Some node
   }"

definition wipe :: "addr \<Rightarrow> rbtree \<Rightarrow> rbtree option" where
  "wipe node t = do {
     t \<leftarrow> put_child Lft 0 node t;
     t \<leftarrow> put_child Rgt 0 node t;
     t \<leftarrow> put_parent 0 node t;
     wr (\<lambda>n. n\<lparr>rb_key := 0\<rparr>) node t
   }"

text \<open>\<open>subst\<close> takes the place of \<open>node\<close>; \<open>temp\<close> has taken that of \<open>subst\<close>.\<close>

definition rb_take_place :: "addr \<Rightarrow> addr \<Rightarrow> addr \<Rightarrow> rbtree \<Rightarrow> rbtree option" where
  "rb_take_place sentinel node subst t = do {
     n \<leftarrow> rb_mem t node;
     t \<leftarrow> put_child Lft (rb_left n) subst t;
     n \<leftarrow> rb_mem t node;
     t \<leftarrow> put_child Rgt (rb_right n) subst t;
     n \<leftarrow> rb_mem t node;
     t \<leftarrow> put_parent (rb_parent n) subst t;
     n \<leftarrow> rb_mem t node;
     t \<leftarrow> put_red (rb_red n) subst t;
     t \<leftarrow> replace_child Lft node subst t;
     u \<leftarrow> rb_mem t subst;
     t \<leftarrow> (if rb_left u \<noteq> sentinel then put_parent subst (rb_left u) t else Some t);
     u \<leftarrow> rb_mem t subst;
     if rb_right u \<noteq> sentinel then put_parent subst (rb_right u) t else Some t
   }"

definition rb_transplant :: "addr \<Rightarrow> addr \<Rightarrow> addr \<Rightarrow> addr \<Rightarrow> rbtree \<Rightarrow> rbtree option" where
  "rb_transplant sentinel node subst temp t = do {
     u \<leftarrow> rb_mem t subst;
     t \<leftarrow> (if rb_parent u = node then put_parent subst temp t else put_parent (rb_parent u) temp t);
     rb_take_place sentinel node subst t
   }"

text \<open>
  The body of the loop of \<open>ngx_rbtree_delete\<close> when \<open>temp\<close> is the child on side \<open>d\<close>, in its parts: a red
  sibling \<open>w\<close>; a black one with a red child on the near side only, and the end that follows; the
  whole with a black sibling.
\<close>

definition rb_delete_red :: "side \<Rightarrow> addr \<Rightarrow> addr \<Rightarrow> rbtree \<Rightarrow> (addr \<times> rbtree) option" where
  "rb_delete_red d sentinel temp t = do {
     x \<leftarrow> rb_mem t temp;
     p \<leftarrow> rb_mem t (rb_parent x);
     let w = child (opp d) p;
     wn \<leftarrow> rb_mem t w;
     if rb_red wn then do {
       t \<leftarrow> put_red False w t;
       t \<leftarrow> put_red True (rb_parent x) t;
       t \<leftarrow> rb_rotate d sentinel (rb_parent x) t;
       x \<leftarrow> rb_mem t temp;
       p \<leftarrow> rb_mem t (rb_parent x);
       Some (child (opp d) p, t)
     } else Some (w, t)
   }"

definition rb_delete_near :: "side \<Rightarrow> addr \<Rightarrow> addr \<Rightarrow> addr \<Rightarrow> rbtree \<Rightarrow> (addr \<times> rbtree) option" where
  "rb_delete_near d sentinel temp w t = do {
     wn \<leftarrow> rb_mem t w;
     t \<leftarrow> put_red False (child d wn) t;
     t \<leftarrow> put_red True w t;
     t \<leftarrow> rb_rotate (opp d) sentinel w t;
     x \<leftarrow> rb_mem t temp;
     p \<leftarrow> rb_mem t (rb_parent x);
     Some (child (opp d) p, t)
   }"

definition rb_delete_far :: "side \<Rightarrow> addr \<Rightarrow> addr \<Rightarrow> addr \<Rightarrow> rbtree \<Rightarrow> rbtree option" where
  "rb_delete_far d sentinel temp w t = do {
     x \<leftarrow> rb_mem t temp;
     p \<leftarrow> rb_mem t (rb_parent x);
     t \<leftarrow> put_red (rb_red p) w t;
     t \<leftarrow> put_red False (rb_parent x) t;
     wn \<leftarrow> rb_mem t w;
     t \<leftarrow> put_red False (child (opp d) wn) t;
     rb_rotate d sentinel (rb_parent x) t
   }"

definition rb_delete_black :: "side \<Rightarrow> addr \<Rightarrow> addr \<Rightarrow> addr \<Rightarrow> rbtree \<Rightarrow> (addr \<times> rbtree) option" where
  "rb_delete_black d sentinel temp w t = do {
     wn \<leftarrow> rb_mem t w;
     near \<leftarrow> rb_mem t (child d wn);
     far \<leftarrow> rb_mem t (child (opp d) wn);
     if \<not> rb_red near \<and> \<not> rb_red far then do {
       t \<leftarrow> put_red True w t;
       x \<leftarrow> rb_mem t temp;
       Some (rb_parent x, t)
     } else do {
       (w, t) \<leftarrow> (if \<not> rb_red far then rb_delete_near d sentinel temp w t else Some (w, t));
       t \<leftarrow> rb_delete_far d sentinel temp w t;
       Some (rb_root t, t)
     }
   }"

partial_function (option) rb_delete_loop :: "addr \<Rightarrow> addr \<Rightarrow> rbtree \<Rightarrow> (addr \<times> rbtree) option" where
  "rb_delete_loop sentinel temp t =
     (if temp = rb_root t then Some (temp, t)
      else do {
        x \<leftarrow> rb_mem t temp;
        if rb_red x then Some (temp, t)
        else do {
          p \<leftarrow> rb_mem t (rb_parent x);
          let d = (if temp = rb_left p then Lft else Rgt);
          (w, t) \<leftarrow> rb_delete_red d sentinel temp t;
          (temp, t) \<leftarrow> rb_delete_black d sentinel temp w t;
          rb_delete_loop sentinel temp t
        }
      })"

definition ngx_rbtree_delete :: "addr \<Rightarrow> addr \<Rightarrow> rbtree \<Rightarrow> rbtree option" where
  "ngx_rbtree_delete sentinel node t = do {
     n \<leftarrow> rb_mem t node;
     (subst, temp) \<leftarrow>
       (if rb_left n = sentinel then Some (node, rb_right n)
        else if rb_right n = sentinel then Some (node, rb_left n)
        else do {
          subst \<leftarrow> ngx_rbtree_min (rb_right n) sentinel t;
          u \<leftarrow> rb_mem t subst;
          Some (subst, if rb_left u \<noteq> sentinel then rb_left u else rb_right u)
        });
     if subst = rb_root t then do {
       t \<leftarrow> put_red False temp (t\<lparr>rb_root := temp\<rparr>);
       wipe node t
     } else do {
       u \<leftarrow> rb_mem t subst;
       p \<leftarrow> rb_mem t (rb_parent u);
       t \<leftarrow> put_child (if subst = rb_left p then Lft else Rgt) temp (rb_parent u) t;
       t \<leftarrow> (if subst = node then do { u \<leftarrow> rb_mem t subst; put_parent (rb_parent u) temp t }
             else rb_transplant sentinel node subst temp t);
       t \<leftarrow> wipe node t;
       if rb_red u then Some t
       else do {
         (temp, t) \<leftarrow> rb_delete_loop sentinel temp t;
         put_red False temp t
       }
     }
   }"

end
