(* ===== verification/Rbtree_Shape.thy ===== *)
theory Rbtree_Shape
  imports Rbtree
begin

section \<open>Trees and the memory that holds them\<close>

text \<open>
  The abstract tree of the nodes of a red-black tree, a tree with a hole (a list of frames, the
  innermost first), and what it means that memory holds the tree. The primitive operations, writing
  a colour and rotating, are described once, for a node anywhere in the tree; the loops of
  insertion and deletion then work on trees with a hole.
\<close>

subsection \<open>Trees with a hole\<close>

datatype rbt = E | T bool rbt addr "64 word" rbt

datatype frame = Fr side bool addr "64 word" rbt

text \<open>A node by the side it is looked at from: \<open>x\<close> is the child on side \<open>d\<close>.\<close>

fun nd :: "side \<Rightarrow> bool \<Rightarrow> rbt \<Rightarrow> addr \<Rightarrow> 64 word \<Rightarrow> rbt \<Rightarrow> rbt" where
  "nd Lft c x a k y = T c x a k y"
| "nd Rgt c x a k y = T c y a k x"

fun mk_node :: "side \<Rightarrow> 64 word \<Rightarrow> addr \<Rightarrow> addr \<Rightarrow> addr \<Rightarrow> bool \<Rightarrow> rb_node" where
  "mk_node Lft k x y p c = \<lparr>rb_key = k, rb_left = x, rb_right = y, rb_parent = p, rb_red = c\<rparr>"
| "mk_node Rgt k x y p c = \<lparr>rb_key = k, rb_left = y, rb_right = x, rb_parent = p, rb_red = c\<rparr>"

lemma opp_opp [simp]: "opp (opp d) = d" "opp d \<noteq> d" "d \<noteq> opp d"
  by (cases d; simp)+

lemma nd_opp [simp]: "nd (opp d) c x a k y = nd d c y a k x"
  by (cases d) simp_all

lemma mk_node_opp [simp]: "mk_node (opp d) k x y p c = mk_node d k y x p c"
  by (cases d) simp_all

lemma mk_node_sel [simp]:
  "child d (mk_node d k x y p c) = x" "child (opp d) (mk_node d k x y p c) = y"
  "rb_key (mk_node d k x y p c) = k" "rb_parent (mk_node d k x y p c) = p" "rb_red (mk_node d k x y p c) = c"
  by (cases d; simp)+

lemma mk_node_upd [simp]:
  "set_child d z (mk_node d k x y p c) = mk_node d k z y p c"
  "set_child (opp d) z (mk_node d k x y p c) = mk_node d k x z p c"
  "(mk_node d k x y p c)\<lparr>rb_parent := z\<rparr> = mk_node d k x y z c"
  "(mk_node d k x y p c)\<lparr>rb_red := b\<rparr> = mk_node d k x y p b"
  "(mk_node d k x y p c)\<lparr>rb_key := k'\<rparr> = mk_node d k' x y p c"
  by (cases d; simp)+

fun ptr :: "addr \<Rightarrow> rbt \<Rightarrow> addr" where
  "ptr s E = s"
| "ptr s (T c l a k r) = a"

fun addrs :: "rbt \<Rightarrow> addr set" where
  "addrs E = {}"
| "addrs (T c l a k r) = insert a (addrs l \<union> addrs r)"

fun apart :: "rbt \<Rightarrow> bool" where
  "apart E \<longleftrightarrow> True"
| "apart (T c l a k r) \<longleftrightarrow> a \<notin> addrs l \<and> a \<notin> addrs r \<and> addrs l \<inter> addrs r = {} \<and> apart l \<and> apart r"

fun inorder :: "rbt \<Rightarrow> (addr \<times> 64 word) list" where
  "inorder E = []"
| "inorder (T c l a k r) = inorder l @ (a, k) # inorder r"

fun plug :: "rbt \<Rightarrow> frame list \<Rightarrow> rbt" where
  "plug t [] = t"
| "plug t (Fr d c a k sib # ctx) = plug (nd d c t a k sib) ctx"

fun up :: "addr \<Rightarrow> frame list \<Rightarrow> addr" where
  "up rp [] = rp"
| "up rp (Fr d c a k sib # ctx) = a"

fun ctx_addrs :: "frame list \<Rightarrow> addr set" where
  "ctx_addrs [] = {}"
| "ctx_addrs (Fr d c a k sib # ctx) = insert a (addrs sib \<union> ctx_addrs ctx)"

fun ctx_apart :: "frame list \<Rightarrow> bool" where
  "ctx_apart [] \<longleftrightarrow> True"
| "ctx_apart (Fr d c a k sib # ctx) \<longleftrightarrow>
     a \<notin> addrs sib \<and> a \<notin> ctx_addrs ctx \<and> addrs sib \<inter> ctx_addrs ctx = {} \<and> apart sib \<and> ctx_apart ctx"

lemma ptr_nd [simp]: "ptr s (nd d c x a k y) = a"
  by (cases d) simp_all

lemma addrs_nd [simp]: "addrs (nd d c x a k y) = insert a (addrs x \<union> addrs y)"
  by (cases d) auto

lemma apart_nd [simp]:
  "apart (nd d c x a k y) \<longleftrightarrow> a \<notin> addrs x \<and> a \<notin> addrs y \<and> addrs x \<inter> addrs y = {} \<and> apart x \<and> apart y"
  by (cases d) auto

lemma nd_not_E [simp]: "nd d c x a k y \<noteq> E" "E \<noteq> nd d c x a k y"
  by (cases d; simp)+

lemma addrs_plug [simp]: "addrs (plug t ctx) = addrs t \<union> ctx_addrs ctx"
  by (induction t ctx rule: plug.induct) auto

lemma apart_plug [simp]:
  "apart (plug t ctx) \<longleftrightarrow> apart t \<and> ctx_apart ctx \<and> addrs t \<inter> ctx_addrs ctx = {}"
  by (induction t ctx rule: plug.induct) auto

lemma ptr_mem: "ptr s t \<in> insert s (addrs t)"
  by (cases t) simp_all

lemma ptr_eq_s: "s \<notin> addrs t \<Longrightarrow> ptr s t = s \<longleftrightarrow> t = E"
  by (cases t) auto

lemma ptr_plug_cong: "ptr s t = ptr s t' \<Longrightarrow> ptr s (plug t ctx) = ptr s (plug t' ctx)"
proof (induction ctx arbitrary: t t')
  case (Cons f ctx)
  then show ?case by (cases f) simp
qed simp

lemma ptr_plug_Cons: "ptr s (plug t (f # ctx)) = ptr s (plug t' (f # ctx))"
  by (cases f) (simp add: ptr_plug_cong)

subsection \<open>Memory that holds a tree\<close>

fun tree_at :: "(addr \<Rightarrow> rb_node option) \<Rightarrow> addr \<Rightarrow> addr \<Rightarrow> rbt \<Rightarrow> bool" where
  "tree_at m s p E \<longleftrightarrow> True"
| "tree_at m s p (T c l a k r) \<longleftrightarrow>
     m a = Some (mk_node Lft k (ptr s l) (ptr s r) p c) \<and> tree_at m s a l \<and> tree_at m s a r"

fun ctx_at :: "(addr \<Rightarrow> rb_node option) \<Rightarrow> addr \<Rightarrow> addr \<Rightarrow> addr \<Rightarrow> frame list \<Rightarrow> bool" where
  "ctx_at m s rp p [] \<longleftrightarrow> True"
| "ctx_at m s rp p (Fr d c a k sib # ctx) \<longleftrightarrow>
     m a = Some (mk_node d k p (ptr s sib) (up rp ctx) c) \<and> tree_at m s a sib \<and> ctx_at m s rp a ctx"

lemma tree_at_nd [simp]:
  "tree_at m s p (nd d c x a k y) \<longleftrightarrow>
     m a = Some (mk_node d k (ptr s x) (ptr s y) p c) \<and> tree_at m s a x \<and> tree_at m s a y"
  by (cases d) auto

lemma tree_at_plug [simp]:
  "tree_at m s rp (plug t ctx) \<longleftrightarrow> tree_at m s (up rp ctx) t \<and> ctx_at m s rp (ptr s t) ctx"
  by (induction t ctx rule: plug.induct) auto

lemma tree_at_frame: "(\<And>q. q \<in> addrs t \<Longrightarrow> m' q = m q) \<Longrightarrow> tree_at m' s p t = tree_at m s p t"
  by (induction t arbitrary: p) auto

lemma ctx_at_frame: "(\<And>q. q \<in> ctx_addrs ctx \<Longrightarrow> m' q = m q) \<Longrightarrow> ctx_at m' s rp p ctx = ctx_at m s rp p ctx"
proof (induction ctx arbitrary: p)
  case (Cons f ctx)
  obtain d c a k sib where f: "f = Fr d c a k sib" by (cases f)
  have "m' a = m a" "tree_at m' s a sib = tree_at m s a sib" "ctx_at m' s rp a ctx = ctx_at m s rp a ctx"
    by (rule Cons.prems, simp add: f) (rule tree_at_frame Cons.IH, rule Cons.prems, simp add: f)+
  then show ?case by (simp add: f)
qed simp

lemma tree_at_upd [simp]: "q \<notin> addrs t \<Longrightarrow> tree_at (m(q \<mapsto> n)) s p t = tree_at m s p t"
  by (rule tree_at_frame) auto

lemma ctx_at_upd [simp]: "q \<notin> ctx_addrs ctx \<Longrightarrow> ctx_at (m(q \<mapsto> n)) s rp p ctx = ctx_at m s rp p ctx"
  by (rule ctx_at_frame) auto

text \<open>
  \<open>holds s rp st t\<close>: the memory holds \<open>t\<close>, with the black sentinel \<open>s\<close> for its leaves. The parent of the root is
  \<open>rp\<close>; nothing depends on it.
\<close>

definition holds :: "addr \<Rightarrow> addr \<Rightarrow> rbtree \<Rightarrow> rbt \<Rightarrow> bool" where
  "holds s rp st t \<longleftrightarrow> tree_at (rb_mem st) s rp t \<and> apart t \<and> s \<notin> addrs t \<and> rb_root st = ptr s t \<and>
     (\<exists>n. rb_mem st s = Some n \<and> \<not> rb_red n)"

text \<open>What an operation on the tree leaves alone.\<close>

definition same_off :: "addr set \<Rightarrow> rbtree \<Rightarrow> rbtree \<Rightarrow> bool" where
  "same_off A st st' \<longleftrightarrow> (\<forall>q. q \<notin> A \<longrightarrow> rb_mem st' q = rb_mem st q)"

lemma same_off_refl [simp]: "same_off A st st"
  by (simp add: same_off_def)

lemma same_off_trans: "same_off A st st' \<Longrightarrow> same_off A st' st'' \<Longrightarrow> same_off A st st''"
  by (simp add: same_off_def)

lemma same_off_mono: "same_off A st st' \<Longrightarrow> A \<subseteq> B \<Longrightarrow> same_off B st st'"
  by (auto simp: same_off_def)

lemma wr_some: "rb_mem st a = Some n \<Longrightarrow> wr f a st = Some (st\<lparr>rb_mem := (rb_mem st)(a \<mapsto> f n)\<rparr>)"
  by (simp add: wr_def)

text \<open>Writing the colour of a node.\<close>

lemma put_red_tree:
  assumes "holds s rp st (plug (nd d c x a k y) ctx)"
  shows "\<exists>st'. put_red b a st = Some st' \<and> holds s rp st' (plug (nd d b x a k y) ctx) \<and>
    same_off (addrs (plug (nd d c x a k y) ctx)) st st'"
proof -
  let ?n = "mk_node d k (ptr s x) (ptr s y) (up rp ctx) c"
  have a: "rb_mem st a = Some ?n" using assms by (simp add: holds_def)
  have root: "ptr s (plug (nd d b x a k y) ctx) = ptr s (plug (nd d c x a k y) ctx)"
    by (rule ptr_plug_cong) simp
  show ?thesis
    using assms root a by (auto simp: holds_def same_off_def wr_some)
qed

subsection \<open>Rotations\<close>

lemma nd_cases: obtains (E) "t = E" | (nd) c x a k y where "t = nd d c x a k y"
  by (cases t; cases d) (metis nd.simps)+

lemma root_in_ctx: "ctx \<noteq> [] \<Longrightarrow> ptr s (plug t ctx) \<in> ctx_addrs ctx"
proof (induction ctx arbitrary: t)
  case (Cons f ctx)
  then show ?case by (cases f; cases "ctx = []") auto
qed simp

lemma holds_root:
  assumes "holds s rp st (plug (nd d c x a k y) ctx)"
  shows "a = rb_root st \<longleftrightarrow> ctx = []"
  using assms root_in_ctx [of ctx s "nd d c x a k y"] by (cases ctx) (auto simp: holds_def)

fun top_addr :: "frame list \<Rightarrow> addr set" where
  "top_addr [] = {}"
| "top_addr (Fr d c a k sib # ctx) = {a}"

lemma top_addr_sub: "top_addr ctx \<subseteq> ctx_addrs ctx"
  by (cases ctx rule: top_addr.cases) auto

lemma replace_child_ctx:
  assumes "rb_mem st node = Some n" "rb_parent n = up rp ctx" "ctx_at (rb_mem st) s rp node ctx"
    and "node \<noteq> s" "node \<notin> ctx_addrs ctx" "ctx_apart ctx" "node = rb_root st \<longleftrightarrow> ctx = []"
  shows "\<exists>st'. replace_child d node temp st = Some st' \<and> ctx_at (rb_mem st') s rp temp ctx \<and>
    rb_root st' = (if ctx = [] then temp else rb_root st) \<and> same_off (top_addr ctx) st st'"
proof (cases ctx)
  case Nil
  then show ?thesis using assms(7) by (simp add: replace_child_def same_off_def)
next
  case (Cons f ctx')
  obtain e c a k sib where f: "f = Fr e c a k sib" by (cases f)
  note ctx = Cons [unfolded f]
  let ?p = "mk_node e k node (ptr s sib) (up rp ctx') c"
  have p: "rb_mem st a = Some ?p" "rb_parent n = a" using assms(2,3) by (simp_all add: ctx)
  have "ptr s sib \<noteq> node" using ptr_mem [of s sib] assms(4,5) ctx by auto
  then have "(if node = child d ?p then d else opp d) = e" by (cases d; cases e) auto
  then have "replace_child d node temp st = put_child e temp a st"
    using assms(1,7) p by (simp add: replace_child_def ctx)
  then show ?thesis
    using p(1) assms(3,6) by (auto simp: ctx wr_some same_off_def)
qed

lemma rotate_tree:
  assumes "holds s rp st (plug (nd d c x a k (nd d c2 y b k2 z)) ctx)"
  shows "\<exists>st'. rb_rotate d s a st = Some st' \<and> holds s rp st' (plug (nd d c2 (nd d c x a k y) b k2 z) ctx) \<and>
    same_off (addrs (plug (nd d c x a k (nd d c2 y b k2 z)) ctx)) st st'"
proof -
  let ?P = "up rp ctx" and ?X = "ptr s x" and ?Y = "ptr s y" and ?Z = "ptr s z" and ?m = "rb_mem st"
  have tr: "?m a = Some (mk_node d k ?X b ?P c)" "?m b = Some (mk_node d k2 ?Y ?Z a c2)"
    "tree_at ?m s a x" "tree_at ?m s b y" "tree_at ?m s b z" "ctx_at ?m s rp a ctx"
    and ap: "a \<notin> addrs x" "a \<noteq> b" "a \<notin> addrs y" "a \<notin> addrs z" "b \<notin> addrs x" "b \<notin> addrs y" "b \<notin> addrs z"
    "addrs x \<inter> addrs y = {}" "addrs x \<inter> addrs z = {}" "addrs y \<inter> addrs z = {}" "apart x" "apart y" "apart z"
    "ctx_apart ctx" "a \<notin> ctx_addrs ctx" "b \<notin> ctx_addrs ctx" "addrs x \<inter> ctx_addrs ctx = {}"
    "addrs y \<inter> ctx_addrs ctx = {}" "addrs z \<inter> ctx_addrs ctx = {}"
    and s: "s \<noteq> a" "s \<noteq> b" "s \<notin> addrs x" "s \<notin> addrs y" "s \<notin> addrs z" "s \<notin> ctx_addrs ctx"
    and sn: "\<exists>n. ?m s = Some n \<and> \<not> rb_red n"
    using assms by (auto simp: holds_def)
  define st1 where "st1 = st\<lparr>rb_mem := ?m(a \<mapsto> mk_node d k ?X ?Y ?P c)\<rparr>"
  have 1: "put_child (opp d) ?Y a st = Some st1" by (simp add: wr_some [OF tr(1)] st1_def)
  obtain st2 where 2: "(if ?Y \<noteq> s then put_parent a ?Y st1 else Some st1) = Some st2"
    and t2: "tree_at (rb_mem st2) s a y" "same_off (addrs y) st1 st2" "rb_root st2 = rb_root st"
  proof (cases y rule: nd_cases [where d = d])
    case E
    then show ?thesis using that by (simp add: st1_def)
  next
    case (nd c3 u e k3 v)
    have e: "rb_mem st1 e = Some (mk_node d k3 (ptr s u) (ptr s v) b c3)" "tree_at (rb_mem st1) s e u" "tree_at (rb_mem st1) s e v"
      using tr(4) ap(3) by (simp_all add: nd st1_def)
    show ?thesis
      by (rule that [of "st1\<lparr>rb_mem := (rb_mem st1)(e \<mapsto> mk_node d k3 (ptr s u) (ptr s v) a c3)\<rparr>"])
        (use e s ap(12) nd in \<open>auto simp: wr_some same_off_def st1_def\<close>)
  qed
  have m2: "rb_mem st2 q = rb_mem st1 q" if "q \<notin> addrs y" for q using t2(2) that by (simp add: same_off_def)
  have a2: "rb_mem st2 a = Some (mk_node d k ?X ?Y ?P c)" using m2 [OF ap(3)] by (simp add: st1_def)
  have b2: "rb_mem st2 b = Some (mk_node d k2 ?Y ?Z a c2)" using m2 [OF ap(6)] ap(2) tr(2) by (simp add: st1_def)
  have b1: "rb_mem st1 b = Some (mk_node d k2 ?Y ?Z a c2)" using ap(2) tr(2) by (simp add: st1_def)
  define st3 where "st3 = st2\<lparr>rb_mem := (rb_mem st2)(b \<mapsto> mk_node d k2 ?Y ?Z ?P c2)\<rparr>"
  have 3: "put_parent ?P b st2 = Some st3" by (simp add: wr_some [OF b2] st3_def)
  have a3: "rb_mem st3 a = Some (mk_node d k ?X ?Y ?P c)" using a2 ap(2) by (simp add: st3_def)
  have same3: "rb_mem st3 q = ?m q" if "q \<notin> insert a (insert b (addrs y))" for q
    using that m2 [of q] by (simp add: st3_def st1_def)
  have ctx3: "ctx_at (rb_mem st3) s rp a ctx"
    using tr(6) by (subst ctx_at_frame [where m = ?m]) (use ap in \<open>auto intro!: same3\<close>)
  obtain st4 where 4: "replace_child d a b st3 = Some st4" and t4: "ctx_at (rb_mem st4) s rp b ctx"
    "rb_root st4 = (if ctx = [] then b else rb_root st3)" "same_off (top_addr ctx) st3 st4"
    using replace_child_ctx [OF a3 _ ctx3, of d b] ap s(1) holds_root [OF assms] t2(3)
    by (auto simp: st3_def)
  have m4: "rb_mem st4 q = rb_mem st3 q" if "q \<notin> ctx_addrs ctx" for q
    using t4(3) that top_addr_sub [of ctx] by (auto simp: same_off_def)
  define st6 where "st6 = st4\<lparr>rb_mem := (rb_mem st4)(b \<mapsto> mk_node d k2 a ?Z ?P c2, a \<mapsto> mk_node d k ?X ?Y b c)\<rparr>"
  have 6: "(do { t \<leftarrow> put_child d a b st4; put_parent b a t }) = Some st6"
    using m4 [of a] m4 [of b] ap a3 by (simp add: wr_some st3_def st6_def)
  have run: "rb_rotate d s a st = Some st6"
    using 1 2 3 4 6 a2 b1 tr(1,2) by (simp add: rb_rotate_def Let_def cong: if_cong split del: if_split)
  have same6: "rb_mem st6 q = ?m q" if "q \<notin> insert a (insert b (addrs y \<union> ctx_addrs ctx))" for q
    using that m4 [of q] same3 [of q] by (simp add: st6_def)
  have y6: "tree_at (rb_mem st6) s a y"
  proof (subst tree_at_frame [where m = "rb_mem st2"])
    show "rb_mem st6 q = rb_mem st2 q" if "q \<in> addrs y" for q
    proof -
      have "q \<notin> ctx_addrs ctx" "q \<noteq> a" "q \<noteq> b" using that ap(3,6,18) by blast+
      then show ?thesis using m4 [of q] by (simp add: st6_def st3_def)
    qed
  qed (rule t2(1))
  have x6: "tree_at (rb_mem st6) s a x"
    using tr(3) by (subst tree_at_frame [where m = ?m]) (use ap in \<open>auto intro!: same6\<close>)
  have z6: "tree_at (rb_mem st6) s b z"
    using tr(5) by (subst tree_at_frame [where m = ?m]) (use ap in \<open>auto intro!: same6\<close>)
  have ctx6: "ctx_at (rb_mem st6) s rp b ctx"
    using t4(1) by (subst ctx_at_frame [where m = "rb_mem st4"]) (use ap in \<open>auto simp: st6_def\<close>)
  have root6: "rb_root st6 = ptr s (plug (nd d c2 (nd d c x a k y) b k2 z) ctx)"
  proof (cases ctx)
    case Nil
    then show ?thesis using t4(2) by (simp add: st6_def)
  next
    case (Cons f fs)
    then show ?thesis
      using t4(2) assms ptr_plug_Cons [of s _ f fs] by (simp add: st6_def st3_def t2(3) holds_def)
  qed
  have "holds s rp st6 (plug (nd d c2 (nd d c x a k y) b k2 z) ctx)"
    unfolding holds_def using x6 y6 z6 ctx6 root6 ap s sn same6 [of s] by (auto simp: st6_def)
  moreover have "same_off (addrs (plug (nd d c x a k (nd d c2 y b k2 z)) ctx)) st st6"
    unfolding same_off_def by (auto intro!: same6)
  ultimately show ?thesis using run by blast
qed

end
