(* ===== verification/Rbtree_Insert.thy ===== *)
theory Rbtree_Insert
  imports Rbtree_Shape
begin

section \<open>Insertion into the red-black tree\<close>

subsection \<open>Colours and black heights\<close>

fun is_red :: "rbt \<Rightarrow> bool" where
  "is_red E \<longleftrightarrow> False"
| "is_red (T c l a k r) \<longleftrightarrow> c"

fun paint :: "bool \<Rightarrow> rbt \<Rightarrow> rbt" where
  "paint b E = E"
| "paint b (T c l a k r) = T b l a k r"

fun bal :: "nat \<Rightarrow> rbt \<Rightarrow> bool" where
  "bal n E \<longleftrightarrow> n = 0"
| "bal n (T c l a k r) \<longleftrightarrow>
     (if c then bal n l \<and> bal n r else (case n of 0 \<Rightarrow> False | Suc m \<Rightarrow> bal m l \<and> bal m r))"

fun no_rr :: "rbt \<Rightarrow> bool" where
  "no_rr E \<longleftrightarrow> True"
| "no_rr (T c l a k r) \<longleftrightarrow> (c \<longrightarrow> \<not> is_red l \<and> \<not> is_red r) \<and> no_rr l \<and> no_rr r"

fun black_height :: "rbt \<Rightarrow> nat" where
  "black_height E = 0"
| "black_height (T c l a k r) = (if c then black_height l else Suc (black_height l))"

definition rb_ok :: "rbt \<Rightarrow> bool" where
  "rb_ok t \<longleftrightarrow> \<not> is_red t \<and> no_rr t \<and> bal (black_height t) t"

lemma bal_height: "bal n t \<Longrightarrow> black_height t = n"
  by (induction n t rule: bal.induct) (auto split: if_split_asm nat.split_asm)

lemma rb_okI: "\<not> is_red t \<Longrightarrow> no_rr t \<Longrightarrow> bal n t \<Longrightarrow> rb_ok t"
  using bal_height [of n t] by (simp add: rb_ok_def)

text \<open>The same for a tree with a hole, which stands for a subtree of black height \<open>n\<close> and the colour given.\<close>

fun ctx_bal :: "nat \<Rightarrow> frame list \<Rightarrow> bool" where
  "ctx_bal n [] \<longleftrightarrow> True"
| "ctx_bal n (Fr d c a k sib # ctx) \<longleftrightarrow> bal n sib \<and> ctx_bal (if c then n else Suc n) ctx"

fun ctx_no_rr :: "bool \<Rightarrow> frame list \<Rightarrow> bool" where
  "ctx_no_rr b [] \<longleftrightarrow> True"
| "ctx_no_rr b (Fr d c a k sib # ctx) \<longleftrightarrow> (c \<longrightarrow> \<not> b \<and> \<not> is_red sib) \<and> no_rr sib \<and> ctx_no_rr c ctx"

fun ctx_root_black :: "frame list \<Rightarrow> bool" where
  "ctx_root_black [] \<longleftrightarrow> True"
| "ctx_root_black [Fr d c a k sib] \<longleftrightarrow> \<not> c"
| "ctx_root_black (f # ctx) \<longleftrightarrow> ctx_root_black ctx"

lemma is_red_nd [simp]: "is_red (nd d c x a k y) = c"
  by (cases d) simp_all

lemma paint_nd [simp]: "paint b (nd d c x a k y) = nd d b x a k y"
  by (cases d) simp_all

lemma bal_nd [simp]:
  "bal n (nd d c x a k y) \<longleftrightarrow>
     (if c then bal n x \<and> bal n y else (case n of 0 \<Rightarrow> False | Suc m \<Rightarrow> bal m x \<and> bal m y))"
  by (cases d) (auto split: nat.split)

lemma bal_paint: "bal n t \<Longrightarrow> \<exists>m. bal m (paint False t)"
proof (cases t)
  case (T c l a k r)
  assume "bal n t"
  with T show ?thesis by (intro exI [of _ "if c then Suc n else n"]) (simp split: if_splits)
qed (intro exI [of _ 0], simp)

lemma no_rr_nd [simp]:
  "no_rr (nd d c x a k y) \<longleftrightarrow> (c \<longrightarrow> \<not> is_red x \<and> \<not> is_red y) \<and> no_rr x \<and> no_rr y"
  by (cases d) auto

lemma bal_plug: "bal n t \<Longrightarrow> ctx_bal n ctx \<Longrightarrow> \<exists>m. bal m (plug t ctx)"
proof (induction t ctx arbitrary: n rule: plug.induct)
  case (2 t d c a k sib ctx)
  from 2(1) [of "if c then n else Suc n"] 2(2,3) show ?case by simp
qed auto

lemma plug_bal: "bal m (plug t ctx) \<Longrightarrow> \<exists>n. bal n t \<and> ctx_bal n ctx"
proof (induction t ctx arbitrary: m rule: plug.induct)
  case (2 t d c a k sib ctx)
  then show ?case by (force split: if_split_asm nat.split_asm)
qed auto

lemma no_rr_plug [simp]: "no_rr (plug t ctx) \<longleftrightarrow> no_rr t \<and> ctx_no_rr (is_red t) ctx"
  by (induction t ctx rule: plug.induct) auto

lemma ctx_no_rr_black: "ctx_no_rr b ctx \<Longrightarrow> ctx_no_rr False ctx"
  by (cases ctx rule: ctx_addrs.cases) auto

lemma is_red_plug: "is_red (plug t ctx) \<longleftrightarrow> (if ctx = [] then is_red t else \<not> ctx_root_black ctx)"
proof (induction ctx arbitrary: t rule: ctx_root_black.induct)
  case (3 f g ctx)
  then show ?case by (cases f) simp
qed simp_all

lemma ctx_root_black_Cons: "ctx \<noteq> [] \<Longrightarrow> ctx_root_black (f # ctx) = ctx_root_black ctx"
  by (cases ctx) simp_all

lemma ctx_root_black_Fr [simp]:
  "ctx_root_black (Fr d c a k sib # ctx) \<longleftrightarrow> (if ctx = [] then \<not> c else ctx_root_black ctx)"
  by (cases ctx) simp_all

text \<open>In-order traversals.\<close>

fun before :: "frame list \<Rightarrow> (addr \<times> 64 word) list" where
  "before [] = []"
| "before (Fr Lft c a k sib # ctx) = before ctx"
| "before (Fr Rgt c a k sib # ctx) = before ctx @ inorder sib @ [(a, k)]"

fun behind :: "frame list \<Rightarrow> (addr \<times> 64 word) list" where
  "behind [] = []"
| "behind (Fr Lft c a k sib # ctx) = (a, k) # inorder sib @ behind ctx"
| "behind (Fr Rgt c a k sib # ctx) = behind ctx"

lemma inorder_plug: "inorder (plug t ctx) = before ctx @ inorder t @ behind ctx"
proof (induction t ctx rule: plug.induct)
  case (2 t d c a k sib ctx)
  then show ?case by (cases d) simp_all
qed simp

lemma inorder_nd_colour: "inorder (nd d b x a k y) = inorder (nd d c x a k y)"
  by (cases d) simp_all

lemma inorder_paint [simp]: "inorder (paint b t) = inorder t"
  by (cases t) simp_all

lemma inorder_rotate:
  "inorder (nd d c2 (nd d c x a k y) b k2 z) = inorder (nd d c x a k (nd d c2 y b k2 z))"
  by (cases d) simp_all

lemma paint_props [simp]:
  "ptr s (paint b t) = ptr s t" "addrs (paint b t) = addrs t" "no_rr t \<Longrightarrow> no_rr (paint False t)"
  "\<not> is_red (paint False t)"
  by (cases t; auto)+

subsection \<open>Primitive steps inside a set of addresses\<close>

lemma holds_node:
  "holds s rp st (plug (nd d c x a k y) ctx) \<Longrightarrow>
   rb_mem st a = Some (mk_node d k (ptr s x) (ptr s y) (up rp ctx) c)"
  by (simp add: holds_def)

lemma holds_red:
  assumes "holds s rp st (plug t ctx)"
  shows "\<exists>n. rb_mem st (ptr s t) = Some n \<and> rb_red n = is_red t"
proof (cases t)
  case E
  then show ?thesis using assms by (auto simp: holds_def)
next
  case (T c l a k r)
  then show ?thesis using assms by (simp add: holds_def)
qed

lemma ptr_siblings:
  assumes "holds s rp st (plug (nd d c x a k y) ctx)" "x \<noteq> E"
  shows "ptr s x \<noteq> ptr s y"
proof -
  have "addrs x \<inter> addrs y = {}" "s \<notin> addrs x" using assms(1) by (simp_all add: holds_def)
  moreover have "ptr s x \<in> addrs x" using assms(2) by (cases x) simp_all
  ultimately show ?thesis using ptr_mem [of s y] by (cases "ptr s y = s") auto
qed

lemma recolour:
  assumes "holds s rp st (plug (nd d c x a k y) ctx)" "addrs (plug (nd d c x a k y) ctx) \<subseteq> A"
  obtains st' where "put_red b a st = Some st'" "holds s rp st' (plug (nd d b x a k y) ctx)" "same_off A st st'"
  using put_red_tree [OF assms(1), of b] assms(2) by (blast intro: same_off_mono)

lemma rotated:
  assumes "holds s rp st (plug (nd d c x a k (nd d c2 y b k2 z)) ctx)"
    "addrs (plug (nd d c x a k (nd d c2 y b k2 z)) ctx) \<subseteq> A"
  obtains st' where "rb_rotate d s a st = Some st'" "holds s rp st' (plug (nd d c2 (nd d c x a k y) b k2 z) ctx)"
    "same_off A st st'"
  using rotate_tree [OF assms(1)] assms(2) by (blast intro: same_off_mono)

subsection \<open>The loop of \<open>ngx_rbtree_insert\<close>\<close>

lemma insert_lift:
  assumes "holds s rp st (plug t (Fr d True p kp y # Fr d False g kg u # ctx))" "t = nd e b l a k r"
    and "addrs (plug t (Fr d True p kp y # Fr d False g kg u # ctx)) \<subseteq> A"
  shows "\<exists>st'. rb_insert_lift d s a st = Some st' \<and>
    holds s rp st' (plug (nd d False t p kp (nd d True y g kg u)) ctx) \<and> same_off A st st'"
proof -
  have a0: "rb_mem st a = Some (mk_node e k (ptr s l) (ptr s r) p b)"
    using assms(1,2) holds_node [of s rp st e b l a k r] by (metis up.simps(2))
  obtain st1 where 1: "put_red False p st = Some st1" 
    "holds s rp st1 (plug (nd d False t p kp y) (Fr d False g kg u # ctx))" "same_off A st st1"
    by (rule recolour [of s rp st d True t p kp y "Fr d False g kg u # ctx" A False]) (use assms(1,3) in auto)
  have a1: "rb_mem st1 a = Some (mk_node e k (ptr s l) (ptr s r) p b)"
    using 1(2) assms(2) holds_node [of s rp st1 e b l a k r "Fr d False p kp y # Fr d False g kg u # ctx"] by simp
  have p1: "rb_mem st1 p = Some (mk_node d kp (ptr s t) (ptr s y) g False)" using holds_node [OF 1(2)] by simp
  obtain st2 where 2: "put_red True g st1 = Some st2"
    "holds s rp st2 (plug (nd d True (nd d False t p kp y) g kg u) ctx)" "same_off A st1 st2"
    by (rule recolour [of s rp st1 d False "nd d False t p kp y" g kg u ctx A True]) (use 1(2) assms(3) in auto)
  have a2: "rb_mem st2 a = Some (mk_node e k (ptr s l) (ptr s r) p b)"
    using 2(2) assms(2) holds_node [of s rp st2 e b l a k r "Fr d False p kp y # Fr d True g kg u # ctx"] by simp
  have p2: "rb_mem st2 p = Some (mk_node d kp (ptr s t) (ptr s y) g False)"
    using 2(2) holds_node [of s rp st2 d False t p kp y "Fr d True g kg u # ctx"] by simp
  obtain st3 where 3: "rb_rotate (opp d) s g st2 = Some st3"
    "holds s rp st3 (plug (nd (opp d) False (nd (opp d) True u g kg y) p kp t) ctx)" "same_off A st2 st3"
    by (rule rotated [of s rp st2 "opp d" True u g kg False y p kp t ctx A]) (use 2(2) assms(3) in auto)
  have "rb_insert_lift d s a st = Some st3"
    using a0 a1 a2 p1 p2 1(1) 2(1) 3(1) by (simp add: rb_insert_lift_def)
  with 3(2) show ?thesis using same_off_trans [OF same_off_trans [OF 1(3) 2(3)] 3(3)] by simp
qed

lemma insert_side_red:
  assumes "holds s rp st (plug t (Fr e True p kp y # Fr d False g kg u # ctx))" "t = nd f b l a k r" "is_red u"
    and "addrs (plug t (Fr e True p kp y # Fr d False g kg u # ctx)) \<subseteq> A"
  shows "\<exists>st'. rb_insert_side d s a st = Some (g, st') \<and>
    holds s rp st' (plug (nd d True (nd e False t p kp y) g kg (paint False u)) ctx) \<and> same_off A st st'"
proof -
  obtain c' ul uu ku ur where u: "u = nd d c' ul uu ku ur" using assms(3) by (cases u rule: nd_cases [where d = d]) auto
  have c': "c'" using assms(3) by (simp add: u)
  let ?t = "nd e False t p kp y" and ?u = "nd d False ul uu ku ur"
  have a0: "rb_mem st a = Some (mk_node f k (ptr s l) (ptr s r) p b)"
    using assms(1,2) holds_node [of s rp st f b l a k r "Fr e True p kp y # Fr d False g kg u # ctx"] by simp
  have p0: "rb_mem st p = Some (mk_node e kp (ptr s t) (ptr s y) g True)"
    using assms(1) holds_node [of s rp st e True t p kp y "Fr d False g kg u # ctx"] by simp
  have g0: "rb_mem st g = Some (mk_node d kg p uu (up rp ctx) False)"
    using assms(1) holds_node [of s rp st d False "nd e True t p kp y" g kg u ctx] by (simp add: u)
  have u0: "rb_mem st uu = Some (mk_node d ku (ptr s ul) (ptr s ur) g True)"
    using assms(1) c' holds_node [of s rp st d c' ul uu ku ur "Fr (opp d) False g kg (nd e True t p kp y) # ctx"] by (simp add: u)
  obtain st1 where 1: "put_red False p st = Some st1"
    "holds s rp st1 (plug ?t (Fr d False g kg u # ctx))" "same_off A st st1"
    by (rule recolour [of s rp st e True t p kp y "Fr d False g kg u # ctx" A False]) (use assms(1,4) in auto)
  obtain st2 where 2: "put_red False uu st1 = Some st2"
    "holds s rp st2 (plug ?u (Fr (opp d) False g kg ?t # ctx))" "same_off A st1 st2"
    by (rule recolour [of s rp st1 d c' ul uu ku ur "Fr (opp d) False g kg ?t # ctx" A False])
      (use 1(2) assms(4) in \<open>auto simp: u\<close>)
  obtain st3 where 3: "put_red True g st2 = Some st3"
    "holds s rp st3 (plug (nd d True ?t g kg ?u) ctx)" "same_off A st2 st3"
    by (rule recolour [of s rp st2 d False ?t g kg ?u ctx A True]) (use 2(2) assms(4) in \<open>auto simp: u\<close>)
  have "rb_insert_side d s a st = Some (g, st3)"
    using a0 p0 g0 u0 1(1) 2(1) 3(1) by (simp add: rb_insert_side_def)
  with 3(2) show ?thesis using same_off_trans [OF same_off_trans [OF 1(3) 2(3)] 3(3)] by (simp add: u)
qed

lemma insert_side_outer:
  assumes "holds s rp st (plug t (Fr d True p kp y # Fr d False g kg u # ctx))" "t = nd f b l a k r" "\<not> is_red u"
    and "addrs (plug t (Fr d True p kp y # Fr d False g kg u # ctx)) \<subseteq> A"
  shows "\<exists>st'. rb_insert_side d s a st = Some (a, st') \<and>
    holds s rp st' (plug (nd d False t p kp (nd d True y g kg u)) ctx) \<and> same_off A st st'"
proof -
  have a0: "rb_mem st a = Some (mk_node f k (ptr s l) (ptr s r) p b)"
    using assms(1,2) holds_node [of s rp st f b l a k r "Fr d True p kp y # Fr d False g kg u # ctx"] by simp
  have p0: "rb_mem st p = Some (mk_node d kp (ptr s t) (ptr s y) g True)"
    using assms(1) holds_node [of s rp st d True t p kp y "Fr d False g kg u # ctx"] by simp
  have g0: "rb_mem st g = Some (mk_node d kg p (ptr s u) (up rp ctx) False)"
    using assms(1) holds_node [of s rp st d False "nd d True t p kp y" g kg u ctx] by simp
  obtain un where u0: "rb_mem st (ptr s u) = Some un" "\<not> rb_red un"
    using assms(1,3) holds_red [of s rp st u "Fr (opp d) False g kg (nd d True t p kp y) # ctx"] by auto
  have "a \<noteq> ptr s y"
    using ptr_siblings [of s rp st d True t p kp y "Fr d False g kg u # ctx"] assms(1,2) by simp
  then have "rb_insert_side d s a st = map_option (Pair a) (rb_insert_lift d s a st)"
    using a0 p0 g0 u0 by (cases "rb_insert_lift d s a st") (simp_all add: rb_insert_side_def)
  with insert_lift [OF assms(1,2,4)] show ?thesis by auto
qed

lemma insert_side_inner:
  assumes "holds s rp st (plug (nd d True l a k r) (Fr (opp d) True p kp y # Fr d False g kg u # ctx))" "\<not> is_red u"
    and "addrs (plug (nd d True l a k r) (Fr (opp d) True p kp y # Fr d False g kg u # ctx)) \<subseteq> A"
  shows "\<exists>st'. rb_insert_side d s a st = Some (p, st') \<and>
    holds s rp st' (plug (nd d False (nd d True y p kp l) a k (nd d True r g kg u)) ctx) \<and> same_off A st st'"
proof -
  have a0: "rb_mem st a = Some (mk_node d k (ptr s l) (ptr s r) p True)"
    using assms(1) holds_node [of s rp st d True l a k r "Fr (opp d) True p kp y # Fr d False g kg u # ctx"] by simp
  have p0: "rb_mem st p = Some (mk_node d kp (ptr s y) a g True)"
    using assms(1) holds_node [of s rp st d True y p kp "nd d True l a k r" "Fr d False g kg u # ctx"] by simp
  have g0: "rb_mem st g = Some (mk_node d kg p (ptr s u) (up rp ctx) False)"
    using assms(1) holds_node [of s rp st d False "nd d True y p kp (nd d True l a k r)" g kg u ctx] by simp
  obtain un where u0: "rb_mem st (ptr s u) = Some un" "\<not> rb_red un"
    using assms(1,2) holds_red [of s rp st u "Fr (opp d) False g kg (nd d True y p kp (nd d True l a k r)) # ctx"] by auto
  obtain st1 where 1: "rb_rotate d s p st = Some st1"
    "holds s rp st1 (plug (nd d True (nd d True y p kp l) a k r) (Fr d False g kg u # ctx))" "same_off A st st1"
    by (rule rotated [of s rp st d True y p kp True l a k r "Fr d False g kg u # ctx" A]) (use assms(1,3) in auto)
  have "rb_insert_side d s a st = map_option (Pair p) (rb_insert_lift d s p st1)"
    using a0 p0 g0 u0 1(1) by (cases "rb_insert_lift d s p st1") (simp_all add: rb_insert_side_def)
  moreover obtain st2 where "rb_insert_lift d s p st1 = Some st2" "same_off A st1 st2"
    "holds s rp st2 (plug (nd d False (nd d True y p kp l) a k (nd d True r g kg u)) ctx)"
    using insert_lift [of s rp st1 "nd d True y p kp l" d a k r g kg u ctx d True y p kp l A] 1(2) assms(3) by auto
  ultimately show ?thesis using same_off_trans [OF 1(3)] by auto
qed

lemma plug_not_E [simp]: "t \<noteq> E \<Longrightarrow> plug t ctx \<noteq> E"
  by (induction t ctx rule: plug.induct) auto

lemma insert_loop_stop:
  assumes "holds s rp st (plug (nd f c l a k r) (Fr e False p kp y # ctx))"
  shows "rb_insert_loop s a st = Some st"
proof -
  have "a \<noteq> rb_root st" using holds_root [OF assms] by simp
  moreover have "rb_mem st a = Some (mk_node f k (ptr s l) (ptr s r) p c)" using holds_node [OF assms] by simp
  moreover have "rb_mem st p = Some (mk_node e kp a (ptr s y) (up rp ctx) False)"
    using assms holds_node [of s rp st e False "nd f c l a k r" p kp y ctx] by simp
  ultimately show ?thesis by (subst rb_insert_loop.simps) simp
qed

text \<open>
  What a repair of the tree \<open>t0\<close> promises: it returns, with a tree of the same nodes in the same order,
  of equal black heights and no red node below a red one, and writes nothing but the nodes.
\<close>

definition mended :: "addr \<Rightarrow> addr \<Rightarrow> addr set \<Rightarrow> rbt \<Rightarrow> rbtree \<Rightarrow> rbtree option \<Rightarrow> bool" where
  "mended s rp A t0 st res \<longleftrightarrow>
     (\<exists>st' t' m. res = Some st' \<and> holds s rp st' t' \<and> no_rr t' \<and> bal m t' \<and> t' \<noteq> E \<and>
        inorder t' = inorder t0 \<and> addrs t' = addrs t0 \<and> same_off A st st')"

lemma mendedI:
  assumes "same_off A st st1" "holds s rp st1 (plug t ctx)" "t \<noteq> E" "no_rr t" "ctx_no_rr (is_red t) ctx" "bal n t" "ctx_bal n ctx"
    and "inorder (plug t ctx) = inorder t0" "addrs (plug t ctx) = addrs t0"
  shows "mended s rp A t0 st (Some st1)"
proof -
  obtain m where "bal m (plug t ctx)" using bal_plug [OF assms(6,7)] by blast
  then show ?thesis
    unfolding mended_def using assms by (intro exI [of _ st1] exI [of _ "plug t ctx"] exI [of _ m]) simp
qed

lemma mended_later:
  assumes "same_off A st st1" "mended s rp A t1 st1 res" "inorder t1 = inorder t0" "addrs t1 = addrs t0"
  shows "mended s rp A t0 st res"
  using assms same_off_trans [of A st st1] unfolding mended_def by metis

text \<open>One round with a red parent: a recoloured grandparent to go on with, or the end.\<close>

lemma insert_round_red:
  assumes "holds s rp st (plug (nd f True l a k r) (Fr e True p kp y # Fr d False g kg u # ctx))" "is_red u"
    and "addrs (plug (nd f True l a k r) (Fr e True p kp y # Fr d False g kg u # ctx)) \<subseteq> A"
    and "\<And>st1. holds s rp st1 (plug (nd d True (nd e False (nd f True l a k r) p kp y) g kg (paint False u)) ctx) \<Longrightarrow>
      mended s rp A (plug (nd d True (nd e False (nd f True l a k r) p kp y) g kg (paint False u)) ctx) st1
        (rb_insert_loop s g st1)"
  shows "mended s rp A (plug (nd f True l a k r) (Fr e True p kp y # Fr d False g kg u # ctx)) st
    (do { (node, t) \<leftarrow> rb_insert_side d s a st; rb_insert_loop s node t })"
proof -
  let ?t1 = "plug (nd d True (nd e False (nd f True l a k r) p kp y) g kg (paint False u)) ctx"
  obtain st1 where 1: "rb_insert_side d s a st = Some (g, st1)" "holds s rp st1 ?t1" "same_off A st st1"
    using insert_side_red [OF assms(1) refl assms(2,3)] by blast
  have "inorder ?t1 = inorder (plug (nd f True l a k r) (Fr e True p kp y # Fr d False g kg u # ctx))"
    by (cases d; cases e) (simp_all add: inorder_plug)
  moreover have "addrs ?t1 = addrs (plug (nd f True l a k r) (Fr e True p kp y # Fr d False g kg u # ctx))" by auto
  ultimately show ?thesis using mended_later [OF 1(3) assms(4) [OF 1(2)]] 1(1) by simp
qed

lemma insert_round_outer:
  assumes "holds s rp st (plug (nd f True l a k r) (Fr d True p kp y # Fr d False g kg u # ctx))" "\<not> is_red u"
    and "addrs (plug (nd f True l a k r) (Fr d True p kp y # Fr d False g kg u # ctx)) \<subseteq> A"
    and "no_rr (nd f True l a k r)" "no_rr y" "\<not> is_red y" "no_rr u" "ctx_no_rr False ctx"
    and "bal n l" "bal n r" "bal n y" "bal n u" "ctx_bal (Suc n) ctx"
  shows "mended s rp A (plug (nd f True l a k r) (Fr d True p kp y # Fr d False g kg u # ctx)) st
    (do { (node, t) \<leftarrow> rb_insert_side d s a st; rb_insert_loop s node t })"
proof -
  let ?t = "nd f True l a k r"
  let ?t1 = "nd d False ?t p kp (nd d True y g kg u)"
  obtain st1 where 1: "rb_insert_side d s a st = Some (a, st1)" "holds s rp st1 (plug ?t1 ctx)" "same_off A st st1"
    using insert_side_outer [OF assms(1) refl assms(2,3)] by blast
  have "rb_insert_loop s a st1 = Some st1" by (rule insert_loop_stop) (use 1(2) in simp)
  moreover have "mended s rp A (plug ?t (Fr d True p kp y # Fr d False g kg u # ctx)) st (Some st1)"
  proof (rule mendedI [OF 1(3,2)])
    show "inorder (plug ?t1 ctx) = inorder (plug ?t (Fr d True p kp y # Fr d False g kg u # ctx))"
      by (cases d) (simp_all add: inorder_plug)
    show "bal (Suc n) ?t1" using assms by simp
  qed (use assms in auto)
  ultimately show ?thesis using 1(1) by simp
qed

lemma insert_round_inner:
  assumes "holds s rp st (plug (nd d True l a k r) (Fr (opp d) True p kp y # Fr d False g kg u # ctx))" "\<not> is_red u"
    and "addrs (plug (nd d True l a k r) (Fr (opp d) True p kp y # Fr d False g kg u # ctx)) \<subseteq> A"
    and "no_rr (nd d True l a k r)" "no_rr y" "\<not> is_red y" "no_rr u" "ctx_no_rr False ctx"
    and "bal n l" "bal n r" "bal n y" "bal n u" "ctx_bal (Suc n) ctx"
  shows "mended s rp A (plug (nd d True l a k r) (Fr (opp d) True p kp y # Fr d False g kg u # ctx)) st
    (do { (node, t) \<leftarrow> rb_insert_side d s a st; rb_insert_loop s node t })"
proof -
  let ?t = "nd d True l a k r"
  let ?t1 = "nd d False (nd d True y p kp l) a k (nd d True r g kg u)"
  obtain st1 where 1: "rb_insert_side d s a st = Some (p, st1)" "holds s rp st1 (plug ?t1 ctx)" "same_off A st st1"
    using insert_side_inner [OF assms(1-3)] by blast
  have "rb_insert_loop s p st1 = Some st1" by (rule insert_loop_stop) (use 1(2) in simp)
  moreover have "mended s rp A (plug ?t (Fr (opp d) True p kp y # Fr d False g kg u # ctx)) st (Some st1)"
  proof (rule mendedI [OF 1(3,2)])
    show "inorder (plug ?t1 ctx) = inorder (plug ?t (Fr (opp d) True p kp y # Fr d False g kg u # ctx))"
      by (cases d) (simp_all add: inorder_plug)
    show "bal (Suc n) ?t1" using assms by simp
  qed (use assms in auto)
  ultimately show ?thesis using 1(1) by simp
qed

lemma insert_loop_unfold:
  assumes "holds s rp st (plug (nd f True l a k r) (Fr e True p kp y # Fr d c g kg u # ctx))"
  shows "rb_insert_loop s a st = do { (node, t) \<leftarrow> rb_insert_side d s a st; rb_insert_loop s node t }"
proof -
  have "a \<noteq> rb_root st" using holds_root [OF assms] by simp
  moreover have "rb_mem st a = Some (mk_node f k (ptr s l) (ptr s r) p True)" using holds_node [OF assms] by simp
  moreover have "rb_mem st p = Some (mk_node e kp a (ptr s y) g True)"
    using assms holds_node [of s rp st e True "nd f True l a k r" p kp y "Fr d c g kg u # ctx"] by simp
  moreover have "rb_mem st g = Some (mk_node d kg p (ptr s u) (up rp ctx) c)"
    using holds_node [of s rp st d c "nd e True (nd f True l a k r) p kp y" g kg u ctx] assms by simp
  moreover have "p \<noteq> ptr s u"
    using ptr_siblings [of s rp st d c "nd e True (nd f True l a k r) p kp y" g kg u ctx] assms by simp
  then have "(if p = rb_left (mk_node d kg p (ptr s u) (up rp ctx) c) then Lft else Rgt) = d"
    by (cases d) auto
  ultimately show ?thesis by (subst rb_insert_loop.simps) simp
qed

text \<open>
  The loop, from a red node whose parent may be red: the rest of the tree is in order and the black
  heights are equal. What it leaves has at most a red root.
\<close>

lemma loop_cases:
  assumes "ctx_no_rr False ctx" "ctx_root_black ctx"
  obtains (root) "ctx = []" | (black) e p kp y ctx1 where "ctx = Fr e False p kp y # ctx1"
    | (red) e p kp y d g kg u ctx2 where "ctx = Fr e True p kp y # Fr d False g kg u # ctx2"
proof (cases ctx)
  case (Cons f ctx1)
  obtain e c p kp y where f: "f = Fr e c p kp y" by (cases f)
  show ?thesis
  proof (cases c)
    case True
    then have "ctx1 \<noteq> []" using assms(2) by (auto simp: Cons f)
    then obtain d c2 g kg u ctx2 where "ctx1 = Fr d c2 g kg u # ctx2" by (metis frame.exhaust neq_Nil_conv)
    with assms(1) True red Cons f show ?thesis by simp
  next
    case False
    with black Cons f show ?thesis by simp
  qed
qed (use root in simp)

lemma insert_loop:
  assumes "holds s rp st (plug (nd f True l a k r) ctx)" "no_rr (nd f True l a k r)" "ctx_no_rr False ctx"
    and "ctx_root_black ctx" "bal n (nd f True l a k r)" "ctx_bal n ctx"
    and "addrs (plug (nd f True l a k r) ctx) \<subseteq> A"
  shows "mended s rp A (plug (nd f True l a k r) ctx) st (rb_insert_loop s a st)"
  using assms
proof (induction "length ctx" arbitrary: ctx st f l a k r n rule: less_induct)
  case less
  let ?t = "nd f True l a k r"
  note holds = less.prems(1)
  from less.prems(3,4) show ?case
  proof (cases rule: loop_cases)
    case root
    have "a = rb_root st" using holds_root [OF holds] root by simp
    then have "rb_insert_loop s a st = Some st" by (subst rb_insert_loop.simps) simp
    then show ?thesis using less.prems root by (auto intro: mendedI [of A st st s rp ?t "[]" n])
  next
    case (black e p kp y ctx1)
    have "rb_insert_loop s a st = Some st" by (rule insert_loop_stop) (use holds black in simp)
    then show ?thesis using less.prems black by (auto intro: mendedI [of A st st s rp ?t ctx n])
  next
    case (red e p kp y d g kg u ctx2)
    note inv = less.prems(2-6) [unfolded red] and holds = holds [unfolded red] and sub = less.prems(7) [unfolded red]
    note step = insert_loop_unfold [OF holds]
    show ?thesis
    proof (cases "is_red u")
      case True
      have "ctx_root_black ctx2" using inv(3) by (cases "ctx2 = []") (simp_all add: ctx_root_black_Cons)
      moreover have "bal (Suc n) (paint False u)" using True inv(5) by (cases u) simp_all
      ultimately have "mended s rp A (plug (nd d True (nd e False ?t p kp y) g kg (paint False u)) ctx2) st1 (rb_insert_loop s g st1)"
        if "holds s rp st1 (plug (nd d True (nd e False ?t p kp y) g kg (paint False u)) ctx2)" for st1
        by (intro less.hyps [where n = "Suc n"]) (use that inv sub in \<open>simp_all add: red\<close>)
      then show ?thesis unfolding red step by (rule insert_round_red [OF holds True sub])
    next
      case black: False
      show ?thesis
      proof (cases "e = d")
        case True
        show ?thesis unfolding red step
          using insert_round_outer [of s rp st f l a k r d p kp y g kg u ctx2 A n] holds sub inv black True by simp
      next
        case False
        then have e: "e = opp d" by (cases e; cases d) simp_all
        obtain l' r' where t: "?t = nd d True l' a k r'" by (cases f; cases d) auto
        show ?thesis unfolding red step t
          using insert_round_inner [of s rp st d l' a k r' p kp y g kg u ctx2 A n] holds sub inv black
          unfolding e t by simp
      qed
    qed
  qed
qed

subsection \<open>The callback\<close>

text \<open>
  \<open>tree->insert\<close> is a function of the user of the tree. What \<open>ngx_rbtree_insert\<close> relies on: it hangs the
  node, red and without children, under a node of the tree; \<open>place\<close> says where.
\<close>

locale rb_insert_callback =
  fixes ins :: "addr \<Rightarrow> addr \<Rightarrow> addr \<Rightarrow> rbtree \<Rightarrow> rbtree option"
    and place :: "addr \<Rightarrow> 64 word \<Rightarrow> rbt \<Rightarrow> frame list"
  assumes place_hole: "plug E (place a k t) = t"
    and attach: "holds s rp st t \<Longrightarrow> t \<noteq> E \<Longrightarrow> rb_mem st node = Some n \<Longrightarrow> node \<noteq> s \<Longrightarrow> node \<notin> addrs t \<Longrightarrow>
      \<exists>st'. ins (ptr s t) node s st = Some st' \<and>
        holds s rp st' (plug (T True E node (rb_key n) E) (place node (rb_key n) t)) \<and>
        same_off (insert node (addrs t)) st st'"
begin

lemma insert_into_empty:
  assumes "holds s rp st E" "rb_mem st node = Some n" "node \<noteq> s"
  shows "\<exists>st'. ngx_rbtree_insert ins s node st = Some st' \<and> holds s 0 st' (T False E node (rb_key n) E) \<and>
    same_off {node} st st'"
  using assms by (auto simp: ngx_rbtree_insert_def holds_def wr_some same_off_def)

lemma blacken:
  assumes "holds s rp st t" "t \<noteq> E" "addrs t \<subseteq> A"
  obtains st' where "put_red False (rb_root st) st = Some st'" "holds s rp st' (paint False t)" "same_off A st st'"
proof -
  obtain c l a k r where t: "t = T c l a k r" using assms(2) by (cases t) simp_all
  have "rb_root st = a" using assms(1) by (simp add: holds_def t)
  with recolour [of s rp st Lft c l a k r "[]" A False] assms(1,3) that show ?thesis by (auto simp: t)
qed

lemma insert_correct:
  assumes "holds s rp st t" "rb_ok t" "rb_mem st node = Some n" "node \<noteq> s" "node \<notin> addrs t"
  shows "\<exists>st' rp' t'. ngx_rbtree_insert ins s node st = Some st' \<and> holds s rp' st' t' \<and> rb_ok t' \<and>
    inorder t' = before (place node (rb_key n) t) @ (node, rb_key n) # behind (place node (rb_key n) t) \<and>
    same_off (insert node (addrs t)) st st'"
proof (cases "t = E")
  case True
  have "before (place node (rb_key n) E) = [] \<and> behind (place node (rb_key n) E) = []"
    using inorder_plug [of E "place node (rb_key n) E"] place_hole [of node "rb_key n" E] by simp
  moreover obtain st' where "ngx_rbtree_insert ins s node st = Some st'" "holds s 0 st' (T False E node (rb_key n) E)"
    "same_off {node} st st'"
    using insert_into_empty [of s rp st node n] assms True by auto
  moreover have "rb_ok (T False E node (rb_key n) E)" by (simp add: rb_ok_def)
  ultimately show ?thesis
    using True by (intro exI [of _ st'] exI [of _ 0] exI [of _ "T False E node (rb_key n) E"]) simp
next
  case False
  let ?A = "insert node (addrs t)" and ?t = "nd Lft True E node (rb_key n) E" and ?ctx = "place node (rb_key n) t"
  obtain st1 where 1: "ins (ptr s t) node s st = Some st1" "holds s rp st1 (plug ?t ?ctx)" "same_off ?A st st1"
    using attach [OF assms(1) False assms(3-5)] by auto
  have root: "rb_root st = ptr s t" "rb_root st \<noteq> s"
    using assms(1) False ptr_eq_s [of s t] by (auto simp: holds_def)
  have hole: "addrs t = ctx_addrs ?ctx" "no_rr (plug E ?ctx)" "?ctx \<noteq> []" "bal (black_height t) (plug E ?ctx)" "\<not> is_red (plug E ?ctx)"
    using addrs_plug [of E ?ctx] place_hole [of node "rb_key n" t] assms(2) False
    by (auto simp: rb_ok_def) 
  obtain m where m: "bal m E" "ctx_bal m ?ctx" using plug_bal [OF hole(4)] by blast
  have "mended s rp ?A (plug ?t ?ctx) st1 (rb_insert_loop s node st1)"
    by (rule insert_loop [OF 1(2), where n = m]) (use hole m in \<open>auto simp: is_red_plug split: if_split_asm\<close>)
  then obtain st2 t2 m2 where 2: "rb_insert_loop s node st1 = Some st2" "holds s rp st2 t2" "no_rr t2" "bal m2 t2" "t2 \<noteq> E"
    "inorder t2 = inorder (plug ?t ?ctx)" "addrs t2 = addrs (plug ?t ?ctx)" "same_off ?A st1 st2"
    unfolding mended_def by blast
  obtain st3 where 3: "put_red False (rb_root st2) st2 = Some st3" "holds s rp st3 (paint False t2)" "same_off ?A st2 st3"
    by (rule blacken [OF 2(2,5), of ?A]) (use 2(7) hole(1) in auto)
  obtain m3 where "bal m3 (paint False t2)" using bal_paint [OF 2(4)] by blast
  then have "rb_ok (paint False t2)" using 2(3) by (intro rb_okI) simp_all
  moreover have "ngx_rbtree_insert ins s node st = Some st3"
    using root 1(1) 2(1) 3(1) by (simp add: ngx_rbtree_insert_def)
  ultimately show ?thesis
    using 3(2) 2(6) same_off_trans [OF same_off_trans [OF 1(3) 2(8)] 3(3)]
    by (intro exI [of _ st3] exI [of _ rp] exI [of _ "paint False t2"]) (simp add: inorder_plug)
qed

end

subsection \<open>The two callbacks of \<open>ngx_rbtree.c\<close>\<close>

fun leaf_ctx :: "(addr \<times> 64 word \<Rightarrow> addr \<times> 64 word \<Rightarrow> bool) \<Rightarrow> addr \<times> 64 word \<Rightarrow> rbt \<Rightarrow> frame list \<Rightarrow> frame list" where
  "leaf_ctx lt x E ctx = ctx"
| "leaf_ctx lt x (T c l a k' r) ctx =
     (if lt x (a, k') then leaf_ctx lt x l (Fr Lft c a k' r # ctx) else leaf_ctx lt x r (Fr Rgt c a k' l # ctx))"

lemma leaf_ctx_hole: "plug E (leaf_ctx lt x t ctx) = plug t ctx"
  by (induction lt x t ctx rule: leaf_ctx.induct) auto

lemma descend_to_leaf:
  assumes "holds s rp st (plug t ctx)" "t \<noteq> E" "rb_mem st node = Some n"
  shows "\<exists>d c a k' sib ctx'. leaf_ctx lt (node, rb_key n) t ctx = Fr d c a k' sib # ctx' \<and>
    rb_descend lt s node (ptr s t) st = Some (a, d)"
  using assms
proof (induction lt "(node, rb_key n)" t ctx rule: leaf_ctx.induct)
  case (2 lt c l a k' r ctx)
  let ?d = "if lt (node, rb_key n) (a, k') then Lft else Rgt" and ?x = "if lt (node, rb_key n) (a, k') then l else r"
    and ?y = "if lt (node, rb_key n) (a, k') then r else l"
  have t: "T c l a k' r = nd ?d c ?x a k' ?y" by simp
  have h: "holds s rp st (plug ?x (Fr ?d c a k' ?y # ctx))" using 2(3) unfolding t by simp
  have a: "rb_mem st a = Some (mk_node ?d k' (ptr s ?x) (ptr s ?y) (up rp ctx) c)"
    by (rule holds_node) (use 2(3) t in simp)
  have x: "ptr s ?x = s \<longleftrightarrow> ?x = E" by (rule ptr_eq_s) (use 2(3) in \<open>auto simp: holds_def\<close>)
  have step: "rb_descend lt s node a st = (if ?x = E then Some (a, ?d) else rb_descend lt s node (ptr s ?x) st)"
    using a 2(5) x by (subst rb_descend.simps) (simp add: Let_def)
  show ?case
  proof (cases "?x = E")
    case True
    then show ?thesis using step by (auto split: if_splits)
  next
    case False
    then show ?thesis using step h 2(1,2,5) by (auto split: if_splits)
  qed
qed simp

lemma attach_by:
  assumes "holds s rp st t" "t \<noteq> E" "rb_mem st node = Some n" "node \<noteq> s" "node \<notin> addrs t"
  shows "\<exists>st'. rb_insert_by lt (ptr s t) node s st = Some st' \<and>
    holds s rp st' (plug (T True E node (rb_key n) E) (leaf_ctx lt (node, rb_key n) t [])) \<and>
    same_off (insert node (addrs t)) st st'"
proof -
  obtain d c a k' sib ctx where leaf: "leaf_ctx lt (node, rb_key n) t [] = Fr d c a k' sib # ctx"
    and run: "rb_descend lt s node (ptr s t) st = Some (a, d)"
    using descend_to_leaf [of s rp st t "[]" node n lt] assms(1-3) by auto
  let ?e = "T True E node (rb_key n) E"
  have t: "t = plug (nd d c E a k' sib) ctx" using leaf_ctx_hole [of lt "(node, rb_key n)" t "[]"] leaf by simp
  have a: "rb_mem st a = Some (mk_node d k' s (ptr s sib) (up rp ctx) c)"
    using holds_node [of s rp st d c E a k' sib ctx] assms(1) t by simp
  have neq: "a \<noteq> node" using assms(5) t by auto
  let ?st = "st\<lparr>rb_mem := (rb_mem st)(a \<mapsto> mk_node d k' node (ptr s sib) (up rp ctx) c,
    node \<mapsto> mk_node Lft (rb_key n) s s a True)\<rparr>"
  have "rb_insert_by lt (ptr s t) node s st = Some ?st"
    using run a assms(3) neq by (cases n) (simp add: rb_insert_by_def wr_some)
  moreover have "ptr s (plug (nd d c ?e a k' sib) ctx) = ptr s (plug (nd d c E a k' sib) ctx)" by (rule ptr_plug_cong) simp
  then have "holds s rp ?st (plug ?e (Fr d c a k' sib # ctx))"
    using assms(1,4,5) neq unfolding t by (auto simp: holds_def)
  moreover have "same_off (insert node (addrs t)) st ?st" by (auto simp: same_off_def t)
  ultimately show ?thesis unfolding leaf by blast
qed

interpretation by_less: rb_insert_callback "rb_insert_by lt" "\<lambda>a k t. leaf_ctx lt (a, k) t []" for lt
  by unfold_locales (simp_all add: leaf_ctx_hole attach_by)

subsection \<open>Order\<close>

text \<open>\<open>rank\<close> is the value by which a comparison orders the nodes of a tree.\<close>

definition ranked :: "(addr \<times> 64 word \<Rightarrow> 'r::linorder) \<Rightarrow> (addr \<times> 64 word) list \<Rightarrow> bool" where
  "ranked rank xs \<longleftrightarrow> sorted (map rank xs)"

definition put_in_order ::
  "(addr \<times> 64 word \<Rightarrow> 'r::linorder) \<Rightarrow> addr \<times> 64 word \<Rightarrow> (addr \<times> 64 word) list \<Rightarrow> (addr \<times> 64 word) list"
where
  "put_in_order rank x xs = filter (\<lambda>y. rank y \<le> rank x) xs @ x # filter (\<lambda>y. rank x < rank y) xs"

lemma ranked_append:
  "ranked rank (xs @ x # ys) \<longleftrightarrow> ranked rank xs \<and> ranked rank ys \<and>
     (\<forall>y \<in> set xs. rank y \<le> rank x) \<and> (\<forall>y \<in> set ys. rank x \<le> rank y) \<and>
     (\<forall>y \<in> set xs. \<forall>z \<in> set ys. rank y \<le> rank z)"
  by (auto simp: ranked_def sorted_append ball_Un)

lemma filter_all: "(\<And>x. x \<in> set xs \<Longrightarrow> P x) \<Longrightarrow> filter P xs = xs" "(\<And>x. x \<in> set xs \<Longrightarrow> \<not> P x) \<Longrightarrow> filter P xs = []"
  by (simp_all add: filter_empty_conv)

lemma put_in_order_split:
  assumes "ranked rank (xs @ y # ys)"
  shows "put_in_order rank x (xs @ y # ys) =
    (if rank x < rank y then put_in_order rank x xs @ y # ys else xs @ y # put_in_order rank x ys)"
proof (cases "rank x < rank y")
  case True
  have "filter (\<lambda>z. rank z \<le> rank x) ys = []" "filter (\<lambda>z. rank x < rank z) ys = ys"
    using assms True by (force simp: ranked_append intro!: filter_all)+
  with True show ?thesis by (simp add: put_in_order_def)
next
  case False
  have "filter (\<lambda>z. rank z \<le> rank x) xs = xs" "filter (\<lambda>z. rank x < rank z) xs = []"
    using assms False by (force simp: ranked_append intro!: filter_all)+
  with False show ?thesis by (simp add: put_in_order_def)
qed

lemma leaf_ctx_order:
  assumes "ranked rank (inorder t)" "list_all (\<lambda>y. lt x y \<longleftrightarrow> rank x < rank y) (inorder t)"
  shows "before (leaf_ctx lt x t ctx) @ x # behind (leaf_ctx lt x t ctx) =
    before ctx @ put_in_order rank x (inorder t) @ behind ctx"
  using assms
proof (induction lt x t ctx rule: leaf_ctx.induct)
  case (1 lt x ctx)
  then show ?case by (simp add: put_in_order_def)
next
  case (2 lt x c l a k r ctx)
  have r: "ranked rank (inorder l)" "ranked rank (inorder r)"
    using 2(3) by (simp_all add: ranked_append)
  have lt: "lt x (a, k) \<longleftrightarrow> rank x < rank (a, k)" using 2(4) by simp
  show ?case
  proof (cases "lt x (a, k)")
    case True
    have "before (leaf_ctx lt x l (Fr Lft c a k r # ctx)) @ x # behind (leaf_ctx lt x l (Fr Lft c a k r # ctx)) =
        before ctx @ put_in_order rank x (inorder l) @ (a, k) # inorder r @ behind ctx"
      using 2(1) [OF True r(1)] 2(4) by simp
    then show ?thesis
      using True lt put_in_order_split [OF 2(3) [unfolded inorder.simps], of x] by simp
  next
    case False
    have "before (leaf_ctx lt x r (Fr Rgt c a k l # ctx)) @ x # behind (leaf_ctx lt x r (Fr Rgt c a k l # ctx)) =
        before ctx @ inorder l @ (a, k) # put_in_order rank x (inorder r) @ behind ctx"
      using 2(2) [OF False r(2)] 2(4) by simp
    then show ?thesis
      using False lt put_in_order_split [OF 2(3) [unfolded inorder.simps], of x] by simp
  qed
qed

lemma set_put_in_order: "set (put_in_order rank x xs) = insert x (set xs)"
  by (auto simp: put_in_order_def)

lemma ranked_put_in_order: "ranked rank xs \<Longrightarrow> ranked rank (put_in_order rank x xs)"
  unfolding put_in_order_def ranked_append
  by (auto simp: ranked_def sorted_filter)

lemma insert_in_order:
  assumes "holds s rp st t" "rb_ok t" "ranked rank (inorder t)"
    and "rb_mem st node = Some n" "node \<notin> insert s (addrs t)"
    and "\<And>y. y \<in> set (inorder t) \<Longrightarrow> lt (node, rb_key n) y \<longleftrightarrow> rank (node, rb_key n) < rank y"
  shows "\<exists>st' rp' t'. ngx_rbtree_insert (rb_insert_by lt) s node st = Some st' \<and> holds s rp' st' t' \<and> rb_ok t' \<and>
    inorder t' = put_in_order rank (node, rb_key n) (inorder t) \<and> same_off (insert node (addrs t)) st st'"
proof -
  have "list_all (\<lambda>y. lt (node, rb_key n) y \<longleftrightarrow> rank (node, rb_key n) < rank y) (inorder t)"
    using assms(6) by (simp add: list_all_iff)
  from leaf_ctx_order [where rank = rank and lt = lt and x = "(node, rb_key n)" and ctx = "[]", OF assms(3) this] show ?thesis
    using by_less.insert_correct [OF assms(1,2,4), of lt] assms(5) by simp
qed

lemma key_less_rank: "key_less x y \<longleftrightarrow> (\<lambda>(a, k). unat k) x < (\<lambda>(a, k). unat k) y"
  by (cases x; cases y) (simp add: word_less_nat_alt)

text \<open>Timers: keys less than \<open>2^63\<close> behind a common point, in the order of their distance from it, wherever the
  clock wraps.\<close>

lemma word_negative: "sint (w :: 64 word) < 0 \<longleftrightarrow> 2 ^ 63 \<le> unat w"
proof -
  have "uint w < 18446744073709551616" using uint_lt2p [of w] by simp
  then have div: "uint w div 9223372036854775808 = (if 9223372036854775808 \<le> uint w then 1 else 0)"
    using uint_nonnegative [of w] by (cases "9223372036854775808 \<le> uint w") (simp_all add: div_pos_geq div_pos_pos_trivial)
  have "sint w < 0 \<longleftrightarrow> odd (uint w div 9223372036854775808)"
    by (simp add: sint_uint signed_take_bit_negative_iff bit_iff_odd)
  then have "sint w < 0 \<longleftrightarrow> 9223372036854775808 \<le> uint w" unfolding div by simp
  moreover have "uint w = int (unat w)" by simp
  ultimately have "sint w < 0 \<longleftrightarrow> 9223372036854775808 \<le> unat w" by linarith
  then show ?thesis by (simp only: power_numeral) simp
qed

lemma timer_less_rank:
  assumes "unat (k - origin) < 2 ^ 63" "unat (k' - origin) < 2 ^ 63"
  shows "timer_less (a, k) (a', k') \<longleftrightarrow> unat (k - origin) < unat (k' - origin)"
proof -
  define i j where "i = k - origin" and "j = k' - origin"
  have small: "unat i < 2 ^ 63" "unat j < 2 ^ 63" using assms by (simp_all add: i_def j_def)
  have "k - k' = i - j" by (simp add: i_def j_def)
  moreover have "unat (i - j) = (if unat j \<le> unat i then unat i - unat j else unat i + 2 ^ 64 - unat j)"
    by (simp add: unat_sub_if')
  then have "2 ^ 63 \<le> unat (i - j) \<longleftrightarrow> unat i < unat j"
    using small by (cases "unat j \<le> unat i") simp_all
  ultimately show ?thesis unfolding timer_less.simps word_negative by (simp add: i_def j_def)
qed

lemma insert_timer_in_order:
  assumes "holds s rp st t" "rb_ok t" "ranked (\<lambda>(a, k). unat (k - origin)) (inorder t)"
    and "list_all (\<lambda>(a, k). unat (k - origin) < 2 ^ 63) (inorder t)"
    and "rb_mem st node = Some n" "unat (rb_key n - origin) < 2 ^ 63" "node \<notin> insert s (addrs t)"
  shows "\<exists>st' rp' t'. ngx_rbtree_insert (rb_insert_by timer_less) s node st = Some st' \<and> holds s rp' st' t' \<and> rb_ok t' \<and>
    inorder t' = put_in_order (\<lambda>(a, k). unat (k - origin)) (node, rb_key n) (inorder t) \<and> same_off (insert node (addrs t)) st st'"
proof (rule insert_in_order [OF assms(1-3,5,7)])
  fix y assume "y \<in> set (inorder t)"
  then show "timer_less (node, rb_key n) y \<longleftrightarrow>
      (\<lambda>(a, k). unat (k - origin)) (node, rb_key n) < (\<lambda>(a, k). unat (k - origin)) y"
    using assms(4) timer_less_rank [OF assms(6)] by (cases y) (auto simp: list_all_iff)
qed

subsection \<open>Properties\<close>

text \<open>A sentinel at 1, a tree of the one node 2, and a node at 3 to be inserted.\<close>

definition sample_mem :: "64 word \<Rightarrow> 64 word \<Rightarrow> rbtree" where
  "sample_mem k k' = \<lparr>rb_mem = [1 \<mapsto> mk_node Lft 0 0 0 0 False, 2 \<mapsto> mk_node Lft k 1 1 0 False, 3 \<mapsto> mk_node Lft k' 0 0 0 False],
     rb_root = 2\<rparr>"

lemma sample_holds:
  "holds 1 0 (sample_mem k k') (T False E 2 k E)" "rb_ok (T False E 2 k E)"
  "rb_mem (sample_mem k k') 3 = Some (mk_node Lft k' 0 0 0 False)"
  by (simp_all add: sample_mem_def holds_def rb_ok_def)

text \<open>C2: \<open>ngx_rbtree_insert\<close> with \<open>ngx_rbtree_insert_value\<close>, on any memory that holds a red-black tree: it
  returns, and the memory then holds a red-black tree again (equal black heights, no red node below a
  red one, a black root) with the new node in its place in the order of the keys, behind equal ones;
  no other node, and nothing but the nodes of the tree, is written. The comments of the file say that the keys
  are unique and that a node with an equal key replaces the old one; the code keeps both, and this is what is shown.\<close>

theorem rbtree_insert_value_correct:
  assumes "holds s rp st t" "rb_ok t" "ranked (\<lambda>(a, k). unat k) (inorder t)"
    and "rb_mem st node = Some n" "node \<notin> insert s (addrs t)"
  shows "\<exists>st' rp' t'. ngx_rbtree_insert (rb_insert_by key_less) s node st = Some st' \<and> holds s rp' st' t' \<and> rb_ok t' \<and>
    inorder t' = put_in_order (\<lambda>(a, k). unat k) (node, rb_key n) (inorder t) \<and> same_off (insert node (addrs t)) st st'"
  by (rule insert_in_order [OF assms(1-5)]) (rule key_less_rank)

lemma rbtree_insert_value_correct_witness:
  "(\<exists>st' rp' t'. ngx_rbtree_insert (rb_insert_by key_less) 1 3 (sample_mem 7 5) = Some st' \<and> holds 1 rp' st' t' \<and>
     inorder t' = [(3, 5), (2, 7)]) \<and>
   (\<exists>st' rp' t'. ngx_rbtree_insert (rb_insert_by key_less) 1 3 (sample_mem 7 7) = Some st' \<and> holds 1 rp' st' t' \<and>
     inorder t' = [(2, 7), (3, 7)])"
  using rbtree_insert_value_correct [OF sample_holds(1,2) _ sample_holds(3), of 7 5]
    rbtree_insert_value_correct [OF sample_holds(1,2) _ sample_holds(3), of 7 7]
  by (auto simp: ranked_def put_in_order_def)

text \<open>With \<open>ngx_rbtree_insert_timer_value\<close> the order is that of the timers, also when the millisecond
  clock wraps: as long as all keys lie within half of its range behind some point, the tree is kept
  in the order of their distance from that point.\<close>

theorem rbtree_insert_timer_correct:
  assumes "holds s rp st t" "rb_ok t" "ranked (\<lambda>(a, k). unat (k - origin)) (inorder t)"
    and "list_all (\<lambda>(a, k). unat (k - origin) < 2 ^ 63) (inorder t)"
    and "rb_mem st node = Some n" "unat (rb_key n - origin) < 2 ^ 63" "node \<notin> insert s (addrs t)"
  shows "\<exists>st' rp' t'. ngx_rbtree_insert (rb_insert_by timer_less) s node st = Some st' \<and> holds s rp' st' t' \<and> rb_ok t' \<and>
    inorder t' = put_in_order (\<lambda>(a, k). unat (k - origin)) (node, rb_key n) (inorder t) \<and> same_off (insert node (addrs t)) st st'"
  by (rule insert_timer_in_order [OF assms])

lemma rbtree_insert_timer_correct_witness:
  "\<exists>st' rp' t'. ngx_rbtree_insert (rb_insert_by timer_less) 1 3 (sample_mem (- 5) 2) = Some st' \<and> holds 1 rp' st' t' \<and>
    inorder t' = [(2, - 5), (3, 2)]"
  using rbtree_insert_timer_correct [OF sample_holds(1,2) _ _ sample_holds(3), of "- 10" "- 5" 2]
  by (auto simp: ranked_def put_in_order_def)

end
