(* ===== verification/Rbtree_Delete.thy ===== *)
theory Rbtree_Delete
  imports Rbtree_Insert
begin

section \<open>Deletion from the red-black tree\<close>

subsection \<open>The loop of \<open>ngx_rbtree_delete\<close>\<close>

text \<open>
  The loop works at a place in the tree whose black height is one too small. The subtree there may be
  empty: then \<open>temp\<close> is the sentinel, whose parent field says where the place is.
\<close>

definition at_hole :: "addr \<Rightarrow> addr \<Rightarrow> rbtree \<Rightarrow> rbt \<Rightarrow> frame list \<Rightarrow> bool" where
  "at_hole s rp st t ctx \<longleftrightarrow> holds s rp st (plug t ctx) \<and>
     (\<exists>n. rb_mem st (ptr s t) = Some n \<and> rb_parent n = up rp ctx \<and> rb_red n = is_red t)"

text \<open>What writes only nodes of the tree keeps the sentinel, and so the place.\<close>

lemma at_hole_same:
  assumes "at_hole s rp st t ctx" "holds s rp st' (plug t ctx')" "same_off (addrs (plug t ctx)) st st'"
    and "t = E \<Longrightarrow> up rp ctx' = up rp ctx"
  shows "at_hole s rp st' t ctx'"
proof (cases t)
  case E
  then have "s \<notin> addrs (plug t ctx)" using assms(1) by (simp add: at_hole_def holds_def)
  then have "rb_mem st' s = rb_mem st s" using assms(3) unfolding same_off_def by blast
  then show ?thesis using assms(1,2,4) E by (simp add: at_hole_def)
next
  case (T c l a k r)
  then show ?thesis using assms(2) by (simp add: at_hole_def holds_def)
qed

lemma at_hole_node:
  assumes "at_hole s rp st t (Fr d c p kp w # ctx)"
  obtains n where "rb_mem st (ptr s t) = Some n" "rb_parent n = p" "rb_red n = is_red t"
    "rb_mem st p = Some (mk_node d kp (ptr s t) (ptr s w) (up rp ctx) c)"
  using assms holds_node [of s rp st d c t p kp w ctx] by (auto simp: at_hole_def)

lemma delete_red:
  assumes "at_hole s rp st t (Fr d False p kp (nd d True near w wk far) # ctx)"
    and "addrs (plug t (Fr d False p kp (nd d True near w wk far) # ctx)) \<subseteq> A"
  shows "\<exists>st'. rb_delete_red d s (ptr s t) st = Some (ptr s near, st') \<and>
    at_hole s rp st' t (Fr d True p kp near # Fr d False w wk far # ctx) \<and> same_off A st st'"
proof -
  let ?w = "nd d True near w wk far" and ?w' = "nd d False near w wk far"
  let ?A = "addrs (plug t (Fr d False p kp ?w # ctx))"
  note h = assms(1)
  obtain n where n: "rb_mem st (ptr s t) = Some n" "rb_parent n = p"
    and p: "rb_mem st p = Some (mk_node d kp (ptr s t) w (up rp ctx) False)"
    using at_hole_node [OF h] by (metis ptr_nd)
  have h0: "holds s rp st (plug ?w (Fr (opp d) False p kp t # ctx))" using h by (simp add: at_hole_def)
  have w: "rb_mem st w = Some (mk_node d wk (ptr s near) (ptr s far) p True)"
    using holds_node [OF h0] by simp
  obtain st1 where 1: "put_red False w st = Some st1" "holds s rp st1 (plug ?w' (Fr (opp d) False p kp t # ctx))" "same_off ?A st st1"
    by (rule recolour [OF h0, of ?A False]) auto
  obtain st2 where 2: "put_red True p st1 = Some st2" "holds s rp st2 (plug (nd d True t p kp ?w') ctx)" "same_off ?A st1 st2"
    by (rule recolour [of s rp st1 d False t p kp ?w' ctx ?A True]) (use 1(2) in auto)
  obtain st3 where 3: "rb_rotate d s p st2 = Some st3"
    "holds s rp st3 (plug (nd d False (nd d True t p kp near) w wk far) ctx)" "same_off ?A st2 st3"
    by (rule rotated [OF 2(2), of ?A]) auto
  have same: "same_off ?A st st3" by (rule same_off_trans [OF same_off_trans [OF 1(3) 2(3)] 3(3)])
  have h3: "at_hole s rp st3 t (Fr d True p kp near # Fr d False w wk far # ctx)"
    by (rule at_hole_same [OF h _ same]) (use 3(2) in simp_all)
  obtain n3 where n3: "rb_mem st3 (ptr s t) = Some n3" "rb_parent n3 = p"
    "rb_mem st3 p = Some (mk_node d kp (ptr s t) (ptr s near) w True)"
    using at_hole_node [OF h3] by (metis up.simps(2))
  have "rb_delete_red d s (ptr s t) st = Some (ptr s near, st3)"
    using n p w 1(1) 2(1) 3(1) n3 by (simp add: rb_delete_red_def)
  then show ?thesis using h3 same_off_mono [OF same assms(2)] by blast
qed

text \<open>A black sibling without red children becomes red, and the place moves up.\<close>

lemma delete_black_up:
  assumes "at_hole s rp st t (Fr d c p kp (nd d False near w wk far) # ctx)" "\<not> is_red near" "\<not> is_red far"
    and "addrs (plug t (Fr d c p kp (nd d False near w wk far) # ctx)) \<subseteq> A"
  shows "\<exists>st'. rb_delete_black d s (ptr s t) w st = Some (p, st') \<and>
    at_hole s rp st' (nd d c t p kp (nd d True near w wk far)) ctx \<and> same_off A st st'"
proof -
  let ?w = "nd d False near w wk far" and ?w' = "nd d True near w wk far"
  let ?A = "addrs (plug t (Fr d c p kp ?w # ctx))"
  note h = assms(1)
  have h0: "holds s rp st (plug ?w (Fr (opp d) c p kp t # ctx))" using h by (simp add: at_hole_def)
  have w: "rb_mem st w = Some (mk_node d wk (ptr s near) (ptr s far) p False)"
    using holds_node [OF h0] by simp
  obtain nn fn where kids: "rb_mem st (ptr s near) = Some nn" "\<not> rb_red nn" "rb_mem st (ptr s far) = Some fn" "\<not> rb_red fn"
    using holds_red [of s rp st near "Fr d False w wk far # Fr (opp d) c p kp t # ctx"]
      holds_red [of s rp st far "Fr (opp d) False w wk near # Fr (opp d) c p kp t # ctx"] h0 assms(2,3) by auto
  obtain st1 where 1: "put_red True w st = Some st1" "holds s rp st1 (plug ?w' (Fr (opp d) c p kp t # ctx))" "same_off ?A st st1"
    by (rule recolour [OF h0, of ?A True]) auto
  have h1: "at_hole s rp st1 t (Fr d c p kp ?w' # ctx)"
    by (rule at_hole_same [OF h _ 1(3)]) (use 1(2) in simp_all)
  obtain n where n: "rb_mem st1 (ptr s t) = Some n" "rb_parent n = p" by (rule at_hole_node [OF h1])
  have "rb_delete_black d s (ptr s t) w st = Some (p, st1)"
    using w kids 1(1) n by (simp add: rb_delete_black_def)
  moreover have "at_hole s rp st1 (nd d c t p kp ?w') ctx"
    using h1 holds_node [of s rp st1 d c t p kp ?w' ctx] by (simp add: at_hole_def)
  ultimately show ?thesis using same_off_mono [OF 1(3) assms(4)] by blast
qed

lemma delete_near:
  assumes "at_hole s rp st t (Fr d c p kp (nd d False (nd d True l a k r) w wk far) # ctx)"
    and "addrs (plug t (Fr d c p kp (nd d False (nd d True l a k r) w wk far) # ctx)) \<subseteq> A"
  shows "\<exists>st'. rb_delete_near d s (ptr s t) w st = Some (a, st') \<and>
    at_hole s rp st' t (Fr d c p kp (nd d False l a k (nd d True r w wk far)) # ctx) \<and> same_off A st st'"
proof -
  let ?w = "nd d False (nd d True l a k r) w wk far"
  let ?A = "addrs (plug t (Fr d c p kp ?w # ctx))" and ?ctx = "Fr (opp d) c p kp t # ctx"
  note h = assms(1)
  have h0: "holds s rp st (plug ?w ?ctx)" using h by (simp add: at_hole_def)
  have w: "rb_mem st w = Some (mk_node d wk a (ptr s far) p False)" using holds_node [OF h0] by simp
  obtain st1 where 1: "put_red False a st = Some st1"
    "holds s rp st1 (plug (nd d False l a k r) (Fr d False w wk far # ?ctx))" "same_off ?A st st1"
    by (rule recolour [of s rp st d True l a k r "Fr d False w wk far # ?ctx" ?A False]) (use h0 in auto)
  obtain st2 where 2: "put_red True w st1 = Some st2"
    "holds s rp st2 (plug (nd d True (nd d False l a k r) w wk far) ?ctx)" "same_off ?A st1 st2"
    by (rule recolour [of s rp st1 d False "nd d False l a k r" w wk far ?ctx ?A True]) (use 1(2) in auto)
  obtain st3 where 3: "rb_rotate (opp d) s w st2 = Some st3"
    "holds s rp st3 (plug (nd (opp d) False (nd (opp d) True far w wk r) a k l) ?ctx)" "same_off ?A st2 st3"
    by (rule rotated [of s rp st2 "opp d" True far w wk False r a k l ?ctx ?A]) (use 2(2) in auto)
  have same: "same_off ?A st st3" by (rule same_off_trans [OF same_off_trans [OF 1(3) 2(3)] 3(3)])
  have h3: "at_hole s rp st3 t (Fr d c p kp (nd d False l a k (nd d True r w wk far)) # ctx)"
    by (rule at_hole_same [OF h _ same]) (use 3(2) in simp_all)
  obtain n3 where n3: "rb_mem st3 (ptr s t) = Some n3" "rb_parent n3 = p"
    "rb_mem st3 p = Some (mk_node d kp (ptr s t) a (up rp ctx) c)"
    using at_hole_node [OF h3] by (metis ptr_nd)
  have "rb_delete_near d s (ptr s t) w st = Some (a, st3)"
    using w 1(1) 2(1) 3(1) n3 by (simp add: rb_delete_near_def)
  then show ?thesis using h3 same_off_mono [OF same assms(2)] by blast
qed

lemma delete_far:
  assumes "at_hole s rp st t (Fr d c p kp (nd d False near w wk (nd d True l a k r)) # ctx)"
    and "addrs (plug t (Fr d c p kp (nd d False near w wk (nd d True l a k r)) # ctx)) \<subseteq> A"
  shows "\<exists>st'. rb_delete_far d s (ptr s t) w st = Some st' \<and>
    holds s rp st' (plug (nd d c (nd d False t p kp near) w wk (nd d False l a k r)) ctx) \<and> same_off A st st'"
proof -
  let ?far = "nd d True l a k r" and ?far' = "nd d False l a k r"
  let ?A = "addrs (plug t (Fr d c p kp (nd d False near w wk ?far) # ctx))"
  note h = assms(1)
  obtain n where n: "rb_mem st (ptr s t) = Some n" "rb_parent n = p"
    and p: "rb_mem st p = Some (mk_node d kp (ptr s t) w (up rp ctx) c)"
    using at_hole_node [OF h] by (metis ptr_nd)
  obtain st1 where 1: "put_red c w st = Some st1"
    "holds s rp st1 (plug (nd d c near w wk ?far) (Fr (opp d) c p kp t # ctx))" "same_off ?A st st1"
    by (rule recolour [of s rp st d False near w wk ?far "Fr (opp d) c p kp t # ctx" ?A c])
      (use h in \<open>auto simp: at_hole_def\<close>)
  obtain st2 where 2: "put_red False p st1 = Some st2"
    "holds s rp st2 (plug (nd d False t p kp (nd d c near w wk ?far)) ctx)" "same_off ?A st1 st2"
    by (rule recolour [of s rp st1 d c t p kp "nd d c near w wk ?far" ctx ?A False]) (use 1(2) in auto)
  have w2: "rb_mem st2 w = Some (mk_node d wk (ptr s near) a p c)"
    using 2(2) holds_node [of s rp st2 d c near w wk ?far "Fr (opp d) False p kp t # ctx"] by simp
  obtain st3 where 3: "put_red False a st2 = Some st3"
    "holds s rp st3 (plug ?far' (Fr (opp d) c w wk near # Fr (opp d) False p kp t # ctx))" "same_off ?A st2 st3"
    by (rule recolour [of s rp st2 d True l a k r "Fr (opp d) c w wk near # Fr (opp d) False p kp t # ctx" ?A False])
      (use 2(2) in auto)
  obtain st4 where 4: "rb_rotate d s p st3 = Some st4"
    "holds s rp st4 (plug (nd d c (nd d False t p kp near) w wk ?far') ctx)" "same_off ?A st3 st4"
    by (rule rotated [of s rp st3 d False t p kp c near w wk ?far' ctx ?A]) (use 3(2) in auto)
  have same: "same_off ?A st st4"
    by (rule same_off_trans [OF same_off_trans [OF same_off_trans [OF 1(3) 2(3)] 3(3)] 4(3)])
  have "rb_delete_far d s (ptr s t) w st = Some st4"
    using n p 1(1) 2(1) w2 3(1) 4(1) by (simp add: rb_delete_far_def)
  then show ?thesis using 4(2) same_off_mono [OF same assms(2)] by blast
qed

text \<open>The end of \<open>ngx_rbtree_delete\<close>, the loop and the last write, and what it promises.\<close>

definition delete_end :: "addr \<Rightarrow> addr \<Rightarrow> rbtree \<Rightarrow> rbtree option" where
  "delete_end s temp st = do { (temp, st) \<leftarrow> rb_delete_loop s temp st; put_red False temp st }"

definition restored :: "addr \<Rightarrow> addr \<Rightarrow> addr set \<Rightarrow> rbt \<Rightarrow> rbtree \<Rightarrow> rbtree option \<Rightarrow> bool" where
  "restored s rp A t0 st res \<longleftrightarrow>
     (\<exists>st' t' m. res = Some st' \<and> holds s rp st' t' \<and> no_rr t' \<and> \<not> is_red t' \<and> bal m t' \<and>
        inorder t' = inorder t0 \<and> addrs t' = addrs t0 \<and> same_off A st st')"

lemma restored_later:
  assumes "same_off A st st1" "restored s rp A t1 st1 res" "inorder t1 = inorder t0" "addrs t1 = addrs t0"
  shows "restored s rp A t0 st res"
  using assms same_off_trans [of A st st1] unfolding restored_def by metis

lemma hole_root:
  assumes "holds s rp st (plug t ctx)" "ctx \<noteq> []"
  shows "ptr s t \<noteq> rb_root st"
  using root_in_ctx [OF assms(2), of s t] assms(1) ptr_mem [of s t] unfolding holds_def
  by (metis Un_iff addrs_plug apart_plug disjoint_iff insertE)

lemma delete_stop:
  assumes "at_hole s rp st t ctx" "ctx = [] \<or> is_red t" "no_rr (paint False t)" "bal n t"
    and "ctx_bal (Suc n) ctx" "ctx_no_rr False ctx" "ctx_root_black ctx" "insert s (addrs (plug t ctx)) \<subseteq> A"
  shows "restored s rp A (plug t ctx) st (delete_end s (ptr s t) st)"
proof -
  obtain m where m: "rb_mem st (ptr s t) = Some m" "rb_red m = is_red t" using assms(1) by (auto simp: at_hole_def)
  have h: "holds s rp st (plug t ctx)" using assms(1) by (simp add: at_hole_def)
  have "ptr s t = rb_root st \<or> is_red t" using assms(2) h by (auto simp: holds_def)
  then have stop: "delete_end s (ptr s t) st = put_red False (ptr s t) st"
    unfolding delete_end_def using m by (subst rb_delete_loop.simps) auto
  show ?thesis
  proof (cases t)
    case E
    let ?st = "st\<lparr>rb_mem := (rb_mem st)(s \<mapsto> m\<lparr>rb_red := False\<rparr>)\<rparr>"
    have "delete_end s s st = Some ?st" using stop m(1) E by (simp add: wr_some)
    moreover have "holds s rp ?st E" using h E assms(2) by (simp add: holds_def)
    moreover have "same_off A st ?st" using assms(8) by (auto simp: same_off_def)
    ultimately show ?thesis using E assms(2) unfolding restored_def by (intro exI [of _ ?st] exI [of _ E] exI [of _ 0]) simp
  next
    case (T c l a k r)
    obtain st' where st': "put_red False a st = Some st'" "holds s rp st' (plug (paint False t) ctx)" "same_off A st st'"
      using recolour [of s rp st Lft c l a k r ctx A False] h assms(8) by (auto simp: T)
    have "\<exists>m. bal m (plug (paint False t) ctx)"
    proof (cases "ctx = []")
      case True
      then show ?thesis using bal_paint [OF assms(4)] by simp
    next
      case False
      then have "bal (Suc n) (paint False t)" using assms(2,4) by (simp add: T)
      then show ?thesis by (rule bal_plug [OF _ assms(5)])
    qed
    moreover have "inorder (plug (paint False t) ctx) = inorder (plug t ctx)" by (simp add: inorder_plug)
    moreover have "\<not> is_red (plug (paint False t) ctx)" using assms(7) by (simp add: is_red_plug)
    ultimately show ?thesis
      using stop st' assms(3,6) T unfolding restored_def
      by (elim exE) (intro exI [of _ st'] exI [of _ "plug (paint False t) ctx"] exI, auto)
  qed
qed

lemma delete_end_root:
  assumes "holds s rp st (plug t ctx)" "t \<noteq> E" "no_rr t" "ctx_no_rr (is_red t) ctx" "bal n t" "ctx_bal n ctx"
    and "ctx_root_black ctx" "ctx = [] \<longrightarrow> \<not> is_red t" "insert s (addrs (plug t ctx)) \<subseteq> A"
  shows "restored s rp A (plug t ctx) st (delete_end s (rb_root st) st)"
proof -
  let ?t = "plug t ctx"
  obtain m where m: "bal m ?t" using bal_plug [OF assms(5,6)] by blast
  have black: "\<not> is_red ?t" using assms(7,8) by (simp add: is_red_plug)
  have ok: "no_rr ?t" using assms(3,4) by simp
  obtain c l a k r where t: "?t = T c l a k r" using plug_not_E [OF assms(2)] by (cases ?t) auto
  have root: "rb_root st = ptr s ?t" using assms(1) by (simp add: holds_def)
  have "paint False ?t = ?t" using black by (cases ?t) simp_all
  moreover have "rb_mem st (rb_root st) = Some (mk_node Lft k (ptr s l) (ptr s r) rp c)"
    using assms(1) root t by (simp add: holds_def)
  ultimately have "at_hole s rp st ?t []" using assms(1) black unfolding t at_hole_def by (simp add: root t)
  from delete_stop [OF this, of m A] show ?thesis
    using m ok black root assms(9) \<open>paint False ?t = ?t\<close> by simp
qed

lemma delete_far_end:
  assumes "at_hole s rp st t (Fr d c p kp w # ctx)" "w = nd d False near wa wk far" "is_red far"
    and "no_rr t" "bal n t" "bal (Suc n) w" "no_rr w" "ctx_no_rr c ctx" "ctx_bal (if c then Suc n else Suc (Suc n)) ctx"
    and "\<not> is_red t" "ctx_root_black (Fr d c p kp w # ctx)" "insert s (addrs (plug t (Fr d c p kp w # ctx))) \<subseteq> A"
  shows "restored s rp A (plug t (Fr d c p kp w # ctx)) st
    (do { st \<leftarrow> rb_delete_far d s (ptr s t) wa st; delete_end s (rb_root st) st })"
proof -
  obtain c' l a k r where "far = nd d c' l a k r" using assms(3) by (cases far rule: nd_cases [where d = d]) auto
  with assms(3) have far: "far = nd d True l a k r" by simp
  let ?t1 = "nd d c (nd d False t p kp near) wa wk (nd d False l a k r)"
  obtain st1 where 1: "rb_delete_far d s (ptr s t) wa st = Some st1" "holds s rp st1 (plug ?t1 ctx)" "same_off A st st1"
    using delete_far [OF assms(1) [unfolded assms(2) far], of A] assms(2,12) far by auto
  have "restored s rp A (plug ?t1 ctx) st1 (delete_end s (rb_root st1) st1)"
  proof (rule delete_end_root [OF 1(2)])
    show "ctx_root_black ctx" "ctx = [] \<longrightarrow> \<not> is_red ?t1"
      using assms(11) by (cases ctx; simp)+
    show "bal (if c then Suc n else Suc (Suc n)) ?t1" using assms(2,5,6) far by simp
  qed (use assms far in auto)
  moreover have "inorder (plug ?t1 ctx) = inorder (plug t (Fr d c p kp w # ctx))"
    unfolding assms(2) far by (cases d) (simp_all add: inorder_plug)
  moreover have "addrs (plug ?t1 ctx) = addrs (plug t (Fr d c p kp w # ctx))"
    unfolding assms(2) far by auto
  ultimately have "restored s rp A (plug t (Fr d c p kp w # ctx)) st (delete_end s (rb_root st1) st1)"
    by (rule restored_later [OF 1(3)])
  then show ?thesis using 1(1) by simp
qed

text \<open>One round with a black sibling; when it moves up, the rest is given.\<close>

lemma delete_round:
  assumes "at_hole s rp st t (Fr d c p kp w # ctx)" "w = nd d False near wa wk far"
    and "no_rr t" "\<not> is_red t" "bal n t" "bal (Suc n) w" "no_rr w" "ctx_no_rr c ctx" "ctx_bal (if c then Suc n else Suc (Suc n)) ctx"
    and "ctx_root_black (Fr d c p kp w # ctx)" "insert s (addrs (plug t (Fr d c p kp w # ctx))) \<subseteq> A"
    and "\<And>st1. at_hole s rp st1 (nd d c t p kp (nd d True near wa wk far)) ctx \<Longrightarrow> \<not> is_red near \<Longrightarrow> \<not> is_red far \<Longrightarrow>
      restored s rp A (plug (nd d c t p kp (nd d True near wa wk far)) ctx) st1 (delete_end s p st1)"
  shows "restored s rp A (plug t (Fr d c p kp w # ctx)) st
    (do { (temp, st) \<leftarrow> rb_delete_black d s (ptr s t) wa st; delete_end s temp st })"
proof (cases "\<not> is_red near \<and> \<not> is_red far")
  case True
  let ?t1 = "nd d c t p kp (nd d True near wa wk far)"
  obtain st1 where 1: "rb_delete_black d s (ptr s t) wa st = Some (p, st1)" "at_hole s rp st1 ?t1 ctx" "same_off A st st1"
    using delete_black_up [OF assms(1) [unfolded assms(2)], of A] True assms(2,11) by auto
  have "restored s rp A (plug ?t1 ctx) st1 (delete_end s p st1)" using assms(12) [OF 1(2)] True by simp
  moreover have "inorder (plug ?t1 ctx) = inorder (plug t (Fr d c p kp w # ctx))"
    unfolding assms(2) by (cases d) (simp_all add: inorder_plug)
  moreover have "addrs (plug ?t1 ctx) = addrs (plug t (Fr d c p kp w # ctx))" unfolding assms(2) by auto
  ultimately have "restored s rp A (plug t (Fr d c p kp w # ctx)) st (delete_end s p st1)"
    by (rule restored_later [OF 1(3)])
  then show ?thesis using 1(1) by simp
next
  case False
  have h: "holds s rp st (plug w (Fr (opp d) c p kp t # ctx))" using assms(1) by (simp add: at_hole_def)
  have w: "rb_mem st wa = Some (mk_node d wk (ptr s near) (ptr s far) p False)"
    using holds_node [of s rp st d False near wa wk far "Fr (opp d) c p kp t # ctx"] h assms(2) by simp
  obtain nn fn where kids: "rb_mem st (ptr s near) = Some nn" "rb_red nn = is_red near"
    "rb_mem st (ptr s far) = Some fn" "rb_red fn = is_red far"
    using holds_red [of s rp st near "Fr d False wa wk far # Fr (opp d) c p kp t # ctx"]
      holds_red [of s rp st far "Fr (opp d) False wa wk near # Fr (opp d) c p kp t # ctx"] h assms(2) by auto
  show ?thesis
  proof (cases "is_red far")
    case True
    have "(do { (temp, st) \<leftarrow> rb_delete_black d s (ptr s t) wa st; delete_end s temp st }) =
        (do { st \<leftarrow> rb_delete_far d s (ptr s t) wa st; delete_end s (rb_root st) st })"
      using w kids True by (simp add: rb_delete_black_def)
    then show ?thesis using delete_far_end [OF assms(1,2) True assms(3,5-9,4,10,11)] by simp
  next
    case black: False
    then have "is_red near" using False by simp
    then obtain c' l a k r where "near = nd d c' l a k r" by (cases near rule: nd_cases [where d = d]) auto
    with \<open>is_red near\<close> have near: "near = nd d True l a k r" by simp
    let ?w = "nd d False l a k (nd d True r wa wk far)"
    obtain st1 where 1: "rb_delete_near d s (ptr s t) wa st = Some (a, st1)"
      "at_hole s rp st1 t (Fr d c p kp ?w # ctx)" "same_off A st st1"
      using delete_near [OF assms(1) [unfolded assms(2) near], of A] assms(2,11) near by auto
    have "(do { (temp, st) \<leftarrow> rb_delete_black d s (ptr s t) wa st; delete_end s temp st }) =
        (do { st \<leftarrow> rb_delete_far d s (ptr s t) a st1; delete_end s (rb_root st) st })"
      using w kids black \<open>is_red near\<close> 1(1) by (simp add: rb_delete_black_def)
    moreover have "restored s rp A (plug t (Fr d c p kp ?w # ctx)) st1
        (do { st \<leftarrow> rb_delete_far d s (ptr s t) a st1; delete_end s (rb_root st) st })"
      by (rule delete_far_end [OF 1(2) refl]) (use assms near black in \<open>auto simp: ctx_root_black_Cons\<close>)
    moreover have "inorder (plug t (Fr d c p kp ?w # ctx)) = inorder (plug t (Fr d c p kp w # ctx))"
      unfolding assms(2) near by (cases d) (simp_all add: inorder_plug)
    moreover have "addrs (plug t (Fr d c p kp ?w # ctx)) = addrs (plug t (Fr d c p kp w # ctx))"
      unfolding assms(2) near by auto
    ultimately show ?thesis using restored_later [OF 1(3)] by simp
  qed
qed

lemma delete_end_unfold:
  assumes "at_hole s rp st t (Fr d c p kp w # ctx)" "\<not> is_red t" "w \<noteq> E"
  shows "delete_end s (ptr s t) st = do {
    (w, st) \<leftarrow> rb_delete_red d s (ptr s t) st;
    (temp, st) \<leftarrow> rb_delete_black d s (ptr s t) w st;
    delete_end s temp st }"
proof -
  have h: "holds s rp st (plug t (Fr d c p kp w # ctx))" using assms(1) by (simp add: at_hole_def)
  have "ptr s t \<noteq> rb_root st" by (rule hole_root [OF h]) simp
  moreover obtain n where n: "rb_mem st (ptr s t) = Some n" "rb_parent n = p" "\<not> rb_red n"
    and p: "rb_mem st p = Some (mk_node d kp (ptr s t) (ptr s w) (up rp ctx) c)"
    using at_hole_node [OF assms(1)] assms(2) by metis
  moreover have "ptr s w \<noteq> ptr s t"
    using ptr_siblings [of s rp st "opp d" c w p kp t ctx] h assms(3) by simp
  then have "(if ptr s t = rb_left (mk_node d kp (ptr s t) (ptr s w) (up rp ctx) c) then Lft else Rgt) = d"
    by (cases d) auto
  ultimately have "rb_delete_loop s (ptr s t) st = do {
      (w, st) \<leftarrow> rb_delete_red d s (ptr s t) st;
      (temp, st) \<leftarrow> rb_delete_black d s (ptr s t) w st;
      rb_delete_loop s temp st }"
    by (subst rb_delete_loop.simps) simp
  then show ?thesis
    by (simp add: delete_end_def split: Option.bind_split prod.split)
qed

lemma delete_red_none:
  assumes "at_hole s rp st t (Fr d c p kp w # ctx)" "\<not> is_red w"
  shows "rb_delete_red d s (ptr s t) st = Some (ptr s w, st)"
proof -
  obtain n where "rb_mem st (ptr s t) = Some n" "rb_parent n = p"
    "rb_mem st p = Some (mk_node d kp (ptr s t) (ptr s w) (up rp ctx) c)"
    using at_hole_node [OF assms(1)] by metis
  moreover obtain wn where "rb_mem st (ptr s w) = Some wn" "\<not> rb_red wn"
    using holds_red [of s rp st w "Fr (opp d) c p kp t # ctx"] assms by (auto simp: at_hole_def)
  ultimately show ?thesis by (simp add: rb_delete_red_def)
qed

text \<open>A round with a red sibling: it becomes the grandparent, and the black sibling that follows ends the loop.\<close>

lemma delete_round_red:
  assumes "at_hole s rp st t (Fr d False p kp w # ctx)" "w = nd d True near wa wk far"
    and "no_rr t" "\<not> is_red t" "bal n t" "bal (Suc n) w" "no_rr w" "ctx_no_rr False ctx" "ctx_bal (Suc (Suc n)) ctx"
    and "ctx_root_black (Fr d False p kp w # ctx)" "insert s (addrs (plug t (Fr d False p kp w # ctx))) \<subseteq> A"
  shows "restored s rp A (plug t (Fr d False p kp w # ctx)) st (delete_end s (ptr s t) st)"
proof -
  let ?ctx = "Fr d False wa wk far # ctx"
  have "bal (Suc n) near" "\<not> is_red near" using assms(2,6,7) by simp_all
  then obtain n1 na nk n2 where near: "near = nd d False n1 na nk n2"
    by (cases near rule: nd_cases [where d = d]) auto
  obtain st1 where 1: "rb_delete_red d s (ptr s t) st = Some (na, st1)"
    "at_hole s rp st1 t (Fr d True p kp near # ?ctx)" "same_off A st st1"
    using delete_red [OF assms(1) [unfolded assms(2)], of A] assms(2,11) near by auto
  have root: "ctx_root_black ?ctx" using assms(10) by (cases "ctx = []") (simp_all add: ctx_root_black_Cons)
  have "delete_end s (ptr s t) st = (do { (temp, st) \<leftarrow> rb_delete_black d s (ptr s t) na st1; delete_end s temp st })"
    using delete_end_unfold [OF assms(1,4)] assms(2) 1(1) by simp
  moreover have "restored s rp A (plug t (Fr d True p kp near # ?ctx)) st1
      (do { (temp, st) \<leftarrow> rb_delete_black d s (ptr s t) na st1; delete_end s temp st })"
  proof (rule delete_round [OF 1(2) near, where n = n])
    let ?t1 = "nd d True t p kp (nd d True n1 na nk n2)"
    show "restored s rp A (plug ?t1 ?ctx) st2 (delete_end s p st2)"
      if hole: "at_hole s rp st2 ?t1 ?ctx" and "\<not> is_red n1" "\<not> is_red n2" for st2
    proof -
      have "restored s rp A (plug ?t1 ?ctx) st2 (delete_end s (ptr s ?t1) st2)"
      proof (rule delete_stop [OF hole, where n = n])
        show "insert s (addrs (plug ?t1 ?ctx)) \<subseteq> A" using assms(2,11) near by auto
      qed (use that assms near root in simp_all)
      then show ?thesis by simp
    qed
    show "insert s (addrs (plug t (Fr d True p kp near # ?ctx))) \<subseteq> A" using assms(2,11) by auto
    show "ctx_root_black (Fr d True p kp near # ?ctx)" using root by simp
  qed (use assms near in simp_all)
  moreover have "inorder (plug t (Fr d True p kp near # ?ctx)) = inorder (plug t (Fr d False p kp w # ctx))"
    unfolding assms(2) by (cases d) (simp_all add: inorder_plug)
  moreover have "addrs (plug t (Fr d True p kp near # ?ctx)) = addrs (plug t (Fr d False p kp w # ctx))"
    unfolding assms(2) by auto
  ultimately show ?thesis using restored_later [OF 1(3)] by simp
qed

lemma delete_loop:
  assumes "at_hole s rp st t ctx" "no_rr (paint False t)" "bal n t"
    and "ctx_bal (Suc n) ctx" "ctx_no_rr False ctx" "ctx_root_black ctx" "insert s (addrs (plug t ctx)) \<subseteq> A"
  shows "restored s rp A (plug t ctx) st (delete_end s (ptr s t) st)"
  using assms
proof (induction "length ctx" arbitrary: ctx st t n rule: less_induct)
  case less
  show ?case
  proof (cases "ctx = [] \<or> is_red t")
    case True
    with less.prems show ?thesis by (intro delete_stop)
  next
    case False
    then obtain d c p kp w ctx1 where ctx: "ctx = Fr d c p kp w # ctx1" by (metis frame.exhaust neq_Nil_conv)
    note h = less.prems(1) [unfolded ctx] and inv = less.prems(2-6) [unfolded ctx]
    have bw: "bal (Suc n) w" using inv(3) by simp
    then obtain wc near wa wk far where w: "w = nd d wc near wa wk far" by (cases w rule: nd_cases [where d = d]) auto
    have t: "no_rr t" "\<not> is_red t" using less.prems(2) False by (cases t; simp)+
    show ?thesis
    proof (cases wc)
      case True
      have "\<not> c" using inv(4) True by (auto simp: w)
      then show ?thesis
        using delete_round_red [of s rp st t d p kp w ctx1 near wa wk far n A] h w True t inv bw less.prems(3,7)
        by (simp add: ctx)
    next
      case black: False
      have "delete_end s (ptr s t) st = (do { (temp, st) \<leftarrow> rb_delete_black d s (ptr s t) wa st; delete_end s temp st })"
        using delete_end_unfold [OF h t(2)] delete_red_none [OF h] black by (simp add: w)
      moreover have "restored s rp A (plug t (Fr d c p kp w # ctx1)) st
          (do { (temp, st) \<leftarrow> rb_delete_black d s (ptr s t) wa st; delete_end s temp st })"
      proof (rule delete_round [OF h, where n = n])
        let ?t1 = "nd d c t p kp (nd d True near wa wk far)"
        show "restored s rp A (plug ?t1 ctx1) st1 (delete_end s p st1)"
          if hole: "at_hole s rp st1 ?t1 ctx1" and "\<not> is_red near" "\<not> is_red far" for st1
        proof -
          have "restored s rp A (plug ?t1 ctx1) st1 (delete_end s (ptr s ?t1) st1)"
          proof (rule less.hyps [OF _ hole, where n = "if c then n else Suc n"])
            show "bal (if c then n else Suc n) ?t1" using bw black less.prems(3) by (simp add: w)
            show "ctx_root_black ctx1" using inv(5) by (cases "ctx1 = []") (simp_all add: ctx_root_black_Cons)
            show "ctx_no_rr False ctx1" using inv(4) ctx_no_rr_black [of c ctx1] by simp
          qed (use that inv t black less.prems(7) in \<open>auto simp: ctx w\<close>)
          then show ?thesis by simp
        qed
      qed (use w black t inv bw less.prems(3,7) in \<open>simp_all add: ctx\<close>)
      ultimately show ?thesis by (simp add: ctx)
    qed
  qed
qed

subsection \<open>Taking a node out\<close>

lemma plug_append: "plug t (xs @ ys) = plug (plug t xs) ys"
  by (induction t xs rule: plug.induct) simp_all

lemma ctx_addrs_append [simp]: "ctx_addrs (xs @ ys) = ctx_addrs xs \<union> ctx_addrs ys"
  by (induction xs rule: ctx_addrs.induct) auto

lemma find_node: "a \<in> addrs t \<Longrightarrow> \<exists>c l k r ctx. t = plug (T c l a k r) ctx"
proof (induction t)
  case (T c l b k r)
  consider "a = b" | "a \<in> addrs l" | "a \<in> addrs r" using T.prems by auto
  then show ?case
  proof cases
    case 1
    then show ?thesis by (intro exI [of _ c] exI [of _ l] exI [of _ k] exI [of _ r] exI [of _ "[]"]) simp
  next
    case 2
    then obtain c' l' k' r' ctx where "l = plug (T c' l' a k' r') ctx" using T.IH(1) by blast
    then have "T c l b k r = plug (T c' l' a k' r') (ctx @ [Fr Lft c b k r])" by (simp add: plug_append)
    then show ?thesis by blast
  next
    case 3
    then obtain c' l' k' r' ctx where "r = plug (T c' l' a k' r') ctx" using T.IH(2) by blast
    then have "T c l b k r = plug (T c' l' a k' r') (ctx @ [Fr Rgt c b k l])" by (simp add: plug_append)
    then show ?thesis by blast
  qed
qed simp

lemma min_of_tree:
  assumes "holds s rp st (plug r ctx)" "r \<noteq> E"
  shows "\<exists>c b k x sp. r = plug (T c E b k x) sp \<and> before sp = [] \<and> ngx_rbtree_min (ptr s r) s st = Some b"
  using assms
proof (induction r arbitrary: ctx)
  case (T c l a k r)
  have a: "rb_mem st a = Some (mk_node Lft k (ptr s l) (ptr s r) (up rp ctx) c)"
    by (rule holds_node) (use T.prems(1) in simp)
  have l: "ptr s l = s \<longleftrightarrow> l = E" by (rule ptr_eq_s) (use T.prems(1) in \<open>auto simp: holds_def\<close>)
  show ?case
  proof (cases "l = E")
    case True
    have "ngx_rbtree_min a s st = Some a" using a l True by (subst ngx_rbtree_min.simps) simp
    then show ?thesis using True
      by (intro exI [of _ c] exI [of _ a] exI [of _ k] exI [of _ r] exI [of _ "[]"]) simp
  next
    case False
    have "holds s rp st (plug l (Fr Lft c a k r # ctx))" using T.prems(1) by simp
    from T.IH(1) [OF this False] obtain c' b k' x sp where
      m: "l = plug (T c' E b k' x) sp" "before sp = []" "ngx_rbtree_min (ptr s l) s st = Some b" by blast
    have "ngx_rbtree_min a s st = Some b" using a l False m(3) by (subst ngx_rbtree_min.simps) simp
    moreover have "T c l a k r = plug (T c' E b k' x) (sp @ [Fr Lft c a k r])" by (simp add: plug_append m(1))
    moreover have "before (sp @ [Fr Lft c a k r]) = []"
      using m(2) by (induction sp rule: before.induct) simp_all
    ultimately show ?thesis by (metis ptr.simps(2))
  qed
qed simp

lemma tree_at_same: "same_off A st st' \<Longrightarrow> A \<inter> addrs t = {} \<Longrightarrow> tree_at (rb_mem st') s p t = tree_at (rb_mem st) s p t"
  by (rule tree_at_frame) (auto simp: same_off_def)

lemma ctx_at_same:
  "same_off A st st' \<Longrightarrow> A \<inter> ctx_addrs ctx = {} \<Longrightarrow> ctx_at (rb_mem st') s rp p ctx = ctx_at (rb_mem st) s rp p ctx"
  by (rule ctx_at_frame) (auto simp: same_off_def)

lemma reparent:
  assumes "tree_at (rb_mem st) s p t" "apart t" "rb_mem st (ptr s t) = Some n" "s \<notin> addrs t"
  shows "\<exists>st'. put_parent p' (ptr s t) st = Some st' \<and> tree_at (rb_mem st') s p' t \<and> rb_root st' = rb_root st \<and>
    rb_mem st' (ptr s t) = Some (n\<lparr>rb_parent := p'\<rparr>) \<and> same_off {ptr s t} st st'"
proof (cases t)
  case E
  then show ?thesis using assms(3) by (simp add: wr_some same_off_def)
next
  case (T c l a k r)
  then show ?thesis using assms by (auto simp: wr_some same_off_def)
qed

lemma reparent_tree:
  assumes "tree_at (rb_mem st) s p t" "apart t" "s \<notin> addrs t"
  shows "\<exists>st'. (if ptr s t \<noteq> s then put_parent p' (ptr s t) st else Some st) = Some st' \<and> tree_at (rb_mem st') s p' t \<and>
    rb_root st' = rb_root st \<and> same_off (addrs t) st st'"
proof (cases t)
  case E
  then show ?thesis by simp
next
  case (T c l a k r)
  have "rb_mem st (ptr s t) = Some (mk_node Lft k (ptr s l) (ptr s r) p c)" using assms(1) T by simp
  from reparent [OF assms(1,2) this assms(3), of p'] obtain st' where
    "put_parent p' (ptr s t) st = Some st'" "tree_at (rb_mem st') s p' t" "rb_root st' = rb_root st" "same_off {ptr s t} st st'"
    by blast
  moreover have "{ptr s t} \<subseteq> addrs t" "ptr s t \<noteq> s" using assms(3) T by auto
  ultimately show ?thesis using same_off_mono by auto
qed

text \<open>The pointer to \<open>subst\<close> is redirected to \<open>temp\<close>; \<open>subst\<close> is not the root.\<close>

lemma unlink:
  assumes "holds s rp st (plug (nd d c x a k y) ctx)" "ctx \<noteq> []"
  shows "\<exists>u p st'. rb_mem st a = Some u \<and> rb_parent u = up rp ctx \<and> rb_red u = c \<and> rb_mem st (rb_parent u) = Some p \<and>
    put_child (if a = rb_left p then Lft else Rgt) temp (rb_parent u) st = Some st' \<and>
    ctx_at (rb_mem st') s rp temp ctx \<and> rb_root st' = rb_root st \<and> same_off (top_addr ctx) st st'"
proof -
  let ?u = "mk_node d k (ptr s x) (ptr s y) (up rp ctx) c"
  have u: "rb_mem st a = Some ?u" by (rule holds_node [OF assms(1)])
  obtain st' where st': "replace_child Lft a temp st = Some st'" "ctx_at (rb_mem st') s rp temp ctx"
    "rb_root st' = rb_root st" "same_off (top_addr ctx) st st'"
    using replace_child_ctx [OF u, where rp = rp and ctx = ctx and s = s and d = Lft and temp = temp] assms holds_root [OF assms(1)] by (auto simp: holds_def)
  have "a \<noteq> rb_root st" using holds_root [OF assms(1)] assms(2) by simp
  moreover obtain p where "rb_mem st (up rp ctx) = Some p"
    using assms by (cases ctx rule: top_addr.cases) (auto simp: holds_def)
  ultimately show ?thesis
    using u st' by - (rule exI [of _ ?u], rule exI [of _ p], rule exI [of _ st'], simp add: replace_child_def cong: if_cong)
qed

lemma wiped:
  assumes "rb_mem st a = Some n"
  shows "\<exists>st'. wipe a st = Some st' \<and> rb_mem st' a = Some \<lparr>rb_key = 0, rb_left = 0, rb_right = 0, rb_parent = 0, rb_red = rb_red n\<rparr> \<and>
    rb_root st' = rb_root st \<and> same_off {a} st st'"
  using assms by (cases n) (simp add: wipe_def wr_some same_off_def)

text \<open>
  A node with at most one child: the child takes its place. For the root the tree is done; otherwise
  the place of the child is where the loop starts.
\<close>

lemma splice_out:
  assumes "holds s rp st (plug (nd d c E a k x) ctx)" "ctx \<noteq> []" "rb_mem st s \<noteq> None"
  shows "\<exists>u p st1 st2. rb_mem st a = Some u \<and> rb_parent u = up rp ctx \<and> rb_red u = c \<and> rb_mem st (rb_parent u) = Some p \<and>
    put_child (if a = rb_left p then Lft else Rgt) (ptr s x) (rb_parent u) st = Some st1 \<and>
    rb_mem st1 a = Some u \<and> put_parent (rb_parent u) (ptr s x) st1 = Some st2 \<and>
    at_hole s rp st2 x ctx \<and> rb_mem st2 a = Some u \<and> same_off (insert s (addrs (plug x ctx))) st st2"
proof -
  obtain u p st1 where 1: "rb_mem st a = Some u" "rb_parent u = up rp ctx" "rb_red u = c" "rb_mem st (rb_parent u) = Some p"
    "put_child (if a = rb_left p then Lft else Rgt) (ptr s x) (rb_parent u) st = Some st1"
    "ctx_at (rb_mem st1) s rp (ptr s x) ctx" "rb_root st1 = rb_root st" "same_off (top_addr ctx) st st1"
    using unlink [OF assms(1,2), of "ptr s x"] by blast
  have ap: "apart x" "a \<notin> addrs x" "s \<notin> addrs x" "addrs x \<inter> ctx_addrs ctx = {}" "a \<notin> ctx_addrs ctx" "a \<noteq> s" "s \<notin> ctx_addrs ctx"
    "ctx_apart ctx" "tree_at (rb_mem st) s a x" "rb_root st = ptr s (plug x ctx)"
    using assms(1,2) ptr_plug_Cons [of s _ "hd ctx" "tl ctx"] by (auto simp: holds_def)
  have top: "q \<notin> top_addr ctx" if "q \<notin> ctx_addrs ctx" for q using that top_addr_sub [of ctx] by blast
  have x1: "tree_at (rb_mem st1) s a x" using tree_at_same [OF 1(8), of x s a] ap(4,9) top_addr_sub [of ctx] by blast
  obtain n where n: "rb_mem st (ptr s x) = Some n" "rb_red n = is_red x"
    using holds_red [of s rp st x "Fr (opp d) c a k E # ctx"] assms(1) by auto
  have "rb_mem st1 q = rb_mem st q" if "q \<notin> ctx_addrs ctx" for q
    using 1(8) top [OF that] by (simp add: same_off_def)
  moreover have px: "ptr s x \<notin> ctx_addrs ctx" "ptr s x \<noteq> a" using ptr_mem [of s x] ap by auto
  ultimately have m1: "rb_mem st1 a = Some u" "rb_mem st1 (ptr s x) = Some n" "rb_mem st1 s = rb_mem st s"
    using 1(1) n(1) ap(5,7) by simp_all
  obtain st2 where 2: "put_parent (up rp ctx) (ptr s x) st1 = Some st2" "tree_at (rb_mem st2) s (up rp ctx) x"
    "rb_root st2 = rb_root st1" "rb_mem st2 (ptr s x) = Some (n\<lparr>rb_parent := up rp ctx\<rparr>)" "same_off {ptr s x} st1 st2"
    using reparent [OF x1 ap(1) m1(2) ap(3), of "up rp ctx"] by blast
  have ctx2: "ctx_at (rb_mem st2) s rp (ptr s x) ctx" using ctx_at_same [OF 2(5)] px(1) 1(6) by simp
  have s2: "\<exists>n. rb_mem st2 s = Some n \<and> \<not> rb_red n"
  proof (cases x)
    case E
    then show ?thesis using 2(4) n(2) by simp
  next
    case (T c' l' a' k' r')
    then have "rb_mem st2 s = rb_mem st s" using 2(5) m1(3) ap(3) by (simp add: same_off_def)
    then show ?thesis using assms(1) by (simp add: holds_def)
  qed
  have "at_hole s rp st2 x ctx"
    using 2(2,3,4) ctx2 s2 ap n(2) 1(7) by (simp add: at_hole_def holds_def)
  moreover have "same_off (insert s (addrs (plug x ctx))) st st2"
    by (rule same_off_trans [OF same_off_mono [OF 1(8)] same_off_mono [OF 2(5)]])
      (use top_addr_sub [of ctx] ptr_mem [of s x] in auto)
  moreover have "rb_mem st2 a = Some u" using 2(5) m1(1) px(2) by (simp add: same_off_def)
  ultimately show ?thesis using 1 2(1) m1(1)
    by - (rule exI [of _ u], rule exI [of _ p], rule exI [of _ st1], rule exI [of _ st2], simp)
qed

text \<open>A node with two children: the least node \<open>b\<close> of its right subtree takes its place.\<close>

lemma up_append: "up rp (xs @ ys) = up (up rp ys) xs"
  by (cases xs rule: top_addr.cases) simp_all

lemma ctx_at_append:
  "ctx_at m s rp (ptr s t) (xs @ ys) \<longleftrightarrow>
     ctx_at m s (up rp ys) (ptr s t) xs \<and> ctx_at m s rp (ptr s (plug t xs)) ys"
proof (induction xs arbitrary: t)
  case (Cons f xs)
  obtain d c a k sib where f: "f = Fr d c a k sib" by (cases f)
  show ?case using Cons.IH [of "nd d c t a k sib"] by (auto simp: f up_append)
qed simp

lemma take_place:
  assumes "rb_mem st a = Some (mk_node Lft k (ptr s l) (ptr s r) (up rp ctx) c)" "rb_mem st b = Some nb"
    and "tree_at (rb_mem st) s a l" "tree_at (rb_mem st) s q r" "ctx_at (rb_mem st) s rp a ctx"
    and "apart (plug (T c l a k r) ctx)" "s \<notin> addrs (plug (T c l a k r) ctx)"
    and "b \<notin> addrs (plug (T c l a k r) ctx)" "b \<noteq> s" "a = rb_root st \<longleftrightarrow> ctx = []"
    and "rb_root st = ptr s (plug (T c l a k r) ctx)" "\<exists>n. rb_mem st s = Some n \<and> \<not> rb_red n"
  shows "\<exists>st'. rb_take_place s a b st = Some st' \<and> holds s rp st' (plug (T c l b (rb_key nb) r) ctx) \<and>
    rb_mem st' a = rb_mem st a \<and> same_off (insert b (ctx_addrs ctx \<union> addrs l \<union> addrs r)) st st'"
proof -
  let ?b = "mk_node Lft (rb_key nb) (ptr s l) (ptr s r) (up rp ctx) c"
  have ap: "a \<noteq> b" "a \<noteq> s" "a \<notin> addrs l" "a \<notin> addrs r" "a \<notin> ctx_addrs ctx" "b \<notin> addrs l" "b \<notin> addrs r" "b \<notin> ctx_addrs ctx"
    "apart l" "apart r" "ctx_apart ctx" "s \<notin> addrs l" "s \<notin> addrs r" "s \<notin> ctx_addrs ctx"
    "addrs l \<inter> addrs r = {}" "addrs l \<inter> ctx_addrs ctx = {}" "addrs r \<inter> ctx_addrs ctx = {}"
    using assms(6-9) by auto
  then have ap': "ctx_addrs ctx \<inter> addrs l = {}" "ctx_addrs ctx \<inter> addrs r = {}" "addrs r \<inter> addrs l = {}" by blast+
  define st1 where "st1 = st\<lparr>rb_mem := (rb_mem st)(b \<mapsto> ?b)\<rparr>"
  have a1: "rb_mem st1 a = Some (mk_node Lft k (ptr s l) (ptr s r) (up rp ctx) c)" using assms(1) ap(1) by (simp add: st1_def)
  have t1: "tree_at (rb_mem st1) s a l" "tree_at (rb_mem st1) s q r" "ctx_at (rb_mem st1) s rp a ctx"
    using assms(3-5) ap by (simp_all add: st1_def)
  obtain st2 where 2: "replace_child Lft a b st1 = Some st2" "ctx_at (rb_mem st2) s rp b ctx"
    "rb_root st2 = (if ctx = [] then b else rb_root st1)" "same_off (ctx_addrs ctx) st1 st2"
    using replace_child_ctx [OF a1, where rp = rp and ctx = ctx and s = s and d = Lft and temp = b] t1(3) ap assms(10)
      same_off_mono [OF _ top_addr_sub [of ctx]] by (auto simp: st1_def)
  have t2: "tree_at (rb_mem st2) s a l" "tree_at (rb_mem st2) s q r" "rb_mem st2 b = Some ?b"
    using t1(1,2) tree_at_same [OF 2(4) ap'(1)] tree_at_same [OF 2(4) ap'(2)] ap(8) 2(4)
    by (simp_all add: same_off_def st1_def)
  obtain st3 where 3: "(if ptr s l \<noteq> s then put_parent b (ptr s l) st2 else Some st2) = Some st3"
    "tree_at (rb_mem st3) s b l" "rb_root st3 = rb_root st2" "same_off (addrs l) st2 st3"
    using reparent_tree [OF t2(1) ap(9,12), of b] by blast
  have t3: "tree_at (rb_mem st3) s q r" "ctx_at (rb_mem st3) s rp b ctx" "rb_mem st3 b = Some ?b"
    using t2(2,3) tree_at_same [OF 3(4) ap(15)] 2(2) ctx_at_same [OF 3(4) ap(16)] 3(4) ap(6) by (auto simp: same_off_def)
  obtain st4 where 4: "(if ptr s r \<noteq> s then put_parent b (ptr s r) st3 else Some st3) = Some st4"
    "tree_at (rb_mem st4) s b r" "rb_root st4 = rb_root st3" "same_off (addrs r) st3 st4"
    using reparent_tree [OF t3(1) ap(10,13), of b] by blast
  have t4: "tree_at (rb_mem st4) s b l" "ctx_at (rb_mem st4) s rp b ctx" "rb_mem st4 b = Some ?b"
    using 3(2) t3(2,3) tree_at_same [OF 4(4) ap'(3)] ctx_at_same [OF 4(4) ap(17)] 4(4) ap(7) by (auto simp: same_off_def)
  have run: "rb_take_place s a b st = Some st4"
    using assms(1,2) a1 ap(1) 2(1) t2(3) 3(1) t3(3) 4(1)
    by (cases nb) (simp add: rb_take_place_def wr_some st1_def cong: if_cong split del: if_split)
  have same: "same_off (insert b (ctx_addrs ctx \<union> addrs l \<union> addrs r)) st st4"
    using 2(4) 3(4) 4(4) by (auto simp: same_off_def st1_def)
  have "rb_mem st4 s = rb_mem st s" "rb_mem st4 a = rb_mem st a"
    using same ap assms(9) by (auto simp: same_off_def)
  moreover have "rb_root st4 = ptr s (plug (T c l b (rb_key nb) r) ctx)"
    using 2(3) 3(3) 4(3) assms(11) ptr_plug_Cons [of s "T c l a k r" "hd ctx" "tl ctx" "T c l b (rb_key nb) r"]
    by (cases "ctx = []") (simp_all add: st1_def)
  ultimately show ?thesis
    using run same 4(2) t4 ap assms(9,12) by (intro exI [of _ st4]) (auto simp: holds_def)
qed

lemma ptr_plug_ne: "ctx \<noteq> [] \<Longrightarrow> ptr s (plug t ctx) = ptr s (plug t' ctx)"
  by (cases ctx) (simp_all add: ptr_plug_Cons [of s t _ _ t'])

text \<open>First its child takes its place, with the parent it will have.\<close>

lemma relink:
  assumes "holds s rp st (plug (nd Lft cb E b kb x) (sp @ Fr Rgt c a k l # ctx))"
  defines "C \<equiv> sp @ Fr Rgt c a k l # ctx"
  shows "\<exists>u p st1 st2 n m. rb_mem st b = Some u \<and> rb_red u = cb \<and> rb_key u = kb \<and> rb_parent u = up rp C \<and> rb_mem st (up rp C) = Some p \<and>
    put_child (if b = rb_left p then Lft else Rgt) (ptr s x) (up rp C) st = Some st1 \<and> rb_mem st1 b = Some u \<and>
    put_parent (if up rp C = a then b else up rp C) (ptr s x) st1 = Some st2 \<and>
    tree_at (rb_mem st2) s (if up rp C = a then b else up rp C) x \<and> ctx_at (rb_mem st2) s rp (ptr s x) C \<and>
    rb_root st2 = rb_root st \<and> rb_mem st2 b = Some u \<and>
    rb_mem st2 (ptr s x) = Some n \<and> rb_parent n = (if up rp C = a then b else up rp C) \<and> rb_red n = is_red x \<and>
    rb_mem st2 s = Some m \<and> \<not> rb_red m \<and> same_off (insert s (addrs (plug x C))) st st2"
proof -
  let ?P' = "if up rp C = a then b else up rp C"
  note h = assms(1) [folded C_def]
  have ap: "apart (plug (nd Lft cb E b kb x) C)" "s \<notin> addrs (plug (nd Lft cb E b kb x) C)"
    using h by (simp_all add: holds_def)
  have "C \<noteq> []" by (simp add: C_def)
  from unlink [OF h this, of "ptr s x"] obtain u p st1 where 1: "rb_mem st b = Some u" "rb_parent u = up rp C" "rb_red u = cb" "rb_mem st (rb_parent u) = Some p"
    "put_child (if b = rb_left p then Lft else Rgt) (ptr s x) (rb_parent u) st = Some st1"
    "ctx_at (rb_mem st1) s rp (ptr s x) C" "rb_root st1 = rb_root st" "same_off (top_addr C) st st1" by auto
  have "Some u = Some (mk_node Lft kb (ptr s E) (ptr s x) (up rp C) cb)" using 1(1) holds_node [OF h] by (simp only:)
  then have key: "rb_key u = kb" by simp
  have off1: "rb_mem st1 q = rb_mem st q" if "q \<notin> ctx_addrs C" for q
    using 1(8) that top_addr_sub [of C] unfolding same_off_def by blast
  have bq: "b \<notin> ctx_addrs C" "ptr s x \<notin> ctx_addrs C" "ptr s x \<noteq> b" "apart x" "s \<notin> addrs x" "s \<notin> ctx_addrs C"
    using ap ptr_mem [of s x] by auto
  obtain n where n: "rb_mem st (ptr s x) = Some n" "rb_red n = is_red x"
    using holds_red [of s rp st x "Fr Rgt cb b kb E # C"] h by auto
  have x1: "tree_at (rb_mem st1) s b x"
  proof (subst tree_at_frame [where m = "rb_mem st"])
    show "rb_mem st1 q = rb_mem st q" if "q \<in> addrs x" for q
      by (rule off1) (use ap(1) that in auto)
  qed (use h in \<open>simp add: holds_def\<close>)
  have n1: "rb_mem st1 (ptr s x) = Some n" "rb_mem st1 b = Some u" "rb_mem st1 s = rb_mem st s"
    using off1 bq(1,2,6) n(1) 1(1) by simp_all
  obtain st2 where 2: "put_parent ?P' (ptr s x) st1 = Some st2" "tree_at (rb_mem st2) s ?P' x"
    "rb_root st2 = rb_root st1" "rb_mem st2 (ptr s x) = Some (n\<lparr>rb_parent := ?P'\<rparr>)" "same_off {ptr s x} st1 st2"
    using reparent [OF x1 bq(4) n1(1) bq(5), of ?P'] by blast
  have c2: "ctx_at (rb_mem st2) s rp (ptr s x) C" using ctx_at_same [OF 2(5)] bq(2) 1(6) by simp
  obtain m where s2: "rb_mem st2 s = Some m" "\<not> rb_red m"
  proof (cases "x = E")
    case True
    then show ?thesis using 2(4) n(2) that by simp
  next
    case False
    then have "ptr s x \<noteq> s" using ptr_eq_s [OF bq(5)] by simp
    then show ?thesis using 2(5) n1(3) h that by (auto simp: same_off_def holds_def)
  qed
  have "same_off (insert s (addrs (plug x C))) st st2"
    by (rule same_off_trans [OF same_off_mono [OF 1(8)] same_off_mono [OF 2(5)]])
      (use top_addr_sub [of C] ptr_mem [of s x] in auto)
  moreover have "rb_mem st2 b = Some u" using 2(5) n1(2) bq(3) by (simp add: same_off_def)
  ultimately show ?thesis
    using 1 key 2 n1(2) c2 s2 n(2)
    by - (rule exI [of _ u], rule exI [of _ p], rule exI [of _ st1], rule exI [of _ st2],
      rule exI [of _ "n\<lparr>rb_parent := ?P'\<rparr>"], rule exI [of _ m], simp)
qed

lemma transplant:
  assumes "holds s rp st (plug (nd Lft cb E b kb x) (sp @ Fr Rgt c a k l # ctx))"
  shows "\<exists>u p st1 st2. rb_mem st b = Some u \<and> rb_red u = cb \<and> rb_mem st (rb_parent u) = Some p \<and>
    put_child (if b = rb_left p then Lft else Rgt) (ptr s x) (rb_parent u) st = Some st1 \<and>
    rb_transplant s a b (ptr s x) st1 = Some st2 \<and>
    at_hole s rp st2 x (sp @ Fr Rgt c b kb l # ctx) \<and> rb_mem st2 a \<noteq> None \<and>
    same_off (insert s (addrs (plug (nd Lft cb E b kb x) (sp @ Fr Rgt c a k l # ctx)))) st st2"
proof -
  let ?C = "sp @ Fr Rgt c a k l # ctx" and ?C' = "sp @ Fr Rgt c b kb l # ctx" and ?r = "plug x sp"
  let ?P' = "if up rp ?C = a then b else up rp ?C" and ?A = "insert s (addrs (plug (nd Lft cb E b kb x) ?C))"
  have ap: "apart (plug (nd Lft cb E b kb x) ?C)" "s \<notin> addrs (plug (nd Lft cb E b kb x) ?C)"
    "rb_root st = ptr s (plug (nd Lft cb E b kb x) ?C)"
    using assms by (simp_all add: holds_def)
  obtain u p st1 st2 n m where 1: "rb_mem st b = Some u" "rb_red u = cb" "rb_key u = kb" "rb_parent u = up rp ?C" "rb_mem st (up rp ?C) = Some p"
    "put_child (if b = rb_left p then Lft else Rgt) (ptr s x) (up rp ?C) st = Some st1" "rb_mem st1 b = Some u"
    and 2: "put_parent ?P' (ptr s x) st1 = Some st2" "tree_at (rb_mem st2) s ?P' x" "ctx_at (rb_mem st2) s rp (ptr s x) ?C"
    "rb_root st2 = rb_root st" "rb_mem st2 b = Some u"
    and n2: "rb_mem st2 (ptr s x) = Some n" "rb_parent n = ?P'" "rb_red n = is_red x"
    and s2: "rb_mem st2 s = Some m" "\<not> rb_red m" and same2: "same_off (insert s (addrs (plug x ?C))) st st2"
    using relink [OF assms] by (elim exE conjE) (rule that)
  have c2: "ctx_at (rb_mem st2) s a (ptr s x) sp" "rb_mem st2 a = Some (mk_node Lft k (ptr s l) (ptr s ?r) (up rp ctx) c)"
    "tree_at (rb_mem st2) s a l" "ctx_at (rb_mem st2) s rp a ctx"
    using 2(3) mk_node_opp [of Lft k "ptr s l" "ptr s ?r"] by (simp_all add: ctx_at_append)
  have P': "?P' = up b sp"
    using ap(1) by (cases sp rule: top_addr.cases) auto
  have r2: "tree_at (rb_mem st2) s (if sp = [] then b else a) ?r"
    using 2(2) c2(1) unfolding P' by (cases sp rule: top_addr.cases) auto
  have tree: "plug (T c l a k ?r) ctx = plug x ?C" "plug (T c l b kb ?r) ctx = plug x ?C'" by (simp_all add: plug_append)
  have "a = rb_root st2 \<longleftrightarrow> ctx = []"
    using holds_root [of s rp st Rgt c "plug (nd Lft cb E b kb x) sp" a k l ctx] assms 2(4) by (simp add: plug_append)
  moreover have "rb_root st2 = ptr s (plug x ?C)" using ap(3) 2(4) ptr_plug_ne [of ?C] by simp
  ultimately obtain st3 where 3: "rb_take_place s a b st2 = Some st3" "holds s rp st3 (plug x ?C')"
    "rb_mem st3 a = rb_mem st2 a" "same_off (insert b (ctx_addrs ctx \<union> addrs l \<union> addrs ?r)) st2 st3"
    using take_place [OF c2(2) 2(5) c2(3) r2 c2(4)] s2 ap(1,2) unfolding tree 1(3) by auto
  have "at_hole s rp st3 x ?C'"
  proof (cases "x = E")
    case True
    have "rb_mem st3 s = rb_mem st2 s" using 3(4) ap(2) by (auto simp: same_off_def)
    then show ?thesis using True n2 3(2) P' by (simp add: at_hole_def up_append)
  next
    case False
    then show ?thesis using 3(2) by (cases x) (simp_all add: at_hole_def holds_def)
  qed
  moreover have "rb_transplant s a b (ptr s x) st1 = Some st3"
    using 1(4,7) 2(1) 3(1) by (auto simp: rb_transplant_def)
  moreover have "same_off ?A st st3"
    by (rule same_off_trans [OF same_off_mono [OF same2] same_off_mono [OF 3(4)]]) auto
  ultimately show ?thesis using 1 3(3) c2(2)
    by - (rule exI [of _ u], rule exI [of _ p], rule exI [of _ st1], rule exI [of _ st3], simp)
qed

subsection \<open>The whole of \<open>ngx_rbtree_delete\<close>\<close>

text \<open>What deletion of node \<open>a\<close> promises; \<open>xs\<close> is what is left in order.\<close>

definition deleted ::
  "addr \<Rightarrow> addr \<Rightarrow> addr set \<Rightarrow> (addr \<times> 64 word) list \<Rightarrow> rbtree \<Rightarrow> rbtree option \<Rightarrow> bool"
where
  "deleted s a A xs st res \<longleftrightarrow>
     (\<exists>st' rp' t' c. res = Some st' \<and> holds s rp' st' t' \<and> rb_ok t' \<and> inorder t' = xs \<and>
        rb_mem st' a = Some \<lparr>rb_key = 0, rb_left = 0, rb_right = 0, rb_parent = 0, rb_red = c\<rparr> \<and> same_off A st st')"

lemma deletedI:
  assumes "res = Some st'" "holds s rp' st' t'" "rb_ok t'" "inorder t' = xs"
    and "rb_mem st' a = Some \<lparr>rb_key = 0, rb_left = 0, rb_right = 0, rb_parent = 0, rb_red = c\<rparr>" "same_off A st st'"
  shows "deleted s a A xs st res"
  using assms unfolding deleted_def by blast

lemma at_hole_off:
  assumes "at_hole s rp st t ctx" "same_off {a} st st'" "rb_root st' = rb_root st" "a \<notin> insert s (addrs (plug t ctx))"
  shows "at_hole s rp st' t ctx"
proof -
  have "{a} \<inter> addrs t = {}" "{a} \<inter> ctx_addrs ctx = {}" "a \<noteq> s" "a \<noteq> ptr s t" using assms(4) ptr_mem [of s t] by auto
  then show ?thesis
    using assms(1-3) tree_at_same [OF assms(2)] ctx_at_same [OF assms(2)]
    by (auto simp: at_hole_def holds_def same_off_def)
qed

lemma delete_tail:
  assumes "at_hole s rp st x ctx" "rb_mem st a \<noteq> None" "a \<notin> insert s (addrs (plug x ctx))"
    and "bal n x" "no_rr x" "c \<longrightarrow> \<not> is_red x" "ctx_no_rr c ctx" "ctx_bal (if c then n else Suc n) ctx"
    and "ctx_root_black ctx" "ctx \<noteq> []" "insert a (insert s (addrs (plug x ctx))) \<subseteq> A"
  shows "deleted s a A (inorder (plug x ctx)) st (do { st \<leftarrow> wipe a st; if c then Some st else delete_end s (ptr s x) st })"
proof -
  obtain e st1 where 1: "wipe a st = Some st1" "rb_mem st1 a = Some \<lparr>rb_key = 0, rb_left = 0, rb_right = 0, rb_parent = 0, rb_red = e\<rparr>"
    "rb_root st1 = rb_root st" "same_off {a} st st1"
    using wiped assms(2) by (metis option.exhaust)
  have hole: "at_hole s rp st1 x ctx" by (rule at_hole_off [OF assms(1) 1(4,3) assms(3)])
  show ?thesis
  proof (cases c)
    case True
    obtain m where "bal m (plug x ctx)" using bal_plug [OF assms(4)] assms(8) True by auto
    then have "rb_ok (plug x ctx)" using assms(5-7,9,10) True ctx_no_rr_black [of True ctx] by (intro rb_okI) (simp_all add: is_red_plug)
    then show ?thesis
      using 1 hole True assms(11) same_off_mono [OF 1(4), of A]
      by (intro deletedI [where st' = st1 and t' = "plug x ctx"]) (auto simp: at_hole_def)
  next
    case False
    let ?B = "insert s (addrs (plug x ctx))"
    have "restored s rp ?B (plug x ctx) st1 (delete_end s (ptr s x) st1)"
      by (rule delete_loop [OF hole, where n = n]) (use assms(4,5,7-9) False in simp_all)
    then obtain st2 t2 m where 2: "delete_end s (ptr s x) st1 = Some st2" "holds s rp st2 t2" "no_rr t2" "\<not> is_red t2"
      "bal m t2" "inorder t2 = inorder (plug x ctx)" "same_off ?B st1 st2"
      unfolding restored_def by blast
    have "rb_ok t2" by (rule rb_okI [OF 2(4,3,5)])
    moreover have "rb_mem st2 a = rb_mem st1 a" using 2(7) assms(3) unfolding same_off_def by blast
    moreover have "same_off A st st2"
      by (rule same_off_trans [OF same_off_mono [OF 1(4)] same_off_mono [OF 2(7)]]) (use assms(11) in auto)
    ultimately show ?thesis
      using 1 2 False by (intro deletedI [where st' = st2 and t' = t2]) simp_all
  qed
qed

text \<open>The root with at most one child.\<close>

lemma delete_root:
  assumes "holds s rp st (nd d c E a k x)" "rb_ok (nd d c E a k x)" "insert a (insert s (addrs x)) \<subseteq> A"
  shows "deleted s a A (inorder x) st (do { st \<leftarrow> put_red False (ptr s x) (st\<lparr>rb_root := ptr s x\<rparr>); wipe a st })"
proof -
  let ?st = "st\<lparr>rb_root := ptr s x\<rparr>"
  have h: "holds s a ?st x" and ax: "a \<notin> addrs x" "a \<noteq> s" and a: "rb_mem st a \<noteq> None"
    using assms(1) by (auto simp: holds_def)
  obtain st1 where 1: "put_red False (ptr s x) ?st = Some st1" "holds s a st1 (paint False x)" "same_off (insert s (addrs x)) ?st st1"
  proof (cases x)
    case E
    obtain n where "rb_mem ?st s = Some n" using h by (auto simp: holds_def)
    then show ?thesis
      using that [of "?st\<lparr>rb_mem := (rb_mem st)(s \<mapsto> n\<lparr>rb_red := False\<rparr>)\<rparr>"] h E
      by (auto simp: wr_some holds_def same_off_def)
  next
    case (T c' l b k' r)
    with recolour [of s a ?st Lft c' l b k' r "[]" "insert s (addrs x)" False] h that show ?thesis by auto
  qed
  have "rb_mem st1 a = rb_mem st a" using 1(3) ax by (simp add: same_off_def)
  then obtain e st2 where 2: "wipe a st1 = Some st2" "rb_mem st2 a = Some \<lparr>rb_key = 0, rb_left = 0, rb_right = 0, rb_parent = 0, rb_red = e\<rparr>"
    "rb_root st2 = rb_root st1" "same_off {a} st1 st2"
    using wiped [of st1 a] a by auto
  have h2: "holds s a st2 (paint False x)"
    using 1(2) 2(3,4) tree_at_same [OF 2(4), of "paint False x" s a] ax by (auto simp: holds_def same_off_def)
  have black: "\<not> c" "no_rr x" using assms(2) by (simp_all add: rb_ok_def)
  obtain h where "bal h (nd d c E a k x)" using assms(2) unfolding rb_ok_def by blast
  then obtain n where "bal n x" using black(1) by (auto split: nat.split_asm)
  then obtain m where "bal m (paint False x)" using bal_paint by blast
  then have "rb_ok (paint False x)" using black(2) by (intro rb_okI) simp_all
  moreover have "same_off A st st2"
    using same_off_mono [OF 1(3) subset_trans [OF _ assms(3)]] same_off_mono [OF 2(4), of A] assms(3)
    by (auto simp: same_off_def)
  ultimately show ?thesis
    using 1(1) 2 h2 by (intro deletedI [where st' = st2 and t' = "paint False x"]) simp_all
qed

text \<open>The address and the key of a frame do not matter to the colours.\<close>

lemma frame_colours:
  "ctx_bal n (xs @ Fr d c a k y # ctx) \<longleftrightarrow> ctx_bal n (xs @ Fr d c b k' y # ctx)"
  "ctx_no_rr e (xs @ Fr d c a k y # ctx) \<longleftrightarrow> ctx_no_rr e (xs @ Fr d c b k' y # ctx)"
  "ctx_root_black (xs @ Fr d c a k y # ctx) \<longleftrightarrow> ctx_root_black (xs @ Fr d c b k' y # ctx)"
proof (induction xs arbitrary: n e)
  case (Cons f xs)
  { case 1 show ?case using Cons.IH(1) by (cases f) simp }
  { case 2 show ?case using Cons.IH(2) by (cases f) simp }
  { case 3 show ?case using Cons.IH(3) by (cases f) simp }
qed simp_all

lemma before_append: "before (xs @ ys) = before ys @ before xs"
proof (induction xs)
  case (Cons f xs)
  obtain d c a k y where "f = Fr d c a k y" by (cases f)
  with Cons show ?case by (cases d) simp_all
qed simp

lemma behind_append: "behind (xs @ ys) = behind xs @ behind ys"
proof (induction xs)
  case (Cons f xs)
  obtain d c a k y where "f = Fr d c a k y" by (cases f)
  with Cons show ?case by (cases d) simp_all
qed simp

lemma node_colours:
  assumes "rb_ok (plug (nd d c E a k x) ctx)"
  obtains n where "bal n x" "no_rr x" "c \<longrightarrow> \<not> is_red x" "ctx_no_rr c ctx" "ctx_bal (if c then n else Suc n) ctx"
    "ctx \<noteq> [] \<longrightarrow> ctx_root_black ctx"
proof -
  obtain m where "bal m (nd d c E a k x)" "ctx_bal m ctx"
    using plug_bal assms unfolding rb_ok_def by blast
  then obtain n where "bal n x" "ctx_bal (if c then n else Suc n) ctx"
    by (cases c) (auto split: nat.split_asm)
  moreover have "no_rr x" "c \<longrightarrow> \<not> is_red x" "ctx_no_rr c ctx" "ctx \<noteq> [] \<longrightarrow> ctx_root_black ctx"
    using assms by (auto simp: rb_ok_def is_red_plug)
  ultimately show thesis by (intro that)
qed

lemma delete_one_child:
  assumes "holds s rp st (plug (nd d c E a k x) ctx)" "rb_ok (plug (nd d c E a k x) ctx)" "d = Rgt \<longrightarrow> x \<noteq> E"
  shows "deleted s a (insert s (addrs (plug (nd d c E a k x) ctx))) (inorder (plug x ctx)) st (ngx_rbtree_delete s a st)"
proof -
  let ?A = "insert s (addrs (plug (nd d c E a k x) ctx))"
  have a: "rb_mem st a = Some (mk_node d k s (ptr s x) (up rp ctx) c)" using holds_node [OF assms(1)] by simp
  have x: "ptr s x = s \<longleftrightarrow> x = E" by (rule ptr_eq_s) (use assms(1) in \<open>simp add: holds_def\<close>)
  show ?thesis
  proof (cases "ctx = []")
    case True
    have "rb_root st = a" using holds_root [OF assms(1)] True by simp
    then have "ngx_rbtree_delete s a st =
        (do { st \<leftarrow> put_red False (ptr s x) (st\<lparr>rb_root := ptr s x\<rparr>); wipe a st })"
      using a x assms(3) by (cases d) (simp_all add: ngx_rbtree_delete_def)
    then show ?thesis using delete_root [of s rp st d c a k x ?A] assms(1,2) True by auto
  next
    case False
    obtain u p st1 st2 where 1: "rb_mem st a = Some u" "rb_red u = c" "rb_mem st (rb_parent u) = Some p"
      "put_child (if a = rb_left p then Lft else Rgt) (ptr s x) (rb_parent u) st = Some st1"
      "rb_mem st1 a = Some u" "put_parent (rb_parent u) (ptr s x) st1 = Some st2"
      "at_hole s rp st2 x ctx" "rb_mem st2 a = Some u" "same_off (insert s (addrs (plug x ctx))) st st2"
      using splice_out [OF assms(1) False] assms(1) by (auto simp: holds_def)
    have "a \<noteq> rb_root st" using holds_root [OF assms(1)] False by simp
    then have "ngx_rbtree_delete s a st =
        (do { st \<leftarrow> wipe a st2; if c then Some st else delete_end s (ptr s x) st })"
      using a x assms(3) 1 by (cases d) (simp_all add: ngx_rbtree_delete_def delete_end_def cong: if_cong)
    moreover obtain n where "bal n x" "no_rr x" "c \<longrightarrow> \<not> is_red x" "ctx_no_rr c ctx" "ctx_bal (if c then n else Suc n) ctx"
      "ctx \<noteq> [] \<longrightarrow> ctx_root_black ctx"
      using node_colours [OF assms(2)] by blast
    then have "deleted s a ?A (inorder (plug x ctx)) st2 (do { st \<leftarrow> wipe a st2; if c then Some st else delete_end s (ptr s x) st })"
      using 1(8) assms(1) False by (intro delete_tail [OF 1(7)]) (auto simp: holds_def)
    ultimately show ?thesis
      using same_off_trans [OF same_off_mono [OF 1(9)], of ?A] unfolding deleted_def by auto
  qed
qed

lemma delete_two_children:
  assumes "holds s rp st (plug (T c l a k r) ctx)" "rb_ok (plug (T c l a k r) ctx)" "l \<noteq> E" "r \<noteq> E"
  shows "deleted s a (insert s (addrs (plug (T c l a k r) ctx))) (before ctx @ inorder l @ inorder r @ behind ctx) st
    (ngx_rbtree_delete s a st)"
proof -
  let ?A = "insert s (addrs (plug (T c l a k r) ctx))"
  have h: "holds s rp st (plug r (Fr Rgt c a k l # ctx))" using assms(1) by simp
  obtain cb b kb x sp where m: "r = plug (T cb E b kb x) sp" "before sp = []" "ngx_rbtree_min (ptr s r) s st = Some b"
    using min_of_tree [OF h assms(4)] by blast
  let ?C = "sp @ Fr Rgt c a k l # ctx" and ?C' = "sp @ Fr Rgt c b kb l # ctx"
  have tree: "plug (T c l a k r) ctx = plug (nd Lft cb E b kb x) ?C" by (simp add: plug_append m(1))
  note hold = assms(1) [unfolded tree] and ok = assms(2) [unfolded tree]
  have a: "rb_mem st a = Some (mk_node Lft k (ptr s l) (ptr s r) (up rp ctx) c)"
    using assms(1) by (simp add: holds_def)
  have b: "rb_mem st b = Some (mk_node Lft kb s (ptr s x) (up rp ?C) cb)" using holds_node [OF hold] by simp
  have "a \<notin> addrs r" "s \<notin> addrs l" "s \<notin> addrs r" "a \<notin> insert s (addrs l \<union> ctx_addrs ctx)"
    using assms(1) by (auto simp: holds_def)
  then have ne: "ptr s l \<noteq> s" "ptr s r \<noteq> s" "b \<noteq> a" "a \<notin> insert s (addrs (plug x ?C'))"
    using ptr_eq_s [of s l] ptr_eq_s [of s r] assms(3,4) m(1) by auto
  have root: "b \<noteq> rb_root st" using holds_root [OF hold] by simp
  obtain u p st1 st2 where 1: "rb_mem st b = Some u" "rb_red u = cb" "rb_mem st (rb_parent u) = Some p"
    "put_child (if b = rb_left p then Lft else Rgt) (ptr s x) (rb_parent u) st = Some st1"
    "rb_transplant s a b (ptr s x) st1 = Some st2" "at_hole s rp st2 x ?C'" "rb_mem st2 a \<noteq> None"
    "same_off ?A st st2"
    using transplant [OF hold] unfolding tree by blast
  have run: "ngx_rbtree_delete s a st =
      (do { st \<leftarrow> wipe a st2; if cb then Some st else delete_end s (ptr s x) st })"
    using a b m(3) ne(1-3) root 1(1-5) by (simp add: ngx_rbtree_delete_def delete_end_def cong: if_cong)
  obtain n where "bal n x" "no_rr x" "cb \<longrightarrow> \<not> is_red x" "ctx_no_rr cb ?C'" "ctx_bal (if cb then n else Suc n) ?C'"
    "ctx_root_black ?C'"
    using node_colours [OF ok] frame_colours [where xs = sp and d = Rgt and c = c and a = a and k = k and y = l and ctx = ctx and b = b and k' = kb]
    by auto
  then have "deleted s a ?A (inorder (plug x ?C')) st2 (do { st \<leftarrow> wipe a st2; if cb then Some st else delete_end s (ptr s x) st })"
    using 1(7) ne(4) unfolding tree by (intro delete_tail [OF 1(6)]) auto
  moreover have "inorder (plug x ?C') = before ctx @ inorder l @ inorder r @ behind ctx"
    using m(2) by (simp add: inorder_plug m(1) before_append behind_append)
  ultimately show ?thesis
    using same_off_trans [OF 1(8)] run unfolding deleted_def by auto
qed

lemma addrs_inorder: "addrs t = fst ` set (inorder t)"
  by (induction t) auto

lemma filter_others: "a \<notin> fst ` set xs \<Longrightarrow> filter (\<lambda>(b, k). b \<noteq> a) xs = xs"
  by (induction xs) auto

lemma ctx_addresses: "fst ` set (before ctx) \<union> fst ` set (behind ctx) = ctx_addrs ctx"
proof (induction ctx)
  case (Cons f ctx)
  obtain d c a k y where f: "f = Fr d c a k y" by (cases f)
  show ?case using Cons.IH [symmetric] by (cases d) (auto simp: f addrs_inorder)
qed simp

lemma delete_correct:
  assumes "holds s rp st t" "rb_ok t" "a \<in> addrs t"
  shows "deleted s a (insert s (addrs t)) (filter (\<lambda>(b, k). b \<noteq> a) (inorder t)) st (ngx_rbtree_delete s a st)"
proof -
  obtain c l k r ctx where t: "t = plug (T c l a k r) ctx" using find_node [OF assms(3)] by blast
  have rest: "filter (\<lambda>(b, k). b \<noteq> a) (inorder t) = before ctx @ inorder l @ inorder r @ behind ctx"
  proof -
    have "a \<notin> addrs l" "a \<notin> addrs r" "a \<notin> ctx_addrs ctx" using assms(1) t by (auto simp: holds_def)
    moreover from this(3) have "a \<notin> fst ` set (before ctx)" "a \<notin> fst ` set (behind ctx)"
      unfolding ctx_addresses [symmetric] by blast+
    ultimately show ?thesis by (simp add: t inorder_plug addrs_inorder filter_others)
  qed
  consider "l = E" | "r = E" "l \<noteq> E" | "l \<noteq> E" "r \<noteq> E" by blast
  then show ?thesis
  proof cases
    case 1
    then show ?thesis
      using delete_one_child [of s rp st Lft c a k r ctx] assms(1,2) unfolding rest unfolding t by (simp add: inorder_plug)
  next
    case 2
    then show ?thesis
      using delete_one_child [of s rp st Rgt c a k l ctx] assms(1,2) unfolding rest unfolding t by (simp add: inorder_plug)
  next
    case 3
    then show ?thesis
      using delete_two_children [of s rp st c l a k r ctx] assms(1,2) unfolding rest unfolding t by simp
  qed
qed

subsection \<open>Properties\<close>

text \<open>C1: \<open>ngx_rbtree_delete\<close> of any node of a red-black tree in memory: it returns, the memory then holds a
  red-black tree of the other nodes in the same order, the links and the key of the node are
  cleared, and nothing but the nodes of the tree and the sentinel is written.\<close>

theorem rbtree_delete_correct:
  assumes "holds s rp st t" "rb_ok t" "node \<in> addrs t"
  shows "\<exists>st' rp' t' c. ngx_rbtree_delete s node st = Some st' \<and> holds s rp' st' t' \<and> rb_ok t' \<and>
    inorder t' = filter (\<lambda>(a, k). a \<noteq> node) (inorder t) \<and>
    rb_mem st' node = Some \<lparr>rb_key = 0, rb_left = 0, rb_right = 0, rb_parent = 0, rb_red = c\<rparr> \<and>
    same_off (insert s (addrs t)) st st'"
  using delete_correct [OF assms] unfolding deleted_def .

lemma rbtree_delete_correct_witness:
  "\<exists>st' rp' t'. ngx_rbtree_delete 1 2 (sample_mem 7 5) = Some st' \<and> holds 1 rp' st' t' \<and> inorder t' = []"
  using rbtree_delete_correct [OF sample_holds(1,2), of 2 7 5] by auto

end
