(* ===== verification/Rbtree_Search.thy ===== *)
theory Rbtree_Search
  imports Rbtree_Delete "HOL-Library.List_Lexorder" "HOL-Library.Product_Lexorder"
begin

section \<open>Red-black trees as dictionaries\<close>

text \<open>
  Trees whose nodes carry a string beside the key, a hash of it. \<open>ngx_str_rbtree_insert_value\<close> and
  \<open>ngx_str_rbtree_lookup\<close> of \<open>src/core/ngx_string.c\<close> order equal hashes by the length of the string and
  then its bytes; the request limiting modules (\<open>ngx_http_limit_req_module.c\<close>,
  \<open>ngx_http_limit_conn_module.c\<close>) by \<open>ngx_memn2cmp\<close>. The strings are a function of the address of the
  node. The locale \<open>search_tree\<close> is what the callback of the insertion and the comparison of the
  lookup have to agree on for the tree to be a dictionary; both pairs of functions are instances.
\<close>

subsection \<open>Comparing strings\<close>

text \<open>\<open>ngx_memcmp\<close> of two regions of the same size: the sign of its result.\<close>

fun ngx_memcmp :: "8 word list \<Rightarrow> 8 word list \<Rightarrow> int" where
  "ngx_memcmp (x # xs) (y # ys) = (if x = y then ngx_memcmp xs ys else if x < y then - 1 else 1)"
| "ngx_memcmp xs ys = 0"

definition ngx_memn2cmp :: "8 word list \<Rightarrow> 8 word list \<Rightarrow> int" where
  "ngx_memn2cmp s1 s2 =
     (let (n, z) = (if length s1 \<le> length s2 then (length s1, - 1) else (length s2, 1));
          m = ngx_memcmp (take n s1) (take n s2)
      in if m \<noteq> 0 \<or> length s1 = length s2 then m else z)"

subsection \<open>The callbacks and the lookups\<close>

fun str_less :: "(addr \<Rightarrow> 8 word list) \<Rightarrow> addr \<times> 64 word \<Rightarrow> addr \<times> 64 word \<Rightarrow> bool" where
  "str_less str (n, k) (t, k') =
     (if k \<noteq> k' then k < k'
      else if length (str n) \<noteq> length (str t) then length (str n) < length (str t)
      else ngx_memcmp (str n) (str t) < 0)"

abbreviation (input) ngx_str_rbtree_insert_value ::
  "(addr \<Rightarrow> 8 word list) \<Rightarrow> addr \<Rightarrow> addr \<Rightarrow> addr \<Rightarrow> rbtree \<Rightarrow> rbtree option"
where
  "ngx_str_rbtree_insert_value str \<equiv> rb_insert_by (str_less str)"

fun data_less :: "(addr \<Rightarrow> 8 word list) \<Rightarrow> addr \<times> 64 word \<Rightarrow> addr \<times> 64 word \<Rightarrow> bool" where
  "data_less data (n, k) (t, k') =
     (if k < k' then True
      else if k > k' then False
      else ngx_memn2cmp (data n) (data t) < 0)"

text \<open>
  The loop of the lookups: \<open>cmp\<close> compares what is searched with a node. The result is the node found,
  or none.
\<close>

partial_function (option) rb_search ::
  "(addr \<times> 64 word \<Rightarrow> int) \<Rightarrow> addr \<Rightarrow> addr \<Rightarrow> rbtree \<Rightarrow> addr option option"
where
  "rb_search cmp sentinel node t =
     (if node = sentinel then Some None
      else do {
        n \<leftarrow> rb_mem t node;
        let rc = cmp (node, rb_key n);
        if rc = 0 then Some (Some node)
        else rb_search cmp sentinel (if rc < 0 then rb_left n else rb_right n) t
      })"

fun str_cmp :: "(addr \<Rightarrow> 8 word list) \<Rightarrow> 64 word \<times> 8 word list \<Rightarrow> addr \<times> 64 word \<Rightarrow> int" where
  "str_cmp str (hash, val) (node, k) =
     (if hash \<noteq> k then (if hash < k then - 1 else 1)
      else if length val \<noteq> length (str node) then (if length val < length (str node) then - 1 else 1)
      else ngx_memcmp val (str node))"

definition ngx_str_rbtree_lookup :: "(addr \<Rightarrow> 8 word list) \<Rightarrow> addr \<Rightarrow> 8 word list \<Rightarrow> 32 word \<Rightarrow> rbtree \<Rightarrow> addr option option" where
  "ngx_str_rbtree_lookup str sentinel val hash t = rb_search (str_cmp str (ucast hash, val)) sentinel (rb_root t) t"

fun data_cmp :: "(addr \<Rightarrow> 8 word list) \<Rightarrow> 64 word \<times> 8 word list \<Rightarrow> addr \<times> 64 word \<Rightarrow> int" where
  "data_cmp data (hash, key) (node, k) =
     (if hash < k then - 1
      else if hash > k then 1
      else ngx_memn2cmp key (data node))"

subsection \<open>The comparisons are orders\<close>

lemma memcmp_lex:
  assumes "length xs = length ys"
  shows "ngx_memcmp xs ys < 0 \<longleftrightarrow> xs < ys" "ngx_memcmp xs ys = 0 \<longleftrightarrow> xs = ys"
proof -
  have "(ngx_memcmp xs ys < 0 \<longleftrightarrow> xs < ys) \<and> (ngx_memcmp xs ys = 0 \<longleftrightarrow> xs = ys)"
    using assms
  proof (induction xs ys rule: list_induct2)
    case (Cons x xs y ys)
    then show ?case by (cases "x = y") simp_all
  qed simp
  then show "ngx_memcmp xs ys < 0 \<longleftrightarrow> xs < ys" "ngx_memcmp xs ys = 0 \<longleftrightarrow> xs = ys" by blast+
qed

lemma lex_take:
  assumes "length xs \<le> length ys" "take (length xs) ys \<noteq> xs"
  shows "xs < ys \<longleftrightarrow> xs < take (length xs) ys" "ys < xs \<longleftrightarrow> take (length xs) ys < xs"
proof -
  have "(xs < ys \<longleftrightarrow> xs < take (length xs) ys) \<and> (ys < xs \<longleftrightarrow> take (length xs) ys < xs)"
    using assms
  proof (induction xs arbitrary: ys)
    case (Cons x xs)
    then obtain y zs where ys: "ys = y # zs" "length xs \<le> length zs" by (cases ys) simp_all
    show ?case
    proof (cases "x = y")
      case True
      then have "take (length xs) zs \<noteq> xs" using Cons.prems(2) ys by simp
      then show ?thesis using Cons.IH [OF ys(2)] True by (simp add: ys)
    qed (simp add: ys)
  qed simp
  then show "xs < ys \<longleftrightarrow> xs < take (length xs) ys" "ys < xs \<longleftrightarrow> take (length xs) ys < xs" by blast+
qed

lemma lex_prefix: "length xs < length ys \<Longrightarrow> take (length xs) ys = xs \<Longrightarrow> xs < ys"
proof (induction xs arbitrary: ys)
  case Nil
  then show ?case by (cases ys) simp_all
next
  case (Cons x xs)
  then show ?case by (cases ys) auto
qed

lemma memn2cmp_le:
  assumes "length xs \<le> length ys"
  shows "ngx_memn2cmp xs ys = (let m = ngx_memcmp xs (take (length xs) ys) in if m \<noteq> 0 \<or> length xs = length ys then m else - 1)"
  using assms by (simp add: ngx_memn2cmp_def)

lemma memn2cmp_gt:
  assumes "length ys < length xs"
  shows "ngx_memn2cmp xs ys = (let m = ngx_memcmp (take (length ys) xs) ys in if m \<noteq> 0 then m else 1)"
  using assms by (simp add: ngx_memn2cmp_def)

lemma memn2cmp_lex: "ngx_memn2cmp xs ys < 0 \<longleftrightarrow> xs < ys" "ngx_memn2cmp xs ys = 0 \<longleftrightarrow> xs = ys"
proof -
  have "(ngx_memn2cmp xs ys < 0 \<longleftrightarrow> xs < ys) \<and> (ngx_memn2cmp xs ys = 0 \<longleftrightarrow> xs = ys)"
  proof (cases "length xs \<le> length ys")
    case True
    define zs where "zs = take (length xs) ys"
    have m: "ngx_memcmp xs zs < 0 \<longleftrightarrow> xs < zs" "ngx_memcmp xs zs = 0 \<longleftrightarrow> xs = zs"
      using True by (simp_all add: memcmp_lex zs_def)
    have def: "ngx_memn2cmp xs ys = (if ngx_memcmp xs zs \<noteq> 0 \<or> length xs = length ys then ngx_memcmp xs zs else - 1)"
      using memn2cmp_le [OF True] by (simp add: zs_def Let_def)
    show ?thesis
    proof (cases "zs = xs")
      case prefix: True
      then have 0: "ngx_memcmp xs zs = 0" using m by simp
      show ?thesis
      proof (cases "length xs = length ys")
        case True
        then have "xs = ys" using prefix by (simp add: zs_def)
        then show ?thesis using def 0 by simp
      next
        case False
        then have "xs < ys" using lex_prefix [of xs ys] \<open>length xs \<le> length ys\<close> prefix by (simp add: zs_def)
        then show ?thesis using def 0 False by auto
      qed
    next
      case False
      then have "xs \<noteq> ys" by (auto simp: zs_def)
      then show ?thesis using m lex_take(1) [OF True] def False by (simp add: zs_def)
    qed
  next
    case False
    then have lt: "length ys < length xs" by simp
    define zs where "zs = take (length ys) xs"
    have m: "ngx_memcmp zs ys < 0 \<longleftrightarrow> zs < ys" "ngx_memcmp zs ys = 0 \<longleftrightarrow> zs = ys"
      using lt by (simp_all add: memcmp_lex zs_def)
    have def: "ngx_memn2cmp xs ys = (if ngx_memcmp zs ys \<noteq> 0 then ngx_memcmp zs ys else 1)"
      using memn2cmp_gt [OF lt] by (simp add: zs_def Let_def)
    have neq: "xs \<noteq> ys" using lt by auto
    show ?thesis
    proof (cases "zs = ys")
      case True
      then have "ys < xs" using lex_prefix [OF lt] by (simp add: zs_def)
      then have "\<not> xs < ys" by (rule less_asym [THEN notI, rotated])
      then show ?thesis using m True neq def by simp
    next
      case False
      then show ?thesis using m lex_take(2) [of ys xs] lt neq def by (simp add: zs_def)
    qed
  qed
  then show "ngx_memn2cmp xs ys < 0 \<longleftrightarrow> xs < ys" "ngx_memn2cmp xs ys = 0 \<longleftrightarrow> xs = ys" by blast+
qed

subsection \<open>Dictionaries\<close>

text \<open>
  An entry is a key together with the string of the node. \<open>dict\<close> says that memory holds a tree in
  the order of the entries, no two of them equal; the dictionary maps an entry to its node.
\<close>

definition entry :: "(addr \<Rightarrow> 8 word list) \<Rightarrow> addr \<times> 64 word \<Rightarrow> 64 word \<times> 8 word list" where
  "entry str x = (snd x, str (fst x))"

definition entries :: "(addr \<Rightarrow> 8 word list) \<Rightarrow> (addr \<times> 64 word) list \<Rightarrow> 64 word \<times> 8 word list \<rightharpoonup> addr" where
  "entries str xs = map_of (map (\<lambda>x. (entry str x, fst x)) xs)"

definition dict ::
  "(64 word \<times> 8 word list \<Rightarrow> 'r::linorder) \<Rightarrow> (addr \<Rightarrow> 8 word list) \<Rightarrow> addr \<Rightarrow> rbtree \<Rightarrow>
   (64 word \<times> 8 word list \<rightharpoonup> addr) \<Rightarrow> bool"
where
  "dict order str s st D \<longleftrightarrow>
     (\<exists>rp t. holds s rp st t \<and> rb_ok t \<and> sorted_wrt (<) (map (\<lambda>x. order (entry str x)) (inorder t)) \<and>
       D = entries str (inorder t))"

lemma inorder_key:
  assumes "tree_at m s p t" "(a, k) \<in> set (inorder t)"
  shows "\<exists>n. m a = Some n \<and> rb_key n = k"
  using assms by (induction m s p t rule: tree_at.induct) auto

lemma entries_iff:
  assumes "distinct (map (entry str) xs)"
  shows "entries str xs q = Some a \<longleftrightarrow> (a, fst q) \<in> set xs \<and> str a = snd q"
proof -
  have "distinct (map fst (map (\<lambda>x. (entry str x, fst x)) xs))" using assms by (simp add: comp_def)
  then have "entries str xs q = Some a \<longleftrightarrow> (q, a) \<in> set (map (\<lambda>x. (entry str x, fst x)) xs)"
    unfolding entries_def by (rule map_of_eq_Some_iff)
  then show ?thesis by (cases q) (force simp: entry_def)
qed

lemma ran_entries: "distinct (map (entry str) xs) \<Longrightarrow> ran (entries str xs) = fst ` set xs"
  by (force simp: ran_def entries_iff)

lemma distinct_filter_split:
  "distinct (map f xs) \<Longrightarrow> distinct (map f (filter P xs) @ map f (filter (\<lambda>x. \<not> P x) xs))"
  by (induction xs) auto

locale search_tree =
  fixes less :: "(addr \<Rightarrow> 8 word list) \<Rightarrow> addr \<times> 64 word \<Rightarrow> addr \<times> 64 word \<Rightarrow> bool"
    and cmp :: "(addr \<Rightarrow> 8 word list) \<Rightarrow> 64 word \<times> 8 word list \<Rightarrow> addr \<times> 64 word \<Rightarrow> int"
    and order :: "64 word \<times> 8 word list \<Rightarrow> 'r::linorder"
  assumes order_inj: "order q = order q' \<Longrightarrow> q = q'"
    and less_order: "less str x y \<longleftrightarrow> order (entry str x) < order (entry str y)"
    and cmp_less: "cmp str q y < 0 \<longleftrightarrow> order q < order (entry str y)"
    and cmp_eq: "cmp str q y = 0 \<longleftrightarrow> q = entry str y"
begin

lemma strict:
  "sorted_wrt (<) (map (\<lambda>x. order (entry str x)) xs) \<longleftrightarrow>
    ranked (\<lambda>x. order (entry str x)) xs \<and> distinct (map (entry str) xs)"
proof -
  have "inj_on order A" for A by (auto intro: inj_onI order_inj)
  then have "distinct (map order (map (entry str) xs)) \<longleftrightarrow> distinct (map (entry str) xs)"
    unfolding distinct_map [of order] by simp
  then show ?thesis by (simp add: strict_sorted_iff ranked_def comp_def)
qed

lemma search_subtree:
  assumes "holds s rp st (plug t ctx)" "sorted_wrt (<) (map (\<lambda>x. order (entry str x)) (inorder t))"
  shows "rb_search (cmp str q) s (ptr s t) st = Some (entries str (inorder t) q)"
  using assms
proof (induction t arbitrary: ctx)
  case E
  then show ?case by (subst rb_search.simps) (simp add: entries_def)
next
  case (T c l a k r)
  have a: "rb_mem st a = Some (mk_node Lft k (ptr s l) (ptr s r) (up rp ctx) c)" "a \<noteq> s"
    using holds_node [of s rp st Lft c l a k r ctx] T.prems(1) by (auto simp: holds_def)
  have sorted: "sorted_wrt (<) (map (\<lambda>x. order (entry str x)) (inorder l))"
    "sorted_wrt (<) (map (\<lambda>x. order (entry str x)) (inorder r))"
    and sep: "\<And>x. x \<in> set (inorder l) \<Longrightarrow> order (entry str x) < order (entry str (a, k))"
      "\<And>x. x \<in> set (inorder r) \<Longrightarrow> order (entry str (a, k)) < order (entry str x)"
    using T.prems(2) by (auto simp: sorted_wrt_append)
  have l: "rb_search (cmp str q) s (ptr s l) st = Some (entries str (inorder l) q)"
    by (rule T.IH(1) [of "Fr Lft c a k r # ctx"]) (use T.prems(1) sorted in simp_all)
  have r: "rb_search (cmp str q) s (ptr s r) st = Some (entries str (inorder r) q)"
    by (rule T.IH(2) [of "Fr Rgt c a k l # ctx"]) (use T.prems(1) sorted in simp_all)
  have none: "entries str xs q = None" if "\<And>x. x \<in> set xs \<Longrightarrow> entry str x \<noteq> q" for xs
    using that by (force simp: entries_def map_of_eq_None_iff)
  have step: "rb_search (cmp str q) s a st =
      (if q = entry str (a, k) then Some (Some a)
       else if order q < order (entry str (a, k)) then rb_search (cmp str q) s (ptr s l) st
       else rb_search (cmp str q) s (ptr s r) st)"
    using a cmp_less [of str q "(a, k)"] cmp_eq [of str q "(a, k)"]
    by (subst rb_search.simps) (simp add: Let_def)
  show ?case
  proof (cases "q = entry str (a, k)")
    case True
    have "entries str (inorder l) q = None" by (rule none) (use sep(1) True in force)
    then show ?thesis using step True by (simp add: entries_def map_add_def)
  next
    case neq: False
    show ?thesis
    proof (cases "order q < order (entry str (a, k))")
      case True
      then have "entries str (inorder r) q = None" by (intro none) (use sep(2) in force)
      then show ?thesis using step True neq l by (simp add: entries_def map_add_def split: option.splits)
    next
      case False
      then have "entries str (inorder l) q = None" by (intro none) (use sep(1) in force)
      then show ?thesis using step False neq r by (simp add: entries_def map_add_def)
    qed
  qed
qed

lemma search_dict:
  assumes "dict order str s st D"
  shows "rb_search (cmp str q) s (rb_root st) st = Some (D q)"
proof -
  obtain rp t where t: "holds s rp st t" "sorted_wrt (<) (map (\<lambda>x. order (entry str x)) (inorder t))"
    "D = entries str (inorder t)"
    using assms by (auto simp: dict_def)
  then show ?thesis using search_subtree [of s rp st t "[]" str q] by (simp add: holds_def)
qed

lemma insert_dict:
  assumes "dict order str s st D" "rb_mem st node = Some n" "node \<notin> insert s (ran D)"
    and "D (rb_key n, str node) = None"
  shows "\<exists>st'. ngx_rbtree_insert (rb_insert_by (less str)) s node st = Some st' \<and>
    dict order str s st' (D((rb_key n, str node) \<mapsto> node)) \<and> same_off (insert node (ran D)) st st'"
proof -
  let ?rank = "\<lambda>x. order (entry str x)" and ?x = "(node, rb_key n)"
  obtain rp t where t: "holds s rp st t" "rb_ok t" "ranked ?rank (inorder t)" "distinct (map (entry str) (inorder t))"
    "D = entries str (inorder t)"
    using assms(1) unfolding dict_def strict by blast
  note D = entries_iff [OF t(4)]
  have ran: "ran D = addrs t" unfolding t(5) by (simp add: ran_entries [OF t(4)] addrs_inorder)
  obtain st' rp' t' where 1: "ngx_rbtree_insert (rb_insert_by (less str)) s node st = Some st'" "holds s rp' st' t'" "rb_ok t'"
    "inorder t' = put_in_order ?rank ?x (inorder t)" "same_off (insert node (addrs t)) st st'"
    using insert_in_order [OF t(1-3) assms(2), of "less str"] assms(3) ran less_order by auto
  have new: "entry str ?x \<notin> entry str ` set (inorder t)"
    using assms(4) D [of "(rb_key n, str node)"] by (force simp: entry_def t(5) dest: not_None_eq [THEN iffD1])
  have other: "str a \<noteq> str node" if "(a, rb_key n) \<in> set (inorder t)" for a
    using new that by (force simp: entry_def)
  have "distinct (map (entry str) (inorder t'))"
    using t(4) new distinct_filter_split [OF t(4), of "\<lambda>y. ?rank y \<le> ?rank ?x"] by (simp add: 1(4) put_in_order_def not_le) blast
  moreover from this have "entries str (inorder t') q = (D((rb_key n, str node) \<mapsto> node)) q" for q
  proof -
    have "entries str (inorder t') q = Some a \<longleftrightarrow> (D((rb_key n, str node) \<mapsto> node)) q = Some a" for a
      unfolding entries_iff [OF \<open>distinct (map (entry str) (inorder t'))\<close>] using D [of q a] other
      by (cases q) (auto simp: 1(4) set_put_in_order t(5))
    then show ?thesis by (metis option.exhaust)
  qed
  moreover have "ranked ?rank (inorder t')" unfolding 1(4) by (rule ranked_put_in_order [OF t(3)])
  ultimately have "dict order str s st' (D((rb_key n, str node) \<mapsto> node))"
    unfolding dict_def strict using 1(2,3) by (intro exI conjI) auto
  with 1(1,5) ran show ?thesis by auto
qed

lemma delete_dict:
  assumes "dict order str s st D" "D q = Some a"
  shows "\<exists>st'. ngx_rbtree_delete s a st = Some st' \<and> dict order str s st' (D(q := None)) \<and>
    rb_mem st' a \<noteq> None \<and> same_off (insert s (ran D)) st st'"
proof -
  let ?rank = "\<lambda>x. order (entry str x)"
  obtain rp t where t: "holds s rp st t" "rb_ok t" "sorted_wrt (<) (map ?rank (inorder t))" "D = entries str (inorder t)"
    using assms(1) unfolding dict_def by blast
  have dis: "distinct (map (entry str) (inorder t))" using t(3) unfolding strict ..
  note D = entries_iff [OF dis]
  have ran: "ran D = addrs t" unfolding t(4) by (simp add: ran_entries [OF dis] addrs_inorder)
  have a: "(a, fst q) \<in> set (inorder t)" "str a = snd q" using assms(2) D by (simp_all add: t(4))
  have "a \<in> addrs t" using a(1) by (force simp: addrs_inorder)
  from delete_correct [OF t(1,2) this] obtain st' rp' t' c where
    d: "ngx_rbtree_delete s a st = Some st'" "holds s rp' st' t'" "rb_ok t'"
    "inorder t' = filter (\<lambda>(b, k). b \<noteq> a) (inorder t)" "rb_mem st' a \<noteq> None" "same_off (insert s (addrs t)) st st'"
    unfolding deleted_def by blast
  have sorted: "sorted_wrt (<) (map ?rank (inorder t'))" "distinct (map (entry str) (inorder t'))"
    using t(3) dis unfolding d(4) by (auto simp: sorted_wrt_map sorted_wrt_filter distinct_map inj_on_def)
  have "tree_at (rb_mem st) s rp t" using t(1) by (simp add: holds_def)
  note keys = inorder_key [OF this]
  have one: "k = fst q" if "(a, k) \<in> set (inorder t)" for k
    using keys [OF that] keys [OF a(1)] by auto
  have "entries str (inorder t') q' = Some b \<longleftrightarrow> (D(q := None)) q' = Some b" for q' b
  proof (cases "q' = q")
    case True
    have "b = a" if "(b, fst q) \<in> set (inorder t)" "str b = snd q"
      using D [of q b] assms(2) that by (simp add: t(4))
    then show ?thesis unfolding entries_iff [OF sorted(2)] using True by (auto simp: d(4))
  next
    case False
    have "b \<noteq> a" if "(b, fst q') \<in> set (inorder t)" "str b = snd q'"
      using False one [of "fst q'"] that a(2) by (auto simp: prod_eq_iff)
    then show ?thesis unfolding entries_iff [OF sorted(2)] using D [of q' b] False by (auto simp: d(4) t(4))
  qed
  then have "entries str (inorder t') = D(q := None)" by (metis option.exhaust ext)
  then have "dict order str s st' (D(q := None))"
    unfolding dict_def using d(2,3) sorted(1) by (intro exI conjI) auto
  with d(1,5,6) ran show ?thesis by auto
qed

end

lemma dict_empty:
  assumes "rb_root st = s" "rb_mem st s = Some n" "\<not> rb_red n"
  shows "dict order str s st (\<lambda>q. None)"
  using assms unfolding dict_def
  by (intro exI [of _ 0] exI [of _ E]) (auto simp: holds_def rb_ok_def entries_def)

lemma dict_cong:
  assumes "dict order str s st D" "\<And>a. a \<in> ran D \<Longrightarrow> str' a = str a"
    and "\<And>a. a \<in> insert s (ran D) \<Longrightarrow> rb_mem st' a = rb_mem st a" "rb_root st' = rb_root st"
    and dis: "\<And>str xs. sorted_wrt (<) (map (\<lambda>x. order (entry str x)) xs) \<Longrightarrow> distinct (map (entry str) xs)"
  shows "dict order str' s st' D"
proof -
  obtain rp t where t: "holds s rp st t" "rb_ok t" "sorted_wrt (<) (map (\<lambda>x. order (entry str x)) (inorder t))"
    "D = entries str (inorder t)"
    using assms(1) unfolding dict_def by blast
  have ran: "ran D = addrs t" unfolding t(4) by (simp add: ran_entries [OF dis [OF t(3)]] addrs_inorder)
  have "str' (fst x) = str (fst x)" if "x \<in> set (inorder t)" for x
    using assms(2) [of "fst x"] that unfolding ran addrs_inorder by blast
  then have same: "map (\<lambda>x. f (entry str' x)) (inorder t) = map (\<lambda>x. f (entry str x)) (inorder t)"
    "map (\<lambda>x. (entry str' x, fst x)) (inorder t) = map (\<lambda>x. (entry str x, fst x)) (inorder t)" for f :: "_ \<Rightarrow> 'b"
    by (auto simp: entry_def)
  have "tree_at (rb_mem st') s rp t"
    using t(1) assms(3) tree_at_same [of "- addrs t" st st' t s rp] by (simp add: holds_def ran same_off_def)
  then have "holds s rp st' t"
    using t(1) assms(3) [of s] assms(4) by (simp add: holds_def)
  then show ?thesis unfolding dict_def
    using t(2-4) by (intro exI [of _ rp] exI [of _ t]) (simp add: same entries_def)
qed

context search_tree
begin

lemma dict_nodes:
  assumes "dict order str s st D" "D q = Some a"
  shows "str a = snd q" "a \<noteq> s" "\<exists>n. rb_mem st a = Some n \<and> rb_key n = fst q"
proof -
  obtain rp t where t: "holds s rp st t" "sorted_wrt (<) (map (\<lambda>x. order (entry str x)) (inorder t))" "D = entries str (inorder t)"
    using assms(1) by (auto simp: dict_def)
  have "distinct (map (entry str) (inorder t))" using t(2) by (simp add: strict)
  then have "(a, fst q) \<in> set (inorder t)" "str a = snd q" using assms(2) entries_iff [of str "inorder t" q a] t(3) by simp_all
  moreover from this(1) have "a \<in> addrs t" by (force simp: addrs_inorder)
  ultimately show "str a = snd q" "a \<noteq> s" "\<exists>n. rb_mem st a = Some n \<and> rb_key n = fst q"
    using t(1) inorder_key [of "rb_mem st" s rp t a "fst q"] by (auto simp: holds_def)
qed

lemma dict_inj: "dict order str s st D \<Longrightarrow> D q = Some a \<Longrightarrow> D q' = Some a \<Longrightarrow> q = q'"
  using dict_nodes(1,3) [of str s st D q a] dict_nodes(1,3) [of str s st D q' a] by (force simp: prod_eq_iff)

lemma dict_change:
  assumes "dict order str s st D" "\<And>a. a \<in> ran D \<Longrightarrow> str' a = str a"
    and "\<And>a. a \<in> insert s (ran D) \<Longrightarrow> rb_mem st' a = rb_mem st a" "rb_root st' = rb_root st"
  shows "dict order str' s st' D"
  by (rule dict_cong [OF assms]) (simp_all add: strict)

end

subsection \<open>The two orders\<close>

definition str_key :: "64 word \<times> 8 word list \<Rightarrow> 64 word \<times> nat \<times> 8 word list" where
  "str_key q = (fst q, length (snd q), snd q)"

lemma str_cmp_key: "str_cmp str q y < 0 \<longleftrightarrow> str_key q < str_key (entry str y)" "str_cmp str q y = 0 \<longleftrightarrow> q = entry str y"
proof -
  obtain hash val a k where q: "q = (hash, val)" and y: "y = (a, k)" by (cases q; cases y)
  consider "hash \<noteq> k" | "hash = k" "length val \<noteq> length (str a)" | "hash = k" "length val = length (str a)" by blast
  then have "(str_cmp str q y < 0 \<longleftrightarrow> str_key q < str_key (entry str y)) \<and> (str_cmp str q y = 0 \<longleftrightarrow> q = entry str y)"
  proof cases
    case 1
    then show ?thesis by (simp add: q y str_key_def entry_def)
  next
    case 2
    then show ?thesis by (auto simp: q y str_key_def entry_def)
  next
    case 3
    then show ?thesis using memcmp_lex [of val "str a"] by (simp add: q y str_key_def entry_def)
  qed
  then show "str_cmp str q y < 0 \<longleftrightarrow> str_key q < str_key (entry str y)" "str_cmp str q y = 0 \<longleftrightarrow> q = entry str y"
    by blast+
qed

lemma str_less_cmp: "str_less str x y \<longleftrightarrow> str_cmp str (entry str x) y < 0"
  by (cases x; cases y) (simp add: entry_def)

lemma data_cmp_key: "data_cmp data q y < 0 \<longleftrightarrow> q < entry data y" "data_cmp data q y = 0 \<longleftrightarrow> q = entry data y"
proof -
  obtain hash key a k where q: "q = (hash, key)" and y: "y = (a, k)" by (cases q; cases y)
  consider "hash < k" | "k < hash" | "hash = k" by (rule linorder_less_linear [of hash k, THEN disjE]) blast+
  then have "(data_cmp data q y < 0 \<longleftrightarrow> q < entry data y) \<and> (data_cmp data q y = 0 \<longleftrightarrow> q = entry data y)"
  proof cases
    case 3
    then show ?thesis using memn2cmp_lex [of key "data a"] by (simp add: q y entry_def)
  qed (auto simp: q y entry_def)
  then show "data_cmp data q y < 0 \<longleftrightarrow> q < entry data y" "data_cmp data q y = 0 \<longleftrightarrow> q = entry data y"
    by blast+
qed

lemma data_less_cmp: "data_less data x y \<longleftrightarrow> data_cmp data (entry data x) y < 0"
  by (cases x; cases y) (simp add: entry_def)

interpretation str_tree: search_tree str_less str_cmp str_key
  by unfold_locales (simp_all add: str_cmp_key str_less_cmp, auto simp: str_key_def prod_eq_iff)

interpretation data_tree: search_tree data_less data_cmp "\<lambda>q. q"
  by unfold_locales (simp_all add: data_cmp_key data_less_cmp)

subsection \<open>Properties\<close>

text \<open>A sentinel at 1, the string "ab" of hash 7 in the node 2, and "b" in the node 3.\<close>

definition sample_strs :: "addr \<Rightarrow> 8 word list" where
  "sample_strs a = (if a = 2 then [97, 98] else [98])"

lemma sample_dict: "dict order sample_strs 1 (sample_mem 7 k) [(7, [97, 98]) \<mapsto> 2]"
  unfolding dict_def using sample_holds(1) [of 7 k] sample_holds(2) [of 7]
  by (intro exI [of _ 0] exI [of _ "T False E 2 7 E"]) (auto simp: entries_def entry_def sample_strs_def)

text \<open>C3: A tree of strings after \<open>ngx_rbtree_insert\<close> with \<open>ngx_str_rbtree_insert_value\<close> of a node whose hash and
  string are not in it yet: the insertion returns and writes only to nodes of the tree and the new
  one, and \<open>ngx_str_rbtree_lookup\<close> then finds the new node for its hash and string, and for any other
  hash and string the node, or no node, that it found before.\<close>

theorem str_rbtree_insert_lookup:
  assumes "dict str_key str s st D" "rb_mem st node = Some n" "node \<notin> insert s (ran D)"
    and "D (rb_key n, str node) = None"
  shows "\<exists>st'. ngx_rbtree_insert (rb_insert_by (str_less str)) s node st = Some st' \<and>
    same_off (insert node (ran D)) st st' \<and>
    (\<forall>val hash. ngx_str_rbtree_lookup str s val hash st' =
       (if (ucast hash, val) = (rb_key n, str node) then Some (Some node) else ngx_str_rbtree_lookup str s val hash st))"
  using str_tree.insert_dict [OF assms] str_tree.search_dict [OF assms(1)] str_tree.search_dict
  by (fastforce simp: ngx_str_rbtree_lookup_def)

lemma str_rbtree_insert_lookup_witness:
  "\<exists>st'. ngx_rbtree_insert (rb_insert_by (str_less sample_strs)) 1 3 (sample_mem 7 7) = Some st' \<and>
    ngx_str_rbtree_lookup sample_strs 1 [98] 7 st' = Some (Some 3)"
  using str_rbtree_insert_lookup [OF sample_dict sample_holds(3), of 7] by (auto simp: sample_strs_def)

text \<open>\<open>ngx_rbtree_delete\<close> of the node that \<open>ngx_str_rbtree_lookup\<close> finds for a hash and a string: the lookup then
  finds no node for them, and every other lookup finds what it found before.\<close>

theorem str_rbtree_delete_lookup:
  assumes "dict str_key str s st D" "ngx_str_rbtree_lookup str s val hash st = Some (Some node)"
  shows "\<exists>st'. ngx_rbtree_delete s node st = Some st' \<and>
    (\<forall>val' hash'. ngx_str_rbtree_lookup str s val' hash' st' =
       (if (hash', val') = (hash, val) then Some None else ngx_str_rbtree_lookup str s val' hash' st))"
proof -
  have "D (ucast hash, val) = Some node"
    using assms(2) str_tree.search_dict [OF assms(1)] by (simp add: ngx_str_rbtree_lookup_def)
  from str_tree.delete_dict [OF assms(1) this] obtain st' where
    d: "ngx_rbtree_delete s node st = Some st'" "dict str_key str s st' (D((ucast hash, val) := None))" by blast
  have "ucast h = (ucast h' :: 64 word) \<longleftrightarrow> h = h'" for h h' :: "32 word"
    by transfer simp
  then show ?thesis
    using d(1) str_tree.search_dict [OF assms(1)] str_tree.search_dict [OF d(2)]
    by (intro exI [of _ st']) (simp add: ngx_str_rbtree_lookup_def)
qed

lemma str_rbtree_delete_lookup_witness:
  "\<exists>st'. ngx_rbtree_delete 1 2 (sample_mem 7 5) = Some st' \<and>
    ngx_str_rbtree_lookup sample_strs 1 [97, 98] 7 st' = Some None"
proof -
  have "ngx_str_rbtree_lookup sample_strs 1 [97, 98] 7 (sample_mem 7 5) = Some (Some 2)"
    using str_tree.search_dict [OF sample_dict] by (simp add: ngx_str_rbtree_lookup_def)
  from str_rbtree_delete_lookup [OF sample_dict this] show ?thesis by auto
qed

end
