(* ===== verification/Crc32.thy ===== *)
theory Crc32
  imports Prelude
begin

section \<open>CRC-32\<close>

text \<open>
  \<open>src/core/ngx_crc32.c\<close> and \<open>src/core/ngx_crc32.h\<close>: the checksum with a table of 16 entries for short keys
  and with one of 256 for the rest, against the division of the polynomial bit by bit.
\<close>

unbundle bit_operations_syntax

definition ngx_crc32_table16 :: "32 word list" where
  "ngx_crc32_table16 =
    [0x00000000, 0x1db71064, 0x3b6e20c8, 0x26d930ac, 0x76dc4190, 0x6b6b51f4, 0x4db26158, 0x5005713c,
     0xedb88320, 0xf00f9344, 0xd6d6a3e8, 0xcb61b38c, 0x9b64c2b0, 0x86d3d2d4, 0xa00ae278, 0xbdbdf21c]"

definition ngx_crc32_table256 :: "32 word list" where
  "ngx_crc32_table256 =
    [0x00000000, 0x77073096, 0xee0e612c, 0x990951ba, 0x076dc419, 0x706af48f, 0xe963a535, 0x9e6495a3,
     0x0edb8832, 0x79dcb8a4, 0xe0d5e91e, 0x97d2d988, 0x09b64c2b, 0x7eb17cbd, 0xe7b82d07, 0x90bf1d91,
     0x1db71064, 0x6ab020f2, 0xf3b97148, 0x84be41de, 0x1adad47d, 0x6ddde4eb, 0xf4d4b551, 0x83d385c7,
     0x136c9856, 0x646ba8c0, 0xfd62f97a, 0x8a65c9ec, 0x14015c4f, 0x63066cd9, 0xfa0f3d63, 0x8d080df5,
     0x3b6e20c8, 0x4c69105e, 0xd56041e4, 0xa2677172, 0x3c03e4d1, 0x4b04d447, 0xd20d85fd, 0xa50ab56b,
     0x35b5a8fa, 0x42b2986c, 0xdbbbc9d6, 0xacbcf940, 0x32d86ce3, 0x45df5c75, 0xdcd60dcf, 0xabd13d59,
     0x26d930ac, 0x51de003a, 0xc8d75180, 0xbfd06116, 0x21b4f4b5, 0x56b3c423, 0xcfba9599, 0xb8bda50f,
     0x2802b89e, 0x5f058808, 0xc60cd9b2, 0xb10be924, 0x2f6f7c87, 0x58684c11, 0xc1611dab, 0xb6662d3d,
     0x76dc4190, 0x01db7106, 0x98d220bc, 0xefd5102a, 0x71b18589, 0x06b6b51f, 0x9fbfe4a5, 0xe8b8d433,
     0x7807c9a2, 0x0f00f934, 0x9609a88e, 0xe10e9818, 0x7f6a0dbb, 0x086d3d2d, 0x91646c97, 0xe6635c01,
     0x6b6b51f4, 0x1c6c6162, 0x856530d8, 0xf262004e, 0x6c0695ed, 0x1b01a57b, 0x8208f4c1, 0xf50fc457,
     0x65b0d9c6, 0x12b7e950, 0x8bbeb8ea, 0xfcb9887c, 0x62dd1ddf, 0x15da2d49, 0x8cd37cf3, 0xfbd44c65,
     0x4db26158, 0x3ab551ce, 0xa3bc0074, 0xd4bb30e2, 0x4adfa541, 0x3dd895d7, 0xa4d1c46d, 0xd3d6f4fb,
     0x4369e96a, 0x346ed9fc, 0xad678846, 0xda60b8d0, 0x44042d73, 0x33031de5, 0xaa0a4c5f, 0xdd0d7cc9,
     0x5005713c, 0x270241aa, 0xbe0b1010, 0xc90c2086, 0x5768b525, 0x206f85b3, 0xb966d409, 0xce61e49f,
     0x5edef90e, 0x29d9c998, 0xb0d09822, 0xc7d7a8b4, 0x59b33d17, 0x2eb40d81, 0xb7bd5c3b, 0xc0ba6cad,
     0xedb88320, 0x9abfb3b6, 0x03b6e20c, 0x74b1d29a, 0xead54739, 0x9dd277af, 0x04db2615, 0x73dc1683,
     0xe3630b12, 0x94643b84, 0x0d6d6a3e, 0x7a6a5aa8, 0xe40ecf0b, 0x9309ff9d, 0x0a00ae27, 0x7d079eb1,
     0xf00f9344, 0x8708a3d2, 0x1e01f268, 0x6906c2fe, 0xf762575d, 0x806567cb, 0x196c3671, 0x6e6b06e7,
     0xfed41b76, 0x89d32be0, 0x10da7a5a, 0x67dd4acc, 0xf9b9df6f, 0x8ebeeff9, 0x17b7be43, 0x60b08ed5,
     0xd6d6a3e8, 0xa1d1937e, 0x38d8c2c4, 0x4fdff252, 0xd1bb67f1, 0xa6bc5767, 0x3fb506dd, 0x48b2364b,
     0xd80d2bda, 0xaf0a1b4c, 0x36034af6, 0x41047a60, 0xdf60efc3, 0xa867df55, 0x316e8eef, 0x4669be79,
     0xcb61b38c, 0xbc66831a, 0x256fd2a0, 0x5268e236, 0xcc0c7795, 0xbb0b4703, 0x220216b9, 0x5505262f,
     0xc5ba3bbe, 0xb2bd0b28, 0x2bb45a92, 0x5cb36a04, 0xc2d7ffa7, 0xb5d0cf31, 0x2cd99e8b, 0x5bdeae1d,
     0x9b64c2b0, 0xec63f226, 0x756aa39c, 0x026d930a, 0x9c0906a9, 0xeb0e363f, 0x72076785, 0x05005713,
     0x95bf4a82, 0xe2b87a14, 0x7bb12bae, 0x0cb61b38, 0x92d28e9b, 0xe5d5be0d, 0x7cdcefb7, 0x0bdbdf21,
     0x86d3d2d4, 0xf1d4e242, 0x68ddb3f8, 0x1fda836e, 0x81be16cd, 0xf6b9265b, 0x6fb077e1, 0x18b74777,
     0x88085ae6, 0xff0f6a70, 0x66063bca, 0x11010b5c, 0x8f659eff, 0xf862ae69, 0x616bffd3, 0x166ccf45,
     0xa00ae278, 0xd70dd2ee, 0x4e048354, 0x3903b3c2, 0xa7672661, 0xd06016f7, 0x4969474d, 0x3e6e77db,
     0xaed16a4a, 0xd9d65adc, 0x40df0b66, 0x37d83bf0, 0xa9bcae53, 0xdebb9ec5, 0x47b2cf7f, 0x30b5ffe9,
     0xbdbdf21c, 0xcabac28a, 0x53b39330, 0x24b4a3a6, 0xbad03605, 0xcdd70693, 0x54de5729, 0x23d967bf,
     0xb3667a2e, 0xc4614ab8, 0x5d681b02, 0x2a6f2b94, 0xb40bbe37, 0xc30c8ea1, 0x5a05df1b, 0x2d02ef8d]"

fun crc32_short_loop :: "32 word \<Rightarrow> 8 word list \<Rightarrow> 32 word" where
  "crc32_short_loop crc [] = crc"
| "crc32_short_loop crc (c # p) =
     (let crc = ngx_crc32_table16 ! unat ((crc XOR ucast (c AND 0xf)) AND 0xf) XOR drop_bit 4 crc;
          crc = ngx_crc32_table16 ! unat ((crc XOR ucast (drop_bit 4 c)) AND 0xf) XOR drop_bit 4 crc
      in crc32_short_loop crc p)"

definition ngx_crc32_short :: "8 word list \<Rightarrow> 32 word" where
  "ngx_crc32_short p = crc32_short_loop 0xffffffff p XOR 0xffffffff"

definition ngx_crc32_init :: "32 word" where
  "ngx_crc32_init = 0xffffffff"

fun ngx_crc32_update :: "32 word \<Rightarrow> 8 word list \<Rightarrow> 32 word" where
  "ngx_crc32_update c [] = c"
| "ngx_crc32_update c (b # p) =
     ngx_crc32_update (ngx_crc32_table256 ! unat ((c XOR ucast b) AND 0xff) XOR drop_bit 8 c) p"

definition ngx_crc32_final :: "32 word \<Rightarrow> 32 word" where
  "ngx_crc32_final crc = crc XOR 0xffffffff"

definition ngx_crc32_long :: "8 word list \<Rightarrow> 32 word" where
  "ngx_crc32_long p = ngx_crc32_update 0xffffffff p XOR 0xffffffff"

subsection \<open>Division by the polynomial\<close>

definition crc_bit :: "32 word \<Rightarrow> 32 word" where
  "crc_bit c = (if bit c 0 then 0xedb88320 XOR drop_bit 1 c else drop_bit 1 c)"

definition crc_byte :: "32 word \<Rightarrow> 8 word \<Rightarrow> 32 word" where
  "crc_byte c b = (crc_bit ^^ 8) (c XOR ucast b)"

definition crc32 :: "8 word list \<Rightarrow> 32 word" where
  "crc32 p = foldl crc_byte 0xffffffff p XOR 0xffffffff"

text \<open>The division is linear, so that a table is determined by its entries at the powers of two.\<close>

lemma crc_bit_xor: "crc_bit (a XOR b) = crc_bit a XOR crc_bit b"
  by (simp add: crc_bit_def bit_xor_iff drop_bit_xor xor.left_commute xor.assoc)

lemma crc_bits_xor: "(crc_bit ^^ n) (a XOR b) = (crc_bit ^^ n) a XOR (crc_bit ^^ n) b"
  by (induction n) (simp_all add: crc_bit_xor)

lemma exp_xor:
  assumes "k < 32" "j < 2 ^ k"
  shows "(of_nat (2 ^ k + j) :: 32 word) = 2 ^ k XOR of_nat j"
proof -
  have "\<not> bit j k" using assms(2) by (simp add: bit_iff_odd)
  then have "(2 ^ k :: 32 word) AND of_nat j = 0"
    by (intro bit_eqI) (auto simp: bit_and_iff bit_exp_iff bit_of_nat_iff)
  then have "(2 ^ k :: 32 word) + of_nat j = 2 ^ k XOR of_nat j" by (rule disjunctive_add_eq_xor)
  then show ?thesis by simp
qed

lemma table_double:
  fixes f :: "32 word \<Rightarrow> 32 word"
  assumes "\<And>a b. f (a XOR b) = f a XOR f b" "k < 32"
    and "t = map (\<lambda>i. f (of_nat i)) [0..<2 ^ k]"
  shows "map (\<lambda>i. f (of_nat i)) [0..<2 ^ Suc k] = t @ map (\<lambda>x. f (2 ^ k) XOR x) t"
proof -
  have "[0..<2 ^ Suc k] = [0..<2 ^ k + 2 ^ k]" by (simp add: mult_2)
  also have "\<dots> = [0..<2 ^ k] @ [2 ^ k..<2 ^ k + 2 ^ k]" by (rule upt_add_eq_append) simp
  also have "[2 ^ k..<2 ^ k + 2 ^ k] = map (\<lambda>i. i + 2 ^ k) [0..<(2 ^ k :: nat)]" by (rule map_add_upt [symmetric])
  finally have "map (\<lambda>i. f (of_nat i)) [0..<2 ^ Suc k] = t @ map (\<lambda>i. f (of_nat (2 ^ k + i))) [0..<2 ^ k]"
    by (simp add: assms(3) comp_def add.commute)
  moreover have "map (\<lambda>i. f (of_nat (2 ^ k + i))) [0..<2 ^ k] = map (\<lambda>i. f (2 ^ k) XOR f (of_nat i)) [0..<2 ^ k]"
    by (rule map_cong) (simp_all only: exp_xor [OF assms(2)] assms(1) set_upt atLeastLessThan_iff)
  ultimately show ?thesis by (simp add: assms(3) comp_def)
qed

lemma table16: "map (\<lambda>i. (crc_bit ^^ 4) (of_nat i)) [0..<16] = ngx_crc32_table16"
  by code_simp

lemma basis256:
  "(crc_bit ^^ 8) 1 = 0x77073096" "(crc_bit ^^ 8) 2 = 0xee0e612c" "(crc_bit ^^ 8) 4 = 0x076dc419"
  "(crc_bit ^^ 8) 8 = 0x0edb8832" "(crc_bit ^^ 8) 0x10 = 0x1db71064" "(crc_bit ^^ 8) 0x20 = 0x3b6e20c8"
  "(crc_bit ^^ 8) 0x40 = 0x76dc4190" "(crc_bit ^^ 8) 0x80 = 0xedb88320" "(crc_bit ^^ 8) 0 = 0"
  by (code_simp)+

fun doubled :: "32 word list \<Rightarrow> 32 word list \<Rightarrow> 32 word list" where
  "doubled t [] = t"
| "doubled t (b # bs) = doubled (t @ map (\<lambda>x. b XOR x) t) bs"

lemma doubled_table:
  fixes f :: "32 word \<Rightarrow> 32 word"
  assumes "\<And>a b. f (a XOR b) = f a XOR f b" "k + length bs \<le> 32"
    and "bs = map (\<lambda>i. f (2 ^ i)) [k..<k + length bs]"
  shows "doubled (map (\<lambda>i. f (of_nat i)) [0..<2 ^ k]) bs = map (\<lambda>i. f (of_nat i)) [0..<2 ^ (k + length bs)]"
  using assms(2,3)
proof (induction bs arbitrary: k)
  case (Cons b bs)
  have "[k..<k + length (b # bs)] = k # [Suc k..<Suc k + length bs]" by (simp add: upt_rec)
  then have b: "b = f (2 ^ k)" and bs: "bs = map (\<lambda>i. f (2 ^ i)) [Suc k..<Suc k + length bs]" using Cons.prems(2) by simp_all
  have "doubled (map (\<lambda>i. f (of_nat i)) [0..<2 ^ Suc k]) bs = map (\<lambda>i. f (of_nat i)) [0..<2 ^ (Suc k + length bs)]"
    using Cons.prems(1) bs by (intro Cons.IH) simp_all
  then show ?case using table_double [OF assms(1), of k] Cons.prems(1) b by simp
qed simp

lemma table256: "map (\<lambda>i. (crc_bit ^^ 8) (of_nat i)) [0..<256] = ngx_crc32_table256"
proof -
  have "doubled (map (\<lambda>i. (crc_bit ^^ 8) (of_nat i)) [0..<2 ^ 0])
      [0x77073096, 0xee0e612c, 0x076dc419, 0x0edb8832, 0x1db71064, 0x3b6e20c8, 0x76dc4190, 0xedb88320] =
      map (\<lambda>i. (crc_bit ^^ 8) (of_nat i)) [0..<2 ^ (0 + 8)]"
    using doubled_table [where f = "crc_bit ^^ 8" and k = 0 and bs =
      "[0x77073096, 0xee0e612c, 0x076dc419, 0x0edb8832, 0x1db71064, 0x3b6e20c8, 0x76dc4190, 0xedb88320]", OF crc_bits_xor]
    by (simp add: upt_rec basis256)
  moreover have "doubled (map (\<lambda>i. (crc_bit ^^ 8) (of_nat i)) [0..<2 ^ 0])
      [0x77073096, 0xee0e612c, 0x076dc419, 0x0edb8832, 0x1db71064, 0x3b6e20c8, 0x76dc4190, 0xedb88320] = ngx_crc32_table256"
    by (simp add: basis256 ngx_crc32_table256_def)
  ultimately show ?thesis by simp
qed

lemma crc_bits_low_zero: "take_bit n c = 0 \<Longrightarrow> (crc_bit ^^ n) c = drop_bit n c"
proof (induction n arbitrary: c)
  case (Suc n)
  have z: "\<not> bit c m" if "m \<le> n" for m
    using Suc.prems that by (metis bit_0_eq bit_take_bit_iff bot_apply le_imp_less_Suc bot_bool_def)
  have "take_bit n (drop_bit 1 c) = 0"
    by (rule bit_eqI) (use z in \<open>auto simp: bit_take_bit_iff bit_drop_bit_eq\<close>)
  moreover have "crc_bit c = drop_bit 1 c" using z [of 0] by (simp add: crc_bit_def)
  ultimately show ?case using Suc.IH by (simp add: funpow_swap1 drop_bit_drop_bit del: funpow.simps(2) add: funpow_Suc_right)
qed simp

lemma crc_bits_split: "(crc_bit ^^ n) c = (crc_bit ^^ n) (c AND mask n) XOR drop_bit n c"
proof -
  have "c = (c AND mask n) XOR (c AND NOT (mask n))"
    by (rule bit_eqI) (auto simp: bit_simps)
  moreover have "take_bit n (c AND NOT (mask n)) = 0" "drop_bit n (c AND NOT (mask n)) = drop_bit n c"
    by (rule bit_eqI, auto simp: bit_simps dest: bit_imp_le_length)+
  ultimately show ?thesis using crc_bits_xor crc_bits_low_zero by metis
qed

lemma masked_small: "unat (x AND mask n :: 32 word) < 2 ^ n"
  by (metis take_bit_eq_mask unsigned_take_bit_eq take_bit_nat_less_exp)

lemma nibble_step: "ngx_crc32_table16 ! unat (x AND 0xf) XOR drop_bit 4 x = (crc_bit ^^ 4) x"
proof -
  have m: "(0xf :: 32 word) = mask 4" by (simp add: mask_eq_exp_minus_1)
  have "unat (x AND mask 4) < 16" using masked_small [of x 4] by simp
  then have "ngx_crc32_table16 ! unat (x AND mask 4) = (crc_bit ^^ 4) (of_nat (unat (x AND mask 4)))"
    unfolding table16 [symmetric] by simp
  then show ?thesis unfolding m crc_bits_split [of 4 x] by simp
qed

lemma byte_step: "ngx_crc32_table256 ! unat (x AND 0xff) XOR drop_bit 8 x = (crc_bit ^^ 8) x"
proof -
  have m: "(0xff :: 32 word) = mask 8" by (simp add: mask_eq_exp_minus_1)
  have "unat (x AND mask 8) < 256" using masked_small [of x 8] by simp
  then have "ngx_crc32_table256 ! unat (x AND mask 8) = (crc_bit ^^ 8) (of_nat (unat (x AND mask 8)))"
    unfolding table256 [symmetric] by simp
  then show ?thesis unfolding m crc_bits_split [of 8 x] by simp
qed

lemma drop_byte: "drop_bit 8 (c XOR ucast (b :: 8 word)) = drop_bit 8 (c :: 32 word)"
  by (rule bit_eqI) (auto simp: bit_simps dest: bit_imp_le_length)

lemma drop_nibble: "drop_bit 4 (c XOR ucast (b AND 0xf :: 8 word)) = drop_bit 4 (c :: 32 word)"
proof -
  have m: "(0xf :: 8 word) = mask 4" by (simp add: mask_eq_exp_minus_1)
  show ?thesis unfolding m by (rule bit_eqI) (auto simp: bit_simps)
qed

lemma byte_of_nibbles: "ucast (b AND 0xf :: 8 word) XOR push_bit 4 (ucast (drop_bit 4 b)) = (ucast b :: 32 word)"
proof -
  have m: "(0xf :: 8 word) = mask 4" by (simp add: mask_eq_exp_minus_1)
  show ?thesis unfolding m by (rule bit_eqI) (auto simp: bit_simps dest: bit_imp_le_length)
qed

lemma crc_push: "take_bit n (drop_bit (32 - n) w) = 0 \<Longrightarrow> n \<le> 32 \<Longrightarrow> (crc_bit ^^ n) (push_bit n w) = w"
proof -
  assume w: "take_bit n (drop_bit (32 - n) w) = 0" and n: "n \<le> 32"
  have "\<not> bit w i" if "32 - n \<le> i" for i
  proof
    assume b: "bit w i"
    then have "i < 32" using bit_imp_le_length by fastforce
    then have "bit (take_bit n (drop_bit (32 - n) w)) (i - (32 - n))"
      using b that n by (auto simp: bit_simps)
    then show False using w by simp
  qed
  note i = this
  have "drop_bit n (push_bit n w) = w"
  proof (rule bit_eqI)
    fix i
    have "n + i < 32" if "bit w i" using i [of i] that n by (cases "32 - n \<le> i") auto
    then show "bit (drop_bit n (push_bit n w)) i = bit w i"
      by (auto simp: bit_simps)
  qed
  moreover have "take_bit n (push_bit n w) = 0" by (rule bit_eqI) (simp add: bit_simps)
  ultimately show ?thesis using crc_bits_low_zero [of n "push_bit n w"] by simp
qed

subsection \<open>The checksum of the code\<close>

lemma crc_nibbles: "(crc_bit ^^ 4) ((crc_bit ^^ 4) (c XOR ucast (b AND 0xf)) XOR ucast (drop_bit 4 b)) = crc_byte c b"
proof -
  have "(crc_bit ^^ 4) (push_bit 4 (ucast (drop_bit 4 b))) = (ucast (drop_bit 4 b) :: 32 word)"
  proof (rule crc_push)
    show "take_bit 4 (drop_bit (32 - 4) (ucast (drop_bit 4 b))) = (0 :: 32 word)"
      by (rule bit_eqI) (auto simp: bit_simps dest: bit_imp_le_length)
  qed simp
  then have "(crc_bit ^^ 4) (c XOR ucast (b AND 0xf)) XOR ucast (drop_bit 4 b) =
      (crc_bit ^^ 4) (c XOR ucast (b AND 0xf) XOR push_bit 4 (ucast (drop_bit 4 b)))"
    by (simp only: crc_bits_xor xor.assoc)
  then have "(crc_bit ^^ 4) ((crc_bit ^^ 4) (c XOR ucast (b AND 0xf)) XOR ucast (drop_bit 4 b)) =
      (crc_bit ^^ (4 + 4)) (c XOR ucast (b AND 0xf) XOR push_bit 4 (ucast (drop_bit 4 b)))"
    by (simp only: funpow_add comp_def)
  also have "c XOR ucast (b AND 0xf) XOR push_bit 4 (ucast (drop_bit 4 b)) = c XOR ucast b"
    by (simp only: byte_of_nibbles)
  finally show ?thesis by (simp add: crc_byte_def)
qed

lemma short_loop: "crc32_short_loop c p = foldl crc_byte c p"
proof (induction p arbitrary: c)
  case (Cons b p)
  have lo: "ngx_crc32_table16 ! unat ((c XOR ucast (b AND 0xf)) AND 0xf) XOR drop_bit 4 c = (crc_bit ^^ 4) (c XOR ucast (b AND 0xf))"
    using nibble_step [of "c XOR ucast (b AND 0xf)"] by (simp only: drop_nibble)
  have hi: "drop_bit 4 (x XOR ucast (drop_bit 4 b)) = drop_bit 4 (x :: 32 word)" for x
    by (rule bit_eqI) (auto simp: bit_simps dest: bit_imp_le_length)
  have "ngx_crc32_table16 ! unat ((x XOR ucast (drop_bit 4 b)) AND 0xf) XOR drop_bit 4 x = (crc_bit ^^ 4) (x XOR ucast (drop_bit 4 b))" for x
    using nibble_step [of "x XOR ucast (drop_bit 4 b)"] by (simp only: hi)
  then show ?case by (simp only: crc32_short_loop.simps Let_def lo crc_nibbles Cons.IH foldl_Cons)
qed simp

lemma update_loop: "ngx_crc32_update c p = foldl crc_byte c p"
proof (induction p arbitrary: c)
  case (Cons b p)
  have "ngx_crc32_table256 ! unat ((c XOR ucast b) AND 0xff) XOR drop_bit 8 c = crc_byte c b"
    using byte_step [of "c XOR ucast b"] by (simp only: drop_byte crc_byte_def)
  then show ?case by (simp only: ngx_crc32_update.simps Cons.IH foldl_Cons)
qed simp

text \<open>C38: Both checksums are the division of the bits of the string by the polynomial, lowest bit first: the one
  with the table of 16 entries, the one with the table of 256, and the one computed in pieces with
  \<open>ngx_crc32_init\<close>, \<open>ngx_crc32_update\<close> and \<open>ngx_crc32_final\<close>.\<close>

theorem crc32_correct:
  "ngx_crc32_short p = crc32 p \<and> ngx_crc32_long p = crc32 p \<and>
   ngx_crc32_final (ngx_crc32_update (ngx_crc32_update ngx_crc32_init p1) p2) = crc32 (p1 @ p2)"
  by (simp add: ngx_crc32_short_def ngx_crc32_long_def ngx_crc32_init_def ngx_crc32_final_def crc32_def short_loop update_loop)

subsection \<open>Errors that are detected\<close>

lemma xor_cancel: "x XOR a = x XOR b \<longleftrightarrow> a = b" "a XOR x = b XOR x \<longleftrightarrow> a = b" for x :: "32 word"
proof -
  have "x XOR (x XOR a) = a" for a by (simp flip: xor.assoc)
  then show 1: "x XOR a = x XOR b \<longleftrightarrow> a = b" by metis
  show "a XOR x = b XOR x \<longleftrightarrow> a = b" using 1 by (simp only: xor.commute)
qed

lemma crc_bit_inj: "crc_bit a = crc_bit b \<longleftrightarrow> a = b"
proof
  have high: "bit (crc_bit c) 31 \<longleftrightarrow> bit c 0" for c
  proof -
    have "\<not> bit (drop_bit 1 c) 31" by (auto simp: bit_simps dest: bit_imp_le_length)
    moreover have "bit (0xedb88320 :: 32 word) 31" by (simp add: bit_iff_odd)
    ultimately show ?thesis by (cases "bit c 0") (simp_all only: crc_bit_def bit_xor_iff if_True if_False simp_thms)
  qed
  assume eq: "crc_bit a = crc_bit b"
  then have 0: "bit a 0 \<longleftrightarrow> bit b 0" using high by metis
  then have "drop_bit 1 a = drop_bit 1 b" using eq by (cases "bit a 0") (simp_all only: crc_bit_def xor_cancel if_True if_False)
  then have "bit (drop_bit 1 a) i = bit (drop_bit 1 b) i" for i by simp
  then have "bit a (Suc i) = bit b (Suc i)" for i by (simp add: bit_drop_bit_eq)
  with 0 have "bit a i = bit b i" for i by (cases i) simp_all
  then show "a = b" by (intro bit_eqI) simp
qed simp

lemma crc_bits_inj: "(crc_bit ^^ n) a = (crc_bit ^^ n) b \<longleftrightarrow> a = b"
  by (induction n) (simp_all add: crc_bit_inj)

text \<open>Up to four bytes as a word, the first byte lowest.\<close>

fun low_word :: "8 word list \<Rightarrow> 32 word" where
  "low_word [] = 0"
| "low_word (b # bs) = ucast b XOR push_bit 8 (low_word bs)"

lemma low_word_bit: "bit (low_word bs) i \<longleftrightarrow> i < 32 \<and> i div 8 < length bs \<and> bit (bs ! (i div 8)) (i mod 8)"
proof (induction bs arbitrary: i)
  case (Cons b bs)
  show ?case
  proof (cases "i < 8")
    case True
    then show ?thesis by (auto simp: bit_simps)
  next
    case False
    then obtain j where i: "i = 8 + j" using le_Suc_ex not_less by blast
    have "(8 + j) div 8 = Suc (j div 8)" "(8 + j) mod 8 = j mod 8" by simp_all
    then show ?thesis using Cons.IH [of j] by (auto simp: i bit_simps dest: bit_imp_le_length)
  qed
qed simp

lemma foldl_crc_word: "length bs \<le> 4 \<Longrightarrow> foldl crc_byte c bs = (crc_bit ^^ (8 * length bs)) (c XOR low_word bs)"
proof (induction bs arbitrary: c)
  case (Cons b bs)
  have "take_bit 8 (drop_bit (32 - 8) (low_word bs)) = 0"
  proof (rule bit_eqI)
    fix i
    show "bit (take_bit 8 (drop_bit (32 - 8) (low_word bs))) i = bit 0 i"
      using Cons.prems by (auto simp: bit_simps low_word_bit)
  qed
  then have push: "(crc_bit ^^ 8) (push_bit 8 (low_word bs)) = low_word bs" by (rule crc_push) simp
  have "foldl crc_byte c (b # bs) = (crc_bit ^^ (8 * length bs)) (crc_byte c b XOR low_word bs)"
    using Cons by simp
  also have "crc_byte c b XOR low_word bs = (crc_bit ^^ 8) (c XOR low_word (b # bs))"
    by (simp only: crc_byte_def crc_bits_xor push low_word.simps xor.assoc)
  finally show ?case by (simp only: funpow_add comp_def length_Cons mult_Suc_right add.commute [of 8])
qed simp

lemma low_word_inj: "length us = length vs \<Longrightarrow> length us \<le> 4 \<Longrightarrow> low_word us = low_word vs \<Longrightarrow> us = vs"
proof (rule nth_equalityI)
  fix k
  assume len: "length us = length vs" "length us \<le> 4" and eq: "low_word us = low_word vs" and k: "k < length us"
  show "us ! k = vs ! k"
  proof (rule bit_eqI)
    fix i
    assume "possible_bit TYPE(8 word) i"
    then have i: "i < 8" by simp
    have "bit (low_word us) (8 * k + i) = bit (low_word vs) (8 * k + i)" using eq by simp
    moreover have "8 * k + i < 32" "(8 * k + i) div 8 = k" "(8 * k + i) mod 8 = i" using i k len by simp_all
    ultimately show "bit (us ! k) i = bit (vs ! k) i" using k len by (simp add: low_word_bit)
  qed
qed simp

text \<open>The checksum detects every change within four consecutive bytes: two strings that differ there and
  nowhere else have different checksums.\<close>

theorem crc32_detects:
  assumes "us \<noteq> vs" "length us = length vs" "length us \<le> 4"
  shows "ngx_crc32_short (p @ us @ q) \<noteq> ngx_crc32_short (p @ vs @ q)"
proof
  have inj: "foldl crc_byte c q = foldl crc_byte d q \<longleftrightarrow> c = d" for c d
  proof (induction q arbitrary: c d)
    case (Cons b q)
    have "crc_byte c b = crc_byte d b \<longleftrightarrow> c = d" by (simp only: crc_byte_def crc_bits_inj xor_cancel)
    then show ?case using Cons.IH by simp
  qed simp
  define c where "c = foldl crc_byte 0xffffffff p"
  assume "ngx_crc32_short (p @ us @ q) = ngx_crc32_short (p @ vs @ q)"
  then have "foldl crc_byte (foldl crc_byte c us) q = foldl crc_byte (foldl crc_byte c vs) q"
    by (simp add: ngx_crc32_short_def short_loop c_def xor_cancel)
  then have "foldl crc_byte c us = foldl crc_byte c vs" by (simp only: inj)
  then have "c XOR low_word us = c XOR low_word vs"
    using assms(2,3) foldl_crc_word crc_bits_inj by simp
  then have "low_word us = low_word vs" by (simp only: xor_cancel)
  then show False using low_word_inj assms by blast
qed

lemma crc32_detects_witness: "ngx_crc32_short ([1] @ [2, 3] @ [4]) \<noteq> ngx_crc32_short ([1] @ [3, 3] @ [4])"
  by (rule crc32_detects) simp_all

end
