(* ===== verification/Slab.thy ===== *)
theory Slab
  imports Rbtree
begin

section \<open>The slab allocator as the zones use it\<close>

text \<open>
  The modules that keep nodes in shared memory take and give them back with \<open>ngx_slab_alloc_locked\<close> and
  \<open>ngx_slab_free_locked\<close>. The allocator is a pair of functions on its state: \<open>alloc\<close> gives the address of
  room for so many bytes, or none, and \<open>free\<close> takes one back. \<open>slab_laws\<close> is what the modules rely on: an
  address is not given out again before it has been freed.
\<close>

type_synonym 'p slab_alloc = "nat \<Rightarrow> 'p \<Rightarrow> addr option \<times> 'p"
type_synonym 'p slab_free = "addr \<Rightarrow> 'p \<Rightarrow> 'p"

definition slab_laws :: "('p \<Rightarrow> addr set) \<Rightarrow> 'p slab_alloc \<Rightarrow> 'p slab_free \<Rightarrow> bool" where
  "slab_laws used alloc free \<longleftrightarrow>
     (\<forall>n p a p'. alloc n p = (Some a, p') \<longrightarrow> a \<notin> used p \<and> used p' = insert a (used p)) \<and>
     (\<forall>n p p'. alloc n p = (None, p') \<longrightarrow> used p' = used p) \<and>
     (\<forall>a p. used (free a p) = used p - {a})"

text \<open>An allocator whose state is the list of the addresses in use.\<close>

definition sample_alloc :: "nat \<Rightarrow> addr list \<Rightarrow> addr option \<times> addr list" where
  "sample_alloc n p = (let a = Suc (sum_list p) in (Some a, a # p))"

lemma sample_slab: "slab_laws set sample_alloc removeAll"
proof -
  have "Suc (sum_list p) \<notin> set p" for p :: "nat list" using member_le_sum_list [of "Suc (sum_list p)" p] by auto
  then show ?thesis by (auto simp: slab_laws_def sample_alloc_def Let_def)
qed

end
