(* ===== verification/Zone_Tree.thy ===== *)
theory Zone_Tree
  imports Rbtree_Search Crc32 Slab
begin

section \<open>The trees of the limiting modules\<close>

text \<open>
  What \<open>ngx_http_limit_conn_module.c\<close> and \<open>ngx_http_limit_req_module.c\<close> have in common: a red-black tree in a
  shared memory zone, whose nodes come from the slab allocator and are found by the checksum of a key
  and then the key itself. \<open>zone_tree\<close> relates the tree, the keys of its nodes and the state of the
  allocator to the dictionary of the keys; the lemmas say what looking up, storing and dropping a node do
  to it.
\<close>

abbreviation (input) NGX_HTTP_INTERNAL_SERVER_ERROR :: int where "NGX_HTTP_INTERNAL_SERVER_ERROR \<equiv> 500"

definition zone_key :: "8 word list \<Rightarrow> 64 word \<times> 8 word list" where
  "zone_key k = (ucast (ngx_crc32_short k), k)"

definition zone_tree ::
  "('p \<Rightarrow> addr set) \<Rightarrow> (addr \<Rightarrow> 8 word list) \<Rightarrow> addr \<Rightarrow> rbtree \<Rightarrow> 'p \<Rightarrow> (64 word \<times> 8 word list \<rightharpoonup> addr) \<Rightarrow> bool"
where
  "zone_tree used data s t pool D \<longleftrightarrow>
     dict (\<lambda>q. q) data s t D \<and> insert s (ran D) \<subseteq> used pool \<and> s \<notin> ran D \<and>
     (\<forall>a. rb_mem t a \<noteq> None) \<and> (\<forall>q \<in> dom D. q = zone_key (snd q))"

lemma zone_key_simps [simp]: "snd (zone_key k) = k" "zone_key k = zone_key k' \<longleftrightarrow> k = k'"
  by (auto simp: zone_key_def)

lemma zone_tree_search:
  assumes "zone_tree used data s t pool D"
  shows "rb_search (data_cmp data (ucast (ngx_crc32_short k), k)) s (rb_root t) t = Some (D (zone_key k))"
  using assms data_tree.search_dict by (simp add: zone_tree_def zone_key_def)

lemma zone_tree_nodes:
  assumes "zone_tree used data s t pool D"
  shows "D q = Some a \<Longrightarrow> q = zone_key (data a)" "D q = Some a \<Longrightarrow> D q' = Some a \<Longrightarrow> q = q'"
    "a \<in> ran D \<longleftrightarrow> D (zone_key (data a)) = Some a"
proof -
  have *: "q = zone_key (data a)" if "D q = Some a" for q
    using assms data_tree.dict_nodes(1) [of data s t D q a] that by (auto simp: zone_tree_def)
  then show "D q = Some a \<Longrightarrow> q = zone_key (data a)" "D q = Some a \<Longrightarrow> D q' = Some a \<Longrightarrow> q = q'" by blast+
  show "a \<in> ran D \<longleftrightarrow> D (zone_key (data a)) = Some a"
    using * ranI [of D "zone_key (data a)" a] unfolding ran_def by blast
qed

lemma zone_tree_pool: "zone_tree used data s t p D \<Longrightarrow> used p' = used p \<Longrightarrow> zone_tree used data s t p' D"
  by (simp add: zone_tree_def)

lemma zone_tree_store:
  assumes "zone_tree used data s t p D" "D (zone_key k) = None" "slab_laws used alloc free" "alloc n p = (Some a, p')"
  obtains t1 t' where "wr (\<lambda>n. n\<lparr>rb_key := ucast (ngx_crc32_short k)\<rparr>) a t = Some t1"
    "ngx_rbtree_insert (rb_insert_by (data_less (data(a := k)))) s a t1 = Some t'"
    "zone_tree used (data(a := k)) s t' p' (D(zone_key k \<mapsto> a))" "a \<notin> insert s (ran D)"
    "ran (D(zone_key k \<mapsto> a)) = insert a (ran D)"
proof -
  note ok = assms(1) [unfolded zone_tree_def]
  have fresh: "a \<notin> used p" "used p' = insert a (used p)"
    using assms(3,4) by (auto simp: slab_laws_def)
  then have a: "a \<notin> insert s (ran D)" using ok by auto
  let ?h = "ucast (ngx_crc32_short k) :: 64 word" and ?data = "data(a := k)"
  have "rb_mem t a \<noteq> None" using ok by blast
  then obtain n where n: "rb_mem t a = Some n" by blast
  define t1 where "t1 = t\<lparr>rb_mem := (rb_mem t)(a \<mapsto> n\<lparr>rb_key := ?h\<rparr>)\<rparr>"
  have wr: "wr (\<lambda>n. n\<lparr>rb_key := ?h\<rparr>) a t = Some t1" using n by (simp add: wr_def t1_def)
  have "dict (\<lambda>q. q) ?data s t1 D"
    by (rule data_tree.dict_change [of data _ t]) (use ok a in \<open>auto simp: t1_def\<close>)
  moreover have "rb_mem t1 a = Some (n\<lparr>rb_key := ?h\<rparr>)" by (simp add: t1_def)
  moreover have "D (rb_key (n\<lparr>rb_key := ?h\<rparr>), ?data a) = None" using assms(2) by (simp add: zone_key_def)
  ultimately obtain t' where t': "ngx_rbtree_insert (rb_insert_by (data_less ?data)) s a t1 = Some t'"
    "dict (\<lambda>q. q) ?data s t' (D(zone_key k \<mapsto> a))" "same_off (insert a (ran D)) t1 t'"
    using data_tree.insert_dict [OF _ _ a] by (fastforce simp: zone_key_def)
  have ran: "ran (D(zone_key k \<mapsto> a)) = insert a (ran D)" using assms(2) by (rule ran_map_upd)
  have "rb_mem t' b \<noteq> None" for b
  proof (cases "b \<in> insert a (ran D)")
    case True
    then obtain q where "(D(zone_key k \<mapsto> a)) q = Some b" unfolding ran [symmetric] by (auto simp: ran_def)
    then show ?thesis using data_tree.dict_nodes(3) [OF t'(2)] by fastforce
  next
    case False
    then show ?thesis using t'(3) ok by (auto simp: same_off_def t1_def)
  qed
  then have "zone_tree used ?data s t' p' (D(zone_key k \<mapsto> a))"
    unfolding zone_tree_def ran using ok a t'(2) fresh by auto
  with wr t'(1) a ran show thesis by (intro that)
qed

lemma ran_delete: "(\<And>q'. D q' = Some a \<Longrightarrow> q' = q) \<Longrightarrow> D q = Some a \<Longrightarrow> ran (D(q := None)) = ran D - {a}"
proof (intro set_eqI iffI)
  fix b
  assume inj: "\<And>q'. D q' = Some a \<Longrightarrow> q' = q" and q: "D q = Some a"
  { assume "b \<in> ran (D(q := None))"
    then obtain q' where "q' \<noteq> q" "D q' = Some b" by (auto simp: ran_def split: if_splits)
    then show "b \<in> ran D - {a}" using inj by (auto intro: ranI) }
  { assume "b \<in> ran D - {a}"
    then obtain q' where "D q' = Some b" "b \<noteq> a" by (auto simp: ran_def)
    moreover from this have "q' \<noteq> q" using q by auto
    ultimately have "(D(q := None)) q' = Some b" by simp
    then show "b \<in> ran (D(q := None))" by (rule ranI) }
qed

lemma zone_tree_drop:
  assumes "zone_tree used data s t p D" "D q = Some a" "slab_laws used alloc free"
  obtains t' where "ngx_rbtree_delete s a t = Some t'" "zone_tree used data s t' (free a p) (D(q := None))"
    "ran (D(q := None)) = ran D - {a}"
proof -
  note ok = assms(1) [unfolded zone_tree_def]
  have a: "a \<in> ran D" by (rule ranI [of D, OF assms(2)])
  obtain t' where t': "ngx_rbtree_delete s a t = Some t'" "dict (\<lambda>q. q) data s t' (D(q := None))" "rb_mem t' a \<noteq> None"
    "same_off (insert s (ran D)) t t'"
    using data_tree.delete_dict [of data s t D q a] ok assms(2) by blast
  have ran: "ran (D(q := None)) = ran D - {a}"
    using zone_tree_nodes(2) [OF assms(1)] assms(2) by (intro ran_delete) blast+
  have sent: "rb_mem t' s \<noteq> None" using t'(2) by (auto simp: dict_def holds_def)
  have "rb_mem t' b \<noteq> None" for b
  proof -
    consider "b = s" | "b = a" | "b \<in> ran (D(q := None))" | "b \<notin> insert s (ran D)"
      unfolding ran by auto
    then show ?thesis
    proof cases
      case 3
      then obtain q' where "(D(q := None)) q' = Some b" by (auto simp: ran_def)
      then show ?thesis using data_tree.dict_nodes(3) [OF t'(2)] by fastforce
    next
      case 4
      then show ?thesis using t'(4) ok by (simp add: same_off_def)
    qed (use sent t'(3) in simp_all)
  qed
  moreover have "used (free a p) = used p - {a}" using assms(3) by (simp add: slab_laws_def)
  ultimately have "zone_tree used data s t' (free a p) (D(q := None))"
    unfolding zone_tree_def ran using ok t'(2) a by auto
  with t'(1) ran show thesis by (intro that)
qed

text \<open>A tree without nodes.\<close>

lemma zone_tree_empty:
  assumes "rb_root t = s" "rb_mem t s = Some n" "\<not> rb_red n" "\<forall>a. rb_mem t a \<noteq> None" "s \<in> used p"
  shows "zone_tree used data s t p (\<lambda>q. None)"
  using assms dict_empty [of t s n] by (simp add: zone_tree_def)

end
