(* ===== verification/Queue.thy ===== *)
theory Queue
  imports Prelude "HOL-Library.Monad_Syntax" "HOL-Library.Multiset"
begin

section \<open>Queues\<close>

text \<open>
  \<open>src/core/ngx_queue.h\<close> and \<open>src/core/ngx_queue.c\<close>: circular doubly linked lists with a sentinel, on an
  explicit memory of nodes. An access to an address without a node is the value None. The statements
  of the macros are translated one by one, so that the order of the writes counts.
\<close>

subsection \<open>The code\<close>

record queue_node =
  q_prev :: nat
  q_next :: nat

type_synonym queue_mem = "nat \<Rightarrow> queue_node option"

definition get_next :: "nat \<Rightarrow> queue_mem \<Rightarrow> nat option" where
  "get_next a m = map_option q_next (m a)"

definition get_prev :: "nat \<Rightarrow> queue_mem \<Rightarrow> nat option" where
  "get_prev a m = map_option q_prev (m a)"

definition set_next :: "nat \<Rightarrow> nat \<Rightarrow> queue_mem \<Rightarrow> queue_mem option" where
  "set_next p a m = (case m a of None \<Rightarrow> None | Some n \<Rightarrow> Some (m(a \<mapsto> n\<lparr>q_next := p\<rparr>)))"

definition set_prev :: "nat \<Rightarrow> nat \<Rightarrow> queue_mem \<Rightarrow> queue_mem option" where
  "set_prev p a m = (case m a of None \<Rightarrow> None | Some n \<Rightarrow> Some (m(a \<mapsto> n\<lparr>q_prev := p\<rparr>)))"

definition ngx_queue_init :: "nat \<Rightarrow> queue_mem \<Rightarrow> queue_mem option" where
  "ngx_queue_init q m = do { m \<leftarrow> set_prev q q m; set_next q q m }"

definition ngx_queue_empty :: "nat \<Rightarrow> queue_mem \<Rightarrow> bool option" where
  "ngx_queue_empty h m = do { p \<leftarrow> get_prev h m; Some (h = p) }"

definition ngx_queue_insert_head :: "nat \<Rightarrow> nat \<Rightarrow> queue_mem \<Rightarrow> queue_mem option" where
  "ngx_queue_insert_head h x m = do {
     n \<leftarrow> get_next h m;
     m \<leftarrow> set_next n x m;
     n \<leftarrow> get_next x m;
     m \<leftarrow> set_prev x n m;
     m \<leftarrow> set_prev h x m;
     set_next x h m
   }"

abbreviation (input) ngx_queue_insert_after :: "nat \<Rightarrow> nat \<Rightarrow> queue_mem \<Rightarrow> queue_mem option" where
  "ngx_queue_insert_after \<equiv> ngx_queue_insert_head"

definition ngx_queue_insert_tail :: "nat \<Rightarrow> nat \<Rightarrow> queue_mem \<Rightarrow> queue_mem option" where
  "ngx_queue_insert_tail h x m = do {
     p \<leftarrow> get_prev h m;
     m \<leftarrow> set_prev p x m;
     p \<leftarrow> get_prev x m;
     m \<leftarrow> set_next x p m;
     m \<leftarrow> set_next h x m;
     set_prev x h m
   }"

abbreviation (input) ngx_queue_head :: "nat \<Rightarrow> queue_mem \<Rightarrow> nat option" where
  "ngx_queue_head \<equiv> get_next"

abbreviation (input) ngx_queue_last :: "nat \<Rightarrow> queue_mem \<Rightarrow> nat option" where
  "ngx_queue_last \<equiv> get_prev"

definition ngx_queue_remove :: "nat \<Rightarrow> queue_mem \<Rightarrow> queue_mem option" where
  "ngx_queue_remove x m = do {
     n \<leftarrow> get_next x m;
     p \<leftarrow> get_prev x m;
     m \<leftarrow> set_prev p n m;
     p \<leftarrow> get_prev x m;
     n \<leftarrow> get_next x m;
     set_next n p m
   }"

definition ngx_queue_split :: "nat \<Rightarrow> nat \<Rightarrow> nat \<Rightarrow> queue_mem \<Rightarrow> queue_mem option" where
  "ngx_queue_split h q n m = do {
     p \<leftarrow> get_prev h m;
     m \<leftarrow> set_prev p n m;
     p \<leftarrow> get_prev n m;
     m \<leftarrow> set_next n p m;
     m \<leftarrow> set_next q n m;
     p \<leftarrow> get_prev q m;
     m \<leftarrow> set_prev p h m;
     p \<leftarrow> get_prev h m;
     m \<leftarrow> set_next h p m;
     set_prev n q m
   }"

definition ngx_queue_add :: "nat \<Rightarrow> nat \<Rightarrow> queue_mem \<Rightarrow> queue_mem option" where
  "ngx_queue_add h n m = do {
     p \<leftarrow> get_prev h m;
     x \<leftarrow> get_next n m;
     m \<leftarrow> set_next x p m;
     x \<leftarrow> get_next n m;
     p \<leftarrow> get_prev h m;
     m \<leftarrow> set_prev p x m;
     p \<leftarrow> get_prev n m;
     m \<leftarrow> set_prev p h m;
     p \<leftarrow> get_prev h m;
     set_next h p m
   }"

partial_function (option) middle_loop :: "nat \<Rightarrow> nat \<Rightarrow> nat \<Rightarrow> queue_mem \<Rightarrow> nat option" where
  "middle_loop queue middle nxt m = do {
     middle \<leftarrow> get_next middle m;
     nxt \<leftarrow> get_next nxt m;
     end \<leftarrow> ngx_queue_last queue m;
     if nxt = end then Some middle
     else do {
       nxt \<leftarrow> get_next nxt m;
       if nxt = end then Some middle else middle_loop queue middle nxt m
     }
   }"

definition ngx_queue_middle :: "nat \<Rightarrow> queue_mem \<Rightarrow> nat option" where
  "ngx_queue_middle queue m = do {
     middle \<leftarrow> ngx_queue_head queue m;
     end \<leftarrow> ngx_queue_last queue m;
     if middle = end then Some middle
     else do { nxt \<leftarrow> ngx_queue_head queue m; middle_loop queue middle nxt m }
   }"

partial_function (option) sort_prev :: "(nat \<Rightarrow> nat \<Rightarrow> int) \<Rightarrow> nat \<Rightarrow> nat \<Rightarrow> nat \<Rightarrow> queue_mem \<Rightarrow> nat option" where
  "sort_prev cmp queue prev q m =
     (if cmp prev q \<le> 0 then Some prev
      else do {
        prev \<leftarrow> get_prev prev m;
        if prev \<noteq> queue then sort_prev cmp queue prev q m else Some prev
      })"

partial_function (option) sort_loop :: "(nat \<Rightarrow> nat \<Rightarrow> int) \<Rightarrow> nat \<Rightarrow> nat \<Rightarrow> queue_mem \<Rightarrow> queue_mem option" where
  "sort_loop cmp queue q m =
     (if q = queue then Some m
      else do {
        prev \<leftarrow> get_prev q m;
        nxt \<leftarrow> get_next q m;
        m \<leftarrow> ngx_queue_remove q m;
        prev \<leftarrow> sort_prev cmp queue prev q m;
        m \<leftarrow> ngx_queue_insert_after prev q m;
        sort_loop cmp queue nxt m
      })"

definition ngx_queue_sort :: "(nat \<Rightarrow> nat \<Rightarrow> int) \<Rightarrow> nat \<Rightarrow> queue_mem \<Rightarrow> queue_mem option" where
  "ngx_queue_sort cmp queue m = do {
     q \<leftarrow> ngx_queue_head queue m;
     end \<leftarrow> ngx_queue_last queue m;
     if q = end then Some m
     else do { q \<leftarrow> get_next q m; sort_loop cmp queue q m }
   }"

subsection \<open>Lists in memory\<close>

text \<open>
  \<open>linked m xs\<close>: each node of \<open>xs\<close> but the last points forward to the following one, and that one points
  back. A queue is linked from its sentinel around to it.
\<close>

fun linked :: "queue_mem \<Rightarrow> nat list \<Rightarrow> bool" where
  "linked m (a # b # xs) \<longleftrightarrow> get_next a m = Some b \<and> get_prev b m = Some a \<and> linked m (b # xs)"
| "linked m xs \<longleftrightarrow> True"

definition queue :: "queue_mem \<Rightarrow> nat \<Rightarrow> nat list \<Rightarrow> bool" where
  "queue m h xs \<longleftrightarrow> linked m (h # xs @ [h]) \<and> distinct (h # xs)"

definition off :: "nat set \<Rightarrow> queue_mem \<Rightarrow> queue_mem \<Rightarrow> bool" where
  "off A m m' \<longleftrightarrow> (\<forall>a. a \<notin> A \<longrightarrow> m' a = m a)"

lemma off_mono: "off A m m' \<Longrightarrow> A \<subseteq> B \<Longrightarrow> off B m m'"
  by (auto simp: off_def)

lemma off_trans: "off A m m' \<Longrightarrow> off A m' m'' \<Longrightarrow> off A m m''"
  by (simp add: off_def)

lemma set_next_get:
  assumes "m a \<noteq> None"
  obtains m' where "set_next p a m = Some m'" "\<And>b. get_next b m' = (if b = a then Some p else get_next b m)"
    "\<And>b. get_prev b m' = get_prev b m" "off {a} m m'" "\<And>b. m' b = None \<longleftrightarrow> m b = None"
proof -
  obtain n where "m a = Some n" using assms by auto
  then show thesis
    by (intro that [of "m(a \<mapsto> n\<lparr>q_next := p\<rparr>)"]) (auto simp: set_next_def get_next_def get_prev_def off_def)
qed

lemma set_prev_get:
  assumes "m a \<noteq> None"
  obtains m' where "set_prev p a m = Some m'" "\<And>b. get_prev b m' = (if b = a then Some p else get_prev b m)"
    "\<And>b. get_next b m' = get_next b m" "off {a} m m'" "\<And>b. m' b = None \<longleftrightarrow> m b = None"
proof -
  obtain n where "m a = Some n" using assms by auto
  then show thesis
    by (intro that [of "m(a \<mapsto> n\<lparr>q_prev := p\<rparr>)"]) (auto simp: set_prev_def get_next_def get_prev_def off_def)
qed

lemma linked_append: "linked m (xs @ a # b # ys) \<longleftrightarrow> linked m (xs @ [a]) \<and>
    get_next a m = Some b \<and> get_prev b m = Some a \<and> linked m (b # ys)"
  by (induction m xs rule: linked.induct) auto

lemma linked_cong:
  assumes "\<And>a. a \<in> set (butlast xs) \<Longrightarrow> get_next a m' = get_next a m" "\<And>a. a \<in> set (tl xs) \<Longrightarrow> get_prev a m' = get_prev a m"
  shows "linked m' xs = linked m xs"
  using assms
proof (induction m xs rule: linked.induct)
  case (1 m a b xs)
  then show ?case by (cases xs) auto
qed simp_all

lemma get_none: "get_next a m = None \<longleftrightarrow> m a = None" "get_prev a m = None \<longleftrightarrow> m a = None"
  by (simp_all add: get_next_def get_prev_def)

lemma get_some: "get_next a m = Some b \<Longrightarrow> m a \<noteq> None" "get_prev a m = Some b \<Longrightarrow> m a \<noteq> None"
  by (auto simp: get_next_def get_prev_def)

lemmas queue_defs = get_next_def get_prev_def set_next_def set_prev_def off_def

text \<open>What the macros write, when the nodes are there.\<close>

lemma insert_head_writes:
  assumes "get_next h m = Some b" "m b \<noteq> None" "m x \<noteq> None" "x \<noteq> h" "x \<noteq> b"
  shows "\<exists>m'. ngx_queue_insert_head h x m = Some m' \<and> off {h, x, b} m m' \<and>
    (\<forall>a. get_next a m' = (if a = h then Some x else if a = x then Some b else get_next a m)) \<and>
    (\<forall>a. get_prev a m' = (if a = b then Some x else if a = x then Some h else get_prev a m))"
  using assms by (cases "b = h") (auto simp: ngx_queue_insert_head_def queue_defs)

lemma insert_tail_writes:
  assumes "get_prev h m = Some b" "m b \<noteq> None" "m x \<noteq> None" "x \<noteq> h" "x \<noteq> b"
  shows "\<exists>m'. ngx_queue_insert_tail h x m = Some m' \<and> off {h, x, b} m m' \<and>
    (\<forall>a. get_next a m' = (if a = b then Some x else if a = x then Some h else get_next a m)) \<and>
    (\<forall>a. get_prev a m' = (if a = h then Some x else if a = x then Some b else get_prev a m))"
  using assms by (cases "b = h") (auto simp: ngx_queue_insert_tail_def queue_defs)

lemma remove_writes:
  assumes "get_prev x m = Some a" "get_next x m = Some b" "m a \<noteq> None" "m b \<noteq> None" "x \<noteq> a" "x \<noteq> b"
  shows "\<exists>m'. ngx_queue_remove x m = Some m' \<and> off {a, b} m m' \<and>
    (\<forall>c. get_next c m' = (if c = a then Some b else get_next c m)) \<and>
    (\<forall>c. get_prev c m' = (if c = b then Some a else get_prev c m))"
  using assms by (cases "a = b") (auto simp: ngx_queue_remove_def queue_defs)

text \<open>A link of a circle replaced by a longer way, or the reverse.\<close>

lemma linked_insert:
  assumes "linked m (ps @ a # b # ss)" "distinct (ps @ [a] @ butlast (b # ss))" "distinct (tl (ps @ [a]) @ b # ss)"
    and "x \<notin> set (ps @ a # b # ss)"
    and "\<And>c. get_next c m' = (if c = a then Some x else if c = x then Some b else get_next c m)"
    and "\<And>c. get_prev c m' = (if c = b then Some x else if c = x then Some a else get_prev c m)"
  shows "linked m' (ps @ a # x # b # ss)"
proof -
  have "linked m' (ps @ [a]) = linked m (ps @ [a])"
    by (rule linked_cong) (use assms in \<open>auto simp: butlast_append dest: in_set_butlastD list.set_sel(2) [rotated]\<close>)
  moreover have "linked m' (b # ss) = linked m (b # ss)"
    by (rule linked_cong) (use assms in \<open>auto split: if_splits dest: in_set_butlastD\<close>)
  ultimately show ?thesis
    using assms(1,4-) by (auto simp: linked_append)
qed

lemma linked_bypass:
  assumes "linked m (ps @ a # x # b # ss)" "distinct (ps @ [a] @ butlast (b # ss))" "distinct (tl (ps @ [a]) @ b # ss)"
    and "x \<notin> set (ps @ a # b # ss)"
    and "\<And>c. get_next c m' = (if c = a then Some b else get_next c m)"
    and "\<And>c. get_prev c m' = (if c = b then Some a else get_prev c m)"
  shows "linked m' (ps @ a # b # ss)"
proof -
  have "linked m (ps @ [a])" "linked m (b # ss)"
    using assms(1) linked_append [of m ps a x "b # ss"] by simp_all
  moreover have "linked m' (ps @ [a]) = linked m (ps @ [a])"
    by (rule linked_cong) (use assms in \<open>auto simp: butlast_append dest: in_set_butlastD list.set_sel(2) [rotated]\<close>)
  moreover have "linked m' (b # ss) = linked m (b # ss)"
    by (rule linked_cong) (use assms in \<open>auto split: if_splits dest: in_set_butlastD\<close>)
  ultimately show ?thesis
    using assms(4-) by (auto simp: linked_append)
qed

text \<open>The circle of a queue, opened between two neighbours.\<close>

lemma queue_open:
  obtains ps a b ss where "h # us = ps @ [a]" "vs @ [h] = b # ss" "h # (us @ vs) @ [h] = ps @ a # b # ss"
    "a = last (h # us)" "b = hd (vs @ [h])"
proof -
  have "h # us = butlast (h # us) @ [last (h # us)]" "vs @ [h] = hd (vs @ [h]) # tl (vs @ [h])" by simp_all
  moreover from this have "h # (us @ vs) @ [h] = butlast (h # us) @ last (h # us) # hd (vs @ [h]) # tl (vs @ [h])"
    by (metis append.assoc append_Cons append_Nil)
  ultimately show thesis using that by blast
qed

lemma queue_distinct:
  assumes "h # us = ps @ [a]" "vs @ [h] = b # ss" "distinct (h # us @ vs)"
  shows "distinct (ps @ [a] @ butlast (b # ss))" "distinct (tl (ps @ [a]) @ b # ss)"
proof -
  have "ps @ [a] @ butlast (b # ss) = (h # us) @ vs" unfolding assms(1,2) [symmetric] by (simp add: assms(1))
  then show "distinct (ps @ [a] @ butlast (b # ss))" using assms(3) by simp
  have "tl (ps @ [a]) @ b # ss = us @ vs @ [h]" unfolding assms(1,2) [symmetric] by simp
  then show "distinct (tl (ps @ [a]) @ b # ss)" using assms(3) by auto
qed

lemma queue_set: "h # us = ps @ [a] \<Longrightarrow> vs @ [h] = b # ss \<Longrightarrow> set (ps @ a # b # ss) = set (h # us @ vs)"
proof -
  assume "h # us = ps @ [a]" "vs @ [h] = b # ss"
  then have "set (h # us) = set (ps @ [a])" "set (vs @ [h]) = set (b # ss)" by simp_all
  then show ?thesis by auto
qed

lemma queue_insert:
  assumes "queue m h (us @ vs)" "x \<notin> set (h # us @ vs)"
    and "\<And>c. get_next c m' = (if c = last (h # us) then Some x else if c = x then Some (hd (vs @ [h])) else get_next c m)"
    and "\<And>c. get_prev c m' = (if c = hd (vs @ [h]) then Some x else if c = x then Some (last (h # us)) else get_prev c m)"
  shows "queue m' h (us @ x # vs)"
proof -
  obtain ps a b ss where o: "h # us = ps @ [a]" "vs @ [h] = b # ss" "h # (us @ vs) @ [h] = ps @ a # b # ss"
    "a = last (h # us)" "b = hd (vs @ [h])"
    by (rule queue_open)
  have "linked m' (ps @ a # x # b # ss)"
  proof (rule linked_insert)
    show "linked m (ps @ a # b # ss)" using assms(1) unfolding queue_def o(3) ..
    show "distinct (ps @ [a] @ butlast (b # ss))" "distinct (tl (ps @ [a]) @ b # ss)"
      by (rule queue_distinct [OF o(1,2)]; use assms(1) in \<open>simp add: queue_def\<close>)+
    show "x \<notin> set (ps @ a # b # ss)" unfolding queue_set [OF o(1,2)] by (rule assms(2))
  qed (use assms(3,4) o(4,5) in simp_all)
  also have "ps @ a # x # b # ss = (ps @ [a]) @ x # (b # ss)" by simp
  also have "\<dots> = h # (us @ x # vs) @ [h]" unfolding o(1,2) [symmetric] by simp
  finally show ?thesis using assms(1,2) by (auto simp: queue_def)
qed

lemma queue_bypass:
  assumes "queue m h (us @ x # vs)"
    and "\<And>c. get_next c m' = (if c = last (h # us) then Some (hd (vs @ [h])) else get_next c m)"
    and "\<And>c. get_prev c m' = (if c = hd (vs @ [h]) then Some (last (h # us)) else get_prev c m)"
  shows "queue m' h (us @ vs)"
proof -
  obtain ps a b ss where o: "h # us = ps @ [a]" "vs @ [h] = b # ss" "h # (us @ vs) @ [h] = ps @ a # b # ss"
    "a = last (h # us)" "b = hd (vs @ [h])"
    by (rule queue_open)
  have "ps @ a # x # b # ss = (ps @ [a]) @ x # (b # ss)" by simp
  also have "\<dots> = h # (us @ x # vs) @ [h]" unfolding o(1,2) [symmetric] by simp
  finally have eq: "ps @ a # x # b # ss = h # (us @ x # vs) @ [h]" .
  have "linked m' (ps @ a # b # ss)"
  proof (rule linked_bypass)
    show "linked m (ps @ a # x # b # ss)" using assms(1) unfolding queue_def eq ..
    show "distinct (ps @ [a] @ butlast (b # ss))" "distinct (tl (ps @ [a]) @ b # ss)"
      by (rule queue_distinct [OF o(1,2)]; use assms(1) in \<open>simp add: queue_def\<close>)+
    show "x \<notin> set (ps @ a # b # ss)" unfolding queue_set [OF o(1,2)] using assms(1) by (simp add: queue_def)
  qed (use assms(2,3) o(4,5) in simp_all)
  then show ?thesis unfolding o(3) [symmetric] using assms(1) by (simp add: queue_def)
qed

text \<open>Neighbours.\<close>

lemma queue_links:
  assumes "queue m h (us @ vs)"
  shows "get_next (last (h # us)) m = Some (hd (vs @ [h]))" "get_prev (hd (vs @ [h])) m = Some (last (h # us))"
proof -
  obtain ps a b ss where o: "h # us = ps @ [a]" "vs @ [h] = b # ss" "h # (us @ vs) @ [h] = ps @ a # b # ss"
    "a = last (h # us)" "b = hd (vs @ [h])"
    by (rule queue_open)
  have "linked m (ps @ a # b # ss)" using assms unfolding queue_def o(3) ..
  then show "get_next (last (h # us)) m = Some (hd (vs @ [h]))" "get_prev (hd (vs @ [h])) m = Some (last (h # us))"
    unfolding o(4,5) [symmetric] by (simp_all add: linked_append)
qed

lemma queue_ends: "last (h # us) \<in> set (h # us @ vs)" "hd (vs @ [h]) \<in> set (h # us @ vs)"
proof -
  have "last (h # us) \<in> set (h # us)" "hd (vs @ [h]) \<in> set (vs @ [h])" by (rule last_in_set hd_in_set, simp)+
  then show "last (h # us) \<in> set (h # us @ vs)" "hd (vs @ [h]) \<in> set (h # us @ vs)" by auto
qed

lemma queue_nodes:
  assumes "queue m h xs" "a \<in> set (h # xs)"
  shows "m a \<noteq> None"
proof -
  obtain us vs where "h # xs = us @ a # vs" using assms(2) by (meson split_list)
  moreover have "linked m ((h # xs) @ [h])" using assms(1) by (simp add: queue_def)
  ultimately have "linked m (us @ a # (vs @ [h]))" by simp
  then show ?thesis by (cases vs) (auto simp: linked_append dest: get_some)
qed

lemma queue_empty_iff:
  assumes "queue m h xs"
  shows "ngx_queue_empty h m = Some (xs = [])"
proof (cases xs rule: rev_cases)
  case Nil
  then show ?thesis using queue_links(2) [of m h "[]" "[]"] assms by (simp add: ngx_queue_empty_def)
next
  case (snoc ys y)
  then show ?thesis using queue_links(2) [of m h xs "[]"] assms by (auto simp: ngx_queue_empty_def queue_def)
qed

lemma queue_head_last:
  assumes "queue m h xs"
  shows "ngx_queue_head h m = Some (hd (xs @ [h]))" "ngx_queue_last h m = Some (last (h # xs))"
  using queue_links [of m h "[]" xs] queue_links [of m h xs "[]"] assms by simp_all

subsection \<open>The operations\<close>

lemma init_queue:
  assumes "m h \<noteq> None"
  shows "\<exists>m'. ngx_queue_init h m = Some m' \<and> queue m' h [] \<and> off {h} m m'"
  using assms by (auto simp: ngx_queue_init_def queue_def queue_defs)

lemma insert_after_queue:
  assumes "queue m h (us @ vs)" "x \<notin> set (h # us @ vs)" "m x \<noteq> None"
  shows "\<exists>m'. ngx_queue_insert_after (last (h # us)) x m = Some m' \<and> queue m' h (us @ x # vs) \<and>
    off (set (h # x # us @ vs)) m m'"
proof -
  note mem = queue_ends [where h = h and us = us and vs = vs]
  then have "x \<noteq> last (h # us)" "x \<noteq> hd (vs @ [h])" "m (hd (vs @ [h])) \<noteq> None"
    using mem assms(2) queue_nodes [OF assms(1)] by (metis, metis, blast)
  from insert_head_writes [OF queue_links(1) [OF assms(1)] this(3) assms(3) this(1,2)] obtain m' where
    m': "ngx_queue_insert_head (last (h # us)) x m = Some m'" "off {last (h # us), x, hd (vs @ [h])} m m'"
    "\<And>c. get_next c m' = (if c = last (h # us) then Some x else if c = x then Some (hd (vs @ [h])) else get_next c m)"
    "\<And>c. get_prev c m' = (if c = hd (vs @ [h]) then Some x else if c = x then Some (last (h # us)) else get_prev c m)"
    by blast
  have "queue m' h (us @ x # vs)" by (rule queue_insert [OF assms(1,2) m'(3,4)])
  moreover have "off (set (h # x # us @ vs)) m m'" by (rule off_mono [OF m'(2)]) (use mem in \<open>unfold list.set set_append, blast\<close>)
  ultimately show ?thesis using m'(1) by blast
qed

lemma insert_tail_queue:
  assumes "queue m h xs" "x \<notin> set (h # xs)" "m x \<noteq> None"
  shows "\<exists>m'. ngx_queue_insert_tail h x m = Some m' \<and> queue m' h (xs @ [x]) \<and> off (set (h # x # xs)) m m'"
proof -
  have mem: "last (h # xs) \<in> set (h # xs)" by (rule last_in_set) simp
  then have "x \<noteq> last (h # xs)" "x \<noteq> h" "m (last (h # xs)) \<noteq> None"
    using assms(2) queue_nodes [OF assms(1)] by auto
  from insert_tail_writes [OF queue_head_last(2) [OF assms(1)] this(3) assms(3) this(2,1)] obtain m' where
    m': "ngx_queue_insert_tail h x m = Some m'" "off {h, x, last (h # xs)} m m'"
    "\<And>c. get_next c m' = (if c = last (h # xs) then Some x else if c = x then Some h else get_next c m)"
    "\<And>c. get_prev c m' = (if c = h then Some x else if c = x then Some (last (h # xs)) else get_prev c m)"
    by blast
  have "queue m' h (xs @ x # [])" by (rule queue_insert [of m]) (use assms m'(3,4) in simp_all)
  moreover have "off (set (h # x # xs)) m m'" by (rule off_mono [OF m'(2)]) (use mem in \<open>unfold list.set set_append, blast\<close>)
  ultimately show ?thesis using m'(1) by blast
qed

lemma remove_queue:
  assumes "queue m h (us @ x # vs)"
  shows "\<exists>m'. ngx_queue_remove x m = Some m' \<and> queue m' h (us @ vs) \<and> off (set (h # us @ vs)) m m'"
proof -
  have links: "get_next x m = Some (hd (vs @ [h]))" "get_prev x m = Some (last (h # us))"
    using queue_links(1) [of m h "us @ [x]" vs] queue_links(2) [of m h us "x # vs"] assms by simp_all
  note mem = queue_ends [where h = h and us = us and vs = vs]
  have fresh: "x \<notin> set (h # us @ vs)" using assms by (simp add: queue_def)
  have "set (h # us @ vs) \<subseteq> set (h # us @ x # vs)" by auto
  then have "x \<noteq> last (h # us)" "x \<noteq> hd (vs @ [h])" "m (last (h # us)) \<noteq> None" "m (hd (vs @ [h])) \<noteq> None"
    using mem fresh queue_nodes [OF assms] by (metis, metis, blast, blast)
  from remove_writes [OF links(2,1) this(3,4,1,2)] obtain m' where
    m': "ngx_queue_remove x m = Some m'" "off {last (h # us), hd (vs @ [h])} m m'"
    "\<And>c. get_next c m' = (if c = last (h # us) then Some (hd (vs @ [h])) else get_next c m)"
    "\<And>c. get_prev c m' = (if c = hd (vs @ [h]) then Some (last (h # us)) else get_prev c m)"
    by blast
  have "queue m' h (us @ vs)" by (rule queue_bypass [OF assms m'(3,4)])
  moreover have "off (set (h # us @ vs)) m m'" by (rule off_mono [OF m'(2)]) (use mem in \<open>unfold list.set set_append, blast\<close>)
  ultimately show ?thesis using m'(1) by blast
qed

lemma linked_parts: "linked m (xs @ ys) \<Longrightarrow> linked m xs \<and> linked m ys"
proof (induction xs)
  case (Cons a xs)
  then show ?case by (cases xs; cases ys) simp_all
qed simp

lemma split_writes:
  assumes "get_prev h m = Some e" "get_prev q m = Some a" "m a \<noteq> None" "m e \<noteq> None" "m n \<noteq> None"
    and "n \<notin> {h, q, a, e}" "q \<noteq> h" "a \<noteq> e" "a \<noteq> q" "e \<noteq> h"
  shows "\<exists>m'. ngx_queue_split h q n m = Some m' \<and> off {h, q, a, e, n} m m' \<and>
    (\<forall>c. get_next c m' = (if c = a then Some h else if c = n then Some q else if c = e then Some n else get_next c m)) \<and>
    (\<forall>c. get_prev c m' = (if c = h then Some a else if c = n then Some e else if c = q then Some n else get_prev c m))"
  using assms by (cases "a = h"; cases "e = q") (auto simp: ngx_queue_split_def queue_defs)

lemma last_cases: obtains ps where "x # xs = ps @ [last (x # xs)]"
  by (metis append_butlast_last_id list.distinct(1))

lemma split_queue:
  assumes "queue m h (us @ q # vs)" "n \<notin> set (h # us @ q # vs)" "m n \<noteq> None"
  shows "\<exists>m'. ngx_queue_split h q n m = Some m' \<and> queue m' h us \<and> queue m' n (q # vs) \<and>
    off (set (h # n # us @ q # vs)) m m'"
proof -
  obtain ps where ps: "h # us = ps @ [last (h # us)]" by (rule last_cases)
  obtain qs where qs: "q # vs = qs @ [last (q # vs)]" by (rule last_cases)
  define a e where "a = last (h # us)" and "e = last (q # vs)"
  note ps = ps [folded a_def] and qs = qs [folded e_def]
  have dis: "distinct ((h # us) @ (q # vs))" "n \<notin> set ((h # us) @ (q # vs))"
    using assms(1,2) by (simp_all add: queue_def)
  have in_a: "a \<in> set (h # us)" and in_e: "e \<in> set (q # vs)" unfolding ps qs by simp_all
  have links: "get_prev h m = Some e" "get_prev q m = Some a"
    using queue_head_last(2) [OF assms(1)] queue_links(2) [of m h us "q # vs"] assms(1) by (simp_all add: e_def a_def)
  have nodes: "m a \<noteq> None" "m e \<noteq> None" using queue_nodes [OF assms(1)] in_a in_e by auto
  have "n \<notin> {h, q, a, e}" "q \<noteq> h" "a \<noteq> e" "a \<noteq> q" "e \<noteq> h" using dis in_a in_e by auto
  from split_writes [OF links nodes assms(3) this] obtain m' where
    m': "ngx_queue_split h q n m = Some m'" "off {h, q, a, e, n} m m'"
    "\<And>c. get_next c m' = (if c = a then Some h else if c = n then Some q else if c = e then Some n else get_next c m)"
    "\<And>c. get_prev c m' = (if c = h then Some a else if c = n then Some e else if c = q then Some n else get_prev c m)"
    by blast
  have "linked m ((h # us) @ (q # vs) @ [h])" using assms(1) by (simp add: queue_def)
  then have old: "linked m (ps @ [a])" "linked m (qs @ [e])" unfolding ps qs by (metis linked_parts)+
  have tl: "tl (ps @ [a]) = us" "tl (qs @ [e]) = vs" unfolding ps [symmetric] qs [symmetric] by simp_all
  have dis': "distinct ((ps @ [a]) @ (qs @ [e]))" "n \<notin> set ((ps @ [a]) @ (qs @ [e]))"
    using dis unfolding ps qs by simp_all
  have new: "linked m' (ps @ [a])" "linked m' (qs @ [e])"
  proof -
    have "linked m' (ps @ [a]) = linked m (ps @ [a])"
      by (rule linked_cong) (use m'(3,4) dis dis' in \<open>auto simp: tl\<close>)
    moreover have "linked m' (qs @ [e]) = linked m (qs @ [e])"
      by (rule linked_cong) (use m'(3,4) dis dis' in \<open>auto simp: tl\<close>)
    ultimately show "linked m' (ps @ [a])" "linked m' (qs @ [e])" using old by simp_all
  qed
  have "linked m' (ps @ a # h # [])" unfolding linked_append using new(1) m'(3,4) by simp
  then have "linked m' ((ps @ [a]) @ [h])" by simp
  then have "queue m' h us" using dis(1) unfolding ps [symmetric] by (simp add: queue_def)
  moreover have "linked m' (qs @ e # n # [])" unfolding linked_append using new(2) m'(3,4) dis in_a in_e by auto
  then have "linked m' ((qs @ [e]) @ [n])" by simp
  then have "linked m' (q # vs @ [n])" unfolding qs [symmetric] by simp
  then have "queue m' n (q # vs)" using dis m'(3) [of n] m'(4) [of q] in_a by (auto simp: queue_def)
  moreover have "off (set (h # n # us @ q # vs)) m m'"
    by (rule off_mono [OF m'(2)]) (use in_a in_e in auto)
  ultimately show ?thesis using m'(1) by blast
qed

lemma add_writes:
  assumes "get_prev h m = Some a" "get_next n m = Some b" "get_prev n m = Some e" "m a \<noteq> None" "m b \<noteq> None" "m e \<noteq> None"
    and "n \<notin> {a, b, e, h}" "a \<noteq> e" "b \<noteq> h" "a \<noteq> b" "e \<noteq> h"
  shows "\<exists>m'. ngx_queue_add h n m = Some m' \<and> off {h, a, b, e} m m' \<and>
    (\<forall>c. get_next c m' = (if c = a then Some b else if c = e then Some h else get_next c m)) \<and>
    (\<forall>c. get_prev c m' = (if c = b then Some a else if c = h then Some e else get_prev c m))"
  using assms by (cases "a = h"; cases "b = e") (auto simp: ngx_queue_add_def queue_defs)

lemma add_queue:
  assumes "queue m h xs" "queue m n ys" "set (h # xs) \<inter> set (n # ys) = {}" "ys \<noteq> []"
  shows "\<exists>m'. ngx_queue_add h n m = Some m' \<and> queue m' h (xs @ ys) \<and> off (set (h # xs @ ys)) m m'"
proof -
  obtain b bs where ys: "ys = b # bs" using assms(4) by (cases ys) auto
  obtain ps where ps: "h # xs = ps @ [last (h # xs)]" by (rule last_cases)
  obtain qs where qs: "b # bs = qs @ [last (b # bs)]" by (rule last_cases)
  define a e where "a = last (h # xs)" and "e = last (b # bs)"
  note ps = ps [folded a_def] and qs = qs [folded e_def]
  have dis: "distinct ((h # xs) @ (b # bs))" "n \<notin> set ((h # xs) @ (b # bs))"
    using assms(1-3) by (auto simp: queue_def ys)
  have in_a: "a \<in> set (h # xs)" and in_e: "e \<in> set (b # bs)" unfolding ps qs by simp_all
  have links: "get_prev h m = Some a" "get_next n m = Some b" "get_prev n m = Some e"
    using queue_head_last [OF assms(1)] queue_head_last [OF assms(2)] by (simp_all add: e_def a_def ys)
  have nodes: "m a \<noteq> None" "m b \<noteq> None" "m e \<noteq> None"
    using queue_nodes [OF assms(1)] queue_nodes [OF assms(2)] in_a in_e by (auto simp: ys)
  have "n \<notin> {a, b, e, h}" "a \<noteq> e" "b \<noteq> h" "a \<noteq> b" "e \<noteq> h" using dis in_a in_e by auto
  from add_writes [OF links nodes this] obtain m' where
    m': "ngx_queue_add h n m = Some m'" "off {h, a, b, e} m m'"
    "\<And>c. get_next c m' = (if c = a then Some b else if c = e then Some h else get_next c m)"
    "\<And>c. get_prev c m' = (if c = b then Some a else if c = h then Some e else get_prev c m)"
    by blast
  have "linked m ((h # xs) @ [h])" "linked m ([n] @ (b # bs) @ [n])" using assms(1,2) by (simp_all add: queue_def ys)
  then have old: "linked m (ps @ [a])" "linked m (qs @ [e])" unfolding ps qs by (metis linked_parts)+
  have tl: "tl (ps @ [a]) = xs" "tl (qs @ [e]) = bs" unfolding ps [symmetric] qs [symmetric] by simp_all
  have dis': "distinct ((ps @ [a]) @ (qs @ [e]))"
    using dis unfolding ps qs by simp
  have "linked m' (ps @ [a]) = linked m (ps @ [a])"
    by (rule linked_cong) (use m'(3,4) dis dis' in \<open>auto simp: tl\<close>)
  moreover have "linked m' (qs @ [e]) = linked m (qs @ [e])"
    by (rule linked_cong) (use m'(3,4) dis dis' in \<open>auto simp: tl\<close>)
  ultimately have new: "linked m' (ps @ [a])" "linked m' (qs @ e # h # [])"
    unfolding linked_append using old m'(3,4) \<open>a \<noteq> e\<close> \<open>b \<noteq> h\<close> by simp_all
  have "linked m' ((qs @ [e]) @ [h])" using new(2) by simp
  then have "linked m' (b # bs @ [h])" unfolding qs [symmetric] by simp
  then have "linked m' (ps @ a # b # (bs @ [h]))" unfolding linked_append using new(1) m'(3,4) by simp
  then have "linked m' ((h # xs) @ (b # bs) @ [h])" unfolding ps by simp
  then have "queue m' h (xs @ ys)" using dis(1) by (simp add: queue_def ys)
  moreover have "off (set (h # xs @ ys)) m m'"
    by (rule off_mono [OF m'(2)]) (use in_a in_e in \<open>auto simp: ys\<close>)
  ultimately show ?thesis using m'(1) by blast
qed

subsection \<open>The middle\<close>

lemma queue_next:
  assumes "queue m h xs" "Suc i < length xs"
  shows "get_next (xs ! i) m = Some (xs ! Suc i)"
proof -
  have "xs = take (Suc i) xs @ drop (Suc i) xs" by simp
  then have "get_next (last (h # take (Suc i) xs)) m = Some (hd (drop (Suc i) xs @ [h]))"
    using queue_links(1) [of m h "take (Suc i) xs" "drop (Suc i) xs"] assms(1) by simp
  moreover have "last (h # take (Suc i) xs) = xs ! i" using assms(2) by (simp add: take_Suc_conv_app_nth)
  moreover have "hd (drop (Suc i) xs @ [h]) = xs ! Suc i" using assms(2) by (simp add: hd_append hd_drop_conv_nth)
  ultimately show ?thesis by simp
qed

lemma queue_last_index:
  assumes "queue m h xs" "i < length xs"
  shows "xs ! i = last (h # xs) \<longleftrightarrow> Suc i = length xs"
proof -
  have "last (h # xs) = xs ! (length xs - 1)" using assms(2) by (auto simp: last_conv_nth)
  moreover have "distinct xs" using assms(1) by (simp add: queue_def)
  ultimately show ?thesis using assms(2) nth_eq_iff_index_eq [of xs i "length xs - 1"] by auto
qed

lemma middle_loop_index:
  assumes "queue m h xs" "Suc (2 * i) < length xs"
  shows "middle_loop h (xs ! i) (xs ! (2 * i)) m = Some (xs ! (length xs div 2))"
  using assms(2)
proof (induction "length xs - 2 * i" arbitrary: i rule: less_induct)
  case less
  note nx = queue_next [OF assms(1)] and lst = queue_last_index [OF assms(1)] queue_head_last(2) [OF assms(1)]
  show ?case
  proof (cases "Suc (Suc (2 * i)) < length xs")
    case False
    then have "length xs = Suc (Suc (2 * i))" using less.prems by simp
    then show ?thesis using nx [of i] nx [of "2 * i"] lst less.prems by (subst middle_loop.simps) simp
  next
    case True
    show ?thesis
    proof (cases "Suc (Suc (Suc (2 * i))) = length xs")
      case last: True
      then have "length xs div 2 = Suc i" by (simp flip: last)
      then show ?thesis using nx [of i] nx [of "2 * i"] nx [of "Suc (2 * i)"] lst True last less.prems
        by (subst middle_loop.simps) simp
    next
      case False
      have "middle_loop h (xs ! Suc i) (xs ! (2 * Suc i)) m = Some (xs ! (length xs div 2))"
        using less.prems True False by (intro less.hyps) auto
      then show ?thesis using nx [of i] nx [of "2 * i"] nx [of "Suc (2 * i)"] lst True False less.prems
        by (subst middle_loop.simps) simp
    qed
  qed
qed

subsection \<open>Sorting\<close>

text \<open>The place that \<open>sort_prev\<close> finds: behind the last node that need not come later.\<close>

definition insert_sorted :: "(nat \<Rightarrow> nat \<Rightarrow> int) \<Rightarrow> nat \<Rightarrow> nat list \<Rightarrow> nat list" where
  "insert_sorted cmp q us =
     rev (dropWhile (\<lambda>p. cmp p q > 0) (rev us)) @ q # rev (takeWhile (\<lambda>p. cmp p q > 0) (rev us))"

lemma sort_prev_place:
  assumes "queue m h (us @ vs)" "us \<noteq> []"
  shows "sort_prev cmp h (last us) q m = Some (last (h # rev (dropWhile (\<lambda>p. cmp p q > 0) (rev us))))"
  using assms
proof (induction us arbitrary: vs rule: rev_induct)
  case (snoc p us)
  show ?case
  proof (cases "cmp p q \<le> 0")
    case True
    then show ?thesis by (subst sort_prev.simps) simp
  next
    case False
    have q: "queue m h (us @ p # vs)" using snoc.prems(1) by simp
    have "get_prev p m = Some (last (h # us))" using queue_links(2) [OF q] by simp
    moreover have "h \<notin> set us" using q by (simp add: queue_def)
    then have "us \<noteq> [] \<Longrightarrow> last us \<noteq> h" by (metis last_in_set)
    ultimately show ?thesis using False snoc.IH [OF q] by (subst sort_prev.simps) auto
  qed
qed simp

lemma sort_loop_inserts:
  assumes "queue m h (us @ vs)" "us \<noteq> []"
  shows "\<exists>m'. sort_loop cmp h (hd (vs @ [h])) m = Some m' \<and> queue m' h (foldl (\<lambda>us q. insert_sorted cmp q us) us vs) \<and>
    off (set (h # us @ vs)) m m'"
  using assms
proof (induction vs arbitrary: us m)
  case Nil
  then show ?case by (subst sort_loop.simps) (simp add: off_def)
next
  case (Cons q vs)
  let ?as = "rev (dropWhile (\<lambda>p. cmp p q > 0) (rev us))" and ?bs = "rev (takeWhile (\<lambda>p. cmp p q > 0) (rev us))"
  have us: "us = ?as @ ?bs" by (simp flip: rev_append)
  have dis: "distinct (h # us @ q # vs)" using Cons.prems(1) by (simp add: queue_def)
  have links: "get_prev q m = Some (last us)" "get_next q m = Some (hd (vs @ [h]))"
    using queue_links(2) [of m h us "q # vs"] queue_links(1) [of m h "us @ [q]" vs] Cons.prems by simp_all
  obtain m1 where m1: "ngx_queue_remove q m = Some m1" "queue m1 h (us @ vs)" "off (set (h # us @ vs)) m m1"
    using remove_queue [OF Cons.prems(1)] by blast
  have prev: "sort_prev cmp h (last us) q m1 = Some (last (h # ?as))"
    by (rule sort_prev_place [OF m1(2) Cons.prems(2)])
  have node: "m q \<noteq> None" by (rule queue_nodes [OF Cons.prems(1)]) simp
  moreover have "m1 q = m q" using m1(3) dis by (simp add: off_def)
  ultimately have "m1 q \<noteq> None" by simp
  moreover have eq: "?as @ ?bs @ vs = us @ vs" using us by (metis append.assoc)
  have "queue m1 h (?as @ ?bs @ vs)" unfolding eq by (rule m1(2))
  moreover have "set (h # ?as @ ?bs @ vs) = set (h # us @ vs)" by (simp only: eq)
  then have "q \<notin> set (h # ?as @ ?bs @ vs)" using dis by simp
  ultimately obtain m2 where m2: "ngx_queue_insert_after (last (h # ?as)) q m1 = Some m2"
    "queue m2 h (?as @ q # ?bs @ vs)" "off (set (h # q # ?as @ ?bs @ vs)) m1 m2"
    using insert_after_queue [of m1 h ?as "?bs @ vs" q] by blast
  have "queue m2 h (insert_sorted cmp q us @ vs)" using m2(2) by (simp add: insert_sorted_def)
  moreover have "insert_sorted cmp q us \<noteq> []" by (simp add: insert_sorted_def)
  ultimately obtain m' where m': "sort_loop cmp h (hd (vs @ [h])) m2 = Some m'"
    "queue m' h (foldl (\<lambda>us q. insert_sorted cmp q us) (insert_sorted cmp q us) vs)"
    "off (set (h # insert_sorted cmp q us @ vs)) m2 m'"
    using Cons.IH by blast
  have "q \<noteq> h" using dis by simp
  then have "sort_loop cmp h q m = Some m'"
    using links m1(1) prev m2(1) m'(1) by (subst sort_loop.simps) simp
  moreover have sets: "set (h # q # ?as @ ?bs @ vs) = set (h # us @ q # vs)"
    unfolding list.set eq by auto
  have "set (insert_sorted cmp q us) = insert q (set (?as @ ?bs))" by (auto simp: insert_sorted_def)
  then have sets': "set (h # insert_sorted cmp q us @ vs) = set (h # us @ q # vs)"
    unfolding us [symmetric] by auto
  have "off (set (h # us @ q # vs)) m m'"
    using off_trans [OF off_trans [OF off_mono [OF m1(3)] m2(3) [unfolded sets]] m'(3) [unfolded sets']] by auto
  ultimately show ?case using m'(2) by auto
qed

text \<open>With a comparison of keys this is the stable sort.\<close>

lemma insert_sorted_key:
  assumes "sorted (map key us)" "\<And>p q. cmp p q \<le> 0 \<longleftrightarrow> key p \<le> (key q :: 'k::linorder)"
  shows "insert_sorted cmp q us = filter (\<lambda>p. key p \<le> key q) us @ q # filter (\<lambda>p. key q < key p) us"
  using assms(1)
proof (induction us rule: rev_induct)
  case Nil
  then show ?case by (simp add: insert_sorted_def)
next
  case (snoc p us)
  have le: "key x \<le> key p" if "x \<in> set us" for x using snoc.prems that by (simp add: sorted_append)
  show ?case
  proof (cases "key p \<le> key q")
    case True
    then have "cmp p q \<le> 0" by (simp add: assms(2))
    moreover have "filter (\<lambda>p. key p \<le> key q) us = us" "filter (\<lambda>p. key q < key p) us = []"
      using le True by (force simp: filter_id_conv filter_empty_conv)+
    ultimately show ?thesis using True by (simp add: insert_sorted_def)
  next
    case False
    then have "cmp p q > 0" using assms(2) [of p q] by simp
    then have "insert_sorted cmp q (us @ [p]) = insert_sorted cmp q us @ [p]" by (simp add: insert_sorted_def)
    then show ?thesis using False snoc.IH snoc.prems by (simp add: sorted_append)
  qed
qed

lemma foldl_insert_sorted:
  assumes "\<And>p q. cmp p q \<le> 0 \<longleftrightarrow> key p \<le> (key q :: 'k::linorder)"
  shows "foldl (\<lambda>us q. insert_sorted cmp q us) [] xs = sort_key key xs"
proof -
  let ?ys = "foldl (\<lambda>us q. insert_sorted cmp q us) [] xs"
  have "sorted (map key ?ys) \<and> mset ?ys = mset xs \<and> (\<forall>k. filter (\<lambda>x. k = key x) ?ys = filter (\<lambda>x. k = key x) xs)"
  proof (induction xs rule: rev_induct)
    case (snoc q xs)
    let ?us = "foldl (\<lambda>us q. insert_sorted cmp q us) [] xs"
    have ins: "foldl (\<lambda>us q. insert_sorted cmp q us) [] (xs @ [q]) =
        filter (\<lambda>p. key p \<le> key q) ?us @ q # filter (\<lambda>p. key q < key p) ?us"
      using insert_sorted_key [where us = ?us and q = q and key = key and cmp = cmp, OF _ assms] snoc by simp
    have "sorted (map key (filter (\<lambda>p. key p \<le> key q) ?us @ q # filter (\<lambda>p. key q < key p) ?us))"
      using snoc by (auto simp: sorted_append sorted_filter)
    moreover have "mset (filter (\<lambda>p. key p \<le> key q) ?us @ q # filter (\<lambda>p. key q < key p) ?us) = mset (xs @ [q])"
      using snoc multiset_partition [of "mset ?us" "\<lambda>p. key p \<le> key q"] by (simp add: not_le)
    moreover have "filter (\<lambda>x. k = key x) (filter (\<lambda>p. key p \<le> key q) ?us @ q # filter (\<lambda>p. key q < key p) ?us) =
        filter (\<lambda>x. k = key x) (xs @ [q])" for k
    proof -
      have "filter (\<lambda>x. k = key x) (filter (\<lambda>p. key p \<le> key q) ?us) = (if k \<le> key q then filter (\<lambda>x. k = key x) ?us else [])"
        "filter (\<lambda>x. k = key x) (filter (\<lambda>p. key q < key p) ?us) = (if key q < k then filter (\<lambda>x. k = key x) ?us else [])"
        by (auto simp: filter_empty_conv intro: filter_cong)
      then show ?thesis using snoc by (auto simp: filter_empty_conv)
    qed
    ultimately show ?case unfolding ins by blast
  qed simp
  then show ?thesis by (intro properties_for_sort_key [symmetric]) auto
qed

subsection \<open>Properties\<close>

definition sample_queue :: queue_mem where
  "sample_queue = [0 \<mapsto> \<lparr>q_prev = 3, q_next = 1\<rparr>, 1 \<mapsto> \<lparr>q_prev = 0, q_next = 2\<rparr>, 2 \<mapsto> \<lparr>q_prev = 1, q_next = 3\<rparr>,
     3 \<mapsto> \<lparr>q_prev = 2, q_next = 0\<rparr>, 4 \<mapsto> \<lparr>q_prev = 9, q_next = 9\<rparr>]"

lemma sample_queue: "queue sample_queue 0 [1, 2, 3]"
  by (simp add: queue_def sample_queue_def get_next_def get_prev_def)

text \<open>C18: \<open>ngx_queue_sort\<close> with a comparison whose result is not positive exactly if the key of its first argument
  is at most that of the second: on any memory that holds a queue it returns, the memory then holds
  the stable sort of the queue, and nothing but its nodes is written.\<close>

theorem queue_sort_correct:
  assumes "queue m h xs" "\<forall>p q. cmp p q \<le> 0 \<longleftrightarrow> key p \<le> (key q :: 'k::linorder)"
  shows "\<exists>m'. ngx_queue_sort cmp h m = Some m' \<and> queue m' h (sort_key key xs) \<and> off (set (h # xs)) m m'"
proof (cases "hd (xs @ [h]) = last (h # xs)")
  case True
  then have "length xs \<le> 1" using assms(1) by (cases xs) (auto simp: queue_def split: if_splits)
  then have "sort_key key xs = xs" by (cases xs) simp_all
  then show ?thesis using queue_head_last [OF assms(1)] True assms(1) by (simp add: ngx_queue_sort_def off_def)
next
  case False
  then obtain x ys where xs: "xs = x # ys" by (cases xs) auto
  have "get_next x m = Some (hd (ys @ [h]))" using queue_links(1) [of m h "[x]" ys] assms(1) xs by simp
  moreover obtain m' where "sort_loop cmp h (hd (ys @ [h])) m = Some m'"
    "queue m' h (foldl (\<lambda>us q. insert_sorted cmp q us) [x] ys)" "off (set (h # [x] @ ys)) m m'"
    using sort_loop_inserts [of m h "[x]" ys cmp] assms(1) xs by auto
  moreover have "foldl (\<lambda>us q. insert_sorted cmp q us) [x] ys = sort_key key xs"
    using foldl_insert_sorted [of cmp key xs] assms(2) by (simp add: xs insert_sorted_def)
  ultimately show ?thesis using queue_head_last [OF assms(1)] False xs by (auto simp: ngx_queue_sort_def)
qed

lemma queue_sort_correct_witness:
  "\<exists>m'. ngx_queue_sort (\<lambda>p q. int q - int p) 0 sample_queue = Some m' \<and> queue m' 0 [3, 2, 1]"
  using queue_sort_correct [OF sample_queue, of "\<lambda>p q. int q - int p" "\<lambda>p. - int p"]
  by (auto simp: insort_key.simps)

text \<open>\<open>ngx_queue_middle\<close> of a queue that is not empty: the middle node if their number is odd, the first
  node of the second half otherwise.\<close>

theorem queue_middle_correct:
  assumes "queue m h xs" "xs \<noteq> []"
  shows "ngx_queue_middle h m = Some (xs ! (length xs div 2))"
proof -
  obtain x ys where xs: "xs = x # ys" using assms(2) by (cases xs) auto
  show ?thesis
  proof (cases ys)
    case Nil
    then show ?thesis using queue_head_last [OF assms(1)] xs by (simp add: ngx_queue_middle_def)
  next
    case (Cons y zs)
    then have "x \<noteq> last (h # xs)" using queue_last_index [OF assms(1), of 0] xs by auto
    then show ?thesis using queue_head_last [OF assms(1)] middle_loop_index [OF assms(1), of 0] xs Cons
      by (simp add: ngx_queue_middle_def)
  qed
qed

lemma queue_middle_correct_witness: "ngx_queue_middle 0 sample_queue = Some 2"
  using queue_middle_correct [OF sample_queue] by simp

text \<open>\<open>ngx_queue_split\<close> cuts a queue before a node of it, giving the rest to a second sentinel, and
  \<open>ngx_queue_add\<close> puts the two queues together again.\<close>

theorem queue_split_add:
  assumes "queue m h (us @ q # vs)" "n \<notin> set (h # us @ q # vs)" "m n \<noteq> None"
  shows "\<exists>m' m''. ngx_queue_split h q n m = Some m' \<and> queue m' h us \<and> queue m' n (q # vs) \<and>
    ngx_queue_add h n m' = Some m'' \<and> queue m'' h (us @ q # vs)"
proof -
  obtain m' where m': "ngx_queue_split h q n m = Some m'" "queue m' h us" "queue m' n (q # vs)"
    using split_queue [OF assms] by blast
  moreover have "set (h # us) \<inter> set (n # q # vs) = {}" using assms(1,2) by (auto simp: queue_def)
  ultimately show ?thesis using add_queue [of m' h us n "q # vs"] by auto
qed

lemma queue_split_add_witness: "\<exists>m' m''. ngx_queue_split 0 2 4 sample_queue = Some m' \<and> queue m' 0 [1] \<and> queue m' 4 [2, 3] \<and>
    ngx_queue_add 0 4 m' = Some m'' \<and> queue m'' 0 [1, 2, 3]"
  using queue_split_add [of sample_queue 0 "[1]" 2 "[3]" 4] sample_queue by (auto simp: sample_queue_def)

end
