(* ===== verification/Str_Num.thy ===== *)
theory Str_Num
  imports Prelude
begin

section \<open>Numbers in strings: \<open>ngx_atoi\<close> and its family, \<open>ngx_hextoi\<close>, \<open>ngx_sprintf_num\<close>\<close>

text \<open>
  The conversions of \<open>src/core/ngx_string.c\<close> between decimal or hexadecimal text and
  machine integers. A \<open>u_char *line, size_t n\<close> pair is the list of its \<open>n\<close> bytes.
  All variables of the C functions are signed 64-bit in the modelled build; every
  assignment goes through \<open>s64\<close>, so that an overflow would be visible in the result.
  The lemmas show that none happens: each function returns the exact value of the text,
  or \<open>NGX_ERROR\<close> precisely when the text is not a number or the number does not fit.
\<close>

subsection \<open>Decimal: \<open>ngx_atoi\<close>, \<open>ngx_atosz\<close>, \<open>ngx_atoof\<close>, \<open>ngx_atotm\<close>\<close>

text \<open>The loop the four functions share, over the bytes that are left.\<close>

fun ato_loop :: "int \<Rightarrow> int \<Rightarrow> int \<Rightarrow> u_char list \<Rightarrow> int" where
  "ato_loop cutoff cutlim value [] = value"
| "ato_loop cutoff cutlim value (c # line) =
     (if c < ch_0 \<or> c > ch_9 then NGX_ERROR
      else if value \<ge> cutoff \<and> (value > cutoff \<or> uint c - uint ch_0 > cutlim) then NGX_ERROR
      else ato_loop cutoff cutlim (s64 (value * 10 + (uint c - uint ch_0))) line)"

definition ngx_atoi :: "u_char list \<Rightarrow> int" where
  "ngx_atoi line =
     (if length line = 0 then NGX_ERROR
      else ato_loop (NGX_MAX_INT_T_VALUE div 10) (NGX_MAX_INT_T_VALUE mod 10) 0 line)"

definition ngx_atosz :: "u_char list \<Rightarrow> int" where
  "ngx_atosz line =
     (if length line = 0 then NGX_ERROR
      else ato_loop (NGX_MAX_INT_T_VALUE div 10) (NGX_MAX_INT_T_VALUE mod 10) 0 line)"

definition ngx_atoof :: "u_char list \<Rightarrow> int" where
  "ngx_atoof line =
     (if length line = 0 then NGX_ERROR
      else ato_loop (NGX_MAX_INT_T_VALUE div 10) (NGX_MAX_INT_T_VALUE mod 10) 0 line)"

definition ngx_atotm :: "u_char list \<Rightarrow> int" where
  "ngx_atotm line =
     (if length line = 0 then NGX_ERROR
      else ato_loop (NGX_MAX_INT_T_VALUE div 10) (NGX_MAX_INT_T_VALUE mod 10) 0 line)"

text \<open>What the text denotes, when it denotes a number that fits.\<close>

definition dec_number :: "u_char list \<Rightarrow> int option" where
  "dec_number line =
     (if line \<noteq> [] \<and> list_all is_digit line \<and> dec_val line \<le> NGX_MAX_INT_T_VALUE
      then Some (dec_val line) else None)"

definition or_error :: "int option \<Rightarrow> int" where
  "or_error x = (case x of None \<Rightarrow> NGX_ERROR | Some v \<Rightarrow> v)"

lemma scaled_too_big:
  assumes "NGX_MAX_INT_T_VALUE < w" "0 \<le> x"
  shows "\<not> (w * 10 ^ n + x) * 10 ^ m \<le> NGX_MAX_INT_T_VALUE"
proof -
  have "w * 1 \<le> w * 10 ^ n" using assms by (intro mult_left_mono) auto
  with assms(2) have "w * 1 \<le> w * 10 ^ n + x" by (rule add_increasing2)
  then have "w * 1 \<le> (w * 10 ^ n + x) * 10 ^ m" using assms by (intro mult_mono) auto
  then have "w \<le> (w * 10 ^ n + x) * 10 ^ m" by simp
  then show ?thesis using assms(1) by (meson leD order_trans)
qed

lemma scaled_too_big0:
  "NGX_MAX_INT_T_VALUE < w \<Longrightarrow> 0 \<le> x \<Longrightarrow> \<not> w * 10 ^ n + x \<le> NGX_MAX_INT_T_VALUE"
  using scaled_too_big [of w x n 0] by simp

lemma digit_cases:
  "is_digit c \<Longrightarrow> \<not> (c < ch_0 \<or> c > ch_9)"
  "\<not> is_digit c \<Longrightarrow> c < ch_0 \<or> c > ch_9"
  by (auto simp: is_digit_def)

lemma ato_loop_exact:
  assumes "0 \<le> v" "v \<le> NGX_MAX_INT_T_VALUE"
  shows "ato_loop 922337203685477580 7 v line =
     (if list_all is_digit line \<and> v * 10 ^ length line + dec_val line \<le> NGX_MAX_INT_T_VALUE
      then v * 10 ^ length line + dec_val line else NGX_ERROR)"
  using assms
proof (induction line arbitrary: v)
  case Nil
  then show ?case by simp
next
  case (Cons c line)
  let ?d = "uint c - 48"
  have digit: "is_digit c \<longleftrightarrow> \<not> (c < ch_0 \<or> c > ch_9)"
    by (auto simp: is_digit_def)
  show ?case
  proof (cases "is_digit c")
    case False
    then show ?thesis by (auto simp: is_digit_def)
  next
    case True
    then have d: "0 \<le> ?d" "?d \<le> 9" by (auto simp: is_digit_uint)
    have val: "v * 10 ^ length (c # line) + dec_val (c # line) =
        (v * 10 + ?d) * 10 ^ length line + dec_val line"
      by (simp add: dec_val_Cons algebra_simps)
    show ?thesis
    proof (cases "v * 10 + ?d \<le> NGX_MAX_INT_T_VALUE")
      case True
      then have "\<not> (v \<ge> 922337203685477580 \<and> (v > 922337203685477580 \<or> ?d > 7))"
        using d by arith
      with \<open>is_digit c\<close> digit True Cons d val show ?thesis
        by (simp add: Cons.IH)
    next
      case False
      then have over: "v \<ge> 922337203685477580 \<and> (v > 922337203685477580 \<or> ?d > 7)"
        using d by arith
      have "list_all is_digit line \<Longrightarrow>
          \<not> (v * 10 + ?d) * 10 ^ length line + dec_val line \<le> NGX_MAX_INT_T_VALUE"
        using False by (intro scaled_too_big0 dec_val_nonneg) auto
      then show ?thesis
        using over digit \<open>is_digit c\<close> val by auto
    qed
  qed
qed

lemmas ato_family_defs = ngx_atoi_def ngx_atosz_def ngx_atoof_def ngx_atotm_def

lemma atoi_exact: "ngx_atoi line = or_error (dec_number line)"
  using ato_loop_exact [of 0 line] by (simp add: ngx_atoi_def dec_number_def or_error_def)

lemma ato_family [simp]:
  "ngx_atosz = ngx_atoi" "ngx_atoof = ngx_atoi" "ngx_atotm = ngx_atoi"
  by (simp_all add: fun_eq_iff ato_family_defs)

lemma dec_number_range: "dec_number line = Some v \<Longrightarrow> 0 \<le> v \<and> v \<le> NGX_MAX_INT_T_VALUE"
  by (auto simp: dec_number_def dec_val_nonneg split: if_splits)

lemma dec_number_neq_error [simp]: "dec_number line \<noteq> Some (-1)"
  using dec_number_range by fastforce

subsection \<open>Fixed point: \<open>ngx_atofp\<close>\<close>

text \<open>The scaling loop \<open>while (point--)\<close>, and the loop over the bytes before it.\<close>

fun atofp_scale :: "int \<Rightarrow> int \<Rightarrow> nat \<Rightarrow> int" where
  "atofp_scale cutoff value 0 = value"
| "atofp_scale cutoff value (Suc point) =
     (if value > cutoff then NGX_ERROR else atofp_scale cutoff (s64 (value * 10)) point)"

fun atofp_loop :: "int \<Rightarrow> int \<Rightarrow> bool \<Rightarrow> int \<Rightarrow> nat \<Rightarrow> u_char list \<Rightarrow> int" where
  "atofp_loop cutoff cutlim dot value point [] = atofp_scale cutoff value point"
| "atofp_loop cutoff cutlim dot value point (c # line) =
     (if point = 0 then NGX_ERROR
      else if c = ch_dot then
        (if dot then NGX_ERROR else atofp_loop cutoff cutlim True value point line)
      else if c < ch_0 \<or> c > ch_9 then NGX_ERROR
      else if value \<ge> cutoff \<and> (value > cutoff \<or> uint c - uint ch_0 > cutlim) then NGX_ERROR
      else atofp_loop cutoff cutlim dot (s64 (value * 10 + (uint c - uint ch_0)))
             (if dot then point - 1 else point) line)"

definition ngx_atofp :: "u_char list \<Rightarrow> nat \<Rightarrow> int" where
  "ngx_atofp line point =
     (if length line = 0 then NGX_ERROR
      else atofp_loop (NGX_MAX_INT_T_VALUE div 10) (NGX_MAX_INT_T_VALUE mod 10) False 0 point line)"

text \<open>
  The value of a decimal fraction times \<open>10 ^ point\<close>: digits, at most one dot, and at
  most \<open>point\<close> digits after it.
\<close>

definition fixed_point :: "u_char list \<Rightarrow> nat \<Rightarrow> int option" where
  "fixed_point line point =
     (let ip = takeWhile (\<lambda>c. c \<noteq> ch_dot) line;
          fp = drop (Suc (length ip)) line;
          v = dec_val (ip @ fp) * 10 ^ (point - length fp)
      in if line \<noteq> [] \<and> point \<noteq> 0 \<and> list_all is_digit (ip @ fp) \<and> length fp \<le> point
            \<and> v \<le> NGX_MAX_INT_T_VALUE
         then Some v else None)"

lemma atofp_scale_exact:
  assumes "0 \<le> v" "v \<le> NGX_MAX_INT_T_VALUE"
  shows "atofp_scale 922337203685477580 v point =
     (if v * 10 ^ point \<le> NGX_MAX_INT_T_VALUE then v * 10 ^ point else NGX_ERROR)"
  using assms
proof (induction point arbitrary: v)
  case (Suc point)
  show ?case
  proof (cases "v > 922337203685477580")
    case True
    then have "\<not> v * 10 * 10 ^ point \<le> NGX_MAX_INT_T_VALUE"
      using scaled_too_big0 [of "v * 10" 0 point] by simp
    with True show ?thesis by (simp add: mult.assoc)
  next
    case False
    with Suc.prems show ?thesis by (simp add: Suc.IH mult.assoc)
  qed
qed simp

text \<open>After the dot: every further byte is a digit and uses one of the \<open>point\<close> places.\<close>

lemma atofp_frac_exact:
  assumes "0 \<le> v" "v \<le> NGX_MAX_INT_T_VALUE"
  shows "atofp_loop 922337203685477580 7 True v point fp =
     (if list_all is_digit fp \<and> length fp \<le> point
        \<and> (v * 10 ^ length fp + dec_val fp) * 10 ^ (point - length fp) \<le> NGX_MAX_INT_T_VALUE
      then (v * 10 ^ length fp + dec_val fp) * 10 ^ (point - length fp) else NGX_ERROR)"
  using assms
proof (induction fp arbitrary: v point)
  case Nil
  then show ?case by (simp add: atofp_scale_exact)
next
  case (Cons c fp)
  let ?d = "uint c - 48"
  consider "point = 0" | "point \<noteq> 0" "\<not> is_digit c" | "point \<noteq> 0" "is_digit c" by blast
  then show ?case
  proof cases
    case 3
    then have d: "0 \<le> ?d" "?d \<le> 9" "c \<noteq> ch_dot" "\<not> (c < ch_0 \<or> c > ch_9)"
      using digit_cases(1) [of c] by (auto simp: is_digit_uint)
    have val: "v * 10 ^ length (c # fp) + dec_val (c # fp) =
        (v * 10 + ?d) * 10 ^ length fp + dec_val fp"
      by (simp add: dec_val_Cons algebra_simps)
    show ?thesis
    proof (cases "v * 10 + ?d \<le> NGX_MAX_INT_T_VALUE")
      case True
      then have "\<not> (v \<ge> 922337203685477580 \<and> (v > 922337203685477580 \<or> ?d > 7))"
        using d by arith
      with 3 d True Cons val show ?thesis
        by (auto simp: Cons.IH)
    next
      case False
      then have "v \<ge> 922337203685477580 \<and> (v > 922337203685477580 \<or> ?d > 7)"
        using d by arith
      moreover have "list_all is_digit fp \<Longrightarrow>
          \<not> ((v * 10 + ?d) * 10 ^ length fp + dec_val fp) * 10 ^ (point - Suc (length fp))
             \<le> NGX_MAX_INT_T_VALUE"
        using False by (intro scaled_too_big) (auto simp: dec_val_nonneg)
      ultimately show ?thesis
        using 3 d val by auto
    qed
  qed (auto simp: is_digit_def)
qed

lemma atofp_int_exact:
  assumes "0 \<le> v" "v \<le> NGX_MAX_INT_T_VALUE" "point \<noteq> 0"
  shows "atofp_loop 922337203685477580 7 False v point line =
     (let ip = takeWhile (\<lambda>c. c \<noteq> ch_dot) line;
          fp = drop (Suc (length ip)) line;
          w = (v * 10 ^ length (ip @ fp) + dec_val (ip @ fp)) * 10 ^ (point - length fp)
      in if list_all is_digit (ip @ fp) \<and> length fp \<le> point \<and> w \<le> NGX_MAX_INT_T_VALUE
         then w else NGX_ERROR)"
  using assms
proof (induction line arbitrary: v)
  case Nil
  then show ?case by (simp add: atofp_scale_exact)
next
  case (Cons c line)
  let ?d = "uint c - 48"
  let ?ip = "takeWhile (\<lambda>c. c \<noteq> ch_dot) line"
  let ?fp = "drop (Suc (length ?ip)) line"
  consider "c = ch_dot" | "c \<noteq> ch_dot" "\<not> is_digit c" | "c \<noteq> ch_dot" "is_digit c" by blast
  then show ?case
  proof cases
    case 1
    with Cons.prems show ?thesis by (simp add: atofp_frac_exact Let_def)
  next
    case 2
    with Cons.prems show ?thesis by (auto simp: is_digit_def Let_def)
  next
    case 3
    then have d: "0 \<le> ?d" "?d \<le> 9" "\<not> (c < ch_0 \<or> c > ch_9)"
      using digit_cases(1) [of c] by (auto simp: is_digit_uint)
    have val: "v * 10 ^ length ((c # ?ip) @ ?fp) + dec_val ((c # ?ip) @ ?fp) =
        (v * 10 + ?d) * 10 ^ length (?ip @ ?fp) + dec_val (?ip @ ?fp)"
      by (simp add: dec_val_Cons algebra_simps)
    show ?thesis
    proof (cases "v * 10 + ?d \<le> NGX_MAX_INT_T_VALUE")
      case True
      then have "\<not> (v \<ge> 922337203685477580 \<and> (v > 922337203685477580 \<or> ?d > 7))"
        using d by arith
      with 3 d True Cons.prems val show ?thesis
        by (simp add: Cons.IH Let_def)
    next
      case False
      then have "v \<ge> 922337203685477580 \<and> (v > 922337203685477580 \<or> ?d > 7)"
        using d by arith
      moreover have "list_all is_digit (?ip @ ?fp) \<Longrightarrow>
          \<not> ((v * 10 + ?d) * 10 ^ length (?ip @ ?fp) + dec_val (?ip @ ?fp))
              * 10 ^ (point - length ?fp) \<le> NGX_MAX_INT_T_VALUE"
        using False by (intro scaled_too_big dec_val_nonneg) auto
      ultimately show ?thesis
        using 3 d val Cons.prems by (auto simp: Let_def)
    qed
  qed
qed

lemma atofp_exact: "ngx_atofp line point = or_error (fixed_point line point)"
proof (cases "point = 0")
  case True
  then show ?thesis
    by (cases line) (simp_all add: ngx_atofp_def fixed_point_def or_error_def)
next
  case False
  with atofp_int_exact [of 0 point line] show ?thesis
    by (auto simp: ngx_atofp_def fixed_point_def or_error_def Let_def)
qed

subsection \<open>Hexadecimal: \<open>ngx_hextoi\<close> and \<open>ngx_hex_dump\<close>\<close>

fun hextoi_loop :: "int \<Rightarrow> int \<Rightarrow> u_char list \<Rightarrow> int" where
  "hextoi_loop cutoff value [] = value"
| "hextoi_loop cutoff value (ch # line) =
     (if value > cutoff then NGX_ERROR
      else if ch \<ge> ch_0 \<and> ch \<le> ch_9 then
        hextoi_loop cutoff (s64 (value * 16 + (uint ch - uint ch_0))) line
      else let c = ch OR 0x20 in
        if c \<ge> ch_a \<and> c \<le> ch_f then
          hextoi_loop cutoff (s64 (value * 16 + (uint c - uint ch_a + 10))) line
        else NGX_ERROR)"

definition ngx_hextoi :: "u_char list \<Rightarrow> int" where
  "ngx_hextoi line =
     (if length line = 0 then NGX_ERROR else hextoi_loop (NGX_MAX_INT_T_VALUE div 16) 0 line)"

definition hex_lower :: "u_char list" where
  "hex_lower = bytes ''0123456789abcdef''"

definition hex_upper :: "u_char list" where
  "hex_upper = bytes ''0123456789ABCDEF''"

fun ngx_hex_dump :: "u_char list \<Rightarrow> u_char list" where
  "ngx_hex_dump [] = []"
| "ngx_hex_dump (c # src) =
     hex_lower ! unat (drop_bit 4 c) # hex_lower ! unat (c AND 0xf) # ngx_hex_dump src"

text \<open>The value of a hexadecimal digit in either case.\<close>

definition hex_digit :: "u_char \<Rightarrow> int option" where
  "hex_digit c =
     (if is_digit c then Some (uint c - 48)
      else if ch_A \<le> c \<and> c \<le> ch_F then Some (uint c - 55)
      else if ch_a \<le> c \<and> c \<le> ch_f then Some (uint c - 87)
      else None)"

definition hex_val :: "u_char list \<Rightarrow> int" where
  "hex_val = foldl (\<lambda>v c. v * 16 + the (hex_digit c)) 0"

abbreviation is_hex :: "u_char \<Rightarrow> bool" where
  "is_hex c \<equiv> hex_digit c \<noteq> None"

definition hex_number :: "u_char list \<Rightarrow> int option" where
  "hex_number line =
     (if line \<noteq> [] \<and> list_all is_hex line \<and> hex_val line \<le> NGX_MAX_INT_T_VALUE
      then Some (hex_val line) else None)"

lemma hex_digit_range: "hex_digit c = Some d \<Longrightarrow> 0 \<le> d \<and> d \<le> 15"
  by (auto simp: hex_digit_def is_digit_uint byte_simps split: if_splits)

text \<open>The test of the code, \<open>c = ch | 0x20\<close> followed by a range check, is the digit test.\<close>

lemma hex_digit_code:
  "hex_digit ch =
     (if ch \<ge> ch_0 \<and> ch \<le> ch_9 then Some (uint ch - 48)
      else if ch OR 0x20 \<ge> ch_a \<and> ch OR 0x20 \<le> ch_f then Some (uint (ch OR 0x20) - 97 + 10)
      else None)"
proof -
  define n where "n = unat ch"
  have upper: "65 \<le> n \<Longrightarrow> n \<le> 70 \<Longrightarrow> n div 32 = 2" and lower: "97 \<le> n \<Longrightarrow> n \<le> 102 \<Longrightarrow> n div 32 = 3"
    by linarith+
  show ?thesis
    using upper lower
    by (cases "odd (n div 32)")
       (auto simp: hex_digit_def is_digit_def unat_u_char_le_iff uint_nat unat_or_0x20 simp flip: n_def)
qed

lemma foldl_hex_val:
  "foldl (\<lambda>v c. v * 16 + the (hex_digit c)) v xs = v * 16 ^ length xs + hex_val xs"
  by (induction xs rule: rev_induct) (simp_all add: hex_val_def algebra_simps)

lemma hex_val_Nil [simp]: "hex_val [] = 0"
  by (simp add: hex_val_def)

lemma hex_val_append: "hex_val (xs @ ys) = hex_val xs * 16 ^ length ys + hex_val ys"
  using foldl_hex_val [of "hex_val xs" ys] by (simp add: hex_val_def)

lemma hex_val_Cons: "hex_val (c # cs) = the (hex_digit c) * 16 ^ length cs + hex_val cs"
  using hex_val_append [of "[c]" cs] by (simp add: hex_val_def)

lemma hex_val_nonneg: "list_all is_hex xs \<Longrightarrow> 0 \<le> hex_val xs"
proof (induction xs)
  case (Cons c xs)
  then obtain d where "hex_digit c = Some d" by auto
  with Cons hex_digit_range [of c d] show ?case by (simp add: hex_val_Cons)
qed simp

lemma hextoi_loop_exact:
  assumes "0 \<le> v" "v \<le> NGX_MAX_INT_T_VALUE"
  shows "hextoi_loop 576460752303423487 v line =
     (if list_all is_hex line \<and> v * 16 ^ length line + hex_val line \<le> NGX_MAX_INT_T_VALUE
      then v * 16 ^ length line + hex_val line else NGX_ERROR)"
  using assms
proof (induction line arbitrary: v)
  case (Cons c line)
  show ?case
  proof (cases "v > 576460752303423487")
    case True
    have "list_all is_hex (c # line) \<Longrightarrow>
        \<not> v * 16 ^ length (c # line) + hex_val (c # line) \<le> NGX_MAX_INT_T_VALUE"
    proof -
      assume hex: "list_all is_hex (c # line)"
      have "v * 16 * 1 \<le> v * 16 * 16 ^ length line"
        using Cons.prems by (intro mult_left_mono) auto
      with hex_val_nonneg [OF hex]
      have "v * 16 * 1 \<le> v * 16 * 16 ^ length line + hex_val (c # line)"
        by (intro add_increasing2)
      with True show ?thesis by (simp add: mult.assoc)
    qed
    with True show ?thesis by auto
  next
    case False
    show ?thesis
    proof (cases "hex_digit c")
      case None
      with False show ?thesis
        by (auto simp: hex_digit_code Let_def split: if_splits)
    next
      case (Some d)
      have "hextoi_loop 576460752303423487 v (c # line) =
          hextoi_loop 576460752303423487 (v * 16 + d) line"
        using False Cons.prems hex_digit_range [OF Some] Some
        by (auto simp: hex_digit_code Let_def split: if_splits)
      moreover have "v * 16 ^ length (c # line) + hex_val (c # line) =
          (v * 16 + d) * 16 ^ length line + hex_val line"
        using Some by (simp add: hex_val_Cons algebra_simps)
      ultimately show ?thesis
        using False Cons.prems hex_digit_range [OF Some] Some by (simp add: Cons.IH)
    qed
  qed
qed simp

lemma hextoi_exact: "ngx_hextoi line = or_error (hex_number line)"
  using hextoi_loop_exact [of 0 line] by (simp add: ngx_hextoi_def hex_number_def or_error_def)

text \<open>Dumped bytes read back as the big-endian number they spell.\<close>

definition be_val :: "u_char list \<Rightarrow> int" where
  "be_val = foldl (\<lambda>v c. v * 256 + uint c) 0"

lemma hex_tables:
  "map hex_digit hex_lower = map (\<lambda>n. Some (int n)) [0..<16]"
  "map hex_digit hex_upper = map (\<lambda>n. Some (int n)) [0..<16]"
  by (simp_all add: hex_lower_def hex_upper_def hex_digit_def is_digit_def upt_rec)

lemma length_hex_tables: "length hex_lower = 16" "length hex_upper = 16"
  by (simp_all add: hex_lower_def hex_upper_def)

lemma hex_lower_digits: "n < 16 \<Longrightarrow> hex_digit (hex_lower ! n) = Some (int n)"
  using arg_cong [OF hex_tables(1), of "\<lambda>xs. xs ! n"] by (simp add: length_hex_tables)

lemma hex_upper_digits: "n < 16 \<Longrightarrow> hex_digit (hex_upper ! n) = Some (int n)"
  using arg_cong [OF hex_tables(2), of "\<lambda>xs. xs ! n"] by (simp add: length_hex_tables)

lemma hex_dump_byte:
  fixes c :: u_char
  shows "hex_digit (hex_lower ! unat (drop_bit 4 c)) = Some (uint c div 16)"
  "hex_digit (hex_lower ! unat (c AND 0xf)) = Some (uint c mod 16)"
  by (simp_all only: unat_high_nibble unat_low_nibble hex_lower_digits high_nibble_less
      mod_less_divisor zero_less_numeral uint_nat zdiv_int zmod_int of_nat_numeral)

lemma length_hex_dump [simp]: "length (ngx_hex_dump src) = 2 * length src"
  by (induction src) auto

lemma hex_dump_append: "ngx_hex_dump (xs @ ys) = ngx_hex_dump xs @ ngx_hex_dump ys"
  by (induction xs) auto

lemma hex_dump_digits: "list_all is_hex (ngx_hex_dump src)"
  by (induction src) (simp_all add: hex_dump_byte)

lemma hex_val_dump: "hex_val (ngx_hex_dump src) = be_val src"
proof (induction src rule: rev_induct)
  case (snoc c src)
  have "hex_val (ngx_hex_dump [c]) = uint c"
    by (simp add: hex_val_def hex_dump_byte)
  with snoc show ?case
    by (simp add: hex_dump_append hex_val_append be_val_def)
qed (simp add: be_val_def)

subsection \<open>Printing: \<open>ngx_sprintf_num\<close>\<close>

text \<open>
  The \<open>do ... while\<close> loops write the digits from the right into \<open>temp\<close>; the model
  conses them onto the list of those already written. \<open>ui64\<close> is a natural number below
  \<open>2 ^ 64\<close>; the cast to \<open>uint32_t\<close> of the fast branch is written out.
\<close>

definition digit_char :: "nat \<Rightarrow> u_char" where
  "digit_char d = word_of_nat (d + 48)"

fun sprintf_dec :: "nat \<Rightarrow> u_char list \<Rightarrow> u_char list" where
  "sprintf_dec n p =
     (let p = digit_char (n mod 10) # p; n' = n div 10
      in if n' \<noteq> 0 then sprintf_dec n' p else p)"

fun sprintf_hex :: "u_char list \<Rightarrow> nat \<Rightarrow> u_char list \<Rightarrow> u_char list" where
  "sprintf_hex hex n p =
     (let p = hex ! (n mod 16) # p; n' = n div 16
      in if n' \<noteq> 0 then sprintf_hex hex n' p else p)"

declare sprintf_dec.simps [simp del] sprintf_hex.simps [simp del]

definition sprintf_temp :: "nat \<Rightarrow> nat \<Rightarrow> u_char list" where
  "sprintf_temp ui64 hexadecimal =
     (if hexadecimal = 0 then
        (if ui64 \<le> 0xffffffff then sprintf_dec (ui64 mod 0x100000000) []
         else sprintf_dec ui64 [])
      else if hexadecimal = 1 then sprintf_hex hex_lower ui64 []
      else sprintf_hex hex_upper ui64 [])"

text \<open>The padding loop \<open>while (len++ < width && buf < last)\<close>; \<open>room\<close> is \<open>last - buf\<close>.\<close>

function sprintf_pad :: "u_char \<Rightarrow> nat \<Rightarrow> nat \<Rightarrow> nat \<Rightarrow> u_char list" where
  "sprintf_pad zero len width room =
     (if len < width \<and> 0 < room then zero # sprintf_pad zero (Suc len) width (room - 1) else [])"
  by pat_completeness auto
termination
  by (relation "measure (\<lambda>(zero, len, width, room). width - len)") auto

declare sprintf_pad.simps [simp del]

text \<open>The bytes \<open>ngx_sprintf_num\<close> writes at \<open>buf\<close>.\<close>

definition ngx_sprintf_num :: "nat \<Rightarrow> nat \<Rightarrow> u_char \<Rightarrow> nat \<Rightarrow> nat \<Rightarrow> u_char list" where
  "ngx_sprintf_num room ui64 zero hexadecimal width =
     (let p = sprintf_temp ui64 hexadecimal;
          pad = sprintf_pad zero (length p) width room;
          left = room - length pad;
          len = (if length p > left then left else length p)
      in pad @ take len p)"

lemma sprintf_pad_replicate:
  "sprintf_pad zero len width room = replicate (min (width - len) room) zero"
proof (induction zero len width room rule: sprintf_pad.induct)
  case (1 zero len width room)
  show ?case
  proof (cases "len < width \<and> 0 < room")
    case True
    then have "min (width - len) room = Suc (min (width - Suc len) (room - 1))" by arith
    with 1 True show ?thesis by (simp add: sprintf_pad.simps [of zero len])
  next
    case False
    then show ?thesis by (auto simp: sprintf_pad.simps [of zero len])
  qed
qed

lemma sprintf_num_take:
  "ngx_sprintf_num room ui64 zero hexadecimal width =
     (let p = sprintf_temp ui64 hexadecimal
      in take room (replicate (width - length p) zero @ p))"
  by (auto simp: ngx_sprintf_num_def sprintf_pad_replicate Let_def min_def)

lemma sprintf_dec_acc: "sprintf_dec n p = sprintf_dec n [] @ p"
proof (induction n arbitrary: p rule: less_induct)
  case (less n)
  show ?case
  proof (cases "n div 10 = 0")
    case False
    then have "n div 10 < n" by simp
    from less [OF this, of "_ # p"] less [OF this, of "[_]"] False show ?thesis
      by (simp add: sprintf_dec.simps [of n] Let_def)
  qed (simp add: sprintf_dec.simps [of n])
qed

lemma sprintf_hex_acc: "sprintf_hex hex n p = sprintf_hex hex n [] @ p"
proof (induction n arbitrary: p rule: less_induct)
  case (less n)
  show ?case
  proof (cases "n div 16 = 0")
    case False
    then have "n div 16 < n" by simp
    from less [OF this, of "_ # p"] less [OF this, of "[_]"] False show ?thesis
      by (simp add: sprintf_hex.simps [of hex n] Let_def)
  qed (simp add: sprintf_hex.simps [of hex n])
qed

lemma sprintf_dec_unfold:
  "sprintf_dec n [] =
     (if n < 10 then [] else sprintf_dec (n div 10) []) @ [digit_char (n mod 10)]"
proof -
  have "n div 10 = 0 \<longleftrightarrow> n < 10" by auto
  then show ?thesis
    using sprintf_dec_acc [of "n div 10" "[digit_char (n mod 10)]"]
    by (simp add: sprintf_dec.simps [of n] Let_def)
qed

lemma sprintf_hex_unfold:
  "sprintf_hex hex n [] =
     (if n < 16 then [] else sprintf_hex hex (n div 16) []) @ [hex ! (n mod 16)]"
proof -
  have "n div 16 = 0 \<longleftrightarrow> n < 16" by auto
  then show ?thesis
    using sprintf_hex_acc [of hex "n div 16" "[hex ! (n mod 16)]"]
    by (simp add: sprintf_hex.simps [of hex n] Let_def)
qed

lemma uint_digit_char: "d < 10 \<Longrightarrow> uint (digit_char d) = int d + 48"
proof -
  assume "d < 10"
  then have "unat (word_of_nat (d + 48) :: u_char) = d + 48"
    by (simp only: unat_of_nat) simp
  then show "uint (digit_char d) = int d + 48" by (simp add: digit_char_def uint_nat)
qed

lemma is_digit_char: "d < 10 \<Longrightarrow> is_digit (digit_char d)"
  by (simp add: is_digit_uint uint_digit_char)

lemma sprintf_dec_val: "dec_val (sprintf_dec n []) = int n \<and> list_all is_digit (sprintf_dec n [])"
proof (induction n rule: less_induct)
  case (less n)
  show ?case
  proof (cases "n < 10")
    case True
    then show ?thesis
      by (simp add: sprintf_dec_unfold [of n] dec_val_Cons uint_digit_char is_digit_char)
  next
    case False
    have "n mod 10 < 10" by simp
    with False less [of "n div 10"] show ?thesis
      by (simp add: sprintf_dec_unfold [of n] uint_digit_char is_digit_char zdiv_int zmod_int)
  qed
qed

lemma sprintf_hex_val:
  assumes "\<And>d. d < 16 \<Longrightarrow> hex_digit (hex ! d) = Some (int d)"
  shows "hex_val (sprintf_hex hex n []) = int n \<and> list_all is_hex (sprintf_hex hex n [])"
proof (induction n rule: less_induct)
  case (less n)
  have hd: "hex_digit (hex ! (n mod 16)) = Some (int (n mod 16))" by (rule assms) simp
  show ?case
  proof (cases "n < 16")
    case True
    with hd show ?thesis
      by (simp add: sprintf_hex_unfold [of hex n] hex_val_Cons)
  next
    case False
    with less [of "n div 16"] hd show ?thesis
      by (simp add: sprintf_hex_unfold [of hex n] hex_val_append hex_val_Cons zdiv_int zmod_int)
  qed
qed

text \<open>\<open>temp\<close> has \<open>NGX_INT64_LEN\<close> = 20 usable bytes: enough for every 64-bit number.\<close>

lemma sprintf_dec_length: "n < 10 ^ k \<Longrightarrow> 0 < k \<Longrightarrow> length (sprintf_dec n []) \<le> k"
proof (induction k arbitrary: n)
  case (Suc k)
  show ?case
  proof (cases "n < 10")
    case True
    then show ?thesis by (simp add: sprintf_dec_unfold [of n])
  next
    case False
    have "n div 10 < 10 ^ k" using Suc.prems by (simp add: div_less_iff_less_mult mult.commute)
    moreover from False Suc.prems have "0 < k" by (cases k) auto
    ultimately have "length (sprintf_dec (n div 10) []) \<le> k" by (rule Suc.IH)
    with False show ?thesis by (simp add: sprintf_dec_unfold [of n])
  qed
qed simp

lemma sprintf_hex_length: "n < 16 ^ k \<Longrightarrow> 0 < k \<Longrightarrow> length (sprintf_hex hex n []) \<le> k"
proof (induction k arbitrary: n)
  case (Suc k)
  show ?case
  proof (cases "n < 16")
    case True
    then show ?thesis by (simp add: sprintf_hex_unfold [of hex n])
  next
    case False
    have "n div 16 < 16 ^ k" using Suc.prems by (simp add: div_less_iff_less_mult mult.commute)
    moreover from False Suc.prems have "0 < k" by (cases k) auto
    ultimately have "length (sprintf_hex hex (n div 16) []) \<le> k" by (rule Suc.IH)
    with False show ?thesis by (simp add: sprintf_hex_unfold [of hex n])
  qed
qed simp

lemma sprintf_temp_fits:
  assumes "ui64 < 2 ^ 64"
  shows "length (sprintf_temp ui64 hexadecimal) \<le> 20"
proof -
  have "length (sprintf_dec ui64 []) \<le> 20" "length (sprintf_dec (ui64 mod 0x100000000) []) \<le> 20"
    using assms by (intro sprintf_dec_length; simp)+
  moreover have "length (sprintf_hex hex ui64 []) \<le> 20" for hex
    using assms by (intro sprintf_hex_length) simp_all
  ultimately show ?thesis
    by (simp add: sprintf_temp_def)
qed

lemma dec_val_zeros [simp]: "dec_val (replicate n ch_0 @ xs) = dec_val xs"
proof -
  have "dec_val (replicate n ch_0) = 0"
    by (induction n) (simp_all add: dec_val_Cons)
  then show ?thesis by (simp add: dec_val_append)
qed

lemma hex_val_zeros [simp]: "hex_val (replicate n ch_0 @ xs) = hex_val xs"
proof -
  have "hex_val (replicate n ch_0) = 0"
    by (induction n) (simp_all add: hex_val_Cons hex_digit_def is_digit_def)
  then show ?thesis by (simp add: hex_val_append)
qed

lemma sprintf_temp_dec:
  assumes "ui64 < 2 ^ 64"
  shows "sprintf_temp ui64 0 = sprintf_dec ui64 []"
  using assms by (simp add: sprintf_temp_def)

lemma sprintf_temp_nonempty: "sprintf_temp ui64 h \<noteq> []"
  by (simp add: sprintf_temp_def sprintf_dec_unfold [of ui64] sprintf_dec_unfold [of "ui64 mod 0x100000000"]
      sprintf_hex_unfold [of _ ui64])

lemma sprintf_num_whole:
  assumes "ui64 < 2 ^ 64" "20 \<le> room" "width \<le> room"
  shows "ngx_sprintf_num room ui64 zero h width =
     replicate (width - length (sprintf_temp ui64 h)) zero @ sprintf_temp ui64 h"
  using assms sprintf_temp_fits [of ui64 h] by (simp add: sprintf_num_take Let_def)

subsection \<open>Properties\<close>

text \<open>\<open>ngx_atoi\<close>, and the copies of it for \<open>ssize_t\<close>, \<open>off_t\<close> and \<open>time_t\<close>, return the
  exact value of a non-empty string of decimal digits that fits the 64-bit type, and
  \<open>NGX_ERROR\<close> for every other input: the cutoff test rejects exactly the numbers that
  would overflow, although the arithmetic of the loop wraps around.\<close>

theorem ngx_atoi_correct:
  "ngx_atoi line = or_error (dec_number line) \<and> ngx_atosz line = or_error (dec_number line) \<and>
   ngx_atoof line = or_error (dec_number line) \<and> ngx_atotm line = or_error (dec_number line)"
  by (simp add: atoi_exact)

text \<open>\<open>ngx_atofp\<close> returns the value of a decimal fraction scaled by \<open>10 ^ point\<close>, exactly when
  the text has digits with at most one dot, at most \<open>point\<close> digits after it, and the
  scaled value fits; otherwise \<open>NGX_ERROR\<close>. A zero \<open>point\<close> is always an error.\<close>

theorem ngx_atofp_correct: "ngx_atofp line point = or_error (fixed_point line point)"
  by (rule atofp_exact)

text \<open>Hexadecimal text: \<open>ngx_hextoi\<close> accepts digits of either case, returns the exact value when
  it fits and \<open>NGX_ERROR\<close> otherwise, and reading back what \<open>ngx_hex_dump\<close> wrote
  gives the big-endian value of the dumped bytes.\<close>

theorem ngx_hextoi_correct:
  "ngx_hextoi line = or_error (hex_number line) \<and>
   ngx_hextoi (ngx_hex_dump src) =
     (if src \<noteq> [] \<and> be_val src \<le> NGX_MAX_INT_T_VALUE then be_val src else NGX_ERROR)"
proof -
  have "ngx_hex_dump src = [] \<longleftrightarrow> src = []" by (cases src) auto
  then show ?thesis
    using hex_dump_digits [of src]
    by (simp add: hextoi_exact hex_number_def or_error_def hex_val_dump)
qed

text \<open>What \<open>ngx_sprintf_num\<close> prints reads back: a number that fits a signed 64-bit integer,
  printed in decimal or hexadecimal with any zero padding into enough room, is returned
  unchanged by \<open>ngx_atoi\<close> and \<open>ngx_hextoi\<close>; the conversion fills at most 20 bytes
  of its local buffer.\<close>

theorem sprintf_num_round_trip:
  assumes "int ui64 \<le> NGX_MAX_INT_T_VALUE" "20 \<le> room" "width \<le> room"
  shows "ngx_atoi (ngx_sprintf_num room ui64 ch_0 0 width) = int ui64 \<and>
    ngx_hextoi (ngx_sprintf_num room ui64 ch_0 1 width) = int ui64 \<and>
    ngx_hextoi (ngx_sprintf_num room ui64 ch_0 2 width) = int ui64 \<and>
    length (sprintf_temp ui64 h) \<le> 20"
proof -
  have n: "ui64 < 2 ^ 64" using assms(1) by simp
  have zeros: "list_all is_digit (replicate k ch_0)" "list_all is_hex (replicate k ch_0)" for k
    by (induction k) (simp_all add: is_digit_def hex_digit_def)
  have dec: "ngx_atoi (replicate k ch_0 @ sprintf_temp ui64 0) = int ui64" for k
    using sprintf_dec_val [of ui64] assms(1) zeros sprintf_temp_nonempty [of ui64 0]
    by (simp add: atoi_exact dec_number_def or_error_def sprintf_temp_dec [OF n])
  have hex: "ngx_hextoi (replicate k ch_0 @ sprintf_temp ui64 1) = int ui64"
    "ngx_hextoi (replicate k ch_0 @ sprintf_temp ui64 2) = int ui64" for k
    using sprintf_hex_val [OF hex_lower_digits, of ui64] sprintf_hex_val [OF hex_upper_digits, of ui64]
      assms(1) zeros sprintf_temp_nonempty [of ui64 1] sprintf_temp_nonempty [of ui64 2]
    by (simp_all add: hextoi_exact hex_number_def or_error_def sprintf_temp_def)
  show ?thesis
    using dec hex sprintf_temp_fits [OF n] by (simp add: sprintf_num_whole [OF n assms(2,3)])
qed

theorem sprintf_num_round_trip_witness:
  "ngx_atoi (ngx_sprintf_num 32 65535 ch_0 0 8) = 65535 \<and>
   ngx_hextoi (ngx_sprintf_num 32 65535 ch_0 1 8) = 65535"
  using sprintf_num_round_trip [of 65535 32 8] by simp

end
