(* ===== verification/Limit_Req.thy ===== *)
theory Limit_Req
  imports Zone_Tree Queue Str_Num
begin

section \<open>Limiting the rate of requests\<close>

text \<open>
  \<open>src/http/modules/ngx_http_limit_req_module.c\<close>: a shared memory zone keeps for each key a leaky bucket, whose
  content in thousandths of a request is the \<open>excess\<close> at the time \<open>last\<close>. The nodes are in a red-black
  tree, ordered by the checksum of the key and then the key itself, and in a queue, the one looked up last
  at its head, from whose other end old nodes are given up. A request that several limits apply to
  looks up all of them and adds to the buckets afterwards; in between it keeps a reference to each node,
  counted in the node, in the context of the zone. What a process does between taking and releasing the
  mutex of a zone is one definition and one step.

  Addresses of nodes are those of their \<open>ngx_rbtree_node_t\<close>; the fields of
  \<open>ngx_http_limit_req_node_t\<close>, which overlay it from \<open>color\<close> on, are kept in functions of that address, which
  also stands for that of the link \<open>queue\<close> in the node. Messages to the log are left out.
\<close>

subsection \<open>The code\<close>

record 'p req_zone =
  lr_sentinel :: addr
  lr_tree :: rbtree
  lr_queue :: addr
  lr_links :: queue_mem
  lr_data :: "addr \<Rightarrow> 8 word list"
  lr_last :: "addr \<Rightarrow> 64 word"
  lr_excess :: "addr \<Rightarrow> 64 word"
  lr_count :: "addr \<Rightarrow> 64 word"
  lr_pool :: 'p

definition ngx_http_limit_req_rbtree_insert_value ::
  "(addr \<Rightarrow> 8 word list) \<Rightarrow> addr \<Rightarrow> addr \<Rightarrow> addr \<Rightarrow> rbtree \<Rightarrow> rbtree option"
where
  "ngx_http_limit_req_rbtree_insert_value data = rb_insert_by (data_less data)"

text \<open>\<open>excess - ctx->rate * ngx_abs(ms) / 1000\<close> in unsigned arithmetic, \<open>ms\<close> being the signed difference of the times.\<close>

definition leak :: "64 word \<Rightarrow> 64 word \<Rightarrow> 64 word \<Rightarrow> 64 word \<Rightarrow> 64 word" where
  "leak now rate excess prev = excess - rate * of_int (ngx_abs (sint (now - prev))) div 1000"

function ngx_http_limit_req_expire :: "'p slab_free \<Rightarrow> 64 word \<Rightarrow> 64 word \<Rightarrow> nat \<Rightarrow> 'p req_zone \<Rightarrow> 'p req_zone option" where
  "ngx_http_limit_req_expire free now rate n z =
     (if n < 3 then do {
        empty \<leftarrow> ngx_queue_empty (lr_queue z) (lr_links z);
        if empty then Some z
        else do {
          q \<leftarrow> ngx_queue_last (lr_queue z) (lr_links z);
          if lr_count z q \<noteq> 0 then Some z
          else if n \<noteq> 0 \<and> ngx_abs (sint (now - lr_last z q)) < 60000 then Some z
          else if n \<noteq> 0 \<and> sint (leak now rate (lr_excess z q) (lr_last z q)) > 0 then Some z
          else do {
            m \<leftarrow> ngx_queue_remove q (lr_links z);
            t \<leftarrow> ngx_rbtree_delete (lr_sentinel z) q (lr_tree z);
            ngx_http_limit_req_expire free now rate (Suc n)
              (z\<lparr>lr_links := m, lr_tree := t, lr_pool := free q (lr_pool z)\<rparr>)
          }
        }
      } else Some z)"
  by pat_completeness auto

termination by (relation "measure (\<lambda>(free, now, rate, n, z). 3 - n)") auto

declare ngx_http_limit_req_expire.simps [simp del]

text \<open>Making room for a node of a new key: old nodes are given up and memory is asked for once or twice.\<close>

definition make_room :: "'p slab_alloc \<Rightarrow> 'p slab_free \<Rightarrow> 64 word \<Rightarrow> 64 word \<Rightarrow> nat \<Rightarrow> 'p req_zone \<Rightarrow>
  (addr option \<times> 'p req_zone) option"
where
  "make_room alloc free now rate n z = do {
     z \<leftarrow> ngx_http_limit_req_expire free now rate 1 z;
     case alloc n (lr_pool z) of
       (Some node, p) \<Rightarrow> Some (Some node, z\<lparr>lr_pool := p\<rparr>)
     | (None, p) \<Rightarrow> do {
         z \<leftarrow> ngx_http_limit_req_expire free now rate 0 (z\<lparr>lr_pool := p\<rparr>);
         let (node, p) = alloc n (lr_pool z);
         Some (node, z\<lparr>lr_pool := p\<rparr>)
       }
   }"

text \<open>
  The lookup: the return code, what is stored through \<open>ep\<close>, the node stored in the context if one is, and
  the zone. The size of a node is that of the two structures up to their last member, 32 and 48 bytes,
  and the key.
\<close>

definition ngx_http_limit_req_lookup ::
  "'p slab_alloc \<Rightarrow> 'p slab_free \<Rightarrow> 64 word \<Rightarrow> 64 word \<Rightarrow> 64 word \<Rightarrow> 32 word \<Rightarrow> 8 word list \<Rightarrow> bool \<Rightarrow>
   'p req_zone \<Rightarrow> (int \<times> 64 word \<times> addr option \<times> 'p req_zone) option"
where
  "ngx_http_limit_req_lookup alloc free now rate burst hash key account z = do {
     node \<leftarrow> rb_search (data_cmp (lr_data z) (ucast hash, key)) (lr_sentinel z) (rb_root (lr_tree z)) (lr_tree z);
     case node of
       Some lr \<Rightarrow> do {
         m \<leftarrow> ngx_queue_remove lr (lr_links z);
         m \<leftarrow> ngx_queue_insert_head (lr_queue z) lr m;
         let z = z\<lparr>lr_links := m\<rparr>;
         let excess = sint (leak now rate (lr_excess z lr) (lr_last z lr) + 1000);
         let excess = (if excess < 0 then 0 else excess);
         if of_int excess > burst then Some (NGX_BUSY, of_int excess, None, z)
         else if account
         then Some (NGX_OK, of_int excess, None,
           z\<lparr>lr_excess := (lr_excess z)(lr := of_int excess), lr_last := (lr_last z)(lr := now)\<rparr>)
         else Some (NGX_AGAIN, of_int excess, Some lr, z\<lparr>lr_count := (lr_count z)(lr := lr_count z lr + 1)\<rparr>)
       }
     | None \<Rightarrow> do {
         (node, z) \<leftarrow> make_room alloc free now rate (32 + 48 + length key) z;
         case node of
           None \<Rightarrow> Some (NGX_ERROR, 0, None, z)
         | Some node \<Rightarrow> do {
             t \<leftarrow> wr (\<lambda>n. n\<lparr>rb_key := ucast hash\<rparr>) node (lr_tree z);
             let len = unat (of_nat (length key) :: 16 word);
             let z = z\<lparr>lr_excess := (lr_excess z)(node := 0), lr_data := (lr_data z)(node := take len key)\<rparr>;
             t \<leftarrow> ngx_rbtree_insert (ngx_http_limit_req_rbtree_insert_value (lr_data z)) (lr_sentinel z) node t;
             m \<leftarrow> ngx_queue_insert_head (lr_queue z) node (lr_links z);
             let z = z\<lparr>lr_tree := t, lr_links := m\<rparr>;
             if account
             then Some (NGX_OK, 0, None, z\<lparr>lr_last := (lr_last z)(node := now), lr_count := (lr_count z)(node := 0)\<rparr>)
             else Some (NGX_AGAIN, 0, Some node,
               z\<lparr>lr_last := (lr_last z)(node := 0), lr_count := (lr_count z)(node := 1)\<rparr>)
           }
       }
   }"

text \<open>
  The limits of a location. \<open>rate i\<close> is \<open>ctx->rate\<close> of the zone \<open>i\<close>, and \<open>node i\<close> its \<open>ctx->node\<close>, in the process
  that runs the code.
\<close>

record req_limit =
  rl_zone :: nat
  rl_burst :: "64 word"
  rl_nodelay :: bool

record req_conf =
  rl_limits :: "req_limit list"
  rl_status_code :: int

definition account_section :: "64 word \<Rightarrow> 64 word \<Rightarrow> addr \<Rightarrow> 'p req_zone \<Rightarrow> int \<times> 'p req_zone" where
  "account_section now rate lr z =
     (let excess = sint (leak now rate (lr_excess z lr) (lr_last z lr) + 1000);
          excess = (if excess < 0 then 0 else excess)
      in (excess, z\<lparr>lr_last := (lr_last z)(lr := now), lr_excess := (lr_excess z)(lr := of_int excess),
                    lr_count := (lr_count z)(lr := lr_count z lr - 1)\<rparr>))"

text \<open>\<open>excess * 1000 / ctx->rate\<close>, unsigned; a rate of zero is a fault.\<close>

definition req_delay :: "int \<Rightarrow> 64 word \<Rightarrow> 64 word option" where
  "req_delay excess rate = (if rate = 0 then None else Some (of_int (excess * 1000) div rate))"

text \<open>The loop of \<open>ngx_http_limit_req_account\<close>, over the limits from the one before \<open>n\<close> down to the first.\<close>

fun account_loop ::
  "64 word \<Rightarrow> (nat \<Rightarrow> 64 word) \<Rightarrow> req_limit list \<Rightarrow> 64 word \<Rightarrow> (nat \<Rightarrow> addr option) \<Rightarrow> (nat \<Rightarrow> 'p req_zone) \<Rightarrow>
   (64 word \<times> (nat \<Rightarrow> addr option) \<times> (nat \<Rightarrow> 'p req_zone)) option"
where
  "account_loop now rate [] max_delay node zs = Some (max_delay, node, zs)"
| "account_loop now rate (l # ls) max_delay node zs =
     (case node (rl_zone l) of
        None \<Rightarrow> account_loop now rate ls max_delay node zs
      | Some lr \<Rightarrow>
          let (excess, z) = account_section now (rate (rl_zone l)) lr (zs (rl_zone l));
              zs = zs(rl_zone l := z); node = node(rl_zone l := None)
          in if rl_nodelay l then account_loop now rate ls max_delay node zs
             else do {
               delay \<leftarrow> req_delay excess (rate (rl_zone l));
               account_loop now rate ls (if delay > max_delay then delay else max_delay) node zs
             })"

definition ngx_http_limit_req_account ::
  "64 word \<Rightarrow> (nat \<Rightarrow> 64 word) \<Rightarrow> req_limit list \<Rightarrow> nat \<Rightarrow> 64 word \<Rightarrow> req_limit \<Rightarrow> (nat \<Rightarrow> addr option) \<Rightarrow>
   (nat \<Rightarrow> 'p req_zone) \<Rightarrow> (64 word \<times> (nat \<Rightarrow> addr option) \<times> (nat \<Rightarrow> 'p req_zone)) option"
where
  "ngx_http_limit_req_account now rate limits n ep limit node zs = do {
     let excess = sint ep;
     max_delay \<leftarrow> (if excess = 0 \<or> rl_nodelay limit then Some 0 else req_delay excess (rate (rl_zone limit)));
     account_loop now rate (rev (take n limits)) max_delay node zs
   }"

text \<open>
  The loop of the handler over the limits from \<open>n\<close> on: \<open>key i\<close> is the value of the key of zone \<open>i\<close> for the request,
  or none if its evaluation fails, and then the handler returns; otherwise \<open>rc\<close>, \<open>n\<close>, \<open>excess\<close> and \<open>limit\<close>
  after the loop.
\<close>

fun limit_req_loop ::
  "'p slab_alloc \<Rightarrow> 'p slab_free \<Rightarrow> 64 word \<Rightarrow> (nat \<Rightarrow> 64 word) \<Rightarrow> (nat \<Rightarrow> 8 word list option) \<Rightarrow> req_limit list \<Rightarrow>
   nat \<Rightarrow> int \<Rightarrow> 64 word \<Rightarrow> req_limit option \<Rightarrow> (nat \<Rightarrow> addr option) \<Rightarrow> (nat \<Rightarrow> 'p req_zone) \<Rightarrow>
   ((int \<times> nat \<times> 64 word \<times> req_limit option) option \<times> (nat \<Rightarrow> addr option) \<times> (nat \<Rightarrow> 'p req_zone)) option"
where
  "limit_req_loop alloc free now rate key [] n rc excess limit node zs = Some (Some (rc, n, excess, limit), node, zs)"
| "limit_req_loop alloc free now rate key (l # ls) n rc excess limit node zs =
     (case key (rl_zone l) of
        None \<Rightarrow> Some (None, node, zs)
      | Some k \<Rightarrow>
          if length k = 0 then limit_req_loop alloc free now rate key ls (Suc n) rc excess (Some l) node zs
          else if length k > 65535 then limit_req_loop alloc free now rate key ls (Suc n) rc excess (Some l) node zs
          else do {
            (rc, excess, lr, z) \<leftarrow> ngx_http_limit_req_lookup alloc free now (rate (rl_zone l)) (rl_burst l)
              (ngx_crc32_short k) k (ls = []) (zs (rl_zone l));
            let zs = zs(rl_zone l := z);
            let node = (case lr of None \<Rightarrow> node | Some a \<Rightarrow> node(rl_zone l := Some a));
            if rc \<noteq> NGX_AGAIN then Some (Some (rc, n, excess, Some l), node, zs)
            else limit_req_loop alloc free now rate key ls (Suc n) rc excess (Some l) node zs
          })"

text \<open>The loop of the handler that drops the references, again from the limit before \<open>n\<close> down.\<close>

definition drop_section :: "addr \<Rightarrow> 'p req_zone \<Rightarrow> 'p req_zone" where
  "drop_section lr z = z\<lparr>lr_count := (lr_count z)(lr := lr_count z lr - 1)\<rparr>"

fun limit_req_undo ::
  "req_limit list \<Rightarrow> (nat \<Rightarrow> addr option) \<Rightarrow> (nat \<Rightarrow> 'p req_zone) \<Rightarrow> (nat \<Rightarrow> addr option) \<times> (nat \<Rightarrow> 'p req_zone)"
where
  "limit_req_undo [] node zs = (node, zs)"
| "limit_req_undo (l # ls) node zs =
     (case node (rl_zone l) of
        None \<Rightarrow> limit_req_undo ls node zs
      | Some lr \<Rightarrow> limit_req_undo ls (node(rl_zone l := None)) (zs(rl_zone l := drop_section lr (zs (rl_zone l)))))"

text \<open>
  The handler: \<open>read_ok\<close> says whether \<open>ngx_handle_read_event\<close> succeeds. The result is the return code,
  \<open>limit_req_set\<close>, the delay of the timer if it is set, and the nodes of the contexts and the zones.
\<close>

type_synonym 'p req_result = "int \<times> bool \<times> 64 word option \<times> (nat \<Rightarrow> addr option) \<times> (nat \<Rightarrow> 'p req_zone)"

definition ngx_http_limit_req_handler ::
  "'p slab_alloc \<Rightarrow> 'p slab_free \<Rightarrow> 64 word \<Rightarrow> (nat \<Rightarrow> 64 word) \<Rightarrow> (nat \<Rightarrow> 8 word list option) \<Rightarrow> bool \<Rightarrow> req_conf \<Rightarrow>
   bool \<Rightarrow> (nat \<Rightarrow> addr option) \<Rightarrow> (nat \<Rightarrow> 'p req_zone) \<Rightarrow> 'p req_result option"
where
  "ngx_http_limit_req_handler alloc free now rate key read_ok conf limit_req_set node zs =
     (if limit_req_set then Some (NGX_DECLINED, limit_req_set, None, node, zs)
      else do {
        (res, node, zs) \<leftarrow> limit_req_loop alloc free now rate key (rl_limits conf) 0 NGX_DECLINED 0 None node zs;
        case res of
          None \<Rightarrow> Some (NGX_HTTP_INTERNAL_SERVER_ERROR, limit_req_set, None, node, zs)
        | Some (rc, n, excess, limit) \<Rightarrow>
            if rc = NGX_DECLINED then Some (NGX_DECLINED, limit_req_set, None, node, zs)
            else if rc = NGX_BUSY \<or> rc = NGX_ERROR
            then let (node, zs) = limit_req_undo (rev (take n (rl_limits conf))) node zs
                 in Some (rl_status_code conf, True, None, node, zs)
            else do {
              let excess = (if rc = NGX_AGAIN then 0 else excess);
              limit \<leftarrow> limit;
              (delay, node, zs) \<leftarrow> ngx_http_limit_req_account now rate (rl_limits conf) n excess limit node zs;
              if delay = 0 then Some (NGX_DECLINED, True, None, node, zs)
              else if \<not> read_ok then Some (NGX_HTTP_INTERNAL_SERVER_ERROR, True, None, node, zs)
              else Some (NGX_AGAIN, True, Some delay, node, zs)
            }
      })"

text \<open>
  The rate of a zone, from a parameter of the directive \<open>limit_req_zone\<close> that starts with \<open>rate=\<close>, or none if it is
  refused. The product is that of \<open>ngx_int_t\<close>; the quotient of C is rounded to zero.
\<close>

definition limit_req_zone_rate :: "u_char list \<Rightarrow> 64 word option" where
  "limit_req_zone_rate v =
     (let p = take 3 (drop (length v - 3) v);
          (scale, len) = (if p = bytes ''r/s'' then (1, length v - 3) else if p = bytes ''r/m'' then (60, length v - 3) else (1, length v));
          rate = ngx_atoi (take (len - 5) (drop 5 v))
      in if rate \<le> 0 then None
         else let r = s64 (rate * 1000) in Some (of_int (if r < 0 then - (- r div scale) else r div scale)))"

subsection \<open>Buckets\<close>

text \<open>
  What a zone is to its users: a list of buckets, the one looked up last first. \<open>req_ok used z as\<close> says that
  the zone has the nodes \<open>as\<close> in the order of its queue and the same nodes in its tree.
\<close>

record bucket =
  b_key :: "8 word list"
  b_excess :: "64 word"
  b_last :: "64 word"
  b_count :: "64 word"

definition bucket_at :: "'p req_zone \<Rightarrow> addr \<Rightarrow> bucket" where
  "bucket_at z a = \<lparr>b_key = lr_data z a, b_excess = lr_excess z a, b_last = lr_last z a, b_count = lr_count z a\<rparr>"

lemma bucket_at_simps [simp]:
  "b_key (bucket_at z a) = lr_data z a" "b_excess (bucket_at z a) = lr_excess z a"
  "b_last (bucket_at z a) = lr_last z a" "b_count (bucket_at z a) = lr_count z a"
  by (simp_all add: bucket_at_def)

abbreviation (input) req_tree :: "('p \<Rightarrow> addr set) \<Rightarrow> 'p req_zone \<Rightarrow> (64 word \<times> 8 word list \<rightharpoonup> addr) \<Rightarrow> bool" where
  "req_tree used z \<equiv> zone_tree used (lr_data z) (lr_sentinel z) (lr_tree z) (lr_pool z)"

definition req_ok :: "('p \<Rightarrow> addr set) \<Rightarrow> 'p req_zone \<Rightarrow> addr list \<Rightarrow> bool" where
  "req_ok used z as \<longleftrightarrow> (\<exists>D. req_tree used z D \<and> ran D = set as) \<and> queue (lr_links z) (lr_queue z) as \<and>
     (\<forall>a. lr_links z a \<noteq> None) \<and> lr_queue z \<in> used (lr_pool z)"

definition level :: "64 word \<Rightarrow> 64 word \<Rightarrow> bucket \<Rightarrow> int" where
  "level now rate b = max 0 (sint (leak now rate (b_excess b) (b_last b) + 1000))"

definition stale :: "64 word \<Rightarrow> 64 word \<Rightarrow> bucket \<Rightarrow> bool" where
  "stale now rate b \<longleftrightarrow> 60000 \<le> ngx_abs (sint (now - b_last b)) \<and> sint (leak now rate (b_excess b) (b_last b)) \<le> 0"

text \<open>What \<open>ngx_http_limit_req_expire\<close> gives up, of the buckets with the oldest first, and what it leaves.\<close>

fun expired :: "64 word \<Rightarrow> 64 word \<Rightarrow> nat \<Rightarrow> bucket list \<Rightarrow> nat" where
  "expired now rate n [] = 0"
| "expired now rate n (b # bs) =
     (if n < 3 \<and> b_count b = 0 \<and> (n = 0 \<or> stale now rate b) then Suc (expired now rate (Suc n) bs) else 0)"

definition left :: "64 word \<Rightarrow> 64 word \<Rightarrow> nat \<Rightarrow> bucket list \<Rightarrow> nat" where
  "left now rate n bs = length bs - expired now rate n (rev bs)"

lemma distinct_queue: "queue m h xs \<Longrightarrow> distinct (h # xs)"
  by (simp add: queue_def)

lemma off_none: "off A m m' \<Longrightarrow> (\<And>a. a \<in> A \<Longrightarrow> m' a \<noteq> None) \<Longrightarrow> \<forall>a. m a \<noteq> None \<Longrightarrow> \<forall>a. m' a \<noteq> None"
  unfolding off_def by metis

lemma insert_head_is_after: "ngx_queue_insert_head = ngx_queue_insert_after"
  by (intro ext) simp

lemma req_expire_ok:
  assumes "slab_laws used alloc free" "req_ok used z as"
  shows "\<exists>m t p. ngx_http_limit_req_expire free now rate n z = Some (z\<lparr>lr_links := m, lr_tree := t, lr_pool := p\<rparr>) \<and>
    req_ok used (z\<lparr>lr_links := m, lr_tree := t, lr_pool := p\<rparr>) (take (left now rate n (map (bucket_at z) as)) as)"
  using assms(2)
proof (induction as arbitrary: n z rule: rev_induct)
  case Nil
  then have "ngx_queue_empty (lr_queue z) (lr_links z) = Some True" using queue_empty_iff [of "lr_links z" "lr_queue z" "[]"] by (simp add: req_ok_def)
  then have "ngx_http_limit_req_expire free now rate n z = Some z" by (subst ngx_http_limit_req_expire.simps) simp
  then show ?case using Nil by (intro exI [of _ "lr_links z"] exI [of _ "lr_tree z"] exI [of _ "lr_pool z"]) simp
next
  case (snoc q as)
  obtain D where D: "req_tree used z D" "ran D = set (as @ [q])" and m: "queue (lr_links z) (lr_queue z) (as @ [q])"
    "\<forall>a. lr_links z a \<noteq> None" "lr_queue z \<in> used (lr_pool z)"
    using snoc.prems by (auto simp: req_ok_def)
  have ends: "ngx_queue_empty (lr_queue z) (lr_links z) = Some False" "ngx_queue_last (lr_queue z) (lr_links z) = Some q"
    using queue_empty_iff [OF m(1)] queue_head_last(2) [OF m(1)] by simp_all
  let ?go = "n < 3 \<and> lr_count z q = 0 \<and> (n = 0 \<or> stale now rate (bucket_at z q))"
  show ?case
  proof (cases ?go)
    case False
    then have "ngx_http_limit_req_expire free now rate n z = Some z"
      using ends by (subst ngx_http_limit_req_expire.simps) (auto simp: stale_def)
    moreover have "left now rate n (map (bucket_at z) (as @ [q])) = length (as @ [q])" using False by (auto simp: left_def)
    ultimately show ?thesis using snoc.prems
      by (intro exI [of _ "lr_links z"] exI [of _ "lr_tree z"] exI [of _ "lr_pool z"]) simp
  next
    case True
    have "q \<in> ran D" using D(2) by simp
    then obtain key where key: "D key = Some q" by (auto simp: ran_def)
    obtain t where t: "ngx_rbtree_delete (lr_sentinel z) q (lr_tree z) = Some t"
      "zone_tree used (lr_data z) (lr_sentinel z) t (free q (lr_pool z)) (D(key := None))" "ran (D(key := None)) = ran D - {q}"
      using zone_tree_drop [OF D(1) key assms(1)] by blast
    obtain m' where m': "ngx_queue_remove q (lr_links z) = Some m'" "queue m' (lr_queue z) as" "off (set (lr_queue z # as)) (lr_links z) m'"
      using remove_queue [of "lr_links z" "lr_queue z" as q "[]"] m(1) by auto
    let ?z = "z\<lparr>lr_links := m', lr_tree := t, lr_pool := free q (lr_pool z)\<rparr>"
    have "set as = ran (D(key := None))" "lr_queue z \<noteq> q" using t(3) D(2) distinct_queue [OF m(1)] by auto
    moreover have "\<forall>a. m' a \<noteq> None" using m'(3) queue_nodes [OF m'(2)] m(2) by (rule off_none) 
    moreover have "used (free q (lr_pool z)) = used (lr_pool z) - {q}" using assms(1) by (simp add: slab_laws_def)
    ultimately have "req_ok used ?z as" unfolding req_ok_def using t(2) m'(2) m(3) by auto
    from snoc.IH [OF this, of "Suc n"] obtain m2 t2 p2 where
      r: "ngx_http_limit_req_expire free now rate (Suc n) ?z = Some (z\<lparr>lr_links := m2, lr_tree := t2, lr_pool := p2\<rparr>)"
        "req_ok used (z\<lparr>lr_links := m2, lr_tree := t2, lr_pool := p2\<rparr>) (take (left now rate (Suc n) (map (bucket_at ?z) as)) as)"
      by auto
    have "bucket_at ?z = bucket_at z" by (simp add: bucket_at_def fun_eq_iff)
    moreover have "ngx_http_limit_req_expire free now rate n z = ngx_http_limit_req_expire free now rate (Suc n) ?z"
      using ends True m'(1) t(1) by (subst ngx_http_limit_req_expire.simps) (auto simp: stale_def)
    moreover have "take (left now rate n (map (bucket_at z) (as @ [q]))) (as @ [q]) = take (left now rate (Suc n) (map (bucket_at z) as)) as"
      using True by (simp add: left_def)
    ultimately show ?thesis using r by (intro exI [of _ m2] exI [of _ t2] exI [of _ p2]) simp
  qed
qed


subsection \<open>The lookup\<close>

lemma req_search:
  assumes "req_ok used z as"
  shows "rb_search (data_cmp (lr_data z) (ucast (ngx_crc32_short k), k)) (lr_sentinel z) (rb_root (lr_tree z)) (lr_tree z) =
    Some (find (\<lambda>a. lr_data z a = k) as)"
proof -
  obtain D where D: "req_tree used z D" "ran D = set as" using assms by (auto simp: req_ok_def)
  have iff: "D (zone_key k) = Some a \<longleftrightarrow> a \<in> set as \<and> lr_data z a = k" for a
    using zone_tree_nodes(1,3) [OF D(1)] D(2) by (metis zone_key_simps(2))
  have "D (zone_key k) = find (\<lambda>a. lr_data z a = k) as"
  proof (cases "find (\<lambda>a. lr_data z a = k) as")
    case None
    then have "D (zone_key k) = None" using iff by (cases "D (zone_key k)") (auto simp: find_None_iff)
    then show ?thesis using None by simp
  next
    case (Some a)
    then have "a \<in> set as" "lr_data z a = k" by (auto simp: find_Some_iff)
    then show ?thesis using iff [of a] Some by simp
  qed
  then show ?thesis using zone_tree_search [OF D(1)] by simp
qed

lemma req_keys:
  assumes "req_ok used z as" "a \<in> set as" "b \<in> set as" "lr_data z a = lr_data z b"
  shows "a = b"
proof -
  obtain D where D: "req_tree used z D" "ran D = set as" using assms(1) by (auto simp: req_ok_def)
  then show ?thesis using zone_tree_nodes(3) [OF D(1), of a] zone_tree_nodes(3) [OF D(1), of b] assms(2-4) by simp
qed

lemma req_distinct: "req_ok used z as \<Longrightarrow> distinct (lr_queue z # as)"
  by (auto simp: req_ok_def dest: distinct_queue)

lemma insert_head_queue:
  assumes "queue m h xs" "x \<notin> set (h # xs)" "m x \<noteq> None"
  shows "\<exists>m'. ngx_queue_insert_head h x m = Some m' \<and> queue m' h (x # xs) \<and> off (set (h # x # xs)) m m'"
  using insert_after_queue [of m h "[]" xs x] assms by simp

text \<open>Another node moves to the head of the queue, when it is found.\<close>

lemma lookup_known:
  assumes "req_ok used z as" "a \<in> set as" "lr_data z a = k"
  shows "\<exists>m. req_ok used (z\<lparr>lr_links := m\<rparr>) (a # remove1 a as) \<and>
    ngx_http_limit_req_lookup alloc free now rate burst (ngx_crc32_short k) k account z =
      (let e = level now rate (bucket_at z a); z = z\<lparr>lr_links := m\<rparr>
       in Some (if of_int e > burst then (NGX_BUSY, of_int e, None, z)
          else if account then (NGX_OK, of_int e, None,
            z\<lparr>lr_excess := (lr_excess z)(a := of_int e), lr_last := (lr_last z)(a := now)\<rparr>)
          else (NGX_AGAIN, of_int e, Some a, z\<lparr>lr_count := (lr_count z)(a := lr_count z a + 1)\<rparr>)))"
proof -
  obtain D where D: "req_tree used z D" "ran D = set as" and m: "queue (lr_links z) (lr_queue z) as"
    "\<forall>a. lr_links z a \<noteq> None" "lr_queue z \<in> used (lr_pool z)"
    using assms(1) by (auto simp: req_ok_def)
  obtain us vs where as: "as = us @ a # vs" using assms(2) by (meson split_list)
  have dis: "distinct (lr_queue z # us @ a # vs)" using distinct_queue [OF m(1)] as by simp
  then have rem: "remove1 a as = us @ vs" by (auto simp: as remove1_append)
  obtain m1 where m1: "ngx_queue_remove a (lr_links z) = Some m1" "queue m1 (lr_queue z) (us @ vs)"
    "off (set (lr_queue z # us @ vs)) (lr_links z) m1"
    using remove_queue [of "lr_links z" "lr_queue z" us a vs] m(1) as by blast
  have m1n: "\<forall>a. m1 a \<noteq> None" by (rule off_none [OF m1(3) _ m(2)]) (rule queue_nodes [OF m1(2)])
  obtain m2 where m2: "ngx_queue_insert_head (lr_queue z) a m1 = Some m2" "queue m2 (lr_queue z) (a # us @ vs)"
    "off (set (lr_queue z # a # us @ vs)) m1 m2"
    using insert_head_queue [OF m1(2), of a] dis m1n by auto
  have "\<forall>a. m2 a \<noteq> None" by (rule off_none [OF m2(3) _ m1n]) (rule queue_nodes [OF m2(2)])
  then have ok: "req_ok used (z\<lparr>lr_links := m2\<rparr>) (a # remove1 a as)"
    unfolding req_ok_def rem using D m(3) m2(2) by (auto simp: as)
  have "find (\<lambda>b. lr_data z b = k) as = Some a"
  proof (cases "find (\<lambda>b. lr_data z b = k) as")
    case None
    then show ?thesis using assms(2,3) by (auto simp: find_None_iff)
  next
    case (Some b)
    then have "b \<in> set as" "lr_data z b = k" by (auto simp: find_Some_iff)
    then show ?thesis using req_keys [OF assms(1) _ assms(2)] assms(3) Some by simp
  qed
  then have "ngx_http_limit_req_lookup alloc free now rate burst (ngx_crc32_short k) k account z =
      (let e = level now rate (bucket_at z a); z = z\<lparr>lr_links := m2\<rparr>
       in Some (if of_int e > burst then (NGX_BUSY, of_int e, None, z)
          else if account then (NGX_OK, of_int e, None,
            z\<lparr>lr_excess := (lr_excess z)(a := of_int e), lr_last := (lr_last z)(a := now)\<rparr>)
          else (NGX_AGAIN, of_int e, Some a, z\<lparr>lr_count := (lr_count z)(a := lr_count z a + 1)\<rparr>)))"
    using req_search [OF assms(1), of k] m1(1) m2(1)
    by (simp add: ngx_http_limit_req_lookup_def level_def max_def Let_def)
  with ok show ?thesis by blast
qed


text \<open>The nodes that are left after both calls of \<open>ngx_http_limit_req_expire\<close>, or the first one only.\<close>

definition survivors :: "64 word \<Rightarrow> 64 word \<Rightarrow> bool \<Rightarrow> bucket list \<Rightarrow> bucket list" where
  "survivors now rate full bs =
     (let bs = take (left now rate 1 bs) bs in if full then take (left now rate 0 bs) bs else bs)"

lemma survivors_take: "\<exists>n. survivors now rate full bs = take n bs"
  by (auto simp: survivors_def Let_def)

lemma bucket_at_links [simp]:
  "bucket_at (z\<lparr>lr_links := m\<rparr>) = bucket_at z" "bucket_at (z\<lparr>lr_tree := t\<rparr>) = bucket_at z" "bucket_at (z\<lparr>lr_pool := p\<rparr>) = bucket_at z"
  by (simp_all add: bucket_at_def fun_eq_iff)

lemma req_ok_pool: "req_ok used z as \<Longrightarrow> used p = used (lr_pool z) \<Longrightarrow> req_ok used (z\<lparr>lr_pool := p\<rparr>) as"
  by (auto simp: req_ok_def intro: zone_tree_pool)

text \<open>
  Whether the lookup of a key finds no node for it and no memory for a new one at its first attempt, so
  that it goes on to give up a node that may still be in use.
\<close>

definition no_room :: "'p slab_alloc \<Rightarrow> 'p slab_free \<Rightarrow> 64 word \<Rightarrow> 64 word \<Rightarrow> nat \<Rightarrow> 'p req_zone \<Rightarrow> bool" where
  "no_room alloc free now rate n z \<longleftrightarrow>
     (case ngx_http_limit_req_expire free now rate 1 z of None \<Rightarrow> False | Some z \<Rightarrow> fst (alloc n (lr_pool z)) = None)"

definition short_of_memory :: "'p slab_alloc \<Rightarrow> 'p slab_free \<Rightarrow> 64 word \<Rightarrow> 64 word \<Rightarrow> 8 word list \<Rightarrow> 'p req_zone \<Rightarrow> bool" where
  "short_of_memory alloc free now rate k z \<longleftrightarrow>
     rb_search (data_cmp (lr_data z) (ucast (ngx_crc32_short k), k)) (lr_sentinel z) (rb_root (lr_tree z)) (lr_tree z) = Some None \<and>
     no_room alloc free now rate (32 + 48 + length k) z"

lemma make_room_ok:
  assumes "slab_laws used alloc free" "req_ok used z as"
  obtains node p t m p0 full where
    "make_room alloc free now rate n z = Some (node, z\<lparr>lr_links := m, lr_tree := t, lr_pool := p\<rparr>)"
    "req_ok used (z\<lparr>lr_links := m, lr_tree := t, lr_pool := p0\<rparr>) (take (length (survivors now rate full (map (bucket_at z) as))) as)"
    "alloc n p0 = (node, p)" "full \<longrightarrow> (\<exists>p1. fst (alloc n p1) = None)" "node = None \<longrightarrow> full"
    "full = no_room alloc free now rate n z"
proof -
  let ?n1 = "left now rate 1 (map (bucket_at z) as)"
  obtain m1 t1 p1 where e1: "ngx_http_limit_req_expire free now rate 1 z = Some (z\<lparr>lr_links := m1, lr_tree := t1, lr_pool := p1\<rparr>)"
    "req_ok used (z\<lparr>lr_links := m1, lr_tree := t1, lr_pool := p1\<rparr>) (take ?n1 as)"
    using req_expire_ok [OF assms] by blast
  obtain r p2 where a1: "alloc n p1 = (r, p2)" by (cases "alloc n p1")
  have len: "length (survivors now rate False (map (bucket_at z) as)) = min (length as) ?n1" by (simp add: survivors_def)
  show thesis
  proof (cases r)
    case (Some a)
    have "take (min (length as) ?n1) as = take ?n1 as" by (simp add: min_def)
    then show thesis
      using that [of r p2 t1 m1 p1 False] e1 a1 Some len by (simp add: make_room_def no_room_def)
  next
    case None
    then have "used p2 = used p1" using assms(1) a1 by (auto simp: slab_laws_def)
    then have ok: "req_ok used (z\<lparr>lr_links := m1, lr_tree := t1, lr_pool := p2\<rparr>) (take ?n1 as)"
      using req_ok_pool [OF e1(2), of p2] by simp
    let ?n2 = "left now rate 0 (map (bucket_at z) (take ?n1 as))"
    have "bucket_at (z\<lparr>lr_links := m1, lr_tree := t1, lr_pool := p2\<rparr>) = bucket_at z" by (simp add: bucket_at_def fun_eq_iff)
    with req_expire_ok [OF assms(1) ok, of now rate 0] obtain m3 t3 p3 where
      e2: "ngx_http_limit_req_expire free now rate 0 (z\<lparr>lr_links := m1, lr_tree := t1, lr_pool := p2\<rparr>) =
        Some (z\<lparr>lr_links := m3, lr_tree := t3, lr_pool := p3\<rparr>)"
      "req_ok used (z\<lparr>lr_links := m3, lr_tree := t3, lr_pool := p3\<rparr>) (take ?n2 (take ?n1 as))"
      by auto
    obtain r' p4 where a2: "alloc n p3 = (r', p4)" by (cases "alloc n p3")
    have same: "take (length (survivors now rate True (map (bucket_at z) as))) as = take ?n2 (take ?n1 as)"
      by (simp add: survivors_def Let_def take_map min_def)
    show thesis
    proof (rule that [of r' p4 t3 m3 p3 True])
      show "make_room alloc free now rate n z = Some (r', z\<lparr>lr_links := m3, lr_tree := t3, lr_pool := p4\<rparr>)"
        using e1(1) e2(1) a1 a2 None by (simp add: make_room_def)
      show "True \<longrightarrow> (\<exists>p1. fst (alloc n p1) = None)" using a1 None by (auto intro: exI [of _ p1])
      show "True = no_room alloc free now rate n z" using e1(1) a1 None by (simp add: no_room_def)
    qed (use a2 e2(2) same in simp_all)
  qed
qed


lemma store_ok:
  assumes "slab_laws used alloc free" "req_ok used (z\<lparr>lr_pool := p0\<rparr>) as" "k \<notin> lr_data z ` set as" "alloc n p0 = (Some a, lr_pool z)"
  obtains t1 t m where "wr (\<lambda>n. n\<lparr>rb_key := ucast (ngx_crc32_short k)\<rparr>) a (lr_tree z) = Some t1"
    "ngx_rbtree_insert (ngx_http_limit_req_rbtree_insert_value ((lr_data z)(a := k))) (lr_sentinel z) a t1 = Some t"
    "ngx_queue_insert_head (lr_queue z) a (lr_links z) = Some m"
    "req_ok used (z\<lparr>lr_data := (lr_data z)(a := k), lr_tree := t, lr_links := m\<rparr>) (a # as)" "a \<notin> set as"
proof -
  obtain D where D: "zone_tree used (lr_data z) (lr_sentinel z) (lr_tree z) p0 D" "ran D = set as"
    and m: "queue (lr_links z) (lr_queue z) as" "\<forall>a. lr_links z a \<noteq> None" "lr_queue z \<in> used p0"
    using assms(2) by (auto simp: req_ok_def)
  have none: "D (zone_key k) = None"
  proof (cases "D (zone_key k)")
    case (Some b)
    then have "b \<in> set as" "k = lr_data z b" using D(2) zone_tree_nodes(1) [OF D(1) Some] ranI [of D, OF Some] by simp_all
    then show ?thesis using assms(3) by blast
  qed
  obtain t1 t where t: "wr (\<lambda>n. n\<lparr>rb_key := ucast (ngx_crc32_short k)\<rparr>) a (lr_tree z) = Some t1"
    "ngx_rbtree_insert (ngx_http_limit_req_rbtree_insert_value ((lr_data z)(a := k))) (lr_sentinel z) a t1 = Some t"
    "zone_tree used ((lr_data z)(a := k)) (lr_sentinel z) t (lr_pool z) (D(zone_key k \<mapsto> a))" "a \<notin> insert (lr_sentinel z) (ran D)"
    "ran (D(zone_key k \<mapsto> a)) = insert a (ran D)"
    using zone_tree_store [OF D(1) none assms(1,4)] unfolding ngx_http_limit_req_rbtree_insert_value_def by blast
  have used: "a \<notin> used p0" "used (lr_pool z) = insert a (used p0)" using assms(1,4) by (auto simp: slab_laws_def)
  then have a: "a \<notin> set (lr_queue z # as)" using m(3) t(4) D(2) by auto
  obtain m' where m': "ngx_queue_insert_head (lr_queue z) a (lr_links z) = Some m'" "queue m' (lr_queue z) (a # as)"
    "off (set (lr_queue z # a # as)) (lr_links z) m'"
    using insert_head_queue [OF m(1) a] m(2) by blast
  have "\<forall>a. m' a \<noteq> None" by (rule off_none [OF m'(3) _ m(2)]) (rule queue_nodes [OF m'(2)])
  then have "req_ok used (z\<lparr>lr_data := (lr_data z)(a := k), lr_tree := t, lr_links := m'\<rparr>) (a # as)"
    unfolding req_ok_def using t(3,5) D(2) m'(2) m(3) used(2) by auto
  then show thesis using that t(1,2) m'(1) a by simp
qed


lemma lookup_new:
  assumes "slab_laws used alloc free" "req_ok used z as" "k \<notin> lr_data z ` set as" "length k < 65536"
  obtains (error) z' where
      "ngx_http_limit_req_lookup alloc free now rate burst (ngx_crc32_short k) k account z = Some (NGX_ERROR, 0, None, z')"
      "req_ok used z' (take (length (survivors now rate True (map (bucket_at z) as))) as)" "bucket_at z' = bucket_at z"
      "\<exists>p1. fst (alloc (80 + length k) p1) = None" "short_of_memory alloc free now rate k z"
  | (stored) a z' full where
      "ngx_http_limit_req_lookup alloc free now rate burst (ngx_crc32_short k) k account z =
         Some (if account then NGX_OK else NGX_AGAIN, 0, if account then None else Some a, z')"
      "req_ok used z' (a # take (length (survivors now rate full (map (bucket_at z) as))) as)"
      "bucket_at z' = (bucket_at z)(a := \<lparr>b_key = k, b_excess = 0, b_last = (if account then now else 0), b_count = (if account then 0 else 1)\<rparr>)"
      "full \<longrightarrow> (\<exists>p1. fst (alloc (80 + length k) p1) = None)" "full = short_of_memory alloc free now rate k z"
proof -
  let ?kept = "\<lambda>full. take (length (survivors now rate full (map (bucket_at z) as))) as"
  obtain node p t m p0 full where r: "make_room alloc free now rate (80 + length k) z = Some (node, z\<lparr>lr_links := m, lr_tree := t, lr_pool := p\<rparr>)"
    "req_ok used (z\<lparr>lr_links := m, lr_tree := t, lr_pool := p0\<rparr>) (?kept full)"
    "alloc (80 + length k) p0 = (node, p)" "full \<longrightarrow> (\<exists>p1. fst (alloc (80 + length k) p1) = None)" "node = None \<longrightarrow> full"
    "full = no_room alloc free now rate (80 + length k) z"
    by (rule make_room_ok [OF assms(1,2)])
  have find: "find (\<lambda>a. lr_data z a = k) as = None" using assms(3) by (auto simp: find_None_iff)
  note search = req_search [OF assms(2), of k, unfolded find]
  then have short: "full = short_of_memory alloc free now rate k z" using r(6) by (simp add: short_of_memory_def)
  let ?z = "z\<lparr>lr_links := m, lr_tree := t, lr_pool := p\<rparr>"
  show thesis
  proof (cases node)
    case None
    have "used p = used p0" using assms(1) r(3) None by (auto simp: slab_laws_def)
    then have "req_ok used ?z (?kept True)" using req_ok_pool [OF r(2), of p] r(5) None by simp
    moreover have "ngx_http_limit_req_lookup alloc free now rate burst (ngx_crc32_short k) k account z = Some (NGX_ERROR, 0, None, ?z)"
      using search r(1) None by (simp add: ngx_http_limit_req_lookup_def)
    moreover have "bucket_at ?z = bucket_at z" by (simp add: bucket_at_def fun_eq_iff)
    ultimately show thesis using error r(4,5) None short by blast
  next
    case (Some a)
    have new: "k \<notin> lr_data ?z ` set (?kept full)" using assms(3) set_take_subset by fastforce
    have "alloc (80 + length k) p0 = (Some a, lr_pool ?z)" "req_ok used (?z\<lparr>lr_pool := p0\<rparr>) (?kept full)" using r(2,3) Some by simp_all
    from store_ok [OF assms(1) this(2) new this(1)] obtain t1 t2 m2 where
      st: "wr (\<lambda>n. n\<lparr>rb_key := ucast (ngx_crc32_short k)\<rparr>) a (lr_tree ?z) = Some t1"
        "ngx_rbtree_insert (ngx_http_limit_req_rbtree_insert_value ((lr_data ?z)(a := k))) (lr_sentinel ?z) a t1 = Some t2"
        "ngx_queue_insert_head (lr_queue ?z) a (lr_links ?z) = Some m2"
        "req_ok used (?z\<lparr>lr_data := (lr_data ?z)(a := k), lr_tree := t2, lr_links := m2\<rparr>) (a # ?kept full)"
      by blast
    have len: "take (unat (of_nat (length k) :: 16 word)) k = k"
      using assms(4) by (simp add: unat_of_nat take_bit_nat_eq_self)
    let ?z' = "?z\<lparr>lr_excess := (lr_excess z)(a := 0), lr_data := (lr_data z)(a := k), lr_tree := t2, lr_links := m2,
      lr_last := (lr_last z)(a := if account then now else 0), lr_count := (lr_count z)(a := if account then 0 else 1)\<rparr>"
    have "ngx_http_limit_req_lookup alloc free now rate burst (ngx_crc32_short k) k account z =
         Some (if account then NGX_OK else NGX_AGAIN, 0, if account then None else Some a, ?z')"
      using search r(1) Some st(1-3) by (simp add: ngx_http_limit_req_lookup_def len Let_def del: One_nat_def)
    moreover have "req_ok used ?z' (a # ?kept full)" using st(4) by (simp add: req_ok_def)
    moreover have "bucket_at ?z' = (bucket_at z)(a := \<lparr>b_key = k, b_excess = 0, b_last = (if account then now else 0), b_count = (if account then 0 else 1)\<rparr>)"
      by (auto simp: bucket_at_def fun_eq_iff)
    ultimately show thesis using stored r(4) short by blast
  qed
qed

subsection \<open>The lookup on the list of buckets\<close>

text \<open>
  What the lookup is to do to the list. Two things are up to the allocator: \<open>full\<close> is whether the first request
  for memory fails, \<open>room\<close> whether there is memory in the end.
\<close>

definition bucket_lookup ::
  "64 word \<Rightarrow> 64 word \<Rightarrow> 64 word \<Rightarrow> 8 word list \<Rightarrow> bool \<Rightarrow> bool \<Rightarrow> bool \<Rightarrow> bucket list \<Rightarrow> int \<times> 64 word \<times> bucket list"
where
  "bucket_lookup now rate burst k account full room bs =
     (case find (\<lambda>b. b_key b = k) bs of
        Some b \<Rightarrow>
          let e = level now rate b; rest = filter (\<lambda>b. b_key b \<noteq> k) bs
          in if of_int e > burst then (NGX_BUSY, of_int e, b # rest)
             else if account then (NGX_OK, of_int e, b\<lparr>b_excess := of_int e, b_last := now\<rparr> # rest)
             else (NGX_AGAIN, of_int e, b\<lparr>b_count := b_count b + 1\<rparr> # rest)
      | None \<Rightarrow>
          let bs = survivors now rate full bs
          in if \<not> room then (NGX_ERROR, 0, bs)
             else if account then (NGX_OK, 0, \<lparr>b_key = k, b_excess = 0, b_last = now, b_count = 0\<rparr> # bs)
             else (NGX_AGAIN, 0, \<lparr>b_key = k, b_excess = 0, b_last = 0, b_count = 1\<rparr> # bs))"

lemma find_map_key: "find P (map f xs) = map_option f (find (P \<circ> f) xs)"
  by (induction xs) auto

lemma take_survivors: "map (bucket_at z) (take (length (survivors now rate full (map (bucket_at z) as))) as) =
    survivors now rate full (map (bucket_at z) as)"
  using survivors_take [of now rate full "map (bucket_at z) as"] by (auto simp: take_map min_def)

lemma req_ok_cong:
  "lr_links z' = lr_links z \<Longrightarrow> lr_queue z' = lr_queue z \<Longrightarrow> lr_data z' = lr_data z \<Longrightarrow> lr_sentinel z' = lr_sentinel z \<Longrightarrow>
   lr_tree z' = lr_tree z \<Longrightarrow> lr_pool z' = lr_pool z \<Longrightarrow> req_ok used z' as = req_ok used z as"
  by (simp add: req_ok_def)

lemma expired_unused: "b \<in> set (take (expired now rate n bs) bs) \<Longrightarrow> b_count b = 0 \<and> (0 < n \<longrightarrow> stale now rate b)"
  by (induction now rate n bs rule: expired.induct) (auto split: if_splits)

lemma left_rest:
  "b \<in> set (drop (left now rate n bs) bs) \<Longrightarrow> b_count b = 0 \<and> (0 < n \<longrightarrow> stale now rate b)"
proof -
  have "set (drop (left now rate n bs) bs) = set (take (expired now rate n (rev bs)) (rev bs))"
    by (simp add: left_def take_rev)
  then show "b \<in> set (drop (left now rate n bs) bs) \<Longrightarrow> b_count b = 0 \<and> (0 < n \<longrightarrow> stale now rate b)"
    using expired_unused [of b now rate n "rev bs"] by simp
qed

text \<open>Nodes that a request refers to survive.\<close>

lemma survivors_used:
  assumes "b \<in> set bs" "b_count b \<noteq> 0"
  shows "b \<in> set (survivors now rate full bs)"
proof -
  have keep: "b \<in> set (take (left now rate n bs) bs)" if "b \<in> set bs" for n bs
  proof -
    have "b \<in> set (take (left now rate n bs) bs @ drop (left now rate n bs) bs)" using that by simp
    then show ?thesis using left_rest [of b now rate n bs] assms(2) by (auto simp del: append_take_drop_id)
  qed
  have "b \<in> set (take (left now rate 0 (take (left now rate 1 bs) bs)) (take (left now rate 1 bs) bs))"
    by (intro keep assms(1))
  then show ?thesis using keep [OF assms(1)] unfolding survivors_def Let_def by (cases full) simp_all
qed

lemma known_buckets:
  assumes "req_ok used z as" "a \<in> set as" "lr_data z a = k"
  shows "find (\<lambda>b. b_key b = k) (map (bucket_at z) as) = Some (bucket_at z a)"
    "filter (\<lambda>b. b_key b \<noteq> k) (map (bucket_at z) as) = map (bucket_at z) (remove1 a as)"
proof -
  have iff: "lr_data z b = k \<longleftrightarrow> b = a" if "b \<in> set as" for b using req_keys [OF assms(1) that assms(2)] assms(3) by auto
  then have "find (\<lambda>b. lr_data z b = k) as = find (\<lambda>b. b = a) as" by (intro find_cong) auto
  then show "find (\<lambda>b. b_key b = k) (map (bucket_at z) as) = Some (bucket_at z a)"
  proof (cases "find (\<lambda>b. b = a) as")
    case None
    then show ?thesis using assms(2) by (auto simp: find_None_iff)
  next
    case (Some b)
    then have "b = a" by (auto simp: find_Some_iff)
    then show ?thesis using Some \<open>find (\<lambda>b. lr_data z b = k) as = find (\<lambda>b. b = a) as\<close> by (simp add: find_map_key comp_def)
  qed
  have "filter (\<lambda>b. lr_data z b \<noteq> k) as = filter (\<lambda>b. b \<noteq> a) as" using iff by (intro filter_cong) auto
  also have "\<dots> = remove1 a as" using req_distinct [OF assms(1)] by (auto simp: distinct_remove1_removeAll removeAll_filter_not_eq intro!: filter_cong)
  finally show "filter (\<lambda>b. b_key b \<noteq> k) (map (bucket_at z) as) = map (bucket_at z) (remove1 a as)"
    by (simp add: filter_map comp_def)
qed

text \<open>
  One lookup: the zone stays in order, and does to its list of buckets what \<open>bucket_lookup\<close> says; a node
  that the request is to refer to is the first one, and no node that one refers to is given up.
\<close>

definition lookup_refines ::
  "('p \<Rightarrow> addr set) \<Rightarrow> 'p slab_alloc \<Rightarrow> 'p slab_free \<Rightarrow> 64 word \<Rightarrow> 64 word \<Rightarrow> 64 word \<Rightarrow> 8 word list \<Rightarrow> bool \<Rightarrow> 'p req_zone \<Rightarrow>
   addr list \<Rightarrow> (int \<times> 64 word \<times> addr option \<times> 'p req_zone) option \<Rightarrow> bool"
where
  "lookup_refines used alloc free now rate burst k account z as res \<longleftrightarrow>
     (\<exists>rc ep lr z' as' full room. res = Some (rc, ep, lr, z') \<and> req_ok used z' as' \<and>
        bucket_lookup now rate burst k account full room (map (bucket_at z) as) = (rc, ep, map (bucket_at z') as') \<and>
        (full \<or> \<not> room \<longrightarrow> (\<exists>p. fst (alloc (80 + length k) p) = None)) \<and>
        (full \<longleftrightarrow> short_of_memory alloc free now rate k z) \<and> (\<not> room \<longrightarrow> full) \<and>
        (lr = None \<longleftrightarrow> rc \<noteq> NGX_AGAIN) \<and> (\<forall>a. lr = Some a \<longrightarrow> as' \<noteq> [] \<and> hd as' = a) \<and>
        (\<forall>a \<in> set as. lr_count z a \<noteq> 0 \<longrightarrow> a \<in> set as' \<and> lr_data z' a = lr_data z a) \<and>
        (\<forall>a \<in> set as'. lr_count z' a =
           (if a \<in> set as \<and> lr_data z' a = lr_data z a then lr_count z a else 0) + (if lr = Some a then 1 else 0)))"

lemma lookup_ok:
  assumes "slab_laws used alloc free" "req_ok used z as" "length k < 65536"
  shows "lookup_refines used alloc free now rate burst k account z as
    (ngx_http_limit_req_lookup alloc free now rate burst (ngx_crc32_short k) k account z)"
proof (cases "k \<in> lr_data z ` set as")
  case True
  then obtain a where a: "a \<in> set as" "lr_data z a = k" by blast
  obtain m where ok: "req_ok used (z\<lparr>lr_links := m\<rparr>) (a # remove1 a as)" and
    r: "ngx_http_limit_req_lookup alloc free now rate burst (ngx_crc32_short k) k account z =
      (let e = level now rate (bucket_at z a); z = z\<lparr>lr_links := m\<rparr>
       in Some (if of_int e > burst then (NGX_BUSY, of_int e, None, z)
          else if account then (NGX_OK, of_int e, None,
            z\<lparr>lr_excess := (lr_excess z)(a := of_int e), lr_last := (lr_last z)(a := now)\<rparr>)
          else (NGX_AGAIN, of_int e, Some a, z\<lparr>lr_count := (lr_count z)(a := lr_count z a + 1)\<rparr>)))"
    using lookup_known [OF assms(2) a] by blast
  note bs = known_buckets [OF assms(2) a]
  have "find (\<lambda>b. lr_data z b = k) as \<noteq> None" using a by (auto simp: find_None_iff)
  then have enough: "\<not> short_of_memory alloc free now rate k z" using req_search [OF assms(2), of k] by (simp add: short_of_memory_def)
  let ?e = "level now rate (bucket_at z a)"
  have "a \<notin> set (remove1 a as)" using req_distinct [OF assms(2)] by simp
  then have others: "map (bucket_at (z\<lparr>lr_links := m, lr_excess := (lr_excess z)(a := x), lr_last := (lr_last z)(a := y)\<rparr>)) (remove1 a as) = map (bucket_at z) (remove1 a as)"
    "map (bucket_at (z\<lparr>lr_links := m, lr_count := (lr_count z)(a := x)\<rparr>)) (remove1 a as) = map (bucket_at z) (remove1 a as)" for x y
    by (auto simp: bucket_at_def)
  have set: "set (a # remove1 a as) = set as" using a(1) req_distinct [OF assms(2)] by (auto simp: set_remove1_eq)
  then have sub: "b \<in> set (remove1 a as) \<Longrightarrow> b \<in> set as" for b by auto
  note apart = \<open>a \<notin> set (remove1 a as)\<close>
  consider "of_int ?e > burst" | "\<not> of_int ?e > burst" account | "\<not> of_int ?e > burst" "\<not> account" by blast
  then show ?thesis
  proof cases
    case 1
    then show ?thesis unfolding lookup_refines_def r Let_def using ok set bs a(1) sub apart enough
      by (intro exI [of _ "NGX_BUSY"] exI [of _ "of_int ?e"] exI [of _ None] exI [of _ "z\<lparr>lr_links := m\<rparr>"]
          exI [of _ "a # remove1 a as"] exI [of _ False] exI [of _ True]) (simp add: bucket_lookup_def Let_def)
  next
    case 2
    let ?z = "z\<lparr>lr_links := m, lr_excess := (lr_excess z)(a := of_int ?e), lr_last := (lr_last z)(a := now)\<rparr>"
    have "req_ok used ?z (a # remove1 a as)" using ok by (subst req_ok_cong [where z = "z\<lparr>lr_links := m\<rparr>"]) simp_all
    moreover have "bucket_at ?z a = (bucket_at z a)\<lparr>b_excess := of_int ?e, b_last := now\<rparr>" by (simp add: bucket_at_def)
    ultimately show ?thesis unfolding lookup_refines_def r Let_def using 2 set bs others a(1) sub enough
      by (intro exI [of _ "NGX_OK"] exI [of _ "of_int ?e"] exI [of _ None] exI [of _ ?z]
          exI [of _ "a # remove1 a as"] exI [of _ False] exI [of _ True]) (simp add: bucket_lookup_def Let_def)
  next
    case 3
    let ?z = "z\<lparr>lr_links := m, lr_count := (lr_count z)(a := lr_count z a + 1)\<rparr>"
    have "req_ok used ?z (a # remove1 a as)" using ok by (subst req_ok_cong [where z = "z\<lparr>lr_links := m\<rparr>"]) simp_all
    moreover have "bucket_at ?z a = (bucket_at z a)\<lparr>b_count := lr_count z a + 1\<rparr>" by (simp add: bucket_at_def)
    ultimately show ?thesis unfolding lookup_refines_def r Let_def using 3 set bs others a(1) sub apart enough
      by (intro exI [of _ "NGX_AGAIN"] exI [of _ "of_int ?e"] exI [of _ "Some a"] exI [of _ ?z]
          exI [of _ "a # remove1 a as"] exI [of _ False] exI [of _ True]) (simp add: bucket_lookup_def Let_def)
  qed
next
  case False
  let ?bs = "map (bucket_at z) as"
  let ?kept = "\<lambda>full. take (length (survivors now rate full ?bs)) as"
  have none: "find (\<lambda>b. b_key b = k) ?bs = None" using False by (auto simp: find_None_iff)
  have used: "a \<in> set (?kept full)" if "a \<in> set as" "lr_count z a \<noteq> 0" for a full
  proof -
    have "bucket_at z a \<in> set (map (bucket_at z) (?kept full))"
      unfolding take_survivors by (rule survivors_used) (use that in simp_all)
    then obtain b where "b \<in> set (?kept full)" "bucket_at z b = bucket_at z a" by auto
    moreover from this have "b = a"
      using req_keys [OF assms(2) _ that(1), of b] set_take_subset [of "length (survivors now rate full ?bs)" as]
      by (auto simp: bucket_at_def)
    ultimately show ?thesis by simp
  qed
  show ?thesis
  proof (rule lookup_new [OF assms(1,2) False assms(3), of now rate burst account])
    fix z'
    assume r: "ngx_http_limit_req_lookup alloc free now rate burst (ngx_crc32_short k) k account z = Some (NGX_ERROR, 0, None, z')"
      "req_ok used z' (?kept True)" "bucket_at z' = bucket_at z" "\<exists>p1. fst (alloc (80 + length k) p1) = None" "short_of_memory alloc free now rate k z"
    have data: "lr_data z' a = lr_data z a" for a using fun_cong [OF r(3), of a] by (simp add: bucket_at_def)
    have sub: "b \<in> set (?kept True) \<Longrightarrow> b \<in> set as" for b by (rule in_set_takeD)
    have same: "lr_count z' a = lr_count z a" for a using fun_cong [OF r(3), of a] by (simp add: bucket_at_def)
    show ?thesis unfolding lookup_refines_def r(1) using r(2,4,5) none used data same sub r(3)
      by (intro exI [of _ "NGX_ERROR"] exI [of _ 0] exI [of _ None] exI [of _ z']
          exI [of _ "?kept True"] exI [of _ True] exI [of _ False]) (simp add: bucket_lookup_def Let_def take_survivors)
  next
    fix a z' full
    let ?b = "\<lparr>b_key = k, b_excess = 0, b_last = (if account then now else 0), b_count = (if account then 0 else 1)\<rparr>"
    assume r: "ngx_http_limit_req_lookup alloc free now rate burst (ngx_crc32_short k) k account z =
         Some (if account then NGX_OK else NGX_AGAIN, 0, if account then None else Some a, z')"
      "req_ok used z' (a # ?kept full)" "bucket_at z' = (bucket_at z)(a := ?b)"
      "full \<longrightarrow> (\<exists>p1. fst (alloc (80 + length k) p1) = None)" "full = short_of_memory alloc free now rate k z"
    have a: "a \<notin> set (?kept full)" using req_distinct [OF r(2)] by simp
    then have same: "map (bucket_at z') (?kept full) = map (bucket_at z) (?kept full)" "bucket_at z' a = ?b" by (auto simp: r(3))
    have data: "lr_data z' b = lr_data z b" if "b \<noteq> a" for b using fun_cong [OF r(3), of b] that by (simp add: bucket_at_def)
    have keep: "b \<in> set (?kept full) \<and> lr_data z' b = lr_data z b" if "b \<in> set as" "lr_count z b \<noteq> 0" for b
      using used [OF that, of full] data [of b] a by auto
    have count: "lr_count z' b = (if b \<in> set as \<and> lr_data z' b = lr_data z b then lr_count z b else 0) +
        (if (if account then None else Some a) = Some b then 1 else 0)" if "b \<in> set (a # ?kept full)" for b
    proof (cases "b = a")
      case True
      have "lr_data z' a = k" "lr_count z' a = (if account then 0 else 1)"
        using fun_cong [OF r(3), of a] by (simp_all add: bucket_at_def)
      then show ?thesis using True False by auto
    next
      case neq: False
      then have "b \<in> set as" using that by (auto dest: in_set_takeD)
      moreover have "lr_count z' b = lr_count z b" using fun_cong [OF r(3), of b] neq by (simp add: bucket_at_def)
      ultimately show ?thesis using neq data [OF neq] by simp
    qed
    show ?thesis unfolding lookup_refines_def r(1) using r(2,4,5) none same keep count
      by (intro exI [of _ "if account then NGX_OK else NGX_AGAIN"] exI [of _ 0] exI [of _ "if account then None else Some a"] exI [of _ z']
          exI [of _ "a # ?kept full"] exI [of _ full] exI [of _ True]) (simp add: bucket_lookup_def Let_def take_survivors)
  qed
qed

subsection \<open>The rate\<close>

text \<open>
  The requests of a location with one limit: each event is the time and the key of a request, and what
  it does to the zone is the section of the handler with \<open>account\<close> set.
\<close>

fun req_run ::
  "'p slab_alloc \<Rightarrow> 'p slab_free \<Rightarrow> 64 word \<Rightarrow> 64 word \<Rightarrow> (64 word \<times> 8 word list) list \<Rightarrow> 'p req_zone \<Rightarrow>
   (int list \<times> 'p req_zone) option"
where
  "req_run alloc free rate burst [] z = Some ([], z)"
| "req_run alloc free rate burst ((now, k) # evs) z = do {
     (rc, ep, lr, z) \<leftarrow> ngx_http_limit_req_lookup alloc free now rate burst (ngx_crc32_short k) k True z;
     (rcs, z) \<leftarrow> req_run alloc free rate burst evs z;
     Some (rc # rcs, z)
   }"

definition admitted :: "8 word list \<Rightarrow> (64 word \<times> 8 word list) list \<Rightarrow> int list \<Rightarrow> nat" where
  "admitted k evs rcs = count_list (zip (map snd evs) rcs) (k, NGX_OK)"

text \<open>How many of these requests found the zone short of memory.\<close>

fun shortages ::
  "'p slab_alloc \<Rightarrow> 'p slab_free \<Rightarrow> 64 word \<Rightarrow> 64 word \<Rightarrow> (64 word \<times> 8 word list) list \<Rightarrow> 'p req_zone \<Rightarrow> nat"
where
  "shortages alloc free rate burst [] z = 0"
| "shortages alloc free rate burst ((now, k) # evs) z =
     (if short_of_memory alloc free now rate k z then 1 else 0) +
     (case ngx_http_limit_req_lookup alloc free now rate burst (ngx_crc32_short k) k True z of
        None \<Rightarrow> 0
      | Some (rc, ep, lr, z) \<Rightarrow> shortages alloc free rate burst evs z)"

text \<open>The same on the list of buckets; the flags say how each request fared with the allocator.\<close>

fun bucket_run :: "64 word \<Rightarrow> 64 word \<Rightarrow> (64 word \<times> 8 word list) list \<Rightarrow> (bool \<times> bool) list \<Rightarrow> bucket list \<Rightarrow> int list \<times> bucket list" where
  "bucket_run rate burst ((now, k) # evs) ((full, room) # fs) bs =
     (let (rc, ep, bs) = bucket_lookup now rate burst k True full room bs; (rcs, bs) = bucket_run rate burst evs fs bs
      in (rc # rcs, bs))"
| "bucket_run rate burst _ _ bs = ([], bs)"

definition flags_ok :: "(bool \<times> bool) list \<Rightarrow> bool" where
  "flags_ok fs \<longleftrightarrow> (\<forall>(full, room) \<in> set fs. room \<or> full)"

lemma req_run_buckets:
  assumes "slab_laws used alloc free" "req_ok used z as" "\<forall>(now, k) \<in> set evs. length k < 65536"
  shows "\<exists>fs rcs z' as'. length fs = length evs \<and> flags_ok fs \<and> count_list (map fst fs) True = shortages alloc free rate burst evs z \<and>
    bucket_run rate burst evs fs (map (bucket_at z) as) = (rcs, map (bucket_at z') as') \<and>
    req_run alloc free rate burst evs z = Some (rcs, z') \<and> req_ok used z' as'"
  using assms(2,3)
proof (induction evs arbitrary: z as)
  case Nil
  then show ?case by (intro exI [of _ "[]"] exI [of _ z] exI [of _ as]) (simp add: flags_ok_def)
next
  case (Cons ev evs)
  obtain now k where ev: "ev = (now, k)" by (cases ev)
  have "length k < 65536" using Cons.prems(2) ev by simp
  from lookup_ok [OF assms(1) Cons.prems(1) this, of now rate burst True] obtain rc ep lr z1 as1 full room where
    1: "ngx_http_limit_req_lookup alloc free now rate burst (ngx_crc32_short k) k True z = Some (rc, ep, lr, z1)" "req_ok used z1 as1"
      "bucket_lookup now rate burst k True full room (map (bucket_at z) as) = (rc, ep, map (bucket_at z1) as1)"
      "full \<longleftrightarrow> short_of_memory alloc free now rate k z" "\<not> room \<longrightarrow> full"
    unfolding lookup_refines_def by blast
  have "\<forall>(now, k) \<in> set evs. length k < 65536" using Cons.prems(2) by simp
  from Cons.IH [OF 1(2) this] obtain fs rcs z' as' where 2: "length fs = length evs" "flags_ok fs"
    "count_list (map fst fs) True = shortages alloc free rate burst evs z1"
    "bucket_run rate burst evs fs (map (bucket_at z1) as1) = (rcs, map (bucket_at z') as')"
    "req_run alloc free rate burst evs z1 = Some (rcs, z')" "req_ok used z' as'"
    by blast
  then show ?case using 1
    by (intro exI [of _ "(full, room) # fs"] exI [of _ "rc # rcs"] exI [of _ z'] exI [of _ as']) (auto simp: ev flags_ok_def)
qed

text \<open>The arithmetic of a bucket without wrap-around: \<open>now\<close> is not before \<open>last\<close> and the products fit.\<close>

definition sane :: "nat \<Rightarrow> nat \<Rightarrow> bucket \<Rightarrow> bool" where
  "sane rate now b \<longleftrightarrow> unat (b_last b) \<le> now \<and> unat (b_excess b) < 4611686018427387904 \<and> rate * now < 4611686018427387904 \<and>
     now < 4611686018427387904"

lemma leak_int:
  assumes "sane (unat rate) (unat now) b"
  shows "sint (now - b_last b) = int (unat now - unat (b_last b))"
    "sint (leak now rate (b_excess b) (b_last b)) = int (unat (b_excess b)) - int (unat rate * (unat now - unat (b_last b)) div 1000)"
    "sint (leak now rate (b_excess b) (b_last b) + 1000) =
      int (unat (b_excess b)) - int (unat rate * (unat now - unat (b_last b)) div 1000) + 1000"
proof -
  let ?ms = "unat now - unat (b_last b)"
  have le: "b_last b \<le> now" using assms by (simp add: sane_def word_le_nat_alt)
  have now: "unat now < 4611686018427387904" using assms by (simp add: sane_def)
  have sub: "unat (now - b_last b) = ?ms" using le by (simp add: unat_sub)
  show ms: "sint (now - b_last b) = int ?ms" using sint_small [of "now - b_last b"] sub now by simp
  have prod: "unat rate * ?ms < 4611686018427387904"
  proof -
    have "unat rate * ?ms \<le> unat rate * unat now" by (simp add: mult_le_mono2)
    moreover have "unat rate * unat now < 4611686018427387904" using assms by (simp add: sane_def)
    ultimately show ?thesis by (rule le_less_trans)
  qed
  have "ngx_abs (int ?ms) = int ?ms" by (simp add: ngx_abs_def)
  then have "rate * of_int (ngx_abs (sint (now - b_last b))) = of_nat (unat rate * ?ms)"
    unfolding ms by simp
  then have "unat (rate * of_int (ngx_abs (sint (now - b_last b)))) = unat rate * ?ms"
    using prod by (simp only: unat_of_nat take_bit_nat_eq_self) (simp add: take_bit_nat_eq_self)
  then have u: "unat (rate * of_int (ngx_abs (sint (now - b_last b))) div 1000) = unat rate * ?ms div 1000"
    by (simp add: unat_div_distrib)
  obtain q where q: "rate * of_int (ngx_abs (sint (now - b_last b))) div 1000 = of_nat q" "q = unat rate * ?ms div 1000"
    "q < 4611686018427387904"
  proof (rule that [OF _ refl])
    have "w = of_nat (unat w)" for w :: "64 word" by simp
    then show "rate * of_int (ngx_abs (sint (now - b_last b))) div 1000 = of_nat (unat rate * ?ms div 1000)" using u by metis
    show "unat rate * ?ms div 1000 < 4611686018427387904" using prod by (rule le_less_trans [OF div_le_dividend])
  qed
  have e: "unat (b_excess b) < 4611686018427387904" using assms by (simp add: sane_def)
  have diff: "sint (of_int (int (unat (b_excess b)) - int q + c) :: 64 word) = int (unat (b_excess b)) - int q + c"
    if "0 \<le> c" "c \<le> 1000" for c
    by (rule sint_of_int64) (use e q(3) that in linarith)+
  have leak: "leak now rate (b_excess b) (b_last b) = of_int (int (unat (b_excess b)) - int q)"
    unfolding leak_def q(1) by simp
  show "sint (leak now rate (b_excess b) (b_last b)) = int (unat (b_excess b)) - int (unat rate * ?ms div 1000)"
    using diff [of 0] by (simp add: leak flip: q(2))
  show "sint (leak now rate (b_excess b) (b_last b) + 1000) = int (unat (b_excess b)) - int (unat rate * ?ms div 1000) + 1000"
    using diff [of 1000] by (simp add: leak flip: q(2))
qed


lemma level_int:
  assumes "sane (unat rate) (unat now) b"
  shows "level now rate b = max 0 (int (unat (b_excess b)) - int (unat rate * (unat now - unat (b_last b)) div 1000) + 1000)"
    "unat (of_int (level now rate b) :: 64 word) = nat (level now rate b)"
proof -
  show *: "level now rate b = max 0 (int (unat (b_excess b)) - int (unat rate * (unat now - unat (b_last b)) div 1000) + 1000)"
    using leak_int(3) [OF assms] by (simp add: level_def)
  have "unat (b_excess b) < 4611686018427387904" using assms by (simp add: sane_def)
  then have "0 \<le> level now rate b" "level now rate b < 18446744073709551616" unfolding * by linarith+
  then show "unat (of_int (level now rate b) :: 64 word) = nat (level now rate b)"
    by (simp add: unsigned_of_int nat_take_bit_eq take_bit_nat_eq_self)
qed

lemma stale_int:
  assumes "sane (unat rate) (unat now) b" "stale now rate b"
  shows "unat (b_last b) + 60000 \<le> unat now" "1000 * unat (b_excess b) \<le> unat rate * (unat now - unat (b_last b))"
proof -
  let ?ms = "unat now - unat (b_last b)"
  have "60000 \<le> int ?ms" using assms(2) leak_int(1) [OF assms(1)] by (simp add: stale_def ngx_abs_def)
  then show "unat (b_last b) + 60000 \<le> unat now" by linarith
  have "unat (b_excess b) \<le> unat rate * ?ms div 1000"
    using assms(2) leak_int(2) [OF assms(1)] unfolding stale_def by linarith
  then show "1000 * unat (b_excess b) \<le> unat rate * ?ms" by (simp add: less_eq_div_iff_mult_less_eq mult.commute)
qed

text \<open>What happens to the bucket of one key at a lookup of a key.\<close>

abbreviation (input) bucket_of :: "8 word list \<Rightarrow> bucket list \<Rightarrow> bucket option" where
  "bucket_of k \<equiv> find (\<lambda>b. b_key b = k)"

lemma find_SomeD: "find P xs = Some x \<Longrightarrow> P x \<and> x \<in> set xs"
  by (auto simp: find_Some_iff)

lemma find_filter: "(\<And>x. P x \<Longrightarrow> Q x) \<Longrightarrow> find P (filter Q xs) = find P xs"
  by (induction xs) auto

lemma find_take: "find P xs = Some x \<Longrightarrow> find P (take n xs) = Some x \<or> find P (take n xs) = None \<and> x \<in> set (drop n xs)"
proof (induction xs arbitrary: n)
  case (Cons y xs)
  then show ?case by (cases n) (auto split: if_splits dest: find_SomeD)
qed simp

lemma find_take_None: "find P xs = None \<Longrightarrow> find P (take n xs) = None"
  using set_take_subset by (fastforce simp: find_None_iff)

lemma survivors_bucket:
  assumes "bucket_of k bs = ob"
  shows "bucket_of k (survivors now rate full bs) = ob \<or>
    bucket_of k (survivors now rate full bs) = None \<and> (\<exists>b. ob = Some b \<and> b \<in> set bs \<and> (full \<or> stale now rate b))"
proof (cases ob)
  case None
  obtain n where "survivors now rate full bs = take n bs" using survivors_take by blast
  then show ?thesis using None assms find_take_None [of _ bs] by simp
next
  case (Some b)
  have b: "b \<in> set bs" using assms Some by (auto dest: find_SomeD)
  show ?thesis
  proof (cases full)
    case True
    obtain n where "survivors now rate full bs = take n bs" using survivors_take by blast
    then show ?thesis using find_take [of "\<lambda>b. b_key b = k" bs b n] assms Some b True by auto
  next
    case False
    with find_take [of "\<lambda>b. b_key b = k" bs b "left now rate 1 bs"] assms Some show ?thesis
      using left_rest [of b now rate 1 bs] by (auto simp: survivors_def dest: find_SomeD in_set_dropD)
  qed
qed

lemma lookup_other:
  assumes "bucket_lookup now rate burst k' True full room bs = (rc, ep, bs')" "k' \<noteq> k"
  shows "bucket_of k bs' = bucket_of k bs \<or>
    bucket_of k bs' = None \<and> (\<exists>b. bucket_of k bs = Some b \<and> b \<in> set bs \<and> (full \<or> stale now rate b))"
proof (cases "bucket_of k' bs")
  case None
  then have "bucket_of k bs' = bucket_of k (survivors now rate full bs)"
    using assms by (auto simp: bucket_lookup_def Let_def split: if_splits)
  then show ?thesis using survivors_bucket [of k bs _ now rate full] by simp
next
  case (Some b)
  have "b_key b = k'" using find_SomeD [OF Some] by simp
  then obtain b' where "bs' = b' # filter (\<lambda>b. b_key b \<noteq> k') bs" "b_key b' = k'"
    using assms(1) Some by (auto simp: bucket_lookup_def Let_def split: if_splits)
  then show ?thesis using assms(2) find_filter [of "\<lambda>b. b_key b = k" "\<lambda>b. b_key b \<noteq> k'" bs] by auto
qed

lemma lookup_this:
  assumes "bucket_lookup now rate burst k True full room bs = (rc, ep, bs')"
  obtains (absent) "bucket_of k bs = None" "rc = NGX_OK" "bucket_of k bs' = Some \<lparr>b_key = k, b_excess = 0, b_last = now, b_count = 0\<rparr>"
  | (failed) "bucket_of k bs = None" "\<not> room" "rc = NGX_ERROR" "bucket_of k bs' = None"
  | (busy) b where "bucket_of k bs = Some b" "b \<in> set bs" "rc = NGX_BUSY" "bucket_of k bs' = Some b" "of_int (level now rate b) > burst"
  | (admit) b where "bucket_of k bs = Some b" "b \<in> set bs" "rc = NGX_OK" "\<not> of_int (level now rate b) > burst"
      "bucket_of k bs' = Some (b\<lparr>b_excess := of_int (level now rate b), b_last := now\<rparr>)"
proof (cases "bucket_of k bs")
  case None
  with survivors_bucket [OF this, of now rate full] show thesis
    using assms absent failed by (auto simp: bucket_lookup_def Let_def split: if_splits)
next
  case (Some b)
  then have "b \<in> set bs" "b_key b = k" by (auto dest: find_SomeD)
  then show thesis using assms Some busy [of b] admit [of b] by (auto simp: bucket_lookup_def Let_def split: if_splits)
qed

lemma sane_mono: "sane rate now b \<Longrightarrow> now \<le> now' \<Longrightarrow> rate * now' < 4611686018427387904 \<Longrightarrow> now' < 4611686018427387904 \<Longrightarrow> sane rate now' b"
  by (simp add: sane_def)

lemma lookup_sane:
  assumes "bucket_lookup now rate burst k True full room bs = (rc, ep, bs')" "\<forall>b \<in> set bs. sane (unat rate) (unat now) b"
    and "unat burst < 4611686018427387904" "unat rate * unat now < 4611686018427387904" "unat now < 4611686018427387904"
  shows "\<forall>b \<in> set bs'. sane (unat rate) (unat now) b"
proof (cases "bucket_of k bs")
  case None
  then have "b \<in> set bs' \<Longrightarrow> b = \<lparr>b_key = k, b_excess = 0, b_last = now, b_count = 0\<rparr> \<or> b \<in> set (survivors now rate full bs)" for b
    using assms(1) by (auto simp: bucket_lookup_def Let_def split: if_splits)
  moreover obtain n where "survivors now rate full bs = take n bs" using survivors_take by blast
  ultimately show ?thesis using assms(2,4,5) by (fastforce simp: sane_def dest: in_set_takeD)
next
  case (Some b)
  then have b: "b \<in> set bs" by (auto dest: find_SomeD)
  then have "sane (unat rate) (unat now) b" using assms(2) by blast
  then show ?thesis using assms Some b
    by (auto simp: bucket_lookup_def Let_def sane_def word_less_nat_alt not_less word_le_nat_alt split: if_splits)
qed

text \<open>
  The account of one key: after \<open>n\<close> admissions since the time \<open>t1\<close>, at the time \<open>t\<close>. Each admission adds a
  thousand to the bucket, or makes a new one; a bucket leaks \<open>rate\<close> in a thousand seconds and is given up
  only when it is empty and 60 seconds old, or for want of memory, which has happened at most \<open>f\<close> times.
\<close>

definition forgiven :: "nat \<Rightarrow> nat \<Rightarrow> nat" where
  "forgiven burst f = f * (1000000 + 1000 * burst)"

definition spent :: "nat \<Rightarrow> nat \<Rightarrow> nat \<Rightarrow> nat \<Rightarrow> nat \<Rightarrow> nat \<Rightarrow> bucket option \<Rightarrow> bool" where
  "spent rate burst t1 t f n ob \<longleftrightarrow> n = 0 \<or>
     (case ob of
        None \<Rightarrow> 1000000 * (n + 1) \<le> 1000000 + forgiven burst f + rate * (t - t1) + 1000000 * ((t - t1) div 60000)
      | Some b \<Rightarrow> t1 \<le> unat (b_last b) \<and> unat (b_excess b) \<le> burst \<and>
          1000000 * n \<le> 1000000 + forgiven burst f + 1000 * unat (b_excess b) + rate * (unat (b_last b) - t1) +
            1000000 * ((unat (b_last b) - t1) div 60000))"

lemma spent_later:
  assumes "spent rate burst t1 t f n ob" "t \<le> t'" "f \<le> f'"
  shows "spent rate burst t1 t' f' n ob"
proof -
  have "rate * (t - t1) \<le> rate * (t' - t1)" "(t - t1) div 60000 \<le> (t' - t1) div 60000"
    using assms(2) by (intro mult_le_mono2 div_le_mono diff_le_mono; simp)+
  moreover have "forgiven burst f \<le> forgiven burst f'" by (simp only: forgiven_def mult_le_mono1 [OF assms(3)])
  moreover define p p' c c' where "p = rate * (t - t1)" and "p' = rate * (t' - t1)"
    and "c = forgiven burst f" and "c' = forgiven burst f'"
  ultimately show ?thesis
    using assms(1) unfolding spent_def p_def [symmetric] p'_def [symmetric] c_def [symmetric] c'_def [symmetric]
    by (cases ob) auto
qed

lemma spent_lost:
  assumes "spent (unat rate) burst t1 (unat now) f n (Some b)" "sane (unat rate) (unat now) b" "stale now rate b"
  shows "spent (unat rate) burst t1 (unat now) f n None"
proof (cases "n = 0")
  case False
  let ?l = "unat (b_last b)" and ?t = "unat now" and ?f = "forgiven burst f"
  note st = stale_int [OF assms(2,3)]
  have s: "t1 \<le> ?l" "1000000 * n \<le> 1000000 + ?f + 1000 * unat (b_excess b) + unat rate * (?l - t1) + 1000000 * ((?l - t1) div 60000)"
    using assms(1) False by (auto simp: spent_def)
  have "?t - t1 = (?l - t1) + (?t - ?l)" using s(1) st(1) by simp
  then have "unat rate * (?t - t1) = unat rate * (?l - t1) + unat rate * (?t - ?l)" by (simp add: distrib_left)
  moreover have "(?l - t1) div 60000 + 1 \<le> (?t - t1) div 60000"
  proof -
    have "(?l - t1) + 60000 \<le> ?t - t1" using s(1) st(1) by simp
    then have "((?l - t1) + 60000) div 60000 \<le> (?t - t1) div 60000" by (rule div_le_mono)
    then show ?thesis by simp
  qed
  ultimately show ?thesis using s(2) st(2) by (simp add: spent_def)
qed (simp add: spent_def)

text \<open>A bucket given up while in use: what it held is forgotten, at most the burst and one more.\<close>

lemma spent_forced:
  assumes "spent rate burst t1 t f n (Some b)" "unat (b_last b) \<le> t"
  shows "spent rate burst t1 t (Suc f) n None"
proof (cases "n = 0")
  case False
  let ?l = "unat (b_last b)" and ?f = "forgiven burst f"
  have s: "unat (b_excess b) \<le> burst" "1000000 * n \<le> 1000000 + ?f + 1000 * unat (b_excess b) + rate * (?l - t1) + 1000000 * ((?l - t1) div 60000)"
    using assms(1) False by (auto simp: spent_def)
  have "rate * (?l - t1) \<le> rate * (t - t1)" "(?l - t1) div 60000 \<le> (t - t1) div 60000"
    using assms(2) by (intro mult_le_mono2 div_le_mono diff_le_mono; simp)+
  moreover have "forgiven burst (Suc f) = ?f + 1000000 + 1000 * burst" by (simp add: forgiven_def)
  moreover define r r' where "r = rate * (?l - t1)" and "r' = rate * (t - t1)"
  ultimately show ?thesis using s unfolding spent_def r_def [symmetric] r'_def [symmetric] by simp
qed (simp add: spent_def)

lemma spent_created:
  assumes "spent rate burst t1 (unat now) f n None" "t1 \<le> unat now"
  shows "spent rate burst t1 (unat now) f (Suc n) (Some \<lparr>b_key = k, b_excess = 0, b_last = now, b_count = 0\<rparr>)"
  using assms by (auto simp: spent_def)

lemma spent_added:
  fixes burst :: "64 word"
  assumes "spent (unat rate) (unat burst) t1 (unat now) f n (Some b)" "sane (unat rate) (unat now) b" "t1 \<le> unat now"
    and "\<not> of_int (level now rate b) > burst"
  shows "spent (unat rate) (unat burst) t1 (unat now) f (Suc n) (Some (b\<lparr>b_excess := of_int (level now rate b), b_last := now\<rparr>))"
proof -
  let ?l = "unat (b_last b)" and ?t = "unat now" and ?e = "unat (of_int (level now rate b) :: 64 word)"
  let ?f = "forgiven (unat burst) f"
  note lv = level_int [OF assms(2)]
  have le: "?e \<le> unat burst" using assms(4) by (simp add: not_less word_le_nat_alt)
  have "0 \<le> level now rate b" unfolding lv(1) by simp
  then have "int ?e = level now rate b" by (simp only: lv(2) int_nat_eq if_True)
  then have "int ?e \<ge> int (unat (b_excess b)) - int (unat rate * (?t - ?l) div 1000) + 1000" unfolding lv(1) by linarith
  then have e: "unat (b_excess b) + 1000 \<le> ?e + unat rate * (?t - ?l) div 1000" by linarith
  moreover have "1000 * (unat rate * (?t - ?l) div 1000) \<le> unat rate * (?t - ?l)" by simp
  ultimately have step: "1000 * unat (b_excess b) + 1000000 \<le> 1000 * ?e + unat rate * (?t - ?l)" by linarith
  show ?thesis
  proof (cases "n = 0")
    case True
    then show ?thesis using le assms(3) by (simp add: spent_def)
  next
    case False
    then have s: "t1 \<le> ?l" "1000000 * n \<le> 1000000 + ?f + 1000 * unat (b_excess b) + unat rate * (?l - t1) + 1000000 * ((?l - t1) div 60000)"
      using assms(1) by (auto simp: spent_def)
    have "?l \<le> ?t" using assms(2) by (simp add: sane_def)
    then have "?t - t1 = (?l - t1) + (?t - ?l)" using s(1) by simp
    then have "unat rate * (?t - t1) = unat rate * (?l - t1) + unat rate * (?t - ?l)" by (simp add: distrib_left)
    moreover have "(?l - t1) div 60000 \<le> (?t - t1) div 60000" using \<open>?l \<le> ?t\<close> by (intro div_le_mono) simp
    ultimately show ?thesis using s(2) step le assms(3) by (simp add: spent_def)
  qed
qed

lemma spent_end:
  assumes "spent rate burst t1 t f n ob" "\<forall>b. ob = Some b \<longrightarrow> unat (b_last b) \<le> t"
  shows "1000000 * n \<le> (1 + f) * (1000000 + 1000 * burst) + 1000000 * ((t - t1) div 60000) + rate * (t - t1)"
proof -
  have f: "(1 + f) * (1000000 + 1000 * burst) = 1000000 + 1000 * burst + forgiven burst f" by (simp add: forgiven_def)
  show ?thesis
  proof (cases ob)
    case (Some b)
    have "rate * (unat (b_last b) - t1) \<le> rate * (t - t1)" "(unat (b_last b) - t1) div 60000 \<le> (t - t1) div 60000"
      using assms(2) Some by (intro mult_le_mono2 div_le_mono diff_le_mono; simp)+
    moreover have "n = 0 \<or> unat (b_excess b) \<le> burst \<and> 1000000 * n \<le> 1000000 + forgiven burst f + 1000 * unat (b_excess b) +
        rate * (unat (b_last b) - t1) + 1000000 * ((unat (b_last b) - t1) div 60000)"
      using assms(1) Some by (auto simp: spent_def)
    moreover have "1000000 * n \<le> 1000000 + 1000 * burst + c + 1000000 * q + p"
      if "p' \<le> p" "q' \<le> q" "n = 0 \<or> e \<le> burst \<and> 1000000 * n \<le> 1000000 + c + 1000 * e + p' + 1000000 * q'" for p p' q q' e c
      using that by auto
    ultimately show ?thesis unfolding f by blast
  next
    case None
    then show ?thesis using assms(1) unfolding f spent_def by auto
  qed
qed

lemma admitted_Cons:
  "admitted k ((now, k') # evs) (rc # rcs) = (if k' = k \<and> rc = NGX_OK then 1 else 0) + admitted k evs rcs"
  by (auto simp: admitted_def)

text \<open>What is asked of the times of the requests and the rate: clocks go forward and nothing overflows.\<close>

definition times_ok :: "64 word \<Rightarrow> nat \<Rightarrow> (64 word \<times> 8 word list) list \<Rightarrow> bool" where
  "times_ok rate t evs \<longleftrightarrow> sorted (t # map (\<lambda>e. unat (fst e)) evs) \<and>
     (\<forall>t' \<in> set (t # map (\<lambda>e. unat (fst e)) evs). unat rate * t' < 4611686018427387904 \<and> t' < 4611686018427387904)"

lemma times_ok_Cons:
  "times_ok rate t ((now, k) # evs) \<longleftrightarrow> t \<le> unat now \<and> unat rate * t < 4611686018427387904 \<and> t < 4611686018427387904 \<and>
     times_ok rate (unat now) evs"
  by (auto simp: times_ok_def)

lemma admitted_Nil: "admitted k [] rcs = 0"
  by (simp add: admitted_def)

text \<open>One request of a run: what it does to the buckets of one key.\<close>

lemma spent_request:
  fixes burst :: "64 word"
  assumes step: "bucket_lookup now rate burst k' True full room bs = (rc, ep, bs1)" and sane: "\<forall>b \<in> set bs. sane (unat rate) (unat now) b"
    and sp: "spent (unat rate) (unat burst) t1 (unat now) f n (bucket_of k bs)" and t1: "t1 \<le> unat now"
  shows "spent (unat rate) (unat burst) t1 (unat now) (f + (if full then 1 else 0)) (n + (if k' = k \<and> rc = NGX_OK then 1 else 0)) (bucket_of k bs1)"
proof -
  have more: "spent (unat rate) (unat burst) t1 (unat now) (f + (if full then 1 else 0)) n' ob"
    if "spent (unat rate) (unat burst) t1 (unat now) f n' ob" for n' ob
    using spent_later [OF that order_refl, of "f + (if full then 1 else 0)"] by simp
  show ?thesis
  proof (cases "k' = k")
    case False
    from lookup_other [OF step False] consider (same) "bucket_of k bs1 = bucket_of k bs"
      | (lost) b where "bucket_of k bs1 = None" "bucket_of k bs = Some b" "b \<in> set bs" "stale now rate b"
      | (forced) b where "bucket_of k bs1 = None" "bucket_of k bs = Some b" "b \<in> set bs" full
      by blast
    then show ?thesis
    proof cases
      case (lost b)
      then show ?thesis using more spent_lost [of rate "unat burst" t1 now f n b] sp sane False by simp
    next
      case (forced b)
      then show ?thesis using spent_forced [of "unat rate" "unat burst" t1 "unat now" f n b] sp sane False by (simp add: sane_def)
    qed (use more sp False in simp)
  next
    case True
    from step [unfolded True] show ?thesis
    proof (cases rule: lookup_this)
      case absent
      then show ?thesis using more spent_created [of "unat rate" "unat burst" t1 now f n k] sp t1 True by simp
    next
      case (busy b)
      then show ?thesis using more sp by simp
    next
      case failed
      then show ?thesis using more sp by simp
    next
      case (admit b)
      then show ?thesis using more spent_added [of rate burst t1 now f n b] sp sane t1 True by simp
    qed
  qed
qed

lemma bucket_run_Cons:
  assumes "bucket_run rate burst ((now, k) # evs) fs0 bs = (rcs, bs')" "length fs0 = Suc (length evs)"
  obtains full room fs rc ep bs1 rcs1 where "fs0 = (full, room) # fs" "length fs = length evs" "rcs = rc # rcs1"
    "bucket_lookup now rate burst k True full room bs = (rc, ep, bs1)" "bucket_run rate burst evs fs bs1 = (rcs1, bs')"
  using assms by (cases fs0) (auto split: prod.splits)

lemma spent_run:
  assumes "bucket_run rate burst evs fs bs = (rcs, bs')" "length fs = length evs" "times_ok rate t evs" "\<forall>b \<in> set bs. sane (unat rate) t b"
    and "spent (unat rate) (unat burst) t1 t f n (bucket_of k bs)" "t1 \<le> t" "unat burst < 4611686018427387904"
  shows "spent (unat rate) (unat burst) t1 (last (t # map (\<lambda>e. unat (fst e)) evs)) (f + count_list (map fst fs) True)
      (n + admitted k evs rcs) (bucket_of k bs') \<and>
    (\<forall>b \<in> set bs'. sane (unat rate) (last (t # map (\<lambda>e. unat (fst e)) evs)) b)"
  using assms(1-6)
proof (induction evs arbitrary: fs bs rcs t f n)
  case Nil
  then show ?case by (simp add: admitted_Nil)
next
  case (Cons ev evs)
  obtain now k' where ev: "ev = (now, k')" by (cases ev)
  obtain full room fs1 rc ep bs1 rcs1 where fs: "fs = (full, room) # fs1" "length fs1 = length evs" "rcs = rc # rcs1"
    and step: "bucket_lookup now rate burst k' True full room bs = (rc, ep, bs1)" and run: "bucket_run rate burst evs fs1 bs1 = (rcs1, bs')"
    using bucket_run_Cons Cons.prems(1,2) unfolding ev list.size(4) by (metis add.right_neutral add_Suc_right)
  have t: "t \<le> unat now" "times_ok rate (unat now) evs" "unat rate * unat now < 4611686018427387904" "unat now < 4611686018427387904"
    using Cons.prems(3) unfolding ev times_ok_Cons by (simp_all add: times_ok_def)
  then have sane: "\<forall>b \<in> set bs. sane (unat rate) (unat now) b" using Cons.prems(4) sane_mono by blast
  note sane1 = lookup_sane [OF step sane assms(7) t(3,4)]
  have t1: "t1 \<le> unat now" using Cons.prems(6) t(1) by simp
  note req = spent_request [OF step sane spent_later [OF Cons.prems(5) t(1) order_refl] t1]
  have eqs: "f + count_list (map fst fs) True = f + (if full then 1 else 0) + count_list (map fst fs1) True"
    "n + admitted k (ev # evs) rcs = n + (if k' = k \<and> rc = NGX_OK then 1 else 0) + admitted k evs rcs1"
    "last (t # map (\<lambda>e. unat (fst e)) (ev # evs)) = last (unat now # map (\<lambda>e. unat (fst e)) evs)"
    by (simp_all add: ev fs admitted_Cons)
  show ?case unfolding eqs by (rule Cons.IH [OF run fs(2) t(2) sane1 req t1])
qed

text \<open>A client that keeps to the rate: its requests are at least \<open>d\<close> milliseconds apart, in which time a bucket leaks a thousand.\<close>

definition times_of :: "8 word list \<Rightarrow> (64 word \<times> 8 word list) list \<Rightarrow> nat list" where
  "times_of k evs = map (\<lambda>e. unat (fst e)) (filter (\<lambda>e. snd e = k) evs)"

lemma times_of_Cons: "times_of k ((now, k') # evs) = (if k' = k then [unat now] else []) @ times_of k evs"
  by (simp add: times_of_def)

definition due :: "nat \<Rightarrow> nat \<Rightarrow> nat list \<Rightarrow> bucket option \<Rightarrow> bool" where
  "due burst d ts ob \<longleftrightarrow> (case ob of None \<Rightarrow> True | Some b \<Rightarrow> unat (b_excess b) \<le> burst \<and> (\<forall>t \<in> set ts. unat (b_last b) + d \<le> t))"

lemma due_admitted:
  fixes burst :: "64 word"
  assumes "due (unat burst) d (unat now # ts) (Some b)" "sane (unat rate) (unat now) b" "1000000 \<le> unat rate * d"
  shows "\<not> of_int (level now rate b) > burst"
proof -
  let ?l = "unat (b_last b)" and ?t = "unat now"
  note lv = level_int [OF assms(2)]
  have "?l + d \<le> ?t" using assms(1) by (simp add: due_def)
  then have "d \<le> ?t - ?l" by linarith
  then have "1000000 \<le> unat rate * (?t - ?l)" using assms(3) by (meson le_trans mult_le_mono2)
  then have "1000 \<le> unat rate * (?t - ?l) div 1000" by (simp add: less_eq_div_iff_mult_less_eq)
  then have "level now rate b \<le> int (unat (b_excess b))" unfolding lv(1) by linarith
  moreover have "unat (b_excess b) \<le> unat burst" using assms(1) by (simp add: due_def)
  ultimately have "nat (level now rate b) \<le> unat burst" by linarith
  then show ?thesis unfolding word_less_nat_alt lv(2) by simp
qed

lemma due_run:
  assumes "bucket_run rate burst evs fs bs = (rcs, bs')" "length fs = length evs" "flags_ok fs" "times_ok rate t evs"
    and "\<forall>b \<in> set bs. sane (unat rate) t b"
    and "due (unat burst) d (times_of k evs) (bucket_of k bs)" "sorted_wrt (\<lambda>t t'. t + d \<le> t') (times_of k evs)"
    and "unat burst < 4611686018427387904" "1000000 \<le> unat rate * d"
  shows "(k, NGX_BUSY) \<notin> set (zip (map snd evs) rcs) \<and>
    length (times_of k evs) \<le> admitted k evs rcs + count_list (map fst fs) True"
  using assms(1-7)
proof (induction evs arbitrary: fs bs rcs t)
  case Nil
  then show ?case by (simp add: times_of_def)
next
  case (Cons ev evs)
  obtain now k' where ev: "ev = (now, k')" by (cases ev)
  obtain full room fs1 rc ep bs1 rcs1 where fs: "fs = (full, room) # fs1" "length fs1 = length evs" "rcs = rc # rcs1"
    and step: "bucket_lookup now rate burst k' True full room bs = (rc, ep, bs1)" and run: "bucket_run rate burst evs fs1 bs1 = (rcs1, bs')"
    using bucket_run_Cons Cons.prems(1,2) unfolding ev list.size(4) by (metis add.right_neutral add_Suc_right)
  have flags: "flags_ok fs1" "\<not> room \<Longrightarrow> full" using Cons.prems(3) fs(1) by (auto simp: flags_ok_def)
  have t: "t \<le> unat now" "times_ok rate (unat now) evs" "unat rate * unat now < 4611686018427387904" "unat now < 4611686018427387904"
    using Cons.prems(4) unfolding ev times_ok_Cons by (simp_all add: times_ok_def)
  then have sane: "\<forall>b \<in> set bs. sane (unat rate) (unat now) b" using Cons.prems(5) sane_mono by blast
  note sane1 = lookup_sane [OF step sane assms(8) t(3,4)]
  have apart: "sorted_wrt (\<lambda>t t'. t + d \<le> t') (times_of k evs)" "k' = k \<Longrightarrow> \<forall>t \<in> set (times_of k evs). unat now + d \<le> t"
    using Cons.prems(7) by (auto simp: ev times_of_Cons split: if_splits)
  have "due (unat burst) d (times_of k evs) (bucket_of k bs1) \<and> (k' = k \<longrightarrow> rc = NGX_OK \<or> rc = NGX_ERROR \<and> full)"
  proof (cases "k' = k")
    case False
    then show ?thesis using lookup_other [OF step False] Cons.prems(6) by (auto simp: due_def ev times_of_Cons)
  next
    case True
    have due: "due (unat burst) d (unat now # times_of k evs) (bucket_of k bs)"
      using Cons.prems(6) True by (simp add: ev times_of_Cons)
    from step [unfolded True] show ?thesis
    proof (cases rule: lookup_this)
      case absent
      then show ?thesis using apart(2) [OF True] by (simp add: due_def)
    next
      case failed
      then show ?thesis using flags(2) by (simp add: due_def)
    next
      case (busy b)
      then show ?thesis using due_admitted [OF _ _ assms(9), of burst now "times_of k evs" b] due sane by simp
    next
      case (admit b)
      then show ?thesis using apart(2) [OF True] by (simp add: due_def not_less word_le_nat_alt)
    qed
  qed
  then show ?case using Cons.IH [OF run fs(2) flags(1) t(2) sane1 _ apart(1)]
    by (auto simp: ev fs admitted_Cons times_of_Cons)
qed

subsection \<open>Properties\<close>

text \<open>A zone without nodes.\<close>

definition fresh_req_zone :: "('p \<Rightarrow> addr set) \<Rightarrow> 'p req_zone \<Rightarrow> bool" where
  "fresh_req_zone used z \<longleftrightarrow> rb_root (lr_tree z) = lr_sentinel z \<and> {lr_sentinel z, lr_queue z} \<subseteq> used (lr_pool z) \<and>
     (\<forall>a. rb_mem (lr_tree z) a \<noteq> None) \<and> map_option rb_red (rb_mem (lr_tree z) (lr_sentinel z)) = Some False \<and>
     queue (lr_links z) (lr_queue z) [] \<and> (\<forall>a. lr_links z a \<noteq> None)"

lemma fresh_req_ok: "fresh_req_zone used z \<Longrightarrow> req_ok used z []"
proof -
  assume fresh: "fresh_req_zone used z"
  then obtain n where "rb_mem (lr_tree z) (lr_sentinel z) = Some n" "\<not> rb_red n" by (auto simp: fresh_req_zone_def)
  then have "req_tree used z (\<lambda>q. None)" using fresh by (intro zone_tree_empty) (auto simp: fresh_req_zone_def)
  then show ?thesis using fresh unfolding req_ok_def fresh_req_zone_def by (intro conjI exI [of _ "\<lambda>q. None"]) auto
qed

definition sample_req_zone :: "addr list req_zone" where
  "sample_req_zone = \<lparr>lr_sentinel = 1, lr_tree = \<lparr>rb_mem = (\<lambda>a. Some (mk_node Lft 0 0 0 0 False)), rb_root = 1\<rparr>,
     lr_queue = 2, lr_links = (\<lambda>a. Some \<lparr>q_prev = 2, q_next = 2\<rparr>), lr_data = (\<lambda>a. []), lr_last = (\<lambda>a. 0), lr_excess = (\<lambda>a. 0),
     lr_count = (\<lambda>a. 0), lr_pool = [1, 2]\<rparr>"

lemma sample_req_fresh: "fresh_req_zone set sample_req_zone"
  by (simp add: fresh_req_zone_def sample_req_zone_def queue_def get_next_def get_prev_def)

lemma sample_alloc_room: "\<forall>n p. fst (sample_alloc n p) \<noteq> None"
  by (simp add: sample_alloc_def Let_def)

text \<open>C11: One lookup of a key: on every zone whose tree and queue hold the same nodes it returns, the tree and the
  queue again hold the same nodes, and what it returns and does to the list of the buckets, in the order of
  the queue, is what \<open>bucket_lookup\<close> says, memory running out only if the allocator fails; a node that the
  request is to refer to is the first of the queue, nodes with a count survive, and counts change only
  for the node that is now referred to once more.\<close>

theorem limit_req_lookup_refines:
  assumes "slab_laws used alloc free" "req_ok used z as" "length k < 65536"
  shows "\<exists>rc ep lr z' as' full room.
    ngx_http_limit_req_lookup alloc free now rate burst (ngx_crc32_short k) k account z = Some (rc, ep, lr, z') \<and> req_ok used z' as' \<and>
    bucket_lookup now rate burst k account full room (map (bucket_at z) as) = (rc, ep, map (bucket_at z') as') \<and>
    (full \<or> \<not> room \<longrightarrow> (\<exists>p. fst (alloc (80 + length k) p) = None)) \<and>
    (full \<longleftrightarrow> short_of_memory alloc free now rate k z) \<and> (\<not> room \<longrightarrow> full) \<and>
    (lr = None \<longleftrightarrow> rc \<noteq> NGX_AGAIN) \<and> (\<forall>a. lr = Some a \<longrightarrow> as' \<noteq> [] \<and> hd as' = a) \<and>
    (\<forall>a \<in> set as. lr_count z a \<noteq> 0 \<longrightarrow> a \<in> set as' \<and> lr_data z' a = lr_data z a) \<and>
    (\<forall>a \<in> set as'. lr_count z' a =
       (if a \<in> set as \<and> lr_data z' a = lr_data z a then lr_count z a else 0) + (if lr = Some a then 1 else 0))"
  using lookup_ok [OF assms, of now rate burst account] by (simp only: lookup_refines_def)

lemma limit_req_lookup_refines_witness:
  "\<exists>lr z'. ngx_http_limit_req_lookup sample_alloc removeAll 5 1000 0 (ngx_crc32_short [97]) [97] False sample_req_zone =
    Some (NGX_AGAIN, 0, lr, z') \<and> lr \<noteq> None"
  using limit_req_lookup_refines [OF sample_slab fresh_req_ok [OF sample_req_fresh], of "[97]" 5 1000 0 False] sample_alloc_room
  by (auto simp: bucket_lookup_def survivors_def split: if_splits)

lemma bucket_run_length: "length fs = length evs \<Longrightarrow> length (fst (bucket_run rate burst evs fs bs)) = length evs"
  by (induction rate burst evs fs bs rule: bucket_run.induct) (auto split: prod.splits)

lemma shortages_none: "\<forall>n p. fst (alloc n p) \<noteq> None \<Longrightarrow> shortages alloc free rate burst evs z = 0"
  by (induction alloc free rate burst evs z rule: shortages.induct)
    (auto simp: short_of_memory_def no_room_def split: option.splits)

text \<open>C8: The rate is kept. On a zone in order, with any requests for any keys at times that do not go back, no
  overflow, and any allocator, which may fail at any request: of the requests for one key, at most one, plus the
  burst, plus one for each \<open>1000000 / rate\<close> milliseconds, plus one for each full minute between the start and
  the last request are let through, and once more one and the burst for each request of the run that found the
  zone short of memory, when the bucket of the key may be given up and what it holds forgotten.\<close>

theorem limit_req_rate:
  assumes "slab_laws used alloc free" "req_ok used z as" "\<forall>(now, k) \<in> set evs. length k < 65536"
    and "times_ok rate t evs" "\<forall>a \<in> set as. sane (unat rate) t (bucket_at z a)" "unat burst < 4611686018427387904"
  shows "\<exists>rcs z'. req_run alloc free rate burst evs z = Some (rcs, z') \<and> length rcs = length evs \<and>
    (let ms = last (t # map (\<lambda>e. unat (fst e)) evs) - t; short = shortages alloc free rate burst evs z
     in 1000000 * admitted k evs rcs \<le> (1 + short) * (1000000 + 1000 * unat burst) + 1000000 * (ms div 60000) + unat rate * ms)"
proof -
  let ?bs = "map (bucket_at z) as" and ?t = "last (t # map (\<lambda>e. unat (fst e)) evs)"
  obtain fs rcs z' bs' where run: "length fs = length evs" "count_list (map fst fs) True = shortages alloc free rate burst evs z"
    "bucket_run rate burst evs fs ?bs = (rcs, bs')" "req_run alloc free rate burst evs z = Some (rcs, z')"
    using req_run_buckets [OF assms(1-3), of rate burst] by blast
  have "\<forall>b \<in> set ?bs. sane (unat rate) t b" using assms(5) by simp
  note spent = spent_run [OF run(3,1) assms(4) this _ order_refl assms(6), of 0 0 k]
  have "1000000 * (0 + admitted k evs rcs) \<le>
      (1 + (0 + count_list (map fst fs) True)) * (1000000 + 1000 * unat burst) + 1000000 * ((?t - t) div 60000) + unat rate * (?t - t)"
    by (rule spent_end [of _ _ _ _ _ _ "find (\<lambda>b. b_key b = k) bs'"])
      (use spent in \<open>auto simp: spent_def sane_def dest: find_SomeD\<close>)
  moreover have "length rcs = length evs" using bucket_run_length [OF run(1), of rate burst ?bs] run(3) by simp
  ultimately show ?thesis using run(2,4) by auto
qed

abbreviation (input) sample_requests :: "(64 word \<times> 8 word list) list" where
  "sample_requests \<equiv> [(0, [97]), (500, [98]), (700, [97]), (1000, [97])]"

text \<open>An allocator with room for one node beside the sentinel and the queue.\<close>

definition small_alloc :: "nat \<Rightarrow> addr list \<Rightarrow> addr option \<times> addr list" where
  "small_alloc n p = (if length p < 3 then sample_alloc n p else (None, p))"

lemma small_slab: "slab_laws set small_alloc removeAll"
  using sample_slab by (simp add: slab_laws_def small_alloc_def)

lemma limit_req_rate_witness:
  "(\<exists>rcs z'. req_run sample_alloc removeAll 1000 0 sample_requests sample_req_zone = Some (rcs, z') \<and> admitted [97] sample_requests rcs \<le> 2) \<and>
   (\<exists>rcs z'. req_run small_alloc removeAll 1000 0 sample_requests sample_req_zone = Some (rcs, z') \<and>
     admitted [97] sample_requests rcs \<le> 2 + shortages small_alloc removeAll 1000 0 sample_requests sample_req_zone)"
  using limit_req_rate [OF sample_slab fresh_req_ok [OF sample_req_fresh], of sample_requests 1000 0 0 "[97]"]
    limit_req_rate [OF small_slab fresh_req_ok [OF sample_req_fresh], of sample_requests 1000 0 0 "[97]"]
  by (auto simp: times_ok_def Let_def shortages_none [OF sample_alloc_room] simp del: shortages.simps req_run.simps)

text \<open>C12: Nobody who keeps to the rate is refused for it: if the requests for a key are at least \<open>d\<close> milliseconds apart,
  in which a bucket leaks a request, then under the same conditions, whatever the other keys do, none of them is
  answered \<open>NGX_BUSY\<close>, and of them all are let through but at most one for each request of the run that
  found the zone short of memory, for which the answer may be \<open>NGX_ERROR\<close>.\<close>

theorem limit_req_conforming:
  assumes "slab_laws used alloc free" "req_ok used z as" "\<forall>(now, k) \<in> set evs. length k < 65536"
    and "times_ok rate t evs" "\<forall>a \<in> set as. sane (unat rate) t (bucket_at z a)" "unat burst < 4611686018427387904"
    and "1000000 \<le> unat rate * d" "sorted_wrt (\<lambda>t t'. t + d \<le> t') (times_of k evs)"
    and "\<forall>a \<in> set as. lr_data z a = k \<longrightarrow> unat (lr_excess z a) \<le> unat burst \<and> (\<forall>t \<in> set (times_of k evs). unat (lr_last z a) + d \<le> t)"
  shows "\<exists>rcs z'. req_run alloc free rate burst evs z = Some (rcs, z') \<and> length rcs = length evs \<and>
    (k, NGX_BUSY) \<notin> set (zip (map snd evs) rcs) \<and>
    length (times_of k evs) \<le> admitted k evs rcs + shortages alloc free rate burst evs z"
proof -
  let ?bs = "map (bucket_at z) as"
  obtain fs rcs z' as' where run: "length fs = length evs" "count_list (map fst fs) True = shortages alloc free rate burst evs z"
    "bucket_run rate burst evs fs ?bs = (rcs, map (bucket_at z') as')" "req_run alloc free rate burst evs z = Some (rcs, z')" "flags_ok fs"
    using req_run_buckets [OF assms(1-3), of rate burst] by blast
  have "\<forall>b \<in> set ?bs. sane (unat rate) t b" using assms(5) by simp
  moreover have "due (unat burst) d (times_of k evs) (find (\<lambda>b. b_key b = k) ?bs)"
    using assms(9) by (fastforce simp: due_def dest: find_SomeD split: option.splits)
  ultimately have "(k, NGX_BUSY) \<notin> set (zip (map snd evs) rcs) \<and> length (times_of k evs) \<le> admitted k evs rcs + count_list (map fst fs) True"
    by (rule due_run [OF run(3,1,5) assms(4) _ _ assms(8,6,7)])
  moreover have "length rcs = length evs" using bucket_run_length [OF run(1), of rate burst ?bs] run(3) by simp
  ultimately show ?thesis using run(2,4) by auto
qed

lemma limit_req_conforming_witness:
  "\<exists>rcs z'. req_run sample_alloc removeAll 1000 0 [(0, [97]), (500, [98]), (1000, [97])] sample_req_zone = Some (rcs, z') \<and>
    2 \<le> admitted [97] [(0, [97]), (500, [98]), (1000, [97])] rcs"
  using limit_req_conforming [OF sample_slab fresh_req_ok [OF sample_req_fresh],
      of "[(0, [97]), (500, [98]), (1000, [97])]" 1000 0 0 1000 "[97]"]
  by (auto simp: times_ok_def times_of_def shortages_none [OF sample_alloc_room] simp del: shortages.simps req_run.simps)

text \<open>
  The rate that \<open>limit_req_zone\<close> sets is the number of requests in 1000 seconds, rounded down, and never zero,
  unless the number is so great that the multiplication overflows: then the rate can be zero, and the
  handler divides by it.
\<close>

lemma limit_req_rate_value:
  assumes "ngx_atoi ds = n" "0 < n" "n \<le> 9223372036854775"
  shows "limit_req_zone_rate (bytes ''rate='' @ ds @ bytes ''r/s'') = Some (of_int (n * 1000))"
    "limit_req_zone_rate (bytes ''rate='' @ ds @ bytes ''r/m'') = Some (of_int (n * 1000 div 60))"
  using assms by (simp_all add: limit_req_zone_rate_def Let_def)

lemma limit_req_rate_zero:
  "ngx_atoi ds = 2305843009213693952 \<Longrightarrow> limit_req_zone_rate (bytes ''rate='' @ ds @ bytes ''r/s'') = Some 0"
  by (simp add: limit_req_zone_rate_def Let_def s64_def)

end
