(* ===== verification/Limit_Req_Handler.thy ===== *)
theory Limit_Req_Handler
  imports Limit_Req
begin

section \<open>Limiting the rate of requests: processes and the handler\<close>

text \<open>
  The sections of \<open>ngx_http_limit_req_module.c\<close> as steps of processes that share the zones, the references that
  the processes keep between the sections, and the handler, which is a sequence of such steps.
\<close>

subsection \<open>Processes\<close>

text \<open>
  The processes share the zones, and each has the nodes of its contexts. A step of a process is one
  section: a lookup, after which it may refer to a node, or the adding or the dropping of a reference.
\<close>

inductive req_step ::
  "'p slab_alloc \<Rightarrow> 'p slab_free \<Rightarrow> (nat \<Rightarrow> 'p req_zone) \<times> (nat \<Rightarrow> addr option) list \<Rightarrow>
   (nat \<Rightarrow> 'p req_zone) \<times> (nat \<Rightarrow> addr option) list \<Rightarrow> bool"
for alloc free where
  step_lookup: "req_step alloc free (zs, nodes) (zs(i := z), nodes[r := (case lr of None \<Rightarrow> node | Some a \<Rightarrow> node(i := Some a))])"
    if "r < length nodes" "node = nodes ! r" "node i = None" "0 < length k" "length k \<le> 65535"
      "ngx_http_limit_req_lookup alloc free now rate burst (ngx_crc32_short k) k account (zs i) = Some (rc, ep, lr, z)"
| step_account: "req_step alloc free (zs, nodes) (zs(i := snd (account_section now rate a (zs i))), nodes[r := node(i := None)])"
    if "r < length nodes" "node = nodes ! r" "node i = Some a"
| step_drop: "req_step alloc free (zs, nodes) (zs(i := drop_section a (zs i)), nodes[r := node(i := None)])"
    if "r < length nodes" "node = nodes ! r" "node i = Some a"

text \<open>In a good state the count of a node is the number of processes that refer to it, and all such nodes are in their zones.\<close>

definition holders :: "(nat \<Rightarrow> addr option) list \<Rightarrow> nat \<Rightarrow> addr \<Rightarrow> nat" where
  "holders nodes i a = length (filter (\<lambda>node. node i = Some a) nodes)"

definition req_inv :: "('p \<Rightarrow> addr set) \<Rightarrow> (nat \<Rightarrow> 'p req_zone) \<Rightarrow> (nat \<Rightarrow> addr option) list \<Rightarrow> bool" where
  "req_inv used zs nodes \<longleftrightarrow> length nodes < 4294967296 \<and>
     (\<forall>i. \<exists>as. req_ok used (zs i) as \<and> (\<forall>a \<in> set as. unat (lr_count (zs i) a) = holders nodes i a) \<and>
       (\<forall>a. holders nodes i a > 0 \<longrightarrow> a \<in> set as))"

lemma holders_update:
  assumes "r < length nodes"
  shows "holders (nodes[r := node]) i a + (if (nodes ! r) i = Some a then 1 else 0) = holders nodes i a + (if node i = Some a then 1 else 0)"
  using assms unfolding holders_def
proof (induction nodes arbitrary: r)
  case (Cons n nodes)
  then show ?case by (cases r) auto
qed simp

lemma holders_bound: "holders nodes i a \<le> length nodes"
  by (simp add: holders_def)

lemma holders_other: "r < length nodes \<Longrightarrow> node j = (nodes ! r) j \<Longrightarrow> holders (nodes[r := node]) j a = holders nodes j a"
  using holders_update [of r nodes node j a] by (simp split: if_splits)

lemma req_inv_update:
  assumes "req_inv used zs nodes" "r < length nodes" "\<And>j. j \<noteq> i \<Longrightarrow> node j = (nodes ! r) j" "req_ok used z as"
    and "\<forall>a \<in> set as. unat (lr_count z a) = holders (nodes[r := node]) i a" "\<forall>a. holders (nodes[r := node]) i a > 0 \<longrightarrow> a \<in> set as"
  shows "req_inv used (zs(i := z)) (nodes[r := node])"
  unfolding req_inv_def
proof (intro conjI allI)
  show "length (nodes[r := node]) < 4294967296" using assms(1) by (simp add: req_inv_def)
  fix j
  show "\<exists>as. req_ok used ((zs(i := z)) j) as \<and> (\<forall>a \<in> set as. unat (lr_count ((zs(i := z)) j) a) = holders (nodes[r := node]) j a) \<and>
      (\<forall>a. holders (nodes[r := node]) j a > 0 \<longrightarrow> a \<in> set as)"
  proof (cases "j = i")
    case True
    then show ?thesis using assms(4-6) by auto
  next
    case False
    obtain as where "req_ok used (zs j) as" "\<forall>a \<in> set as. unat (lr_count (zs j) a) = holders nodes j a"
      "\<forall>a. holders nodes j a > 0 \<longrightarrow> a \<in> set as"
      using assms(1) unfolding req_inv_def by blast
    then show ?thesis using False holders_other [where r = r and nodes = nodes and node = node and j = j, OF assms(2) assms(3) [OF False]] by auto
  qed
qed

text \<open>The bucket of a key, read through the tree.\<close>

definition req_node :: "'p req_zone \<Rightarrow> 8 word list \<Rightarrow> addr option option" where
  "req_node z k = rb_search (data_cmp (lr_data z) (ucast (ngx_crc32_short k), k)) (lr_sentinel z) (rb_root (lr_tree z)) (lr_tree z)"

definition req_bucket :: "'p req_zone \<Rightarrow> 8 word list \<Rightarrow> bucket option" where
  "req_bucket z k = (case req_node z k of Some (Some a) \<Rightarrow> Some (bucket_at z a) | _ \<Rightarrow> None)"

lemma req_bucket_ok:
  assumes "req_ok used z as"
  shows "req_bucket z k = find (\<lambda>b. b_key b = k) (map (bucket_at z) as)"
  using req_search [OF assms, of k] by (simp add: req_bucket_def req_node_def find_map_key comp_def split: option.splits)

text \<open>A bucket after a request was added to it at \<open>now\<close>; the first one is what it was before, if it was there.\<close>

definition charged :: "64 word \<Rightarrow> 64 word \<Rightarrow> bucket option \<Rightarrow> bucket option \<Rightarrow> bool" where
  "charged now rate ob ob' \<longleftrightarrow> (\<exists>b'. ob' = Some b' \<and> b_last b' = now \<and>
     (\<forall>b. ob = Some b \<longrightarrow> b_excess b' = of_int (level now rate b)))"

text \<open>A node of the key that is referred to, with the content the bucket had before.\<close>

definition pending :: "8 word list \<Rightarrow> bucket option \<Rightarrow> addr option \<Rightarrow> 'p req_zone \<Rightarrow> bool" where
  "pending k ob lr z \<longleftrightarrow> (\<exists>a. lr = Some a \<and> req_node z k = Some (Some a) \<and>
     (\<forall>b. ob = Some b \<longrightarrow> lr_excess z a = b_excess b \<and> lr_last z a = b_last b))"

lemma pendingI:
  assumes "req_ok used z (a # as)" "lr_data z a = k" "\<And>b. ob = Some b \<Longrightarrow> lr_excess z a = b_excess b \<and> lr_last z a = b_last b"
  shows "pending k ob (Some a) z"
  using req_search [OF assms(1), of k] assms(2,3) by (auto simp: pending_def req_node_def)

lemma bucket_lookup_ok:
  "bucket_lookup now rate burst k account full room bs = (NGX_OK, ep, bs') \<Longrightarrow>
    charged now rate (find (\<lambda>b. b_key b = k) bs) (find (\<lambda>b. b_key b = k) bs')"
  by (auto simp: charged_def bucket_lookup_def Let_def dest: find_SomeD split: option.splits if_splits)

lemma bucket_lookup_again:
  "bucket_lookup now rate burst k account full room bs = (NGX_AGAIN, ep, b # bs') \<Longrightarrow>
    b_key b = k \<and> (\<forall>b0. find (\<lambda>b. b_key b = k) bs = Some b0 \<longrightarrow> b_excess b = b_excess b0 \<and> b_last b = b_last b0)"
  by (auto simp: bucket_lookup_def Let_def dest: find_SomeD split: option.splits if_splits)

text \<open>One lookup in a good state.\<close>

lemma lookup_inv:
  assumes "slab_laws used alloc free" "req_inv used zs nodes" "r < length nodes" "(nodes ! r) i = None" "length k < 65536"
  obtains rc ep lr z where "ngx_http_limit_req_lookup alloc free now rate burst (ngx_crc32_short k) k account (zs i) = Some (rc, ep, lr, z)"
    "req_inv used (zs(i := z)) (nodes[r := (case lr of None \<Rightarrow> nodes ! r | Some a \<Rightarrow> (nodes ! r)(i := Some a))])"
    "lr = None \<longleftrightarrow> rc \<noteq> NGX_AGAIN" "rc = NGX_BUSY \<longleftrightarrow> (\<exists>b. req_bucket (zs i) k = Some b \<and> of_int (level now rate b) > burst)"
    "rc = NGX_ERROR \<longrightarrow> (\<exists>n p. fst (alloc n p) = None)" "rc \<in> {NGX_BUSY, NGX_ERROR, if account then NGX_OK else NGX_AGAIN}"
    "rc = NGX_AGAIN \<longrightarrow> pending k (req_bucket (zs i) k) lr z" "rc = NGX_OK \<longrightarrow> charged now rate (req_bucket (zs i) k) (req_bucket z k)"
proof -
  obtain as where as: "req_ok used (zs i) as" "\<forall>a \<in> set as. unat (lr_count (zs i) a) = holders nodes i a"
    "\<forall>a. holders nodes i a > 0 \<longrightarrow> a \<in> set as" and len: "length nodes < 4294967296"
    using assms(2) unfolding req_inv_def by blast
  from lookup_ok [OF assms(1) as(1) assms(5), of now rate burst account] obtain rc ep lr z as' full room where
    l: "ngx_http_limit_req_lookup alloc free now rate burst (ngx_crc32_short k) k account (zs i) = Some (rc, ep, lr, z)"
      "req_ok used z as'" "bucket_lookup now rate burst k account full room (map (bucket_at (zs i)) as) = (rc, ep, map (bucket_at z) as')"
      "full \<or> \<not> room \<longrightarrow> (\<exists>p. fst (alloc (80 + length k) p) = None)" "lr = None \<longleftrightarrow> rc \<noteq> NGX_AGAIN"
      "\<forall>a. lr = Some a \<longrightarrow> as' \<noteq> [] \<and> hd as' = a" "\<forall>a \<in> set as. lr_count (zs i) a \<noteq> 0 \<longrightarrow> a \<in> set as' \<and> lr_data z a = lr_data (zs i) a"
      "\<forall>a \<in> set as'. lr_count z a = (if a \<in> set as \<and> lr_data z a = lr_data (zs i) a then lr_count (zs i) a else 0) + (if lr = Some a then 1 else 0)"
    unfolding lookup_refines_def by blast
  show thesis
  proof (rule that [OF l(1) _ l(5)])
    let ?node = "case lr of None \<Rightarrow> nodes ! r | Some a \<Rightarrow> (nodes ! r)(i := Some a)"
    show "req_inv used (zs(i := z)) (nodes[r := ?node])"
    proof (rule req_inv_update [OF assms(2,3) _ l(2)])
      fix j assume "j \<noteq> i"
      then show "?node j = (nodes ! r) j" by (cases lr) simp_all
    next
      have new: "holders (nodes[r := ?node]) i a = holders nodes i a + (if lr = Some a then 1 else 0)" for a
        using holders_update [OF assms(3), of ?node i a] assms(4) by (cases lr) auto
      have used: "a \<in> set as \<and> lr_count (zs i) a \<noteq> 0" if "holders nodes i a > 0" for a
      proof -
        have "a \<in> set as" using as(3) that by blast
        then have "unat (lr_count (zs i) a) \<noteq> 0" using as(2) that by simp
        then show ?thesis using \<open>a \<in> set as\<close> by auto
      qed
      have old: "holders nodes i a = (if a \<in> set as \<and> lr_data z a = lr_data (zs i) a then unat (lr_count (zs i) a) else 0)"
        if "a \<in> set as'" for a
      proof (cases "holders nodes i a = 0")
        case False
        then have "a \<in> set as" "lr_count (zs i) a \<noteq> 0" using used [of a] by simp_all
        then show ?thesis using l(7) as(2) by simp
      qed (use as(2) in auto)
      show "\<forall>a \<in> set as'. unat (lr_count z a) = holders (nodes[r := ?node]) i a"
      proof
        fix a assume a: "a \<in> set as'"
        let ?c = "if a \<in> set as \<and> lr_data z a = lr_data (zs i) a then lr_count (zs i) a else 0"
        have c: "lr_count z a = ?c + (if lr = Some a then 1 else 0)" using l(8) a by blast
        have "unat ?c = holders nodes i a" using old [OF a] by simp
        moreover have "unat ?c < 4294967296" using calculation len holders_bound [of nodes i a] by linarith
        ultimately show "unat (lr_count z a) = holders (nodes[r := ?node]) i a"
          unfolding c new by (cases "lr = Some a") (simp_all only: if_True if_False, simp_all add: unat_word_ariths)
      qed
      show "\<forall>a. holders (nodes[r := ?node]) i a > 0 \<longrightarrow> a \<in> set as'"
      proof (intro allI impI)
        fix a assume "holders (nodes[r := ?node]) i a > 0"
        then consider "lr = Some a" | "holders nodes i a > 0" unfolding new by (auto split: if_splits)
        then show "a \<in> set as'"
        proof cases
          case 1
          then show ?thesis using l(6) hd_in_set by blast
        next
          case 2
          then show ?thesis using used l(7) by blast
        qed
      qed
    qed
    show "rc = NGX_BUSY \<longleftrightarrow> (\<exists>b. req_bucket (zs i) k = Some b \<and> of_int (level now rate b) > burst)"
      using l(3) req_bucket_ok [OF as(1), of k] by (auto simp: bucket_lookup_def Let_def split: option.splits if_splits)
    show "rc = NGX_ERROR \<longrightarrow> (\<exists>n p. fst (alloc n p) = None)"
      using l(3,4) by (auto simp: bucket_lookup_def Let_def split: option.splits if_splits)
    show "rc \<in> {NGX_BUSY, NGX_ERROR, if account then NGX_OK else NGX_AGAIN}"
      using l(3) by (auto simp: bucket_lookup_def Let_def split: option.splits if_splits)
    note bs = req_bucket_ok [OF as(1), of k] req_bucket_ok [OF l(2), of k]
    show "rc = NGX_OK \<longrightarrow> charged now rate (req_bucket (zs i) k) (req_bucket z k)"
      unfolding bs using l(3) bucket_lookup_ok by blast
    show "rc = NGX_AGAIN \<longrightarrow> pending k (req_bucket (zs i) k) lr z"
    proof
      assume again: "rc = NGX_AGAIN"
      then obtain a as1 where a: "lr = Some a" "as' = a # as1" using l(5,6) by (cases lr; cases as') auto
      have "b_key (bucket_at z a) = k \<and> (\<forall>b. req_bucket (zs i) k = Some b \<longrightarrow> b_excess (bucket_at z a) = b_excess b \<and> b_last (bucket_at z a) = b_last b)"
        unfolding bs(1) by (rule bucket_lookup_again) (use l(3) again a(2) in simp)
      then show "pending k (req_bucket (zs i) k) lr z" unfolding a(1) by (intro pendingI [OF l(2) [unfolded a(2)]]) simp_all
    qed
  qed
qed


text \<open>Adding and dropping a reference.\<close>

lemma release_inv:
  assumes "req_inv used zs nodes" "r < length nodes" "(nodes ! r) i = Some a"
    and "lr_count z = (lr_count (zs i))(a := lr_count (zs i) a - 1)" "\<And>as. req_ok used (zs i) as \<Longrightarrow> req_ok used z as"
  shows "req_inv used (zs(i := z)) (nodes[r := (nodes ! r)(i := None)])"
proof -
  obtain as where as: "req_ok used (zs i) as" "\<forall>a \<in> set as. unat (lr_count (zs i) a) = holders nodes i a"
    "\<forall>a. holders nodes i a > 0 \<longrightarrow> a \<in> set as"
    using assms(1) unfolding req_inv_def by blast
  have new: "holders (nodes[r := (nodes ! r)(i := None)]) i b + (if b = a then 1 else 0) = holders nodes i b" for b
    using holders_update [OF assms(2), of "(nodes ! r)(i := None)" i b] assms(3) by auto
  have a: "holders nodes i a > 0" using new [of a] by simp
  then have "a \<in> set as" using as(3) by blast
  then have c: "unat (lr_count (zs i) a) = holders nodes i a" using as(2) by blast
  then have "lr_count (zs i) a \<noteq> 0" using a by auto
  note c = c this
  show ?thesis
  proof (rule req_inv_update [OF assms(1,2) _ assms(5) [OF as(1)]])
    show "\<forall>b \<in> set as. unat (lr_count z b) = holders (nodes[r := (nodes ! r)(i := None)]) i b"
    proof
      fix b assume b: "b \<in> set as"
      show "unat (lr_count z b) = holders (nodes[r := (nodes ! r)(i := None)]) i b"
        using new [of b] as(2) b c unat_minus_one [OF c(2)] by (cases "b = a") (simp_all add: assms(4))
    qed
    show "\<forall>b. holders (nodes[r := (nodes ! r)(i := None)]) i b > 0 \<longrightarrow> b \<in> set as"
      using as(3) new by (metis add_gr_0)
  qed simp
qed

lemma drop_inv:
  assumes "req_inv used zs nodes" "r < length nodes" "(nodes ! r) i = Some a"
  shows "req_inv used (zs(i := drop_section a (zs i))) (nodes[r := (nodes ! r)(i := None)])"
  by (rule release_inv [OF assms]) (simp_all add: drop_section_def req_ok_def)

lemma account_inv:
  assumes "req_inv used zs nodes" "r < length nodes" "(nodes ! r) i = Some a"
  shows "req_inv used (zs(i := snd (account_section now rate a (zs i)))) (nodes[r := (nodes ! r)(i := None)])"
  by (rule release_inv [OF assms]) (simp_all add: account_section_def req_ok_def Let_def)

lemma req_step_inv:
  assumes "req_step alloc free st st'" "slab_laws used alloc free" "req_inv used (fst st) (snd st)"
  shows "req_inv used (fst st') (snd st')"
  using assms(1,3)
proof (induction rule: req_step.induct)
  case (step_lookup r nodes node i k now rate burst account zs rc ep lr z)
  have "req_inv used zs nodes" "(nodes ! r) i = None" "length k < 65536" using step_lookup by simp_all
  note inv = lookup_inv [OF assms(2) this(1) step_lookup(1) this(2,3)]
  obtain rc' ep' lr' z' where l: "ngx_http_limit_req_lookup alloc free now rate burst (ngx_crc32_short k) k account (zs i) = Some (rc', ep', lr', z')"
    "req_inv used (zs(i := z')) (nodes[r := (case lr' of None \<Rightarrow> nodes ! r | Some a \<Rightarrow> (nodes ! r)(i := Some a))])"
    by (rule inv)
  have eq: "lr' = lr" "z' = z" using l(1) step_lookup(6) by simp_all
  show ?case unfolding fst_conv snd_conv step_lookup(2) using l(2) by (simp only: eq)
next
  case (step_account r nodes node i a zs now rate)
  then have "req_inv used zs nodes" "(nodes ! r) i = Some a" by simp_all
  then show ?case unfolding fst_conv snd_conv step_account(2) by (rule account_inv [OF _ step_account(1)])
next
  case (step_drop r nodes node i a zs)
  then have "req_inv used zs nodes" "(nodes ! r) i = Some a" by simp_all
  then show ?case unfolding fst_conv snd_conv step_drop(2) by (rule drop_inv [OF _ step_drop(1)])
qed

lemma req_steps_inv:
  assumes "rtranclp (req_step alloc free) st st'" "slab_laws used alloc free" "req_inv used (fst st) (snd st)"
  shows "req_inv used (fst st') (snd st')"
  using assms(1,3) by (induction rule: rtranclp_induct) (auto intro: req_step_inv [OF _ assms(2)])

subsection \<open>The handler\<close>

text \<open>A limit applies if its key has a value that is neither empty nor too long, and is exceeded if the bucket is too full.\<close>

definition limit_key :: "(nat \<Rightarrow> 8 word list option) \<Rightarrow> req_limit \<Rightarrow> 8 word list option" where
  "limit_key key l = (case key (rl_zone l) of
     Some k \<Rightarrow> if k = [] \<or> length k > 65535 then None else Some k | None \<Rightarrow> None)"

definition exceeded ::
  "64 word \<Rightarrow> (nat \<Rightarrow> 64 word) \<Rightarrow> (nat \<Rightarrow> 8 word list option) \<Rightarrow> (nat \<Rightarrow> 'p req_zone) \<Rightarrow> req_limit \<Rightarrow> bool"
where
  "exceeded now rate key zs l \<longleftrightarrow> (case limit_key key l of None \<Rightarrow> False | Some k \<Rightarrow>
     (case req_bucket (zs (rl_zone l)) k of None \<Rightarrow> False
      | Some b \<Rightarrow> of_int (level now (rate (rl_zone l)) b) > rl_burst l))"

text \<open>
  The loop over limits, from zones \<open>zs\<close> to zones \<open>zs'\<close>. A limit that the loop has passed over has its bucket
  charged or a reference to the node.
\<close>

definition passed ::
  "64 word \<Rightarrow> (nat \<Rightarrow> 64 word) \<Rightarrow> (nat \<Rightarrow> 8 word list option) \<Rightarrow> (nat \<Rightarrow> 'p req_zone) \<Rightarrow> (nat \<Rightarrow> addr option) \<Rightarrow>
   (nat \<Rightarrow> 'p req_zone) \<Rightarrow> req_limit \<Rightarrow> bool"
where
  "passed now rate key zs node zs' l \<longleftrightarrow> (\<forall>k. limit_key key l = Some k \<longrightarrow>
     (let i = rl_zone l; ob = req_bucket (zs i) k in
      pending k ob (node i) (zs' i) \<or> node i = None \<and> charged now (rate i) ob (req_bucket (zs' i) k)))"

lemma exceeded_cong: "zs' (rl_zone l) = zs (rl_zone l) \<Longrightarrow> exceeded now rate key zs' l = exceeded now rate key zs l"
  by (simp add: exceeded_def cong: option.case_cong)

lemma passed_cong:
  "zs0 (rl_zone l) = zs (rl_zone l) \<Longrightarrow> passed now rate key zs0 node zs' l = passed now rate key zs node zs' l"
  by (simp add: passed_def)

lemma passed_cong2:
  "node0 (rl_zone l) = node (rl_zone l) \<Longrightarrow> zs0 (rl_zone l) = zs' (rl_zone l) \<Longrightarrow>
   passed now rate key zs node0 zs0 l = passed now rate key zs node zs' l"
  by (simp add: passed_def)

definition loop_result ::
  "('p \<Rightarrow> addr set) \<Rightarrow> 'p slab_alloc \<Rightarrow> 'p slab_free \<Rightarrow> 64 word \<Rightarrow> (nat \<Rightarrow> 64 word) \<Rightarrow> (nat \<Rightarrow> 8 word list option) \<Rightarrow> req_limit list \<Rightarrow>
   nat \<Rightarrow> int \<Rightarrow> req_limit option \<Rightarrow> (nat \<Rightarrow> addr option) \<Rightarrow> (nat \<Rightarrow> 'p req_zone) \<Rightarrow> (nat \<Rightarrow> addr option) list \<Rightarrow> nat \<Rightarrow>
   int \<times> nat \<times> 64 word \<times> req_limit option \<Rightarrow> (nat \<Rightarrow> addr option) \<Rightarrow> (nat \<Rightarrow> 'p req_zone) \<Rightarrow> bool"
where
  "loop_result used alloc free now rate key ls n rc limit node zs nodes r res node' zs' \<longleftrightarrow>
     (case res of (rc', n', ep, limit') \<Rightarrow>
       n \<le> n' \<and> n' \<le> n + length ls \<and> req_inv used zs' (nodes[r := node']) \<and>
       rtranclp (req_step alloc free) (zs, nodes) (zs', nodes[r := node']) \<and>
       (\<forall>i. i \<notin> rl_zone ` set (take (n' - n) ls) \<longrightarrow> node' i = node i) \<and>
       (\<forall>i. i \<notin> rl_zone ` set ls \<longrightarrow> zs' i = zs i) \<and>
       (limit' = None \<longrightarrow> ls = [] \<and> limit = None) \<and> (\<forall>l. limit' = Some l \<longrightarrow> l \<in> set ls \<or> limit = Some l) \<and>
       (if \<forall>l \<in> set ls. limit_key key l = None then rc' = rc \<and> zs' = zs \<and> node' = node
        else rc' \<in> {NGX_OK, NGX_AGAIN, NGX_BUSY, NGX_ERROR}) \<and>
       (if rc' \<in> {NGX_BUSY, NGX_ERROR}
        then (\<exists>l \<in> set ls. exceeded now rate key zs l) \<or> (\<exists>n p. fst (alloc n p) = None)
        else (\<forall>l \<in> set ls. \<not> exceeded now rate key zs l \<and> passed now rate key zs node' zs' l)))"

lemma loop_ok:
  assumes "slab_laws used alloc free" "\<forall>l \<in> set ls. key (rl_zone l) \<noteq> None" "distinct (map rl_zone ls)"
    and "req_inv used zs nodes" "r < length nodes" "nodes ! r = node" "\<forall>l \<in> set ls. node (rl_zone l) = None"
    and "rc \<in> {NGX_DECLINED, NGX_AGAIN}"
  shows "\<exists>res node' zs'. limit_req_loop alloc free now rate key ls n rc ep limit node zs = Some (Some res, node', zs') \<and>
    loop_result used alloc free now rate key ls n rc limit node zs nodes r res node' zs'"
  using assms(2-8)
proof (induction ls arbitrary: n rc ep limit node zs nodes)
  case Nil
  then show ?case using list_update_id [of nodes r] by (auto simp: loop_result_def)
next
  case (Cons l ls)
  let ?i = "rl_zone l"
  obtain k where k: "key ?i = Some k" using Cons.prems(1) by auto
  have ls: "\<forall>l \<in> set ls. key (rl_zone l) \<noteq> None" "distinct (map rl_zone ls)" and apart: "?i \<notin> rl_zone ` set ls"
    and free': "\<forall>l \<in> set ls. node (rl_zone l) = None" "node ?i = None"
    using Cons.prems(1,2,6) by auto
  show ?case
  proof (cases "limit_key key l")
    case None
    then have skip: "limit_req_loop alloc free now rate key (l # ls) n rc ep limit node zs =
        limit_req_loop alloc free now rate key ls (Suc n) rc ep (Some l) node zs"
      using k by (auto simp: limit_key_def split: if_splits)
    have "\<not> exceeded now rate key zs l" "\<And>node' zs'. passed now rate key zs node' zs' l"
      using None by (simp_all add: exceeded_def passed_def)
    moreover from Cons.IH [OF ls Cons.prems(3-5) free'(1) Cons.prems(7), of "Suc n" ep "Some l"] obtain rc' n' ep' limit' node' zs' where
      r: "limit_req_loop alloc free now rate key ls (Suc n) rc ep (Some l) node zs = Some (Some (rc', n', ep', limit'), node', zs')"
        "loop_result used alloc free now rate key ls (Suc n) rc (Some l) node zs nodes r (rc', n', ep', limit') node' zs'"
      by (metis prod.exhaust)
    moreover have "take (n' - n) (l # ls) = l # take (n' - Suc n) ls" if "Suc n \<le> n'"
      using that by (metis Suc_diff_le diff_Suc_Suc take_Suc_Cons)
    ultimately show ?thesis unfolding skip using None
      by (intro exI [of _ "(rc', n', ep', limit')"] exI [of _ node'] exI [of _ zs']) (auto simp: loop_result_def split: if_splits)
  next
    case (Some k')
    then have kk: "k' = k" "k \<noteq> []" "length k \<le> 65535" using k by (auto simp: limit_key_def split: if_splits)
    have "length k < 65536" using kk(3) by simp
    note look = lookup_inv [OF assms(1) Cons.prems(3,4) _ this, unfolded Cons.prems(5), OF free'(2), of now "rate ?i" "rl_burst l" "ls = []"]
    obtain rc1 ep1 lr z where l1: "ngx_http_limit_req_lookup alloc free now (rate ?i) (rl_burst l) (ngx_crc32_short k) k (ls = []) (zs ?i) = Some (rc1, ep1, lr, z)"
      "req_inv used (zs(?i := z)) (nodes[r := (case lr of None \<Rightarrow> node | Some a \<Rightarrow> node(?i := Some a))])"
      "lr = None \<longleftrightarrow> rc1 \<noteq> NGX_AGAIN" "rc1 = NGX_BUSY \<longleftrightarrow> (\<exists>b. req_bucket (zs ?i) k = Some b \<and> of_int (level now (rate ?i) b) > rl_burst l)"
      "rc1 = NGX_ERROR \<longrightarrow> (\<exists>n p. fst (alloc n p) = None)" "rc1 \<in> {NGX_BUSY, NGX_ERROR, if ls = [] then NGX_OK else NGX_AGAIN}"
      "rc1 = NGX_AGAIN \<longrightarrow> pending k (req_bucket (zs ?i) k) lr z" "rc1 = NGX_OK \<longrightarrow> charged now (rate ?i) (req_bucket (zs ?i) k) (req_bucket z k)"
      by (rule look)
    define node1 where "node1 = (case lr of None \<Rightarrow> node | Some a \<Rightarrow> node(?i := Some a))"
    let ?zs = "zs(?i := z)" and ?nodes = "nodes[r := node1]"
    have inv: "req_inv used ?zs ?nodes" using l1(2) by (simp only: node1_def)
    have step: "req_step alloc free (zs, nodes) (?zs, ?nodes)"
      unfolding node1_def using Cons.prems(4,5) free'(2) kk l1(1) by (intro step_lookup [where k = k]) auto
    have ex: "exceeded now rate key zs l \<longleftrightarrow> rc1 = NGX_BUSY" using Some kk(1) l1(4) by (auto simp: exceeded_def split: option.splits)
    have zs: "\<And>j. j \<noteq> ?i \<Longrightarrow> ?zs j = zs j" and node1: "\<And>j. j \<noteq> ?i \<Longrightarrow> node1 j = node j" by (auto simp: node1_def split: option.splits)
    show ?thesis
    proof (cases "rc1 = NGX_AGAIN")
      case True
      have "?nodes ! r = node1" "r < length ?nodes" using Cons.prems(4) by simp_all
      moreover have "\<forall>l \<in> set ls. node1 (rl_zone l) = None" using free'(1) node1 apart by (metis imageI)
      ultimately obtain rc' n' ep' limit' node' zs' where
        r: "limit_req_loop alloc free now rate key ls (Suc n) rc1 ep1 (Some l) node1 ?zs = Some (Some (rc', n', ep', limit'), node', zs')"
          "loop_result used alloc free now rate key ls (Suc n) rc1 (Some l) node1 ?zs ?nodes r (rc', n', ep', limit') node' zs'"
        using Cons.IH [OF ls inv, of node1 rc1 "Suc n" ep1 "Some l"] True by (metis insertCI prod.exhaust)
      have res: "limit_req_loop alloc free now rate key (l # ls) n rc ep limit node zs = Some (Some (rc', n', ep', limit'), node', zs')"
        using k kk l1(1) True r(1) by (simp add: node1_def Let_def)
      from r(2) have r2: "Suc n \<le> n'" "n' \<le> Suc n + length ls" "req_inv used zs' (nodes[r := node'])"
        "rtranclp (req_step alloc free) (?zs, ?nodes) (zs', nodes[r := node'])"
        "\<And>i. i \<notin> rl_zone ` set (take (n' - Suc n) ls) \<Longrightarrow> node' i = node1 i" "\<And>i. i \<notin> rl_zone ` set ls \<Longrightarrow> zs' i = ?zs i"
        "limit' \<noteq> None" "\<forall>l'. limit' = Some l' \<longrightarrow> l' \<in> set (l # ls) \<or> limit = Some l'" "rc' \<in> {NGX_OK, NGX_AGAIN, NGX_BUSY, NGX_ERROR}"
        "if rc' \<in> {NGX_BUSY, NGX_ERROR} then (\<exists>l \<in> set ls. exceeded now rate key ?zs l) \<or> (\<exists>n p. fst (alloc n p) = None)
         else (\<forall>l \<in> set ls. \<not> exceeded now rate key ?zs l \<and> passed now rate key ?zs node' zs' l)"
        using True by (auto simp: loop_result_def split: if_splits)
      have take: "take (n' - n) (l # ls) = l # take (n' - Suc n) ls"
        using r2(1) by (metis Suc_diff_le diff_Suc_Suc take_Suc_Cons)
      have same: "?zs (rl_zone l') = zs (rl_zone l')" if "l' \<in> set ls" for l' using that apart zs by (metis imageI)
      have "set (take (n' - Suc n) ls) \<subseteq> set ls" by (rule set_take_subset)
      then have "node' ?i = node1 ?i" "zs' ?i = z" using r2(5) [of ?i] r2(6) [of ?i] apart by auto
      then have "passed now rate key zs node' zs' l"
        using l1(3,7) True Some kk(1) by (auto simp: passed_def Let_def node1_def)
      moreover have "\<not> exceeded now rate key zs l" using ex True by simp
      ultimately have all: "if rc' \<in> {NGX_BUSY, NGX_ERROR} then (\<exists>l \<in> set (l # ls). exceeded now rate key zs l) \<or> (\<exists>n p. fst (alloc n p) = None)
         else (\<forall>l \<in> set (l # ls). \<not> exceeded now rate key zs l \<and> passed now rate key zs node' zs' l)"
        using r2(10) exceeded_cong [where zs' = ?zs and zs = zs, OF same] passed_cong [where ?zs0.0 = ?zs and zs = zs, OF same]
        by (auto split: if_splits)
      have "loop_result used alloc free now rate key (l # ls) n rc limit node zs nodes r (rc', n', ep', limit') node' zs'"
        unfolding loop_result_def prod.case take
      proof (intro conjI)
        show "rtranclp (req_step alloc free) (zs, nodes) (zs', nodes[r := node'])" using step r2(4) by (rule converse_rtranclp_into_rtranclp)
        show "if \<forall>l \<in> set (l # ls). limit_key key l = None then rc' = rc \<and> zs' = zs \<and> node' = node
          else rc' \<in> {NGX_OK, NGX_AGAIN, NGX_BUSY, NGX_ERROR}" using Some r2(9) by simp
      qed (use r2 all node1 zs in auto)
      then show ?thesis using res by blast
    next
      case False
      then have lr: "lr = None" "node1 = node" using l1(3) by (simp_all add: node1_def)
      have res: "limit_req_loop alloc free now rate key (l # ls) n rc ep limit node zs = Some (Some (rc1, n, ep1, Some l), node, ?zs)"
        using k kk l1(1) False lr(1) by (simp add: Let_def)
      have ok: "ls = [] \<and> rc1 = NGX_OK" if "rc1 \<notin> {NGX_BUSY, NGX_ERROR}" using l1(6) False that by (cases "ls = []") auto
      have "passed now rate key zs node ?zs l" if "rc1 = NGX_OK"
        using l1(8) that free'(2) Some kk(1) by (simp add: passed_def Let_def)
      then have "loop_result used alloc free now rate key (l # ls) n rc limit node zs nodes r (rc1, n, ep1, Some l) node ?zs"
        unfolding loop_result_def prod.case
        using inv step lr(2) ok l1(5,6) ex False Some by auto
      then show ?thesis using res by blast
    qed
  qed
qed


text \<open>Dropping and adding: all references of the limits are gone, and every bucket referred to is charged.\<close>

definition cleared :: "req_limit list \<Rightarrow> (nat \<Rightarrow> addr option) \<Rightarrow> nat \<Rightarrow> addr option" where
  "cleared ls node i = (if i \<in> rl_zone ` set ls then None else node i)"

lemma cleared_simps:
  "cleared [] node = node" "cleared (l # ls) node = cleared ls (node(rl_zone l := None))"
  "node (rl_zone l) = None \<Longrightarrow> cleared (l # ls) node = cleared ls node"
  by (auto simp: cleared_def fun_eq_iff)

lemma undo_ok:
  assumes "req_inv used zs nodes" "r < length nodes" "nodes ! r = node"
  shows "\<exists>zs'. limit_req_undo ls node zs = (cleared ls node, zs') \<and> req_inv used zs' (nodes[r := cleared ls node]) \<and>
    rtranclp (req_step alloc free) (zs, nodes) (zs', nodes[r := cleared ls node])"
  using assms
proof (induction ls arbitrary: node zs nodes)
  case Nil
  then show ?case using list_update_id [of nodes r] by (simp add: cleared_simps)
next
  case (Cons l ls)
  show ?case
  proof (cases "node (rl_zone l)")
    case None
    then show ?thesis using Cons by (simp add: cleared_simps(3))
  next
    case (Some a)
    let ?i = "rl_zone l"
    let ?zs = "zs(?i := drop_section a (zs ?i))" and ?nodes = "nodes[r := node(?i := None)]"
    have inv: "req_inv used ?zs ?nodes" using drop_inv [OF Cons.prems(1,2), of ?i a] Some Cons.prems(3) by simp
    have "req_step alloc free (zs, nodes) (?zs, ?nodes)" by (rule step_drop) (use Cons.prems Some in simp_all)
    moreover have "r < length ?nodes" "?nodes ! r = node(?i := None)" using Cons.prems(2) by simp_all
    with Cons.IH [OF inv this] obtain zs' where "limit_req_undo ls (node(?i := None)) ?zs = (cleared ls (node(?i := None)), zs')"
      "req_inv used zs' (nodes[r := cleared ls (node(?i := None))])"
      "rtranclp (req_step alloc free) (?zs, ?nodes) (zs', nodes[r := cleared ls (node(?i := None))])"
      by (simp only: list_update_overwrite) blast
    ultimately show ?thesis using Some
      by (intro exI [of _ zs']) (simp add: cleared_simps(2) converse_rtranclp_into_rtranclp del: fun_upd_apply)
  qed
qed

lemma account_loop_ok:
  assumes "req_inv used zs nodes" "r < length nodes" "nodes ! r = node" "\<forall>l \<in> set ls. rate (rl_zone l) \<noteq> 0" "distinct (map rl_zone ls)"
  shows "\<exists>d zs'. account_loop now rate ls max_delay node zs = Some (d, cleared ls node, zs') \<and>
    req_inv used zs' (nodes[r := cleared ls node]) \<and> rtranclp (req_step alloc free) (zs, nodes) (zs', nodes[r := cleared ls node]) \<and>
    (\<forall>i. zs' i = (case node i of Some a \<Rightarrow> if i \<in> rl_zone ` set ls then snd (account_section now (rate i) a (zs i)) else zs i | None \<Rightarrow> zs i))"
  using assms
proof (induction ls arbitrary: node zs nodes max_delay)
  case Nil
  then show ?case using list_update_id [of nodes r] by (auto simp: cleared_simps split: option.splits)
next
  case (Cons l ls)
  have ls: "\<forall>l \<in> set ls. rate (rl_zone l) \<noteq> 0" "distinct (map rl_zone ls)" using Cons.prems(4,5) by auto
  show ?case
  proof (cases "node (rl_zone l)")
    case None
    from Cons.IH [OF Cons.prems(1-3) ls, of max_delay] obtain d zs' where *: "account_loop now rate ls max_delay node zs = Some (d, cleared ls node, zs')"
      "req_inv used zs' (nodes[r := cleared ls node])" "rtranclp (req_step alloc free) (zs, nodes) (zs', nodes[r := cleared ls node])"
      "\<And>i. zs' i = (case node i of Some a \<Rightarrow> if i \<in> rl_zone ` set ls then snd (account_section now (rate i) a (zs i)) else zs i | None \<Rightarrow> zs i)"
      by blast
    have "zs' i = (case node i of Some a \<Rightarrow> if i \<in> rl_zone ` set (l # ls) then snd (account_section now (rate i) a (zs i)) else zs i | None \<Rightarrow> zs i)" for i
      unfolding *(4) [of i] using None by (cases "i = rl_zone l") (auto split: option.splits)
    moreover have "account_loop now rate (l # ls) max_delay node zs = Some (d, cleared ls node, zs')" using None *(1) by simp
    ultimately show ?thesis unfolding cleared_simps(3) [where node = node and l = l, OF None] using *(2,3) by blast
  next
    case (Some a)
    let ?i = "rl_zone l"
    let ?zs = "zs(?i := snd (account_section now (rate ?i) a (zs ?i)))" and ?nodes = "nodes[r := node(?i := None)]"
    have inv: "req_inv used ?zs ?nodes" using account_inv [OF Cons.prems(1,2), of ?i a now "rate ?i"] Some Cons.prems(3) by simp
    have step: "req_step alloc free (zs, nodes) (?zs, ?nodes)" by (rule step_account) (use Cons.prems Some in simp_all)
    obtain e z where sec: "account_section now (rate ?i) a (zs ?i) = (e, z)" by (cases "account_section now (rate ?i) a (zs ?i)")
    obtain delay where delay: "req_delay e (rate ?i) = Some delay" using Cons.prems(4) by (auto simp: req_delay_def)
    have "r < length ?nodes" "?nodes ! r = node(?i := None)" using Cons.prems(2) by simp_all
    from Cons.IH [OF inv this ls, of "if rl_nodelay l then max_delay else if delay > max_delay then delay else max_delay"] obtain d zs' where
      *: "account_loop now rate ls (if rl_nodelay l then max_delay else if delay > max_delay then delay else max_delay) (node(?i := None)) ?zs = Some (d, cleared ls (node(?i := None)), zs')"
      "req_inv used zs' (nodes[r := cleared ls (node(?i := None))])" "rtranclp (req_step alloc free) (?zs, ?nodes) (zs', nodes[r := cleared ls (node(?i := None))])"
      "\<And>i. zs' i = (case (node(?i := None)) i of Some a \<Rightarrow> if i \<in> rl_zone ` set ls then snd (account_section now (rate i) a (?zs i)) else ?zs i | None \<Rightarrow> ?zs i)"
      by (simp only: list_update_overwrite) blast
    have "account_loop now rate (l # ls) max_delay node zs = Some (d, cleared (l # ls) node, zs')"
      using *(1) Some sec delay by (auto simp: cleared_simps(2) Let_def simp del: fun_upd_apply split: if_splits)
    moreover have "rtranclp (req_step alloc free) (zs, nodes) (zs', nodes[r := cleared (l # ls) node])"
      using step *(3) unfolding cleared_simps(2) by (rule converse_rtranclp_into_rtranclp)
    moreover have "zs' i = (case node i of Some a \<Rightarrow> if i \<in> rl_zone ` set (l # ls) then snd (account_section now (rate i) a (zs i)) else zs i | None \<Rightarrow> zs i)" for i
      unfolding *(4) [of i] using Some by (cases "i = ?i") (auto split: option.splits)
    ultimately show ?thesis using *(2) unfolding cleared_simps(2) by blast
  qed
qed

lemma charge_pending:
  assumes "pending k ob (Some a) z"
  shows "charged now rate ob (req_bucket (snd (account_section now rate a z)) k)"
proof -
  let ?z = "snd (account_section now rate a z)"
  have z: "req_node z k = Some (Some a)" "\<And>b. ob = Some b \<Longrightarrow> lr_excess z a = b_excess b \<and> lr_last z a = b_last b"
    using assms by (auto simp: pending_def)
  have "req_node ?z k = req_node z k" by (simp add: req_node_def account_section_def Let_def)
  then have b: "req_bucket ?z k = Some (bucket_at ?z a)" using z(1) by (simp add: req_bucket_def)
  have "lr_last ?z a = now" "lr_excess ?z a = of_int (level now rate (bucket_at z a))"
    by (simp_all add: account_section_def Let_def level_def max_def)
  moreover have "level now rate (bucket_at z a) = level now rate b" if "ob = Some b" for b
    using z(2) [OF that] by (simp add: level_def)
  ultimately show ?thesis unfolding b charged_def by auto
qed


definition handler_outcome ::
  "'p slab_alloc \<Rightarrow> 64 word \<Rightarrow> (nat \<Rightarrow> 64 word) \<Rightarrow> (nat \<Rightarrow> 8 word list option) \<Rightarrow> bool \<Rightarrow> req_conf \<Rightarrow> (nat \<Rightarrow> 'p req_zone) \<Rightarrow>
   int \<Rightarrow> bool \<Rightarrow> 64 word option \<Rightarrow> (nat \<Rightarrow> 'p req_zone) \<Rightarrow> bool"
where
  "handler_outcome alloc now rate key read_ok conf zs rc limit_req_set delay zs' \<longleftrightarrow>
     (\<forall>l \<in> set (rl_limits conf). limit_key key l = None) \<and> rc = NGX_DECLINED \<and> \<not> limit_req_set \<and> delay = None \<and> zs' = zs \<or>
     limit_req_set \<and> rc = rl_status_code conf \<and> delay = None \<and>
       ((\<exists>l \<in> set (rl_limits conf). exceeded now rate key zs l) \<or> (\<exists>n p. fst (alloc n p) = None)) \<or>
     limit_req_set \<and>
       (\<forall>l \<in> set (rl_limits conf). \<not> exceeded now rate key zs l \<and> (\<forall>k. limit_key key l = Some k \<longrightarrow>
          charged now (rate (rl_zone l)) (req_bucket (zs (rl_zone l)) k) (req_bucket (zs' (rl_zone l)) k))) \<and>
       (rc = NGX_DECLINED \<and> delay = None \<or> \<not> read_ok \<and> rc = NGX_HTTP_INTERNAL_SERVER_ERROR \<and> delay = None \<or>
        read_ok \<and> rc = NGX_AGAIN \<and> (\<exists>d. d \<noteq> 0 \<and> delay = Some d))"

lemma handler_ok:
  assumes "slab_laws used alloc free" "req_inv used zs nodes" "r < length nodes" "distinct (map rl_zone (rl_limits conf))"
    and "\<forall>l \<in> set (rl_limits conf). key (rl_zone l) \<noteq> None \<and> rate (rl_zone l) \<noteq> 0 \<and> (nodes ! r) (rl_zone l) = None"
  shows "\<exists>rc flag delay zs'.
    ngx_http_limit_req_handler alloc free now rate key read_ok conf False (nodes ! r) zs = Some (rc, flag, delay, nodes ! r, zs') \<and>
    req_inv used zs' nodes \<and> rtranclp (req_step alloc free) (zs, nodes) (zs', nodes) \<and>
    handler_outcome alloc now rate key read_ok conf zs rc flag delay zs'"
proof -
  let ?ls = "rl_limits conf" and ?node = "nodes ! r"
  have keys: "\<forall>l \<in> set ?ls. key (rl_zone l) \<noteq> None" "\<forall>l \<in> set ?ls. ?node (rl_zone l) = None" and rates: "\<forall>l \<in> set ?ls. rate (rl_zone l) \<noteq> 0"
    using assms(5) by blast+
  obtain rc n ep limit node' zs1 where
    run: "limit_req_loop alloc free now rate key ?ls 0 NGX_DECLINED 0 None ?node zs = Some (Some (rc, n, ep, limit), node', zs1)"
    and res: "loop_result used alloc free now rate key ?ls 0 NGX_DECLINED None ?node zs nodes r (rc, n, ep, limit) node' zs1"
    using loop_ok [OF assms(1) keys(1) assms(4,2,3) refl keys(2), of NGX_DECLINED now rate 0 0 None] by (auto simp: split_paired_all)
  from res have l: "req_inv used zs1 (nodes[r := node'])" "rtranclp (req_step alloc free) (zs, nodes) (zs1, nodes[r := node'])"
    "\<And>i. i \<notin> rl_zone ` set (take n ?ls) \<Longrightarrow> node' i = ?node i" "limit = None \<longrightarrow> ?ls = []" "\<forall>l. limit = Some l \<longrightarrow> l \<in> set ?ls"
    "if \<forall>l \<in> set ?ls. limit_key key l = None then rc = NGX_DECLINED \<and> zs1 = zs \<and> node' = ?node else rc \<in> {NGX_OK, NGX_AGAIN, NGX_BUSY, NGX_ERROR}"
    "if rc \<in> {NGX_BUSY, NGX_ERROR} then (\<exists>l \<in> set ?ls. exceeded now rate key zs l) \<or> (\<exists>n p. fst (alloc n p) = None)
     else (\<forall>l \<in> set ?ls. \<not> exceeded now rate key zs l \<and> passed now rate key zs node' zs1 l)"
    by (simp_all add: loop_result_def del: insert_iff empty_iff)
  let ?nodes = "nodes[r := node']" and ?rev = "rev (take n ?ls)"
  have r: "r < length ?nodes" "?nodes ! r = node'" using assms(3) by simp_all
  have clear: "cleared ?rev node' = ?node"
  proof
    fix i
    show "cleared ?rev node' i = ?node i"
    proof (cases "i \<in> rl_zone ` set (take n ?ls)")
      case True
      then have "i \<in> rl_zone ` set ?ls" using set_take_subset by fast
      then have "?node i = None" using keys(2) by auto
      then show ?thesis using True by (simp add: cleared_def)
    next
      case False
      then show ?thesis using l(3) by (simp add: cleared_def)
    qed
  qed
  have restored: "?nodes[r := ?node] = nodes" by simp
  have subset: "set ?rev \<subseteq> set ?ls" by (simp add: set_take_subset)
  show ?thesis
  proof (cases "\<forall>l \<in> set ?ls. limit_key key l = None")
    case True
    then have "ngx_http_limit_req_handler alloc free now rate key read_ok conf False ?node zs = Some (NGX_DECLINED, False, None, ?node, zs)"
      using run l(6) by (simp add: ngx_http_limit_req_handler_def)
    then show ?thesis using True assms(2) by (auto simp: handler_outcome_def)
  next
    case False
    then have rc: "rc \<in> {NGX_OK, NGX_AGAIN, NGX_BUSY, NGX_ERROR}" "?ls \<noteq> []" using l(6) by (simp_all only: if_False, force)
    show ?thesis
    proof (cases "rc \<in> {NGX_BUSY, NGX_ERROR}")
      case True
      from undo_ok [OF l(1) r, of ?rev alloc free, unfolded clear restored] obtain zs' where
        u: "limit_req_undo ?rev node' zs1 = (?node, zs')" "req_inv used zs' nodes" "rtranclp (req_step alloc free) (zs1, ?nodes) (zs', nodes)"
        by blast
      have "ngx_http_limit_req_handler alloc free now rate key read_ok conf False ?node zs = Some (rl_status_code conf, True, None, ?node, zs')"
        using run u(1) True by (auto simp: ngx_http_limit_req_handler_def)
      moreover have "handler_outcome alloc now rate key read_ok conf zs (rl_status_code conf) True None zs'"
        using l(7) True by (simp add: handler_outcome_def)
      ultimately show ?thesis using u(2) rtranclp_trans [OF l(2) u(3)] by blast
    next
      case False
      then have ok: "rc = NGX_OK \<or> rc = NGX_AGAIN" "\<forall>l \<in> set ?ls. \<not> exceeded now rate key zs l \<and> passed now rate key zs node' zs1 l"
        using rc(1) l(7) by auto
      obtain lim where lim: "limit = Some lim" using l(4) rc(2) by (cases limit) auto
      then have rate: "rate (rl_zone lim) \<noteq> 0" using l(5) rates by blast
      let ?ex = "if rc = NGX_AGAIN then 0 else ep"
      obtain md where md: "(if sint ?ex = 0 \<or> rl_nodelay lim then Some 0 else req_delay (sint ?ex) (rate (rl_zone lim))) = Some md"
        using that [of 0] that [of "of_int (sint ?ex * 1000) div rate (rl_zone lim)"] rate
        by (cases "sint ?ex = 0 \<or> rl_nodelay lim") (simp_all add: req_delay_def)
      have "\<forall>l \<in> set ?rev. rate (rl_zone l) \<noteq> 0" "distinct (map rl_zone ?rev)"
        using rates subset assms(4) distinct_take [of "map rl_zone ?ls" n] by (auto simp: take_map simp flip: rev_map)
      from account_loop_ok [OF l(1) r this, of now md alloc free, unfolded clear restored] obtain d zs' where
        a: "account_loop now rate ?rev md node' zs1 = Some (d, ?node, zs')" "req_inv used zs' nodes"
          "rtranclp (req_step alloc free) (zs1, ?nodes) (zs', nodes)"
          "\<And>i. zs' i = (case node' i of Some a \<Rightarrow> if i \<in> rl_zone ` set ?rev then snd (account_section now (rate i) a (zs1 i)) else zs1 i | None \<Rightarrow> zs1 i)"
        by blast
      have acc: "ngx_http_limit_req_account now rate ?ls n ?ex lim node' zs1 = Some (d, ?node, zs')"
        using md a(1) by (simp add: ngx_http_limit_req_account_def)
      have charged: "charged now (rate (rl_zone l)) (req_bucket (zs (rl_zone l)) k) (req_bucket (zs' (rl_zone l)) k)"
        if k: "l \<in> set ?ls" "limit_key key l = Some k" for l k
      proof -
        let ?i = "rl_zone l"
        have "passed now rate key zs node' zs1 l" using ok(2) k(1) by blast
        then have "pending k (req_bucket (zs ?i) k) (node' ?i) (zs1 ?i) \<or>
            node' ?i = None \<and> charged now (rate ?i) (req_bucket (zs ?i) k) (req_bucket (zs1 ?i) k)"
          using k(2) by (simp add: passed_def Let_def)
        then consider "pending k (req_bucket (zs ?i) k) (node' ?i) (zs1 ?i)"
          | "node' ?i = None" "charged now (rate ?i) (req_bucket (zs ?i) k) (req_bucket (zs1 ?i) k)"
          by (elim disjE conjE)
        then show ?thesis
        proof cases
          case 1
          then obtain a where n: "node' ?i = Some a" by (auto simp: pending_def)
          have "?node ?i = None" using keys(2) k(1) by blast
          then have "?i \<in> rl_zone ` set ?rev" using l(3) [of ?i] n by auto
          then have "zs' ?i = snd (account_section now (rate ?i) a (zs1 ?i))" using a(4) [of ?i] n by simp
          then show ?thesis using charge_pending 1 n by simp
        next
          case 2
          then show ?thesis using a(4) [of ?i] by simp
        qed
      qed
      define rc' where "rc' = (if d = 0 then NGX_DECLINED else if \<not> read_ok then NGX_HTTP_INTERNAL_SERVER_ERROR else NGX_AGAIN)"
      define delay where "delay = (if d = 0 \<or> \<not> read_ok then None else Some d)"
      have "ngx_http_limit_req_handler alloc free now rate key read_ok conf False ?node zs = Some (rc', True, delay, ?node, zs')"
        using run ok(1) lim acc by (auto simp: ngx_http_limit_req_handler_def rc'_def delay_def)
      moreover have "handler_outcome alloc now rate key read_ok conf zs rc' True delay zs'"
        using ok(2) charged by (auto simp: handler_outcome_def rc'_def delay_def)
      ultimately show ?thesis using a(2) rtranclp_trans [OF l(2) a(3)] by blast
    qed
  qed
qed

lemma fresh_req_inv: "\<forall>i. fresh_req_zone used (zs i) \<Longrightarrow> n < 4294967296 \<Longrightarrow> req_inv used zs (replicate n (\<lambda>i. None))"
  unfolding req_inv_def using fresh_req_ok by (fastforce simp: holders_def)

subsection \<open>Properties\<close>

text \<open>C9: References are safe under every interleaving of processes: from empty zones, whatever sections the
  processes run, in any order and number, a node that a process refers to is in the tree of its zone,
  found by its key, and allocated, the count of the node is the number of the processes that refer to it, and
  no lookup that a process may start fails.\<close>

theorem limit_req_references:
  assumes "slab_laws used alloc free" "\<forall>i. fresh_req_zone used (zs0 i)" "n < 4294967296"
    and "rtranclp (req_step alloc free) (zs0, replicate n (\<lambda>i. None)) (zs, nodes)" "r < length nodes"
  shows "case (nodes ! r) i of
      Some a \<Rightarrow> req_node (zs i) (lr_data (zs i) a) = Some (Some a) \<and> a \<in> used (lr_pool (zs i)) \<and> unat (lr_count (zs i) a) = holders nodes i a
    | None \<Rightarrow> \<forall>k. length k < 65536 \<longrightarrow>
        ngx_http_limit_req_lookup alloc free now rate burst (ngx_crc32_short k) k account (zs i) \<noteq> None"
proof -
  have inv: "req_inv used zs nodes" using req_steps_inv [OF assms(4,1)] fresh_req_inv [OF assms(2,3)] by simp
  then obtain as where as: "req_ok used (zs i) as" "\<forall>a \<in> set as. unat (lr_count (zs i) a) = holders nodes i a"
    "\<forall>a. holders nodes i a > 0 \<longrightarrow> a \<in> set as"
    unfolding req_inv_def by blast
  show ?thesis
  proof (cases "(nodes ! r) i")
    case None
    then show ?thesis using lookup_ok [OF assms(1) as(1)] by (fastforce simp: lookup_refines_def)
  next
    case (Some a)
    have "nodes ! r \<in> set (filter (\<lambda>node. node i = Some a) nodes)" using Some assms(5) by simp
    then have "holders nodes i a > 0" unfolding holders_def by (rule length_pos_if_in_set)
    then have a: "a \<in> set as" using as(3) by blast
    obtain D where D: "req_tree used (zs i) D" "ran D = set as" using as(1) by (auto simp: req_ok_def)
    then have "a \<in> used (lr_pool (zs i))" using a by (auto simp: zone_tree_def)
    moreover have "D (zone_key (lr_data (zs i) a)) = Some a" using zone_tree_nodes(3) [OF D(1)] D(2) a by blast
    then have "req_node (zs i) (lr_data (zs i) a) = Some (Some a)" using zone_tree_search [OF D(1)] by (simp add: req_node_def)
    ultimately show ?thesis using Some as(2) a by simp
  qed
qed

lemma limit_req_references_witness:
  "\<exists>zs nodes a. rtranclp (req_step sample_alloc removeAll) (\<lambda>i. sample_req_zone, replicate 2 (\<lambda>i. None)) (zs, nodes) \<and>
    (nodes ! 1) 0 = Some a \<and> lr_count (zs 0) a = 1 \<and> req_node (zs 0) (lr_data (zs 0) a) = Some (Some a)"
proof -
  obtain a z where z: "ngx_http_limit_req_lookup sample_alloc removeAll 5 1000 0 (ngx_crc32_short [97]) [97] False sample_req_zone =
      Some (NGX_AGAIN, 0, Some a, z)"
    using lookup_ok [OF sample_slab fresh_req_ok [OF sample_req_fresh], of "[97]" 5 1000 0 False] sample_alloc_room
    by (auto simp: lookup_refines_def bucket_lookup_def survivors_def split: if_splits)
  let ?zs = "(\<lambda>i. sample_req_zone)(0 := z)" and ?nodes = "[\<lambda>i. None, (\<lambda>i. None)(0 := Some a)]"
  have "req_step sample_alloc removeAll (\<lambda>i. sample_req_zone, replicate 2 (\<lambda>i. None)) (?zs, ?nodes)"
    using step_lookup [of 1 "replicate 2 (\<lambda>i. None)" "\<lambda>i. None" 0 "[97]" sample_alloc removeAll 5 1000 0 False "\<lambda>i. sample_req_zone"
      NGX_AGAIN 0 "Some a" z] z by (simp add: numeral_2_eq_2)
  then have steps: "rtranclp (req_step sample_alloc removeAll) (\<lambda>i. sample_req_zone, replicate 2 (\<lambda>i. None)) (?zs, ?nodes)"
    by (rule r_into_rtranclp)
  have "req_node (?zs 0) (lr_data (?zs 0) a) = Some (Some a) \<and> unat (lr_count (?zs 0) a) = 1"
    using limit_req_references [where r = 1 and i = 0, OF sample_slab _ _ steps] sample_req_fresh by (simp add: holders_def)
  then have "req_node (?zs 0) (lr_data (?zs 0) a) = Some (Some a)" "lr_count (?zs 0) a = 1"
    by (blast, metis unat_1 word_unat_eq_iff)
  then show ?thesis using steps by (intro exI [of _ ?zs] exI [of _ ?nodes] exI [of _ a]) simp
qed

text \<open>C10: One call of the handler in any such state, when the keys can be evaluated, each zone appears once and the
  process refers to no node of theirs: it returns after steps of this kind, with the contexts as they were and every count as it was.
  If no limit applies it declines and does nothing. Otherwise it either returns the configured status,
  and then a bucket was too full or memory ran out, or no bucket was too full and the request has been
  added to the bucket of every limit that applies; then it declines, or sets a timer and returns \<open>NGX_AGAIN\<close>.\<close>

theorem limit_req_handler_correct:
  assumes "slab_laws used alloc free" "req_inv used zs nodes" "r < length nodes" "distinct (map rl_zone (rl_limits conf))"
    and "\<forall>l \<in> set (rl_limits conf). key (rl_zone l) \<noteq> None \<and> rate (rl_zone l) \<noteq> 0 \<and> (nodes ! r) (rl_zone l) = None"
  shows "\<exists>rc flag delay zs'.
    ngx_http_limit_req_handler alloc free now rate key read_ok conf False (nodes ! r) zs = Some (rc, flag, delay, nodes ! r, zs') \<and>
    req_inv used zs' nodes \<and> rtranclp (req_step alloc free) (zs, nodes) (zs', nodes) \<and>
    ((\<forall>l \<in> set (rl_limits conf). limit_key key l = None) \<and> rc = NGX_DECLINED \<and> \<not> flag \<and> delay = None \<and> zs' = zs \<or>
     flag \<and> rc = rl_status_code conf \<and> delay = None \<and>
       ((\<exists>l \<in> set (rl_limits conf). exceeded now rate key zs l) \<or> (\<exists>n p. fst (alloc n p) = None)) \<or>
     flag \<and>
       (\<forall>l \<in> set (rl_limits conf). \<not> exceeded now rate key zs l \<and> (\<forall>k. limit_key key l = Some k \<longrightarrow>
          charged now (rate (rl_zone l)) (req_bucket (zs (rl_zone l)) k) (req_bucket (zs' (rl_zone l)) k))) \<and>
       (rc = NGX_DECLINED \<and> delay = None \<or> \<not> read_ok \<and> rc = NGX_HTTP_INTERNAL_SERVER_ERROR \<and> delay = None \<or>
        read_ok \<and> rc = NGX_AGAIN \<and> (\<exists>d. d \<noteq> 0 \<and> delay = Some d)))"
  using handler_ok [OF assms, of now read_ok] by (simp only: handler_outcome_def)

lemma limit_req_handler_correct_witness:
  "\<exists>rc delay zs'. ngx_http_limit_req_handler sample_alloc removeAll 5 (\<lambda>i. 1000) (\<lambda>i. Some [97]) True
     \<lparr>rl_limits = [\<lparr>rl_zone = 0, rl_burst = 0, rl_nodelay = False\<rparr>, \<lparr>rl_zone = 1, rl_burst = 0, rl_nodelay = False\<rparr>], rl_status_code = 503\<rparr>
     False (\<lambda>i. None) (\<lambda>i. sample_req_zone) = Some (rc, True, delay, \<lambda>i. None, zs') \<and>
     charged 5 1000 None (req_bucket (zs' 0) [97]) \<and> charged 5 1000 None (req_bucket (zs' 1) [97])"
proof -
  have "req_inv set (\<lambda>i. sample_req_zone) [\<lambda>i. None]"
    using fresh_req_inv [of set "\<lambda>i. sample_req_zone" 1] sample_req_fresh by simp
  moreover have none: "req_bucket sample_req_zone [97] = None"
    using req_bucket_ok [OF fresh_req_ok [OF sample_req_fresh]] by simp
  ultimately show ?thesis
    using limit_req_handler_correct [OF sample_slab, of "\<lambda>i. sample_req_zone" "[\<lambda>i. None]" 0
      "\<lparr>rl_limits = [\<lparr>rl_zone = 0, rl_burst = 0, rl_nodelay = False\<rparr>, \<lparr>rl_zone = 1, rl_burst = 0, rl_nodelay = False\<rparr>], rl_status_code = 503\<rparr>"
      "\<lambda>i. Some [97]" "\<lambda>i. 1000" 5 True] sample_alloc_room
    by (auto simp: limit_key_def exceeded_def)
qed

text \<open>
  When the key of a later limit cannot be evaluated, the handler returns an error but leaves the references
  to the nodes of the earlier limits in the contexts: they are counted for good, as the next request of the process
  overwrites them.
\<close>

lemma limit_req_leak:
  assumes "slab_laws used alloc free" "req_inv used zs nodes" "r < length nodes" "key (rl_zone l) = Some k" "k \<noteq> []" "length k \<le> 65535"
    and "key (rl_zone l') = None" "(nodes ! r) (rl_zone l) = None" "\<not> exceeded now rate key zs l" "\<forall>n p. fst (alloc n p) \<noteq> None"
  shows "\<exists>a zs'. ngx_http_limit_req_handler alloc free now rate key read_ok \<lparr>rl_limits = [l, l'], rl_status_code = status\<rparr> False (nodes ! r) zs =
      Some (NGX_HTTP_INTERNAL_SERVER_ERROR, False, None, (nodes ! r)(rl_zone l := Some a), zs') \<and>
    req_inv used zs' (nodes[r := (nodes ! r)(rl_zone l := Some a)])"
proof -
  let ?i = "rl_zone l"
  have "length k < 65536" using assms(6) by simp
  note look = lookup_inv [OF assms(1-3,8) this, of now "rate ?i" "rl_burst l" False]
  obtain rc ep lr z where *: "ngx_http_limit_req_lookup alloc free now (rate ?i) (rl_burst l) (ngx_crc32_short k) k False (zs ?i) = Some (rc, ep, lr, z)"
    "req_inv used (zs(?i := z)) (nodes[r := (case lr of None \<Rightarrow> nodes ! r | Some a \<Rightarrow> (nodes ! r)(?i := Some a))])"
    "lr = None \<longleftrightarrow> rc \<noteq> NGX_AGAIN" "rc = NGX_BUSY \<longleftrightarrow> (\<exists>b. req_bucket (zs ?i) k = Some b \<and> of_int (level now (rate ?i) b) > rl_burst l)"
    "rc = NGX_ERROR \<longrightarrow> (\<exists>n p. fst (alloc n p) = None)" "rc \<in> {NGX_BUSY, NGX_ERROR, if False then NGX_OK else NGX_AGAIN}"
    by (rule look)
  have "rc \<noteq> NGX_BUSY" using *(4) assms(4-6,9) by (auto simp: exceeded_def limit_key_def)
  then have rc: "rc = NGX_AGAIN" using *(5,6) assms(10) by auto
  then obtain a where a: "lr = Some a" using *(3) by (cases lr) auto
  then show ?thesis using *(1,2) rc assms(4-7)
    by (intro exI [of _ a] exI [of _ "zs(?i := z)"]) (auto simp: ngx_http_limit_req_handler_def Let_def)
qed

end
