(* ===== verification/Limit_Conn.thy ===== *)
theory Limit_Conn
  imports Zone_Tree "HOL-Library.Multiset"
begin

section \<open>Limiting connections\<close>

text \<open>
  \<open>src/http/modules/ngx_http_limit_conn_module.c\<close>: a shared memory zone counts the requests being processed for
  each key in the nodes of a red-black tree, ordered by the checksum of the key and then the key
  itself. A request adds a cleanup to its pool for each node it is counted in. What a process does
  between taking and releasing the mutex of a zone is one definition and one step.

  Addresses of nodes are those of their \<open>ngx_rbtree_node_t\<close>; the fields of
  \<open>ngx_http_limit_conn_node_t\<close>, which overlay it from \<open>color\<close> on, are kept in functions of that address.
\<close>

subsection \<open>The code\<close>

record 'p conn_zone =
  lc_sentinel :: addr
  lc_tree :: rbtree
  lc_data :: "addr \<Rightarrow> 8 word list"
  lc_conn :: "addr \<Rightarrow> 16 word"
  lc_pool :: 'p

definition ngx_http_limit_conn_lookup :: "'p conn_zone \<Rightarrow> 8 word list \<Rightarrow> 32 word \<Rightarrow> addr option option" where
  "ngx_http_limit_conn_lookup z key hash =
     rb_search (data_cmp (lc_data z) (ucast hash, key)) (lc_sentinel z) (rb_root (lc_tree z)) (lc_tree z)"

datatype conn_outcome = No_memory | Too_many | Counted addr

text \<open>
  The part of the handler under the mutex. The node is allocated with the size of the two structures
  up to their last member, 32 and 4 bytes, and the key.
\<close>

definition limit_conn_section ::
  "'p slab_alloc \<Rightarrow> 64 word \<Rightarrow> 8 word list \<Rightarrow> 'p conn_zone \<Rightarrow> (conn_outcome \<times> 'p conn_zone) option"
where
  "limit_conn_section alloc limit key z = do {
     let hash = ngx_crc32_short key;
     node \<leftarrow> ngx_http_limit_conn_lookup z key hash;
     case node of
       None \<Rightarrow>
         (case alloc (32 + 4 + length key) (lc_pool z) of
            (None, p) \<Rightarrow> Some (No_memory, z\<lparr>lc_pool := p\<rparr>)
          | (Some node, p) \<Rightarrow> do {
              t \<leftarrow> wr (\<lambda>n. n\<lparr>rb_key := ucast hash\<rparr>) node (lc_tree z);
              let len = unat (of_nat (length key) :: 8 word);
              let z = z\<lparr>lc_pool := p, lc_conn := (lc_conn z)(node := 1), lc_data := (lc_data z)(node := take len key)\<rparr>;
              t \<leftarrow> ngx_rbtree_insert (rb_insert_by (data_less (lc_data z))) (lc_sentinel z) node t;
              Some (Counted node, z\<lparr>lc_tree := t\<rparr>)
            })
     | Some node \<Rightarrow>
         if ucast (lc_conn z node) \<ge> limit then Some (Too_many, z)
         else Some (Counted node, z\<lparr>lc_conn := (lc_conn z)(node := lc_conn z node + 1)\<rparr>)
   }"

definition ngx_http_limit_conn_cleanup :: "'p slab_free \<Rightarrow> addr \<Rightarrow> 'p conn_zone \<Rightarrow> 'p conn_zone option" where
  "ngx_http_limit_conn_cleanup free node z = do {
     let z = z\<lparr>lc_conn := (lc_conn z)(node := lc_conn z node - 1)\<rparr>;
     if lc_conn z node = 0 then do {
       t \<leftarrow> ngx_rbtree_delete (lc_sentinel z) node (lc_tree z);
       Some (z\<lparr>lc_tree := t, lc_pool := free node (lc_pool z)\<rparr>)
     } else Some z
   }"

text \<open>The cleanups of a pool, the last added first: those of this module, with the zone and the node, and others.\<close>

datatype cleanup = Conn_cleanup nat addr | Other_cleanup

fun ngx_http_limit_conn_cleanup_all ::
  "'p slab_free \<Rightarrow> cleanup list \<Rightarrow> (nat \<Rightarrow> 'p conn_zone) \<Rightarrow> (cleanup list \<times> (nat \<Rightarrow> 'p conn_zone)) option"
where
  "ngx_http_limit_conn_cleanup_all free (Conn_cleanup i node # cs) zs = do {
     z \<leftarrow> ngx_http_limit_conn_cleanup free node (zs i);
     ngx_http_limit_conn_cleanup_all free cs (zs(i := z))
   }"
| "ngx_http_limit_conn_cleanup_all free cs zs = Some (cs, zs)"

record conn_limit =
  limit_zone :: nat
  limit_conn :: "64 word"

record conn_conf =
  limits :: "conn_limit list"
  status_code :: int

text \<open>
  The handler: \<open>key i\<close> is the value of the key of zone \<open>i\<close> for the request, or none if its evaluation
  fails; \<open>room n\<close> says whether the pool has memory for a cleanup when \<open>n\<close> limits are left. The result is
  the return code, \<open>limit_conn_set\<close>, the cleanups of the pool and the zones.
\<close>

type_synonym 'p conn_result = "int \<times> bool \<times> cleanup list \<times> (nat \<Rightarrow> 'p conn_zone)"


fun limit_conn_loop ::
  "'p slab_alloc \<Rightarrow> 'p slab_free \<Rightarrow> (nat \<Rightarrow> 8 word list option) \<Rightarrow> (nat \<Rightarrow> bool) \<Rightarrow> int \<Rightarrow> conn_limit list \<Rightarrow>
   bool \<Rightarrow> cleanup list \<Rightarrow> (nat \<Rightarrow> 'p conn_zone) \<Rightarrow> 'p conn_result option"
where
  "limit_conn_loop alloc free key room status [] limit_conn_set cs zs = Some (NGX_DECLINED, limit_conn_set, cs, zs)"
| "limit_conn_loop alloc free key room status (l # ls) limit_conn_set cs zs =
     (case key (limit_zone l) of
        None \<Rightarrow> Some (NGX_HTTP_INTERNAL_SERVER_ERROR, limit_conn_set, cs, zs)
      | Some k \<Rightarrow>
          if length k = 0 then limit_conn_loop alloc free key room status ls limit_conn_set cs zs
          else if length k > 255 then limit_conn_loop alloc free key room status ls limit_conn_set cs zs
          else do {
            (outcome, z) \<leftarrow> limit_conn_section alloc (limit_conn l) k (zs (limit_zone l));
            let zs = zs(limit_zone l := z);
            case outcome of
              Counted node \<Rightarrow>
                if room (length ls)
                then limit_conn_loop alloc free key room status ls True (Conn_cleanup (limit_zone l) node # cs) zs
                else Some (NGX_HTTP_INTERNAL_SERVER_ERROR, True, cs, zs)
            | _ \<Rightarrow> do {
                (cs, zs) \<leftarrow> ngx_http_limit_conn_cleanup_all free cs zs;
                Some (status, True, cs, zs)
              }
          })"

definition ngx_http_limit_conn_handler ::
  "'p slab_alloc \<Rightarrow> 'p slab_free \<Rightarrow> (nat \<Rightarrow> 8 word list option) \<Rightarrow> (nat \<Rightarrow> bool) \<Rightarrow> conn_conf \<Rightarrow>
   bool \<Rightarrow> cleanup list \<Rightarrow> (nat \<Rightarrow> 'p conn_zone) \<Rightarrow> 'p conn_result option"
where
  "ngx_http_limit_conn_handler alloc free key room conf limit_conn_set cs zs =
     (if limit_conn_set then Some (NGX_DECLINED, limit_conn_set, cs, zs)
      else limit_conn_loop alloc free key room (status_code conf) (limits conf) limit_conn_set cs zs)"

text \<open>What is left to run of the cleanups of a pool when it is destroyed; others do nothing to the zones.\<close>

fun run_cleanups :: "'p slab_free \<Rightarrow> cleanup list \<Rightarrow> (nat \<Rightarrow> 'p conn_zone) \<Rightarrow> (nat \<Rightarrow> 'p conn_zone) option" where
  "run_cleanups free [] zs = Some zs"
| "run_cleanups free (Conn_cleanup i node # cs) zs = do {
     z \<leftarrow> ngx_http_limit_conn_cleanup free node (zs i);
     run_cleanups free cs (zs(i := z))
   }"
| "run_cleanups free (Other_cleanup # cs) zs = run_cleanups free cs zs"

subsection \<open>What a zone counts\<close>

text \<open>
  \<open>counts used z D c\<close>: the tree of the zone is the dictionary \<open>D\<close> of hashes and keys, its nodes are allocated
  and \<open>c\<close>, which is 0 elsewhere, is what they count.
\<close>

abbreviation (input) conn_tree ::
  "('p \<Rightarrow> addr set) \<Rightarrow> 'p conn_zone \<Rightarrow> (64 word \<times> 8 word list \<rightharpoonup> addr) \<Rightarrow> bool"
where
  "conn_tree used z \<equiv> zone_tree used (lc_data z) (lc_sentinel z) (lc_tree z) (lc_pool z)"

definition counts :: "('p \<Rightarrow> addr set) \<Rightarrow> 'p conn_zone \<Rightarrow> (64 word \<times> 8 word list \<rightharpoonup> addr) \<Rightarrow> (addr \<Rightarrow> nat) \<Rightarrow> bool" where
  "counts used z D c \<longleftrightarrow> conn_tree used z D \<and>
     (\<forall>a. c a = (if a \<in> ran D then unat (lc_conn z a) else 0)) \<and> (\<forall>a \<in> ran D. lc_conn z a \<noteq> 0)"

lemma counts_tree: "counts used z D c \<Longrightarrow> conn_tree used z D"
  by (simp add: counts_def)

lemma ucast_up_unat: "unat (ucast w :: 64 word) = unat w" for w :: "16 word"
  by transfer simp

lemma counts_lookup:
  assumes "counts used z D c"
  shows "ngx_http_limit_conn_lookup z k (ngx_crc32_short k) = Some (D (zone_key k))"
  using zone_tree_search [OF counts_tree [OF assms]] by (simp add: ngx_http_limit_conn_lookup_def)

lemma counts_known:
  assumes "counts used z D c" "D (zone_key k) = Some a" "limit \<le> 65535"
  shows "limit_conn_section alloc (of_nat limit) k z =
    (if limit \<le> c a then Some (Too_many, z) else Some (Counted a, z\<lparr>lc_conn := (lc_conn z)(a := lc_conn z a + 1)\<rparr>))"
    and "c a < limit \<Longrightarrow> counts used (z\<lparr>lc_conn := (lc_conn z)(a := lc_conn z a + 1)\<rparr>) D (c(a := Suc (c a)))"
proof -
  have a: "a \<in> ran D" by (rule ranI [of D, OF assms(2)])
  then have c: "c a = unat (lc_conn z a)" using assms(1) by (simp add: counts_def)
  have "(of_nat limit :: 64 word) \<le> ucast (lc_conn z a) \<longleftrightarrow> limit \<le> c a"
  proof -
    have "unat (of_nat limit :: 64 word) = limit" using assms(3) by (simp add: unat_of_nat take_bit_nat_eq_self)
    moreover have "unat (ucast (lc_conn z a) :: 64 word) = unat (lc_conn z a)"
      by (rule ucast_up_unat)
    ultimately show ?thesis by (simp add: word_le_nat_alt c)
  qed
  then show "limit_conn_section alloc (of_nat limit) k z =
    (if limit \<le> c a then Some (Too_many, z) else Some (Counted a, z\<lparr>lc_conn := (lc_conn z)(a := lc_conn z a + 1)\<rparr>))"
    using counts_lookup [OF assms(1)] assms(2) by (simp add: limit_conn_section_def Let_def)
  assume "c a < limit"
  then have "unat (lc_conn z a + 1) = Suc (unat (lc_conn z a))"
    using assms(3) c by (simp add: unat_word_ariths)
  then show "counts used (z\<lparr>lc_conn := (lc_conn z)(a := lc_conn z a + 1)\<rparr>) D (c(a := Suc (c a)))"
    using assms(1) a c unat_eq_zero [of "lc_conn z a + 1"] by (simp add: counts_def)
qed

lemma counts_new:
  assumes "counts used z D c" "D (zone_key k) = None" "slab_laws used alloc free" "length k < 256"
    and "alloc (36 + length k) (lc_pool z) = (Some a, p)"
  shows "\<exists>z'. limit_conn_section alloc limit k z = Some (Counted a, z') \<and>
    counts used z' (D(zone_key k \<mapsto> a)) (c(a := 1)) \<and> a \<notin> ran D \<and> lc_data z' = (lc_data z)(a := k)"
proof -
  let ?data = "(lc_data z)(a := k)"
  obtain t t' where t: "wr (\<lambda>n. n\<lparr>rb_key := ucast (ngx_crc32_short k)\<rparr>) a (lc_tree z) = Some t"
    "ngx_rbtree_insert (rb_insert_by (data_less ?data)) (lc_sentinel z) a t = Some t'"
    "zone_tree used ?data (lc_sentinel z) t' p (D(zone_key k \<mapsto> a))" "a \<notin> insert (lc_sentinel z) (ran D)"
    "ran (D(zone_key k \<mapsto> a)) = insert a (ran D)"
    using zone_tree_store [OF counts_tree [OF assms(1)] assms(2,3,5)] by blast
  have len: "take (unat (of_nat (length k) :: 8 word)) k = k"
    using assms(4) by (simp add: unat_of_nat take_bit_nat_eq_self)
  let ?z = "z\<lparr>lc_pool := p, lc_conn := (lc_conn z)(a := 1), lc_data := ?data, lc_tree := t'\<rparr>"
  have "limit_conn_section alloc limit k z = Some (Counted a, ?z)"
    using counts_lookup [OF assms(1), of k] assms(2,5) len t(1,2)
    by (simp add: limit_conn_section_def Let_def)
  moreover have "counts used ?z (D(zone_key k \<mapsto> a)) (c(a := 1))"
    unfolding counts_def t(5) using assms(1) [unfolded counts_def] t(3,4) by auto
  ultimately show ?thesis using t(4) by auto
qed

lemma counts_no_memory:
  assumes "counts used z D c" "D (zone_key k) = None" "slab_laws used alloc free"
    and "alloc (36 + length k) (lc_pool z) = (None, p)"
  shows "limit_conn_section alloc limit k z = Some (No_memory, z\<lparr>lc_pool := p\<rparr>)" "counts used (z\<lparr>lc_pool := p\<rparr>) D c"
proof -
  have "used p = used (lc_pool z)" using assms(3,4) by (auto simp: slab_laws_def)
  then show "counts used (z\<lparr>lc_pool := p\<rparr>) D c"
    using assms(1) zone_tree_pool [OF counts_tree [OF assms(1)]] by (simp add: counts_def)
  show "limit_conn_section alloc limit k z = Some (No_memory, z\<lparr>lc_pool := p\<rparr>)"
    using counts_lookup [OF assms(1), of k] assms(2,4) by (simp add: limit_conn_section_def Let_def)
qed

lemma counts_cleanup:
  assumes "counts used z D c" "slab_laws used alloc free" "D q = Some a"
  shows "\<exists>z'. ngx_http_limit_conn_cleanup free a z = Some z' \<and>
    counts used z' (if c a = 1 then D(q := None) else D) (c(a := c a - 1)) \<and> lc_data z' = lc_data z"
proof -
  note ok = assms(1) [unfolded counts_def]
  have a: "a \<in> ran D" by (rule ranI [of D, OF assms(3)])
  then have nz: "lc_conn z a \<noteq> 0" and c: "c a = unat (lc_conn z a)" using ok by (blast, simp)
  have conn: "unat (lc_conn z a - 1) = c a - 1" using unat_minus_one [OF nz] c by simp
  show ?thesis
  proof (cases "c a = 1")
    case False
    then have nz': "lc_conn z a - 1 \<noteq> 0" using c by (metis diff_add_cancel add_0 unat_1)
    let ?z = "z\<lparr>lc_conn := (lc_conn z)(a := lc_conn z a - 1)\<rparr>"
    have "ngx_http_limit_conn_cleanup free a z = Some ?z" using nz' by (simp add: ngx_http_limit_conn_cleanup_def)
    moreover have "counts used ?z D (c(a := c a - 1))"
      unfolding counts_def
    proof (intro conjI allI ballI)
      fix b
      have "c b = (if b \<in> ran D then unat (lc_conn z b) else 0)" using ok by blast
      then show "(c(a := c a - 1)) b = (if b \<in> ran D then unat (lc_conn ?z b) else 0)"
        using a conn by (cases "b = a") simp_all
    next
      fix b assume "b \<in> ran D"
      then have "lc_conn z b \<noteq> 0" using ok by blast
      then show "lc_conn ?z b \<noteq> 0" using nz' by (cases "b = a") simp_all
    qed (use ok in simp_all)
    ultimately show ?thesis using False by simp
  next
    case True
    obtain t where t: "ngx_rbtree_delete (lc_sentinel z) a (lc_tree z) = Some t"
      "zone_tree used (lc_data z) (lc_sentinel z) t (free a (lc_pool z)) (D(q := None))" and ran: "ran (D(q := None)) = ran D - {a}"
      using zone_tree_drop [OF counts_tree [OF assms(1)] assms(3,2)] by blast
    let ?z = "z\<lparr>lc_conn := (lc_conn z)(a := lc_conn z a - 1), lc_tree := t, lc_pool := free a (lc_pool z)\<rparr>"
    have zero: "lc_conn z a - 1 = 0" using True c by (metis diff_self unat_1 word_unat_eq_iff)
    have "counts used ?z (D(q := None)) (c(a := c a - 1))"
      unfolding counts_def ran
    proof (intro conjI allI ballI)
      fix b
      have "c b = (if b \<in> ran D then unat (lc_conn z b) else 0)" using ok by blast
      then show "(c(a := c a - 1)) b = (if b \<in> ran D - {a} then unat (lc_conn ?z b) else 0)"
        using True by (cases "b = a") simp_all
    next
      fix b assume "b \<in> ran D - {a}"
      then have "lc_conn z b \<noteq> 0" "b \<noteq> a" using ok by auto
      then show "lc_conn ?z b \<noteq> 0" by simp
    qed (use t(2) in simp)
    moreover have "ngx_http_limit_conn_cleanup free a z = Some ?z"
      using zero t(1) by (simp add: ngx_http_limit_conn_cleanup_def)
    ultimately show ?thesis using True by simp
  qed
qed

subsection \<open>What is counted and what is to be cleaned up\<close>

text \<open>
  \<open>conn_count z k\<close>: what the zone counts for a key, read through its lookup. The tag of a cleanup is the
  zone and the key it stands for. In a good state of the zones a zone counts for each key the
  outstanding cleanups with its tag.
\<close>

definition conn_count :: "'p conn_zone \<Rightarrow> 8 word list \<Rightarrow> nat" where
  "conn_count z k = (case ngx_http_limit_conn_lookup z k (ngx_crc32_short k) of
     Some (Some a) \<Rightarrow> unat (lc_conn z a) | _ \<Rightarrow> 0)"

fun conn_tag :: "(nat \<Rightarrow> 'p conn_zone) \<Rightarrow> cleanup \<Rightarrow> (nat \<times> 8 word list) option" where
  "conn_tag zs (Conn_cleanup i a) = Some (i, lc_data (zs i) a)"
| "conn_tag zs Other_cleanup = None"

definition zones_ok :: "('p \<Rightarrow> addr set) \<Rightarrow> (nat \<Rightarrow> 'p conn_zone) \<Rightarrow> cleanup list \<Rightarrow> bool" where
  "zones_ok used zs cs \<longleftrightarrow> (\<forall>i. \<exists>D. counts used (zs i) D (\<lambda>a. count_list cs (Conn_cleanup i a)))"

lemma counts_conn_count:
  assumes "counts used z D c"
  shows "conn_count z k = (case D (zone_key k) of None \<Rightarrow> 0 | Some a \<Rightarrow> c a)"
proof (cases "D (zone_key k)")
  case (Some a)
  then have "a \<in> ran D" by (rule ranI)
  then show ?thesis using assms counts_lookup [OF assms, of k] Some by (simp add: conn_count_def counts_def)
qed (simp add: conn_count_def counts_lookup [OF assms])

lemma conn_count_tags:
  assumes "zones_ok used zs cs"
  shows "conn_count (zs i) k = count_list (map (conn_tag zs) cs) (Some (i, k))"
proof -
  obtain D where D: "counts used (zs i) D (\<lambda>a. count_list cs (Conn_cleanup i a))" (is "counts used _ D ?c")
    using assms by (auto simp: zones_ok_def)
  note ok = D [unfolded counts_def]
  have key: "D (zone_key k) = Some a \<longleftrightarrow> ?c a > 0 \<and> lc_data (zs i) a = k" for a
  proof
    assume a: "D (zone_key k) = Some a"
    then have "a \<in> ran D" by (rule ranI)
    then have "?c a = unat (lc_conn (zs i) a)" "lc_conn (zs i) a \<noteq> 0" using ok by (simp, blast)
    moreover have "lc_data (zs i) a = k"
      using zone_tree_nodes(1) [OF counts_tree [OF D] a] by simp
    ultimately show "?c a > 0 \<and> lc_data (zs i) a = k" by (simp add: unat_gt_0)
  next
    assume a: "?c a > 0 \<and> lc_data (zs i) a = k"
    have "?c a = (if a \<in> ran D then unat (lc_conn (zs i) a) else 0)" using ok by blast
    then have "a \<in> ran D" using a by (auto split: if_splits)
    then obtain q where q: "D q = Some a" by (auto simp: ran_def)
    then show "D (zone_key k) = Some a" using zone_tree_nodes(1) [OF counts_tree [OF D] q] a by simp
  qed
  have tag: "conn_tag zs x = Some (i, k) \<longleftrightarrow> (\<exists>a. x = Conn_cleanup i a \<and> lc_data (zs i) a = k)" for x
    by (cases x) auto
  have same: "count_list (map (conn_tag zs) xs) (Some (i, k)) = count_list xs (Conn_cleanup i a)"
    if "\<And>b. Conn_cleanup i b \<in> set xs \<Longrightarrow> lc_data (zs i) b = k \<longleftrightarrow> b = a" for xs a
    using that
  proof (induction xs)
    case (Cons x xs)
    have "conn_tag zs x = Some (i, k) \<longleftrightarrow> x = Conn_cleanup i a" using tag [of x] Cons.prems by auto
    then show ?case using Cons by auto
  qed simp
  show ?thesis
  proof (cases "D (zone_key k)")
    case None
    then have "?c b = 0" if "lc_data (zs i) b = k" for b using key [of b] that by simp
    then have "conn_tag zs x \<noteq> Some (i, k)" if "x \<in> set cs" for x
      using tag [of x] that by (auto simp: count_list_0_iff)
    then have "Some (i, k) \<notin> set (map (conn_tag zs) cs)"
      unfolding set_map by (intro notI, elim imageE) (rule notE, assumption, rule sym, assumption)
    then show ?thesis using counts_conn_count [OF D] None by (simp add: count_list_0_iff [THEN iffD2])
  next
    case (Some a)
    have "lc_data (zs i) b = k \<longleftrightarrow> b = a" if "Conn_cleanup i b \<in> set cs" for b
    proof -
      have "?c b > 0" using that by (metis count_list_0_iff neq0_conv)
      then show ?thesis using key [of a] key [of b] Some by auto
    qed
    then have "count_list (map (conn_tag zs) cs) (Some (i, k)) = ?c a" by (rule same)
    then show ?thesis using counts_conn_count [OF D] Some by simp
  qed
qed

lemma zones_ok_update:
  assumes "zones_ok used zs cs" "counts used z D (\<lambda>a. count_list cs' (Conn_cleanup i a))"
    and "\<And>j a. j \<noteq> i \<Longrightarrow> count_list cs' (Conn_cleanup j a) = count_list cs (Conn_cleanup j a)"
  shows "zones_ok used (zs(i := z)) cs'"
  using assms by (auto simp: zones_ok_def)

text \<open>The section of the handler and the cleanup in a good state.\<close>

lemma section_ok:
  assumes "zones_ok used zs cs" "slab_laws used alloc free" "limit \<le> 65535" "0 < limit" "length k < 256"
  obtains (counted) a z where "limit_conn_section alloc (of_nat limit) k (zs i) = Some (Counted a, z)"
      "zones_ok used (zs(i := z)) (Conn_cleanup i a # cs)" "conn_tag (zs(i := z)) (Conn_cleanup i a) = Some (i, k)"
      "\<And>x. x \<in> set cs \<Longrightarrow> conn_tag (zs(i := z)) x = conn_tag zs x" "conn_count (zs i) k < limit"
  | (many) "limit_conn_section alloc (of_nat limit) k (zs i) = Some (Too_many, zs i)" "limit \<le> conn_count (zs i) k"
  | (memory) z n p where "limit_conn_section alloc (of_nat limit) k (zs i) = Some (No_memory, z)" "zones_ok used (zs(i := z)) cs"
      "\<And>x. conn_tag (zs(i := z)) x = conn_tag zs x" "fst (alloc n p) = None"
proof -
  obtain D where D: "counts used (zs i) D (\<lambda>a. count_list cs (Conn_cleanup i a))" (is "counts used _ D ?c")
    using assms(1) by (auto simp: zones_ok_def)
  note count = counts_conn_count [OF D, of k]
  have tags: "conn_tag (zs(i := z)) x = conn_tag zs x"
    if "\<And>a. x = Conn_cleanup i a \<Longrightarrow> lc_data z a = lc_data (zs i) a" for z x
    using that by (cases x) auto
  show thesis
  proof (cases "D (zone_key k)")
    case (Some a)
    note known = counts_known(1) [OF D Some assms(3), of alloc] counts_known(2) [OF D Some assms(3)]
    show ?thesis
    proof (cases "limit \<le> ?c a")
      case True
      then show ?thesis using many known(1) count Some by simp
    next
      case False
      let ?z = "(zs i)\<lparr>lc_conn := (lc_conn (zs i))(a := lc_conn (zs i) a + 1)\<rparr>"
      have "?c(a := Suc (?c a)) = (\<lambda>b. count_list (Conn_cleanup i a # cs) (Conn_cleanup i b))" by auto
      then have "counts used ?z D (\<lambda>b. count_list (Conn_cleanup i a # cs) (Conn_cleanup i b))"
        using known(2) False by simp
      then have "zones_ok used (zs(i := ?z)) (Conn_cleanup i a # cs)"
        by (rule zones_ok_update [OF assms(1)]) simp
      moreover have "lc_data (zs i) a = k"
        using zone_tree_nodes(1) [OF counts_tree [OF D] Some] by simp
      ultimately show ?thesis using counted [of a ?z] known(1) False count Some tags by simp
    qed
  next
    case None
    obtain r p where alloc: "alloc (36 + length k) (lc_pool (zs i)) = (r, p)" by (cases "alloc (36 + length k) (lc_pool (zs i))")
    show ?thesis
    proof (cases r)
      case None
      note no = counts_no_memory [OF D \<open>D (zone_key k) = None\<close> assms(2) alloc [unfolded None]]
      have "zones_ok used (zs(i := (zs i)\<lparr>lc_pool := p\<rparr>)) cs" by (rule zones_ok_update [OF assms(1) no(2)]) simp
      then show ?thesis using memory [of "(zs i)\<lparr>lc_pool := p\<rparr>" "36 + length k" "lc_pool (zs i)"] no(1) alloc None tags by simp
    next
      case (Some a)
      from counts_new [OF D \<open>D (zone_key k) = None\<close> assms(2,5) alloc [unfolded Some]] obtain z where
        z: "limit_conn_section alloc (of_nat limit) k (zs i) = Some (Counted a, z)"
          "counts used z (D(zone_key k \<mapsto> a)) (?c(a := 1))" "a \<notin> ran D" "lc_data z = (lc_data (zs i))(a := k)"
        by blast
      have "?c a = (if a \<in> ran D then unat (lc_conn (zs i) a) else 0)" using D by (simp only: counts_def)
      then have a0: "count_list cs (Conn_cleanup i a) = 0" using z(3) by simp
      then have "?c(a := 1) = (\<lambda>b. count_list (Conn_cleanup i a # cs) (Conn_cleanup i b))" by auto
      then have "counts used z (D(zone_key k \<mapsto> a)) (\<lambda>b. count_list (Conn_cleanup i a # cs) (Conn_cleanup i b))"
        using z(2) by simp
      then have "zones_ok used (zs(i := z)) (Conn_cleanup i a # cs)" by (rule zones_ok_update [OF assms(1)]) simp
      moreover have "conn_tag (zs(i := z)) x = conn_tag zs x" if "x \<in> set cs" for x
      proof (rule tags)
        fix b assume "x = Conn_cleanup i b"
        then have "b \<noteq> a" using that a0 by (auto simp: count_list_0_iff)
        then show "lc_data z b = lc_data (zs i) b" using z(4) by simp
      qed
      ultimately show ?thesis using counted [of a z] z(1,4) count \<open>D (zone_key k) = None\<close> assms(4) by simp
    qed
  qed
qed

lemma cleanup_ok:
  assumes "zones_ok used zs (Conn_cleanup i a # cs)" "slab_laws used alloc free"
  obtains z where "ngx_http_limit_conn_cleanup free a (zs i) = Some z" "zones_ok used (zs(i := z)) cs"
    "\<And>x. conn_tag (zs(i := z)) x = conn_tag zs x"
proof -
  obtain D where D: "counts used (zs i) D (\<lambda>b. count_list (Conn_cleanup i a # cs) (Conn_cleanup i b))" (is "counts used _ D ?c")
    using assms(1) unfolding zones_ok_def by blast
  have "?c a = (if a \<in> ran D then unat (lc_conn (zs i) a) else 0)" using D by (simp only: counts_def)
  then have "a \<in> ran D" by (auto split: if_splits)
  then obtain q where q: "D q = Some a" by (auto simp: ran_def)
  from counts_cleanup [OF D assms(2) q] obtain z D' where
    z: "ngx_http_limit_conn_cleanup free a (zs i) = Some z" "counts used z D' (?c(a := ?c a - 1))" "lc_data z = lc_data (zs i)"
    by blast
  have "?c(a := ?c a - 1) = (\<lambda>b. count_list cs (Conn_cleanup i b))" by auto
  then have "counts used z D' (\<lambda>b. count_list cs (Conn_cleanup i b))" using z(2) by simp
  then have "zones_ok used (zs(i := z)) cs" by (rule zones_ok_update [OF assms(1)]) auto
  moreover have "conn_tag (zs(i := z)) x = conn_tag zs x" for x using z(3) by (cases x) auto
  ultimately show thesis using that z(1) by blast
qed

fun is_conn :: "cleanup \<Rightarrow> bool" where
  "is_conn (Conn_cleanup i a) = True"
| "is_conn Other_cleanup = False"

lemma cleanup_all_ok:
  assumes "zones_ok used zs (cs @ rest)" "slab_laws used alloc free"
  shows "\<exists>zs'. ngx_http_limit_conn_cleanup_all free cs zs = Some (dropWhile is_conn cs, zs') \<and>
    zones_ok used zs' (dropWhile is_conn cs @ rest) \<and> (\<forall>x. conn_tag zs' x = conn_tag zs x)"
  using assms(1)
proof (induction cs arbitrary: zs)
  case (Cons x cs)
  show ?case
  proof (cases x)
    case (Conn_cleanup i a)
    with Cons.prems have "zones_ok used zs (Conn_cleanup i a # cs @ rest)" by simp
    from cleanup_ok [OF this assms(2)] obtain z where
      z: "ngx_http_limit_conn_cleanup free a (zs i) = Some z" "zones_ok used (zs(i := z)) (cs @ rest)"
        "\<And>x. conn_tag (zs(i := z)) x = conn_tag zs x"
      by blast
    from Cons.IH [OF z(2)] obtain zs' where
      "ngx_http_limit_conn_cleanup_all free cs (zs(i := z)) = Some (dropWhile is_conn cs, zs')"
      "zones_ok used zs' (dropWhile is_conn cs @ rest)" "\<forall>x. conn_tag zs' x = conn_tag (zs(i := z)) x"
      by blast
    then show ?thesis using z(1,3) Conn_cleanup by simp
  next
    case Other_cleanup
    then show ?thesis using Cons.prems by simp
  qed
qed simp

subsection \<open>The handler\<close>

text \<open>
  What is asked of a configuration: \<open>ngx_http_limit_conn\<close> accepts numbers from 1 to 65535 and each zone
  once.
\<close>

definition limits_ok :: "conn_limit list \<Rightarrow> bool" where
  "limits_ok ls \<longleftrightarrow> distinct (map limit_zone ls) \<and> (\<forall>l \<in> set ls. 0 < limit_conn l \<and> limit_conn l \<le> 65535)"

definition counted_keys :: "(nat \<Rightarrow> 8 word list option) \<Rightarrow> conn_limit list \<Rightarrow> (nat \<times> 8 word list) list" where
  "counted_keys key ls = concat (map (\<lambda>l. case key (limit_zone l) of
     Some k \<Rightarrow> if k \<noteq> [] \<and> length k \<le> 255 then [(limit_zone l, k)] else [] | None \<Rightarrow> []) ls)"

definition below_limits :: "(nat \<Rightarrow> 8 word list option) \<Rightarrow> conn_limit list \<Rightarrow> (nat \<Rightarrow> 'p conn_zone) \<Rightarrow> bool" where
  "below_limits key ls zs \<longleftrightarrow> (\<forall>l \<in> set ls. \<forall>k. (limit_zone l, k) \<in> set (counted_keys key [l]) \<longrightarrow>
     conn_count (zs (limit_zone l)) k < unat (limit_conn l))"

lemma limit_nat:
  assumes "0 < limit_conn l" "limit_conn l \<le> 65535"
  obtains n where "limit_conn l = of_nat n" "n = unat (limit_conn l)" "0 < n" "n \<le> 65535"
proof
  show "limit_conn l = of_nat (unat (limit_conn l))" by simp
  show "0 < unat (limit_conn l)" using assms(1) by (simp add: unat_gt_0)
  show "unat (limit_conn l) \<le> 65535" using assms(2) by (simp add: word_le_nat_alt)
qed simp

lemma counted_keys_Cons:
  "counted_keys key (l # ls) = counted_keys key [l] @ counted_keys key ls"
  by (simp add: counted_keys_def)

lemma conn_count_frame:
  assumes "zones_ok used zs cs" "zones_ok used zs' cs'"
    and "count_list (map (conn_tag zs') cs') (Some (i, k)) = count_list (map (conn_tag zs) cs) (Some (i, k))"
  shows "conn_count (zs' i) k = conn_count (zs i) k"
  using conn_count_tags [OF assms(1)] conn_count_tags [OF assms(2)] assms(3) by simp

text \<open>
  The loop of the handler, with the cleanups \<open>cs\<close> of the request and those of all others: it adds a cleanup
  for each key to be counted, or takes all it has added back.
\<close>

definition loop_outcome ::
  "('p \<Rightarrow> addr set) \<Rightarrow> 'p slab_alloc \<Rightarrow> (nat \<Rightarrow> 8 word list option) \<Rightarrow> int \<Rightarrow> conn_limit list \<Rightarrow> cleanup list \<Rightarrow>
   cleanup list \<Rightarrow> (nat \<Rightarrow> 'p conn_zone) \<Rightarrow> 'p conn_result option \<Rightarrow> bool"
where
  "loop_outcome used alloc key status ls cs rest zs res \<longleftrightarrow>
     (\<exists>rc set_flag cs' zs'. res = Some (rc, set_flag, cs', zs') \<and> zones_ok used zs' (cs' @ rest) \<and>
        (\<forall>x \<in> set (cs @ rest). conn_tag zs' x = conn_tag zs x) \<and>
        (rc = NGX_DECLINED \<and> below_limits key ls zs \<and>
           (\<exists>added. cs' = added @ cs \<and> map (conn_tag zs') added = rev (map Some (counted_keys key ls))) \<or>
         rc = status \<and> cs' = dropWhile is_conn cs \<and>
           (\<not> below_limits key ls zs \<or> (\<exists>n p. fst (alloc n p) = None))))"

lemma loop_outcomeE:
  assumes "loop_outcome used alloc key status ls cs rest zs res"
  obtains rc flag cs' zs' where "res = Some (rc, flag, cs', zs')" "zones_ok used zs' (cs' @ rest)"
    "\<forall>x \<in> set (cs @ rest). conn_tag zs' x = conn_tag zs x"
    "rc = NGX_DECLINED \<and> below_limits key ls zs \<and>
       (\<exists>added. cs' = added @ cs \<and> map (conn_tag zs') added = rev (map Some (counted_keys key ls))) \<or>
     rc = status \<and> cs' = dropWhile is_conn cs \<and> (\<not> below_limits key ls zs \<or> (\<exists>n p. fst (alloc n p) = None))"
  using assms unfolding loop_outcome_def by blast

lemma limit_loop_ok:
  assumes "slab_laws used alloc free" "limits_ok ls" "\<forall>l \<in> set ls. key (limit_zone l) \<noteq> None" "\<forall>n. room n"
    and "zones_ok used zs (cs @ rest)"
  shows "loop_outcome used alloc key status ls cs rest zs (limit_conn_loop alloc free key room status ls set_flag cs zs)"
  using assms(2,3,5)
proof (induction ls arbitrary: set_flag cs zs)
  case Nil
  then show ?case by (simp add: loop_outcome_def below_limits_def counted_keys_def)
next
  case (Cons l ls)
  let ?i = "limit_zone l"
  obtain k where k: "key ?i = Some k" using Cons.prems(2) by auto
  have ls: "limits_ok ls" "\<forall>l \<in> set ls. key (limit_zone l) \<noteq> None" and apart: "?i \<notin> limit_zone ` set ls"
    and lim: "0 < limit_conn l" "limit_conn l \<le> 65535"
    using Cons.prems(1,2) by (auto simp: limits_ok_def)
  have below_Cons: "below_limits key (l # ls) zs \<longleftrightarrow> below_limits key [l] zs \<and> below_limits key ls zs"
    by (auto simp: below_limits_def)
  show ?case
  proof (cases "k \<noteq> [] \<and> length k \<le> 255")
    case False
    then have "counted_keys key [l] = []" using k by (simp add: counted_keys_def)
    moreover from this have "below_limits key [l] zs" by (simp add: below_limits_def)
    moreover have "limit_conn_loop alloc free key room status (l # ls) set_flag cs zs =
        limit_conn_loop alloc free key room status ls set_flag cs zs"
      using False k by auto
    ultimately show ?thesis
      using Cons.IH [OF ls Cons.prems(3), of set_flag]
      by (simp add: loop_outcome_def below_Cons counted_keys_Cons [of key l ls])
  next
    case True
    then have ck: "counted_keys key [l] = [(?i, k)]" using k by (simp add: counted_keys_def)
    have below1: "below_limits key [l] zs \<longleftrightarrow> conn_count (zs ?i) k < unat (limit_conn l)"
      by (simp add: below_limits_def ck)
    obtain n where n: "limit_conn l = of_nat n" "n = unat (limit_conn l)" "0 < n" "n \<le> 65535"
      using limit_nat [OF lim] by blast
    have klen: "length k < 256" using True by simp
    from Cons.prems(3) assms(1) n(4,3) klen show ?thesis
    proof (cases rule: section_ok [where i = ?i])
      case (counted a z)
      let ?zs = "zs(?i := z)" and ?cs = "Conn_cleanup ?i a # cs"
      have rest: "conn_count (?zs (limit_zone m)) k' = conn_count (zs (limit_zone m)) k'" if "m \<in> set ls" for m k'
      proof -
        have "limit_zone m \<noteq> ?i" using apart that by (metis imageI)
        then show ?thesis by simp
      qed
      then have below_rest: "below_limits key ls ?zs \<longleftrightarrow> below_limits key ls zs"
        unfolding below_limits_def by (intro ball_cong) auto
      have "loop_outcome used alloc key status ls ?cs rest ?zs (limit_conn_loop alloc free key room status ls True ?cs ?zs)"
        by (rule Cons.IH [OF ls]) (use counted(2) in \<open>simp only: append_Cons\<close>)
      moreover have "limit_conn_loop alloc free key room status (l # ls) set_flag cs zs =
          limit_conn_loop alloc free key room status ls True ?cs ?zs"
        using k True counted(1) n(1) assms(4) by (simp add: Let_def)
      ultimately obtain rc flag cs' zs' where
        res: "limit_conn_loop alloc free key room status (l # ls) set_flag cs zs = Some (rc, flag, cs', zs')"
          "zones_ok used zs' (cs' @ rest)" "\<forall>x \<in> set (?cs @ rest). conn_tag zs' x = conn_tag ?zs x"
        and out: "rc = NGX_DECLINED \<and> below_limits key ls ?zs \<and>
           (\<exists>added. cs' = added @ ?cs \<and> map (conn_tag zs') added = rev (map Some (counted_keys key ls))) \<or>
         rc = status \<and> cs' = dropWhile is_conn ?cs \<and> (\<not> below_limits key ls ?zs \<or> (\<exists>n p. fst (alloc n p) = None))"
        by (elim loop_outcomeE) (simp only:)
      have tags: "\<forall>x \<in> set (cs @ rest). conn_tag zs' x = conn_tag zs x"
        using res(3) counted(4) by simp
      have tag: "conn_tag zs' (Conn_cleanup ?i a) = Some (?i, k)" using res(3) counted(3) by simp
      have "rc = NGX_DECLINED \<and> below_limits key (l # ls) zs \<and>
           (\<exists>added. cs' = added @ cs \<and> map (conn_tag zs') added = rev (map Some (counted_keys key (l # ls)))) \<or>
         rc = status \<and> cs' = dropWhile is_conn cs \<and> (\<not> below_limits key (l # ls) zs \<or> (\<exists>n p. fst (alloc n p) = None))"
        using out
      proof (elim disjE conjE exE)
        fix added assume *: "rc = NGX_DECLINED" "below_limits key ls ?zs" "cs' = added @ ?cs"
          "map (conn_tag zs') added = rev (map Some (counted_keys key ls))"
        have "map (conn_tag zs') (added @ [Conn_cleanup ?i a]) = rev (map Some (counted_keys key (l # ls)))"
          using *(4) tag unfolding counted_keys_Cons [of key l ls] ck by simp
        moreover have "cs' = (added @ [Conn_cleanup ?i a]) @ cs" using *(3) by simp
        ultimately show ?thesis using *(1,2) below_Cons below1 counted(5) below_rest n(2) by blast
      qed (use below_Cons below_rest in auto)
      then show ?thesis unfolding loop_outcome_def using res(1,2) tags by blast
    next
      case many
      from cleanup_all_ok [OF Cons.prems(3) assms(1)] obtain zs' where
        zs': "ngx_http_limit_conn_cleanup_all free cs zs = Some (dropWhile is_conn cs, zs')"
          "zones_ok used zs' (dropWhile is_conn cs @ rest)" "\<forall>x. conn_tag zs' x = conn_tag zs x" by blast
      have "limit_conn_loop alloc free key room status (l # ls) set_flag cs zs = Some (status, True, dropWhile is_conn cs, zs')"
        using k True many(1) n(1) zs'(1) by (simp add: Let_def)
      moreover have "\<not> below_limits key (l # ls) zs" using below_Cons below1 many(2) n(2) by simp
      ultimately show ?thesis unfolding loop_outcome_def using zs'(2,3) by blast
    next
      case (memory z m p)
      from cleanup_all_ok [OF memory(2) assms(1)] obtain zs' where
        zs': "ngx_http_limit_conn_cleanup_all free cs (zs(?i := z)) = Some (dropWhile is_conn cs, zs')"
          "zones_ok used zs' (dropWhile is_conn cs @ rest)" "\<forall>x. conn_tag zs' x = conn_tag (zs(?i := z)) x" by blast
      have "limit_conn_loop alloc free key room status (l # ls) set_flag cs zs = Some (status, True, dropWhile is_conn cs, zs')"
        using k True memory(1) n(1) zs'(1) by (simp add: Let_def)
      moreover have "\<forall>x. conn_tag zs' x = conn_tag zs x" using zs'(3) memory(3) by simp
      ultimately show ?thesis unfolding loop_outcome_def using zs'(2) memory(4) by blast
    qed
  qed
qed

subsection \<open>Requests interleaved\<close>

text \<open>
  The zones and the cleanups of the requests. A step is a section under the mutex of one zone, for any
  limit of the configuration and any key, together with the cleanup the process then adds to its own
  pool; a cleanup that is run, first in its pool; or the coming and going of other cleanups.
\<close>

type_synonym 'p conn_state = "(nat \<Rightarrow> 'p conn_zone) \<times> cleanup list list"

inductive conn_step :: "'p slab_alloc \<Rightarrow> 'p slab_free \<Rightarrow> conn_limit set \<Rightarrow> 'p conn_state \<Rightarrow> 'p conn_state \<Rightarrow> bool"
  for alloc free cfg
where
  step_count: "conn_step alloc free cfg (zs, pools)
      (zs(limit_zone l := z), pools[r := Conn_cleanup (limit_zone l) node # pools ! r])"
    if "l \<in> cfg" "k \<noteq> []" "length k \<le> 255" "r < length pools"
      "limit_conn_section alloc (limit_conn l) k (zs (limit_zone l)) = Some (Counted node, z)"
| step_refuse: "conn_step alloc free cfg (zs, pools) (zs(limit_zone l := z), pools)"
    if "l \<in> cfg" "k \<noteq> []" "length k \<le> 255" "out = Too_many \<or> out = No_memory"
      "limit_conn_section alloc (limit_conn l) k (zs (limit_zone l)) = Some (out, z)"
| step_cleanup: "conn_step alloc free cfg (zs, pools) (zs(i := z), pools[r := cs])"
    if "r < length pools" "pools ! r = Conn_cleanup i node # cs"
      "ngx_http_limit_conn_cleanup free node (zs i) = Some z"
| step_other: "conn_step alloc free cfg (zs, pools) (zs, pools[r := Other_cleanup # pools ! r])"
    if "r < length pools"
| step_other_done: "conn_step alloc free cfg (zs, pools) (zs, pools[r := cs])"
    if "r < length pools" "pools ! r = Other_cleanup # cs"

definition fresh_zone :: "('p \<Rightarrow> addr set) \<Rightarrow> 'p conn_zone \<Rightarrow> bool" where
  "fresh_zone used z \<longleftrightarrow> rb_root (lc_tree z) = lc_sentinel z \<and> lc_sentinel z \<in> used (lc_pool z) \<and>
     (\<forall>a. rb_mem (lc_tree z) a \<noteq> None) \<and> map_option rb_red (rb_mem (lc_tree z) (lc_sentinel z)) = Some False"

lemma fresh_counts: "fresh_zone used z \<Longrightarrow> counts used z (\<lambda>q. None) (\<lambda>a. 0)"
proof -
  assume fresh: "fresh_zone used z"
  then obtain n where "rb_mem (lc_tree z) (lc_sentinel z) = Some n" "\<not> rb_red n" by (auto simp: fresh_zone_def)
  then have "conn_tree used z (\<lambda>q. None)" using fresh by (intro zone_tree_empty) (auto simp: fresh_zone_def)
  then show ?thesis by (simp add: counts_def)
qed

lemma zones_ok_fresh: "\<forall>i. fresh_zone used (zs i) \<Longrightarrow> zones_ok used zs []"
  unfolding zones_ok_def using fresh_counts by fastforce

lemma zones_ok_perm: "mset cs = mset cs' \<Longrightarrow> zones_ok used zs cs \<longleftrightarrow> zones_ok used zs cs'"
  by (simp add: zones_ok_def flip: count_mset)

lemma zones_ok_other: "zones_ok used zs (Other_cleanup # cs) \<longleftrightarrow> zones_ok used zs cs"
  by (simp add: zones_ok_def)

text \<open>The cleanups with those of one request first.\<close>

lemma pool_first:
  assumes "r < length pools"
  obtains rest where "mset (concat pools) = mset (pools ! r @ rest)" "\<And>xs. mset (concat (pools[r := xs])) = mset (xs @ rest)"
proof
  let ?rest = "concat (take r pools @ drop (Suc r) pools)"
  show "mset (concat pools) = mset (pools ! r @ ?rest)"
    by (subst id_take_nth_drop [OF assms]) (simp add: ac_simps)
  show "mset (concat (pools[r := xs])) = mset (xs @ ?rest)" for xs
    using assms by (simp add: upd_conv_take_nth_drop ac_simps)
qed

definition conn_inv :: "('p \<Rightarrow> addr set) \<Rightarrow> (nat \<Rightarrow> nat) \<Rightarrow> 'p conn_state \<Rightarrow> bool" where
  "conn_inv used bound s \<longleftrightarrow> zones_ok used (fst s) (concat (snd s)) \<and> (\<forall>i k. conn_count (fst s i) k \<le> bound i)"

lemma count_tags_le:
  assumes "\<And>x. x \<in> set cs \<Longrightarrow> f x = g x"
  shows "count_list (map f cs) y = count_list (map g cs) y"
  using assms by (induction cs) auto

lemma conn_inv_step:
  assumes "conn_step alloc free cfg s s'" "conn_inv used bound s" "slab_laws used alloc free"
    and "\<forall>l \<in> cfg. 0 < limit_conn l \<and> limit_conn l \<le> 65535 \<and> unat (limit_conn l) \<le> bound (limit_zone l)"
  shows "conn_inv used bound s'"
  using assms(1,2)
proof (induction rule: conn_step.induct)
  case (step_count l k r pools zs node z)
  let ?i = "limit_zone l"
  have ok: "zones_ok used zs (concat pools)" and le: "conn_count (zs i) k \<le> bound i" for i k
    using step_count.prems by (simp_all add: conn_inv_def)
  have lim: "0 < limit_conn l" "limit_conn l \<le> 65535" "unat (limit_conn l) \<le> bound ?i" using assms(4) step_count.hyps(1) by auto
  obtain n where n: "limit_conn l = of_nat n" "n = unat (limit_conn l)" "0 < n" "n \<le> 65535"
    using limit_nat [OF lim(1,2)] by blast
  have "length k < 256" using step_count.hyps(3) by simp
  with ok assms(3) n(4,3) show ?case
  proof (cases rule: section_ok [where i = ?i])
    case (counted a z')
    then have eq: "node = a" "z = z'" using step_count.hyps(5) n(1) by simp_all
    have ok': "zones_ok used (zs(?i := z)) (Conn_cleanup ?i a # concat pools)" using counted(2) eq by simp
    obtain rest where rest: "mset (concat pools) = mset (pools ! r @ rest)"
      "\<And>xs. mset (concat (pools[r := xs])) = mset (xs @ rest)"
      using pool_first [OF step_count.hyps(4)] by metis
    have "mset (Conn_cleanup ?i a # concat pools) = mset (concat (pools[r := Conn_cleanup ?i node # pools ! r]))"
      using rest eq by simp
    then have "zones_ok used (zs(?i := z)) (concat (pools[r := Conn_cleanup ?i node # pools ! r]))"
      using ok' zones_ok_perm by metis
    moreover have "conn_count ((zs(?i := z)) j) k' \<le> bound j" for j k'
    proof -
      have "conn_count ((zs(?i := z)) j) k' = conn_count (zs j) k' + (if (j, k') = (?i, k) then 1 else 0)"
        using conn_count_tags [OF ok', where i = j and k = k'] conn_count_tags [OF ok, where i = j and k = k'] counted(3,4) eq
          count_tags_le [of "concat pools" "conn_tag (zs(?i := z))" "conn_tag zs"] by auto
      then show ?thesis using le [of j k'] counted(5) lim(3) n(2) by (auto split: if_splits)
    qed
    ultimately show ?thesis by (simp add: conn_inv_def)
  qed (use step_count.hyps(5) n(1) in simp_all)
next
  case (step_refuse l k out zs z pools)
  let ?i = "limit_zone l"
  have ok: "zones_ok used zs (concat pools)" and le: "conn_count (zs i) k \<le> bound i" for i k
    using step_refuse.prems by (simp_all add: conn_inv_def)
  have lim: "0 < limit_conn l" "limit_conn l \<le> 65535" using assms(4) step_refuse.hyps(1) by auto
  obtain n where n: "limit_conn l = of_nat n" "0 < n" "n \<le> 65535"
    using limit_nat [OF lim(1,2)] by blast
  have "length k < 256" using step_refuse.hyps(3) by simp
  with ok assms(3) n(3,2) show ?case
  proof (cases rule: section_ok [where i = ?i])
    case (counted a z')
    then have "out = Counted a" using step_refuse.hyps(5) n(1) by simp
    then show ?thesis using step_refuse.hyps(4) by auto
  next
    case many
    then have "z = zs ?i" using step_refuse.hyps(5) n(1) by simp
    then have "zs(?i := z) = zs" by simp
    then show ?thesis using step_refuse.prems by simp
  next
    case (memory z' m p)
    then have eq: "z = z'" using step_refuse.hyps(5) n(1) by simp
    have "conn_count ((zs(?i := z)) j) k' = conn_count (zs j) k'" for j k'
      by (rule conn_count_frame [OF ok memory(2) [folded eq]], rule count_tags_le) (use memory(3) eq in simp)
    then show ?thesis using memory(2) eq le by (simp add: conn_inv_def)
  qed
next
  case (step_cleanup r pools i node cs zs z)
  have ok: "zones_ok used zs (concat pools)" and le: "conn_count (zs i) k \<le> bound i" for i k
    using step_cleanup.prems by (simp_all add: conn_inv_def)
  obtain rest where rest: "mset (concat pools) = mset (pools ! r @ rest)" "\<And>xs. mset (concat (pools[r := xs])) = mset (xs @ rest)"
    using pool_first [OF step_cleanup.hyps(1)] by metis
  have all: "mset (concat pools) = mset (Conn_cleanup i node # cs @ rest)" using rest(1) step_cleanup.hyps(2) by simp
  have ok1: "zones_ok used zs (Conn_cleanup i node # cs @ rest)" using ok zones_ok_perm [OF all, where used = used and zs = zs] by (simp only:)
  from cleanup_ok [OF this assms(3)] obtain z' where
    z': "ngx_http_limit_conn_cleanup free node (zs i) = Some z'" "zones_ok used (zs(i := z')) (cs @ rest)"
      "\<And>x. conn_tag (zs(i := z')) x = conn_tag zs x" by blast
  have eq: "z' = z" using z'(1) step_cleanup.hyps(3) by simp
  have "zones_ok used (zs(i := z)) (concat (pools[r := cs]))"
    using z'(2) zones_ok_perm [OF rest(2) [of cs], where used = used and zs = "zs(i := z)"] eq by (simp only:)
  moreover have "conn_count ((zs(i := z)) j) k \<le> bound j" for j k
  proof -
    have "conn_count ((zs(i := z)) j) k = count_list (map (conn_tag (zs(i := z))) (cs @ rest)) (Some (j, k))"
      using conn_count_tags [OF z'(2), where i = j and k = k] eq by simp
    also have "\<dots> = count_list (map (conn_tag zs) (cs @ rest)) (Some (j, k))"
      by (rule count_tags_le) (use z'(3) eq in simp)
    also have "\<dots> \<le> count_list (map (conn_tag zs) (Conn_cleanup i node # cs @ rest)) (Some (j, k))" by simp
    also have "\<dots> = conn_count (zs j) k" using conn_count_tags [OF ok1, where i = j and k = k] by simp
    finally show ?thesis using le order_trans by blast
  qed
  ultimately show ?case by (simp add: conn_inv_def)
next
  case (step_other r pools zs)
  obtain rest where rest: "mset (concat pools) = mset (pools ! r @ rest)" "\<And>xs. mset (concat (pools[r := xs])) = mset (xs @ rest)"
    using pool_first [OF step_other.hyps(1)] by metis
  have "mset (concat (pools[r := Other_cleanup # pools ! r])) = mset (Other_cleanup # concat pools)" using rest by simp
  then show ?case using step_other.prems zones_ok_perm zones_ok_other unfolding conn_inv_def by (metis fst_conv snd_conv)
next
  case (step_other_done r pools cs zs)
  obtain rest where rest: "mset (concat pools) = mset (pools ! r @ rest)" "\<And>xs. mset (concat (pools[r := xs])) = mset (xs @ rest)"
    using pool_first [OF step_other_done.hyps(1)] by metis
  have "mset (concat pools) = mset (Other_cleanup # concat (pools[r := cs]))" using rest step_other_done.hyps(2) by simp
  then show ?case using step_other_done.prems zones_ok_perm zones_ok_other unfolding conn_inv_def by (metis fst_conv snd_conv)
qed

lemma conn_inv_steps:
  assumes "rtranclp (conn_step alloc free cfg) s s'" "conn_inv used bound s" "slab_laws used alloc free"
    and "\<forall>l \<in> cfg. 0 < limit_conn l \<and> limit_conn l \<le> 65535 \<and> unat (limit_conn l) \<le> bound (limit_zone l)"
  shows "conn_inv used bound s'"
  using assms(1,2) by (induction rule: rtranclp_induct) (blast intro: conn_inv_step [OF _ _ assms(3,4)])+

text \<open>The handler and the destruction of a pool are such steps.\<close>

lemma cleanup_all_steps:
  assumes "ngx_http_limit_conn_cleanup_all free cs zs = Some (cs', zs')" "r < length pools" "pools ! r = cs"
  shows "rtranclp (conn_step alloc free cfg) (zs, pools) (zs', pools[r := cs'])"
  using assms
proof (induction cs arbitrary: zs pools)
  case Nil
  then show ?case using list_update_id [of pools r] by simp
next
  case (Cons x cs)
  show ?case
  proof (cases x)
    case (Conn_cleanup i a)
    then obtain z where z: "ngx_http_limit_conn_cleanup free a (zs i) = Some z"
      "ngx_http_limit_conn_cleanup_all free cs (zs(i := z)) = Some (cs', zs')"
      using Cons.prems(1) by (auto simp: bind_eq_Some_conv)
    have "conn_step alloc free cfg (zs, pools) (zs(i := z), pools[r := cs])"
      by (rule step_cleanup) (use Cons.prems z(1) Conn_cleanup in simp_all)
    moreover have "rtranclp (conn_step alloc free cfg) (zs(i := z), pools[r := cs]) (zs', pools[r := cs, r := cs'])"
      by (rule Cons.IH [OF z(2)]) (use Cons.prems in simp_all)
    ultimately show ?thesis by (simp add: converse_rtranclp_into_rtranclp)
  next
    case Other_cleanup
    then show ?thesis using Cons.prems list_update_id [of pools r] by auto
  qed
qed

lemma run_cleanups_steps:
  assumes "run_cleanups free cs zs = Some zs'" "r < length pools" "pools ! r = cs"
  shows "rtranclp (conn_step alloc free cfg) (zs, pools) (zs', pools[r := []])"
  using assms
proof (induction cs arbitrary: zs pools)
  case Nil
  then show ?case using list_update_id [of pools r] by simp
next
  case (Cons x cs)
  have "\<exists>zs1. conn_step alloc free cfg (zs, pools) (zs1, pools[r := cs]) \<and> run_cleanups free cs zs1 = Some zs'"
  proof (cases x)
    case (Conn_cleanup i a)
    then obtain z where "ngx_http_limit_conn_cleanup free a (zs i) = Some z" "run_cleanups free cs (zs(i := z)) = Some zs'"
      using Cons.prems(1) by (auto simp: bind_eq_Some_conv)
    then show ?thesis using step_cleanup [of r pools i a cs free zs z] Cons.prems Conn_cleanup by auto
  next
    case Other_cleanup
    have "conn_step alloc free cfg (zs, pools) (zs, pools[r := cs])"
      by (rule step_other_done) (use Cons.prems Other_cleanup in simp_all)
    then show ?thesis using Cons.prems(1) Other_cleanup by auto
  qed
  then obtain zs1 where 1: "conn_step alloc free cfg (zs, pools) (zs1, pools[r := cs])" "run_cleanups free cs zs1 = Some zs'" by blast
  have "rtranclp (conn_step alloc free cfg) (zs1, pools[r := cs]) (zs', pools[r := cs, r := []])"
    by (rule Cons.IH) (use Cons.prems 1(2) in simp_all)
  with 1(1) show ?case by (simp add: converse_rtranclp_into_rtranclp)
qed

lemma limit_loop_steps:
  assumes "limit_conn_loop alloc free key room status ls set_flag cs zs = Some (rc, flag, cs', zs')"
    and "\<forall>n. room n" "set ls \<subseteq> cfg" "r < length pools" "pools ! r = cs"
  shows "rtranclp (conn_step alloc free cfg) (zs, pools) (zs', pools[r := cs'])"
  using assms(1,3-)
proof (induction ls arbitrary: set_flag cs zs pools)
  case Nil
  then show ?case using list_update_id [of pools r] by simp
next
  case (Cons l ls)
  let ?i = "limit_zone l"
  have self: "pools[r := cs] = pools" using Cons.prems(4) list_update_id [of pools r] by simp
  show ?case
  proof (cases "key ?i")
    case None
    then show ?thesis using Cons.prems(1) self by simp
  next
    case (Some k)
    show ?thesis
    proof (cases "k \<noteq> [] \<and> length k \<le> 255")
      case False
      then have "limit_conn_loop alloc free key room status ls set_flag cs zs = Some (rc, flag, cs', zs')"
        using Cons.prems(1) Some by (auto split: if_splits)
      then show ?thesis by (rule Cons.IH) (use Cons.prems in simp_all)
    next
      case True
      then obtain out z where sec: "limit_conn_section alloc (limit_conn l) k (zs ?i) = Some (out, z)"
        using Cons.prems(1) Some by (auto simp: bind_eq_Some_conv)
      show ?thesis
      proof (cases out)
        case (Counted a)
        let ?cs = "Conn_cleanup ?i a # cs"
        have "conn_step alloc free cfg (zs, pools) (zs(?i := z), pools[r := ?cs])"
          using step_count [of l cfg k r pools alloc zs a z free] sec Counted True Cons.prems(2-4) by simp
        moreover have "limit_conn_loop alloc free key room status ls True ?cs (zs(?i := z)) = Some (rc, flag, cs', zs')"
          using Cons.prems(1) Some True sec Counted assms(2) [rule_format, of "length ls"] by (simp add: Let_def)
        then have "rtranclp (conn_step alloc free cfg) (zs(?i := z), pools[r := ?cs]) (zs', pools[r := ?cs, r := cs'])"
          by (rule Cons.IH) (use Cons.prems(2,3) in simp_all)
        ultimately show ?thesis by (simp add: converse_rtranclp_into_rtranclp)
      next
        case no: No_memory
        then have "ngx_http_limit_conn_cleanup_all free cs (zs(?i := z)) = Some (cs', zs')"
          using Cons.prems(1) Some True sec by (auto simp: Let_def bind_eq_Some_conv)
        then have "rtranclp (conn_step alloc free cfg) (zs(?i := z), pools) (zs', pools[r := cs'])"
          using Cons.prems(3,4) by (rule cleanup_all_steps)
        moreover have "conn_step alloc free cfg (zs, pools) (zs(?i := z), pools)"
          using step_refuse [of l cfg k out alloc zs z free pools] sec no True Cons.prems(2) by simp
        ultimately show ?thesis by (simp add: converse_rtranclp_into_rtranclp)
      next
        case no: Too_many
        then have "ngx_http_limit_conn_cleanup_all free cs (zs(?i := z)) = Some (cs', zs')"
          using Cons.prems(1) Some True sec by (auto simp: Let_def bind_eq_Some_conv)
        then have "rtranclp (conn_step alloc free cfg) (zs(?i := z), pools) (zs', pools[r := cs'])"
          using Cons.prems(3,4) by (rule cleanup_all_steps)
        moreover have "conn_step alloc free cfg (zs, pools) (zs(?i := z), pools)"
          using step_refuse [of l cfg k out alloc zs z free pools] sec no True Cons.prems(2) by simp
        ultimately show ?thesis by (simp add: converse_rtranclp_into_rtranclp)
      qed
    qed
  qed
qed

subsection \<open>Properties\<close>

text \<open>A zone without nodes.\<close>

definition sample_conn_zone :: "addr list conn_zone" where
  "sample_conn_zone = \<lparr>lc_sentinel = 1, lc_tree = \<lparr>rb_mem = (\<lambda>a. Some (mk_node Lft 0 0 0 0 False)), rb_root = 1\<rparr>,
     lc_data = (\<lambda>a. []), lc_conn = (\<lambda>a. 0), lc_pool = [1]\<rparr>"

lemma sample_fresh: "fresh_zone set sample_conn_zone"
  by (simp add: fresh_zone_def sample_conn_zone_def)

abbreviation (input) sample_limits :: "conn_limit list" where
  "sample_limits \<equiv> [\<lparr>limit_zone = 0, limit_conn = 1\<rparr>]"

text \<open>C6: Connections stay within their limit under every interleaving of requests: from empty zones, whatever
  requests do (counting, refusals, cleanups, in any order and number), each zone counts for each key
  exactly the outstanding cleanups that stand for it, at most the greatest limit configured for the zone,
  and it has a node for the key only as long as there is one.\<close>

theorem limit_conn_bound:
  assumes "slab_laws used alloc free" "\<forall>i. fresh_zone used (zs0 i)"
    and "\<forall>l \<in> cfg. 0 < limit_conn l \<and> limit_conn l \<le> 65535 \<and> unat (limit_conn l) \<le> bound (limit_zone l)"
    and "rtranclp (conn_step alloc free cfg) (zs0, replicate n []) (zs, pools)"
  shows "conn_count (zs i) k = count_list (map (conn_tag zs) (concat pools)) (Some (i, k)) \<and> conn_count (zs i) k \<le> bound i \<and>
    (ngx_http_limit_conn_lookup (zs i) k (ngx_crc32_short k) = Some None \<longleftrightarrow> conn_count (zs i) k = 0)"
proof -
  have ok0: "zones_ok used zs0 (concat (replicate n []))" using zones_ok_fresh [OF assms(2)] by simp
  have "conn_count (zs0 i) k = 0" for i k using conn_count_tags [OF ok0, where i = i and k = k] by simp
  then have "conn_inv used bound (zs0, replicate n [])" using ok0 by (simp add: conn_inv_def)
  from conn_inv_steps [OF assms(4) this assms(1,3)] have
    inv: "zones_ok used zs (concat pools)" "conn_count (zs i) k \<le> bound i" by (simp_all add: conn_inv_def)
  then obtain D where D: "counts used (zs i) D (\<lambda>a. count_list (concat pools) (Conn_cleanup i a))" by (auto simp: zones_ok_def)
  have "lc_conn (zs i) a \<noteq> 0" if "D (zone_key k) = Some a" for a
    using D ranI [of D, OF that] by (auto simp: counts_def)
  then have "ngx_http_limit_conn_lookup (zs i) k (ngx_crc32_short k) = Some None \<longleftrightarrow> conn_count (zs i) k = 0"
    using counts_lookup [OF D, of k] by (auto simp: conn_count_def unat_eq_zero split: option.splits)
  then show ?thesis using conn_count_tags [OF inv(1), where i = i and k = k] inv(2) by simp
qed

lemma limit_conn_bound_witness:
  "\<exists>zs pools. rtranclp (conn_step sample_alloc removeAll (set sample_limits)) (\<lambda>i. sample_conn_zone, replicate 2 []) (zs, pools) \<and>
     pools \<noteq> replicate 2 [] \<and> conn_count (zs 0) [97] = 1"
proof -
  have ok: "zones_ok set (\<lambda>i. sample_conn_zone) []" by (rule zones_ok_fresh) (simp add: sample_fresh)
  have none: "conn_count sample_conn_zone [97] = 0" using conn_count_tags [OF ok, where i = 0 and k = "[97]"] by simp
  obtain a z where z: "limit_conn_section sample_alloc (of_nat 1) [97] sample_conn_zone = Some (Counted a, z)"
    "conn_tag ((\<lambda>i. sample_conn_zone)(0 := z)) (Conn_cleanup 0 a) = Some (0, [97])"
    by (rule section_ok [OF ok sample_slab, of 1 "[97]" 0]) (use none in \<open>auto simp: sample_alloc_def Let_def\<close>)
  let ?zs = "(\<lambda>i. sample_conn_zone)(0 := z)" and ?pools = "[[Conn_cleanup 0 a], []]"
  have "conn_step sample_alloc removeAll (set sample_limits) (\<lambda>i. sample_conn_zone, replicate 2 []) (?zs, ?pools)"
    using step_count [of "\<lparr>limit_zone = 0, limit_conn = 1\<rparr>" "set sample_limits" "[97]" 0 "replicate 2 []" sample_alloc
      "\<lambda>i. sample_conn_zone" a z removeAll] z(1) by (simp add: numeral_2_eq_2)
  then have steps: "rtranclp (conn_step sample_alloc removeAll (set sample_limits)) (\<lambda>i. sample_conn_zone, replicate 2 []) (?zs, ?pools)"
    by (rule r_into_rtranclp)
  have "conn_count (?zs 0) [97] = count_list (map (conn_tag ?zs) (concat ?pools)) (Some (0, [97]))"
    using limit_conn_bound [OF sample_slab _ _ steps, of "\<lambda>i. 1" 0 "[97]"] sample_fresh by (simp del: conn_tag.simps)
  then have "conn_count (?zs 0) [97] = 1" using z(2) by simp
  then show ?thesis using steps by (intro exI [of _ ?zs] exI [of _ ?pools]) (simp add: numeral_2_eq_2)
qed

text \<open>C7: One call of the handler, when all keys can be evaluated and the pool has memory: either it declines,
  and then every key was below its limit and is counted once more and has a cleanup, or it returns the
  configured status and has changed neither the counts nor the cleanups of the request; it does so only
  when a key had reached its limit or a zone was out of memory. The other requests' cleanups stand for
  the same keys as before.\<close>

theorem limit_conn_handler_correct:
  assumes "slab_laws used alloc free" "limits_ok (limits conf)" "\<forall>l \<in> set (limits conf). key (limit_zone l) \<noteq> None"
    and "\<forall>n. room n" "zones_ok used zs (cs @ rest)" "dropWhile is_conn cs = cs"
  shows "\<exists>rc flag cs' zs'. ngx_http_limit_conn_handler alloc free key room conf False cs zs = Some (rc, flag, cs', zs') \<and>
    zones_ok used zs' (cs' @ rest) \<and> map (conn_tag zs') rest = map (conn_tag zs) rest \<and>
    (rc = NGX_DECLINED \<and> below_limits key (limits conf) zs \<and>
       map (conn_tag zs') cs' = rev (map Some (counted_keys key (limits conf))) @ map (conn_tag zs) cs \<and>
       (\<forall>i k. conn_count (zs' i) k = conn_count (zs i) k + count_list (counted_keys key (limits conf)) (i, k)) \<or>
     rc = status_code conf \<and> (\<not> below_limits key (limits conf) zs \<or> (\<exists>n p. fst (alloc n p) = None)) \<and>
       cs' = cs \<and> (\<forall>i k. conn_count (zs' i) k = conn_count (zs i) k))"
proof -
  have "loop_outcome used alloc key (status_code conf) (limits conf) cs rest zs
      (ngx_http_limit_conn_handler alloc free key room conf False cs zs)"
    using limit_loop_ok [OF assms(1-5)] by (simp add: ngx_http_limit_conn_handler_def)
  then show ?thesis
  proof (cases rule: loop_outcomeE)
    case (1 rc flag cs' zs')
    have tags: "map (conn_tag zs') cs = map (conn_tag zs) cs" "map (conn_tag zs') rest = map (conn_tag zs) rest"
      using 1(3) by auto
    from 1(4) consider (declined) added where "rc = NGX_DECLINED" "below_limits key (limits conf) zs" "cs' = added @ cs"
        "map (conn_tag zs') added = rev (map Some (counted_keys key (limits conf)))"
      | (refused) "rc = status_code conf" "cs' = dropWhile is_conn cs"
        "\<not> below_limits key (limits conf) zs \<or> (\<exists>n p. fst (alloc n p) = None)"
      by blast
    then show ?thesis
    proof cases
      case declined
      note * = this
      have "count_list (rev (map Some xs)) (Some y) = count_list xs y" for xs :: "(nat \<times> 8 word list) list" and y
        by (induction xs) auto
      then have "conn_count (zs' i) k = conn_count (zs i) k + count_list (counted_keys key (limits conf)) (i, k)" for i k
        using conn_count_tags [OF 1(2), where i = i and k = k] conn_count_tags [OF assms(5), where i = i and k = k] tags *(3,4) by simp
      then show ?thesis using 1(1,2) tags * by auto
    next
      case refused
      note * = this
      then have "conn_count (zs' i) k = conn_count (zs i) k" for i k
        using conn_count_tags [OF 1(2), where i = i and k = k] conn_count_tags [OF assms(5), where i = i and k = k] tags assms(6) by simp
      then show ?thesis using 1(1,2) tags * assms(6) by auto
    qed
  qed
qed

lemma limit_conn_handler_correct_witness:
  "\<exists>rc flag cs' zs'. ngx_http_limit_conn_handler sample_alloc removeAll (\<lambda>i. Some [97]) (\<lambda>n. True)
     \<lparr>limits = sample_limits, status_code = 503\<rparr> False [] (\<lambda>i. sample_conn_zone) = Some (rc, flag, cs', zs') \<and>
     rc = NGX_DECLINED \<and> conn_count (zs' 0) [97] = 1"
proof -
  have ok: "zones_ok set (\<lambda>i. sample_conn_zone) []" by (rule zones_ok_fresh) (simp add: sample_fresh)
  have "conn_count sample_conn_zone [97] = 0" using conn_count_tags [OF ok, where i = 0 and k = "[97]"] by simp
  moreover from this have "below_limits (\<lambda>i. Some [97]) sample_limits (\<lambda>i. sample_conn_zone)"
    by (simp add: below_limits_def counted_keys_def)
  ultimately show ?thesis
    using limit_conn_handler_correct [OF sample_slab, of "\<lparr>limits = sample_limits, status_code = 503\<rparr>" "\<lambda>i. Some [97]"
      "\<lambda>n. True" "\<lambda>i. sample_conn_zone" "[]" "[]"] ok
    by (auto simp: limits_ok_def counted_keys_def sample_alloc_def Let_def)
qed

text \<open>
  When the pool has no memory for the cleanup, the handler returns an error but the key stays counted,
  for good: nothing is left that would count it down.
\<close>

lemma limit_conn_leak:
  assumes "slab_laws used alloc free" "zones_ok used zs (cs @ rest)" "limits_ok [l]"
    and "key (limit_zone l) = Some k" "k \<noteq> []" "length k \<le> 255" "conn_count (zs (limit_zone l)) k < unat (limit_conn l)"
    and "\<forall>n p. fst (alloc n p) \<noteq> None"
  shows "\<exists>zs'. ngx_http_limit_conn_handler alloc free key (\<lambda>n. False) \<lparr>limits = [l], status_code = status\<rparr> False cs zs =
      Some (NGX_HTTP_INTERNAL_SERVER_ERROR, True, cs, zs') \<and>
    conn_count (zs' (limit_zone l)) k = Suc (count_list (map (conn_tag zs') (cs @ rest)) (Some (limit_zone l, k)))"
proof -
  let ?i = "limit_zone l"
  have lim: "0 < limit_conn l" "limit_conn l \<le> 65535" using assms(3) by (simp_all add: limits_ok_def)
  obtain n where n: "limit_conn l = of_nat n" "n = unat (limit_conn l)" "0 < n" "n \<le> 65535"
    using limit_nat [OF lim] by blast
  have "length k < 256" using assms(6) by simp
  with assms(2,1) n(4,3) show ?thesis
  proof (cases rule: section_ok [where i = ?i])
    case (counted a z)
    have "conn_count ((zs(?i := z)) ?i) k = Suc (count_list (map (conn_tag (zs(?i := z))) (cs @ rest)) (Some (?i, k)))"
      using conn_count_tags [OF counted(2), where i = ?i and k = k] counted(3) by simp
    then show ?thesis using counted(1) n(1) assms(4-6)
      by (intro exI [of _ "zs(?i := z)"]) (simp add: ngx_http_limit_conn_handler_def Let_def)
  qed (use assms(7,8) n(2) in auto)
qed

end
