(* ===== verification/Sprintf.thy ===== *)
theory Sprintf
  imports Str_Num
begin

section \<open>Formatted printing: \<open>ngx_vslprintf\<close>\<close>

text \<open>
  \<open>ngx_vslprintf\<close> of \<open>src/core/ngx_string.c\<close>, with \<open>ngx_sprintf\<close>, \<open>ngx_snprintf\<close> and \<open>ngx_slprintf\<close>. The
  format is the list of its bytes before the terminating zero, \<open>room\<close> is \<open>last - buf\<close>, and the result is
  what is written at \<open>buf\<close>. The variable arguments are a list of typed values; an argument of another
  type than the conversion reads, a missing one, a format that ends within a conversion, and a read
  behind an argument's memory are None. The conversion of \<open>double\<close> (\<open>%f\<close>) is not modelled.
\<close>

subsection \<open>The code\<close>

text \<open>
  An argument: an integer of any type, as the 64-bit register it is passed in; \<open>ngx_str_t *\<close>, which may
  be NULL; \<open>ngx_variable_value_t *\<close>; and a pointer to bytes, given by the memory from there on.
\<close>

datatype va_arg = Va_num "64 word" | Va_str "u_char list option" | Va_value "u_char list" | Va_ptr "u_char list"

text \<open>The variables of the loop that a conversion sets; \<open>slen\<close> None is \<open>(size_t) -1\<close>.\<close>

record conversion =
  pad_char :: u_char
  pad_width :: nat
  is_signed :: bool
  hex_mode :: nat
  max_width :: bool
  slen :: "nat option"

fun fmt_width :: "nat \<Rightarrow> u_char list \<Rightarrow> nat \<times> u_char list" where
  "fmt_width width [] = (width, [])"
| "fmt_width width (c # fmt) =
     (if c \<ge> ch_0 \<and> c \<le> ch_9 then fmt_width ((width * 10 + unat (c - ch_0)) mod 18446744073709551616) fmt
      else (width, c # fmt))"

text \<open>The \<open>for\<close> loop over the flags, until the \<open>switch\<close> breaks. The width after a dot is for \<open>%f\<close> only.\<close>

fun fmt_flags :: "conversion \<Rightarrow> u_char list \<Rightarrow> va_arg list \<Rightarrow> (conversion \<times> u_char list \<times> va_arg list) option" where
  "fmt_flags s [] args = Some (s, [], args)"
| "fmt_flags s (c # fmt) args =
     (if c = of_char CHR ''u'' then fmt_flags (s\<lparr>is_signed := False\<rparr>) fmt args
      else if c = of_char CHR ''m'' then fmt_flags (s\<lparr>max_width := True\<rparr>) fmt args
      else if c = of_char CHR ''X'' then fmt_flags (s\<lparr>hex_mode := 2, is_signed := False\<rparr>) fmt args
      else if c = of_char CHR ''x'' then fmt_flags (s\<lparr>hex_mode := 1, is_signed := False\<rparr>) fmt args
      else if c = ch_dot then Some (s, snd (fmt_width 0 fmt), args)
      else if c = ch_star then
        (case args of
           Va_num n # args \<Rightarrow>
             fmt_flags (s\<lparr>slen := if n = - 1 then None else Some (unat n)\<rparr>) fmt args
         | _ \<Rightarrow> None)
      else Some (s, c # fmt, args))"

text \<open>The bytes of a zero-terminated string, as long as there is room.\<close>

fun copy_cstr :: "nat \<Rightarrow> u_char list \<Rightarrow> u_char list option" where
  "copy_cstr room [] = None"
| "copy_cstr room (c # p) =
     (if c = ch_NUL \<or> room = 0 then Some []
      else map_option ((#) c) (copy_cstr (room - 1) p))"

text \<open>The sign, and the number behind it: \<open>i64\<close> is negative only when \<open>sign\<close> is set.\<close>

definition print_num :: "nat \<Rightarrow> conversion \<Rightarrow> int \<Rightarrow> u_char list" where
  "print_num room s i64 =
     (if i64 < 0 then ch_minus # ngx_sprintf_num (room - 1) (nat (- i64)) (pad_char s) (hex_mode s) (pad_width s)
      else ngx_sprintf_num room (nat i64) (pad_char s) (hex_mode s) (pad_width s))"

definition num64 :: "conversion \<Rightarrow> 64 word \<Rightarrow> int" where
  "num64 s n = (if is_signed s then sint n else uint n)"

definition num32 :: "conversion \<Rightarrow> 64 word \<Rightarrow> int" where
  "num32 s n = (if is_signed s then sint (ucast n :: 32 word) else uint (ucast n :: 32 word))"

definition is_num_conversion :: "u_char \<Rightarrow> bool" where
  "is_num_conversion c \<longleftrightarrow> c \<in> set (bytes ''OTrPMzlLiAdDp'')"

definition num_value :: "conversion \<Rightarrow> u_char \<Rightarrow> 64 word \<Rightarrow> conversion \<times> int" where
  "num_value s c n =
     (if c \<in> set (bytes ''OTr'') then (s, sint n)
      else if c = of_char CHR ''P'' then (s, sint (ucast n :: 32 word))
      else if c = of_char CHR ''M'' then (s, if sint n = - 1 then - 1 else uint n)
      else if c \<in> set (bytes ''iA'') then (if max_width s then s\<lparr>pad_width := 20\<rparr> else s, num64 s n)
      else if c \<in> set (bytes ''dD'') then (s, num32 s n)
      else if c = of_char CHR ''p'' then (s\<lparr>hex_mode := 2, pad_char := ch_0, pad_width := 16\<rparr>, uint n)
      else (s, num64 s n))"

text \<open>The \<open>switch\<close> on the conversion: what is written, and the arguments left.\<close>

definition convert :: "nat \<Rightarrow> conversion \<Rightarrow> u_char \<Rightarrow> va_arg list \<Rightarrow> (u_char list \<times> va_arg list) option" where
  "convert room s c args =
     (if c = of_char CHR ''V'' then
        (case args of Va_str (Some v) # args \<Rightarrow> Some (take (min room (length v)) v, args) | _ \<Rightarrow> None)
      else if c = of_char CHR ''v'' then
        (case args of Va_value v # args \<Rightarrow> Some (take (min room (length v)) v, args) | _ \<Rightarrow> None)
      else if c = of_char CHR ''s'' then
        (case args of
           Va_ptr p # args \<Rightarrow>
             (case slen s of
                None \<Rightarrow> map_option (\<lambda>out. (out, args)) (copy_cstr room p)
              | Some n \<Rightarrow>
                  (let len = min room n in if len \<le> length p then Some (take len p, args) else None))
         | _ \<Rightarrow> None)
      else if c = of_char CHR ''f'' then None
      else if is_num_conversion c then
        (case args of
           Va_num n # args \<Rightarrow> (let (s, i64) = num_value s c n in Some (print_num room s i64, args))
         | _ \<Rightarrow> None)
      else if c = of_char CHR ''c'' then
        (case args of Va_num n # args \<Rightarrow> Some ([ucast n], args) | _ \<Rightarrow> None)
      else if c = of_char CHR ''Z'' then Some ([ch_NUL], args)
      else if c = of_char CHR ''N'' then Some ([ch_LF], args)
      else Some ([c], args))"

definition null_str :: "va_arg list \<Rightarrow> bool" where
  "null_str args = (case args of Va_str None # _ \<Rightarrow> True | _ \<Rightarrow> False)"

lemma fmt_width_shorter: "length (snd (fmt_width w fmt)) \<le> length fmt"
  by (induction w fmt rule: fmt_width.induct) auto

lemma fmt_flags_shorter: "fmt_flags s fmt args = Some (s', fmt', args') \<Longrightarrow> length fmt' \<le> length fmt"
proof (induction s fmt args rule: fmt_flags.induct)
  case (2 s c fmt args)
  then show ?case using fmt_width_shorter [of 0 fmt]
    by (auto split: if_splits list.splits va_arg.splits)
qed auto

lemma conversion_shorter:
  assumes "fmt_flags s (snd (fmt_width 0 fmt)) args = Some (s', c # fmt', args')"
  shows "length fmt' < length fmt"
  using fmt_flags_shorter [OF assms] fmt_width_shorter [of 0 fmt] by simp

text \<open>
  The loop. A NULL string goes on behind the flags, with the letter \<open>V\<close> of the conversion still there.
\<close>

function (sequential) ngx_vslprintf :: "nat \<Rightarrow> u_char list \<Rightarrow> va_arg list \<Rightarrow> u_char list option" where
  "ngx_vslprintf room [] args = Some []"
| "ngx_vslprintf room (c # fmt) args =
     (if room = 0 then Some []
      else if c \<noteq> ch_percent then map_option ((#) c) (ngx_vslprintf (room - 1) fmt args)
      else
        (let zero = (if fmt \<noteq> [] \<and> hd fmt = ch_0 then ch_0 else ch_SP);
             w = fmt_width 0 fmt
         in case fmt_flags \<lparr>pad_char = zero, pad_width = fst w, is_signed = True, hex_mode = 0, max_width = False,
                   slen = None\<rparr> (snd w) args of
              None \<Rightarrow> None
            | Some (s, [], args) \<Rightarrow> None
            | Some (s, c # fmt, args) \<Rightarrow>
                (if c = of_char CHR ''V'' \<and> null_str args
                 then ngx_vslprintf room (c # fmt) (tl args)
                 else case convert room s c args of
                   None \<Rightarrow> None
                 | Some (out, args) \<Rightarrow> map_option ((@) out) (ngx_vslprintf (room - length out) fmt args))))"
  by pat_completeness auto
termination
  by (relation "measure (\<lambda>(room, fmt, args). length fmt)") (auto dest: conversion_shorter)

declare ngx_vslprintf.simps(2) [simp del]

subsection \<open>The contract of the bound\<close>

text \<open>
  What each conversion writes into less room is the beginning of what it writes into more, and into the
  same room unless it is cut off there.
\<close>

definition cut :: "nat \<Rightarrow> nat \<Rightarrow> u_char list \<Rightarrow> u_char list \<Rightarrow> bool" where
  "cut r R out' out \<longleftrightarrow> length out \<le> R \<and> out' = take r out"

lemma take_min_cut: "r \<le> R \<Longrightarrow> cut r R (take (min r (length v)) v) (take (min R (length v)) v)"
  by (auto simp: cut_def min_def)

lemma sprintf_num_cut: "r \<le> R \<Longrightarrow> cut r R (ngx_sprintf_num r n z h w) (ngx_sprintf_num R n z h w)"
  by (auto simp: cut_def sprintf_num_take Let_def min_def)

lemma print_num_cut:
  assumes "0 < r" "r \<le> R"
  shows "cut r R (print_num r s i) (print_num R s i)"
  using sprintf_num_cut [OF assms(2)] sprintf_num_cut [of "r - 1" "R - 1"] assms
  by (cases r; cases R) (auto simp: print_num_def cut_def)

lemma copy_cstr_cut:
  assumes "copy_cstr R p = Some out" "r \<le> R"
  shows "\<exists>out'. copy_cstr r p = Some out' \<and> cut r R out' out"
  using assms
proof (induction R p arbitrary: r out rule: copy_cstr.induct)
  case (2 R c p)
  show ?case
  proof (cases "c = ch_NUL \<or> R = 0")
    case True
    then show ?thesis using 2 by (auto simp: cut_def)
  next
    case False
    then obtain out1 where 1: "out = c # out1" "copy_cstr (R - 1) p = Some out1" using 2(2) by auto
    have "r - 1 \<le> R - 1" using 2(3) by simp
    from 2(1) [OF False 1(2) this] obtain out' where "copy_cstr (r - 1) p = Some out'" "cut (r - 1) (R - 1) out' out1"
      by blast
    then show ?thesis using False 1 2(3) by (cases r; cases R) (auto simp: cut_def)
  qed
qed simp

lemma convert_num:
  "is_num_conversion c \<Longrightarrow> convert k s c args = (case args of
       Va_num n # args \<Rightarrow> (let (s, i64) = num_value s c n in Some (print_num k s i64, args))
     | _ \<Rightarrow> None)"
proof -
  assume num: "is_num_conversion c"
  then have "c \<noteq> of_char CHR ''V''" "c \<noteq> of_char CHR ''v''" "c \<noteq> of_char CHR ''s''" "c \<noteq> of_char CHR ''f''"
    by (auto simp: is_num_conversion_def)
  with num show ?thesis by (simp only: convert_def if_False if_True simp_thms)
qed

lemma convert_cut:
  assumes "convert R s c args = Some (out, rest)" "0 < r" "r \<le> R"
  shows "\<exists>out'. convert r s c args = Some (out', rest) \<and> cut r R out' out"
proof -
  note num = print_num_cut [OF assms(2,3)]
  have one: "cut r R [b] [b]" for b using assms(2,3) by (auto simp: cut_def)
  show ?thesis
  proof (cases "c = of_char CHR ''s''")
    case ptr: True
    then obtain p where p: "args = Va_ptr p # rest" using assms(1)
      by (simp add: convert_def Let_def split: list.splits va_arg.splits option.splits if_splits)
    show ?thesis
    proof (cases "slen s")
      case None
      then show ?thesis using ptr p assms(1) copy_cstr_cut [OF _ assms(3), of p out]
        by (auto simp: convert_def)
    next
      case (Some n)
      then show ?thesis using ptr p assms(1,3)
        by (auto simp: convert_def Let_def cut_def min_def split: if_splits)
    qed
  next
    case other: False
    show ?thesis
    proof (cases "is_num_conversion c")
      case True
      then have conv: "convert k s c args = (case args of
           Va_num n # args \<Rightarrow> (let (s, i64) = num_value s c n in Some (print_num k s i64, args))
         | _ \<Rightarrow> None)" for k
        by (simp add: convert_num)
      from assms(1) obtain n where n: "args = Va_num n # rest"
        by (simp add: conv split: list.splits va_arg.splits prod.splits)
      then show ?thesis using assms(1) num by (auto simp: conv [unfolded n] split: prod.splits)
    next
      case False
      note [simp] = False other
      have cuts: "cut r R (take (min r (length v)) v) (take (min R (length v)) v)" for v
        by (rule take_min_cut [OF assms(3)])
      consider "c = of_char CHR ''V''" | "c = of_char CHR ''v''" | "c = of_char CHR ''f''" | "c = of_char CHR ''c''"
        | "c = of_char CHR ''Z''" | "c = of_char CHR ''N''"
        | "c \<notin> {of_char CHR ''V'', of_char CHR ''v'', of_char CHR ''f'', of_char CHR ''c'', of_char CHR ''Z'', of_char CHR ''N''}"
        by blast
      then show ?thesis
      proof cases
        case 1
        then obtain v where "args = Va_str (Some v) # rest" using assms(1)
          by (simp add: convert_def split: list.splits va_arg.splits option.splits)
        then show ?thesis using 1 assms(1) cuts by (auto simp: convert_def)
      next
        case 2
        then obtain v where "args = Va_value v # rest" using assms(1)
          by (simp add: convert_def split: list.splits va_arg.splits)
        then show ?thesis using 2 assms(1) cuts by (auto simp: convert_def)
      next
        case 3
        then show ?thesis using assms(1) by (simp add: convert_def)
      next
        case 4
        then obtain n where "args = Va_num n # rest" using assms(1)
          by (simp add: convert_def is_num_conversion_def split: list.splits va_arg.splits)
        then show ?thesis using 4 assms(1) one by (auto simp: convert_def is_num_conversion_def)
      next
        case 5
        then show ?thesis using assms(1) one by (auto simp: convert_def is_num_conversion_def)
      next
        case 6
        then show ?thesis using assms(1) one by (auto simp: convert_def is_num_conversion_def)
      next
        case 7
        then show ?thesis using assms(1) one other False by (auto simp: convert_def)
      qed
    qed
  qed
qed

text \<open>One round of the loop.\<close>

definition fmt_conversion :: "u_char list \<Rightarrow> va_arg list \<Rightarrow> (conversion \<times> u_char list \<times> va_arg list) option" where
  "fmt_conversion fmt args =
     fmt_flags \<lparr>pad_char = if fmt \<noteq> [] \<and> hd fmt = ch_0 then ch_0 else ch_SP, pad_width = fst (fmt_width 0 fmt),
       is_signed = True, hex_mode = 0, max_width = False, slen = None\<rparr> (snd (fmt_width 0 fmt)) args"

lemma vslprintf_round:
  "ngx_vslprintf room (c # fmt) args =
     (if room = 0 then Some []
      else if c \<noteq> ch_percent then map_option ((#) c) (ngx_vslprintf (room - 1) fmt args)
      else (case fmt_conversion fmt args of
              None \<Rightarrow> None
            | Some (s, [], args) \<Rightarrow> None
            | Some (s, c # fmt, args) \<Rightarrow>
                (if c = of_char CHR ''V'' \<and> null_str args then ngx_vslprintf room (c # fmt) (tl args)
                 else case convert room s c args of
                   None \<Rightarrow> None
                 | Some (out, args) \<Rightarrow> map_option ((@) out) (ngx_vslprintf (room - length out) fmt args))))"
  by (simp add: ngx_vslprintf.simps(2) Let_def fmt_conversion_def)

lemma vslprintf_zero [simp]: "ngx_vslprintf 0 fmt args = Some []"
  by (cases fmt) (simp_all add: vslprintf_round)

lemma conversion_shrinks: "fmt_conversion fmt args = Some (s, c # fmt', args') \<Longrightarrow> length fmt' < length fmt"
  unfolding fmt_conversion_def by (rule conversion_shorter)

lemma vslprintf_cut:
  assumes "ngx_vslprintf R fmt args = Some out" "r \<le> R"
  shows "\<exists>out'. ngx_vslprintf r fmt args = Some out' \<and> cut r R out' out"
  using assms
proof (induction "length fmt" arbitrary: fmt args r R out rule: less_induct)
  case less
  have grow: "cut r R (pre' @ out1') (pre @ out1)"
    if "cut r R pre' pre" "cut (r - length pre') (R - length pre) out1' out1" "r \<le> R" for r pre pre' out1 out1'
    using that by (auto simp: cut_def min_def)
  show ?case
  proof (cases "fmt = [] \<or> R = 0")
    case True
    then show ?thesis using less.prems by (auto simp: cut_def)
  next
    case False
    then obtain c fmt1 where fmt: "fmt = c # fmt1" by (cases fmt) auto
    note run = vslprintf_round [of _ c fmt1 args] vslprintf_round [of _ ch_percent fmt1 args]
    show ?thesis
    proof (cases "c = ch_percent")
      case plain: False
      then obtain out1 where "ngx_vslprintf (R - 1) fmt1 args = Some out1" "out = c # out1"
        using less.prems(1) False by (auto simp: fmt run)
      moreover have "r - 1 \<le> R - 1" using less.prems(2) by simp
      ultimately obtain out1' where "ngx_vslprintf (r - 1) fmt1 args = Some out1'" "cut (r - 1) (R - 1) out1' out1"
        using less.hyps [of fmt1 "R - 1" args out1 "r - 1"] by (auto simp: fmt)
      then show ?thesis using \<open>out = c # out1\<close> False plain by (cases r) (auto simp: fmt run cut_def)
    next
      case True
      obtain s c' fmt' args' where conv: "fmt_conversion fmt1 args = Some (s, c' # fmt', args')"
        using less.prems(1) False True by (auto simp: fmt run split: option.splits list.splits)
      have shrink: "length fmt' < length fmt1" by (rule conversion_shrinks [OF conv])
      have step: "\<exists>out'. ngx_vslprintf r fmt args = Some out' \<and> cut r R out' out" if r: "0 < r" "r \<le> R" for r
      proof (cases "c' = of_char CHR ''V'' \<and> null_str args'")
        case null: True
        then show ?thesis using less.hyps [of "c' # fmt'" R "tl args'" out r] less.prems(1) shrink r False True
          by (simp add: fmt run conv)
      next
        case nonnull: False
        then have eq: "ngx_vslprintf k fmt args = (if k = 0 then Some [] else case convert k s c' args' of None \<Rightarrow> None
            | Some (out, args) \<Rightarrow> map_option ((@) out) (ngx_vslprintf (k - length out) fmt' args))" for k
          using True by (auto simp: fmt run conv)
        obtain pre rest out1 where pre: "convert R s c' args' = Some (pre, rest)"
          "ngx_vslprintf (R - length pre) fmt' rest = Some out1" "out = pre @ out1"
          using less.prems(1) False by (auto simp: eq split: option.splits)
        from convert_cut [OF pre(1) r] obtain pre' where pre': "convert r s c' args' = Some (pre', rest)" "cut r R pre' pre" by blast
        have "r - length pre' \<le> R - length pre" using pre'(2) r(2) by (auto simp: cut_def min_def)
        from less.hyps [OF _ pre(2) this] shrink obtain out1' where
          "ngx_vslprintf (r - length pre') fmt' rest = Some out1'" "cut (r - length pre') (R - length pre) out1' out1"
          by (auto simp: fmt)
        then show ?thesis using pre' grow [OF pre'(2) _ r(2)] False r(1) pre(3) by (simp add: eq)
      qed
      show ?thesis
      proof (cases "r = 0")
        case zero: True
        from step [of R] False have "length out \<le> R" by (auto simp: cut_def)
        then show ?thesis using zero by (simp add: cut_def)
      next
        case pos: False
        then show ?thesis using step less.prems(2) by blast
      qed
    qed
  qed
qed

subsection \<open>Printing the formats of the sources\<close>

definition ngx_sprintf :: "u_char list \<Rightarrow> va_arg list \<Rightarrow> u_char list option" where
  "ngx_sprintf fmt args = ngx_vslprintf 18446744073709551615 fmt args"

definition ngx_snprintf :: "nat \<Rightarrow> u_char list \<Rightarrow> va_arg list \<Rightarrow> u_char list option" where
  "ngx_snprintf mx fmt args = ngx_vslprintf mx fmt args"

text \<open>What a format prints, cut off where the room ends.\<close>

definition prints :: "u_char list \<Rightarrow> va_arg list \<Rightarrow> u_char list \<Rightarrow> bool" where
  "prints fmt args out \<longleftrightarrow> (\<forall>room. ngx_vslprintf room fmt args = Some (take room out))"

named_theorems printing \<open>introduction rules for what a format prints\<close>

lemma prints_end [printing]: "prints [] [] []"
  by (simp add: prints_def)

lemma prints_char: "c \<noteq> ch_percent \<Longrightarrow> prints fmt args out \<Longrightarrow> prints (c # fmt) args (c # out)"
  by (simp add: prints_def vslprintf_round take_Cons')

lemma prints_conv:
  assumes "case fmt_conversion fmt args of
      Some (s, c # fmt'', args') \<Rightarrow> \<not> (c = of_char CHR ''V'' \<and> null_str args') \<and> fmt'' = fmt' \<and>
        (\<forall>room. 0 < room \<longrightarrow> convert room s c args' = Some (take room piece, rest))
    | _ \<Rightarrow> False" and "prints fmt' rest out"
  shows "prints (ch_percent # fmt) args (piece @ out)"
  unfolding prints_def
proof
  fix room
  have "room - length (take room piece) = room - length piece" by simp
  then show "ngx_vslprintf room (ch_percent # fmt) args = Some (take room (piece @ out))"
    using assms by (auto simp: prints_def vslprintf_round split: option.splits prod.splits list.splits)
qed

lemma copy_whole: "ch_NUL \<notin> set v \<Longrightarrow> copy_cstr room (v @ ch_NUL # m) = Some (take room v)"
  by (induction v arbitrary: room) (auto simp: take_Cons')

lemma prints_s [printing]:
  assumes "ch_NUL \<notin> set v" "prints fmt args out"
  shows "prints (ch_percent # of_char CHR ''s'' # fmt) (Va_ptr (v @ ch_NUL # m) # args) (v @ out)"
  by (rule prints_conv [OF _ assms(2)]) (simp_all add: fmt_conversion_def convert_def copy_whole assms(1))

lemma prints_V [printing]:
  assumes "prints fmt args out"
  shows "prints (ch_percent # of_char CHR ''V'' # fmt) (Va_str (Some v) # args) (v @ out)"
  by (rule prints_conv [OF _ assms]) (simp_all add: fmt_conversion_def convert_def null_str_def min_def)

definition padded :: "u_char \<Rightarrow> nat \<Rightarrow> nat \<Rightarrow> u_char list" where
  "padded z w n = replicate (w - length (sprintf_dec n [])) z @ sprintf_dec n []"

lemma padded_two: "padded z (Suc (Suc 0)) n = padded z 2 n"
  by (simp only: numeral_2_eq_2)

lemma print_num_padded:
  "n < 18446744073709551616 \<Longrightarrow> hex_mode s = 0 \<Longrightarrow> print_num room s (int n) = take room (padded (pad_char s) (pad_width s) n)"
  by (simp add: print_num_def sprintf_num_take sprintf_temp_def Let_def padded_def)

lemma sint_int: "n < 2147483648 \<Longrightarrow> sint (ucast (word_of_nat n :: 64 word) :: 32 word) = int n"
proof -
  assume n: "n < 2147483648"
  then have "take_bit 64 n = n" by (intro take_bit_nat_eq_self) simp
  then have "ucast (word_of_nat n :: 64 word) = (word_of_nat n :: 32 word)" by (simp add: unsigned_of_nat)
  then show ?thesis using n by (simp add: signed_of_nat signed_take_bit_int_eq_self)
qed

lemma sint_off_t: "n < 9223372036854775808 \<Longrightarrow> sint (word_of_nat n :: 64 word) = int n"
  by (simp add: signed_of_nat signed_take_bit_int_eq_self)

lemma prints_0d:
  assumes "prints fmt args out" "n < 2147483648"
  shows "prints (ch_percent # ch_0 # of_char CHR ''2'' # of_char CHR ''d'' # fmt) (Va_num (word_of_nat n) # args) (padded ch_0 2 n @ out)"
    "prints (ch_percent # of_char CHR ''4'' # of_char CHR ''d'' # fmt) (Va_num (word_of_nat n) # args) (padded ch_SP 4 n @ out)"
    "prints (ch_percent # of_char CHR ''d'' # fmt) (Va_num (word_of_nat n) # args) (padded ch_SP 0 n @ out)"
  using assms(2)
  by (auto intro!: prints_conv [OF _ assms(1)]
    simp: fmt_conversion_def convert_def is_num_conversion_def num_value_def num32_def sint_int print_num_padded padded_two)

lemma prints_O:
  assumes "prints fmt args out" "n < 9223372036854775808"
  shows "prints (ch_percent # of_char CHR ''O'' # fmt) (Va_num (word_of_nat n) # args) (padded ch_SP 0 n @ out)"
  using assms(2)
  by (auto intro!: prints_conv [OF _ assms(1)]
    simp: fmt_conversion_def convert_def is_num_conversion_def num_value_def sint_off_t print_num_padded)

subsection \<open>Properties\<close>

text \<open>C37: The contract of the bounded printers: whatever the format and its arguments, \<open>ngx_vslprintf\<close> never
  writes behind \<open>last\<close>, and with less room it writes the beginning of what it writes with more, cut off
  exactly where the room ends. (The conversions of \<open>double\<close> are left out.)\<close>

theorem vslprintf_truncates:
  assumes "ngx_vslprintf R fmt args = Some out" "r \<le> R"
  shows "length out \<le> R \<and> ngx_vslprintf r fmt args = Some (take r out)"
  using vslprintf_cut [OF assms] by (auto simp: cut_def)

lemma sample_print:
  "ngx_vslprintf 9 (bytes ''%V-%*s%c!'') [Va_str (Some (bytes ''abc'')), Va_num 2, Va_ptr (bytes ''xyz''), Va_num 33] =
     Some (bytes ''abc-xy!!'')"
  by (simp add: vslprintf_round fmt_conversion_def convert_def is_num_conversion_def null_str_def)

lemma vslprintf_truncates_witness:
  "ngx_vslprintf 5 (bytes ''%V-%*s%c!'') [Va_str (Some (bytes ''abc'')), Va_num 2, Va_ptr (bytes ''xyz''), Va_num 33] =
     Some (bytes ''abc-x'')"
  using vslprintf_truncates [OF sample_print, of 5] by simp

end
