(* ===== verification/Http_Time.thy ===== *)
theory Http_Time
  imports Sprintf "HOL-Library.Monad_Syntax"
begin

section \<open>Dates: \<open>ngx_gmtime\<close>, \<open>ngx_http_time\<close>, \<open>ngx_http_cookie_time\<close>, \<open>ngx_parse_http_time\<close>\<close>

text \<open>
  \<open>src/core/ngx_times.c\<close> and \<open>src/core/ngx_parse_time.c\<close>: from seconds to a calendar date, its text, and
  back. Unsigned 64-bit variables are \<open>int\<close> with \<open>u64\<close> written out at each assignment and before each
  division. The calendar is specified by counting the days of years and months.
\<close>

subsection \<open>The code\<close>

definition u64 :: "int \<Rightarrow> int" where
  "u64 x = x mod 18446744073709551616"

lemma u64_id [simp]: "0 \<le> x \<Longrightarrow> x < 18446744073709551616 \<Longrightarrow> u64 x = x"
  by (simp add: u64_def)

definition s32 :: "int \<Rightarrow> int" where
  "s32 x = (x + 2147483648) mod 4294967296 - 2147483648"

lemma s32_id [simp]: "- 2147483648 \<le> x \<Longrightarrow> x < 2147483648 \<Longrightarrow> s32 x = x"
  by (simp add: s32_def)

record ngx_tm =
  tm_sec :: int
  tm_min :: int
  tm_hour :: int
  tm_mday :: int
  tm_mon :: int
  tm_year :: int
  tm_wday :: int

text \<open>Behind the correction of a negative \<open>yday\<close> it is not negative, so that \<open>div\<close> is the division of C.\<close>

definition ngx_gmtime :: "int \<Rightarrow> ngx_tm" where
  "ngx_gmtime t =
     (let n = u64 t;
          days = n div 86400;
          wday = (4 + days) mod 7;
          n = n mod 86400;
          hour = n div 3600;
          n = n mod 3600;
          minute = n div 60;
          sec = n mod 60;
          days = u64 (days - (31 + 28) + 719527);
          year = u64 ((days + 2) * 400) div (365 * 400 + 100 - 4 + 1);
          yday = s64 (days - (365 * year + year div 4 - year div 100 + year div 400));
          (yday, year) =
            (if yday < 0 then
               (let leap = of_bool (year mod 4 = 0 \<and> (year mod 100 \<noteq> 0 \<or> year mod 400 = 0))
                in (365 + leap + yday, year - 1))
             else (yday, year));
          mon = (yday + 31) * 10 div 306;
          mday = u64 (yday - (367 * mon div 12 - 30) + 1);
          (year, mon) = (if yday \<ge> 306 then (year + 1, u64 (mon - 10)) else (year, mon + 2))
      in \<lparr>tm_sec = sec, tm_min = minute, tm_hour = hour, tm_mday = s32 mday, tm_mon = s32 mon, tm_year = s32 year,
          tm_wday = wday\<rparr>)"

definition week :: "u_char list list" where
  "week = map bytes [''Sun'', ''Mon'', ''Tue'', ''Wed'', ''Thu'', ''Fri'', ''Sat'']"

definition months :: "u_char list list" where
  "months = map bytes [''Jan'', ''Feb'', ''Mar'', ''Apr'', ''May'', ''Jun'',
     ''Jul'', ''Aug'', ''Sep'', ''Oct'', ''Nov'', ''Dec'']"

abbreviation va_int :: "int \<Rightarrow> va_arg" where "va_int i \<equiv> Va_num (word_of_int i)"

definition ngx_http_time :: "int \<Rightarrow> u_char list option" where
  "ngx_http_time t = do {
     let tm = ngx_gmtime t;
     wday \<leftarrow> rd week (nat (tm_wday tm));
     mon \<leftarrow> rd months (nat (tm_mon tm - 1));
     ngx_sprintf (bytes ''%s, %02d %s %4d %02d:%02d:%02d GMT'')
       [Va_ptr (wday @ [ch_NUL]), va_int (tm_mday tm), Va_ptr (mon @ [ch_NUL]), va_int (tm_year tm),
        va_int (tm_hour tm), va_int (tm_min tm), va_int (tm_sec tm)]
   }"

definition ngx_http_cookie_time :: "int \<Rightarrow> u_char list option" where
  "ngx_http_cookie_time t = do {
     let tm = ngx_gmtime t;
     wday \<leftarrow> rd week (nat (tm_wday tm));
     mon \<leftarrow> rd months (nat (tm_mon tm - 1));
     ngx_sprintf (if tm_year tm > 2037 then bytes ''%s, %02d-%s-%d %02d:%02d:%02d GMT''
                  else bytes ''%s, %02d-%s-%02d %02d:%02d:%02d GMT'')
       [Va_ptr (wday @ [ch_NUL]), va_int (tm_mday tm), Va_ptr (mon @ [ch_NUL]),
        va_int (if tm_year tm > 2037 then tm_year tm else tm_year tm mod 100),
        va_int (tm_hour tm), va_int (tm_min tm), va_int (tm_sec tm)]
   }"

text \<open>
  The parser, with the rest of the function as an argument of the functions for its parts. A number
  of two or four digits; the name of a month.
\<close>

definition digit_at :: "u_char list \<Rightarrow> nat \<Rightarrow> (int \<Rightarrow> int option) \<Rightarrow> int option" where
  "digit_at value p k = do {
     c \<leftarrow> rd value p;
     if c < ch_0 \<or> c > ch_9 then Some NGX_ERROR else k (uint c - uint ch_0)
   }"

definition two_digits :: "u_char list \<Rightarrow> nat \<Rightarrow> (int \<Rightarrow> int option) \<Rightarrow> int option" where
  "two_digits value p k =
     digit_at value p (\<lambda>a. digit_at value (p + 1) (\<lambda>b. k (a * 10 + b)))"

definition four_digits :: "u_char list \<Rightarrow> nat \<Rightarrow> (int \<Rightarrow> int option) \<Rightarrow> int option" where
  "four_digits value p k =
     digit_at value p (\<lambda>a. digit_at value (p + 1) (\<lambda>b. digit_at value (p + 2) (\<lambda>c. digit_at value (p + 3) (\<lambda>d.
       k (a * 1000 + b * 100 + c * 10 + d)))))"

definition char_at :: "u_char list \<Rightarrow> nat \<Rightarrow> u_char \<Rightarrow> int option \<Rightarrow> int option" where
  "char_at value p ch k = do { c \<leftarrow> rd value p; if c \<noteq> ch then Some NGX_ERROR else k }"

definition month_at :: "u_char list \<Rightarrow> nat \<Rightarrow> (int \<Rightarrow> int option) \<Rightarrow> int option" where
  "month_at value p k = do {
     c \<leftarrow> rd value p;
     if c = of_char CHR ''J'' then do {
       c1 \<leftarrow> rd value (p + 1);
       if c1 = of_char CHR ''a'' then k 0
       else do { c2 \<leftarrow> rd value (p + 2); k (if c2 = of_char CHR ''n'' then 5 else 6) }
     }
     else if c = of_char CHR ''F'' then k 1
     else if c = of_char CHR ''M'' then do { c2 \<leftarrow> rd value (p + 2); k (if c2 = of_char CHR ''r'' then 2 else 4) }
     else if c = of_char CHR ''A'' then do { c1 \<leftarrow> rd value (p + 1); k (if c1 = of_char CHR ''p'' then 3 else 7) }
     else if c = of_char CHR ''S'' then k 8
     else if c = of_char CHR ''O'' then k 9
     else if c = of_char CHR ''N'' then k 10
     else if c = of_char CHR ''D'' then k 11
     else Some NGX_ERROR
   }"

definition mday :: "int list" where
  "mday = [31, 28, 31, 30, 31, 30, 31, 31, 30, 31, 30, 31]"

text \<open>The checks and the formula behind the fields. \<open>month\<close> is the signed variable of the code.\<close>

definition time_of_fields :: "int \<Rightarrow> int \<Rightarrow> int \<Rightarrow> int \<Rightarrow> int \<Rightarrow> int \<Rightarrow> int" where
  "time_of_fields year month day hour minute sec =
     (if hour > 23 \<or> minute > 59 \<or> sec > 59 then NGX_ERROR
      else if day = 29 \<and> month = 1 \<and> (year mod 4 \<noteq> 0 \<or> (year mod 100 = 0 \<and> year mod 400 \<noteq> 0)) then NGX_ERROR
      else if \<not> (day = 29 \<and> month = 1) \<and> day > mday ! nat month then NGX_ERROR
      else
        (let month = month - 1;
             (year, month) = (if month \<le> 0 then (u64 (year - 1), month + 12) else (year, month))
         in s64 ((365 * year + year div 4 - year div 100 + year div 400 + 367 * month div 12 - 30 + day - 1
                  - 719527 + 31 + 28) * 86400 + hour * 3600 + minute * 60 + sec)))"

text \<open>From the blank before the hour on; \<open>isoc\<close> has the year at the end.\<close>

definition time_of_day :: "u_char list \<Rightarrow> bool \<Rightarrow> int \<Rightarrow> int \<Rightarrow> int \<Rightarrow> nat \<Rightarrow> int option" where
  "time_of_day value isoc year month day p =
     char_at value p ch_SP (
     two_digits value (p + 1) (\<lambda>hour.
     char_at value (p + 3) ch_colon (
     two_digits value (p + 4) (\<lambda>minute.
     char_at value (p + 6) ch_colon (
     two_digits value (p + 7) (\<lambda>sec.
     if isoc then
       char_at value (p + 9) ch_SP (
       four_digits value (p + 10) (\<lambda>year. Some (time_of_fields year month day hour minute sec)))
     else Some (time_of_fields year month day hour minute sec)))))))"

definition isoc_day :: "u_char list \<Rightarrow> int \<Rightarrow> nat \<Rightarrow> int option" where
  "isoc_day value month p =
     digit_at value p (\<lambda>day. do {
       c \<leftarrow> rd value (p + 1);
       if c \<noteq> ch_SP then
         digit_at value (p + 1) (\<lambda>d.
           if length value < p + 2 + 14 then Some NGX_ERROR
           else time_of_day value True 0 month (day * 10 + d) (p + 2))
       else if length value < p + 1 + 14 then Some NGX_ERROR
       else time_of_day value True 0 month day (p + 1)
     })"

text \<open>Behind the name of the weekday, \<open>fmt\<close> being \<open>isoc\<close> or not.\<close>

definition http_time_from :: "u_char list \<Rightarrow> bool \<Rightarrow> nat \<Rightarrow> int option" where
  "http_time_from value isoc p =
     (if length value < p + 18 then Some NGX_ERROR
      else if isoc then
        month_at value p (\<lambda>month. do {
          c \<leftarrow> rd value (p + 4);
          if c = ch_SP then isoc_day value month (p + 5) else isoc_day value month (p + 4)
        })
      else
        two_digits value p (\<lambda>day. do {
          c \<leftarrow> rd value (p + 2);
          if c = ch_SP \<and> length value < p + 2 + 18 then Some NGX_ERROR
          else if c \<noteq> ch_SP \<and> c \<noteq> ch_minus then Some NGX_ERROR
          else
            month_at value (p + 3) (\<lambda>month.
            char_at value (p + 6) c (
            if c = ch_SP then
              four_digits value (p + 7) (\<lambda>year. time_of_day value False year month day (p + 11))
            else
              two_digits value (p + 7) (\<lambda>year.
                time_of_day value False (year + (if year < 70 then 2000 else 1900)) month day (p + 9))))
        }))"

definition ngx_parse_http_time :: "u_char list \<Rightarrow> int option" where
  "ngx_parse_http_time value =
     (let p = length (takeWhile (\<lambda>c. c \<noteq> ch_comma \<and> c \<noteq> ch_SP) value);
          isoc = (p < length value \<and> value ! p = ch_SP)
      in http_time_from value isoc (p + 1 + length (takeWhile (\<lambda>c. c = ch_SP) (drop (p + 1) value))))"

subsection \<open>The calendar\<close>

definition leap_year :: "int \<Rightarrow> bool" where
  "leap_year y \<longleftrightarrow> 4 dvd y \<and> (\<not> 100 dvd y \<or> 400 dvd y)"

definition month_days :: "int \<Rightarrow> int \<Rightarrow> int" where
  "month_days y m = (if m = 2 then (if leap_year y then 29 else 28) else if m \<in> {4, 6, 9, 11} then 30 else 31)"

definition days_since_1970 :: "int \<Rightarrow> int \<Rightarrow> int \<Rightarrow> int" where
  "days_since_1970 y m d = (\<Sum>y' = 1970..<y. 365 + of_bool (leap_year y')) + (\<Sum>m' = 1..<m. month_days y m') + d - 1"

definition valid_date :: "int \<Rightarrow> int \<Rightarrow> int \<Rightarrow> bool" where
  "valid_date y m d \<longleftrightarrow> 1970 \<le> y \<and> 1 \<le> m \<and> m \<le> 12 \<and> 1 \<le> d \<and> d \<le> month_days y m"

text \<open>The code counts years from March on, as Gauss did.\<close>

definition march_days :: "int \<Rightarrow> int" where
  "march_days y = 365 * y + y div 4 - y div 100 + y div 400"

lemma div_Suc:
  assumes "0 < k"
  shows "(y::int) div k = (y - 1) div k + of_bool (k dvd y)"
proof (cases "k dvd y")
  case True
  then obtain q where "y = k * q" by auto
  then have split: "y - 1 = k * (q - 1) + (k - 1)" by (simp add: algebra_simps)
  have "(y - 1) div k = q - 1" by (rule int_div_pos_eq [OF split]) (use assms in simp_all)
  then show ?thesis using \<open>y = k * q\<close> assms by simp
next
  case False
  then have "y mod k \<noteq> 0" by auto
  then have "0 < y mod k" "y mod k < k" using assms pos_mod_bound [OF assms, of y] pos_mod_sign [OF assms, of y] by linarith+
  moreover have split: "y - 1 = k * (y div k) + (y mod k - 1)" by simp
  ultimately have "(y - 1) div k = y div k" by (intro int_div_pos_eq [OF split]) linarith+
  then show ?thesis using False by simp
qed

lemma of_bool_leap: "(c \<Longrightarrow> b) \<Longrightarrow> (b \<Longrightarrow> a) \<Longrightarrow> of_bool (a \<and> (\<not> b \<or> c)) = (of_bool a - of_bool b + of_bool c :: int)"
  by (cases a; cases b; cases c) simp_all

lemma march_days_Suc: "march_days y = march_days (y - 1) + 365 + of_bool (leap_year y)"
proof -
  have "400 dvd y \<Longrightarrow> 100 dvd y" "100 dvd y \<Longrightarrow> 4 dvd y"
    using dvd_trans [of 100 400 y] dvd_trans [of 4 100 y] by simp_all
  then have "of_bool (leap_year y) = (of_bool (4 dvd y) - of_bool (100 dvd y) + of_bool (400 dvd y) :: int)"
    unfolding leap_year_def by (rule of_bool_leap)
  moreover have 4: "y div 4 = (y - 1) div 4 + of_bool (4 dvd y)" "y div 100 = (y - 1) div 100 + of_bool (100 dvd y)"
    "y div 400 = (y - 1) div 400 + of_bool (400 dvd y)"
    by (rule div_Suc, simp)+
  have "march_days y = 365 * y + ((y - 1) div 4 + of_bool (4 dvd y)) - ((y - 1) div 100 + of_bool (100 dvd y))
      + ((y - 1) div 400 + of_bool (400 dvd y))"
    unfolding march_days_def 4 ..
  ultimately show ?thesis unfolding march_days_def right_diff_distrib by (simp only: algebra_simps)
qed

lemma march_days_bounds: "146097 * y - 699 \<le> 400 * march_days y \<and> 400 * march_days y \<le> 146097 * y + 396"
proof -
  define a b c r4 r100 r400 where defs: "a = y div 4" "b = y div 100" "c = y div 400" "r4 = y mod 4" "r100 = y mod 100" "r400 = y mod 400"
  have "y = 4 * a + r4" "y = 100 * b + r100" "y = 400 * c + r400" by (simp_all only: defs mult_div_mod_eq)
  then have "400 * march_days y = 146097 * y - 100 * r4 + 4 * r100 - r400"
    unfolding march_days_def defs(1-3) [symmetric] by algebra
  moreover have "0 \<le> r4" "r4 \<le> 3" "0 \<le> r100" "r100 \<le> 99" "0 \<le> r400" "r400 \<le> 399"
    using pos_mod_bound [of 4 y] pos_mod_bound [of 100 y] pos_mod_bound [of 400 y] by (simp_all add: defs)
  ultimately show ?thesis by simp
qed

lemma year_sum:
  assumes "1970 \<le> y"
  shows "(\<Sum>y' = 1970..<y. 365 + of_bool (leap_year y')) = march_days (y - 1) - 719162"
proof -
  have "(\<Sum>y' = 1970..<1970 + int n. 365 + of_bool (leap_year y')) = march_days (1969 + int n) - 719162" for n
  proof (induction n)
    case 0
    then show ?case by (simp add: march_days_def)
  next
    case (Suc n)
    have "{1970..<1970 + int (Suc n)} = insert (1970 + int n) {1970..<1970 + int n}" by auto
    then show ?case using Suc march_days_Suc [of "1970 + int n"] by (simp add: algebra_simps)
  qed
  from this [of "nat (y - 1970)"] show ?thesis using assms by (simp add: algebra_simps)
qed

lemma month_sum:
  assumes "1 \<le> m" "m \<le> 12"
  shows "(\<Sum>m' = 1..<m. month_days y m') =
    (if m \<le> 2 then 31 * (m - 1) else 367 * (m - 2) div 12 + 29 + of_bool (leap_year y))"
proof -
  have "m \<in> set [1..12]" using assms by simp
  then have m: "m \<in> {1,2,3,4,5,6,7,8,9,10,11,12}" by (simp add: upto.simps)
  have ivl: "{1..<m} = set [1..m - 1]" by auto
  from m show ?thesis unfolding ivl sum.set_conv_list
    by (elim insertE emptyE; simp add: month_days_def upto.simps)
qed

text \<open>The formula of the code is the count.\<close>

lemma days_formula:
  assumes "1970 \<le> y" "1 \<le> m" "m \<le> 12"
  shows "days_since_1970 y m d =
    (if m \<le> 2 then march_days (y - 1) + 367 * (m + 10) div 12 else march_days y + 367 * (m - 2) div 12)
     - 30 + d - 1 - 719527 + 31 + 28"
proof -
  have "m = 1 \<or> m = 2 \<or> 3 \<le> m" using assms by auto
  then show ?thesis
    unfolding days_since_1970_def year_sum [OF assms(1)] month_sum [OF assms(2,3)]
    using march_days_Suc [of y] by auto
qed

text \<open>The day of a March year, and its date.\<close>

lemma div_bounds: "0 < k \<Longrightarrow> k * (x div k) \<le> x \<and> x < k * (x div k) + (k::int)"
  using pos_mod_bound [of k x] pos_mod_sign [of k x] mult_div_mod_eq [of k x] by linarith

lemma march_month:
  fixes mon :: int
  assumes "306 * mon \<le> 10 * yday + 310" "10 * yday + 310 < 306 * mon + 306" "0 \<le> yday" "yday \<le> 365"
  shows "mon \<in> {1, 2, 3, 4, 5, 6, 7, 8, 9, 10, 11, 12}" "yday \<ge> 306 \<longleftrightarrow> 11 \<le> mon"
proof -
  have "1 \<le> mon" "mon \<le> 12" using assms by linarith+
  then have "mon \<in> set [1..12]" by simp
  then show "mon \<in> {1, 2, 3, 4, 5, 6, 7, 8, 9, 10, 11, 12}" by (simp add: upto.simps)
  show "yday \<ge> 306 \<longleftrightarrow> 11 \<le> mon" using assms by linarith
qed

lemma march_date:
  assumes "0 \<le> yday" "yday < 365 + of_bool (leap_year (year + 1))" "1970 \<le> y"
    and "(y, m) = (if yday \<ge> 306 then (year + 1, mon - 10) else (year, mon + 2))"
    and "mon = (yday + 31) * 10 div 306" "d = yday - (367 * mon div 12 - 30) + 1"
  shows "valid_date y m d \<and> days_since_1970 y m d = march_days year + yday - 719468"
proof -
  have yday: "yday \<le> 365" "\<not> leap_year (year + 1) \<Longrightarrow> yday \<le> 364" using assms(2) by (cases "leap_year (year + 1)"; simp)+
  have b: "306 * mon \<le> 10 * yday + 310" "10 * yday + 310 < 306 * mon + 306"
    using div_bounds [of 306 "(yday + 31) * 10"] unfolding assms(5) by simp_all
  note mon = march_month [OF b assms(1) yday(1)]
  have "y = year \<and> m = mon + 2 \<or> y = year + 1 \<and> m = mon - 10 \<and> 11 \<le> mon"
    using assms(4) mon(2) by (auto split: if_splits)
  moreover have "mon < 11 \<Longrightarrow> y = year \<and> m = mon + 2" "11 \<le> mon \<Longrightarrow> y = year + 1 \<and> m = mon - 10"
    using assms(4) mon(2) by auto
  ultimately show ?thesis using mon(1) b yday assms(3,6)
    by (elim insertE emptyE; simp add: valid_date_def days_formula month_days_def)
qed

text \<open>The first guess of the year is right, or one too late.\<close>

lemma year_guess:
  assumes "year = (days + 2) * 400 div 146097"
  shows "march_days (year - 1) \<le> days" "days < march_days (year + 1)"
proof -
  have "146097 * year \<le> (days + 2) * 400" "(days + 2) * 400 < 146097 * year + 146097"
    unfolding assms using pos_mod_bound [of 146097 "(days + 2) * 400"] mult_div_mod_eq [of 146097 "(days + 2) * 400"] by linarith+
  then show "march_days (year - 1) \<le> days" "days < march_days (year + 1)"
    using march_days_bounds [of "year - 1"] march_days_bounds [of "year + 1"] by simp_all
qed

definition broken_down :: "ngx_tm \<Rightarrow> int \<Rightarrow> bool" where
  "broken_down tm t \<longleftrightarrow>
     valid_date (tm_year tm) (tm_mon tm) (tm_mday tm) \<and>
     0 \<le> tm_hour tm \<and> tm_hour tm \<le> 23 \<and> 0 \<le> tm_min tm \<and> tm_min tm \<le> 59 \<and> 0 \<le> tm_sec tm \<and> tm_sec tm \<le> 59 \<and>
     t = days_since_1970 (tm_year tm) (tm_mon tm) (tm_mday tm) * 86400 + tm_hour tm * 3600 + tm_min tm * 60 + tm_sec tm \<and>
     tm_wday tm = (4 + days_since_1970 (tm_year tm) (tm_mon tm) (tm_mday tm)) mod 7"

lemma hour_minute_second:
  assumes "0 \<le> r" "r < (86400::int)"
  shows "0 \<le> r div 3600 \<and> r div 3600 \<le> 23 \<and> 0 \<le> r mod 3600 div 60 \<and> r mod 3600 div 60 \<le> 59 \<and>
    0 \<le> r mod 3600 mod 60 \<and> r mod 3600 mod 60 \<le> 59 \<and> r = r div 3600 * 3600 + r mod 3600 div 60 * 60 + r mod 3600 mod 60"
proof -
  define q where "q = r mod 3600"
  have q: "0 \<le> q" "q < 3600" "r = r div 3600 * 3600 + q" by (simp_all add: q_def)
  define h where "h = r div 3600"
  have h: "0 \<le> h" "h \<le> 23" using q assms unfolding h_def [symmetric] by linarith+
  define a b where "a = q div 60" and "b = q mod 60"
  have "0 \<le> b" "b < 60" "q = a * 60 + b" by (simp_all add: a_def b_def)
  then have "0 \<le> a" "a \<le> 59" "0 \<le> b" "b \<le> 59" "q = a * 60 + b" using q(1,2) by linarith+
  then show ?thesis using h q(3) unfolding h_def [symmetric] q_def [symmetric] a_def [symmetric] b_def [symmetric] by (simp only: add.assoc)
qed

lemma gmtime_broken_down:
  assumes "0 \<le> t" "t < 2 ^ 55"
  shows "broken_down (ngx_gmtime t) t"
proof -
  define D where "D = t div 86400"
  define days where "days = D + 719468"
  define guess where "guess = (days + 2) * 400 div 146097"
  define year where "year = (if days < march_days guess then guess - 1 else guess)"
  define yday where "yday = days - march_days year"
  define mon where "mon = (yday + 31) * 10 div 306"
  have D: "0 \<le> D" "D < 416999965499" using assms by (simp_all add: D_def)
  have guess: "march_days (guess - 1) \<le> days" "days < march_days (guess + 1)" by (rule year_guess, simp add: guess_def)+
  have "146097 * guess \<le> 400 * D + 287788000" "400 * D + 287788000 < 146097 * guess + 146097"
    using div_bounds [of 146097 "(days + 2) * 400"] unfolding guess_def by (simp_all add: days_def)
  then have g: "1969 \<le> guess" "guess < 1200000000" using D by linarith+
  have year: "march_days year \<le> days" "days < march_days (year + 1)" "1968 \<le> year" "year < 1200000000"
    using guess g by (simp_all add: year_def)
  have "year \<noteq> 1968" using year(2) D by (auto simp: days_def march_days_def)
  then have year': "1969 \<le> year" using year(3) by simp
  have yday: "0 \<le> yday" "yday < 365 + of_bool (leap_year (year + 1))"
    using year(1,2) march_days_Suc [of "year + 1"] by (simp_all add: yday_def)
  define y where "y = (if yday \<ge> 306 then year + 1 else year)"
  define m where "m = (if yday \<ge> 306 then mon - 10 else mon + 2)"
  define d where "d = yday - (367 * mon div 12 - 30) + 1"
  have "year = 1969 \<Longrightarrow> 306 \<le> yday" using D by (simp add: yday_def days_def march_days_def)
  then have "1970 \<le> y" using year' by (cases "year = 1969") (auto simp: y_def)
  from march_date [OF yday this _ mon_def d_def, of m] have
    date: "valid_date y m d" "days_since_1970 y m d = D"
    by (auto simp: y_def m_def yday_def days_def)
  have d: "1 \<le> d" "d \<le> 31" using date(1) by (auto simp: valid_date_def month_days_def split: if_splits)
  have m: "1 \<le> m" "m \<le> 12" using date(1) by (simp_all add: valid_date_def)
  have y: "1970 \<le> y" "y < 1200000001" using \<open>1970 \<le> y\<close> year(4) by (auto simp: y_def)
  have leap: "(year' mod 4 = 0 \<and> (year' mod 100 \<noteq> 0 \<or> year' mod 400 = 0)) = leap_year year'" for year'
    by (simp add: leap_year_def dvd_eq_mod_eq_0)
  have "- 366 \<le> days - march_days guess" "days - march_days guess \<le> 366"
    using guess march_days_Suc [of guess] march_days_Suc [of "guess + 1"]
    by (cases "leap_year guess"; cases "leap_year (guess + 1)"; simp)+
  then have s: "s64 (days - march_days guess) = days - march_days guess" by simp
  have adj: "(if days - march_days guess < 0 then (365 + of_bool (leap_year guess) + (days - march_days guess), guess - 1)
      else (days - march_days guess, guess)) = (yday, year)"
    using march_days_Suc [of guess] by (auto simp: yday_def year_def)
  have "ngx_gmtime t = \<lparr>tm_sec = t mod 86400 mod 3600 mod 60, tm_min = t mod 86400 mod 3600 div 60, tm_hour = t mod 86400 div 3600,
      tm_mday = d, tm_mon = m, tm_year = y, tm_wday = (4 + D) mod 7\<rparr>"
  proof -
    have u: "u64 t = t" "u64 (D - (31 + 28) + 719527) = days" "u64 ((days + 2) * 400) = (days + 2) * 400" "u64 d = d"
      "(365 * 400 + 100 - 4 + 1 :: int) = 146097"
      using assms D d by (simp_all add: days_def)
    have ym: "(if 306 \<le> yday then (year + 1, u64 (mon - 10)) else (year, mon + 2)) = (y, m)"
      using m by (auto simp: y_def m_def)
    have "s32 d = d" "s32 m = m" "s32 y = y" using d m y by simp_all
    then show ?thesis
      unfolding ngx_gmtime_def Let_def
      by (simp only: u(1) D_def [symmetric] u(2) u(3) u(5) guess_def [symmetric] march_days_def [symmetric] s leap adj prod.case
          mon_def [symmetric] d_def [symmetric] u(4) ym)
  qed
  moreover have "t = D * 86400 + t mod 86400" by (simp add: D_def)
  ultimately show ?thesis using date hour_minute_second [of "t mod 86400"] by (simp add: broken_down_def)
qed

subsection \<open>From fields to seconds\<close>

lemma march_days_range: "0 \<le> y \<Longrightarrow> y < 2147483648 \<Longrightarrow> 0 \<le> march_days y \<and> march_days y < 1099511627776"
  using march_days_bounds [of y] by (auto simp: march_days_def)

lemma time_of_fields_valid:
  assumes "valid_date y m d" "y < 2147483648" "0 \<le> h" "h \<le> 23" "0 \<le> mi" "mi \<le> 59" "0 \<le> s" "s \<le> 59"
  shows "time_of_fields y (m - 1) d h mi s = days_since_1970 y m d * 86400 + h * 3600 + mi * 60 + s"
proof -
  have m: "1970 \<le> y" "1 \<le> m" "m \<le> 12" "1 \<le> d" "d \<le> month_days y m" using assms(1) by (simp_all add: valid_date_def)
  then have "m \<in> set [1..12]" by simp
  then have cases: "m \<in> {1, 2, 3, 4, 5, 6, 7, 8, 9, 10, 11, 12}" by (simp add: upto.simps)
  have d: "d \<le> 31" using m(5) by (auto simp: month_days_def split: if_splits)
  have leap: "\<not> (y mod 4 \<noteq> 0 \<or> (y mod 100 = 0 \<and> y mod 400 \<noteq> 0)) \<longleftrightarrow> leap_year y"
    by (auto simp: leap_year_def dvd_eq_mod_eq_0)
  have "\<not> (d = 29 \<and> m - 1 = 1 \<and> (y mod 4 \<noteq> 0 \<or> (y mod 100 = 0 \<and> y mod 400 \<noteq> 0)))"
    using m(5) leap by (auto simp: month_days_def)
  moreover have "\<not> (\<not> (d = 29 \<and> m - 1 = 1) \<and> d > mday ! nat (m - 1))"
    using cases m(5) by (elim insertE emptyE; auto simp: month_days_def mday_def split: if_splits)
  ultimately have "time_of_fields y (m - 1) d h mi s =
      (let (year, month) = (if m - 1 - 1 \<le> 0 then (u64 (y - 1), m - 1 - 1 + 12) else (y, m - 1 - 1))
         in s64 ((365 * year + year div 4 - year div 100 + year div 400 + 367 * month div 12 - 30 + d - 1
                  - 719527 + 31 + 28) * 86400 + h * 3600 + mi * 60 + s))"
    using assms(4,6,8) by (simp only: time_of_fields_def Let_def if_False) simp
  also have "\<dots> = s64 (days_since_1970 y m d * 86400 + h * 3600 + mi * 60 + s)"
    using m(1) assms(2) unfolding days_formula [OF m(1-3)]
    by (auto simp: Let_def march_days_def algebra_simps)
  also have "\<dots> = days_since_1970 y m d * 86400 + h * 3600 + mi * 60 + s"
  proof (rule s64_id)
    have "-1000000 \<le> days_since_1970 y m d" "days_since_1970 y m d \<le> 1099511630000"
      unfolding days_formula [OF m(1-3)] using march_days_range [of y] march_days_range [of "y - 1"] cases m(1,4) d assms(2)
      by (elim insertE emptyE; simp)+
    then show "- 9223372036854775808 \<le> days_since_1970 y m d * 86400 + h * 3600 + mi * 60 + s"
      "days_since_1970 y m d * 86400 + h * 3600 + mi * 60 + s \<le> NGX_MAX_INT_T_VALUE"
      using assms(3-8) by simp_all
  qed
  finally show ?thesis .
qed

subsection \<open>Parsing\<close>

lemma rd_numeral [simp]: "rd (x # xs) (numeral k) = rd xs (pred_numeral k)"
  by (simp add: numeral_eq_Suc)

lemma digit_at_char: "rd value p = Some (digit_char a) \<Longrightarrow> a < 10 \<Longrightarrow> digit_at value p k = k (int a)"
  using digit_cases(1) [OF is_digit_char, of a] by (auto simp: digit_at_def uint_digit_char)

lemma digit_at_shift: "digit_at (c # value) (Suc p) = digit_at value p"
  by (simp add: digit_at_def fun_eq_iff)

lemma char_at_shift: "char_at (c # value) (Suc p) = char_at value p"
  by (simp add: char_at_def fun_eq_iff)

lemma digits_shift: "two_digits (c # value) (Suc p) = two_digits value p" "four_digits (c # value) (Suc p) = four_digits value p"
  by (simp_all only: two_digits_def four_digits_def fun_eq_iff add_Suc digit_at_shift simp_thms)

lemma month_at_shift: "month_at (c # value) (Suc p) = month_at value p"
  by (simp only: month_at_def fun_eq_iff add_Suc rd_Cons simp_thms)

lemma time_of_day_shift: "time_of_day (c # value) isoc y m d (Suc p) = time_of_day value isoc y m d p"
  by (simp only: time_of_day_def fun_eq_iff add_Suc digits_shift char_at_shift simp_thms)

lemmas shift_parts = digit_at_shift char_at_shift digits_shift month_at_shift time_of_day_shift

lemma isoc_day_shift: "isoc_day (c # value) month (Suc p) = isoc_day value month p"
  by (simp only: isoc_day_def add_Suc rd_Cons shift_parts list.size add_Suc_right add_0_right Suc_less_eq)

lemma http_time_from_shift: "http_time_from (c # value) isoc (Suc p) = http_time_from value isoc p"
  by (simp only: http_time_from_def add_Suc rd_Cons shift_parts isoc_day_shift list.size add_Suc_right add_0_right Suc_less_eq)

lemma parse_skip:
  assumes "c \<noteq> ch_comma" "c \<noteq> ch_SP"
  shows "ngx_parse_http_time (c # value) = ngx_parse_http_time value"
  using assms by (simp add: ngx_parse_http_time_def Let_def http_time_from_shift)

lemma parse_skip_name: "list_all (\<lambda>c. c \<noteq> ch_comma \<and> c \<noteq> ch_SP) w \<Longrightarrow> ngx_parse_http_time (w @ value) = ngx_parse_http_time value"
  by (induction w) (simp_all add: parse_skip)

text \<open>Numbers and names as they are written.\<close>

definition two :: "int \<Rightarrow> u_char list" where
  "two n = [digit_char (nat n div 10), digit_char (nat n mod 10)]"

definition four :: "int \<Rightarrow> u_char list" where
  "four n = [digit_char (nat n div 1000), digit_char (nat n div 100 mod 10), digit_char (nat n div 10 mod 10), digit_char (nat n mod 10)]"

definition month_name :: "int \<Rightarrow> u_char list" where
  "month_name m = months ! nat (m - 1)"

definition day_time :: "int \<Rightarrow> int \<Rightarrow> int \<Rightarrow> u_char list" where
  "day_time h mi s = ch_SP # two h @ ch_colon # two mi @ ch_colon # two s"

lemma two_digits_two:
  assumes "rd value p = Some (digit_char (nat n div 10))" "rd value (p + 1) = Some (digit_char (nat n mod 10))" "0 \<le> n" "n \<le> 99"
  shows "two_digits value p k = k n"
proof -
  have "nat n div 10 < 10" "nat n mod 10 < 10" using assms by auto
  moreover have "int (nat n div 10) * 10 + int (nat n mod 10) = n" using assms(3) by (simp add: zdiv_int zmod_int)
  ultimately show ?thesis using assms by (simp add: two_digits_def digit_at_char)
qed

lemma four_digits_four:
  assumes "rd value p = Some (digit_char (nat n div 1000))" "rd value (p + 1) = Some (digit_char (nat n div 100 mod 10))"
    "rd value (p + 2) = Some (digit_char (nat n div 10 mod 10))" "rd value (p + 3) = Some (digit_char (nat n mod 10))"
    "0 \<le> n" "n \<le> 9999"
  shows "four_digits value p k = k n"
proof -
  have "nat n div 1000 < 10" using assms by auto
  moreover have "int (nat n div 1000) * 1000 + int (nat n div 100 mod 10) * 100 + int (nat n div 10 mod 10) * 10 + int (nat n mod 10) = n"
  proof -
    define q where "q = nat n div 10"
    define r where "r = q div 10"
    have "nat n div 1000 = r div 10" "nat n div 100 = r" by (simp_all add: q_def r_def div_mult2_eq [symmetric])
    moreover have "n = int q * 10 + int (nat n mod 10)" "q = r * 10 + q mod 10" "r = r div 10 * 10 + r mod 10"
      using assms(5) unfolding r_def by (simp_all add: q_def zdiv_int zmod_int)
    then have "n = int (r div 10) * 1000 + int (r mod 10) * 100 + int (q mod 10) * 10 + int (nat n mod 10)" by linarith
    ultimately show ?thesis by (simp add: q_def)
  qed
  ultimately show ?thesis using assms by (simp add: four_digits_def digit_at_char)
qed

lemma rd_drop: "rd xs (p + i) = rd (drop p xs) i"
  by (auto simp: rd_def)

lemma month_at_drop: "month_at value p k = month_at (drop p value) 0 k"
  by (simp only: month_at_def rd_drop [of "value" p] add_0 rd_drop [of "value" p 0, unfolded add_0_right])

lemma month_names:
  assumes "1 \<le> m" "m \<le> 12"
  shows "length (month_name m) = 3 \<and> ch_NUL \<notin> set (month_name m) \<and> (\<forall>k rest. month_at (month_name m @ rest) 0 k = k (m - 1))"
proof -
  have "m \<in> set [1..12]" using assms by simp
  then have "m \<in> {1, 2, 3, 4, 5, 6, 7, 8, 9, 10, 11, 12}" by (simp add: upto.simps)
  then show ?thesis
    by (elim insertE emptyE; simp add: month_name_def months_def month_at_def)
qed

lemma month_nameE:
  assumes "1 \<le> m" "m \<le> 12"
  obtains a b c where "month_name m = [a, b, c]" "a \<noteq> ch_NUL" "b \<noteq> ch_NUL" "c \<noteq> ch_NUL"
    "\<And>value p rest k. drop p value = a # b # c # rest \<Longrightarrow> month_at value p k = k (m - 1)"
proof -
  note n = month_names [OF assms]
  then obtain a b c where abc: "month_name m = [a, b, c]" by (auto simp: length_Suc_conv eval_nat_numeral)
  with n have "month_at value p k = k (m - 1)" if "drop p value = a # b # c # rest" for "value" p rest k
    using that by (simp add: month_at_drop [of "value" p])
  then show thesis using that [OF abc] n abc by auto
qed

lemma two_list: "two n = [digit_char (nat n div 10), digit_char (nat n mod 10)]"
  by (rule two_def)

text \<open>The three formats.\<close>

text \<open>Reading a known text: move to the position, then read there.\<close>

lemma shift_numeral:
  "digit_at (c # v) (numeral n) = digit_at v (pred_numeral n)"
  "char_at (c # v) (numeral n) = char_at v (pred_numeral n)"
  "two_digits (c # v) (numeral n) = two_digits v (pred_numeral n)"
  "four_digits (c # v) (numeral n) = four_digits v (pred_numeral n)"
  "month_at (c # v) (numeral n) = month_at v (pred_numeral n)"
  "time_of_day (c # v) isoc y m d (numeral n) = time_of_day v isoc y m d (pred_numeral n)"
  "isoc_day (c # v) month (numeral n) = isoc_day v month (pred_numeral n)"
  by (simp_all only: numeral_eq_Suc shift_parts isoc_day_shift)

lemma digit_here: "n < 10 \<Longrightarrow> digit_at (digit_char n # rest) 0 k = k (int n)"
  by (rule digit_at_char) simp_all

lemma char_here: "char_at (ch # rest) 0 ch k = k"
  by (simp add: char_at_def)

lemma two_here:
  "0 \<le> n \<Longrightarrow> n \<le> 99 \<Longrightarrow> two_digits (digit_char (nat n div 10) # digit_char (nat n mod 10) # rest) 0 k = k n"
  by (rule two_digits_two) simp_all

lemma four_here:
  "0 \<le> n \<Longrightarrow> n \<le> 9999 \<Longrightarrow> four_digits (digit_char (nat n div 1000) # digit_char (nat n div 100 mod 10) #
     digit_char (nat n div 10 mod 10) # digit_char (nat n mod 10) # rest) 0 k = k n"
  by (rule four_digits_four) simp_all

lemma month_here:
  assumes "1 \<le> m" "m \<le> 12"
  obtains a b c where "month_name m = [a, b, c]" "a \<noteq> ch_NUL" "b \<noteq> ch_NUL" "c \<noteq> ch_NUL"
    "\<And>rest k. month_at (a # b # c # rest) 0 k = k (m - 1)"
proof -
  note n = month_names [OF assms]
  then obtain a b c where "month_name m = [a, b, c]" by (auto simp: length_Suc_conv eval_nat_numeral)
  then show thesis using n that by auto
qed

lemmas reading = shift_numeral shift_parts char_here two_here four_here digit_here

lemma time_of_day_here:
  assumes "0 \<le> h" "h \<le> 23" "0 \<le> mi" "mi \<le> 59" "0 \<le> s" "s \<le> 59"
  shows "time_of_day (day_time h mi s @ rest) False y m d 0 = Some (time_of_fields y m d h mi s)"
    "0 \<le> y' \<Longrightarrow> y' \<le> 9999 \<Longrightarrow>
      time_of_day (day_time h mi s @ ch_SP # four y' @ rest) True y m d 0 = Some (time_of_fields y' m d h mi s)"
  using assms by (simp_all add: time_of_day_def day_time_def two_def four_def reading)

definition stamp :: "int \<Rightarrow> int \<Rightarrow> int \<Rightarrow> int \<Rightarrow> int \<Rightarrow> int \<Rightarrow> int" where
  "stamp y m d h mi s = days_since_1970 y m d * 86400 + h * 3600 + mi * 60 + s"

definition clock :: "int \<Rightarrow> int \<Rightarrow> int \<Rightarrow> bool" where
  "clock h mi s \<longleftrightarrow> 0 \<le> h \<and> h \<le> 23 \<and> 0 \<le> mi \<and> mi \<le> 59 \<and> 0 \<le> s \<and> s \<le> 59"

lemma valid_day: "valid_date y m d \<Longrightarrow> 1970 \<le> y \<and> 1 \<le> m \<and> m \<le> 12 \<and> 1 \<le> d \<and> d \<le> 31"
  by (auto simp: valid_date_def month_days_def split: if_splits)

lemma length_day_time [simp]: "length (day_time h mi s) = 9"
  by (simp add: day_time_def two_def)

lemma length_numbers [simp]: "length (two n) = 2" "length (four n) = 4"
  by (simp_all add: two_def four_def)

lemma day_time_head [simp]: "rd (day_time h mi s @ rest) 0 = Some ch_SP" "(day_time h mi s @ rest) ! 0 = ch_SP"
  by (simp_all add: day_time_def)

lemma time_of_day_stamp:
  assumes "valid_date y m d" "y \<le> 9999" "clock h mi s"
  shows "time_of_day (day_time h mi s @ rest) False y (m - 1) d 0 = Some (stamp y m d h mi s)"
    "time_of_day (day_time h mi s @ ch_SP # four y @ rest) True x (m - 1) d 0 = Some (stamp y m d h mi s)"
  using time_of_fields_valid [OF assms(1), of h mi s] assms(2,3) valid_day [OF assms(1)]
    time_of_day_here(1) [of h mi s rest y "m - 1" d] time_of_day_here(2) [of h mi s y rest x "m - 1" d]
  by (simp_all add: clock_def stamp_def)

lemma from_rfc822:
  assumes "valid_date y m d" "y \<le> 9999" "clock h mi s"
  shows "http_time_from (ch_comma # ch_SP # two d @ ch_SP # month_name m @ ch_SP # four y @ day_time h mi s @ rest) False 2 =
    Some (stamp y m d h mi s)"
proof -
  note v = valid_day [OF assms(1)]
  obtain a b c where "month_name m = [a, b, c]" "\<And>rest k. month_at (a # b # c # rest) 0 k = k (m - 1)"
    using month_here [of m] v by metis
  then show ?thesis
    using v assms(2)
    by (simp add: http_time_from_def two_def four_def reading time_of_day_stamp [OF assms])
qed

lemma from_rfc850:
  assumes "valid_date y m d" "y \<le> 2069" "clock h mi s"
  shows "http_time_from (ch_comma # ch_SP # two d @ ch_minus # month_name m @ ch_minus # two (y mod 100) @ day_time h mi s @ rest) False 2 =
    Some (stamp y m d h mi s)"
proof -
  note v = valid_day [OF assms(1)]
  obtain a b c where "month_name m = [a, b, c]" "\<And>rest k. month_at (a # b # c # rest) 0 k = k (m - 1)"
    using month_here [of m] v by metis
  moreover have "y mod 100 + (if y mod 100 < 70 then 2000 else 1900) = y" using v assms(2) by presburger
  moreover have "0 \<le> y mod 100" "y mod 100 \<le> 99" by simp_all
  ultimately show ?thesis
    using v assms(2) time_of_day_stamp(1) [OF assms(1) _ assms(3), of rest]
    by (simp add: http_time_from_def two_def reading)
qed

text \<open>A day below 10 is printed with a blank by \<open>asctime\<close>, and may have one digit.\<close>

lemma from_isoc:
  assumes "valid_date y m d" "y \<le> 9999" "clock h mi s"
    and "day = two d \<or> d < 10 \<and> (day = [ch_SP, digit_char (nat d)] \<or> day = [digit_char (nat d)])"
  shows "http_time_from (ch_SP # month_name m @ ch_SP # day @ day_time h mi s @ ch_SP # four y @ rest) True 1 =
    Some (stamp y m d h mi s)"
proof -
  note v = valid_day [OF assms(1)]
  obtain a b c where abc: "month_name m = [a, b, c]" "\<And>rest k. month_at (a # b # c # rest) 0 k = k (m - 1)"
    using month_here [of m] v by metis
  note simps = http_time_from_def isoc_day_def two_def reading time_of_day_stamp [OF assms(1-3)] abc
  have dt: "digit_char n \<noteq> ch_SP" if "n < 10" for n using uint_digit_char [OF that] by auto
  have 2: "int (nat d div 10) * 10 + int (nat d mod 10) = d" "nat d div 10 < 10" "nat d mod 10 < 10"
    using v by (auto simp: zdiv_int zmod_int)
  show ?thesis
  proof (cases "day = two d")
    case True
    then show ?thesis using v assms(2) 2 by (simp add: simps dt)
  next
    case False
    then have "day = [ch_SP, digit_char (nat d)] \<or> day = [digit_char (nat d)]" "nat d < 10" using assms(4) v by auto
    then show ?thesis using v assms(2) by (elim disjE; simp add: simps dt)
  qed
qed

lemma parse_named:
  assumes "list_all (\<lambda>c. c \<noteq> ch_comma \<and> c \<noteq> ch_SP) w" "c \<noteq> ch_SP"
  shows "ngx_parse_http_time (w @ ch_comma # ch_SP # c # v) = http_time_from (ch_comma # ch_SP # c # v) False 2"
    "ngx_parse_http_time (w @ ch_SP # c # v) = http_time_from (ch_SP # c # v) True 1"
proof -
  have 2: "Suc (Suc 0) = 2" by simp
  show "ngx_parse_http_time (w @ ch_comma # ch_SP # c # v) = http_time_from (ch_comma # ch_SP # c # v) False 2"
    "ngx_parse_http_time (w @ ch_SP # c # v) = http_time_from (ch_SP # c # v) True 1"
    unfolding parse_skip_name [OF assms(1)] using assms(2) by (simp_all add: ngx_parse_http_time_def 2)
qed

lemma month_first: "1 \<le> m \<Longrightarrow> m \<le> 12 \<Longrightarrow> \<exists>a b c. month_name m = [a, b, c] \<and> a \<noteq> ch_SP"
proof -
  assume m: "1 \<le> m" "m \<le> 12"
  obtain a b c where abc: "month_name m = [a, b, c]" "\<And>rest k. month_at (a # b # c # rest) 0 k = k (m - 1)"
    using month_here [OF m] by metis
  have "month_at (ch_SP # b # c # rest) 0 Some = Some NGX_ERROR" for rest by (simp add: month_at_def)
  then have "a \<noteq> ch_SP" using abc(2) [of "[]" Some] m by auto
  then show ?thesis using abc(1) by blast
qed

lemma parse_formats:
  assumes "list_all (\<lambda>c. c \<noteq> ch_comma \<and> c \<noteq> ch_SP) w" "valid_date y m d" "clock h mi s"
  shows "y \<le> 9999 \<Longrightarrow> ngx_parse_http_time
      (w @ ch_comma # ch_SP # two d @ ch_SP # month_name m @ ch_SP # four y @ day_time h mi s @ rest) = Some (stamp y m d h mi s)"
    "y \<le> 2069 \<Longrightarrow> ngx_parse_http_time
      (w @ ch_comma # ch_SP # two d @ ch_minus # month_name m @ ch_minus # two (y mod 100) @ day_time h mi s @ rest) =
      Some (stamp y m d h mi s)"
    "y \<le> 9999 \<Longrightarrow> day = two d \<or> d < 10 \<and> (day = [ch_SP, digit_char (nat d)] \<or> day = [digit_char (nat d)]) \<Longrightarrow>
     ngx_parse_http_time (w @ ch_SP # month_name m @ ch_SP # day @ day_time h mi s @ ch_SP # four y @ rest) = Some (stamp y m d h mi s)"
proof -
  note v = valid_day [OF assms(2)]
  have "nat d div 10 < 10" using v by auto
  then have d: "digit_char (nat d div 10) \<noteq> ch_SP" using uint_digit_char [of "nat d div 10"] by auto
  obtain a b c where abc: "month_name m = [a, b, c]" "a \<noteq> ch_SP" using month_first v by metis
  show "y \<le> 9999 \<Longrightarrow> ngx_parse_http_time
      (w @ ch_comma # ch_SP # two d @ ch_SP # month_name m @ ch_SP # four y @ day_time h mi s @ rest) = Some (stamp y m d h mi s)"
    using from_rfc822 [OF assms(2) _ assms(3), of rest] parse_named(1) [OF assms(1) d] by (simp add: two_def)
  show "y \<le> 2069 \<Longrightarrow> ngx_parse_http_time
      (w @ ch_comma # ch_SP # two d @ ch_minus # month_name m @ ch_minus # two (y mod 100) @ day_time h mi s @ rest) =
      Some (stamp y m d h mi s)"
    using from_rfc850 [OF assms(2) _ assms(3), of rest] parse_named(1) [OF assms(1) d] by (simp add: two_def)
  show "y \<le> 9999 \<Longrightarrow> day = two d \<or> d < 10 \<and> (day = [ch_SP, digit_char (nat d)] \<or> day = [digit_char (nat d)]) \<Longrightarrow>
     ngx_parse_http_time (w @ ch_SP # month_name m @ ch_SP # day @ day_time h mi s @ ch_SP # four y @ rest) = Some (stamp y m d h mi s)"
    using from_isoc [OF assms(2) _ assms(3), of day rest] parse_named(2) [OF assms(1) abc(2)] by (simp add: abc(1))
qed

subsection \<open>Printing\<close>

lemma padded_two_digits: "n < 100 \<Longrightarrow> padded ch_0 2 n = two (int n)"
proof -
  assume n: "n < 100"
  have "sprintf_dec n [] = (if n < 10 then [digit_char n] else [digit_char (n div 10), digit_char (n mod 10)])"
    using n sprintf_dec_unfold [of n] sprintf_dec_unfold [of "n div 10"] by auto
  then show ?thesis using n by (simp add: padded_def two_def digit_char_def numeral_2_eq_2)
qed

lemma padded_four_digits: "1000 \<le> n \<Longrightarrow> n < 10000 \<Longrightarrow> w \<le> 4 \<Longrightarrow> padded z w n = four (int n)"
proof -
  assume n: "1000 \<le> n" "n < 10000" "w \<le> 4"
  have "n div 100 div 10 = n div 1000" "n div 10 div 10 = n div 100" by (simp_all add: div_mult2_eq [symmetric])
  then have "sprintf_dec n [] = four (int n)"
    using n(1,2) sprintf_dec_unfold [of n] sprintf_dec_unfold [of "n div 10"] sprintf_dec_unfold [of "n div 100"] sprintf_dec_unfold [of "n div 1000"]
    by (auto simp: four_def)
  then show ?thesis using n(3) by (simp add: padded_def)
qed

lemma week_names:
  assumes "0 \<le> i" "i < 7"
  obtains w where "rd week (nat i) = Some w" "length w = 3" "list_all (\<lambda>c. c \<noteq> ch_comma \<and> c \<noteq> ch_SP) w" "ch_NUL \<notin> set w"
proof -
  have "i \<in> set [0..6]" using assms by simp
  then have "i \<in> {0, 1, 2, 3, 4, 5, 6}" by (simp add: upto.simps)
  then show thesis using that by (elim insertE emptyE; simp add: week_def)
qed

lemma prints_two: "0 \<le> i \<Longrightarrow> i \<le> 99 \<Longrightarrow> prints fmt args out \<Longrightarrow>
    prints (ch_percent # ch_0 # of_char CHR ''2'' # of_char CHR ''d'' # fmt) (va_int i # args) (two i @ out)"
  using prints_0d(1) [of fmt args out "nat i"] padded_two_digits [of "nat i"] by simp

lemma prints_four: "1000 \<le> i \<Longrightarrow> i \<le> 9999 \<Longrightarrow> prints fmt args out \<Longrightarrow>
    prints (ch_percent # of_char CHR ''4'' # of_char CHR ''d'' # fmt) (va_int i # args) (four i @ out)"
  "1000 \<le> i \<Longrightarrow> i \<le> 9999 \<Longrightarrow> prints fmt args out \<Longrightarrow>
    prints (ch_percent # of_char CHR ''d'' # fmt) (va_int i # args) (four i @ out)"
  using prints_0d(2,3) [of fmt args out "nat i"] padded_four_digits [of "nat i" 4] padded_four_digits [of "nat i" 0] by simp_all

text \<open>The years a time can lie in.\<close>

lemma days_at_least:
  assumes "valid_date y m d" "1970 \<le> b" "b \<le> y"
  shows "march_days (b - 1) - 719162 \<le> days_since_1970 y m d"
proof -
  note v = valid_day [OF assms(1)]
  have "(\<Sum>y' = 1970..<b. 365 + of_bool (leap_year y')) \<le> (\<Sum>y' = 1970..<y. 365 + of_bool (leap_year y') :: int)"
    using assms(3) by (intro sum_mono2) auto
  moreover have "0 \<le> (\<Sum>m' = 1..<m. month_days y m')" by (intro sum_nonneg) (simp add: month_days_def)
  ultimately show ?thesis using v year_sum [OF assms(2)] by (simp add: days_since_1970_def)
qed

lemma broken_down_year:
  assumes "broken_down tm t" "1970 \<le> b" "t < (march_days (b - 1) - 719162) * 86400"
  shows "tm_year tm < b"
proof (rule ccontr)
  assume "\<not> tm_year tm < b"
  then have "march_days (b - 1) - 719162 \<le> days_since_1970 (tm_year tm) (tm_mon tm) (tm_mday tm)"
    using assms(1,2) by (intro days_at_least) (auto simp: broken_down_def)
  then show False using assms(1,3) by (auto simp: broken_down_def)
qed

lemma http_time_prints:
  assumes "0 \<le> t" "t < 253402300800"
  obtains tm w where "ngx_gmtime t = tm" "broken_down tm t" "tm_year tm \<le> 9999"
    "list_all (\<lambda>c. c \<noteq> ch_comma \<and> c \<noteq> ch_SP) w" "length w = 3"
    "ngx_http_time t = Some (w @ ch_comma # ch_SP # two (tm_mday tm) @ ch_SP # month_name (tm_mon tm) @ ch_SP # four (tm_year tm) @
       day_time (tm_hour tm) (tm_min tm) (tm_sec tm) @ bytes '' GMT'')"
    "tm_year tm \<le> 2037 \<longrightarrow> ngx_http_cookie_time t = Some (w @ ch_comma # ch_SP # two (tm_mday tm) @ ch_minus # month_name (tm_mon tm) @
       ch_minus # two (tm_year tm mod 100) @ day_time (tm_hour tm) (tm_min tm) (tm_sec tm) @ bytes '' GMT'')"
proof -
  define tm where "tm = ngx_gmtime t"
  have bd: "broken_down tm t" unfolding tm_def using assms by (intro gmtime_broken_down) simp_all
  have year: "tm_year tm \<le> 9999" using broken_down_year [OF bd, of 10000] assms(2) by (simp add: march_days_def)
  have v: "1970 \<le> tm_year tm \<and> 1 \<le> tm_mon tm \<and> tm_mon tm \<le> 12 \<and> 1 \<le> tm_mday tm \<and> tm_mday tm \<le> 31"
    using bd by (intro valid_day) (simp add: broken_down_def)
  have c: "0 \<le> tm_hour tm" "tm_hour tm \<le> 23" "0 \<le> tm_min tm" "tm_min tm \<le> 59" "0 \<le> tm_sec tm" "tm_sec tm \<le> 59"
    "0 \<le> tm_wday tm" "tm_wday tm < 7"
    using bd by (simp_all add: broken_down_def)
  obtain w where w: "rd week (nat (tm_wday tm)) = Some w" "length w = 3" "list_all (\<lambda>c. c \<noteq> ch_comma \<and> c \<noteq> ch_SP) w" "ch_NUL \<notin> set w"
    by (rule week_names [OF c(7,8)])
  obtain m1 m2 m3 where m: "month_name (tm_mon tm) = [m1, m2, m3]" "m1 \<noteq> ch_NUL" "m2 \<noteq> ch_NUL" "m3 \<noteq> ch_NUL"
    using month_here [of "tm_mon tm"] v by metis
  have mon: "rd months (nat (tm_mon tm - 1)) = Some (month_name (tm_mon tm))"
    using v by (simp add: month_name_def rd_def months_def nat_less_iff)
  have nul: "ch_NUL \<notin> set (month_name (tm_mon tm))" using m by simp
  note print = prints_two prints_four prints_char prints_end prints_s [OF w(4)] prints_s [OF nul]
  have "prints (bytes ''%s, %02d %s %4d %02d:%02d:%02d GMT'')
      [Va_ptr (w @ [ch_NUL]), va_int (tm_mday tm), Va_ptr (month_name (tm_mon tm) @ [ch_NUL]), va_int (tm_year tm),
        va_int (tm_hour tm), va_int (tm_min tm), va_int (tm_sec tm)]
      (w @ ch_comma # ch_SP # two (tm_mday tm) @ ch_SP # month_name (tm_mon tm) @ ch_SP # four (tm_year tm) @
       day_time (tm_hour tm) (tm_min tm) (tm_sec tm) @ bytes '' GMT'')"
    using c v year print by (simp add: day_time_def)
  then have http: "ngx_http_time t = Some (w @ ch_comma # ch_SP # two (tm_mday tm) @ ch_SP # month_name (tm_mon tm) @ ch_SP # four (tm_year tm) @
       day_time (tm_hour tm) (tm_min tm) (tm_sec tm) @ bytes '' GMT'')"
    using w(1,2) mon m(1) unfolding ngx_http_time_def Let_def tm_def [symmetric] by (simp add: prints_def ngx_sprintf_def)
  have "prints (bytes ''%s, %02d-%s-%02d %02d:%02d:%02d GMT'')
      [Va_ptr (w @ [ch_NUL]), va_int (tm_mday tm), Va_ptr (month_name (tm_mon tm) @ [ch_NUL]), va_int (tm_year tm mod 100),
        va_int (tm_hour tm), va_int (tm_min tm), va_int (tm_sec tm)]
      (w @ ch_comma # ch_SP # two (tm_mday tm) @ ch_minus # month_name (tm_mon tm) @ ch_minus # two (tm_year tm mod 100) @
       day_time (tm_hour tm) (tm_min tm) (tm_sec tm) @ bytes '' GMT'')"
    using c v year print by (simp add: day_time_def)
  then have "tm_year tm \<le> 2037 \<longrightarrow> ngx_http_cookie_time t = Some (w @ ch_comma # ch_SP # two (tm_mday tm) @ ch_minus # month_name (tm_mon tm) @
       ch_minus # two (tm_year tm mod 100) @ day_time (tm_hour tm) (tm_min tm) (tm_sec tm) @ bytes '' GMT'')"
    using w(1,2) mon m(1) unfolding ngx_http_cookie_time_def Let_def tm_def [symmetric] by (simp add: prints_def ngx_sprintf_def)
  then show thesis using that [OF tm_def [symmetric] bd year w(3,2) http] by blast
qed

subsection \<open>Properties\<close>

text \<open>C36: \<open>ngx_gmtime\<close>, for every second up to the year one billion: the fields are those of the Gregorian
  calendar, counting days by the lengths of years and months, and the day of the week is right.\<close>

theorem gmtime_correct:
  assumes "0 \<le> t" "t < 2 ^ 55"
  shows "broken_down (ngx_gmtime t) t"
  by (rule gmtime_broken_down [OF assms])

lemma gmtime_correct_witness: "valid_date (tm_year (ngx_gmtime 951782400)) 2 29 \<and> ngx_gmtime 951782400 =
    \<lparr>tm_sec = 0, tm_min = 0, tm_hour = 0, tm_mday = 29, tm_mon = 2, tm_year = 2000, tm_wday = 2\<rparr>"
proof -
  have g: "ngx_gmtime 951782400 = \<lparr>tm_sec = 0, tm_min = 0, tm_hour = 0, tm_mday = 29, tm_mon = 2, tm_year = 2000, tm_wday = 2\<rparr>"
    by (simp add: ngx_gmtime_def Let_def)
  then show ?thesis using gmtime_correct [of 951782400] by (simp add: broken_down_def)
qed

text \<open>C35: What \<open>ngx_http_time\<close> prints into 29 bytes, \<open>ngx_parse_http_time\<close> reads back as the same second,
  until the year 9999, and what \<open>ngx_http_cookie_time\<close> prints until the year 2037.\<close>

theorem http_time_round_trip:
  assumes "0 \<le> t" "t < 253402300800"
  shows "(\<exists>out. ngx_http_time t = Some out \<and> length out = 29 \<and> ngx_parse_http_time out = Some t) \<and>
    (t < 2145916800 \<longrightarrow> (\<exists>out. ngx_http_cookie_time t = Some out \<and> ngx_parse_http_time out = Some t))"
proof -
  obtain tm w where tm: "ngx_gmtime t = tm" "broken_down tm t" "tm_year tm \<le> 9999" "list_all (\<lambda>c. c \<noteq> ch_comma \<and> c \<noteq> ch_SP) w" "length w = 3"
    "ngx_http_time t = Some (w @ ch_comma # ch_SP # two (tm_mday tm) @ ch_SP # month_name (tm_mon tm) @ ch_SP # four (tm_year tm) @
       day_time (tm_hour tm) (tm_min tm) (tm_sec tm) @ bytes '' GMT'')"
    "tm_year tm \<le> 2037 \<longrightarrow> ngx_http_cookie_time t = Some (w @ ch_comma # ch_SP # two (tm_mday tm) @ ch_minus # month_name (tm_mon tm) @
       ch_minus # two (tm_year tm mod 100) @ day_time (tm_hour tm) (tm_min tm) (tm_sec tm) @ bytes '' GMT'')"
    by (rule http_time_prints [OF assms])
  have date: "valid_date (tm_year tm) (tm_mon tm) (tm_mday tm)" "clock (tm_hour tm) (tm_min tm) (tm_sec tm)"
    and stamp: "stamp (tm_year tm) (tm_mon tm) (tm_mday tm) (tm_hour tm) (tm_min tm) (tm_sec tm) = t"
    using tm(2) by (simp_all add: broken_down_def clock_def stamp_def)
  note parse = parse_formats(1,2) [OF tm(4) date, unfolded stamp, of "bytes '' GMT''"]
  have "length (month_name (tm_mon tm)) = 3" using month_names valid_day [OF date(1)] by simp
  then have "\<exists>out. ngx_http_time t = Some out \<and> length out = 29 \<and> ngx_parse_http_time out = Some t"
    using parse(1) [OF tm(3)] tm(5) by (simp add: tm(6))
  moreover have "\<exists>out. ngx_http_cookie_time t = Some out \<and> ngx_parse_http_time out = Some t" if "t < 2145916800"
  proof -
    have "tm_year tm \<le> 2037" using broken_down_year [OF tm(2), of 2038] that by (simp add: march_days_def)
    then show ?thesis using parse(2) tm(7) by simp
  qed
  ultimately show ?thesis by blast
qed

lemma http_time_round_trip_witness:
  "\<exists>out. ngx_http_time 784111777 = Some out \<and> length out = 29 \<and> ngx_parse_http_time out = Some 784111777"
  using http_time_round_trip [of 784111777] by simp

text \<open>\<open>ngx_parse_http_time\<close> reads every date of the three formats of HTTP, whatever the name of the day
  and whatever follows, as the second it denotes: RFC 822, RFC 850 with a year of two digits in 1970 to
  2069, and the format of \<open>asctime\<close> with the day as two digits, one digit, or a blank and a digit.\<close>

theorem parse_http_time_formats:
  assumes "list_all (\<lambda>c. c \<noteq> ch_comma \<and> c \<noteq> ch_SP) w" "valid_date y m d" "clock h mi s" "y \<le> 9999"
    and "day = two d \<or> d < 10 \<and> (day = [ch_SP, digit_char (nat d)] \<or> day = [digit_char (nat d)])"
  shows "ngx_parse_http_time (w @ ch_comma # ch_SP # two d @ ch_SP # month_name m @ ch_SP # four y @ day_time h mi s @ rest) =
      Some (stamp y m d h mi s) \<and>
    (y \<le> 2069 \<longrightarrow> ngx_parse_http_time
      (w @ ch_comma # ch_SP # two d @ ch_minus # month_name m @ ch_minus # two (y mod 100) @ day_time h mi s @ rest) =
      Some (stamp y m d h mi s)) \<and>
    ngx_parse_http_time (w @ ch_SP # month_name m @ ch_SP # day @ day_time h mi s @ ch_SP # four y @ rest) =
      Some (stamp y m d h mi s)"
  using parse_formats [OF assms(1-3)] assms(4,5) by blast

lemma parse_http_time_formats_witness:
  "ngx_parse_http_time (bytes ''Sun'' @ ch_SP # month_name 11 @ ch_SP # [ch_SP, digit_char (nat 6)] @ day_time 8 49 37 @ ch_SP # four 1994 @ []) =
     Some (stamp 1994 11 6 8 49 37)"
  using parse_http_time_formats [of "bytes ''Sun''" 1994 11 6 8 49 37 "[ch_SP, digit_char (nat 6)]" "[]"]
  by (simp add: valid_date_def month_days_def clock_def)

subsection \<open>No read outside of the text\<close>

definition settled :: "int option \<Rightarrow> bool" where
  "settled r \<longleftrightarrow> r \<noteq> None"

lemma settled_simps [simp]: "settled (Some r)" "\<not> settled None"
  by (simp_all add: settled_def)

lemma settled_digit: "p < length v \<Longrightarrow> (\<And>d. settled (k d)) \<Longrightarrow> settled (digit_at v p k)"
  by (simp add: digit_at_def)

lemma settled_char: "p < length v \<Longrightarrow> settled k \<Longrightarrow> settled (char_at v p c k)"
  by (simp add: char_at_def)

lemma settled_two: "p + 1 < length v \<Longrightarrow> (\<And>d. settled (k d)) \<Longrightarrow> settled (two_digits v p k)"
  by (auto simp: two_digits_def intro!: settled_digit)

lemma settled_four: "p + 3 < length v \<Longrightarrow> (\<And>d. settled (k d)) \<Longrightarrow> settled (four_digits v p k)"
  by (auto simp: four_digits_def intro!: settled_digit)

lemma settled_month: "p + 2 < length v \<Longrightarrow> (\<And>d. settled (k d)) \<Longrightarrow> settled (month_at v p k)"
  by (simp add: month_at_def)

lemma settled_time: "p + (if isoc then 13 else 8) < length v \<Longrightarrow> settled (time_of_day v isoc y m d p)"
  unfolding time_of_day_def by (cases isoc) (auto intro!: settled_char settled_two settled_four)

lemma settled_isoc: "p + 1 < length v \<Longrightarrow> settled (isoc_day v month p)"
  unfolding isoc_day_def by (auto intro!: settled_digit settled_time)

text \<open>\<open>ngx_parse_http_time\<close> never reads outside of the bytes it is given: on every input it returns a
  time or \<open>NGX_ERROR\<close>.\<close>

theorem parse_http_time_safe: "\<exists>r. ngx_parse_http_time v = Some r"
proof -
  have "settled (http_time_from v isoc p)" for isoc p
    unfolding http_time_from_def by (auto intro!: settled_month settled_isoc settled_two settled_four settled_char settled_time)
  then show ?thesis unfolding ngx_parse_http_time_def Let_def settled_def by blast
qed

text \<open>Day 0 of a month is accepted, as the last day of the month before.\<close>

lemma parse_day_zero: "ngx_parse_http_time (bytes ''Tue, 00 Nov 1994 08:49:37 GMT'') = Some (stamp 1994 10 31 8 49 37)"
  by (simp add: ngx_parse_http_time_def http_time_from_def two_digits_def four_digits_def month_at_def char_at_def digit_at_def
    time_of_day_def time_of_fields_def mday_def stamp_def days_formula march_days_def Let_def)

end
