(* ===== verification/Range_Filter.thy ===== *)
theory Range_Filter
  imports Http_Time
begin

section \<open>Byte ranges: \<open>ngx_http_range_filter_module.c\<close>\<close>

text \<open>
  The parser of the \<open>Range\<close> header, the header filter, and the two body filters, for one range and for
  several. Pointers into the header's value are the list of the bytes from there on, which ends with
  the zero byte behind the value; a read behind it is None. The next filters are not modelled: what
  they are called with is the result.
\<close>

subsection \<open>Parsing the header\<close>

abbreviation (input) NGX_HTTP_RANGE_NOT_SATISFIABLE :: int where "NGX_HTTP_RANGE_NOT_SATISFIABLE \<equiv> 416"

fun skip_spaces :: "u_char list \<Rightarrow> u_char list option" where
  "skip_spaces [] = None"
| "skip_spaces (c # p) = (if c = ch_SP then skip_spaces p else Some (c # p))"

text \<open>The loop over the digits of \<open>start\<close> or \<open>end\<close>; \<open>Inl\<close> is the return with the status.\<close>

fun range_digits :: "int \<Rightarrow> u_char list \<Rightarrow> (int + int \<times> u_char list) option" where
  "range_digits n [] = None"
| "range_digits n (c # p) =
     (if c \<ge> ch_0 \<and> c \<le> ch_9 then
        (if n \<ge> NGX_MAX_INT_T_VALUE div 10 \<and> (n > NGX_MAX_INT_T_VALUE div 10 \<or> uint c - uint ch_0 > NGX_MAX_INT_T_VALUE mod 10)
         then Some (Inl NGX_HTTP_RANGE_NOT_SATISFIABLE)
         else range_digits (s64 (n * 10 + (uint c - uint ch_0))) p)
      else Some (Inr (n, c # p)))"

definition range_number :: "u_char list \<Rightarrow> (int + int \<times> u_char list) option" where
  "range_number p = do {
     c \<leftarrow> rd p 0;
     if c < ch_0 \<or> c > ch_9 then Some (Inl NGX_HTTP_RANGE_NOT_SATISFIABLE) else range_digits 0 p
   }"

text \<open>
  The end of a range, behind the dash. \<open>start\<close> None is the variable \<open>suffix\<close>. The result is the range
  at \<open>found\<close>, with the byte \<open>p\<close> points to there, a comma or the zero.
\<close>

definition range_end :: "int \<Rightarrow> int option \<Rightarrow> u_char list \<Rightarrow> (int + (int \<times> int) \<times> u_char list) option" where
  "range_end content_length start p =
     (case range_number p of
        None \<Rightarrow> None
      | Some (Inl rc) \<Rightarrow> Some (Inl rc)
      | Some (Inr (stop, p)) \<Rightarrow> do {
          p \<leftarrow> skip_spaces p;
          c \<leftarrow> rd p 0;
          if c \<noteq> ch_comma \<and> c \<noteq> ch_NUL then Some (Inl NGX_HTTP_RANGE_NOT_SATISFIABLE)
          else
            (let (start, stop) =
               (case start of
                  None \<Rightarrow> (s64 (content_length - stop), content_length - 1)
                | Some start \<Rightarrow> (start, stop))
             in Some (Inr ((start, if stop \<ge> content_length then content_length else stop + 1), p)))
        })"

definition range_dash :: "int \<Rightarrow> int \<Rightarrow> u_char list \<Rightarrow> (int + (int \<times> int) \<times> u_char list) option" where
  "range_dash content_length start p = do {
     p \<leftarrow> skip_spaces p;
     c \<leftarrow> rd p 0;
     if c \<noteq> ch_minus then Some (Inl NGX_HTTP_RANGE_NOT_SATISFIABLE)
     else do {
       p \<leftarrow> skip_spaces (tl p);
       c \<leftarrow> rd p 0;
       if c = ch_comma \<or> c = ch_NUL then Some (Inr ((start, content_length), p))
       else range_end content_length (Some start) p
     }
   }"

definition range_spec :: "int \<Rightarrow> u_char list \<Rightarrow> (int + (int \<times> int) \<times> u_char list) option" where
  "range_spec content_length p = do {
     p \<leftarrow> skip_spaces p;
     c \<leftarrow> rd p 0;
     if c \<noteq> ch_minus then
       (case range_number p of
          None \<Rightarrow> None
        | Some (Inl rc) \<Rightarrow> Some (Inl rc)
        | Some (Inr (start, p)) \<Rightarrow> range_dash content_length start p)
     else range_end content_length None (tl p)
   }"

lemma skip_spaces_length: "skip_spaces p = Some q \<Longrightarrow> length q \<le> length p"
  by (induction p rule: skip_spaces.induct) (auto split: if_splits)

lemma range_digits_length: "range_digits n p = Some (Inr (m, q)) \<Longrightarrow> length q \<le> length p"
  by (induction n p rule: range_digits.induct) (auto split: if_splits)

lemma range_number_length: "range_number p = Some (Inr (m, q)) \<Longrightarrow> length q \<le> length p"
  by (cases p) (auto simp: range_number_def dest: range_digits_length split: if_splits)

lemma range_end_length: "range_end cl st p = Some (Inr (r, q)) \<Longrightarrow> length q \<le> length p"
  by (auto simp: range_end_def Let_def bind_eq_Some_conv dest!: range_number_length skip_spaces_length
      split: option.splits sum.splits prod.splits if_splits)

lemma range_dash_length: "range_dash cl st p = Some (Inr (r, q)) \<Longrightarrow> length q \<le> length p"
proof -
  assume r: "range_dash cl st p = Some (Inr (r, q))"
  then obtain p1 where 1: "skip_spaces p = Some p1" "range_dash cl st p = do {
       p \<leftarrow> skip_spaces (tl p1);
       c \<leftarrow> rd p 0;
       if c = ch_comma \<or> c = ch_NUL then Some (Inr ((st, cl), p)) else range_end cl (Some st) p }"
    by (auto simp: range_dash_def bind_eq_Some_conv split: if_splits)
  with r obtain p2 where 2: "skip_spaces (tl p1) = Some p2" "q = p2 \<or> range_end cl (Some st) p2 = Some (Inr (r, q))"
    by (auto simp: bind_eq_Some_conv split: if_splits)
  have "length p1 \<le> length p" "length p2 \<le> length (tl p1)" using 1(1) 2(1) skip_spaces_length by blast+
  moreover have "length q \<le> length p2" using 2(2) range_end_length by blast
  moreover have "length (tl p1) \<le> length p1" by simp
  ultimately show ?thesis by linarith
qed

lemma range_spec_length: "range_spec cl p = Some (Inr (r, q)) \<Longrightarrow> length q \<le> length p"
proof -
  assume r: "range_spec cl p = Some (Inr (r, q))"
  then obtain p1 c where 1: "skip_spaces p = Some p1" "rd p1 0 = Some c"
    by (auto simp: range_spec_def bind_eq_Some_conv)
  then have len: "length p1 \<le> length p" "length (tl p1) \<le> length p1" using skip_spaces_length by auto
  show ?thesis
  proof (cases "c = ch_minus")
    case True
    then have "length q \<le> length (tl p1)" using r 1 by (auto simp: range_spec_def dest: range_end_length)
    with len show ?thesis by linarith
  next
    case False
    then obtain start p2 where "range_number p1 = Some (Inr (start, p2))" "range_dash cl start p2 = Some (Inr (r, q))"
      using r 1 by (auto simp: range_spec_def split: option.splits sum.splits)
    then have "length p2 \<le> length p1" "length q \<le> length p2" using range_number_length range_dash_length by blast+
    with len show ?thesis by linarith
  qed
qed

text \<open>
  The loop. \<open>ranges\<close> counts down the number allowed, \<open>elts\<close> is the array of the ranges found so far.
\<close>

function range_parse_loop ::
  "int \<Rightarrow> nat \<Rightarrow> int \<Rightarrow> (int \<times> int) list \<Rightarrow> u_char list \<Rightarrow> (int \<times> (int \<times> int) list) option"
where
  "range_parse_loop content_length ranges sz elts p =
     (case range_spec content_length p of
        None \<Rightarrow> None
      | Some (Inl rc) \<Rightarrow> Some (rc, elts)
      | Some (Inr ((start, stop), [])) \<Rightarrow> None
      | Some (Inr ((start, stop), c # p)) \<Rightarrow>
          (let sz = (if start < stop then s64 (sz + (stop - start)) else sz);
               elts = (if start < stop then elts @ [(start, stop)] else elts)
           in if start < stop \<and> ranges = 0 then Some (NGX_DECLINED, elts)
              else
                (let ranges = (if start < stop then ranges - 1 else ranges)
                 in if c \<noteq> ch_comma then
                      Some (if elts = [] then NGX_HTTP_RANGE_NOT_SATISFIABLE
                            else if sz > content_length then NGX_DECLINED else NGX_OK, elts)
                    else range_parse_loop content_length ranges sz elts p)))"
  by pat_completeness auto
termination
  by (relation "measure (\<lambda>(cl, ranges, sz, elts, p). length p)") (auto dest: range_spec_length)

declare range_parse_loop.simps [simp del]

definition ngx_http_range_parse :: "int \<Rightarrow> nat \<Rightarrow> u_char list \<Rightarrow> (int \<times> (int \<times> int) list) option" where
  "ngx_http_range_parse content_length ranges value =
     range_parse_loop content_length ranges 0 [] (drop 6 (value @ [ch_NUL]))"

lemma range_parse_stop:
  "range_spec cl p = Some (Inl rc) \<Longrightarrow> range_parse_loop cl ranges sz elts p = Some (rc, elts)"
  by (simp add: range_parse_loop.simps [of cl ranges sz elts p])

lemma range_parse_step:
  "range_spec cl p = Some (Inr ((start, stop), c # q)) \<Longrightarrow> range_parse_loop cl ranges sz elts p =
     (if start < stop then
        (if ranges = 0 then Some (NGX_DECLINED, elts @ [(start, stop)])
         else if c = ch_comma then range_parse_loop cl (ranges - 1) (s64 (sz + (stop - start))) (elts @ [(start, stop)]) q
         else Some (if s64 (sz + (stop - start)) > cl then NGX_DECLINED else NGX_OK, elts @ [(start, stop)]))
      else if c = ch_comma then range_parse_loop cl ranges sz elts q
      else Some (if elts = [] then NGX_HTTP_RANGE_NOT_SATISFIABLE else if sz > cl then NGX_DECLINED else NGX_OK, elts))"
  by (simp add: range_parse_loop.simps [of cl ranges sz elts p] Let_def)

lemmas range_defs = range_spec_def range_dash_def range_number_def range_end_def

subsection \<open>Digits and blanks\<close>

lemma skip_spaces_exact: "c \<noteq> ch_SP \<Longrightarrow> skip_spaces (replicate n ch_SP @ c # q) = Some (c # q)"
  by (induction n) auto

lemma range_digits_exact:
  assumes "0 \<le> n" "n \<le> NGX_MAX_INT_T_VALUE" "list_all is_digit ds" "\<not> is_digit c"
  shows "range_digits n (ds @ c # q) =
    (if n * 10 ^ length ds + dec_val ds \<le> NGX_MAX_INT_T_VALUE then Some (Inr (n * 10 ^ length ds + dec_val ds, c # q))
     else Some (Inl NGX_HTTP_RANGE_NOT_SATISFIABLE))"
  using assms(1-3)
proof (induction ds arbitrary: n)
  case Nil
  have "(c \<ge> ch_0 \<and> c \<le> ch_9) = False" using assms(4) by (simp add: is_digit_def)
  then show ?case using Nil by (simp only: append_Nil range_digits.simps) simp
next
  case (Cons x ds)
  let ?d = "uint x - 48"
  have "is_digit x" using Cons.prems(3) by simp
  then have x: "x \<ge> ch_0 \<and> x \<le> ch_9" "0 \<le> ?d" "?d \<le> 9" using is_digit_uint [of x] by (simp_all add: is_digit_def)
  have val: "n * 10 ^ length (x # ds) + dec_val (x # ds) = (n * 10 + ?d) * 10 ^ length ds + dec_val ds"
    by (simp add: dec_val_Cons algebra_simps)
  show ?case
  proof (cases "n * 10 + ?d \<le> NGX_MAX_INT_T_VALUE")
    case True
    then have "\<not> (n \<ge> 922337203685477580 \<and> (n > 922337203685477580 \<or> ?d > 7))" using x by arith
    with True x Cons val show ?thesis by simp
  next
    case False
    then have over: "n \<ge> 922337203685477580 \<and> (n > 922337203685477580 \<or> ?d > 7)" using x by arith
    have "\<not> (n * 10 + ?d) * 10 ^ length ds + dec_val ds \<le> NGX_MAX_INT_T_VALUE"
      using False Cons.prems(3) by (intro scaled_too_big0 dec_val_nonneg) auto
    then show ?thesis using over x val by simp
  qed
qed

lemma digit_not:
  assumes "is_digit c"
  shows "\<not> (c < ch_0 \<or> c > ch_9)" "c \<noteq> ch_SP" "c \<noteq> ch_minus" "c \<noteq> ch_comma" "c \<noteq> ch_NUL"
  using assms by (auto simp: is_digit_def)

text \<open>A number that may be a bound: digits, at least one, that fit.\<close>

definition bound :: "u_char list \<Rightarrow> bool" where
  "bound ds \<longleftrightarrow> ds \<noteq> [] \<and> list_all is_digit ds \<and> dec_val ds \<le> NGX_MAX_INT_T_VALUE"

lemma bound_nonneg: "bound ds \<Longrightarrow> 0 \<le> dec_val ds \<and> dec_val ds \<le> NGX_MAX_INT_T_VALUE"
  by (simp add: bound_def dec_val_nonneg)

lemma range_number_exact: "bound ds \<Longrightarrow> \<not> is_digit c \<Longrightarrow> range_number (ds @ c # q) = Some (Inr (dec_val ds, c # q))"
  using range_digits_exact [of 0 ds c q] by (cases ds) (auto simp: range_number_def bound_def dest: digit_not(1))

lemma bound_first: "bound ds \<Longrightarrow> \<exists>d ds'. ds = d # ds' \<and> is_digit d"
  by (cases ds) (auto simp: bound_def)

lemma skip_first: "bound ds \<Longrightarrow> skip_spaces (replicate n ch_SP @ ds @ q) = Some (ds @ q) \<and> rd (ds @ q) 0 = Some (hd ds) \<and> is_digit (hd ds)"
  using skip_spaces_exact [of "hd ds" n "tl ds @ q"] by (auto dest!: bound_first dest: digit_not(2))

subsection \<open>The grammar\<close>

text \<open>The three forms of a range, with the numbers of blanks between their parts.\<close>

datatype range_text = From nat "u_char list" nat nat | Between nat "u_char list" nat nat "u_char list" nat | Suffix nat "u_char list" nat

fun range_bytes :: "range_text \<Rightarrow> u_char list" where
  "range_bytes (From a ds b c) = replicate a ch_SP @ ds @ replicate b ch_SP @ ch_minus # replicate c ch_SP"
| "range_bytes (Between a ds b c es d) =
     replicate a ch_SP @ ds @ replicate b ch_SP @ ch_minus # replicate c ch_SP @ es @ replicate d ch_SP"
| "range_bytes (Suffix a es d) = replicate a ch_SP @ ch_minus # es @ replicate d ch_SP"

fun range_ok :: "range_text \<Rightarrow> bool" where
  "range_ok (From a ds b c) \<longleftrightarrow> bound ds"
| "range_ok (Between a ds b c es d) \<longleftrightarrow> bound ds \<and> bound es"
| "range_ok (Suffix a es d) \<longleftrightarrow> bound es"

text \<open>The bytes it asks for, as the first and the one behind the last.\<close>

fun range_value :: "int \<Rightarrow> range_text \<Rightarrow> int \<times> int" where
  "range_value content_length (From a ds b c) = (dec_val ds, content_length)"
| "range_value content_length (Between a ds b c es d) = (dec_val ds, min content_length (dec_val es + 1))"
| "range_value content_length (Suffix a es d) = (content_length - dec_val es, content_length)"

lemma end_byte: "c = ch_comma \<or> c = ch_NUL \<Longrightarrow> \<not> is_digit c \<and> c \<noteq> ch_SP \<and> c \<noteq> ch_minus"
  by (auto simp: is_digit_def)

lemma range_end_exact:
  assumes "bound es" "c = ch_comma \<or> c = ch_NUL" "0 \<le> cl" "cl \<le> NGX_MAX_INT_T_VALUE"
  shows "range_end cl st (es @ replicate d ch_SP @ c # q) =
    Some (Inr ((case st of None \<Rightarrow> (cl - dec_val es, cl) | Some a \<Rightarrow> (a, min cl (dec_val es + 1))), c # q))"
proof -
  have "range_number (es @ replicate d ch_SP @ c # q) = Some (Inr (dec_val es, replicate d ch_SP @ c # q))"
    using range_number_exact [OF assms(1), of "if d = 0 then c else ch_SP"] end_byte [OF assms(2)]
    by (cases d) (auto simp: is_digit_def)
  moreover have "s64 (cl - dec_val es) = cl - dec_val es" using assms(3,4) bound_nonneg [OF assms(1)] by simp
  ultimately show ?thesis
    using skip_spaces_exact [of c d q] end_byte [OF assms(2)] assms(2)
    by (auto simp: range_end_def split: option.splits)
qed

lemma range_spec_exact:
  assumes "range_ok x" "c = ch_comma \<or> c = ch_NUL" "0 \<le> cl" "cl \<le> NGX_MAX_INT_T_VALUE"
  shows "range_spec cl (range_bytes x @ c # q) = Some (Inr (range_value cl x, c # q))"
proof -
  have dash: "range_number (ds @ replicate b ch_SP @ ch_minus # r) = Some (Inr (dec_val ds, replicate b ch_SP @ ch_minus # r))"
    if "bound ds" for ds b r
    using range_number_exact [OF that, of "if b = 0 then ch_minus else ch_SP"] by (cases b) (auto simp: is_digit_def)
  have first: "range_spec cl (replicate a ch_SP @ ds @ replicate b ch_SP @ ch_minus # r) =
      range_dash cl (dec_val ds) (replicate b ch_SP @ ch_minus # r)" if "bound ds" for a ds b r
    using skip_first [OF that, of a "replicate b ch_SP @ ch_minus # r"] dash [OF that] digit_not(3) [of "hd ds"]
    by (simp add: range_spec_def)
  have blank: "skip_spaces (replicate n ch_SP @ ch_minus # r) = Some (ch_minus # r)" for n r by (simp add: skip_spaces_exact)
  show ?thesis
  proof (cases x)
    case (From a ds b c1)
    then show ?thesis using assms first [of ds a b "replicate c1 ch_SP @ c # q"] skip_spaces_exact [of c c1 q] end_byte [OF assms(2)]
      by (auto simp: range_dash_def blank)
  next
    case (Between a ds b c1 es d)
    then have "bound es" using assms(1) by simp
    note es = skip_first [OF this, of c1 "replicate d ch_SP @ c # q"] and fin = range_end_exact [OF this assms(2-4), of _ d q]
    show ?thesis using Between assms(1) first [of ds a b "replicate c1 ch_SP @ es @ replicate d ch_SP @ c # q"] es fin
        digit_not(4,5) [of "hd es"]
      by (simp add: range_dash_def blank)
  next
    case (Suffix a es d)
    then show ?thesis using assms range_end_exact [of es c cl None d q] blank [of a] by (simp add: range_spec_def)
  qed
qed

subsection \<open>The loop\<close>

text \<open>The ranges that ask for something, and the verdict on them; \<open>size\<close> is an \<open>off_t\<close>.\<close>

definition satisfiable :: "int \<Rightarrow> range_text list \<Rightarrow> (int \<times> int) list" where
  "satisfiable content_length xs = filter (\<lambda>(a, b). a < b) (map (range_value content_length) xs)"

definition volume :: "(int \<times> int) list \<Rightarrow> int" where
  "volume elts = (\<Sum>(a, b) \<leftarrow> elts. b - a)"

lemma volume_simps [simp]: "volume [] = 0" "volume ((a, b) # elts) = b - a + volume elts" "volume (xs @ ys) = volume xs + volume ys"
  by (simp_all add: volume_def)

lemma volume_nonneg: "list_all (\<lambda>(a, b). a < b) elts \<Longrightarrow> 0 \<le> volume elts"
  by (induction elts) auto

lemma satisfiable_Cons: "satisfiable cl (x # xs) =
   (if fst (range_value cl x) < snd (range_value cl x) then [range_value cl x] else []) @ satisfiable cl xs"
  by (simp add: satisfiable_def case_prod_beta)

lemma satisfiable_order: "list_all (\<lambda>(a, b). a < b) (satisfiable cl xs)"
  by (auto simp: satisfiable_def list_all_iff)

fun ranges_bytes :: "range_text list \<Rightarrow> u_char list" where
  "ranges_bytes [] = []"
| "ranges_bytes [x] = range_bytes x"
| "ranges_bytes (x # xs) = range_bytes x @ ch_comma # ranges_bytes xs"

definition range_verdict :: "int \<Rightarrow> (int \<times> int) list \<Rightarrow> int" where
  "range_verdict content_length elts =
     (if elts = [] then NGX_HTTP_RANGE_NOT_SATISFIABLE
      else if s64 (volume elts) > content_length then NGX_DECLINED else NGX_OK)"

lemma range_parse_loop_exact:
  assumes "xs \<noteq> []" "list_all range_ok xs" "0 \<le> cl" "cl \<le> NGX_MAX_INT_T_VALUE"
  shows "range_parse_loop cl ranges (s64 (volume elts)) elts (ranges_bytes xs @ [ch_NUL]) =
    Some (if length (satisfiable cl xs) > ranges then (NGX_DECLINED, elts @ take (ranges + 1) (satisfiable cl xs))
          else (range_verdict cl (elts @ satisfiable cl xs), elts @ satisfiable cl xs))"
  using assms(1,2)
proof (induction xs arbitrary: elts ranges rule: ranges_bytes.induct)
  case (2 x)
  obtain a b where ab: "range_value cl x = (a, b)" by (cases "range_value cl x")
  have "range_spec cl (range_bytes x @ [ch_NUL]) = Some (Inr ((a, b), [ch_NUL]))"
    using range_spec_exact [of x ch_NUL cl "[]"] 2 assms(3,4) by (simp add: ab)
  moreover have nc: "(ch_NUL = ch_comma) = False" by simp
  ultimately have "range_parse_loop cl ranges (s64 (volume elts)) elts (range_bytes x @ [ch_NUL]) =
      (if a < b then
        (if ranges = 0 then Some (NGX_DECLINED, elts @ [(a, b)])
         else Some (if s64 (volume elts + (b - a)) > cl then NGX_DECLINED else NGX_OK, elts @ [(a, b)]))
       else Some (if elts = [] then NGX_HTTP_RANGE_NOT_SATISFIABLE else if s64 (volume elts) > cl then NGX_DECLINED else NGX_OK, elts))"
    by (simp only: range_parse_step nc if_False s64_add)
  moreover have "satisfiable cl [x] = (if a < b then [(a, b)] else [])" by (simp add: satisfiable_def ab)
  ultimately show ?case by (cases "a < b"; cases ranges) (simp_all add: range_verdict_def)
next
  case (3 x y xs)
  obtain a b where ab: "range_value cl x = (a, b)" by (cases "range_value cl x")
  let ?q = "ranges_bytes (y # xs) @ [ch_NUL]"
  have spec: "range_spec cl (ranges_bytes (x # y # xs) @ [ch_NUL]) = Some (Inr ((a, b), ch_comma # ?q))"
    using range_spec_exact [of x ch_comma cl ?q] 3(3) assms(3,4) by (simp add: ab)
  show ?case
  proof (cases "a < b")
    case False
    then show ?thesis using range_parse_step [OF spec, of ranges "s64 (volume elts)" elts] 3(1) [of ranges elts] 3(3)
      by (simp add: satisfiable_Cons ab)
  next
    case True
    let ?elts = "elts @ [(a, b)]"
    have "s64 (s64 (volume elts) + (b - a)) = s64 (volume ?elts)" by (simp add: s64_add)
    then show ?thesis
      using range_parse_step [OF spec, of ranges "s64 (volume elts)" elts] 3(1) [of "ranges - 1" ?elts] 3(3) True
      by (cases ranges) (simp_all add: satisfiable_Cons ab)
  qed
qed simp

subsection \<open>Any header\<close>

text \<open>The parser stops at the zero behind the value, at the latest.\<close>

definition zero_ends :: "(int + 'a \<times> u_char list) option \<Rightarrow> bool" where
  "zero_ends r \<longleftrightarrow> (case r of None \<Rightarrow> False | Some (Inl rc) \<Rightarrow> rc = NGX_HTTP_RANGE_NOT_SATISFIABLE | Some (Inr (a, q)) \<Rightarrow> ch_NUL \<in> set q)"

lemma skip_spaces_some: "ch_NUL \<in> set p \<Longrightarrow> \<exists>c q. skip_spaces p = Some (c # q) \<and> ch_NUL \<in> set (c # q)"
  by (induction p) auto

lemma skip_spaces_zero:
  assumes "ch_NUL \<in> set p"
  obtains c q where "skip_spaces p = Some (c # q)" "ch_NUL \<in> set (c # q)"
  using skip_spaces_some [OF assms] by blast

lemma range_digits_zero: "ch_NUL \<in> set p \<Longrightarrow> zero_ends (range_digits n p)"
  by (induction n p rule: range_digits.induct) (auto simp: zero_ends_def)

lemma range_number_zero: "ch_NUL \<in> set p \<Longrightarrow> zero_ends (range_number p)"
  using range_digits_zero [of p 0] by (cases p) (auto simp: range_number_def zero_ends_def)

lemma zero_endsE:
  assumes "zero_ends r"
  obtains "r = Some (Inl NGX_HTTP_RANGE_NOT_SATISFIABLE)" | a q where "r = Some (Inr (a, q))" "ch_NUL \<in> set q"
  using assms by (auto simp: zero_ends_def split: option.splits sum.splits prod.splits)

lemma range_end_zero:
  assumes "ch_NUL \<in> set p"
  shows "zero_ends (range_end cl st p)"
proof -
  from range_number_zero [OF assms] show ?thesis
  proof (cases rule: zero_endsE)
    case (2 m q)
    obtain c r where "skip_spaces q = Some (c # r)" "ch_NUL \<in> set (c # r)" by (rule skip_spaces_zero [OF 2(2)])
    then show ?thesis using 2(1) by (auto simp: range_end_def zero_ends_def Let_def split: option.splits)
  qed (simp add: range_end_def zero_ends_def)
qed

lemma range_dash_zero:
  assumes "ch_NUL \<in> set p"
  shows "zero_ends (range_dash cl st p)"
proof -
  obtain c q where 1: "skip_spaces p = Some (c # q)" "ch_NUL \<in> set (c # q)" by (rule skip_spaces_zero [OF assms])
  show ?thesis
  proof (cases "c = ch_minus")
    case True
    then have "ch_NUL \<in> set q" using 1(2) by auto
    then obtain d r where 2: "skip_spaces q = Some (d # r)" "ch_NUL \<in> set (d # r)" by (rule skip_spaces_zero)
    have "zero_ends (Some (Inr ((st, cl), d # r)))" using 2(2) by (simp add: zero_ends_def)
    then show ?thesis using 1(1) 2(1) True range_end_zero [OF 2(2), of cl "Some st"] by (simp add: range_dash_def)
  next
    case False
    then show ?thesis using 1(1) by (simp add: range_dash_def zero_ends_def)
  qed
qed

lemma range_spec_zero:
  assumes "ch_NUL \<in> set p"
  shows "zero_ends (range_spec cl p)"
proof -
  obtain c q where 1: "skip_spaces p = Some (c # q)" "ch_NUL \<in> set (c # q)" by (rule skip_spaces_zero [OF assms])
  show ?thesis
  proof (cases "c = ch_minus")
    case True
    then have "ch_NUL \<in> set q" using 1(2) by auto
    then show ?thesis using 1(1) True range_end_zero by (simp add: range_spec_def)
  next
    case False
    from range_number_zero [OF 1(2)] show ?thesis
    proof (cases rule: zero_endsE)
      case (2 m r)
      then show ?thesis using 1(1) False range_dash_zero [OF 2(2)] by (simp add: range_spec_def)
    next
      case 1
      then show ?thesis using \<open>skip_spaces p = _\<close> False by (simp add: range_spec_def zero_ends_def)
    qed
  qed
qed

text \<open>What a range can be: it ends within the content, and starts there unless it is a suffix.\<close>

lemma range_digits_nonneg: "range_digits n p = Some (Inr (m, q)) \<Longrightarrow> 0 \<le> n \<Longrightarrow> n \<le> NGX_MAX_INT_T_VALUE \<Longrightarrow> 0 \<le> m \<and> m \<le> NGX_MAX_INT_T_VALUE"
proof (induction n p rule: range_digits.induct)
  case (2 n c p)
  show ?case
  proof (cases "is_digit c")
    case True
    then have d: "c \<ge> ch_0 \<and> c \<le> ch_9" "0 \<le> uint c - 48" "uint c - 48 \<le> 9" using is_digit_uint [of c] by (simp_all add: is_digit_def)
    have fits: "n * 10 + (uint c - 48) \<le> NGX_MAX_INT_T_VALUE"
      "\<not> (n \<ge> 922337203685477580 \<and> (n > 922337203685477580 \<or> uint c - uint ch_0 > 7))"
      using 2(2) d by (auto split: if_splits)
    then have over: "\<not> (n \<ge> NGX_MAX_INT_T_VALUE div 10 \<and> (n > NGX_MAX_INT_T_VALUE div 10 \<or> uint c - uint ch_0 > NGX_MAX_INT_T_VALUE mod 10))"
      by simp
    have step: "range_digits n (c # p) = range_digits (s64 (n * 10 + (uint c - uint ch_0))) p"
      using d(1) by (simp only: range_digits.simps if_True if_not_P [OF over] simp_thms)
    have id: "s64 (n * 10 + (uint c - uint ch_0)) = n * 10 + (uint c - 48)" using 2(3) fits(1) d by simp
    have "0 \<le> n * 10 + (uint c - 48)" using 2(3) d by simp
    then show ?thesis using 2(1) [OF d(1) over] 2(2) fits(1) unfolding step id by blast
  next
    case False
    then have "(c \<ge> ch_0 \<and> c \<le> ch_9) = False" by (simp add: is_digit_def)
    then show ?thesis using 2(2-4) by (simp only: range_digits.simps if_False) simp
  qed
qed simp

lemma range_number_nonneg: "range_number p = Some (Inr (m, q)) \<Longrightarrow> 0 \<le> m \<and> m \<le> NGX_MAX_INT_T_VALUE"
  using range_digits_nonneg [of 0 p m q] by (cases p) (auto simp: range_number_def split: if_splits)

lemma range_end_bounds:
  assumes "range_end cl st p = Some (Inr ((a, b), q))" "0 \<le> cl" "cl \<le> NGX_MAX_INT_T_VALUE"
  shows "b \<le> cl \<and> a = (case st of None \<Rightarrow> a | Some a' \<Rightarrow> a') \<and> (st = None \<longrightarrow> b = cl \<and> - NGX_MAX_INT_T_VALUE \<le> a)"
proof -
  obtain m p1 where 1: "range_number p = Some (Inr (m, p1))"
    using assms(1) by (auto simp: range_end_def split: option.splits sum.splits)
  then have "0 \<le> m \<and> m \<le> NGX_MAX_INT_T_VALUE" by (rule range_number_nonneg)
  then show ?thesis using assms 1 by (auto simp: range_end_def bind_eq_Some_conv Let_def split: option.splits if_splits)
qed

lemma range_spec_bounds:
  assumes "range_spec cl p = Some (Inr ((a, b), q))" "0 \<le> cl" "cl \<le> NGX_MAX_INT_T_VALUE"
  shows "b \<le> cl \<and> (0 \<le> a \<or> b = cl) \<and> - NGX_MAX_INT_T_VALUE \<le> a"
proof -
  obtain p1 c where 1: "skip_spaces p = Some p1" "rd p1 0 = Some c" using assms(1) by (auto simp: range_spec_def bind_eq_Some_conv)
  show ?thesis
  proof (cases "c = ch_minus")
    case True
    then show ?thesis using assms(1) 1 range_end_bounds [OF _ assms(2,3), of None "tl p1" a b q] by (simp add: range_spec_def)
  next
    case False
    then obtain st p2 where 2: "range_number p1 = Some (Inr (st, p2))" "range_dash cl st p2 = Some (Inr ((a, b), q))"
      using assms(1) 1 by (auto simp: range_spec_def split: option.splits sum.splits)
    have "b \<le> cl \<and> a = st"
      using 2(2) range_end_bounds [OF _ assms(2,3), of "Some st"]
      by (fastforce simp: range_dash_def bind_eq_Some_conv split: if_splits)
    then show ?thesis using range_number_nonneg [OF 2(1)] by auto
  qed
qed

definition in_content :: "int \<Rightarrow> int \<times> int \<Rightarrow> bool" where
  "in_content cl = (\<lambda>(a, b). a < b \<and> b \<le> cl \<and> (0 \<le> a \<or> b = cl))"

lemma range_parse_loop_safe:
  assumes "ch_NUL \<in> set p" "0 \<le> cl" "cl \<le> NGX_MAX_INT_T_VALUE" "list_all (in_content cl) elts" "sz = s64 (volume elts)"
  shows "\<exists>rc elts'. range_parse_loop cl ranges sz elts p = Some (rc, elts') \<and> list_all (in_content cl) elts' \<and>
    rc \<in> {NGX_OK, NGX_HTTP_RANGE_NOT_SATISFIABLE, NGX_DECLINED} \<and>
    (rc = NGX_OK \<longrightarrow> elts' \<noteq> [] \<and> s64 (volume elts') \<le> cl \<and> length elts' \<le> length elts + ranges)"
  using assms(1,4,5)
proof (induction "length p" arbitrary: p ranges sz elts rule: less_induct)
  case less
  from range_spec_zero [OF less.prems(1), of cl] show ?case
  proof (cases rule: zero_endsE)
    case 1
    then show ?thesis using range_parse_stop [OF 1] less.prems(2) by simp
  next
    case (2 ab q0)
    obtain a b where ab: "ab = (a, b)" by (cases ab)
    obtain c q where q0: "q0 = c # q" using 2(2) by (cases q0) auto
    note spec = 2(1) [unfolded ab q0]
    note step = range_parse_step [OF spec, of ranges sz elts]
    have len: "length q < length p" using range_spec_length [OF spec] by simp
    let ?elts = "if a < b then elts @ [(a, b)] else elts"
    have good: "list_all (in_content cl) ?elts"
      using less.prems(2) range_spec_bounds [OF spec assms(2,3)] by (simp add: in_content_def)
    have sz: "(if a < b then s64 (sz + (b - a)) else sz) = s64 (volume ?elts)"
      using less.prems(3) s64_add [of "volume elts" "b - a"] by simp
    show ?thesis
    proof (cases "a < b \<and> ranges = 0")
      case True
      then show ?thesis using step good by simp
    next
      case False
      show ?thesis
      proof (cases "c = ch_comma")
        case True
        then have "ch_NUL \<in> set q" using 2(2) by (auto simp: q0)
        from less.hyps [OF len this good, of _ "if a < b then ranges - 1 else ranges"] sz obtain rc elts' where
          "range_parse_loop cl (if a < b then ranges - 1 else ranges) (if a < b then s64 (sz + (b - a)) else sz) ?elts q = Some (rc, elts')"
          "list_all (in_content cl) elts'" "rc \<in> {NGX_OK, NGX_HTTP_RANGE_NOT_SATISFIABLE, NGX_DECLINED}"
          "rc = NGX_OK \<longrightarrow> elts' \<noteq> [] \<and> s64 (volume elts') \<le> cl \<and> length elts' \<le> length ?elts + (if a < b then ranges - 1 else ranges)"
          by blast
        then show ?thesis using step True False by (auto split: if_splits)
      next
        case ncomma: False
        then show ?thesis using step good sz False by (auto split: if_splits)
      qed
    qed
  qed
qed

lemma volume_mono: "list_all (\<lambda>(a, b). a < b) elts \<Longrightarrow> (a, b) \<in> set elts \<Longrightarrow> b - a \<le> volume elts"
proof (induction elts)
  case (Cons x elts)
  then have "0 \<le> volume elts" by (auto intro: volume_nonneg)
  then show ?case using Cons by (cases x) fastforce
qed simp

lemma range_parse_in_content:
  assumes "ngx_http_range_parse cl ranges v = Some (NGX_OK, elts)" "6 \<le> length v" "0 \<le> cl" "cl \<le> NGX_MAX_INT_T_VALUE"
    and "volume elts \<le> NGX_MAX_INT_T_VALUE"
  shows "elts \<noteq> [] \<and> length elts \<le> ranges \<and> volume elts \<le> cl \<and> list_all (\<lambda>(a, b). 0 \<le> a \<and> a < b \<and> b \<le> cl) elts"
proof -
  have "ch_NUL \<in> set (drop 6 (v @ [ch_NUL]))" using assms(2) by simp
  from range_parse_loop_safe [OF this assms(3,4), of "[]" 0 ranges] assms(1)
  have e: "list_all (in_content cl) elts" "elts \<noteq> []" "s64 (volume elts) \<le> cl" "length elts \<le> ranges"
    by (auto simp: ngx_http_range_parse_def s64_def)
  have order: "list_all (\<lambda>(a, b). a < b) elts" using e(1) by (auto simp: in_content_def list_all_iff)
  then have vol: "volume elts \<le> cl" using e(3) assms(5) volume_nonneg [OF order] by simp
  have "list_all (\<lambda>(a, b). 0 \<le> a \<and> a < b \<and> b \<le> cl) elts"
    unfolding list_all_iff
  proof (clarify, goal_cases)
    case (1 a b)
    then have "a < b" "b \<le> cl" "0 \<le> a \<or> b = cl" using e(1) by (auto simp: in_content_def list_all_iff)
    moreover have "b - a \<le> cl" using volume_mono [OF order 1] vol by simp
    ultimately show ?case by auto
  qed
  with e vol show ?thesis by simp
qed

subsection \<open>The body filter for one range\<close>

text \<open>
  A buffer of the body: the memory and the file it points into, with its positions there. \<open>in_memory\<close> is
  the macro \<open>ngx_buf_in_memory\<close>.
\<close>

record chain_buf =
  buf_mem :: "u_char list"
  buf_file :: "u_char list"
  in_memory :: bool
  in_file :: bool
  buf_pos :: int
  buf_last :: int
  file_pos :: int
  file_last :: int
  buf_flush :: bool
  last_buf :: bool
  buf_sync :: bool

definition ngx_buf_size :: "chain_buf \<Rightarrow> int" where
  "ngx_buf_size b = (if in_memory b then buf_last b - buf_pos b else file_last b - file_pos b)"

definition ngx_buf_special :: "chain_buf \<Rightarrow> bool" where
  "ngx_buf_special b \<longleftrightarrow> (buf_flush b \<or> last_buf b \<or> buf_sync b) \<and> \<not> in_memory b \<and> \<not> in_file b"

text \<open>
  The loop over the chain: the new offset of the context, and the buffers with a mark on those that are
  passed on. Those behind the end of the range are not looked at.
\<close>

fun singlepart_loop :: "int \<times> int \<Rightarrow> int \<Rightarrow> chain_buf list \<Rightarrow> int \<times> (bool \<times> chain_buf) list" where
  "singlepart_loop rng offset [] = (offset, [])"
| "singlepart_loop rng offset (buf # cl) =
     (let start = offset;
          stop = offset + ngx_buf_size buf
      in if ngx_buf_special buf then
           (let (offset, bufs) = singlepart_loop rng stop cl in (offset, (True, buf) # bufs))
         else if snd rng \<le> start \<or> fst rng \<ge> stop then
           (let buf = (if in_file buf then buf\<lparr>file_pos := file_last buf\<rparr> else buf);
                buf = buf\<lparr>buf_pos := buf_last buf, buf_sync := True\<rparr>;
                (offset, bufs) = singlepart_loop rng stop cl
            in (offset, (False, buf) # bufs))
         else
           (let buf =
                  (if fst rng > start then
                     (let buf = (if in_file buf then buf\<lparr>file_pos := file_pos buf + (fst rng - start)\<rparr> else buf)
                      in if in_memory buf then buf\<lparr>buf_pos := buf_pos buf + (fst rng - start)\<rparr> else buf)
                   else buf)
            in if snd rng \<le> stop then
                 (let buf = (if in_file buf then buf\<lparr>file_last := file_last buf - (stop - snd rng)\<rparr> else buf);
                      buf = (if in_memory buf then buf\<lparr>buf_last := buf_last buf - (stop - snd rng)\<rparr> else buf)
                  in (stop, (True, buf\<lparr>last_buf := True\<rparr>) # map (Pair False) cl))
               else
                 (let (offset, bufs) = singlepart_loop rng stop cl in (offset, (True, buf) # bufs))))"

definition ngx_http_range_singlepart_body :: "int \<times> int \<Rightarrow> int \<Rightarrow> chain_buf list \<Rightarrow> int \<times> chain_buf list" where
  "ngx_http_range_singlepart_body rng offset bufs =
     (let (offset, bufs) = singlepart_loop rng offset bufs in (offset, map snd (filter fst bufs)))"

text \<open>What is sent of a buffer.\<close>

definition buf_bytes :: "chain_buf \<Rightarrow> u_char list" where
  "buf_bytes b =
     (if in_memory b then byte_range (buf_mem b) (nat (buf_pos b)) (nat (buf_last b))
      else if in_file b then byte_range (buf_file b) (nat (file_pos b)) (nat (file_last b))
      else [])"

definition buf_ok :: "chain_buf \<Rightarrow> bool" where
  "buf_ok b \<longleftrightarrow>
     (in_memory b \<longrightarrow> 0 \<le> buf_pos b \<and> buf_pos b \<le> buf_last b \<and> buf_last b \<le> int (length (buf_mem b))) \<and>
     (\<not> in_memory b \<and> in_file b \<longrightarrow> 0 \<le> file_pos b \<and> file_pos b \<le> file_last b \<and> file_last b \<le> int (length (buf_file b))) \<and>
     (\<not> in_memory b \<and> \<not> in_file b \<longrightarrow> ngx_buf_special b \<and> file_last b = file_pos b)"

lemma buf_size_bytes: "buf_ok b \<Longrightarrow> ngx_buf_size b = int (length (buf_bytes b))"
  by (auto simp: buf_ok_def ngx_buf_size_def buf_bytes_def byte_range_def)

text \<open>The part of the body in the range that lies in the bytes from an offset on.\<close>

definition window :: "int \<times> int \<Rightarrow> int \<Rightarrow> u_char list \<Rightarrow> u_char list" where
  "window rng offset xs = drop (nat (fst rng - offset)) (take (nat (snd rng - offset)) xs)"

lemma window_append: "window r off (xs @ ys) = window r off xs @ window r (off + int (length xs)) ys"
proof -
  have "nat (snd r - off) - length xs = nat (snd r - (off + int (length xs)))"
    "nat (fst r - off) - length xs = nat (fst r - (off + int (length xs)))" by simp_all
  moreover have "nat (fst r - off) - min (length xs) (nat (snd r - off)) = nat (fst r - off) - length xs
      \<or> nat (snd r - off) - length xs = 0" by linarith
  ultimately show ?thesis by (auto simp: window_def)
qed

lemma window_behind: "snd r \<le> off \<Longrightarrow> window r off xs = []"
  by (simp add: window_def)

lemma window_before: "off + int (length xs) \<le> fst r \<Longrightarrow> window r off xs = []"
  by (simp add: window_def)

lemma window_all: "fst r \<le> off \<Longrightarrow> off + int (length xs) \<le> snd r \<Longrightarrow> window r off xs = xs"
  by (simp add: window_def)

lemma window_Nil [simp]: "window r off [] = []"
  by (simp add: window_def)

text \<open>The new ends of a buffer.\<close>

lemma byte_range_inner:
  assumes "b \<le> length xs" "d \<le> b - a"
  shows "byte_range xs (a + c) (b - d) = drop c (take (b - a - d) (byte_range xs a b))"
proof -
  have "take (b - a - d) (byte_range xs a b) = take (b - a - d) (drop a xs)" by (simp add: byte_range_def)
  moreover have "b - a - d - c = b - d - (a + c)" by simp
  ultimately show ?thesis by (simp add: byte_range_def drop_take add.commute)
qed

lemma buf_inner:
  assumes "buf_ok b" "0 \<le> c" "0 \<le> d" "d \<le> ngx_buf_size b"
    and "in_memory b' = in_memory b" "in_file b' = in_file b" "buf_mem b' = buf_mem b" "buf_file b' = buf_file b"
    and "in_memory b \<Longrightarrow> buf_pos b' = buf_pos b + c \<and> buf_last b' = buf_last b - d"
    and "\<not> in_memory b \<Longrightarrow> in_file b \<Longrightarrow> file_pos b' = file_pos b + c \<and> file_last b' = file_last b - d"
  shows "buf_bytes b' = drop (nat c) (take (nat (ngx_buf_size b - d)) (buf_bytes b))"
proof -
  have n: "nat (p + c) = nat p + nat c" if "0 \<le> p" for p using that assms(2) by (simp add: nat_add_distrib)
  have m: "nat (q - d) = nat q - nat d" for q using assms(3) by (simp add: nat_diff_distrib')
  show ?thesis
  proof (cases "in_memory b")
    case True
    then show ?thesis using assms byte_range_inner [of "nat (buf_last b)" "buf_mem b" "nat d" "nat (buf_pos b)" "nat c"]
      by (auto simp: buf_bytes_def buf_ok_def ngx_buf_size_def n m nat_diff_distrib')
  next
    case False
    then show ?thesis using assms byte_range_inner [of "nat (file_last b)" "buf_file b" "nat d" "nat (file_pos b)" "nat c"]
      by (auto simp: buf_bytes_def buf_ok_def ngx_buf_size_def n m nat_diff_distrib')
  qed
qed

definition passed :: "(bool \<times> chain_buf) list \<Rightarrow> u_char list" where
  "passed bufs = concat (map buf_bytes (map snd (filter fst bufs)))"

lemma passed_simps [simp]:
  "passed [] = []" "passed ((True, b) # bufs) = buf_bytes b @ passed bufs" "passed ((False, b) # bufs) = passed bufs"
  "passed (map (Pair False) bs) = []"
  by (simp_all add: passed_def filter_map comp_def)

lemma special_bytes: "ngx_buf_special b \<Longrightarrow> buf_bytes b = []"
  by (simp add: ngx_buf_special_def buf_bytes_def)

text \<open>One call sends the window; its offset then is the right one, or both are behind the range.\<close>

lemma singlepart_loop_window:
  assumes "list_all buf_ok bufs" "fst rng < snd rng" "0 \<le> fst rng"
  shows "\<exists>off' bufs'. singlepart_loop rng off bufs = (off', bufs') \<and>
    passed bufs' = window rng off (concat (map buf_bytes bufs)) \<and>
    (let all = off + int (length (concat (map buf_bytes bufs))) in off' = all \<or> snd rng \<le> off' \<and> snd rng \<le> all)"
  using assms(1)
proof (induction bufs arbitrary: off)
  case Nil
  then show ?case by simp
next
  case (Cons b bs)
  let ?stop = "off + ngx_buf_size b"
  have ok: "buf_ok b" "list_all buf_ok bs" using Cons.prems by simp_all
  have size: "ngx_buf_size b = int (length (buf_bytes b))" by (rule buf_size_bytes [OF ok(1)])
  from Cons.IH [OF ok(2), of ?stop] obtain off' bufs' where ih: "singlepart_loop rng ?stop bs = (off', bufs')"
    "passed bufs' = window rng ?stop (concat (map buf_bytes bs))"
    "off' = ?stop + int (length (concat (map buf_bytes bs))) \<or>
       snd rng \<le> off' \<and> snd rng \<le> ?stop + int (length (concat (map buf_bytes bs)))"
    unfolding Let_def by blast
  have split: "window rng off (concat (map buf_bytes (b # bs))) =
      window rng off (buf_bytes b) @ window rng ?stop (concat (map buf_bytes bs))"
    by (simp add: window_append size)
  have all: "off + int (length (concat (map buf_bytes (b # bs)))) = ?stop + int (length (concat (map buf_bytes bs)))"
    by (simp add: size)
  consider (special) "ngx_buf_special b" | (skip) "\<not> ngx_buf_special b" "snd rng \<le> off \<or> fst rng \<ge> ?stop"
    | (send) "\<not> ngx_buf_special b" "off < snd rng" "fst rng < ?stop" by force
  then show ?case
  proof cases
    case special
    have run: "singlepart_loop rng off (b # bs) = (off', (True, b) # bufs')"
      by (simp only: singlepart_loop.simps Let_def if_P [OF special] ih(1) prod.case)
    have "passed ((True, b) # bufs') = window rng off (concat (map buf_bytes (b # bs)))"
      unfolding split by (simp add: ih(2) special_bytes [OF special])
    then show ?thesis using run ih(3) unfolding all Let_def by blast
  next
    case skip
    have outside: "window rng off (buf_bytes b) = []"
    proof (cases "snd rng \<le> off")
      case True
      then show ?thesis by (rule window_behind)
    next
      case False
      then have "off + int (length (buf_bytes b)) \<le> fst rng" using skip(2) size by linarith
      then show ?thesis by (rule window_before)
    qed
    have "\<exists>b'. singlepart_loop rng off (b # bs) = (off', (False, b') # bufs')"
      by (intro exI) (simp only: singlepart_loop.simps Let_def if_not_P [OF skip(1)] if_P [OF skip(2)] ih(1) prod.case)
    then obtain b' where run: "singlepart_loop rng off (b # bs) = (off', (False, b') # bufs')" by blast
    have "passed ((False, b') # bufs') = window rng off (concat (map buf_bytes (b # bs)))"
      unfolding split by (simp add: ih(2) outside)
    then show ?thesis using run ih(3) unfolding all Let_def by blast
  next
    case send
    define c where "c = (if fst rng > off then fst rng - off else 0)"
    define b1 where "b1 = (if fst rng > off then
         (let b = (if in_file b then b\<lparr>file_pos := file_pos b + (fst rng - off)\<rparr> else b)
          in if in_memory b then b\<lparr>buf_pos := buf_pos b + (fst rng - off)\<rparr> else b)
       else b)"
    have b1: "in_memory b1 = in_memory b" "in_file b1 = in_file b" "buf_mem b1 = buf_mem b" "buf_file b1 = buf_file b"
      "in_memory b \<Longrightarrow> buf_pos b1 = buf_pos b + c" "in_file b \<Longrightarrow> file_pos b1 = file_pos b + c" "buf_last b1 = buf_last b" "file_last b1 = file_last b"
      by (simp_all add: b1_def c_def Let_def)
    have inside: "\<not> (snd rng \<le> off \<or> fst rng \<ge> ?stop)" using send by simp
    have c: "0 \<le> c" "c = int (nat (fst rng - off))" by (simp_all add: c_def)
    show ?thesis
    proof (cases "snd rng \<le> ?stop")
      case True
      define d where "d = ?stop - snd rng"
      define b2 where "b2 = (let b = (if in_file b1 then b1\<lparr>file_last := file_last b1 - (?stop - snd rng)\<rparr> else b1)
         in (if in_memory b then b\<lparr>buf_last := buf_last b - (?stop - snd rng)\<rparr> else b))\<lparr>last_buf := True\<rparr>"
      have run: "singlepart_loop rng off (b # bs) = (?stop, (True, b2) # map (Pair False) bs)"
        by (simp only: singlepart_loop.simps Let_def if_not_P [OF send(1)] if_not_P [OF inside] if_P [OF True] b2_def b1_def)
      have "buf_bytes b2 = drop (nat c) (take (nat (ngx_buf_size b - d)) (buf_bytes b))"
        using True send by (intro buf_inner [OF ok(1) c(1)]) (auto simp: b2_def d_def Let_def b1)
      also have "\<dots> = window rng off (buf_bytes b)" by (simp add: window_def c(2) d_def)
      finally have "passed ((True, b2) # map (Pair False) bs) = window rng off (concat (map buf_bytes (b # bs)))"
        unfolding split using window_behind [OF True] by simp
      then show ?thesis using run True unfolding all Let_def by auto
    next
      case False
      have run: "singlepart_loop rng off (b # bs) = (off', (True, b1) # bufs')"
        by (simp only: singlepart_loop.simps Let_def if_not_P [OF send(1)] if_not_P [OF inside] if_not_P [OF False] b1_def ih(1) prod.case)
      have "buf_bytes b1 = drop (nat c) (take (nat (ngx_buf_size b - 0)) (buf_bytes b))"
        using size by (intro buf_inner [OF ok(1) c(1)]) (auto simp: b1)
      also have "\<dots> = window rng off (buf_bytes b)" using False size by (simp add: window_def c(2))
      finally have "passed ((True, b1) # bufs') = window rng off (concat (map buf_bytes (b # bs)))"
        unfolding split by (simp add: ih(2))
      then show ?thesis using run ih(3) unfolding all Let_def by blast
    qed
  qed
qed

text \<open>A body that comes in several calls.\<close>

fun singlepart_calls :: "int \<times> int \<Rightarrow> int \<Rightarrow> chain_buf list list \<Rightarrow> u_char list" where
  "singlepart_calls rng offset [] = []"
| "singlepart_calls rng offset (bufs # calls) =
     (let (offset, out) = ngx_http_range_singlepart_body rng offset bufs
      in concat (map buf_bytes out) @ singlepart_calls rng offset calls)"

lemma window_behind_all: "snd rng \<le> off \<Longrightarrow> snd rng \<le> off' \<Longrightarrow> window rng off xs = window rng off' xs"
  by (simp add: window_behind)

lemma singlepart_calls_window:
  assumes "list_all (list_all buf_ok) calls" "fst rng < snd rng" "0 \<le> fst rng"
  shows "singlepart_calls rng off calls = window rng off (concat (map buf_bytes (concat calls)))"
  using assms(1)
proof (induction calls arbitrary: off)
  case (Cons bufs calls)
  from singlepart_loop_window [OF _ assms(2,3), of bufs off] Cons.prems obtain off' bufs' where
    1: "singlepart_loop rng off bufs = (off', bufs')" "passed bufs' = window rng off (concat (map buf_bytes bufs))"
    "off' = off + int (length (concat (map buf_bytes bufs))) \<or>
       snd rng \<le> off' \<and> snd rng \<le> off + int (length (concat (map buf_bytes bufs)))"
    by (auto simp: Let_def)
  have "window rng off' xs = window rng (off + int (length (concat (map buf_bytes bufs)))) xs" for xs
    using 1(3) window_behind_all by metis
  then show ?case
    using Cons 1(1,2) by (simp add: ngx_http_range_singlepart_body_def window_append) (simp add: passed_def)
qed simp

subsection \<open>Several ranges: the header and the body\<close>

text \<open>
  The request and its response, as far as the filters use them, and the context of the filter: the
  offset of the body, the header between two parts, and the ranges with their \<open>Content-Range\<close> lines.
\<close>

record range_request =
  http_version :: nat
  is_main :: bool
  allow_ranges :: bool
  single_range :: bool
  max_ranges :: nat
  in_range :: "u_char list option"
  in_if_range :: "u_char list option"
  out_status :: int
  out_length :: int
  out_etag :: "u_char list option"
  out_last_modified :: int
  out_type :: "u_char list"
  out_type_len :: nat
  out_charset :: "u_char list"
  out_accept_ranges :: "u_char list option"
  out_range :: "u_char list option"

record range_ctx =
  ctx_offset :: int
  boundary_header :: "u_char list"
  ctx_ranges :: "((int \<times> int) \<times> u_char list) list"

abbreviation (input) CRLF :: "u_char list" where "CRLF \<equiv> [ch_CR, ch_LF]"

definition ngx_http_range_singlepart_header :: "range_request \<Rightarrow> range_ctx \<Rightarrow> (range_request \<times> range_ctx) option" where
  "ngx_http_range_singlepart_header r ctx =
     (case ctx_ranges ctx of
        [] \<Rightarrow> None
      | ((start, stop), _) # _ \<Rightarrow> do {
          line \<leftarrow> ngx_sprintf (bytes ''bytes %O-%O/%O'') [va_int start, va_int (stop - 1), va_int (out_length r)];
          Some (r\<lparr>out_range := Some line, out_length := stop - start\<rparr>, ctx)
        })"

text \<open>The header between the parts; \<open>boundary\<close> is the number \<open>ngx_next_temp_number\<close> gave.\<close>

definition range_boundary_header :: "64 word \<Rightarrow> range_request \<Rightarrow> u_char list option" where
  "range_boundary_header boundary r =
     (if out_type_len r = length (out_type r) \<and> out_charset r \<noteq> [] then
        ngx_sprintf (CRLF @ bytes ''--%0muA'' @ CRLF @ bytes ''Content-Type: %V; charset=%V'' @ CRLF @ bytes ''Content-Range: bytes '')
          [Va_num boundary, Va_str (Some (out_type r)), Va_str (Some (out_charset r))]
      else if out_type r \<noteq> [] then
        ngx_sprintf (CRLF @ bytes ''--%0muA'' @ CRLF @ bytes ''Content-Type: %V'' @ CRLF @ bytes ''Content-Range: bytes '')
          [Va_num boundary, Va_str (Some (out_type r))]
      else
        ngx_sprintf (CRLF @ bytes ''--%0muA'' @ CRLF @ bytes ''Content-Range: bytes '') [Va_num boundary])"

text \<open>The loop over the ranges: their lines, and the length that is announced.\<close>

fun range_lines :: "int \<Rightarrow> int \<Rightarrow> int \<Rightarrow> ((int \<times> int) \<times> u_char list) list \<Rightarrow> (int \<times> ((int \<times> int) \<times> u_char list) list) option" where
  "range_lines content_length header_len len [] = Some (len, [])"
| "range_lines content_length header_len len (((start, stop), _) # rs) = do {
     line \<leftarrow> ngx_sprintf (bytes ''%O-%O/%O'' @ CRLF @ CRLF) [va_int start, va_int (stop - 1), va_int content_length];
     (len, rs) \<leftarrow> range_lines content_length header_len (u64 (len + header_len + int (length line) + (stop - start))) rs;
     Some (len, ((start, stop), line) # rs)
   }"

definition ngx_http_range_multipart_header :: "64 word \<Rightarrow> range_request \<Rightarrow> range_ctx \<Rightarrow> (range_request \<times> range_ctx) option" where
  "ngx_http_range_multipart_header boundary r ctx = do {
     header \<leftarrow> range_boundary_header boundary r;
     ctype \<leftarrow> ngx_sprintf (bytes ''multipart/byteranges; boundary=%0muA'') [Va_num boundary];
     (len, rs) \<leftarrow> range_lines (out_length r) (int (length header)) (4 + 20 + 4) (ctx_ranges ctx);
     Some (r\<lparr>out_type := ctype, out_type_len := length ctype, out_charset := [], out_length := s64 len\<rparr>,
           ctx\<lparr>boundary_header := header, ctx_ranges := rs\<rparr>)
   }"

definition mem_buf :: "u_char list \<Rightarrow> bool \<Rightarrow> chain_buf" where
  "mem_buf xs lst = \<lparr>buf_mem = xs, buf_file = [], in_memory = True, in_file = False, buf_pos = 0, buf_last = int (length xs),
     file_pos = 0, file_last = 0, buf_flush = False, last_buf = lst, buf_sync = False\<rparr>"

definition range_data_buf :: "chain_buf \<Rightarrow> int \<times> int \<Rightarrow> chain_buf" where
  "range_data_buf buf rng = \<lparr>buf_mem = buf_mem buf, buf_file = buf_file buf, in_memory = in_memory buf, in_file = in_file buf,
     buf_pos = (if in_memory buf then buf_pos buf + fst rng else 0), buf_last = (if in_memory buf then buf_pos buf + snd rng else 0),
     file_pos = (if in_file buf then file_pos buf + fst rng else 0), file_last = (if in_file buf then file_pos buf + snd rng else 0),
     buf_flush = False, last_buf = False, buf_sync = False\<rparr>"

definition ngx_http_range_multipart_body :: "range_ctx \<Rightarrow> chain_buf \<Rightarrow> chain_buf list" where
  "ngx_http_range_multipart_body ctx buf =
     concat (map (\<lambda>(rng, line). [mem_buf (boundary_header ctx) False, mem_buf line False, range_data_buf buf rng]) (ctx_ranges ctx)) @
     [mem_buf (take (4 + 20) (boundary_header ctx) @ [ch_minus, ch_minus] @ CRLF) True]"

definition ngx_http_range_test_overlapped :: "range_ctx \<Rightarrow> chain_buf \<Rightarrow> range_ctx option" where
  "ngx_http_range_test_overlapped ctx buf =
     (if ctx_offset ctx \<noteq> 0 then None
      else
        (let start = ctx_offset ctx; stop = ctx_offset ctx + ngx_buf_size buf
         in if \<not> last_buf buf \<and> list_ex (\<lambda>((a, b), _). start > a \<or> stop < b) (ctx_ranges ctx) then None
            else Some (ctx\<lparr>ctx_offset := ngx_buf_size buf\<rparr>)))"

text \<open>The body filter; \<open>None\<close> is \<open>NGX_ERROR\<close>. The result is the context and the chain for the next filter.\<close>

definition ngx_http_range_body_filter :: "range_ctx option \<Rightarrow> chain_buf list \<Rightarrow> (range_ctx option \<times> chain_buf list) option" where
  "ngx_http_range_body_filter ctx bufs =
     (case (ctx, bufs) of
        (None, _) \<Rightarrow> Some (ctx, bufs)
      | (_, []) \<Rightarrow> Some (ctx, bufs)
      | (Some c, buf # _) \<Rightarrow>
          if length (ctx_ranges c) = 1 then
            (let (offset, out) = ngx_http_range_singlepart_body (fst (hd (ctx_ranges c))) (ctx_offset c) bufs
             in Some (Some (c\<lparr>ctx_offset := offset\<rparr>), out))
          else if ngx_buf_special buf then Some (ctx, bufs)
          else
            (case ngx_http_range_test_overlapped c buf of
               None \<Rightarrow> None
             | Some c \<Rightarrow> Some (Some c, ngx_http_range_multipart_body c buf)))"

subsection \<open>The header filter\<close>

fun ngx_strncasecmp :: "u_char list \<Rightarrow> u_char list \<Rightarrow> nat \<Rightarrow> int option" where
  "ngx_strncasecmp s1 s2 0 = Some 0"
| "ngx_strncasecmp (a # s1) (b # s2) (Suc n) =
     (let c1 = (if a \<ge> ch_A \<and> a \<le> ch_Z then a OR 0x20 else a);
          c2 = (if b \<ge> ch_A \<and> b \<le> ch_Z then b OR 0x20 else b)
      in if c1 = c2 then (if c1 \<noteq> ch_NUL then ngx_strncasecmp s1 s2 n else Some 0)
         else Some (uint c1 - uint c2))"
| "ngx_strncasecmp _ _ (Suc n) = None"

datatype header_result = Next_filter range_request "range_ctx option" | Return int range_request

text \<open>\<open>If-Range\<close>: an entity tag or a date; whether the ranges are to be parsed.\<close>

definition if_range_holds :: "range_request \<Rightarrow> bool option" where
  "if_range_holds r =
     (case in_if_range r of
        None \<Rightarrow> Some True
      | Some v \<Rightarrow>
          if length v \<ge> 2 \<and> last v = ch_quot then
            Some (case out_etag r of
                None \<Rightarrow> False
              | Some etag \<Rightarrow> length v = length etag \<and> takeWhile (\<lambda>c. c \<noteq> ch_NUL) v = takeWhile (\<lambda>c. c \<noteq> ch_NUL) etag)
          else if out_last_modified r = - 1 then Some False
          else do { t \<leftarrow> ngx_parse_http_time v; Some (t = out_last_modified r) })"

definition ngx_http_range_not_satisfiable :: "range_request \<Rightarrow> header_result option" where
  "ngx_http_range_not_satisfiable r = do {
     line \<leftarrow> ngx_sprintf (bytes ''bytes */%O'') [va_int (out_length r)];
     Some (Return 416 (r\<lparr>out_status := 416, out_range := Some line, out_length := - 1\<rparr>))
   }"

definition ngx_http_range_header_filter :: "64 word \<Rightarrow> range_request \<Rightarrow> header_result option" where
  "ngx_http_range_header_filter boundary r =
     (if http_version r < 1000 \<or> out_status r \<noteq> 200 \<or> \<not> is_main r \<or> out_length r = - 1 \<or> \<not> allow_ranges r then
        Some (Next_filter r None)
      else if max_ranges r = 0 then Some (Next_filter r None)
      else
        (let next = Next_filter (r\<lparr>out_accept_ranges := Some (bytes ''bytes'')\<rparr>) None
         in case in_range r of
              None \<Rightarrow> Some next
            | Some v \<Rightarrow>
                if length v < 7 then Some next
                else do {
                  d \<leftarrow> ngx_strncasecmp v (bytes ''bytes='') 6;
                  parse \<leftarrow> (if d \<noteq> 0 then Some False else if_range_holds r);
                  if \<not> parse then Some next
                  else do {
                    (rc, elts) \<leftarrow> ngx_http_range_parse (out_length r) (if single_range r then 1 else max_ranges r) v;
                    if rc = NGX_OK then do {
                      let ctx = \<lparr>ctx_offset = 0, boundary_header = [], ctx_ranges = map (\<lambda>rng. (rng, [])) elts\<rparr>;
                      (r, ctx) \<leftarrow>
                        (let r = r\<lparr>out_status := 206\<rparr>
                         in if length elts = 1 then ngx_http_range_singlepart_header r ctx
                            else ngx_http_range_multipart_header boundary r ctx);
                      Some (Next_filter r (Some ctx))
                    }
                    else if rc = NGX_HTTP_RANGE_NOT_SATISFIABLE then ngx_http_range_not_satisfiable r
                    else Some next
                  }
                }))"

subsection \<open>The response\<close>

lemma byte_range_part:
  assumes "p + b \<le> q"
  shows "byte_range xs (p + a) (p + b) = drop a (take b (byte_range xs p q))"
proof -
  have "take b (byte_range xs p q) = take b (drop p xs)" using assms by (simp add: byte_range_def min_def)
  then show ?thesis by (simp add: byte_range_def drop_take add.commute)
qed

definition body_buf :: "chain_buf \<Rightarrow> bool" where
  "body_buf b \<longleftrightarrow> buf_ok b \<and> \<not> ngx_buf_special b \<and> last_buf b"

lemma range_data_bytes:
  assumes "buf_ok b" "\<not> ngx_buf_special b" "0 \<le> fst rng" "fst rng < snd rng" "snd rng \<le> int (length (buf_bytes b))"
  shows "buf_bytes (range_data_buf b rng) = window rng 0 (buf_bytes b)"
proof -
  have size: "snd rng \<le> ngx_buf_size b" using assms(1,5) buf_size_bytes by simp
  have part: "byte_range xs (nat (p + fst rng)) (nat (p + snd rng)) = window rng 0 (byte_range xs (nat p) (nat q))"
    if "0 \<le> p" "p + snd rng \<le> q" for xs p q
  proof -
    have "nat (p + fst rng) = nat p + nat (fst rng)" "nat (p + snd rng) = nat p + nat (snd rng)" "nat p + nat (snd rng) \<le> nat q"
      using that assms(3,4) by simp_all
    then show ?thesis by (simp add: byte_range_part [of _ _ "nat q"] window_def)
  qed
  show ?thesis
  proof (cases "in_memory b")
    case True
    then show ?thesis using assms(1) size part [of "buf_pos b" "buf_last b"]
      by (simp add: range_data_buf_def buf_bytes_def buf_ok_def ngx_buf_size_def)
  next
    case False
    then show ?thesis using assms(1,2) size part [of "file_pos b" "file_last b"]
      by (auto simp: range_data_buf_def buf_bytes_def buf_ok_def ngx_buf_size_def)
  qed
qed

lemma mem_buf_bytes [simp]: "buf_bytes (mem_buf xs l) = xs"
  by (simp add: mem_buf_def buf_bytes_def byte_range_def)

lemma length_window:
  assumes "0 \<le> fst rng" "fst rng < snd rng" "snd rng \<le> int (length xs)"
  shows "int (length (window rng 0 xs)) = snd rng - fst rng"
proof -
  have "min (length xs) (nat (snd rng)) = nat (snd rng)" using assms by simp
  then show ?thesis using assms by (simp add: window_def)
qed

text \<open>What the two filters make of a body, given the lines between the parts.\<close>

definition multipart_bytes :: "range_ctx \<Rightarrow> u_char list \<Rightarrow> u_char list" where
  "multipart_bytes ctx body =
     concat (map (\<lambda>(rng, line). boundary_header ctx @ line @ window rng 0 body) (ctx_ranges ctx)) @
     take 24 (boundary_header ctx) @ [ch_minus, ch_minus] @ CRLF"

lemma multipart_body_bytes:
  assumes "buf_ok b" "\<not> ngx_buf_special b"
    and "list_all (\<lambda>((x, y), line). 0 \<le> x \<and> x < y \<and> y \<le> int (length (buf_bytes b))) (ctx_ranges ctx)"
  shows "concat (map buf_bytes (ngx_http_range_multipart_body ctx b)) = multipart_bytes ctx (buf_bytes b)"
proof -
  have "concat (map buf_bytes (concat (map (\<lambda>(rng, line). [mem_buf h False, mem_buf line False, range_data_buf b rng]) rs))) =
      concat (map (\<lambda>(rng, line). h @ line @ window rng 0 (buf_bytes b)) rs)"
    if "list_all (\<lambda>((x, y), line). 0 \<le> x \<and> x < y \<and> y \<le> int (length (buf_bytes b))) rs" for h rs
    using that by (induction rs) (auto simp: range_data_bytes [OF assms(1,2)])
  from this [OF assms(3)] show ?thesis by (simp add: ngx_http_range_multipart_body_def multipart_bytes_def)
qed

text \<open>The announced length.\<close>

lemma u64_add: "u64 (u64 x + y) = u64 (x + y)"
  by (simp add: u64_def mod_simps)

lemma range_lines_length:
  "range_lines cl h len rs = Some (len', rs') \<Longrightarrow> len = u64 len0 \<Longrightarrow>
    map fst rs' = map fst rs \<and> len' = u64 (len0 + (\<Sum>((a, b), line) \<leftarrow> rs'. h + int (length line) + (b - a)))"
proof (induction cl h len rs arbitrary: len0 len' rs' rule: range_lines.induct)
  case (2 cl h len a b x rs)
  from 2(2) obtain line rs1 where 1: "rs' = ((a, b), line) # rs1"
    "range_lines cl h (u64 (len + h + int (length line) + (b - a))) rs = Some (len', rs1)"
    "ngx_sprintf (bytes ''%O-%O/%O'' @ CRLF @ CRLF) [va_int a, va_int (b - 1), va_int cl] = Some line"
    by (auto simp: bind_eq_Some_conv simp del: bytes_simps append.simps)
  have "u64 (len + h + int (length line) + (b - a)) = u64 (len0 + (h + int (length line) + (b - a)))"
    using u64_add [of len0 "h + int (length line) + (b - a)"] by (simp add: 2(3) algebra_simps)
  from 2(1) [OF 1(3,2) this] show ?case by (simp add: 1(1) algebra_simps)
qed auto

lemma length_dec: "n < 18446744073709551616 \<Longrightarrow> length (padded ch_0 20 n) = 20"
  using sprintf_dec_length [of n 20] by (simp add: padded_def)

text \<open>\<open>%0muA\<close> prints 20 digits.\<close>

lemma prints_0muA:
  assumes "prints fmt args out"
  shows "prints (ch_percent # ch_0 # of_char CHR ''m'' # of_char CHR ''u'' # of_char CHR ''A'' # fmt) (Va_num n # args)
    (padded ch_0 20 (unat n) @ out)"
proof -
  have "uint n = int (unat n)" "unat n < 18446744073709551616" using unsigned_less [of n] by simp_all
  then have "print_num room \<lparr>pad_char = ch_0, pad_width = 20, is_signed = False, hex_mode = 0, max_width = True, slen = None\<rparr> (uint n) =
      take room (padded ch_0 20 (unat n))" for room
    using print_num_padded [of "unat n"] by simp
  then show ?thesis
    by (auto intro!: prints_conv [OF _ assms]
        simp: fmt_conversion_def convert_def is_num_conversion_def num_value_def num64_def)
qed

text \<open>Numbers in decimal, a \<open>Content-Range\<close>, and the header of a part, as RFC 7233 writes them.\<close>

fun decimal :: "nat \<Rightarrow> u_char list" where
  "decimal n = (if n < 10 then [] else decimal (n div 10)) @ [digit_char (n mod 10)]"

declare decimal.simps [simp del]

lemma decimal_printed: "sprintf_dec n [] = decimal n"
  by (induction n rule: decimal.induct) (simp add: sprintf_dec_unfold decimal.simps)

lemma decimal_length: "n < 18446744073709551616 \<Longrightarrow> length (decimal n) \<le> 20"
  using sprintf_dec_length [of n 20] by (simp add: decimal_printed)

definition twenty :: "nat \<Rightarrow> u_char list" where
  "twenty n = replicate (20 - length (decimal n)) ch_0 @ decimal n"

lemma padded_decimal: "padded ch_SP 0 n = decimal n" "padded ch_0 20 n = twenty n"
  by (simp_all add: padded_def decimal_printed twenty_def)

definition content_range :: "int \<times> int \<Rightarrow> int \<Rightarrow> u_char list" where
  "content_range rng cl =
     decimal (nat (fst rng)) @ bytes ''-'' @ decimal (nat (snd rng - 1)) @ bytes ''/'' @ decimal (nat cl)"

definition part_header :: "64 word \<Rightarrow> range_request \<Rightarrow> u_char list" where
  "part_header boundary r = CRLF @ bytes ''--'' @ twenty (unat boundary) @ CRLF @
     (if out_type_len r = length (out_type r) \<and> out_charset r \<noteq> []
      then bytes ''Content-Type: '' @ out_type r @ bytes ''; charset='' @ out_charset r @ CRLF
      else if out_type r \<noteq> [] then bytes ''Content-Type: '' @ out_type r @ CRLF else []) @
     bytes ''Content-Range: bytes ''"

definition multipart_response :: "64 word \<Rightarrow> range_request \<Rightarrow> u_char list \<Rightarrow> (int \<times> int) list \<Rightarrow> u_char list" where
  "multipart_response boundary r body ranges =
     concat (map (\<lambda>rng. part_header boundary r @ content_range rng (int (length body)) @ CRLF @ CRLF @ window rng 0 body) ranges) @
     CRLF @ bytes ''--'' @ twenty (unat boundary) @ bytes ''--'' @ CRLF"

lemma sprintf_prints: "prints fmt args out \<Longrightarrow> ngx_sprintf fmt args = Some (take 18446744073709551615 out)"
  by (simp add: prints_def ngx_sprintf_def)

lemma prints_off_t:
  assumes "prints fmt args out" "0 \<le> i" "i \<le> NGX_MAX_INT_T_VALUE"
  shows "prints (ch_percent # of_char CHR ''O'' # fmt) (va_int i # args) (decimal (nat i) @ out)"
proof -
  have "(word_of_int i :: 64 word) = word_of_nat (nat i)" using assms(2) by simp
  then show ?thesis using prints_O [OF assms(1), of "nat i"] assms(3) by (simp add: padded_decimal)
qed

lemma twenty_length: "n < 18446744073709551616 \<Longrightarrow> length (twenty n) = 20"
  using decimal_length [of n] by (simp add: twenty_def)

lemma content_range_length:
  assumes "snd rng - 1 \<le> NGX_MAX_INT_T_VALUE" "fst rng \<le> NGX_MAX_INT_T_VALUE" "cl \<le> NGX_MAX_INT_T_VALUE"
  shows "length (content_range rng cl) \<le> 62"
proof -
  have small: "length (decimal (nat x)) \<le> 20" if "x \<le> NGX_MAX_INT_T_VALUE" for x
    by (rule decimal_length) (use that in linarith)
  show ?thesis using small [OF assms(1)] small [OF assms(2)] small [OF assms(3)] by (simp add: content_range_def)
qed

lemma boundary_header_exact: "range_boundary_header boundary r = Some (take 18446744073709551615 (part_header boundary r))"
proof -
  have head: "ngx_sprintf (CRLF @ bytes ''--%0muA'' @ fmt) (Va_num boundary # args) =
      Some (take 18446744073709551615 (CRLF @ bytes ''--'' @ twenty (unat boundary) @ rest))"
    if "prints fmt args rest" for fmt args rest
  proof (rule sprintf_prints)
    show "prints (CRLF @ bytes ''--%0muA'' @ fmt) (Va_num boundary # args) (CRLF @ bytes ''--'' @ twenty (unat boundary) @ rest)"
      using prints_0muA [OF that] prints_char by (simp add: padded_decimal)
  qed
  have p: "prints (CRLF @ bytes ''Content-Range: bytes '') [] (CRLF @ bytes ''Content-Range: bytes '')"
    using prints_char prints_end by simp
  have t: "prints (CRLF @ bytes ''Content-Type: %V'' @ CRLF @ bytes ''Content-Range: bytes '') [Va_str (Some a)]
      (CRLF @ bytes ''Content-Type: '' @ a @ CRLF @ bytes ''Content-Range: bytes '')" for a
    by simp (intro prints_V [simplified] prints_char prints_end; simp)
  have c: "prints (CRLF @ bytes ''Content-Type: %V; charset=%V'' @ CRLF @ bytes ''Content-Range: bytes '') [Va_str (Some a), Va_str (Some b)]
      (CRLF @ bytes ''Content-Type: '' @ a @ bytes ''; charset='' @ b @ CRLF @ bytes ''Content-Range: bytes '')" for a b
    by simp (intro prints_V [simplified] prints_char prints_end; simp)
  show ?thesis
    unfolding range_boundary_header_def part_header_def
    by (simp del: bytes_simps append.simps take_append add: head [OF p] head [OF t] head [OF c] append_Nil)
qed

lemma part_header_start:
  "24 \<le> length (part_header boundary r)" "take 24 (part_header boundary r) = CRLF @ bytes ''--'' @ twenty (unat boundary)"
proof -
  have len: "length (CRLF @ bytes ''--'' @ twenty (unat boundary)) = 24"
    using twenty_length [of "unat boundary"] unsigned_less [of boundary] by simp
  obtain rest where rest: "part_header boundary r = (CRLF @ bytes ''--'' @ twenty (unat boundary)) @ rest"
    unfolding part_header_def append_assoc by blast
  show "24 \<le> length (part_header boundary r)" unfolding rest by (subst length_append) (simp only: len le_add1)
  show "take 24 (part_header boundary r) = CRLF @ bytes ''--'' @ twenty (unat boundary)"
    unfolding rest using len by (metis append_eq_conv_conj)
qed

lemma range_line_printed:
  assumes "0 \<le> a" "a < b" "b \<le> cl" "cl \<le> NGX_MAX_INT_T_VALUE"
  shows "ngx_sprintf (bytes ''%O-%O/%O'' @ CRLF @ CRLF) [va_int a, va_int (b - 1), va_int cl] = Some (content_range (a, b) cl @ CRLF @ CRLF)"
    "ngx_sprintf (bytes ''bytes %O-%O/%O'') [va_int a, va_int (b - 1), va_int cl] = Some (bytes ''bytes '' @ content_range (a, b) cl)"
proof -
  have percent: "of_char CHR ''%'' = ch_percent" by simp
  have r: "0 \<le> a" "a \<le> NGX_MAX_INT_T_VALUE" "0 \<le> b - 1" "b - 1 \<le> NGX_MAX_INT_T_VALUE" "0 \<le> cl" using assms by linarith+
  have len: "length (content_range (a, b) cl) \<le> 62" by (rule content_range_length) (use r assms(4) in simp_all)
  have "prints (bytes ''%O-%O/%O'' @ CRLF @ CRLF) [va_int a, va_int (b - 1), va_int cl]
      (decimal (nat a) @ bytes ''-'' @ decimal (nat (b - 1)) @ bytes ''/'' @ decimal (nat cl) @ CRLF @ CRLF)"
    unfolding bytes_simps append.simps percent
    by (intro prints_char prints_off_t prints_end r assms(4)) simp_all
  from sprintf_prints [OF this] len
  show "ngx_sprintf (bytes ''%O-%O/%O'' @ CRLF @ CRLF) [va_int a, va_int (b - 1), va_int cl] = Some (content_range (a, b) cl @ CRLF @ CRLF)"
    by (simp add: content_range_def)
  have "prints (bytes ''bytes %O-%O/%O'') [va_int a, va_int (b - 1), va_int cl]
      (bytes ''bytes '' @ decimal (nat a) @ bytes ''-'' @ decimal (nat (b - 1)) @ bytes ''/'' @ decimal (nat cl) @ [])"
    unfolding bytes_simps append.simps percent
    by (intro prints_char prints_off_t prints_end r assms(4)) simp_all
  from sprintf_prints [OF this] len
  show "ngx_sprintf (bytes ''bytes %O-%O/%O'') [va_int a, va_int (b - 1), va_int cl] = Some (bytes ''bytes '' @ content_range (a, b) cl)"
    by (simp add: content_range_def)
qed

lemma header_filter_ranges:
  assumes "ngx_http_range_header_filter boundary r = Some (Next_filter r' (Some ctx))"
  obtains v elts where "in_range r = Some v" "7 \<le> length v" "out_length r \<noteq> - 1"
    "ngx_http_range_parse (out_length r) (if single_range r then 1 else max_ranges r) v = Some (NGX_OK, elts)"
    "(if length elts = 1 then ngx_http_range_singlepart_header else ngx_http_range_multipart_header boundary) (r\<lparr>out_status := 206\<rparr>)
       \<lparr>ctx_offset = 0, boundary_header = [], ctx_ranges = map (\<lambda>rng. (rng, [])) elts\<rparr> = Some (r', ctx)"
proof -
  obtain v where v: "in_range r = Some v" "7 \<le> length v" "out_length r \<noteq> - 1"
    using assms by (auto simp: ngx_http_range_header_filter_def Let_def split: if_splits option.splits)
  from assms v obtain rc elts where p:
    "ngx_http_range_parse (out_length r) (if single_range r then 1 else max_ranges r) v = Some (rc, elts)"
    by (auto simp: ngx_http_range_header_filter_def Let_def bind_eq_Some_conv split: if_splits)
  moreover have "rc = NGX_OK"
    using assms v p by (auto simp: ngx_http_range_header_filter_def ngx_http_range_not_satisfiable_def Let_def bind_eq_Some_conv
        simp del: bytes_simps split: if_splits)
  moreover have "(if length elts = 1 then ngx_http_range_singlepart_header else ngx_http_range_multipart_header boundary) (r\<lparr>out_status := 206\<rparr>)
       \<lparr>ctx_offset = 0, boundary_header = [], ctx_ranges = map (\<lambda>rng. (rng, [])) elts\<rparr> = Some (r', ctx)"
    using assms v p \<open>rc = NGX_OK\<close> by (auto simp: ngx_http_range_header_filter_def Let_def bind_eq_Some_conv
        simp del: bytes_simps split: if_splits)
  ultimately show thesis using that v by blast
qed

definition inside :: "int \<Rightarrow> int \<times> int \<Rightarrow> bool" where
  "inside cl = (\<lambda>(a, b). 0 \<le> a \<and> a < b \<and> b \<le> cl)"

lemma singlepart_header_sets:
  assumes "ngx_http_range_singlepart_header r ctx = Some (r', ctx')" "ctx_ranges ctx = [(rng, line)]"
    and "inside (out_length r) rng" "out_length r \<le> NGX_MAX_INT_T_VALUE"
  shows "ctx' = ctx \<and> out_length r' = snd rng - fst rng \<and> out_status r' = out_status r \<and>
    out_range r' = Some (bytes ''bytes '' @ content_range rng (out_length r))"
proof -
  obtain a b where rng: "rng = (a, b)" by (cases rng)
  have "0 \<le> a" "a < b" "b \<le> out_length r" using assms(3) by (simp_all add: inside_def rng)
  note line = range_line_printed(2) [OF this assms(4)]
  show ?thesis using assms(1) unfolding ngx_http_range_singlepart_header_def assms(2) rng list.case prod.case line bind.simps
    by (auto simp del: bytes_simps)
qed

lemma range_lines_exact:
  "list_all (\<lambda>x. inside cl (fst x)) rs \<Longrightarrow> cl \<le> NGX_MAX_INT_T_VALUE \<Longrightarrow> range_lines cl h len rs = Some (len', rs') \<Longrightarrow>
   rs' = map (\<lambda>(rng, _). (rng, content_range rng cl @ CRLF @ CRLF)) rs"
proof (induction cl h len rs arbitrary: len' rs' rule: range_lines.induct)
  case (2 cl h len a b x rs)
  have "0 \<le> a" "a < b" "b \<le> cl" using 2(2) by (simp_all add: inside_def)
  note line = range_line_printed(1) [OF this 2(3)]
  from 2(4) line obtain rs1 where 1: "rs' = ((a, b), content_range (a, b) cl @ CRLF @ CRLF) # rs1"
    "range_lines cl h (u64 (len + h + int (length (content_range (a, b) cl @ CRLF @ CRLF)) + (b - a))) rs = Some (len', rs1)"
    by (auto simp: bind_eq_Some_conv simp del: bytes_simps append.simps)
  have "list_all (\<lambda>x. inside cl (fst x)) rs" using 2(2) by simp
  from 2(1) [OF line this 2(3) 1(2)] show ?case by (simp only: 1(1) list.map prod.case)
qed simp

lemma multipart_header_sets:
  assumes "ngx_http_range_multipart_header boundary r ctx = Some (r', ctx')"
    and "list_all (\<lambda>x. inside (out_length r) (fst x)) (ctx_ranges ctx)" "out_length r \<le> NGX_MAX_INT_T_VALUE"
    and "length (out_type r) + length (out_charset r) < 9223372036854775808"
  shows "ctx_ranges ctx' = map (\<lambda>(rng, _). (rng, content_range rng (out_length r) @ CRLF @ CRLF)) (ctx_ranges ctx)"
    "ctx_offset ctx' = ctx_offset ctx" "boundary_header ctx' = part_header boundary r" "out_status r' = out_status r"
    "out_type r' = bytes ''multipart/byteranges; boundary='' @ twenty (unat boundary)"
    "out_length r' = s64 (u64 (28 + (\<Sum>((a, b), line) \<leftarrow> ctx_ranges ctx'. int (length (boundary_header ctx')) + int (length line) + (b - a))))"
proof -
  from assms(1) obtain header ctype len rs where 1: "range_boundary_header boundary r = Some header"
    "ngx_sprintf (bytes ''multipart/byteranges; boundary=%0muA'') [Va_num boundary] = Some ctype"
    "range_lines (out_length r) (int (length header)) (4 + 20 + 4) (ctx_ranges ctx) = Some (len, rs)"
    "ctx' = ctx\<lparr>boundary_header := header, ctx_ranges := rs\<rparr>"
    "r' = r\<lparr>out_type := ctype, out_type_len := length ctype, out_charset := [], out_length := s64 len\<rparr>"
    by (auto simp: ngx_http_range_multipart_header_def bind_eq_Some_conv simp del: bytes_simps)
  have bound: "length (twenty (unat boundary)) = 20" using unsigned_less [of boundary] by (intro twenty_length) simp
  have "length (part_header boundary r) \<le> 18446744073709551615"
    using assms(4) bound by (simp add: part_header_def)
  then have "header = part_header boundary r" using 1(1) by (simp add: boundary_header_exact)
  moreover have percent: "of_char CHR ''%'' = ch_percent" "of_char CHR ''0'' = ch_0" by simp_all
  have "prints (bytes ''multipart/byteranges; boundary=%0muA'') [Va_num boundary] (bytes ''multipart/byteranges; boundary='' @ padded ch_0 20 (unat boundary) @ [])"
    unfolding bytes_simps append.simps percent by (intro prints_char prints_0muA prints_end) simp_all
  from sprintf_prints [OF this] have "ctype = bytes ''multipart/byteranges; boundary='' @ twenty (unat boundary)"
    using 1(2) bound by (simp add: padded_decimal)
  moreover have "4 + 20 + 4 = u64 28" by simp
  note range_lines_length [OF 1(3) this] range_lines_exact [OF assms(2,3) 1(3)]
  ultimately show "ctx_ranges ctx' = map (\<lambda>(rng, _). (rng, content_range rng (out_length r) @ CRLF @ CRLF)) (ctx_ranges ctx)"
    "ctx_offset ctx' = ctx_offset ctx" "boundary_header ctx' = part_header boundary r" "out_status r' = out_status r"
    "out_type r' = bytes ''multipart/byteranges; boundary='' @ twenty (unat boundary)"
    "out_length r' = s64 (u64 (28 + (\<Sum>((a, b), line) \<leftarrow> ctx_ranges ctx'. int (length (boundary_header ctx')) + int (length line) + (b - a))))"
    by (simp_all add: 1(4,5))
qed

lemma s64_u64: "s64 (u64 x) = s64 x"
  by (simp add: s64_def u64_def mod_simps)

lemma multipart_length:
  assumes "list_all (\<lambda>((x, y), line). 0 \<le> x \<and> x < y \<and> y \<le> int (length body)) (ctx_ranges ctx)" "24 \<le> length (boundary_header ctx)"
  shows "int (length (multipart_bytes ctx body)) =
    28 + (\<Sum>((a, b), line) \<leftarrow> ctx_ranges ctx. int (length (boundary_header ctx)) + int (length line) + (b - a))"
proof -
  have "int (length (concat (map (\<lambda>(rng, line). h @ line @ window rng 0 body) rs))) =
      (\<Sum>((a, b), line) \<leftarrow> rs. int (length h) + int (length line) + (b - a))"
    if "list_all (\<lambda>((x, y), line). 0 \<le> x \<and> x < y \<and> y \<le> int (length body)) rs" for h rs
    using that
  proof (induction rs)
    case (Cons x rs)
    then show ?case using length_window [of "fst x" body] by (cases x) (auto simp: case_prod_beta)
  qed simp
  from this [OF assms(1)] show ?thesis using assms(2) by (simp add: multipart_bytes_def)
qed

lemma singlepart_one:
  assumes "buf_ok b" "0 \<le> fst rng" "fst rng < snd rng"
  shows "concat (map buf_bytes (snd (ngx_http_range_singlepart_body rng 0 [b]))) = window rng 0 (buf_bytes b)"
  using singlepart_calls_window [of "[[b]]" rng 0] assms by (simp add: case_prod_beta)

lemma range_lines_keeps: "range_lines cl h len rs = Some (len', rs') \<Longrightarrow> map fst rs' = map fst rs"
  by (induction cl h len rs arbitrary: len' rs' rule: range_lines.induct)
    (auto simp: bind_eq_Some_conv simp del: bytes_simps append.simps)

lemma header_keeps_ranges:
  assumes "(if length elts = 1 then ngx_http_range_singlepart_header else ngx_http_range_multipart_header boundary) r
       \<lparr>ctx_offset = 0, boundary_header = [], ctx_ranges = map (\<lambda>rng. (rng, [])) elts\<rparr> = Some (r', ctx)"
  shows "map fst (ctx_ranges ctx) = elts"
proof (cases "length elts = 1")
  case True
  then show ?thesis using assms
    by (auto simp: ngx_http_range_singlepart_header_def bind_eq_Some_conv comp_def length_Suc_conv simp del: bytes_simps split: prod.splits)
next
  case False
  then show ?thesis using assms
    by (auto simp: ngx_http_range_multipart_header_def bind_eq_Some_conv comp_def simp del: bytes_simps dest!: range_lines_keeps)
qed

lemma part_header_status [simp]: "part_header boundary (r\<lparr>out_status := s\<rparr>) = part_header boundary r"
  by (simp add: part_header_def)

lemma multipart_bytes_response:
  assumes "ctx_ranges ctx = map (\<lambda>rng. (rng, content_range rng (int (length body)) @ CRLF @ CRLF)) ranges"
    and "boundary_header ctx = part_header boundary r"
  shows "multipart_bytes ctx body = multipart_response boundary r body ranges"
  by (simp add: multipart_bytes_def multipart_response_def assms part_header_start(2) comp_def)

text \<open>What the two filters make of a response in one buffer.\<close>

definition range_response ::
  "64 word \<Rightarrow> range_request \<Rightarrow> u_char list \<Rightarrow> (int \<times> int) list \<Rightarrow> range_request \<Rightarrow> u_char list \<Rightarrow> bool"
where
  "range_response boundary r body ranges r' sent \<longleftrightarrow> out_status r' = 206 \<and>
     (case ranges of
        [rng] \<Rightarrow> out_range r' = Some (bytes ''bytes '' @ content_range rng (int (length body))) \<and> sent = window rng 0 body
      | _ \<Rightarrow> out_type r' = bytes ''multipart/byteranges; boundary='' @ twenty (unat boundary) \<and>
          sent = multipart_response boundary r body ranges) \<and>
     (int (length sent) \<le> NGX_MAX_INT_T_VALUE \<longrightarrow> out_length r' = int (length sent))"

lemma single_response:
  assumes "ngx_http_range_singlepart_header (r\<lparr>out_status := 206\<rparr>) \<lparr>ctx_offset = 0, boundary_header = [], ctx_ranges = [(rng, [])]\<rparr> = Some (r', ctx)"
    and "out_length r = int (length body)" "int (length body) \<le> NGX_MAX_INT_T_VALUE" "inside (int (length body)) rng"
    and "buf_ok b" "buf_bytes b = body"
  obtains ctx' out where "ngx_http_range_body_filter (Some ctx) [b] = Some (ctx', out)"
    "range_response boundary r body [rng] r' (concat (map buf_bytes out))"
proof -
  have ctx: "ctx = \<lparr>ctx_offset = 0, boundary_header = [], ctx_ranges = [(rng, [])]\<rparr>" "out_length r' = snd rng - fst rng"
    "out_status r' = 206" "out_range r' = Some (bytes ''bytes '' @ content_range rng (int (length body)))"
    using singlepart_header_sets [OF assms(1)] assms(2-4) by simp_all
  have "0 \<le> fst rng" "fst rng < snd rng" "snd rng \<le> int (length body)" using assms(4) by (auto simp: inside_def)
  then have sent: "concat (map buf_bytes (snd (ngx_http_range_singlepart_body rng 0 [b]))) = window rng 0 body"
    "int (length (window rng 0 body)) = snd rng - fst rng"
    using singlepart_one [OF assms(5)] length_window assms(6) by auto
  show thesis
  proof (rule that)
    show "ngx_http_range_body_filter (Some ctx) [b] =
        Some (Some (ctx\<lparr>ctx_offset := fst (ngx_http_range_singlepart_body rng 0 [b])\<rparr>), snd (ngx_http_range_singlepart_body rng 0 [b]))"
      by (simp add: ngx_http_range_body_filter_def ctx(1) case_prod_beta)
    show "range_response boundary r body [rng] r' (concat (map buf_bytes (snd (ngx_http_range_singlepart_body rng 0 [b]))))"
      unfolding range_response_def sent(1) by (simp add: ctx(2-4) sent(2))
  qed
qed

lemma multi_response:
  assumes "ngx_http_range_multipart_header boundary (r\<lparr>out_status := 206\<rparr>)
       \<lparr>ctx_offset = 0, boundary_header = [], ctx_ranges = map (\<lambda>rng. (rng, [])) elts\<rparr> = Some (r', ctx)"
    and "out_length r = int (length body)" "int (length body) \<le> NGX_MAX_INT_T_VALUE" "list_all (inside (int (length body))) elts"
    and "length elts \<noteq> 1" "buf_ok b" "\<not> ngx_buf_special b" "last_buf b" "buf_bytes b = body"
    and "length (out_type r) + length (out_charset r) < 9223372036854775808"
  obtains ctx' out where "ngx_http_range_body_filter (Some ctx) [b] = Some (ctx', out)"
    "range_response boundary r body elts r' (concat (map buf_bytes out))"
proof -
  have "list_all (\<lambda>x. inside (int (length body)) (fst x)) (map (\<lambda>rng. (rng, [] :: u_char list)) elts)"
    using assms(4) by (simp add: list.pred_map comp_def)
  from multipart_header_sets [OF assms(1)] this assms(2,3,10)
  have m: "ctx_ranges ctx = map (\<lambda>rng. (rng, content_range rng (int (length body)) @ CRLF @ CRLF)) elts"
    "ctx_offset ctx = 0" "boundary_header ctx = part_header boundary r" "out_status r' = 206"
    "out_type r' = bytes ''multipart/byteranges; boundary='' @ twenty (unat boundary)"
    "out_length r' = s64 (u64 (28 + (\<Sum>((a, b), line) \<leftarrow> ctx_ranges ctx. int (length (boundary_header ctx)) + int (length line) + (b - a))))"
    by (simp_all add: comp_def del: bytes_simps)
  have parts: "list_all (\<lambda>((x, y), line). 0 \<le> x \<and> x < y \<and> y \<le> int (length body)) (ctx_ranges ctx)"
    using assms(4) unfolding m(1) by (auto simp: list_all_iff inside_def)
  let ?c = "ctx\<lparr>ctx_offset := ngx_buf_size b\<rparr>"
  have "ngx_http_range_test_overlapped ctx b = Some ?c"
    using m(2) assms(8) by (simp add: ngx_http_range_test_overlapped_def)
  then have run: "ngx_http_range_body_filter (Some ctx) [b] = Some (Some ?c, ngx_http_range_multipart_body ?c b)"
    using assms(5,7) by (simp add: ngx_http_range_body_filter_def m(1))
  have sent: "concat (map buf_bytes (ngx_http_range_multipart_body ?c b)) = multipart_bytes ctx body"
    using multipart_body_bytes [OF assms(6,7), of ?c] parts assms(9) by (simp add: multipart_bytes_def)
  have "int (length (multipart_bytes ctx body)) =
      28 + (\<Sum>((a, b), line) \<leftarrow> ctx_ranges ctx. int (length (boundary_header ctx)) + int (length line) + (b - a))"
    by (rule multipart_length [OF parts]) (simp add: m(3) part_header_start(1))
  then have len: "out_length r' = s64 (int (length (multipart_bytes ctx body)))" using m(6) by (simp only: s64_u64)
  show thesis
  proof (rule that [OF run])
    have "(case elts of [rng] \<Rightarrow> out_range r' = Some (bytes ''bytes '' @ content_range rng (int (length body))) \<and>
          multipart_bytes ctx body = window rng 0 body
        | _ \<Rightarrow> out_type r' = bytes ''multipart/byteranges; boundary='' @ twenty (unat boundary) \<and>
          multipart_bytes ctx body = multipart_response boundary r body elts)"
      using assms(5) m(5) multipart_bytes_response [OF m(1,3)] by (auto simp del: bytes_simps split: list.splits)
    then show "range_response boundary r body elts r' (concat (map buf_bytes (ngx_http_range_multipart_body ?c b)))"
      unfolding range_response_def sent by (simp add: m(4) len)
  qed
qed

lemma filters_response:
  assumes "ngx_http_range_header_filter boundary r = Some (Next_filter r' (Some ctx))" "out_length r = int (length body)"
    and "int (length body) \<le> NGX_MAX_INT_T_VALUE" "volume (map fst (ctx_ranges ctx)) \<le> NGX_MAX_INT_T_VALUE"
    and "length (out_type r) + length (out_charset r) < 9223372036854775808"
    and "buf_ok b" "\<not> ngx_buf_special b" "last_buf b" "buf_bytes b = body"
  obtains v ctx' out where "in_range r = Some v"
    "ngx_http_range_parse (out_length r) (if single_range r then 1 else max_ranges r) v = Some (NGX_OK, map fst (ctx_ranges ctx))"
    "ngx_http_range_body_filter (Some ctx) [b] = Some (ctx', out)"
    "range_response boundary r body (map fst (ctx_ranges ctx)) r' (concat (map buf_bytes out))"
proof -
  obtain v elts where 1: "in_range r = Some v" "7 \<le> length v"
    "ngx_http_range_parse (out_length r) (if single_range r then 1 else max_ranges r) v = Some (NGX_OK, elts)"
    "(if length elts = 1 then ngx_http_range_singlepart_header else ngx_http_range_multipart_header boundary) (r\<lparr>out_status := 206\<rparr>)
       \<lparr>ctx_offset = 0, boundary_header = [], ctx_ranges = map (\<lambda>rng. (rng, [])) elts\<rparr> = Some (r', ctx)"
    using header_filter_ranges [OF assms(1)] by metis
  have ranges: "map fst (ctx_ranges ctx) = elts" by (rule header_keeps_ranges [OF 1(4)])
  have "list_all (\<lambda>(x, y). 0 \<le> x \<and> x < y \<and> y \<le> int (length body)) elts"
    using range_parse_in_content [OF 1(3)] 1(2) assms(2-4) ranges by auto
  then have good: "list_all (inside (int (length body))) elts" by (simp only: inside_def)
  show thesis
  proof (cases "length elts = 1")
    case True
    then obtain rng where rng: "elts = [rng]" by (auto simp: length_Suc_conv)
    have "ngx_http_range_singlepart_header (r\<lparr>out_status := 206\<rparr>)
       \<lparr>ctx_offset = 0, boundary_header = [], ctx_ranges = [(rng, [])]\<rparr> = Some (r', ctx)" using 1(4) by (simp add: rng)
    moreover have "inside (int (length body)) rng" using good by (simp add: rng)
    ultimately obtain ctx' out where "ngx_http_range_body_filter (Some ctx) [b] = Some (ctx', out)"
      "range_response boundary r body [rng] r' (concat (map buf_bytes out))"
      using single_response assms(2,3,6,9) by metis
    then show thesis using that [OF 1(1)] 1(3) unfolding ranges rng by blast
  next
    case False
    then have "ngx_http_range_multipart_header boundary (r\<lparr>out_status := 206\<rparr>)
       \<lparr>ctx_offset = 0, boundary_header = [], ctx_ranges = map (\<lambda>rng. (rng, [])) elts\<rparr> = Some (r', ctx)" using 1(4) by simp
    from multi_response [OF this assms(2,3) good False assms(6-9,5)] obtain ctx' out where
      "ngx_http_range_body_filter (Some ctx) [b] = Some (ctx', out)" "range_response boundary r body elts r' (concat (map buf_bytes out))" .
    then show thesis using that [OF 1(1)] 1(3) unfolding ranges by blast
  qed
qed

subsection \<open>Properties\<close>

text \<open>C20: The parser of the \<open>Range\<close> header, on any list of ranges in the grammar (with blanks, prefixes
  and suffixes, numbers up to 63 bits): it gives exactly the ranges that ask for something, cut at the
  end of the content, in order; \<open>NGX_DECLINED\<close> when there are more than allowed or they ask for more bytes
  than there are, by the sum of their sizes as the signed 64-bit \<open>size\<close> holds it, wrapped around if it does
  not fit; 416 when there is none.\<close>

theorem range_parse_exact:
  assumes "xs \<noteq> []" "list_all range_ok xs" "0 \<le> cl" "cl \<le> NGX_MAX_INT_T_VALUE"
  shows "ngx_http_range_parse cl ranges (bytes ''bytes='' @ ranges_bytes xs) =
    Some (if length (satisfiable cl xs) > ranges then (NGX_DECLINED, take (ranges + 1) (satisfiable cl xs))
          else (range_verdict cl (satisfiable cl xs), satisfiable cl xs))"
  using range_parse_loop_exact [of xs cl ranges "[]"] assms by (simp add: ngx_http_range_parse_def s64_def)

lemma range_parse_exact_witness:
  "ngx_http_range_parse 100 5 (bytes ''bytes='' @ ranges_bytes [Between 0 (bytes ''0'') 0 0 (bytes ''9'') 1, Suffix 1 (bytes ''5'') 0]) =
     Some (NGX_OK, [(0, 10), (95, 100)])"
  using range_parse_exact [of "[Between 0 (bytes ''0'') 0 0 (bytes ''9'') 1, Suffix 1 (bytes ''5'') 0]" 100 5]
  by (simp add: bound_def is_digit_def dec_val_Cons satisfiable_def range_verdict_def)

text \<open>C21: Whatever the header holds, accepted ranges lie within the content, are not empty, are at most as
  many as allowed and ask together for at most the content, unless the sum of their sizes overflowed.\<close>

theorem range_parse_safe:
  assumes "ngx_http_range_parse cl ranges v = Some (NGX_OK, elts)" "6 \<le> length v" "0 \<le> cl" "cl \<le> NGX_MAX_INT_T_VALUE"
    and "volume elts \<le> NGX_MAX_INT_T_VALUE"
  shows "elts \<noteq> [] \<and> length elts \<le> ranges \<and> volume elts \<le> cl \<and> list_all (\<lambda>(a, b). 0 \<le> a \<and> a < b \<and> b \<le> cl) elts"
  by (rule range_parse_in_content [OF assms])

lemma sample_parse: "ngx_http_range_parse 5 9 (bytes ''bytes=1-3'') = Some (NGX_OK, [(1, 4)])"
  by (simp add: ngx_http_range_parse_def range_parse_step range_defs)

lemma range_parse_safe_witness: "list_all (\<lambda>(a, b). 0 \<le> a \<and> a < b \<and> b \<le> (5::int)) [(1, 4)]"
  using range_parse_safe [OF sample_parse] by simp

text \<open>The body filter for one range, over a body that comes in any buffers and any number of calls, in
  memory or in a file: it sends exactly the bytes of the range.\<close>

theorem singlepart_body_exact:
  assumes "list_all (list_all buf_ok) calls" "fst rng < snd rng" "0 \<le> fst rng"
  shows "singlepart_calls rng 0 calls = drop (nat (fst rng)) (take (nat (snd rng)) (concat (map buf_bytes (concat calls))))"
  using singlepart_calls_window [OF assms, of 0] by (simp add: window_def)

lemma mem_buf_ok: "buf_ok (mem_buf xs l)"
  by (simp add: mem_buf_def buf_ok_def)

lemma singlepart_body_exact_witness:
  "singlepart_calls (1, 4) 0 [[mem_buf [10, 11] False, mem_buf [12] False], [mem_buf [13, 14] True]] = [11, 12, 13]"
  using singlepart_body_exact [of "[[mem_buf [10, 11] False, mem_buf [12] False], [mem_buf [13, 14] True]]" "(1, 4)"]
  by (simp add: mem_buf_ok)

text \<open>C19: The two filters together, for a body in one buffer, the last: when the header filter accepts the
  ranges of a request, and the sum of their sizes has not overflowed, the response is 206, the ranges are the
  ones the parser gave, and what is sent is exact to the byte: for one range a \<open>Content-Range\<close> with its first
  and last byte and the size, and the range; for several the type with the boundary, and for each range
  the boundary, the type of the content, its \<open>Content-Range\<close> and the range, and the closing boundary. The length
  announced in the header is the number of bytes sent.\<close>

theorem range_response_exact:
  assumes "ngx_http_range_header_filter boundary r = Some (Next_filter r' (Some ctx))" "out_length r = int (length body)"
    and "int (length body) \<le> NGX_MAX_INT_T_VALUE" "volume (map fst (ctx_ranges ctx)) \<le> NGX_MAX_INT_T_VALUE"
    and "length (out_type r) + length (out_charset r) < 9223372036854775808"
    and "buf_ok b" "\<not> ngx_buf_special b" "last_buf b" "buf_bytes b = body"
  shows "\<exists>v ranges ctx' out. in_range r = Some v \<and>
    ngx_http_range_parse (out_length r) (if single_range r then 1 else max_ranges r) v = Some (NGX_OK, ranges) \<and>
    ngx_http_range_body_filter (Some ctx) [b] = Some (ctx', out) \<and>
    (let sent = concat (map buf_bytes out)
     in out_status r' = 206 \<and>
       (case ranges of
          [rng] \<Rightarrow> out_range r' = Some (bytes ''bytes '' @ content_range rng (int (length body))) \<and> sent = window rng 0 body
        | _ \<Rightarrow> out_type r' = bytes ''multipart/byteranges; boundary='' @ twenty (unat boundary) \<and>
            sent = multipart_response boundary r body ranges) \<and>
       (int (length sent) \<le> NGX_MAX_INT_T_VALUE \<longrightarrow> out_length r' = int (length sent)))"
proof -
  obtain v ctx' out where "in_range r = Some v"
    "ngx_http_range_parse (out_length r) (if single_range r then 1 else max_ranges r) v = Some (NGX_OK, map fst (ctx_ranges ctx))"
    "ngx_http_range_body_filter (Some ctx) [b] = Some (ctx', out)"
    "range_response boundary r body (map fst (ctx_ranges ctx)) r' (concat (map buf_bytes out))"
    by (rule filters_response [OF assms])
  then show ?thesis unfolding range_response_def Let_def by blast
qed

definition sample_request :: range_request where
  "sample_request = \<lparr>http_version = 1001, is_main = True, allow_ranges = True, single_range = False, max_ranges = 9,
     in_range = Some (bytes ''bytes=1-3''), in_if_range = None, out_status = 200, out_length = 5, out_etag = None,
     out_last_modified = - 1, out_type = [], out_type_len = 0, out_charset = [], out_accept_ranges = None, out_range = None\<rparr>"

lemma sample_content_range: "content_range (1, 4) 5 = bytes ''1-3/5''"
  by (simp add: content_range_def decimal.simps digit_char_def)

lemma sample_line: "ngx_sprintf (bytes ''bytes %O-%O/%O'') [va_int 1, va_int 3, va_int 5] = Some (bytes ''bytes 1-3/5'')"
  using range_line_printed(2) [of 1 4 5] sample_content_range by simp

lemma sample_filter:
  "ngx_http_range_header_filter 0 sample_request = Some (Next_filter
     (sample_request\<lparr>out_status := 206, out_range := Some (bytes ''bytes 1-3/5''), out_length := 3\<rparr>)
     (Some \<lparr>ctx_offset = 0, boundary_header = [], ctx_ranges = [((1, 4), [])]\<rparr>))"
proof -
  have "ngx_strncasecmp (bytes ''bytes=1-3'') (bytes ''bytes='') 6 = Some 0" by (simp add: numeral_eq_Suc Let_def)
  then show ?thesis using sample_parse sample_line
    by (simp add: ngx_http_range_header_filter_def sample_request_def if_range_holds_def ngx_http_range_singlepart_header_def del: bytes_simps(2))
qed

lemma range_response_exact_witness:
  "\<exists>ctx' out. ngx_http_range_body_filter (Some \<lparr>ctx_offset = 0, boundary_header = [], ctx_ranges = [((1, 4), [])]\<rparr>)
     [mem_buf [10, 11, 12, 13, 14] True] = Some (ctx', out) \<and> concat (map buf_bytes out) = [11, 12, 13]"
proof -
  have parse: "ngx_http_range_parse (out_length sample_request) (if single_range sample_request then 1 else max_ranges sample_request) (bytes ''bytes=1-3'') =
      Some (NGX_OK, [(1, 4)])" "in_range sample_request = Some (bytes ''bytes=1-3'')"
    using sample_parse by (simp_all add: sample_request_def del: bytes_simps)
  from range_response_exact [OF sample_filter _ _ _ _ mem_buf_ok _ _ mem_buf_bytes, of "[10, 11, 12, 13, 14]" True] parse
  show ?thesis
    by (simp add: sample_request_def ngx_buf_special_def window_def mem_buf_def Let_def del: bytes_simps) blast
qed

text \<open>
  The sum of the sizes is kept in a signed variable without a check: two suffixes longer than the
  content overflow it, and ranges that start before the content are accepted.
\<close>

lemma range_parse_overflow:
  assumes "bound es" "dec_val es = NGX_MAX_INT_T_VALUE"
  shows "ngx_http_range_parse 100 5 (bytes ''bytes='' @ ranges_bytes [Suffix 0 es 0, Suffix 0 es 0]) =
     Some (NGX_OK, [(- 9223372036854775707, 100), (- 9223372036854775707, 100)])"
proof -
  have over: "s64 18446744073709551614 = - 2" by (simp add: s64_def)
  have spec: "range_spec 100 (ch_minus # es @ ch_comma # ch_minus # es @ [ch_NUL]) =
      Some (Inr ((- 9223372036854775707, 100), ch_comma # ch_minus # es @ [ch_NUL]))"
    "range_spec 100 (ch_minus # es @ [ch_NUL]) = Some (Inr ((- 9223372036854775707, 100), [ch_NUL]))"
    using range_spec_exact [of "Suffix 0 es 0" ch_comma 100 "ch_minus # es @ [ch_NUL]"] range_spec_exact [of "Suffix 0 es 0" ch_NUL 100 "[]"] assms
    by simp_all
  show ?thesis
    by (simp add: ngx_http_range_parse_def range_parse_step [OF spec(1)] range_parse_step [OF spec(2)] over)
qed

end
