(* ===== verification/Event_Timer.thy ===== *)
theory Event_Timer
  imports Rbtree_Delete
begin

section \<open>Event timers\<close>

text \<open>
  \<open>src/event/ngx_event_timer.c\<close> and \<open>src/event/ngx_event_timer.h\<close>: timers of events in a red-black tree ordered
  by \<open>ngx_rbtree_insert_timer_value\<close>. An event is named by the address of its timer node; its flags are
  kept beside the tree. The handler of an event may do anything to the timers: it is a function on
  their state. \<open>ngx_current_msec\<close> is an argument, as it is only changed between the calls modelled
  here.
\<close>

subsection \<open>The code\<close>

abbreviation (input) NGX_TIMER_INFINITE :: "64 word" where "NGX_TIMER_INFINITE \<equiv> - 1"
abbreviation (input) NGX_TIMER_LAZY_DELAY :: int where "NGX_TIMER_LAZY_DELAY \<equiv> 300"

record event_timers =
  timer_tree :: rbtree
  timer_set :: "addr \<Rightarrow> bool"
  timedout :: "addr \<Rightarrow> bool"

definition ngx_event_timer_init :: "addr \<Rightarrow> event_timers \<Rightarrow> event_timers option" where
  "ngx_event_timer_init sentinel ts = do {
     t \<leftarrow> put_red False sentinel (timer_tree ts);
     Some (ts\<lparr>timer_tree := t\<lparr>rb_root := sentinel\<rparr>\<rparr>)
   }"

definition ngx_event_find_timer :: "addr \<Rightarrow> 64 word \<Rightarrow> event_timers \<Rightarrow> 64 word option" where
  "ngx_event_find_timer sentinel current_msec ts =
     (if rb_root (timer_tree ts) = sentinel then Some NGX_TIMER_INFINITE
      else do {
        node \<leftarrow> ngx_rbtree_min (rb_root (timer_tree ts)) sentinel (timer_tree ts);
        n \<leftarrow> rb_mem (timer_tree ts) node;
        let timer = rb_key n - current_msec;
        Some (if sint timer > 0 then timer else 0)
      })"

definition ngx_event_del_timer :: "addr \<Rightarrow> addr \<Rightarrow> event_timers \<Rightarrow> event_timers option" where
  "ngx_event_del_timer sentinel ev ts = do {
     t \<leftarrow> ngx_rbtree_delete sentinel ev (timer_tree ts);
     Some (ts\<lparr>timer_tree := t, timer_set := (timer_set ts)(ev := False)\<rparr>)
   }"

definition ngx_event_add_timer :: "addr \<Rightarrow> 64 word \<Rightarrow> addr \<Rightarrow> 64 word \<Rightarrow> event_timers \<Rightarrow> event_timers option" where
  "ngx_event_add_timer sentinel current_msec ev timer ts = do {
     let key = current_msec + timer;
     n \<leftarrow> rb_mem (timer_tree ts) ev;
     if timer_set ts ev \<and> ngx_abs (sint (key - rb_key n)) < NGX_TIMER_LAZY_DELAY then Some ts
     else do {
       ts \<leftarrow> (if timer_set ts ev then ngx_event_del_timer sentinel ev ts else Some ts);
       t \<leftarrow> wr (\<lambda>n. n\<lparr>rb_key := key\<rparr>) ev (timer_tree ts);
       t \<leftarrow> ngx_rbtree_insert (rb_insert_by timer_less) sentinel ev t;
       Some (ts\<lparr>timer_tree := t, timer_set := (timer_set ts)(ev := True)\<rparr>)
     }
   }"

partial_function (option) ngx_event_expire_timers ::
  "(addr \<Rightarrow> 64 word \<Rightarrow> addr \<Rightarrow> event_timers \<Rightarrow> event_timers option) \<Rightarrow>
   addr \<Rightarrow> 64 word \<Rightarrow> event_timers \<Rightarrow> event_timers option"
where
  "ngx_event_expire_timers handler sentinel current_msec ts =
     (if rb_root (timer_tree ts) = sentinel then Some ts
      else do {
        node \<leftarrow> ngx_rbtree_min (rb_root (timer_tree ts)) sentinel (timer_tree ts);
        n \<leftarrow> rb_mem (timer_tree ts) node;
        if sint (rb_key n - current_msec) > 0 then Some ts
        else do {
          ts \<leftarrow> ngx_event_del_timer sentinel node ts;
          ts \<leftarrow> handler sentinel current_msec node (ts\<lparr>timedout := (timedout ts)(node := True)\<rparr>);
          ngx_event_expire_timers handler sentinel current_msec ts
        }
      })"

partial_function (option) ngx_event_cancel_timers ::
  "(addr \<Rightarrow> event_timers \<Rightarrow> event_timers option) \<Rightarrow> (addr \<Rightarrow> bool) \<Rightarrow> addr \<Rightarrow> event_timers \<Rightarrow> event_timers option"
where
  "ngx_event_cancel_timers handler cancelable sentinel ts =
     (if rb_root (timer_tree ts) = sentinel then Some ts
      else do {
        node \<leftarrow> ngx_rbtree_min (rb_root (timer_tree ts)) sentinel (timer_tree ts);
        if \<not> cancelable node then Some ts
        else do {
          ts \<leftarrow> ngx_event_del_timer sentinel node ts;
          ts \<leftarrow> handler node ts;
          ngx_event_cancel_timers handler cancelable sentinel ts
        }
      })"

subsection \<open>The invariant\<close>

text \<open>
  \<open>armed\<close> is the list of set timers with the times they are due, in order. All times lie within half of
  the range of the clock behind \<open>origin\<close>.
\<close>

definition since :: "64 word \<Rightarrow> 64 word \<Rightarrow> nat" where
  "since origin k = unat (k - origin)"

definition near :: "64 word \<Rightarrow> 64 word \<Rightarrow> bool" where
  "near origin k \<longleftrightarrow> since origin k < 9223372036854775808"

definition timers_ok :: "addr \<Rightarrow> 64 word \<Rightarrow> addr set \<Rightarrow> event_timers \<Rightarrow> (addr \<times> 64 word) list \<Rightarrow> bool" where
  "timers_ok s origin evs ts armed \<longleftrightarrow>
     (\<exists>rp t. holds s rp (timer_tree ts) t \<and> rb_ok t \<and> inorder t = armed) \<and>
     ranked (\<lambda>(a, k). since origin k) armed \<and> list_all (\<lambda>(a, k). near origin k) armed \<and>
     fst ` set armed = {ev. timer_set ts ev} \<and> {ev. timer_set ts ev} \<subseteq> evs \<and>
     s \<notin> evs \<and> (\<forall>ev \<in> evs. rb_mem (timer_tree ts) ev \<noteq> None)"

lemma timer_rank: "near origin k \<Longrightarrow> near origin k' \<Longrightarrow> sint (k - k') < 0 \<longleftrightarrow> since origin k < since origin k'"
  using timer_less_rank [of k origin k'] by (simp add: near_def since_def)

lemma since_fun: "(\<lambda>k. unat (k - origin)) = since origin" "unat (k - origin) = since origin k"
  by (simp_all add: since_def fun_eq_iff)

lemma since_inj: "since origin k = since origin k' \<longleftrightarrow> k = k'"
  by (simp add: since_def word_unat_eq_iff [symmetric])

lemma timer_rank_pos: "near origin k \<Longrightarrow> near origin k' \<Longrightarrow> sint (k - k') > 0 \<longleftrightarrow> since origin k' < since origin k"
proof -
  assume "near origin k" "near origin k'"
  then have "sint (k - k') < 0 \<longleftrightarrow> since origin k < since origin k'" by (rule timer_rank)
  moreover have "sint (k - k') = 0 \<longleftrightarrow> k - k' = 0" by (rule signed_eq_0_iff)
  then have "sint (k - k') = 0 \<longleftrightarrow> since origin k = since origin k'" using since_inj [of origin k k'] by simp
  ultimately show ?thesis by linarith
qed

lemma holds_off:
  assumes "holds s rp st t" "same_off {a} st st'" "rb_root st' = rb_root st" "a \<notin> insert s (addrs t)"
  shows "holds s rp st' t"
  using assms tree_at_same [OF assms(2), of t] by (auto simp: holds_def same_off_def)

lemma holds_wr_key:
  assumes "holds s rp st t" "a \<notin> insert s (addrs t)" "rb_mem st a = Some n"
  obtains st' where "wr (\<lambda>n. n\<lparr>rb_key := k\<rparr>) a st = Some st'" "holds s rp st' t" "rb_mem st' a = Some (n\<lparr>rb_key := k\<rparr>)"
    "same_off {a} st st'"
  using holds_off [OF assms(1), of a "st\<lparr>rb_mem := (rb_mem st)(a \<mapsto> n\<lparr>rb_key := k\<rparr>)\<rparr>"] assms(2,3)
  by (auto simp: wr_some same_off_def)

lemma min_timer:
  assumes "holds s rp st t" "t \<noteq> E"
  obtains a k xs n where "inorder t = (a, k) # xs" "ngx_rbtree_min (rb_root st) s st = Some a" "rb_mem st a = Some n" "rb_key n = k"
proof -
  obtain c b k x sp where m: "t = plug (T c E b k x) sp" "before sp = []" "ngx_rbtree_min (ptr s t) s st = Some b"
    using min_of_tree [of s rp st t "[]"] assms by auto
  have "rb_mem st b = Some (mk_node Lft k s (ptr s x) (up rp sp) c)"
    using holds_node [of s rp st Lft c E b k x sp] assms(1) by (simp add: m(1))
  moreover have "rb_root st = ptr s t" using assms(1) by (simp add: holds_def)
  ultimately show thesis using that m by (simp add: inorder_plug)
qed

lemma tree_nodes:
  assumes "holds s rp st t" "a \<in> addrs t"
  shows "rb_mem st a \<noteq> None"
proof -
  obtain c l k r ctx where "t = plug (nd Lft c l a k r) ctx" using find_node [OF assms(2)] by auto
  then show ?thesis using holds_node [of s rp st Lft c l a k r ctx] assms(1) by simp
qed

lemma root_empty: "holds s rp st t \<Longrightarrow> rb_root st = s \<longleftrightarrow> t = E"
  using ptr_eq_s [of s t] by (simp add: holds_def)

subsection \<open>The operations\<close>

lemma timers_okE:
  assumes "timers_ok s origin evs ts armed"
  obtains rp t where "holds s rp (timer_tree ts) t" "rb_ok t" "inorder t = armed" "addrs t = {ev. timer_set ts ev}"
proof -
  obtain rp t where t: "holds s rp (timer_tree ts) t" "rb_ok t" "inorder t = armed"
    using assms unfolding timers_ok_def by blast
  moreover have "addrs t = {ev. timer_set ts ev}" using assms t(3) by (simp add: timers_ok_def addrs_inorder)
  ultimately show thesis by (rule that)
qed

lemma timers_okI:
  assumes "holds s rp (timer_tree ts) t" "rb_ok t" "inorder t = armed" "addrs t = {ev. timer_set ts ev}" "addrs t \<subseteq> evs"
    and "s \<notin> evs" "\<And>e. e \<in> evs \<Longrightarrow> rb_mem (timer_tree ts) e \<noteq> None" "ranked (\<lambda>(a, k). since origin k) armed"
    and "list_all (\<lambda>(a, k). near origin k) armed"
  shows "timers_ok s origin evs ts armed"
  unfolding timers_ok_def
proof (intro conjI exI)
  show "fst ` set armed = {ev. timer_set ts ev}" using assms(3,4) addrs_inorder [of t] by simp
  show "{ev. timer_set ts ev} \<subseteq> evs" using assms(4,5) by simp
qed (use assms in auto)

lemma del_timer_ok:
  assumes "timers_ok s origin evs ts armed" "timer_set ts ev"
  shows "\<exists>ts'. ngx_event_del_timer s ev ts = Some ts' \<and> timers_ok s origin evs ts' (filter (\<lambda>(a, k). a \<noteq> ev) armed) \<and>
    timer_set ts' = (timer_set ts)(ev := False) \<and> timedout ts' = timedout ts"
proof -
  obtain rp t where t: "holds s rp (timer_tree ts) t" "rb_ok t" "inorder t = armed" "addrs t = {ev. timer_set ts ev}"
    by (rule timers_okE [OF assms(1)])
  have "ev \<in> addrs t" using t(4) assms(2) by simp
  from delete_correct [OF t(1,2) this] obtain st' rp' t' c where
    d: "ngx_rbtree_delete s ev (timer_tree ts) = Some st'" "holds s rp' st' t'" "rb_ok t'"
    "inorder t' = filter (\<lambda>(a, k). a \<noteq> ev) armed" "rb_mem st' ev \<noteq> None" "same_off (insert s (addrs t)) (timer_tree ts) st'"
    unfolding deleted_def t(3) by blast
  let ?ts = "ts\<lparr>timer_tree := st', timer_set := (timer_set ts)(ev := False)\<rparr>"
  have addrs: "addrs t' = {e. timer_set ?ts e}"
    using t(3,4) d(4) by (force simp: addrs_inorder)
  have "rb_mem st' e \<noteq> None" if "e \<in> evs" for e
  proof -
    consider "e = ev" | "e \<in> addrs t'" | "e \<notin> insert s (addrs t)"
    proof (cases "timer_set ts e")
      case True
      then show ?thesis using that(1,2) addrs by (cases "e = ev") simp_all
    next
      case False
      then show ?thesis using that(3) t(4) \<open>e \<in> evs\<close> assms(1) by (auto simp: timers_ok_def)
    qed
    then show ?thesis
      using d(5,6) tree_nodes [OF d(2)] that assms(1) by cases (auto simp: same_off_def timers_ok_def)
  qed
  moreover have "ranked (\<lambda>(a, k). since origin k) (filter P armed)" for P
    using assms(1) by (simp add: timers_ok_def ranked_def sorted_filter)
  ultimately have "timers_ok s origin evs ?ts (filter (\<lambda>(a, k). a \<noteq> ev) armed)"
    using d(2-4) addrs assms(1) by (intro timers_okI [where rp = rp' and t = t']) (auto simp: timers_ok_def list_all_iff)
  then show ?thesis using d(1) by (simp add: ngx_event_del_timer_def)
qed

lemma sint_since:
  assumes "near origin k" "near origin k'"
  shows "sint (k - k') = int (since origin k) - int (since origin k')"
proof -
  have small: "unat (k - origin) < 9223372036854775808" "unat (k' - origin) < 9223372036854775808"
    using assms by (simp_all add: near_def since_def)
  have "k - k' = (k - origin) - (k' - origin)" by simp
  then have "sint (k - k') = signed_take_bit 63 (sint (k - origin) - sint (k' - origin))"
    by (simp only: sint_word_ariths) simp
  also have "\<dots> = signed_take_bit 63 (int (since origin k) - int (since origin k'))"
    by (simp only: small [THEN sint_small] since_def)
  also have "\<dots> = int (since origin k) - int (since origin k')"
    using assms by (intro signed_take_bit_int_eq_self) (simp_all add: near_def)
  finally show ?thesis .
qed

lemma arm_ok:
  assumes "timers_ok s origin evs ts armed" "\<not> timer_set ts ev" "ev \<in> evs" "near origin key"
  shows "\<exists>ts'. do {
      t \<leftarrow> wr (\<lambda>n. n\<lparr>rb_key := key\<rparr>) ev (timer_tree ts);
      t \<leftarrow> ngx_rbtree_insert (rb_insert_by timer_less) s ev t;
      Some (ts\<lparr>timer_tree := t, timer_set := (timer_set ts)(ev := True)\<rparr>) } = Some ts' \<and>
    timers_ok s origin evs ts' (put_in_order (\<lambda>(a, k). since origin k) (ev, key) armed) \<and>
    timer_set ts' = (timer_set ts)(ev := True) \<and> timedout ts' = timedout ts"
proof -
  obtain rp t where t: "holds s rp (timer_tree ts) t" "rb_ok t" "inorder t = armed" "addrs t = {ev. timer_set ts ev}"
    by (rule timers_okE [OF assms(1)])
  have ev: "ev \<notin> insert s (addrs t)" using t(4) assms(1-3) by (auto simp: timers_ok_def)
  obtain n where n: "rb_mem (timer_tree ts) ev = Some n" using assms(1,3) by (auto simp: timers_ok_def)
  obtain st1 where 1: "wr (\<lambda>n. n\<lparr>rb_key := key\<rparr>) ev (timer_tree ts) = Some st1" "holds s rp st1 t"
    "rb_mem st1 ev = Some (n\<lparr>rb_key := key\<rparr>)" "same_off {ev} (timer_tree ts) st1"
    by (rule holds_wr_key [OF t(1) ev n])
  have armed: "ranked (\<lambda>(a, k). since origin k) armed" "list_all (\<lambda>(a, k). near origin k) armed" "{ev. timer_set ts ev} \<subseteq> evs" "s \<notin> evs"
    "\<And>e. e \<in> evs \<Longrightarrow> rb_mem (timer_tree ts) e \<noteq> None"
    using assms(1) by (auto simp: timers_ok_def)
  have "\<exists>st' rp' t'. ngx_rbtree_insert (rb_insert_by timer_less) s ev st1 = Some st' \<and> holds s rp' st' t' \<and> rb_ok t' \<and>
      inorder t' = put_in_order (\<lambda>(a, k). since origin k) (ev, key) armed \<and> same_off (insert ev (addrs t)) st1 st'"
  proof -
    have "ranked (\<lambda>(a, k). since origin k) (inorder t)" "list_all (\<lambda>(a, k). since origin k < 2 ^ 63) (inorder t)"
      "since origin (rb_key (n\<lparr>rb_key := key\<rparr>)) < 2 ^ 63"
      using armed(1,2) assms(4) by (simp_all add: t(3) near_def)
    from insert_timer_in_order [of s rp st1 t origin, unfolded since_fun, OF 1(2) t(2) this(1,2) 1(3) this(3) ev]
    show ?thesis by (simp add: t(3))
  qed
  then obtain st2 rp' t' where 2: "ngx_rbtree_insert (rb_insert_by timer_less) s ev st1 = Some st2" "holds s rp' st2 t'"
    "rb_ok t'" "inorder t' = put_in_order (\<lambda>(a, k). since origin k) (ev, key) armed" "same_off (insert ev (addrs t)) st1 st2"
    by blast
  let ?ts = "ts\<lparr>timer_tree := st2, timer_set := (timer_set ts)(ev := True)\<rparr>"
  have addrs: "addrs t' = insert ev (addrs t)" unfolding addrs_inorder 2(4) t(3) set_put_in_order by simp
  have "rb_mem st2 e \<noteq> None" if "e \<in> evs" for e
    using armed(5) [OF that] 1(4) 2(5) tree_nodes [OF 2(2), of e] addrs by (cases "e \<in> insert ev (addrs t)") (auto simp: same_off_def)
  then have "timers_ok s origin evs ?ts (put_in_order (\<lambda>(a, k). since origin k) (ev, key) armed)"
    using 2(2-4) addrs armed(1-4) assms(3,4) ranked_put_in_order [OF armed(1)]
    by (intro timers_okI [where rp = rp' and t = t']) (auto simp: t(4) list_all_iff set_put_in_order)
  then show ?thesis using 1(1) 2(1) by simp
qed

text \<open>What \<open>ngx_event_add_timer\<close> makes of the list: a set timer moves only when the new time is 300 ms away.\<close>

definition rearmed :: "64 word \<Rightarrow> addr \<Rightarrow> 64 word \<Rightarrow> (addr \<times> 64 word) list \<Rightarrow> (addr \<times> 64 word) list" where
  "rearmed origin ev key armed =
     (if list_ex (\<lambda>(a, k). a = ev \<and> \<bar>int (since origin key) - int (since origin k)\<bar> < NGX_TIMER_LAZY_DELAY) armed then armed
      else put_in_order (\<lambda>(a, k). since origin k) (ev, key) (filter (\<lambda>(a, k). a \<noteq> ev) armed))"

lemma armed_key:
  assumes "timers_ok s origin evs ts armed" "rb_mem (timer_tree ts) ev = Some n" "timer_set ts ev"
  shows "(ev, k) \<in> set armed \<longleftrightarrow> k = rb_key n"
proof -
  obtain rp t where t: "holds s rp (timer_tree ts) t" "inorder t = armed" "addrs t = {ev. timer_set ts ev}"
    by (rule timers_okE [OF assms(1)])
  then obtain c l k' r ctx where pl: "t = plug (T c l ev k' r) ctx" using find_node [of ev t] assms(3) by auto
  have "ev \<notin> addrs l" "ev \<notin> addrs r" "ev \<notin> ctx_addrs ctx" using t(1) by (auto simp: pl holds_def)
  moreover have "rb_key n = k'" using holds_node [of s rp "timer_tree ts" Lft c l ev k' r ctx] t(1) assms(2) by (simp add: pl)
  moreover have "(ev, k) \<notin> set xs" if "ev \<notin> fst ` set xs" for xs :: "(addr \<times> 64 word) list"
    using that imageI [of "(ev, k)" "set xs" fst] by auto
  ultimately have "(ev, k) \<notin> set (inorder l)" "(ev, k) \<notin> set (inorder r)" "(ev, k) \<notin> set (before ctx)" "(ev, k) \<notin> set (behind ctx)"
    "rb_key n = k'"
    unfolding ctx_addresses [of ctx, symmetric] addrs_inorder by blast+
  then show ?thesis unfolding t(2) [symmetric] pl by (auto simp: inorder_plug)
qed

lemma not_set_filter:
  assumes "timers_ok s origin evs ts armed" "\<not> timer_set ts ev"
  shows "filter (\<lambda>(a, k). a \<noteq> ev) armed = armed" "(ev, k) \<notin> set armed"
  using assms by (force simp: timers_ok_def intro!: filter_others)+

lemma add_timer_ok:
  assumes "timers_ok s origin evs ts armed" "ev \<in> evs" "near origin (now + timer)"
  shows "\<exists>ts'. ngx_event_add_timer s now ev timer ts = Some ts' \<and>
    timers_ok s origin evs ts' (rearmed origin ev (now + timer) armed) \<and>
    timer_set ts' = (timer_set ts)(ev := True) \<and> timedout ts' = timedout ts"
proof -
  obtain n where n: "rb_mem (timer_tree ts) ev = Some n" using assms(1,2) by (auto simp: timers_ok_def)
  let ?lazy = "list_ex (\<lambda>(a, k). a = ev \<and> \<bar>int (since origin (now + timer)) - int (since origin k)\<bar> < NGX_TIMER_LAZY_DELAY) armed"
  have lazy: "?lazy \<longleftrightarrow> timer_set ts ev \<and> ngx_abs (sint (now + timer - rb_key n)) < NGX_TIMER_LAZY_DELAY"
  proof (cases "timer_set ts ev")
    case True
    have mem: "(ev, k) \<in> set armed \<longleftrightarrow> k = rb_key n" for k by (rule armed_key [OF assms(1) n True])
    then have "near origin (rb_key n)" using assms(1) by (auto simp: timers_ok_def list_all_iff)
    then have "ngx_abs (sint (now + timer - rb_key n)) = \<bar>int (since origin (now + timer)) - int (since origin (rb_key n))\<bar>"
      using sint_since [OF assms(3)] assms(3) by (simp add: ngx_abs_small near_def)
    then show ?thesis using mem True by (auto simp: list_ex_iff)
  next
    case False
    then show ?thesis using not_set_filter(2) [OF assms(1) False] by (auto simp: list_ex_iff)
  qed
  show ?thesis
  proof (cases ?lazy)
    case True
    then show ?thesis using lazy n assms(1) by (simp add: ngx_event_add_timer_def rearmed_def fun_upd_idem)
  next
    case False
    obtain ts1 where 1: "(if timer_set ts ev then ngx_event_del_timer s ev ts else Some ts) = Some ts1"
      "timers_ok s origin evs ts1 (filter (\<lambda>(a, k). a \<noteq> ev) armed)" "timer_set ts1 = (timer_set ts)(ev := False)"
      "timedout ts1 = timedout ts"
    proof (cases "timer_set ts ev")
      case True
      from del_timer_ok [OF assms(1) this] that True show thesis by auto
    next
      case False
      then have "(timer_set ts)(ev := False) = timer_set ts" by (simp add: fun_upd_idem)
      with that [of ts] False assms(1) not_set_filter(1) [OF assms(1) False] show thesis by simp
    qed
    have "\<not> timer_set ts1 ev" using 1(3) by simp
    note arm = arm_ok [OF 1(2) this assms(2,3)]
    have "\<not> (timer_set ts ev \<and> ngx_abs (sint (now + timer - rb_key n)) < NGX_TIMER_LAZY_DELAY)" using False lazy by blast
    then have step: "ngx_event_add_timer s now ev timer ts = do {
        t \<leftarrow> wr (\<lambda>n. n\<lparr>rb_key := now + timer\<rparr>) ev (timer_tree ts1);
        t \<leftarrow> ngx_rbtree_insert (rb_insert_by timer_less) s ev t;
        Some (ts1\<lparr>timer_tree := t, timer_set := (timer_set ts1)(ev := True)\<rparr>) }"
      unfolding ngx_event_add_timer_def n Let_def bind.bind_lunit by (simp only: if_False 1(1) bind.bind_lunit)
    have "rearmed origin ev (now + timer) armed = put_in_order (\<lambda>(a, k). since origin k) (ev, now + timer) (filter (\<lambda>(a, k). a \<noteq> ev) armed)"
      unfolding rearmed_def using False by (simp only: if_False)
    then show ?thesis using arm unfolding step 1(3,4) fun_upd_upd by (simp only:)
  qed
qed

lemma armed_root:
  assumes "timers_ok s origin evs ts armed"
  shows "rb_root (timer_tree ts) = s \<longleftrightarrow> armed = []"
proof -
  obtain rp t where t: "holds s rp (timer_tree ts) t" "inorder t = armed" by (rule timers_okE [OF assms])
  then show ?thesis using root_empty [OF t(1)] by (cases t) auto
qed

lemma first_timer:
  assumes "timers_ok s origin evs ts ((a, k) # rest)"
  obtains n where "ngx_rbtree_min (rb_root (timer_tree ts)) s (timer_tree ts) = Some a" "rb_mem (timer_tree ts) a = Some n"
    "rb_key n = k" "timer_set ts a" "a \<in> evs" "near origin k" "rb_root (timer_tree ts) \<noteq> s"
    "list_all (\<lambda>(b, k'). since origin k \<le> since origin k') rest"
proof -
  obtain rp t where t: "holds s rp (timer_tree ts) t" "inorder t = (a, k) # rest" "addrs t = {ev. timer_set ts ev}"
    by (rule timers_okE [OF assms])
  have "t \<noteq> E" using t(2) by auto
  from min_timer [OF t(1) this] t(2) obtain n where
    "ngx_rbtree_min (rb_root (timer_tree ts)) s (timer_tree ts) = Some a" "rb_mem (timer_tree ts) a = Some n" "rb_key n = k"
    by auto
  moreover have set: "timer_set ts a" using t(2,3) by (auto simp: addrs_inorder)
  moreover have "a \<in> evs" using set assms by (auto simp: timers_ok_def)
  moreover have "near origin k" using assms by (simp add: timers_ok_def)
  moreover have "rb_root (timer_tree ts) \<noteq> s" using armed_root [OF assms] by simp
  moreover have "list_all (\<lambda>(b, k'). since origin k \<le> since origin k') rest"
    using assms by (auto simp: timers_ok_def ranked_def list_all_iff)
  ultimately show thesis by (rule that)
qed

text \<open>The time until the first timer, zero when it is due.\<close>

lemma find_timer_ok:
  assumes "timers_ok s origin evs ts armed" "near origin now"
  shows "ngx_event_find_timer s now ts = Some (case armed of
      [] \<Rightarrow> NGX_TIMER_INFINITE
    | (a, k) # _ \<Rightarrow> if since origin now < since origin k then k - now else 0)"
proof (cases armed)
  case Nil
  then show ?thesis using armed_root [OF assms(1)] by (simp add: ngx_event_find_timer_def)
next
  case (Cons ak rest)
  obtain a k where ak: "ak = (a, k)" by (cases ak)
  from assms(1) [unfolded Cons ak] obtain n where
    "ngx_rbtree_min (rb_root (timer_tree ts)) s (timer_tree ts) = Some a" "rb_mem (timer_tree ts) a = Some n"
    "rb_key n = k" "near origin k" "rb_root (timer_tree ts) \<noteq> s" by (rule first_timer)
  then show ?thesis using timer_rank_pos [of origin k now] assms(2) by (simp add: ngx_event_find_timer_def Cons ak)
qed

subsection \<open>Handlers\<close>

text \<open>
  What the loop of \<open>ngx_event_expire_timers\<close> relies on: a handler keeps the timers in order and sets no
  timer that is due at once. \<open>reach\<close> is how far ahead it may set one.
\<close>

definition due :: "64 word \<Rightarrow> 64 word \<Rightarrow> addr \<times> 64 word \<Rightarrow> bool" where
  "due origin now = (\<lambda>(a, k). since origin k \<le> since origin now)"

locale timer_handler =
  fixes handler :: "addr \<Rightarrow> 64 word \<Rightarrow> addr \<Rightarrow> event_timers \<Rightarrow> event_timers option"
    and reach :: nat
  assumes handled: "timers_ok s origin evs ts armed \<Longrightarrow> ev \<in> evs \<Longrightarrow> \<not> timer_set ts ev \<Longrightarrow>
    since origin now + reach < 9223372036854775808 \<Longrightarrow>
    \<exists>ts' armed'. handler s now ev ts = Some ts' \<and> timers_ok s origin evs ts' armed' \<and>
      set (filter (due origin now) armed') \<subseteq> set (filter (due origin now) armed)"
begin

lemma expire_round:
  assumes "timers_ok s origin evs ts ((a, k) # rest)" "since origin now + reach < 9223372036854775808" "due origin now (a, k)"
  shows "\<exists>ts' armed'. ngx_event_expire_timers handler s now ts = ngx_event_expire_timers handler s now ts' \<and>
    timers_ok s origin evs ts' armed' \<and>
    set (filter (due origin now) armed') \<subset> set (filter (due origin now) ((a, k) # rest))"
proof -
  let ?armed = "(a, k) # rest"
  have now: "near origin now" using assms(2) by (simp add: near_def)
  from assms(1) obtain n where n: "ngx_rbtree_min (rb_root (timer_tree ts)) s (timer_tree ts) = Some a"
    "rb_mem (timer_tree ts) a = Some n" "rb_key n = k" "timer_set ts a" "a \<in> evs" "near origin k" "rb_root (timer_tree ts) \<noteq> s"
    by (rule first_timer)
  have late: "\<not> sint (k - now) > 0" using timer_rank_pos [OF n(6) now] assms(3) by (simp add: due_def)
  obtain ts1 where 1: "ngx_event_del_timer s a ts = Some ts1" "timers_ok s origin evs ts1 (filter (\<lambda>(b, k). b \<noteq> a) ?armed)"
    "timer_set ts1 = (timer_set ts)(a := False)"
    using del_timer_ok [OF assms(1) n(4)] by blast
  let ?ts = "ts1\<lparr>timedout := (timedout ts1)(a := True)\<rparr>"
  have "timers_ok s origin evs ?ts (filter (\<lambda>(b, k). b \<noteq> a) ?armed)" using 1(2) by (simp add: timers_ok_def)
  moreover have "\<not> timer_set ?ts a" using 1(3) by simp
  ultimately obtain ts' armed' where 2: "handler s now a ?ts = Some ts'" "timers_ok s origin evs ts' armed'"
    "set (filter (due origin now) armed') \<subseteq> set (filter (due origin now) (filter (\<lambda>(b, k). b \<noteq> a) ?armed))"
    using handled n(5) assms(2) by blast
  have "ngx_event_expire_timers handler s now ts = ngx_event_expire_timers handler s now ts'"
    using n late 1(1) 2(1) by (subst ngx_event_expire_timers.simps) simp
  moreover have "set (filter (due origin now) (filter (\<lambda>(b, k). b \<noteq> a) ?armed)) \<subset> set (filter (due origin now) ?armed)"
    using assms(3) by auto
  ultimately show ?thesis using 2 by blast
qed

lemma expire_ok:
  assumes "timers_ok s origin evs ts armed" "since origin now + reach < 9223372036854775808"
  shows "\<exists>ts' armed'. ngx_event_expire_timers handler s now ts = Some ts' \<and> timers_ok s origin evs ts' armed' \<and>
    list_all (\<lambda>(a, k). since origin now < since origin k) armed'"
  using assms(1)
proof (induction "card (set (filter (due origin now) armed))" arbitrary: ts armed rule: less_induct)
  case less
  have now: "near origin now" using assms(2) by (simp add: near_def)
  show ?case
  proof (cases armed)
    case Nil
    then have "ngx_event_expire_timers handler s now ts = Some ts"
      using armed_root [OF less.prems] by (subst ngx_event_expire_timers.simps) simp
    then show ?thesis using less.prems Nil by auto
  next
    case (Cons ak rest)
    obtain a k where ak: "ak = (a, k)" by (cases ak)
    note ok = less.prems [unfolded Cons ak]
    show ?thesis
    proof (cases "due origin now (a, k)")
      case True
      from expire_round [OF ok assms(2) True] obtain ts' armed' where
        r: "ngx_event_expire_timers handler s now ts = ngx_event_expire_timers handler s now ts'" "timers_ok s origin evs ts' armed'"
        "set (filter (due origin now) armed') \<subset> set (filter (due origin now) ((a, k) # rest))" by blast
      have "card (set (filter (due origin now) armed')) < card (set (filter (due origin now) armed))"
        unfolding Cons ak by (rule psubset_card_mono [OF finite_set r(3)])
      from less.hyps [OF this r(2)] r(1) show ?thesis by simp
    next
      case False
      from ok obtain n where n: "ngx_rbtree_min (rb_root (timer_tree ts)) s (timer_tree ts) = Some a"
        "rb_mem (timer_tree ts) a = Some n" "rb_key n = k" "near origin k" "rb_root (timer_tree ts) \<noteq> s"
        "list_all (\<lambda>(b, k'). since origin k \<le> since origin k') rest" by (rule first_timer)
      have "sint (k - now) > 0" using timer_rank_pos [OF n(4) now] False by (simp add: due_def)
      then have "ngx_event_expire_timers handler s now ts = Some ts"
        using n by (subst ngx_event_expire_timers.simps) simp
      moreover have "list_all (\<lambda>(a, k). since origin now < since origin k) armed"
        using n(6) False by (auto simp: Cons ak due_def list_all_iff)
      ultimately show ?thesis using less.prems by auto
    qed
  qed
qed

end

text \<open>A handler that leaves the timers alone, and one that sets its own again, a second later.\<close>

interpretation idle: timer_handler "\<lambda>s now ev ts. Some ts" 0
  by unfold_locales auto

lemma since_later:
  assumes "since origin now + unat d < 9223372036854775808"
  shows "since origin (now + d) = since origin now + unat d"
proof -
  have split: "now + d - origin = (now - origin) + d" by simp
  have "unat ((now - origin) + d) = unat (now - origin) + unat d"
    using assms by (intro unat_add_lem [THEN iffD1]) (simp add: since_def)
  then show ?thesis by (simp only: since_def split)
qed

definition rearm_second :: "addr \<Rightarrow> 64 word \<Rightarrow> addr \<Rightarrow> event_timers \<Rightarrow> event_timers option" where
  "rearm_second s now ev ts = ngx_event_add_timer s now ev 1000 ts"

interpretation rearm: timer_handler rearm_second 1000
proof unfold_locales
  fix s origin evs ts armed ev now
  assume a: "timers_ok s origin evs ts armed" "ev \<in> evs" "\<not> timer_set ts ev" "since origin now + 1000 < 9223372036854775808"
  have later: "since origin (now + 1000) = since origin now + 1000" using since_later [of origin now 1000] a(4) by simp
  then have "near origin (now + 1000)" using a(4) by (simp add: near_def)
  from add_timer_ok [OF a(1,2) this] obtain ts' where
    ts': "rearm_second s now ev ts = Some ts'" "timers_ok s origin evs ts' (rearmed origin ev (now + 1000) armed)"
    by (auto simp: rearm_second_def)
  have "rearmed origin ev (now + 1000) armed = put_in_order (\<lambda>(a, k). since origin k) (ev, now + 1000) armed"
    using not_set_filter [OF a(1,3)] by (auto simp: rearmed_def list_ex_iff)
  then have "set (filter (due origin now) (rearmed origin ev (now + 1000) armed)) \<subseteq> set (filter (due origin now) armed)"
    using later by (auto simp: set_put_in_order due_def)
  with ts' show "\<exists>ts' armed'. rearm_second s now ev ts = Some ts' \<and> timers_ok s origin evs ts' armed' \<and>
      set (filter (due origin now) armed') \<subseteq> set (filter (due origin now) armed)" by blast
qed

text \<open>
  What that condition excludes: a handler that sets its timer again without a delay. The loop then finds it
  due every time, and the code does not return.
\<close>

definition rearm_at_once :: "addr \<Rightarrow> 64 word \<Rightarrow> addr \<Rightarrow> event_timers \<Rightarrow> event_timers option" where
  "rearm_at_once s now ev ts = ngx_event_add_timer s now ev 0 ts"

definition some_due :: "addr \<Rightarrow> 64 word \<Rightarrow> event_timers \<Rightarrow> bool" where
  "some_due s now ts \<longleftrightarrow> (\<exists>origin evs a k rest. timers_ok s origin evs ts ((a, k) # rest) \<and> near origin now \<and> due origin now (a, k))"

lemma rearm_round:
  assumes "some_due s now ts"
  obtains a n ts1 ts' where "ngx_rbtree_min (rb_root (timer_tree ts)) s (timer_tree ts) = Some a"
    "rb_mem (timer_tree ts) a = Some n" "rb_root (timer_tree ts) \<noteq> s" "\<not> sint (rb_key n - now) > 0"
    "ngx_event_del_timer s a ts = Some ts1"
    "rearm_at_once s now a (ts1\<lparr>timedout := (timedout ts1)(a := True)\<rparr>) = Some ts'" "some_due s now ts'"
proof -
  obtain origin evs a k rest where ok: "timers_ok s origin evs ts ((a, k) # rest)" and now: "near origin now" "due origin now (a, k)"
    using assms unfolding some_due_def by blast
  obtain n where n: "ngx_rbtree_min (rb_root (timer_tree ts)) s (timer_tree ts) = Some a" "rb_mem (timer_tree ts) a = Some n"
    "rb_key n = k" "timer_set ts a" "a \<in> evs" "near origin k" "rb_root (timer_tree ts) \<noteq> s"
    using first_timer [OF ok] by blast
  have late: "\<not> sint (rb_key n - now) > 0" using timer_rank_pos [OF n(6) now(1)] now(2) by (simp add: due_def n(3))
  obtain ts1 where 1: "ngx_event_del_timer s a ts = Some ts1"
    "timers_ok s origin evs ts1 (filter (\<lambda>(b, k). b \<noteq> a) ((a, k) # rest))" "timer_set ts1 = (timer_set ts)(a := False)"
    using del_timer_ok [OF ok n(4)] by blast
  let ?ts = "ts1\<lparr>timedout := (timedout ts1)(a := True)\<rparr>" and ?left = "filter (\<lambda>(b, k). b \<noteq> a) ((a, k) # rest)"
  have ok1: "timers_ok s origin evs ?ts ?left" and unset: "\<not> timer_set ?ts a" using 1(2,3) by (simp_all add: timers_ok_def)
  obtain ts' where 2: "rearm_at_once s now a ?ts = Some ts'" "timers_ok s origin evs ts' (rearmed origin a now ?left)"
    using add_timer_ok [OF ok1 n(5), of now 0] now(1) by (auto simp: rearm_at_once_def)
  have "rearmed origin a now ?left = put_in_order (\<lambda>(a, k). since origin k) (a, now) ?left"
    using not_set_filter [OF ok1 unset] by (auto simp: rearmed_def list_ex_iff simp del: filter.simps)
  then have mem: "(a, now) \<in> set (rearmed origin a now ?left)" by (simp add: set_put_in_order del: filter.simps)
  then obtain b k' rest' where first: "rearmed origin a now ?left = (b, k') # rest'" by (cases "rearmed origin a now ?left") auto
  have "list_all (\<lambda>(c, k''). since origin k' \<le> since origin k'') rest'"
    using first_timer [OF 2(2) [unfolded first]] by blast
  then have "due origin now (b, k')" using mem unfolding first by (auto simp: due_def list_all_iff)
  then have "some_due s now ts'" using 2(2) now(1) unfolding first some_due_def by blast
  with n 1(1) 2(1) late that show thesis by blast
qed

lemma event_expire_timers_rearmed:
  assumes "some_due s now ts"
  shows "ngx_event_expire_timers rearm_at_once s now ts = None"
proof -
  have "handler = rearm_at_once \<longrightarrow> \<not> some_due s now ts"
    if "ngx_event_expire_timers handler s now ts = Some res" for handler s now ts res
  proof (rule ngx_event_expire_timers.raw_induct [of "\<lambda>h s n ts y. h = rearm_at_once \<longrightarrow> \<not> some_due s n ts", OF _ that], goal_cases)
    case (1 expire handler s now ts res)
    show ?case
    proof (intro impI notI)
      assume h: "handler = rearm_at_once" and due: "some_due s now ts"
      obtain a n ts1 ts' where r: "ngx_rbtree_min (rb_root (timer_tree ts)) s (timer_tree ts) = Some a"
        "rb_mem (timer_tree ts) a = Some n" "rb_root (timer_tree ts) \<noteq> s" "\<not> sint (rb_key n - now) > 0"
        "ngx_event_del_timer s a ts = Some ts1"
        "rearm_at_once s now a (ts1\<lparr>timedout := (timedout ts1)(a := True)\<rparr>) = Some ts'" "some_due s now ts'"
        using rearm_round [OF due] by blast
      have "expire rearm_at_once s now ts' = Some res" using 1(2) r by (simp add: h)
      from 1(1) [OF this] r(7) show False by simp
    qed
  qed
  then show ?thesis using assms by (cases "ngx_event_expire_timers rearm_at_once s now ts") blast+
qed

subsection \<open>Cancelled timers\<close>

lemma filter_first:
  assumes "distinct (map fst ((a, k) # rest))"
  shows "filter (\<lambda>(b, k). b \<noteq> a) ((a, k) # rest) = rest"
  using assms by (force simp: filter_id_conv)

lemma distinct_inorder: "apart t \<Longrightarrow> distinct (map fst (inorder t))"
  by (induction t) (auto simp: addrs_inorder)

lemma armed_distinct:
  assumes "timers_ok s origin evs ts armed"
  shows "distinct (map fst armed)"
proof -
  obtain rp t where "holds s rp (timer_tree ts) t" "inorder t = armed" by (rule timers_okE [OF assms])
  then show ?thesis by (auto simp: holds_def distinct_inorder)
qed

text \<open>Timers are cancelled in order, up to the first one whose event may not be.\<close>

lemma cancel_ok:
  assumes "timers_ok s origin evs ts armed"
  shows "\<exists>ts'. ngx_event_cancel_timers (\<lambda>ev. Some) cancelable s ts = Some ts' \<and>
    timers_ok s origin evs ts' (dropWhile (\<lambda>(a, k). cancelable a) armed)"
  using assms
proof (induction armed arbitrary: ts)
  case Nil
  then have "ngx_event_cancel_timers (\<lambda>ev. Some) cancelable s ts = Some ts"
    using armed_root [OF Nil] by (subst ngx_event_cancel_timers.simps) simp
  then show ?case using Nil by simp
next
  case (Cons ak rest)
  obtain a k where ak: "ak = (a, k)" by (cases ak)
  note ok = Cons.prems [unfolded ak]
  from ok obtain n where n: "ngx_rbtree_min (rb_root (timer_tree ts)) s (timer_tree ts) = Some a" "timer_set ts a"
    "rb_root (timer_tree ts) \<noteq> s" by (rule first_timer)
  show ?case
  proof (cases "cancelable a")
    case True
    from del_timer_ok [OF ok n(2)] obtain ts1 where 1: "ngx_event_del_timer s a ts = Some ts1"
      "timers_ok s origin evs ts1 rest"
      unfolding filter_first [OF armed_distinct [OF ok]] by blast
    have "ngx_event_cancel_timers (\<lambda>ev. Some) cancelable s ts = ngx_event_cancel_timers (\<lambda>ev. Some) cancelable s ts1"
      using n True 1(1) by (subst ngx_event_cancel_timers.simps) simp
    then show ?thesis using Cons.IH [OF 1(2)] True ak by simp
  next
    case False
    then have "ngx_event_cancel_timers (\<lambda>ev. Some) cancelable s ts = Some ts"
      using n by (subst ngx_event_cancel_timers.simps) simp
    then show ?thesis using ok False ak by simp
  qed
qed

subsection \<open>Properties\<close>

definition sample_timers :: event_timers where
  "sample_timers = \<lparr>timer_tree = sample_mem (- 5) 2, timer_set = (\<lambda>a. a = 2), timedout = (\<lambda>a. False)\<rparr>"

lemma sample_timers_ok: "timers_ok 1 (- 10) {2, 3} sample_timers [(2, - 5)]"
  using sample_holds(1) [where k = "- 5" and k' = 2]
  by (intro timers_okI [where rp = 0 and t = "T False E 2 (- 5) E"])
    (auto simp: sample_timers_def rb_ok_def ranked_def near_def since_def sample_mem_def)

text \<open>C4: \<open>ngx_event_add_timer\<close>, from any state of the timers, set or not: the timer of the event becomes
  the time \<open>ngx_current_msec + timer\<close>, behind the timers due by then; all others keep their place, and
  the tree that holds them stays a red-black tree in the order of the clock, also across its wrap. A
  set timer less than 300 ms away from the new time is left as it is.\<close>

theorem event_add_timer_correct:
  assumes "timers_ok s origin evs ts armed" "ev \<in> evs" "near origin (now + timer)"
  shows "\<exists>ts'. ngx_event_add_timer s now ev timer ts = Some ts' \<and>
    timers_ok s origin evs ts' (rearmed origin ev (now + timer) armed) \<and>
    timer_set ts' = (timer_set ts)(ev := True) \<and> timedout ts' = timedout ts"
  by (rule add_timer_ok [OF assms])

lemma event_add_timer_correct_witness:
  "\<exists>ts'. ngx_event_add_timer 1 (- 4) 3 6 sample_timers = Some ts' \<and>
    timers_ok 1 (- 10) {2, 3} ts' [(2, - 5), (3, 2)] \<and> timer_set ts' 3"
  using event_add_timer_correct [OF sample_timers_ok, of 3 "- 4" 6]
  by (auto simp: near_def since_def rearmed_def put_in_order_def)

text \<open>\<open>ngx_event_find_timer\<close> gives the time until the first set timer is due, 0 when it is due already
  and \<open>NGX_TIMER_INFINITE\<close> when none is set.\<close>

theorem event_find_timer_correct:
  assumes "timers_ok s origin evs ts armed" "near origin now"
  shows "ngx_event_find_timer s now ts = Some (case armed of
      [] \<Rightarrow> NGX_TIMER_INFINITE
    | (a, k) # _ \<Rightarrow> if since origin now < since origin k then k - now else 0)"
  by (rule find_timer_ok [OF assms])

lemma event_find_timer_correct_witness: "ngx_event_find_timer 1 (- 8) sample_timers = Some 3"
  using event_find_timer_correct [OF sample_timers_ok, of "- 8"] by (simp add: near_def since_def)

text \<open>C5: \<open>ngx_event_expire_timers\<close> returns, with no due timer left, for every handler that keeps the timers in
  order and makes none due at once (\<open>timer_handler\<close>): it may set, move and delete timers of any events, as long as the
  timers due after it are among those due before, and it sets none further ahead than \<open>reach\<close>, so that all
  stay within half the range of the clock. Without that the code does not return: see \<open>event_expire_timers_rearmed\<close>.\<close>

theorem event_expire_timers_returns:
  assumes "timer_handler handler reach" "timers_ok s origin evs ts armed"
    and "since origin now + reach < 9223372036854775808"
  shows "\<exists>ts' armed'. ngx_event_expire_timers handler s now ts = Some ts' \<and> timers_ok s origin evs ts' armed' \<and>
    list_all (\<lambda>(a, k). since origin now < since origin k) armed'"
  using timer_handler.expire_ok [OF assms(1)] assms(2,3) by blast

lemma event_expire_timers_returns_witness:
  "\<exists>ts' armed'. ngx_event_expire_timers rearm_second 1 4 sample_timers = Some ts' \<and>
    timers_ok 1 (- 10) {2, 3} ts' armed' \<and> list_all (\<lambda>(a, k). 14 < since (- 10) k) armed'"
  using event_expire_timers_returns [OF rearm.timer_handler_axioms sample_timers_ok, of 4]
  by (simp add: since_def)

text \<open>\<open>ngx_event_cancel_timers\<close> deletes, in the order of the timers, those of the events marked
  \<open>cancelable\<close>, up to the first that is not, and returns.\<close>

theorem event_cancel_timers_correct:
  assumes "timers_ok s origin evs ts armed"
  shows "\<exists>ts'. ngx_event_cancel_timers (\<lambda>ev. Some) cancelable s ts = Some ts' \<and>
    timers_ok s origin evs ts' (dropWhile (\<lambda>(a, k). cancelable a) armed)"
  by (rule cancel_ok [OF assms])

lemma event_cancel_timers_correct_witness:
  "\<exists>ts'. ngx_event_cancel_timers (\<lambda>ev. Some) (\<lambda>a. True) 1 sample_timers = Some ts' \<and>
    timers_ok 1 (- 10) {2, 3} ts' []"
  using event_cancel_timers_correct [OF sample_timers_ok, of "\<lambda>a. True"] by simp

end
