(* ===== verification/Parse.thy ===== *)
theory Parse
  imports Str_Num
begin

section \<open>Sizes, offsets and times of the configuration: \<open>src/core/ngx_parse.c\<close>\<close>

text \<open>
  \<open>ngx_parse_size\<close>, \<open>ngx_parse_offset\<close> and \<open>ngx_parse_time\<close>. The first two read the
  last byte of the string before anything else, which for an empty string is a read before
  the buffer: the value None. \<open>ngx_parse_time\<close> looks one byte ahead after an \<open>m\<close>, at the
  end of the string one byte behind it; \<open>after\<close> is what is stored there, None if nothing
  is. The units of \<open>ngx_parse_time\<close> are an enumeration whose order the code compares;
  it is an instance of \<open>linorder\<close> here.
\<close>

subsection \<open>\<open>ngx_parse_size\<close> and \<open>ngx_parse_offset\<close>\<close>

definition parse_scaled :: "(u_char list \<Rightarrow> int) \<Rightarrow> u_char list \<Rightarrow> nat \<Rightarrow> int \<Rightarrow> int \<Rightarrow> int" where
  "parse_scaled ato line len bound scale =
     (let size = ato (take len line)
      in if size = NGX_ERROR \<or> size > bound then NGX_ERROR else s64 (size * scale))"

definition ngx_parse_size :: "u_char list \<Rightarrow> int option" where
  "ngx_parse_size line =
     (let len = length line
      in if len = 0 then None
         else let unit = line ! (len - 1)
         in if unit = 0x4B \<or> unit = 0x6B then
              Some (parse_scaled ngx_atosz line (len - 1) (NGX_MAX_INT_T_VALUE div 1024) 1024)
            else if unit = 0x4D \<or> unit = 0x6D then
              Some (parse_scaled ngx_atosz line (len - 1)
                     (NGX_MAX_INT_T_VALUE div (1024 * 1024)) (1024 * 1024))
            else Some (parse_scaled ngx_atosz line len NGX_MAX_INT_T_VALUE 1))"

definition ngx_parse_offset :: "u_char list \<Rightarrow> int option" where
  "ngx_parse_offset line =
     (let len = length line
      in if len = 0 then None
         else let unit = line ! (len - 1)
         in if unit = 0x4B \<or> unit = 0x6B then
              Some (parse_scaled ngx_atoof line (len - 1) (NGX_MAX_INT_T_VALUE div 1024) 1024)
            else if unit = 0x4D \<or> unit = 0x6D then
              Some (parse_scaled ngx_atoof line (len - 1)
                     (NGX_MAX_INT_T_VALUE div (1024 * 1024)) (1024 * 1024))
            else if unit = 0x47 \<or> unit = 0x67 then
              Some (parse_scaled ngx_atoof line (len - 1)
                     (NGX_MAX_INT_T_VALUE div (1024 * 1024 * 1024)) (1024 * 1024 * 1024))
            else Some (parse_scaled ngx_atoof line len NGX_MAX_INT_T_VALUE 1))"

text \<open>The multiplier a suffix stands for, and the number in front of it.\<close>

definition suffix_scale :: "bool \<Rightarrow> u_char \<Rightarrow> int" where
  "suffix_scale giga unit =
     (if unit \<in> {0x4B, 0x6B} then 1024
      else if unit \<in> {0x4D, 0x6D} then 1048576
      else if giga \<and> unit \<in> {0x47, 0x67} then 1073741824
      else 1)"

definition scaled_number :: "bool \<Rightarrow> u_char list \<Rightarrow> int option" where
  "scaled_number giga line =
     (let scale = suffix_scale giga (last line);
          num = (if scale = 1 then line else butlast line)
      in case dec_number num of
           None \<Rightarrow> None
         | Some v \<Rightarrow> if v * scale \<le> NGX_MAX_INT_T_VALUE then Some (v * scale) else None)"

lemma parse_scaled_exact:
  assumes "0 < scale"
  shows "parse_scaled ngx_atoi line len (NGX_MAX_INT_T_VALUE div scale) scale =
     (case dec_number (take len line) of
        None \<Rightarrow> NGX_ERROR
      | Some v \<Rightarrow> if v * scale \<le> NGX_MAX_INT_T_VALUE then v * scale else NGX_ERROR)"
proof (cases "dec_number (take len line)")
  case None
  then show ?thesis by (simp add: parse_scaled_def atoi_exact or_error_def)
next
  case (Some v)
  with dec_number_range [OF Some] have v: "0 \<le> v" "v \<noteq> -1" by auto
  have "v \<le> NGX_MAX_INT_T_VALUE div scale \<longleftrightarrow> v * scale \<le> NGX_MAX_INT_T_VALUE"
    using assms by (rule le_zdiv_iff_mult_le)
  moreover have "0 \<le> v * scale" using v assms by simp
  ultimately show ?thesis
    using Some v by (auto simp: parse_scaled_def atoi_exact or_error_def not_le)
qed

lemma suffix_split:
  assumes "line \<noteq> []"
  shows "take (length line - 1) line = butlast line" "line ! (length line - 1) = last line"
  using assms by (simp_all add: butlast_conv_take last_conv_nth)

lemma parse_scaled_bound:
  "parse_scaled ngx_atoi line len (NGX_MAX_INT_T_VALUE div 1024) 1024 =
     or_error (case dec_number (take len line) of None \<Rightarrow> None
       | Some v \<Rightarrow> if v * 1024 \<le> NGX_MAX_INT_T_VALUE then Some (v * 1024) else None)"
  "parse_scaled ngx_atoi line len (NGX_MAX_INT_T_VALUE div 1048576) 1048576 =
     or_error (case dec_number (take len line) of None \<Rightarrow> None
       | Some v \<Rightarrow> if v * 1048576 \<le> NGX_MAX_INT_T_VALUE then Some (v * 1048576) else None)"
  "parse_scaled ngx_atoi line len (NGX_MAX_INT_T_VALUE div 1073741824) 1073741824 =
     or_error (case dec_number (take len line) of None \<Rightarrow> None
       | Some v \<Rightarrow> if v * 1073741824 \<le> NGX_MAX_INT_T_VALUE then Some (v * 1073741824) else None)"
  "parse_scaled ngx_atoi line len NGX_MAX_INT_T_VALUE 1 =
     or_error (case dec_number (take len line) of None \<Rightarrow> None
       | Some v \<Rightarrow> if v * 1 \<le> NGX_MAX_INT_T_VALUE then Some (v * 1) else None)"
  using parse_scaled_exact [of 1024 line len] parse_scaled_exact [of 1048576 line len]
    parse_scaled_exact [of 1073741824 line len] parse_scaled_exact [of 1 line len]
  by (auto simp: or_error_def split: option.splits)

lemma parse_size_exact:
  "ngx_parse_size line = (if line = [] then None else Some (or_error (scaled_number False line)))"
  using suffix_split [of line]
  by (auto simp: ngx_parse_size_def scaled_number_def suffix_scale_def Let_def
      parse_scaled_bound [simplified])

lemma parse_offset_exact:
  "ngx_parse_offset line = (if line = [] then None else Some (or_error (scaled_number True line)))"
  using suffix_split [of line]
  by (auto simp: ngx_parse_offset_def scaled_number_def suffix_scale_def Let_def
      parse_scaled_bound [simplified])

subsection \<open>\<open>ngx_parse_time\<close>\<close>

datatype time_step =
  st_start | st_year | st_month | st_week | st_day | st_hour | st_min | st_sec | st_msec | st_last

fun step_no :: "time_step \<Rightarrow> nat" where
  "step_no st_start = 0" | "step_no st_year = 1" | "step_no st_month = 2" | "step_no st_week = 3"
| "step_no st_day = 4" | "step_no st_hour = 5" | "step_no st_min = 6" | "step_no st_sec = 7"
| "step_no st_msec = 8" | "step_no st_last = 9"

lemma step_no_inj: "step_no a = step_no b \<Longrightarrow> a = b"
  by (cases a; cases b) simp_all

instantiation time_step :: linorder
begin

definition less_eq_time_step :: "time_step \<Rightarrow> time_step \<Rightarrow> bool" where
  "less_eq_time_step a b \<longleftrightarrow> step_no a \<le> step_no b"

definition less_time_step :: "time_step \<Rightarrow> time_step \<Rightarrow> bool" where
  "less_time_step a b \<longleftrightarrow> step_no a < step_no b"

instance
  by standard (auto simp: less_eq_time_step_def less_time_step_def dest: step_no_inj)

end

lemmas time_step_order [simp] = less_eq_time_step_def less_time_step_def

text \<open>
  The unit switch: the byte that follows the digits, with the bytes after it. It is a read
  that faults, an error, or the new step with its bound \<open>max\<close>, its \<open>scale\<close> and the bytes
  left (one less after \<open>ms\<close>).
\<close>

datatype unit_result =
    Bad_read
  | Bad_unit
  | Unit time_step int int "u_char list"

definition parse_time_unit ::
  "bool \<Rightarrow> time_step \<Rightarrow> u_char \<Rightarrow> u_char list \<Rightarrow> u_char option \<Rightarrow> unit_result"
where
  "parse_time_unit is_sec step c rest after =
     (if c = 0x79 then
        if step > st_start then Bad_unit
        else Unit st_year (NGX_MAX_INT_T_VALUE div (60 * 60 * 24 * 365)) (60 * 60 * 24 * 365) rest
      else if c = 0x4D then
        if step \<ge> st_month then Bad_unit
        else Unit st_month (NGX_MAX_INT_T_VALUE div (60 * 60 * 24 * 30)) (60 * 60 * 24 * 30) rest
      else if c = 0x77 then
        if step \<ge> st_week then Bad_unit
        else Unit st_week (NGX_MAX_INT_T_VALUE div (60 * 60 * 24 * 7)) (60 * 60 * 24 * 7) rest
      else if c = 0x64 then
        if step \<ge> st_day then Bad_unit
        else Unit st_day (NGX_MAX_INT_T_VALUE div (60 * 60 * 24)) (60 * 60 * 24) rest
      else if c = 0x68 then
        if step \<ge> st_hour then Bad_unit
        else Unit st_hour (NGX_MAX_INT_T_VALUE div (60 * 60)) (60 * 60) rest
      else if c = 0x6D then
        (case (case rest of [] \<Rightarrow> after | x # xs \<Rightarrow> Some x) of
           None \<Rightarrow> Bad_read
         | Some x \<Rightarrow>
             if x = 0x73 then
               if is_sec \<or> step \<ge> st_msec then Bad_unit
               else Unit st_msec NGX_MAX_INT_T_VALUE 1 (tl rest)
             else if step \<ge> st_min then Bad_unit
             else Unit st_min (NGX_MAX_INT_T_VALUE div 60) 60 rest)
      else if c = 0x73 then
        if step \<ge> st_sec then Bad_unit else Unit st_sec NGX_MAX_INT_T_VALUE 1 rest
      else if c = ch_SP then
        if step \<ge> st_sec then Bad_unit else Unit st_last NGX_MAX_INT_T_VALUE 1 rest
      else Bad_unit)"

text \<open>The value after the loop: a trailing number without a unit.\<close>

definition parse_time_end :: "bool \<Rightarrow> int \<Rightarrow> int \<Rightarrow> bool \<Rightarrow> int" where
  "parse_time_end is_sec value tot valid =
     (if \<not> valid then NGX_ERROR
      else if \<not> is_sec \<and> value > NGX_MAX_INT_T_VALUE div 1000 then NGX_ERROR
      else let value = (if is_sec then value else s64 (value * 1000))
        in if tot > s64 (NGX_MAX_INT_T_VALUE - value) then NGX_ERROR else s64 (tot + value))"

lemma length_tl_le: "length (tl xs) \<le> length xs"
  by (cases xs) auto

lemma parse_time_unit_shorter:
  "parse_time_unit is_sec step c rest after = Unit st bound scale rest' \<Longrightarrow> length rest' \<le> length rest"
  by (auto simp: parse_time_unit_def length_tl_le split: if_splits option.splits list.splits)

function parse_time_loop ::
  "bool \<Rightarrow> u_char option \<Rightarrow> time_step \<Rightarrow> int \<Rightarrow> int \<Rightarrow> bool \<Rightarrow> u_char list \<Rightarrow> int option"
where
  "parse_time_loop is_sec after step value tot valid [] =
     Some (parse_time_end is_sec value tot valid)"
| "parse_time_loop is_sec after step value tot valid (c # rest) =
     (if c \<ge> ch_0 \<and> c \<le> ch_9 then
        if value \<ge> NGX_MAX_INT_T_VALUE div 10 \<and>
           (value > NGX_MAX_INT_T_VALUE div 10 \<or> uint c - uint ch_0 > NGX_MAX_INT_T_VALUE mod 10)
        then Some NGX_ERROR
        else parse_time_loop is_sec after step (s64 (value * 10 + (uint c - uint ch_0))) tot True rest
      else case parse_time_unit is_sec step c rest after of
        Bad_read \<Rightarrow> None
      | Bad_unit \<Rightarrow> Some NGX_ERROR
      | Unit step bound scale rest' \<Rightarrow>
          let scale = (if step \<noteq> st_msec \<and> \<not> is_sec then scale * 1000 else scale);
              bound = (if step \<noteq> st_msec \<and> \<not> is_sec then bound div 1000 else bound);
              value' = s64 (value * scale)
          in if value > bound then Some NGX_ERROR
             else if tot > s64 (NGX_MAX_INT_T_VALUE - value') then Some NGX_ERROR
             else parse_time_loop is_sec after step 0 (s64 (tot + value')) valid
                    (dropWhile (\<lambda>x. x = ch_SP) rest'))"
  by pat_completeness auto
termination
proof (relation "measure (\<lambda>(is_sec, after, step, value, tot, valid, line). length line)", goal_cases)
  case (3 is_sec after st v t ok c rest st' b sc rest')
  then show ?case
    using parse_time_unit_shorter [of is_sec st c rest after]
    by (auto intro: order_trans [OF length_dropWhile_le] simp: less_Suc_eq_le)
qed auto

definition ngx_parse_time :: "u_char list \<Rightarrow> u_char option \<Rightarrow> bool \<Rightarrow> int option" where
  "ngx_parse_time line after is_sec =
     parse_time_loop is_sec after (if is_sec then st_start else st_month) 0 0 False line"

lemma parse_time_unit_bound:
  "parse_time_unit is_sec step c rest after = Unit st bound scale rest' \<Longrightarrow>
     0 < scale \<and> bound = NGX_MAX_INT_T_VALUE div scale"
  by (auto simp: parse_time_unit_def split: if_splits option.splits list.splits)

lemma parse_time_scale:
  assumes "parse_time_unit is_sec step c rest after = Unit st bound scale rest'"
    and "sc = (if st \<noteq> st_msec \<and> \<not> is_sec then scale * 1000 else scale)"
    and "bd = (if st \<noteq> st_msec \<and> \<not> is_sec then bound div 1000 else bound)"
  shows "0 < sc" "v \<le> bd \<longleftrightarrow> v * sc \<le> NGX_MAX_INT_T_VALUE"
proof -
  note b = parse_time_unit_bound [OF assms(1)]
  then have "bound div 1000 = NGX_MAX_INT_T_VALUE div (scale * 1000)"
    by (simp add: zdiv_zmult2_eq)
  with b assms(2,3) have "0 < sc \<and> bd = NGX_MAX_INT_T_VALUE div sc" by auto
  then show "0 < sc" "v \<le> bd \<longleftrightarrow> v * sc \<le> NGX_MAX_INT_T_VALUE"
    by (auto simp: le_zdiv_iff_mult_le)
qed

definition time_result :: "int \<Rightarrow> bool" where
  "time_result v \<longleftrightarrow> v = NGX_ERROR \<or> (0 \<le> v \<and> v \<le> NGX_MAX_INT_T_VALUE)"

lemma digit_step_fits:
  assumes "0 \<le> v" "v \<le> NGX_MAX_INT_T_VALUE" "c \<ge> ch_0" "c \<le> ch_9"
    and "\<not> (v \<ge> 922337203685477580 \<and> (v > 922337203685477580 \<or> uint c - 48 > 7))"
  shows "0 \<le> v * 10 + (uint c - 48)" "v * 10 + (uint c - 48) \<le> NGX_MAX_INT_T_VALUE"
  using assms by (auto simp: byte_simps)

lemma parse_time_loop_range:
  assumes "0 \<le> v" "v \<le> NGX_MAX_INT_T_VALUE" "0 \<le> t" "t \<le> NGX_MAX_INT_T_VALUE"
    and "parse_time_loop is_sec after st v t ok line = Some r"
  shows "time_result r"
  using assms
proof (induction is_sec after st v t ok line rule: parse_time_loop.induct)
  case (1 is_sec after st v t ok)
  then show ?case
    by (auto simp: parse_time_end_def time_result_def Let_def split: if_splits)
next
  case (2 is_sec after st v t ok c rest)
  show ?case
  proof (cases "c \<ge> ch_0 \<and> c \<le> ch_9")
    case digit: True
    let ?over = "v \<ge> NGX_MAX_INT_T_VALUE div 10 \<and>
      (v > NGX_MAX_INT_T_VALUE div 10 \<or> uint c - uint ch_0 > NGX_MAX_INT_T_VALUE mod 10)"
    show ?thesis
    proof (cases ?over)
      case True
      then have "parse_time_loop is_sec after st v t ok (c # rest) = Some NGX_ERROR"
        using digit by (simp only: parse_time_loop.simps simp_thms if_True)
      with 2(7) show ?thesis by (simp add: time_result_def)
    next
      case False
      then have "0 \<le> v * 10 + (uint c - 48) \<and> v * 10 + (uint c - 48) \<le> NGX_MAX_INT_T_VALUE"
        using digit_step_fits [of v c] digit 2(3,4) by simp
      moreover have "parse_time_loop is_sec after st (s64 (v * 10 + (uint c - uint ch_0))) t True rest = Some r"
        using 2(7) digit False by (simp only: parse_time_loop.simps simp_thms if_True if_False)
      ultimately show ?thesis
        using 2(1) [OF digit False] 2(5,6) by simp
    qed
  next
    case False
    show ?thesis
    proof (cases "parse_time_unit is_sec st c rest after")
      case (Unit st' b sc rest')
      define sc' where "sc' = (if st' \<noteq> st_msec \<and> \<not> is_sec then sc * 1000 else sc)"
      define b' where "b' = (if st' \<noteq> st_msec \<and> \<not> is_sec then b div 1000 else b)"
      note sc = parse_time_scale [OF Unit sc'_def b'_def]
      show ?thesis
      proof (cases "v > b' \<or> t > s64 (NGX_MAX_INT_T_VALUE - s64 (v * sc'))")
        case True
        with 2(7) False Unit show ?thesis
          by (auto simp: time_result_def Let_def sc'_def b'_def split: if_splits)
      next
        case fits: False
        with sc 2(3,4) have "0 \<le> v * sc'" "v * sc' \<le> NGX_MAX_INT_T_VALUE" by (auto simp: not_less)
        with fits 2(5,6) have tot: "0 \<le> s64 (t + s64 (v * sc'))" "s64 (t + s64 (v * sc')) \<le> NGX_MAX_INT_T_VALUE"
          by auto
        have rec: "parse_time_loop is_sec after st' 0 (s64 (t + s64 (v * sc'))) ok
            (dropWhile (\<lambda>x. x = ch_SP) rest') = Some r"
          using 2(7) False Unit fits by (simp add: Let_def sc'_def b'_def)
        show ?thesis
          by (rule 2(2) [OF False Unit sc'_def b'_def refl _ _ _ _ tot rec]) (use fits in simp_all)
      qed
    qed (use 2(7) False in \<open>auto simp: time_result_def\<close>)
  qed
qed

text \<open>Only a final \<open>m\<close> with unreadable memory behind it makes the function read too far.\<close>

lemma parse_time_unit_read:
  "parse_time_unit is_sec st c rest after = Bad_read \<Longrightarrow> after = None"
  by (auto simp: parse_time_unit_def split: if_splits option.splits list.splits)

lemma parse_time_loop_reads:
  "parse_time_loop is_sec after st v t ok line = None \<Longrightarrow> after = None"
proof (induction is_sec after st v t ok line rule: parse_time_loop.induct)
  case (2 is_sec after st v t ok c rest)
  show ?case
  proof (cases "c \<ge> ch_0 \<and> c \<le> ch_9")
    case True
    with "2.prems" "2.IH"(1) show ?thesis by (simp split: if_splits)
  next
    case False
    show ?thesis
    proof (cases "parse_time_unit is_sec st c rest after")
      case Bad_read
      then show ?thesis by (rule parse_time_unit_read)
    next
      case Bad_unit
      with "2.prems" False show ?thesis by simp
    next
      case (Unit st' b sc rest')
      with "2.prems" "2.IH"(2) [OF False Unit refl refl refl] False show ?thesis
        by (simp add: Let_def split: if_splits)
    qed
  qed
qed simp

text \<open>
  The language the function accepts, as a printer: units in the order of the code, each
  with its number and any number of spaces, and possibly a last number without a unit,
  which counts seconds.
\<close>

datatype time_unit = Year | Month | Week | Day | Hour | Minute | Second | Millisecond

fun unit_step :: "time_unit \<Rightarrow> time_step" where
  "unit_step Year = st_year" | "unit_step Month = st_month" | "unit_step Week = st_week"
| "unit_step Day = st_day" | "unit_step Hour = st_hour" | "unit_step Minute = st_min"
| "unit_step Second = st_sec" | "unit_step Millisecond = st_msec"

fun unit_text :: "time_unit \<Rightarrow> u_char list" where
  "unit_text Year = bytes ''y''" | "unit_text Month = bytes ''M''"
| "unit_text Week = bytes ''w''" | "unit_text Day = bytes ''d''"
| "unit_text Hour = bytes ''h''" | "unit_text Minute = bytes ''m''"
| "unit_text Second = bytes ''s''" | "unit_text Millisecond = bytes ''ms''"

fun unit_secs :: "time_unit \<Rightarrow> int" where
  "unit_secs Year = 31536000" | "unit_secs Month = 2592000" | "unit_secs Week = 604800"
| "unit_secs Day = 86400" | "unit_secs Hour = 3600" | "unit_secs Minute = 60"
| "unit_secs Second = 1" | "unit_secs Millisecond = 1"

definition unit_scale :: "bool \<Rightarrow> time_unit \<Rightarrow> int" where
  "unit_scale is_sec u = (if is_sec \<or> u = Millisecond then unit_secs u else unit_secs u * 1000)"

definition unit_allowed :: "bool \<Rightarrow> time_unit \<Rightarrow> bool" where
  "unit_allowed is_sec u \<longleftrightarrow> (if is_sec then u \<noteq> Millisecond else u \<noteq> Year \<and> u \<noteq> Month)"

type_synonym time_token = "nat \<times> time_unit \<times> nat"

fun token_text :: "time_token \<Rightarrow> u_char list" where
  "token_text (n, u, spaces) = sprintf_dec n [] @ unit_text u @ replicate spaces ch_SP"

fun token_value :: "bool \<Rightarrow> time_token \<Rightarrow> int" where
  "token_value is_sec (n, u, spaces) = int n * unit_scale is_sec u"

definition rest_text :: "nat option \<Rightarrow> u_char list" where
  "rest_text t = (case t of None \<Rightarrow> [] | Some n \<Rightarrow> sprintf_dec n [])"

definition rest_value :: "bool \<Rightarrow> nat option \<Rightarrow> int" where
  "rest_value is_sec t = (case t of None \<Rightarrow> 0 | Some n \<Rightarrow> int n * (if is_sec then 1 else 1000))"

definition time_text :: "time_token list \<Rightarrow> nat option \<Rightarrow> u_char list" where
  "time_text toks t = concat (map token_text toks) @ rest_text t"

definition time_value :: "bool \<Rightarrow> time_token list \<Rightarrow> nat option \<Rightarrow> int" where
  "time_value is_sec toks t = sum_list (map (token_value is_sec) toks) + rest_value is_sec t"

text \<open>Tokens the function accepts after step \<open>st\<close>: strictly later units, in order.\<close>

fun tokens_after :: "bool \<Rightarrow> time_step \<Rightarrow> time_token list \<Rightarrow> bool" where
  "tokens_after is_sec st [] = True"
| "tokens_after is_sec st ((n, u, spaces) # toks) =
     (st < unit_step u \<and> unit_allowed is_sec u \<and> tokens_after is_sec (unit_step u) toks)"

lemma unit_scale_pos: "0 < unit_scale is_sec u"
  by (cases u) (simp_all add: unit_scale_def)

lemma token_value_nonneg: "0 \<le> token_value is_sec tok"
  using unit_scale_pos by (cases tok) (simp add: less_imp_le)

lemma rest_value_nonneg: "0 \<le> rest_value is_sec t"
  by (simp add: rest_value_def split: option.split)

lemma time_value_Cons:
  "time_value is_sec (tok # toks) t = token_value is_sec tok + time_value is_sec toks t"
  by (simp add: time_value_def)

lemma time_value_nonneg: "0 \<le> time_value is_sec toks t"
proof (induction toks)
  case Nil
  then show ?case by (simp add: time_value_def rest_value_nonneg)
next
  case (Cons tok toks)
  with token_value_nonneg [of is_sec tok] show ?case by (simp only: time_value_Cons add_nonneg_nonneg)
qed

lemma time_text_Cons: "time_text (tok # toks) t = token_text tok @ time_text toks t"
  by (simp add: time_text_def)

lemma sprintf_dec_hd: "\<exists>d ds. sprintf_dec n [] = d # ds \<and> is_digit d"
proof -
  have "sprintf_dec n [] \<noteq> []" by (simp add: sprintf_dec_unfold [of n])
  then obtain d ds where "sprintf_dec n [] = d # ds" by (cases "sprintf_dec n []") auto
  with sprintf_dec_val [of n] show ?thesis by simp
qed

text \<open>What follows a token is the end of the text or a digit: not a space and not an \<open>s\<close>.\<close>

lemma time_text_hd:
  assumes "time_text toks t = c # cs"
  shows "is_digit c"
proof (cases toks)
  case Nil
  with assms obtain n where "sprintf_dec n [] = c # cs"
    by (auto simp: time_text_def rest_text_def split: option.splits)
  with sprintf_dec_hd [of n] show ?thesis by auto
next
  case (Cons tok toks')
  with assms sprintf_dec_hd [of "fst tok"] show ?thesis
    by (cases tok) (auto simp: time_text_Cons)
qed

lemma drop_spaces_text:
  "dropWhile (\<lambda>x. x = ch_SP) (replicate k ch_SP @ time_text toks t) = time_text toks t"
proof (induction k)
  case 0
  show ?case
  proof (cases "time_text toks t")
    case (Cons c cs)
    with time_text_hd [OF Cons] show ?thesis by (auto simp: is_digit_def)
  qed simp
qed simp

lemma parse_time_digits:
  assumes "list_all is_digit ds" "0 \<le> v" "v * 10 ^ length ds + dec_val ds \<le> NGX_MAX_INT_T_VALUE"
    and "ds \<noteq> []"
  shows "parse_time_loop is_sec after st v t ok (ds @ rest) =
     parse_time_loop is_sec after st (v * 10 ^ length ds + dec_val ds) t True rest"
  using assms
proof (induction ds arbitrary: v ok)
  case (Cons d ds)
  let ?v = "v * 10 + (uint d - 48)"
  have val: "v * 10 ^ length (d # ds) + dec_val (d # ds) = ?v * 10 ^ length ds + dec_val ds"
    by (simp add: dec_val_Cons algebra_simps)
  have d: "d \<ge> ch_0" "d \<le> ch_9" "0 \<le> uint d - 48" "uint d - 48 \<le> 9"
    using Cons.prems(1) by (auto simp: is_digit_def byte_simps)
  have "0 \<le> dec_val ds" using Cons.prems(1) by (intro dec_val_nonneg) simp
  then have fits: "?v \<le> NGX_MAX_INT_T_VALUE"
    using scaled_too_big0 [of ?v "dec_val ds" "length ds"] Cons.prems(3) val by fastforce
  have "\<not> (v \<ge> 922337203685477580 \<and> (v > 922337203685477580 \<or> uint d - 48 > 7))"
    using fits d by linarith
  then have "\<not> (v \<ge> 922337203685477580 \<and> (v > 922337203685477580 \<or> 55 < uint d))"
    by linarith
  with d fits Cons.prems(2)
  have "parse_time_loop is_sec after st v t ok ((d # ds) @ rest) =
      parse_time_loop is_sec after st ?v t True (ds @ rest)"
    by auto
  moreover have "parse_time_loop is_sec after st ?v t True (ds @ rest) =
      parse_time_loop is_sec after st (?v * 10 ^ length ds + dec_val ds) t True rest"
  proof (cases ds)
    case (Cons a list)
    then show ?thesis
      using Cons.IH [of ?v True] Cons.prems val d by simp
  qed simp
  ultimately show ?case by (simp only: val)
qed simp

text \<open>One token: the unit switch accepts the unit's text, whatever may follow it.\<close>

lemma parse_time_unit_text:
  assumes "st < unit_step u" "unit_allowed is_sec u" "after = Some a" "a \<noteq> 0x73"
    and "rest = [] \<or> hd rest \<noteq> 0x73"
  shows "\<exists>c cs. unit_text u @ rest = c # cs \<and> \<not> (c \<ge> ch_0 \<and> c \<le> ch_9) \<and>
    parse_time_unit is_sec st c cs after =
      Unit (unit_step u) (NGX_MAX_INT_T_VALUE div unit_secs u) (unit_secs u) rest"
  using assms
  by (cases u) (auto simp: parse_time_unit_def unit_allowed_def split: list.splits if_splits)

lemma unit_step_msec: "unit_step u = st_msec \<longleftrightarrow> u = Millisecond"
  by (cases u) auto

lemma parse_time_token:
  assumes "st < unit_step u" "unit_allowed is_sec u" "after = Some a" "a \<noteq> 0x73"
    and "0 \<le> t" "t + int n * unit_scale is_sec u \<le> NGX_MAX_INT_T_VALUE"
  shows "parse_time_loop is_sec after st 0 t ok (token_text (n, u, k) @ time_text toks extra) =
     parse_time_loop is_sec after (unit_step u) 0 (t + int n * unit_scale is_sec u) True (time_text toks extra)"
proof -
  let ?s = "unit_scale is_sec u" and ?rest = "replicate k ch_SP @ time_text toks extra"
  have s: "1 \<le> ?s" "0 < unit_secs u" by (cases u; simp add: unit_scale_def)+
  then have "int n * 1 \<le> int n * ?s" by (intro mult_left_mono) auto
  then have n: "int n \<le> NGX_MAX_INT_T_VALUE" using assms(5,6) by simp
  have sum: "0 \<le> int n * ?s" "int n * ?s \<le> NGX_MAX_INT_T_VALUE" using s assms(5,6) by auto
  have after_unit: "?rest = [] \<or> hd ?rest \<noteq> 0x73"
  proof (cases k)
    case 0
    then show ?thesis
      using time_text_hd [of toks extra] by (cases "time_text toks extra") (auto simp: is_digit_def)
  qed simp
  from parse_time_unit_text [OF assms(1-4) after_unit]
  obtain c cs where "unit_text u @ ?rest = c # cs \<and> \<not> (c \<ge> ch_0 \<and> c \<le> ch_9) \<and>
    parse_time_unit is_sec st c cs after =
      Unit (unit_step u) (NGX_MAX_INT_T_VALUE div unit_secs u) (unit_secs u) ?rest"
    by (elim exE)
  then have c: "unit_text u @ ?rest = c # cs" "\<not> (c \<ge> ch_0 \<and> c \<le> ch_9)"
    "parse_time_unit is_sec st c cs after =
       Unit (unit_step u) (NGX_MAX_INT_T_VALUE div unit_secs u) (unit_secs u) ?rest"
    by simp_all
  have scale: "(if unit_step u \<noteq> st_msec \<and> \<not> is_sec then unit_secs u * 1000 else unit_secs u) = ?s"
    by (auto simp: unit_scale_def unit_step_msec)
  have bound: "int n \<le> (if unit_step u \<noteq> st_msec \<and> \<not> is_sec
      then NGX_MAX_INT_T_VALUE div unit_secs u div 1000 else NGX_MAX_INT_T_VALUE div unit_secs u)"
    using parse_time_scale(2) [OF c(3) refl refl, of "int n"] sum by (simp only: scale)
  have "token_text (n, u, k) @ time_text toks extra = sprintf_dec n [] @ unit_text u @ ?rest" by simp
  then have "parse_time_loop is_sec after st 0 t ok (token_text (n, u, k) @ time_text toks extra) =
      parse_time_loop is_sec after st (int n) t True (c # cs)"
    using parse_time_digits [of "sprintf_dec n []" 0 is_sec after st t ok "unit_text u @ ?rest"]
      sprintf_dec_val [of n] sprintf_dec_hd [of n] n c(1) by auto
  also have "\<dots> = parse_time_loop is_sec after (unit_step u) 0 (t + int n * ?s) True
      (dropWhile (\<lambda>x. x = ch_SP) ?rest)"
    unfolding parse_time_loop.simps if_not_P [OF c(2)]
    using c(3) scale bound sum assms(5,6) by (simp add: Let_def not_less)
  finally show ?thesis by (simp only: drop_spaces_text)
qed

lemma parse_time_rest:
  assumes "0 \<le> t" "t + rest_value is_sec extra \<le> NGX_MAX_INT_T_VALUE" "ok \<or> extra \<noteq> None"
  shows "parse_time_loop is_sec after st 0 t ok (rest_text extra) = Some (t + rest_value is_sec extra)"
proof (cases extra)
  case None
  with assms show ?thesis
    by (simp add: rest_text_def rest_value_def parse_time_end_def Let_def)
next
  case (Some n)
  let ?v = "int n * (if is_sec then 1 else 1000)"
  have v: "0 \<le> ?v" "t + ?v \<le> NGX_MAX_INT_T_VALUE" "int n \<le> NGX_MAX_INT_T_VALUE"
    using assms(1,2) Some by (auto simp: rest_value_def split: if_splits)
  have "parse_time_loop is_sec after st 0 t ok (rest_text extra) = Some (parse_time_end is_sec (int n) t True)"
    using parse_time_digits [of "sprintf_dec n []" 0 is_sec after st t ok "[]"]
      sprintf_dec_val [of n] sprintf_dec_hd [of n] v Some by (auto simp: rest_text_def)
  also have "parse_time_end is_sec (int n) t True = t + ?v"
    using v assms(1) by (auto simp: parse_time_end_def Let_def)
  finally show ?thesis using Some by (simp add: rest_value_def)
qed

lemma parse_time_tokens:
  assumes "tokens_after is_sec st toks" "after = Some a" "a \<noteq> 0x73" "0 \<le> t"
    and "t + time_value is_sec toks extra \<le> NGX_MAX_INT_T_VALUE" "ok \<or> toks \<noteq> [] \<or> extra \<noteq> None"
  shows "parse_time_loop is_sec after st 0 t ok (time_text toks extra) = Some (t + time_value is_sec toks extra)"
  using assms
proof (induction toks arbitrary: st t ok)
  case Nil
  then show ?case by (simp add: parse_time_rest time_text_def time_value_def)
next
  case (Cons tok toks)
  obtain n u k where tok: "tok = (n, u, k)" by (cases tok)
  let ?v = "int n * unit_scale is_sec u"
  have v: "0 \<le> ?v" "t + (?v + time_value is_sec toks extra) \<le> NGX_MAX_INT_T_VALUE"
    using Cons.prems(5) unit_scale_pos [of is_sec u] by (simp_all add: tok time_value_Cons)
  moreover have "0 \<le> time_value is_sec toks extra" by (rule time_value_nonneg)
  ultimately have "t + ?v \<le> NGX_MAX_INT_T_VALUE" by linarith
  then have "parse_time_loop is_sec after st 0 t ok (time_text (tok # toks) extra) =
      parse_time_loop is_sec after (unit_step u) 0 (t + ?v) True (time_text toks extra)"
    unfolding tok time_text_Cons
    by (intro parse_time_token) (use Cons.prems(1-4) tok in auto)
  also have "\<dots> = Some (t + ?v + time_value is_sec toks extra)"
    by (rule Cons.IH) (use Cons.prems v tok in auto)
  finally show ?case by (simp add: tok time_value_Cons)
qed

subsection \<open>Properties\<close>

text \<open>Sizes and offsets: for a non-empty string both functions return the number in front of a
  \<open>k\<close>, \<open>m\<close> (and for offsets \<open>g\<close>) suffix of either case times its multiplier, exactly when
  that product fits 63 bits, and \<open>NGX_ERROR\<close> otherwise. An empty string is read out of
  bounds.\<close>

theorem ngx_parse_size_correct:
  "ngx_parse_size line = (if line = [] then None else Some (or_error (scaled_number False line))) \<and>
   ngx_parse_offset line = (if line = [] then None else Some (or_error (scaled_number True line)))"
  by (simp add: parse_size_exact parse_offset_exact)

text \<open>Times: the text of any sequence of number and unit pairs in decreasing order of the unit,
  with spaces after the units and possibly a last number without a unit, is parsed to the
  sum of the products in seconds (or in milliseconds), as long as the sum fits; the byte
  behind the string must be readable and not an \<open>s\<close>.\<close>

theorem ngx_parse_time_value:
  assumes "tokens_after is_sec (if is_sec then st_start else st_month) toks"
    and "toks \<noteq> [] \<or> extra \<noteq> None" and "after = Some a" and "a \<noteq> 0x73"
    and "time_value is_sec toks extra \<le> NGX_MAX_INT_T_VALUE"
  shows "ngx_parse_time (time_text toks extra) after is_sec = Some (time_value is_sec toks extra)"
  using parse_time_tokens [OF assms(1,3,4), of 0 extra False] assms(2,5)
  by (simp add: ngx_parse_time_def)

theorem ngx_parse_time_value_witness:
  "ngx_parse_time (bytes ''1h 30m15'') (Some ch_NUL) True = Some 5415"
proof -
  have digits: "sprintf_dec (Suc 0) [] = bytes ''1''" "sprintf_dec 30 [] = bytes ''30''"
    "sprintf_dec 15 [] = bytes ''15''"
    by code_simp+
  have "ngx_parse_time (time_text [(1, Hour, 1), (30, Minute, 0)] (Some 15)) (Some ch_NUL) True =
      Some (time_value True [(1, Hour, 1), (30, Minute, 0)] (Some 15))"
    by (rule ngx_parse_time_value [where a = ch_NUL])
       (simp_all add: unit_allowed_def time_value_def rest_value_def unit_scale_def)
  then show ?thesis
    by (simp add: time_text_def time_value_def rest_text_def rest_value_def unit_scale_def digits)
qed

text \<open>No input makes \<open>ngx_parse_time\<close> overflow: whatever the string, the result is
  \<open>NGX_ERROR\<close> or a number between 0 and the largest \<open>ngx_int_t\<close>; and the byte behind the
  string is the only one outside it that is ever read.\<close>

theorem ngx_parse_time_range:
  "(case ngx_parse_time line after is_sec of
      None \<Rightarrow> after = None
    | Some r \<Rightarrow> r = NGX_ERROR \<or> (0 \<le> r \<and> r \<le> NGX_MAX_INT_T_VALUE))"
proof (cases "ngx_parse_time line after is_sec")
  case None
  then show ?thesis
    unfolding ngx_parse_time_def using parse_time_loop_reads by simp
next
  case (Some r)
  then have "time_result r"
    unfolding ngx_parse_time_def by (intro parse_time_loop_range) auto
  with Some show ?thesis by (simp add: time_result_def)
qed

end
