(* ===== verification/Http_Chunked.thy ===== *)
theory Http_Chunked
  imports Str_Num
begin

section \<open>Chunked transfer coding: \<open>ngx_http_parse_chunked\<close>\<close>

text \<open>
  The incremental parser of chunk headers and trailers (\<open>src/http/ngx_http_parse.c\<close>) with
  its context \<open>ngx_http_chunked_t\<close>. The local variable \<open>state\<close> and the field \<open>ctx->size\<close>
  are the state of the byte loop; the other fields are written after it. Positions are
  offsets into the buffer, whose bytes up to \<open>b->last\<close> are a list.
\<close>

subsection \<open>State\<close>

datatype ck_state =
    sw_chunk_start
  | sw_chunk_size
  | sw_chunk_extension
  | sw_chunk_extension_almost_done
  | sw_chunk_data
  | sw_after_data
  | sw_after_data_almost_done
  | sw_last_chunk_extension
  | sw_last_chunk_extension_almost_done
  | sw_trailer
  | sw_trailer_almost_done
  | sw_trailer_header
  | sw_trailer_header_almost_done

record ngx_http_chunked =
  ck_state :: ck_state
  ck_size :: int
  ck_length :: int

text \<open>How the byte loop is left: the labels \<open>data\<close> (with NGX_OK), \<open>done\<close> and \<open>invalid\<close>.\<close>

datatype ck_exit =
    Ck_data nat ck_state int
  | Ck_done nat int
  | Ck_invalid int

subsection \<open>The byte loop\<close>

fun chunked_step :: "ck_state \<times> int \<Rightarrow> nat \<Rightarrow> u_char \<Rightarrow> (ck_state \<times> int, ck_exit) action" where
  "chunked_step (sw_chunk_start, sz) p ch =
     (if ch \<ge> ch_0 \<and> ch \<le> ch_9 then Next (sw_chunk_size, uint ch - uint ch_0)
      else let c = ch OR 0x20 in
        if c \<ge> ch_a \<and> c \<le> ch_f then Next (sw_chunk_size, uint c - uint ch_a + 10)
        else Stop (Ck_invalid sz))"
| "chunked_step (sw_chunk_size, sz) p ch =
     (if sz > NGX_MAX_INT_T_VALUE div 16 then Stop (Ck_invalid sz)
      else if ch \<ge> ch_0 \<and> ch \<le> ch_9 then
        Next (sw_chunk_size, s64 (sz * 16 + (uint ch - uint ch_0)))
      else let c = ch OR 0x20 in
        if c \<ge> ch_a \<and> c \<le> ch_f then
          Next (sw_chunk_size, s64 (sz * 16 + (uint c - uint ch_a + 10)))
        else if sz = 0 then
          (if ch = ch_CR then Next (sw_last_chunk_extension_almost_done, sz)
           else if ch = ch_LF then Next (sw_trailer, sz)
           else if ch = ch_semi \<or> ch = ch_SP \<or> ch = ch_TAB then Next (sw_last_chunk_extension, sz)
           else Stop (Ck_invalid sz))
        else
          (if ch = ch_CR then Next (sw_chunk_extension_almost_done, sz)
           else if ch = ch_LF then Next (sw_chunk_data, sz)
           else if ch = ch_semi \<or> ch = ch_SP \<or> ch = ch_TAB then Next (sw_chunk_extension, sz)
           else Stop (Ck_invalid sz)))"
| "chunked_step (sw_chunk_extension, sz) p ch =
     (if ch = ch_CR then Next (sw_chunk_extension_almost_done, sz)
      else if ch = ch_LF then Next (sw_chunk_data, sz)
      else Next (sw_chunk_extension, sz))"
| "chunked_step (sw_chunk_extension_almost_done, sz) p ch =
     (if ch = ch_LF then Next (sw_chunk_data, sz) else Stop (Ck_invalid sz))"
| "chunked_step (sw_chunk_data, sz) p ch = Stop (Ck_data p sw_chunk_data sz)"
| "chunked_step (sw_after_data, sz) p ch =
     (if ch = ch_CR then Next (sw_after_data_almost_done, sz)
      else if ch = ch_LF then Next (sw_chunk_start, sz)
      else Next (sw_after_data, sz))"
| "chunked_step (sw_after_data_almost_done, sz) p ch =
     (if ch = ch_LF then Next (sw_chunk_start, sz) else Stop (Ck_invalid sz))"
| "chunked_step (sw_last_chunk_extension, sz) p ch =
     (if ch = ch_CR then Next (sw_last_chunk_extension_almost_done, sz)
      else if ch = ch_LF then Next (sw_trailer, sz)
      else Next (sw_last_chunk_extension, sz))"
| "chunked_step (sw_last_chunk_extension_almost_done, sz) p ch =
     (if ch = ch_LF then Next (sw_trailer, sz) else Stop (Ck_invalid sz))"
| "chunked_step (sw_trailer, sz) p ch =
     (if ch = ch_CR then Next (sw_trailer_almost_done, sz)
      else if ch = ch_LF then Stop (Ck_done p sz)
      else Next (sw_trailer_header, sz))"
| "chunked_step (sw_trailer_almost_done, sz) p ch =
     (if ch = ch_LF then Stop (Ck_done p sz) else Stop (Ck_invalid sz))"
| "chunked_step (sw_trailer_header, sz) p ch =
     (if ch = ch_CR then Next (sw_trailer_header_almost_done, sz)
      else if ch = ch_LF then Next (sw_trailer, sz)
      else Next (sw_trailer_header, sz))"
| "chunked_step (sw_trailer_header_almost_done, sz) p ch =
     (if ch = ch_LF then Next (sw_trailer, sz) else Stop (Ck_invalid sz))"

subsection \<open>The least number of bytes still to come\<close>

definition chunked_min_length :: "ck_state \<Rightarrow> int \<Rightarrow> int" where
  "chunked_min_length state sz =
     (case state of
        sw_chunk_start \<Rightarrow> 3
      | sw_chunk_size \<Rightarrow> s64 (1 + (if sz \<noteq> 0 then s64 (sz + 4) else 1))
      | sw_chunk_extension \<Rightarrow> s64 (1 + sz + 4)
      | sw_chunk_extension_almost_done \<Rightarrow> s64 (1 + sz + 4)
      | sw_chunk_data \<Rightarrow> s64 (sz + 4)
      | sw_after_data \<Rightarrow> 4
      | sw_after_data_almost_done \<Rightarrow> 4
      | sw_last_chunk_extension \<Rightarrow> 2
      | sw_last_chunk_extension_almost_done \<Rightarrow> 2
      | sw_trailer \<Rightarrow> 1
      | sw_trailer_almost_done \<Rightarrow> 1
      | sw_trailer_header \<Rightarrow> 2
      | sw_trailer_header_almost_done \<Rightarrow> 2)"

text \<open>The code after the label \<open>data\<close>.\<close>

definition chunked_data ::
  "int \<Rightarrow> nat \<Rightarrow> ck_state \<Rightarrow> int \<Rightarrow> ngx_http_chunked \<Rightarrow> int \<times> nat \<times> ngx_http_chunked"
where
  "chunked_data rc pos state sz ctx =
     (let ctx = ctx\<lparr>ck_state := state, ck_size := sz\<rparr>
      in if sz > NGX_MAX_INT_T_VALUE - 5 then (NGX_ERROR, pos, ctx)
         else (rc, pos, ctx\<lparr>ck_length := chunked_min_length state sz\<rparr>))"

text \<open>
  The function: the buffer is the bytes of the buffer up to \<open>b->last\<close>; the result is the
  return code, the new \<open>b->pos\<close> and the context.
\<close>

definition ngx_http_parse_chunked ::
  "u_char list \<Rightarrow> nat \<Rightarrow> ngx_http_chunked \<Rightarrow> int \<times> nat \<times> ngx_http_chunked"
where
  "ngx_http_parse_chunked buf pos ctx =
     (let state = (if ck_state ctx = sw_chunk_data \<and> ck_size ctx = 0
                   then sw_after_data else ck_state ctx)
      in case scan chunked_step pos (drop pos buf) (state, ck_size ctx) of
           Inl (state, sz) \<Rightarrow> chunked_data NGX_AGAIN (length buf) state sz ctx
         | Inr (Ck_data p state sz) \<Rightarrow> chunked_data NGX_OK p state sz ctx
         | Inr (Ck_done p sz) \<Rightarrow>
             (NGX_DONE, p + 1, ctx\<lparr>ck_state := sw_chunk_start, ck_size := sz\<rparr>)
         | Inr (Ck_invalid sz) \<Rightarrow> (NGX_ERROR, pos, ctx\<lparr>ck_size := sz\<rparr>))"

subsection \<open>Invariant\<close>

text \<open>
  Between two bytes the size is a non-negative \<open>off_t\<close>, and it is positive in the states
  that lead to data: an empty chunk goes to the trailer.
\<close>

fun ck_inv :: "ck_state \<times> int \<Rightarrow> bool" where
  "ck_inv (state, sz) \<longleftrightarrow> 0 \<le> sz \<and> sz \<le> NGX_MAX_INT_T_VALUE \<and>
     (state \<in> {sw_chunk_extension, sw_chunk_extension_almost_done, sw_chunk_data} \<longrightarrow> 0 < sz)"

text \<open>The two ways the code tests for a hexadecimal digit, as one case distinction.\<close>

lemma chunked_step_start:
  "chunked_step (sw_chunk_start, sz) p ch =
     (case hex_digit ch of None \<Rightarrow> Stop (Ck_invalid sz) | Some d \<Rightarrow> Next (sw_chunk_size, d))"
  by (simp add: hex_digit_code Let_def)

lemma chunked_step_digit:
  assumes "hex_digit ch = Some d" "0 \<le> sz" "sz \<le> NGX_MAX_INT_T_VALUE div 16"
  shows "chunked_step (sw_chunk_size, sz) p ch = Next (sw_chunk_size, sz * 16 + d)"
proof -
  have "0 \<le> d \<and> d \<le> 15" by (rule hex_digit_range [OF assms(1)])
  then have "s64 (sz * 16 + d) = sz * 16 + d" using assms(2,3) by simp
  then show ?thesis
    using assms by (auto simp: hex_digit_code Let_def split: if_splits)
qed

lemma chunked_step_nodigit:
  assumes "hex_digit ch = None" "sz \<le> NGX_MAX_INT_T_VALUE div 16"
  shows "chunked_step (sw_chunk_size, sz) p ch =
     (if sz = 0 then
        (if ch = ch_CR then Next (sw_last_chunk_extension_almost_done, sz)
         else if ch = ch_LF then Next (sw_trailer, sz)
         else if ch = ch_semi \<or> ch = ch_SP \<or> ch = ch_TAB then Next (sw_last_chunk_extension, sz)
         else Stop (Ck_invalid sz))
      else
        (if ch = ch_CR then Next (sw_chunk_extension_almost_done, sz)
         else if ch = ch_LF then Next (sw_chunk_data, sz)
         else if ch = ch_semi \<or> ch = ch_SP \<or> ch = ch_TAB then Next (sw_chunk_extension, sz)
         else Stop (Ck_invalid sz)))"
  using assms by (auto simp: hex_digit_code Let_def split: if_splits)

lemmas chunked_step_states = chunked_step.simps(3-13)

declare chunked_step.simps [simp del]
declare chunked_step_states [simp]

lemma chunked_step_size_inv:
  assumes "0 \<le> sz" "chunked_step (sw_chunk_size, sz) p ch = Next s'"
  shows "ck_inv s'"
proof -
  have small: "sz \<le> NGX_MAX_INT_T_VALUE div 16"
    using assms(2) by (auto simp: chunked_step.simps split: if_splits)
  show ?thesis
  proof (cases "hex_digit ch")
    case None
    then show ?thesis
      using assms small by (auto simp: chunked_step_nodigit split: if_splits)
  next
    case (Some d)
    then show ?thesis
      using assms small hex_digit_range [OF Some] by (auto simp: chunked_step_digit)
  qed
qed

lemma chunked_step_inv:
  assumes "ck_inv s" "chunked_step s p ch = Next s'"
  shows "ck_inv s'"
proof -
  obtain st sz where s: "s = (st, sz)" by (cases s)
  show ?thesis
  proof (cases st)
    case sw_chunk_start
    with assms s show ?thesis
      by (auto simp: chunked_step_start split: option.splits dest: hex_digit_range)
  next
    case sw_chunk_size
    with assms s show ?thesis by (auto intro: chunked_step_size_inv)
  qed (use assms s in \<open>auto split: if_splits\<close>)
qed

interpretation chunked: byte_machine "\<lambda>buf. chunked_step" "\<lambda>p. ck_inv"
  by unfold_locales (auto intro: chunked_step_inv)

end
