(* ===== verification/Http_Chunked_Body.thy ===== *)
theory Http_Chunked_Body
  imports Http_Chunked
begin

section \<open>Chunked bodies: the request body filter and the response encoder\<close>

text \<open>
  \<open>ngx_http_request_body_chunked_filter\<close> (\<open>src/http/ngx_http_request_body.c\<close>) drives the
  parser over the buffers of a request body and passes the data on;
  \<open>ngx_http_chunked_body_filter\<close> (\<open>src/http/modules/ngx_http_chunked_filter_module.c\<close>)
  writes a response in chunks. Buffers are lists of bytes; memory allocation from the pool
  is assumed to succeed; the next filter of the chain is not modelled, what it is called
  with (\<open>out\<close>) is the result. The refinement lemma relates the driver, which works buffer
  by buffer, to \<open>chunk_bytes\<close>, which reads one byte at a time and knows no buffers.
\<close>

subsection \<open>The request body filter\<close>

datatype out_buf = Body_data "u_char list" | Last_buf

record request_body =
  rb_chunked :: ngx_http_chunked
  rb_rest :: int
  content_length_n :: int
  rb_out :: "out_buf list"

text \<open>
  The endless loop over one buffer. It ends after finitely many rounds; \<open>fuel\<close> bounds
  them (None when it is exhausted). \<open>Inl\<close> is the status with which the request is
  finalized.
\<close>

fun chunked_filter_buf ::
  "nat \<Rightarrow> int \<Rightarrow> u_char list \<Rightarrow> nat \<Rightarrow> request_body \<Rightarrow> (int + request_body) option"
where
  "chunked_filter_buf 0 client_max_body_size buf pos rb = None"
| "chunked_filter_buf (Suc fuel) client_max_body_size buf pos rb =
     (case ngx_http_parse_chunked buf pos (rb_chunked rb) of (rc, pos, ctx) \<Rightarrow>
        if rc = NGX_OK then
          if client_max_body_size \<noteq> 0 \<and>
             s64 (client_max_body_size - content_length_n rb) < ck_size ctx
          then Some (Inl 413)
          else let sz = length buf - pos in
            if int sz > ck_size ctx then
              chunked_filter_buf fuel client_max_body_size buf (pos + nat (ck_size ctx))
                (rb\<lparr>rb_chunked := ctx\<lparr>ck_size := 0\<rparr>,
                    content_length_n := s64 (content_length_n rb + ck_size ctx),
                    rb_out := rb_out rb @ [Body_data (take (nat (ck_size ctx)) (drop pos buf))]\<rparr>)
            else
              chunked_filter_buf fuel client_max_body_size buf (length buf)
                (rb\<lparr>rb_chunked := ctx\<lparr>ck_size := s64 (ck_size ctx - int sz)\<rparr>,
                    content_length_n := s64 (content_length_n rb + int sz),
                    rb_out := rb_out rb @ [Body_data (drop pos buf)]\<rparr>)
        else if rc = NGX_DONE then
          Some (Inr (rb\<lparr>rb_chunked := ctx, rb_rest := 0, rb_out := rb_out rb @ [Last_buf]\<rparr>))
        else if rc = NGX_AGAIN then
          Some (Inr (rb\<lparr>rb_chunked := ctx, rb_rest := ck_length ctx\<rparr>))
        else Some (Inl 400))"

fun chunked_filter_chain :: "int \<Rightarrow> u_char list list \<Rightarrow> request_body \<Rightarrow> (int + request_body) option" where
  "chunked_filter_chain client_max_body_size [] rb = Some (Inr rb)"
| "chunked_filter_chain client_max_body_size (buf # bufs) rb =
     (case chunked_filter_buf (length buf + 2) client_max_body_size buf 0 rb of
        Some (Inr rb) \<Rightarrow> chunked_filter_chain client_max_body_size bufs rb
      | r \<Rightarrow> r)"

text \<open>The filter: the first call allocates and clears the parser's context.\<close>

definition request_body_chunked_filter ::
  "int \<Rightarrow> u_char list list \<Rightarrow> request_body \<Rightarrow> (int + request_body) option"
where
  "request_body_chunked_filter client_max_body_size bufs rb =
     (let rb = (if rb_rest rb = -1
                then rb\<lparr>rb_chunked := \<lparr>ck_state = sw_chunk_start, ck_size = 0, ck_length = 0\<rparr>,
                        content_length_n := 0, rb_rest := 3\<rparr>
                else rb)
      in chunked_filter_chain client_max_body_size bufs (rb\<lparr>rb_out := []\<rparr>))"

subsection \<open>The response encoder\<close>

text \<open>
  One call of \<open>ngx_http_chunked_body_filter\<close> with the in-memory buffers \<open>bufs\<close>: the bytes
  of the chain it passes on. \<open>last_buf\<close> is the flag of the last buffer. \<open>ngx_sprintf\<close> has no
  end of its buffer; the room is that of the allocation, 18 bytes, which always suffices.
\<close>

definition ngx_http_chunked_body_filter :: "u_char list list \<Rightarrow> bool \<Rightarrow> u_char list" where
  "ngx_http_chunked_body_filter bufs last_buf =
     (let sz = sum_list (map length bufs)
      in (if sz \<noteq> 0 then ngx_sprintf_num 18 sz ch_SP 1 0 @ [ch_CR, ch_LF] else [])
         @ concat bufs
         @ (if last_buf then
              (let tail = [ch_CR, ch_LF, ch_0, ch_CR, ch_LF, ch_CR, ch_LF]
               in if sz = 0 then drop 2 tail else tail)
            else if sz > 0 then [ch_CR, ch_LF] else []))"

subsection \<open>The abstract machine: one byte at a time\<close>

datatype chunk_status = More "ck_state \<times> int" | Complete "u_char list" | Broken

abbreviation (input) ck_limit :: int where "ck_limit \<equiv> 9223372036854775802"

fun chunk_bytes :: "ck_state \<times> int \<Rightarrow> u_char list \<Rightarrow> u_char list \<times> chunk_status" where
  "chunk_bytes s [] = ([], More s)"
| "chunk_bytes (st, sz) (ch # rest) =
     (if st = sw_chunk_data then
        (let (d, r) = chunk_bytes (if sz = 1 then (sw_after_data, 0) else (sw_chunk_data, sz - 1)) rest
         in (ch # d, r))
      else case chunked_step (st, sz) 0 ch of
        Next s' \<Rightarrow> if snd s' > ck_limit then ([], Broken) else chunk_bytes s' rest
      | Stop (Ck_done p z) \<Rightarrow> ([], Complete rest)
      | Stop x \<Rightarrow> ([], Broken))"

text \<open>Reading in pieces is reading at once.\<close>

lemma chunk_bytes_append:
  "chunk_bytes s (xs @ ys) =
     (case chunk_bytes s xs of
        (d, More s') \<Rightarrow> (case chunk_bytes s' ys of (d', r) \<Rightarrow> (d @ d', r))
      | (d, Complete rest) \<Rightarrow> (d, Complete (rest @ ys))
      | (d, Broken) \<Rightarrow> (d, Broken))"
proof (induction s xs rule: chunk_bytes.induct)
  case (2 st sz ch rest)
  show ?case
  proof (cases "st = sw_chunk_data")
    case True
    with 2(1) show ?thesis
      by (auto split: prod.splits chunk_status.splits)
  next
    case False
    with 2(2) [OF False] show ?thesis
      by (auto split: action.splits ck_exit.splits)
  qed
qed (simp split: prod.split)

lemma chunk_bytes_inv:
  "ck_inv s \<Longrightarrow> chunk_bytes s xs = (d, More s') \<Longrightarrow> ck_inv s'"
proof (induction s xs arbitrary: d rule: chunk_bytes.induct)
  case (2 st sz ch rest)
  show ?case
  proof (cases "st = sw_chunk_data")
    case True
    then have inv: "ck_inv (if sz = 1 then (sw_after_data, 0) else (sw_chunk_data, sz - 1))"
      using 2(3) by auto
    show ?thesis
      using 2(1) [OF True inv] 2(4) True by (auto split: prod.splits)
  next
    case False
    then obtain s1 where s1: "chunked_step (st, sz) 0 ch = Next s1" "\<not> snd s1 > ck_limit"
      "chunk_bytes s1 rest = (d, More s')"
      using 2(4) by (auto split: action.splits ck_exit.splits if_splits)
    show ?thesis
      by (rule 2(2) [OF False s1(1,2) chunked_step_inv [OF 2(3) s1(1)] s1(3)])
  qed
qed simp

text \<open>A run of data bytes, up to the end of the chunk or of the input.\<close>

lemma chunk_bytes_data:
  assumes "0 < sz" "xs \<noteq> []"
  shows "chunk_bytes (sw_chunk_data, sz) xs =
     (if int (length xs) < sz then (xs, More (sw_chunk_data, sz - int (length xs)))
      else (case chunk_bytes (sw_after_data, 0) (drop (nat sz) xs) of
              (d, r) \<Rightarrow> (take (nat sz) xs @ d, r)))"
  using assms
proof (induction xs arbitrary: sz)
  case (Cons x xs)
  show ?case
  proof (cases "sz = 1")
    case True
    then show ?thesis by (simp split: prod.split)
  next
    case False
    then have sz: "0 < sz - 1" "nat sz = Suc (nat (sz - 1))" using Cons.prems by auto
    show ?thesis
    proof (cases "xs = []")
      case True
      with sz False show ?thesis by simp
    next
      case xs: False
      from Cons.IH [OF sz(1) xs] sz(2) False show ?thesis
        by (auto split: prod.splits)
    qed
  qed
qed simp

subsection \<open>The driver refines the abstract machine\<close>

lemma chunked_step_pos:
  "chunked_step s p ch =
     (case chunked_step s 0 ch of
        Next s' \<Rightarrow> Next s'
      | Stop (Ck_data q st z) \<Rightarrow> Stop (Ck_data p st z)
      | Stop (Ck_done q z) \<Rightarrow> Stop (Ck_done p z)
      | Stop (Ck_invalid z) \<Rightarrow> Stop (Ck_invalid z))"
proof -
  obtain st z where s: "s = (st, z)" by (cases s)
  show ?thesis
    unfolding s by (cases st) (simp_all add: chunked_step.simps Let_def)
qed

lemma chunked_step_data:
  "chunked_step (st, sz) p ch = Stop (Ck_data q st' sz') \<Longrightarrow> st = sw_chunk_data"
  by (cases st) (auto simp: chunked_step.simps Let_def split: if_splits)

text \<open>Up to the first data byte the parser's loop and the abstract machine agree.\<close>

definition scan_agrees ::
  "nat \<Rightarrow> u_char list \<Rightarrow> u_char list \<times> chunk_status \<Rightarrow> (ck_state \<times> int) + ck_exit \<Rightarrow> bool"
where
  "scan_agrees p xs dr res \<longleftrightarrow>
     (case res of
        Inl s' \<Rightarrow> dr = ([], More s') \<and> snd s' \<le> ck_limit
      | Inr (Ck_data q st sz) \<Rightarrow> st = sw_chunk_data \<and> 0 < sz \<and> sz \<le> ck_limit \<and> p \<le> q \<and>
          q < p + length xs \<and> dr = chunk_bytes (sw_chunk_data, sz) (drop (q - p) xs)
      | Inr (Ck_done q sz) \<Rightarrow> p \<le> q \<and> q < p + length xs \<and>
          dr = ([], Complete (drop (Suc (q - p)) xs))
      | Inr (Ck_invalid sz) \<Rightarrow> False)"

lemma drop_shift:
  "Suc p \<le> q \<Longrightarrow> drop (q - p) (x # xs) = drop (q - Suc p) xs"
  "Suc p \<le> q \<Longrightarrow> drop (Suc (q - Suc p)) xs = drop (q - p) xs"
  by (simp_all add: Suc_diff_Suc Suc_le_eq drop_Cons')

lemma scan_agrees_Suc:
  "scan_agrees (Suc p) xs dr res \<Longrightarrow> scan_agrees p (x # xs) dr res"
  by (auto simp: scan_agrees_def drop_shift split: sum.splits ck_exit.splits)

lemma scan_chunk_bytes:
  assumes "ck_inv s" "snd s \<le> ck_limit" "snd (chunk_bytes s xs) \<noteq> Broken"
  shows "scan_agrees p xs (chunk_bytes s xs) (scan chunked_step p xs s)"
  using assms
proof (induction xs arbitrary: s p)
  case Nil
  then show ?case by (simp add: scan_agrees_def)
next
  case (Cons ch xs)
  obtain st sz where s: "s = (st, sz)" by (cases s)
  show ?case
  proof (cases "st = sw_chunk_data")
    case True
    with Cons.prems show ?thesis by (simp add: s scan_agrees_def)
  next
    case False
    show ?thesis
    proof (cases "chunked_step s 0 ch")
      case (Next s')
      then have p: "chunked_step s p ch = Next s'" by (simp add: chunked_step_pos [of s p])
      from Next False Cons.prems(3) s have ok: "snd s' \<le> ck_limit" "chunk_bytes s (ch # xs) = chunk_bytes s' xs"
        by (auto split: if_splits)
      with Cons.IH [of s' "Suc p"] Cons.prems chunked_step_inv [OF Cons.prems(1) Next] p
      show ?thesis by (simp add: scan_agrees_Suc)
    next
      case (Stop x)
      then have p: "chunked_step s p ch = (case x of Ck_data q st z \<Rightarrow> Stop (Ck_data p st z)
          | Ck_done q z \<Rightarrow> Stop (Ck_done p z) | Ck_invalid z \<Rightarrow> Stop (Ck_invalid z))"
        by (simp add: chunked_step_pos [of s p])
      show ?thesis
        using Stop False Cons.prems(3) p chunked_step_data [of st sz 0 ch] s
        by (cases x) (auto simp: scan_agrees_def)
    qed
  qed
qed

text \<open>The state the parser starts its loop in, from the context of the last call.\<close>

definition ck_entry :: "ngx_http_chunked \<Rightarrow> ck_state \<times> int" where
  "ck_entry ctx =
     (if ck_state ctx = sw_chunk_data \<and> ck_size ctx = 0 then sw_after_data else ck_state ctx,
      ck_size ctx)"

definition ck_ready :: "ngx_http_chunked \<Rightarrow> bool" where
  "ck_ready ctx \<longleftrightarrow> ck_inv (ck_entry ctx) \<and> ck_size ctx \<le> ck_limit"

lemma parse_chunked_entry:
  "ngx_http_parse_chunked buf pos ctx =
     (case scan chunked_step pos (drop pos buf) (ck_entry ctx) of
        Inl (st, sz) \<Rightarrow> chunked_data NGX_AGAIN (length buf) st sz ctx
      | Inr (Ck_data p st sz) \<Rightarrow> chunked_data NGX_OK p st sz ctx
      | Inr (Ck_done p sz) \<Rightarrow> (NGX_DONE, p + 1, ctx\<lparr>ck_state := sw_chunk_start, ck_size := sz\<rparr>)
      | Inr (Ck_invalid sz) \<Rightarrow> (NGX_ERROR, pos, ctx\<lparr>ck_size := sz\<rparr>))"
  by (simp add: ngx_http_parse_chunked_def ck_entry_def Let_def)

text \<open>What one call of the parser yields, on the way to a verdict the machine accepts.\<close>

lemma parse_chunked_agrees:
  assumes "ck_ready ctx" "pos \<le> length buf"
    and "chunk_bytes (ck_entry ctx) (drop pos buf) = (d, r)" "r \<noteq> Broken"
  obtains
    (again) s where "d = []" "r = More s" "snd s \<le> ck_limit" "ck_inv s"
      "ngx_http_parse_chunked buf pos ctx = (NGX_AGAIN, length buf,
         ctx\<lparr>ck_state := fst s, ck_size := snd s, ck_length := chunked_min_length (fst s) (snd s)\<rparr>)"
  | (data) q sz where "0 < sz" "sz \<le> ck_limit" "pos \<le> q" "q < length buf"
      "chunk_bytes (sw_chunk_data, sz) (drop q buf) = (d, r)"
      "ngx_http_parse_chunked buf pos ctx = (NGX_OK, q,
         ctx\<lparr>ck_state := sw_chunk_data, ck_size := sz,
             ck_length := chunked_min_length sw_chunk_data sz\<rparr>)"
  | (finished) q sz where "d = []" "pos \<le> q" "q < length buf" "r = Complete (drop (Suc q) buf)"
      "ngx_http_parse_chunked buf pos ctx = (NGX_DONE, q + 1, ctx\<lparr>ck_state := sw_chunk_start, ck_size := sz\<rparr>)"
proof -
  let ?s = "ck_entry ctx" and ?xs = "drop pos buf"
  have inv: "ck_inv ?s" and lim: "snd ?s \<le> ck_limit"
    using assms(1) by (simp_all add: ck_ready_def ck_entry_def)
  have agrees: "scan_agrees pos ?xs (d, r) (scan chunked_step pos ?xs ?s)"
    using scan_chunk_bytes [OF inv lim, of ?xs pos] assms(3,4) by simp
  show ?thesis
  proof (cases "scan chunked_step pos ?xs ?s")
    case (Inl s)
    have "ck_inv s" using chunked.scan_inv [of ?s] inv Inl by simp
    with Inl agrees show ?thesis
      by (intro again [of s])
         (auto simp: scan_agrees_def parse_chunked_entry chunked_data_def Let_def split: prod.split)
  next
    case (Inr x)
    show ?thesis
    proof (cases x)
      case (Ck_data q st sz)
      with Inr agrees have ok: "st = sw_chunk_data" "0 < sz" "sz \<le> ck_limit" "pos \<le> q" "q < length buf"
        "chunk_bytes (sw_chunk_data, sz) (drop (q - pos) ?xs) = (d, r)"
        by (auto simp: scan_agrees_def)
      then have "chunk_bytes (sw_chunk_data, sz) (drop q buf) = (d, r)" by simp
      with ok Inr Ck_data show ?thesis
        by (intro data [of sz q]) (auto simp: parse_chunked_entry chunked_data_def Let_def)
    next
      case (Ck_done q sz)
      with Inr agrees have "pos \<le> q" "q < length buf" "d = []" "r = Complete (drop (Suc q) buf)"
        by (auto simp: scan_agrees_def)
      with Inr Ck_done show ?thesis
        by (intro finished [of q sz]) (auto simp: parse_chunked_entry)
    next
      case (Ck_invalid sz)
      with Inr agrees show ?thesis by (simp add: scan_agrees_def)
    qed
  qed
qed

text \<open>The bytes of the current chunk still to come after the input ends in the middle of it.\<close>

definition promised :: "chunk_status \<Rightarrow> int" where
  "promised r = (case r of More (st, sz) \<Rightarrow> if st = sw_chunk_data then sz else 0 | _ \<Rightarrow> 0)"

fun out_bytes :: "out_buf \<Rightarrow> u_char list" where
  "out_bytes (Body_data d) = d"
| "out_bytes Last_buf = []"

definition body_bytes :: "request_body \<Rightarrow> u_char list" where
  "body_bytes rb = concat (map out_bytes (rb_out rb))"

text \<open>The relation between the driver's state after a buffer and the machine's.\<close>

definition body_refines :: "request_body \<Rightarrow> u_char list \<times> chunk_status \<Rightarrow> request_body \<Rightarrow> bool" where
  "body_refines rb dr rb' \<longleftrightarrow>
     (case dr of (d, r) \<Rightarrow>
        body_bytes rb' = body_bytes rb @ d \<and>
        content_length_n rb' = content_length_n rb + int (length d) \<and>
        (case r of
           More s \<Rightarrow> ck_entry (rb_chunked rb') = s \<and> ck_ready (rb_chunked rb') \<and>
             rb_rest rb' = chunked_min_length (fst s) (snd s)
         | Complete rest \<Rightarrow> rb_rest rb' = 0 \<and> last (rb_out rb') = Last_buf
         | Broken \<Rightarrow> False))"

definition body_fits :: "int \<Rightarrow> request_body \<Rightarrow> u_char list \<times> chunk_status \<Rightarrow> bool" where
  "body_fits max_body rb dr \<longleftrightarrow> 0 \<le> content_length_n rb \<and> 0 \<le> max_body \<and>
     max_body \<le> NGX_MAX_INT_T_VALUE \<and>
     content_length_n rb + int (length (fst dr)) + promised (snd dr) \<le>
       (if max_body = 0 then NGX_MAX_INT_T_VALUE else max_body)"

lemma promised_nonneg:
  assumes "ck_inv s" "chunk_bytes s xs = (d, r)"
  shows "0 \<le> promised r"
proof (cases r)
  case (More s')
  then show ?thesis
    using chunk_bytes_inv [OF assms(1)] assms(2) by (cases s') (auto simp: promised_def)
qed (simp_all add: promised_def)

lemma ck_inv_data: "0 < sz \<Longrightarrow> sz \<le> ck_limit \<Longrightarrow> ck_inv (sw_chunk_data, sz)"
  by simp

text \<open>At the first byte of data of a chunk, its whole size fits what is allowed.\<close>

lemma chunk_size_fits:
  assumes "chunk_bytes (sw_chunk_data, sz) xs = (d, r)" "0 < sz" "sz \<le> ck_limit" "xs \<noteq> []"
  shows "sz \<le> int (length d) + promised r"
proof (cases "int (length xs) < sz")
  case True
  with assms chunk_bytes_data [of sz xs] show ?thesis by (auto simp: promised_def)
next
  case False
  then obtain d' where d: "chunk_bytes (sw_after_data, 0) (drop (nat sz) xs) = (d', r)"
    "d = take (nat sz) xs @ d'"
    using assms chunk_bytes_data [of sz xs] by (auto split: prod.splits)
  have "0 \<le> promised r" by (rule promised_nonneg [OF _ d(1)]) simp
  with d(2) False assms(2) show ?thesis by simp
qed

text \<open>
  One round of the loop at the first byte of data: the context the parser returns, what the
  filter is allowed to accept, and the two cases of the rest of the chunk being longer or
  not longer than the rest of the buffer.
\<close>

abbreviation (input) data_ctx :: "int \<Rightarrow> ngx_http_chunked \<Rightarrow> ngx_http_chunked" where
  "data_ctx sz ctx \<equiv> ctx\<lparr>ck_state := sw_chunk_data, ck_size := sz,
     ck_length := chunked_min_length sw_chunk_data sz\<rparr>"

lemma chunk_allowed:
  assumes "body_fits max_body rb (d, r)" "sz \<le> int (length d) + promised r" "0 < sz"
  shows "\<not> (max_body \<noteq> 0 \<and> s64 (max_body - content_length_n rb) < sz)"
    "0 \<le> content_length_n rb" "content_length_n rb + sz \<le> NGX_MAX_INT_T_VALUE"
proof -
  have "max_body \<noteq> 0 \<Longrightarrow> s64 (max_body - content_length_n rb) = max_body - content_length_n rb"
    using assms by (intro s64_id) (auto simp: body_fits_def)
  with assms show "\<not> (max_body \<noteq> 0 \<and> s64 (max_body - content_length_n rb) < sz)"
    "0 \<le> content_length_n rb" "content_length_n rb + sz \<le> NGX_MAX_INT_T_VALUE"
    by (auto simp: body_fits_def split: if_splits)
qed

lemma filter_round:
  assumes "ngx_http_parse_chunked buf pos (rb_chunked rb) = (NGX_OK, q, ctx)"
    and "\<not> (max_body \<noteq> 0 \<and> s64 (max_body - content_length_n rb) < ck_size ctx)"
  shows "chunked_filter_buf (Suc fuel) max_body buf pos rb =
    (if int (length buf - q) > ck_size ctx then
       chunked_filter_buf fuel max_body buf (q + nat (ck_size ctx))
         (rb\<lparr>rb_chunked := ctx\<lparr>ck_size := 0\<rparr>,
             content_length_n := s64 (content_length_n rb + ck_size ctx),
             rb_out := rb_out rb @ [Body_data (take (nat (ck_size ctx)) (drop q buf))]\<rparr>)
     else
       chunked_filter_buf fuel max_body buf (length buf)
         (rb\<lparr>rb_chunked := ctx\<lparr>ck_size := s64 (ck_size ctx - int (length buf - q))\<rparr>,
             content_length_n := s64 (content_length_n rb + int (length buf - q)),
             rb_out := rb_out rb @ [Body_data (drop q buf)]\<rparr>))"
  by (simp only: chunked_filter_buf.simps assms(1) prod.case simp_thms if_True if_not_P [OF assms(2)] Let_def)

lemma filter_partial_chunk:
  assumes "0 < sz" "sz \<le> ck_limit" "q < length buf" "int (length buf - q) < sz" "1 < fuel"
    and run: "chunk_bytes (sw_chunk_data, sz) (drop q buf) = (d, r)"
    and parsed: "ngx_http_parse_chunked buf pos (rb_chunked rb) = (NGX_OK, q, data_ctx sz (rb_chunked rb))"
    and allowed: "\<not> (max_body \<noteq> 0 \<and> s64 (max_body - content_length_n rb) < sz)"
      "0 \<le> content_length_n rb" "content_length_n rb + sz \<le> NGX_MAX_INT_T_VALUE"
  shows "\<exists>rb'. chunked_filter_buf fuel max_body buf pos rb = Some (Inr rb') \<and> body_refines rb (d, r) rb'"
proof -
  let ?avail = "length buf - q" and ?ctx = "rb_chunked rb"
  obtain f where fuel: "fuel = Suc (Suc f)" using assms(5) by (cases fuel; cases "fuel - 1") auto
  have dr: "d = drop q buf" "r = More (sw_chunk_data, sz - int ?avail)"
    using run chunk_bytes_data [OF assms(1), of "drop q buf"] assms(3,4) by auto
  have rest: "s64 (sz - int ?avail) = sz - int ?avail" using assms(2,4) by simp
  let ?rb' = "rb\<lparr>rb_chunked := (data_ctx sz ?ctx)\<lparr>ck_size := sz - int ?avail\<rparr>,
    content_length_n := content_length_n rb + int ?avail,
    rb_out := rb_out rb @ [Body_data (drop q buf)]\<rparr>"
  have "chunked_filter_buf fuel max_body buf pos rb =
      chunked_filter_buf (Suc f) max_body buf (length buf) ?rb'"
    unfolding fuel by (subst filter_round [OF parsed]) (use allowed assms(4) rest in simp_all)
  moreover have "ngx_http_parse_chunked buf (length buf) (rb_chunked ?rb') =
      (NGX_AGAIN, length buf, (data_ctx (sz - int ?avail) ?ctx))"
    using assms(2,4) by (simp add: parse_chunked_entry ck_entry_def chunked_data_def Let_def)
  ultimately show ?thesis
    using assms(2-4) dr
    by (auto simp: body_refines_def body_bytes_def ck_entry_def ck_ready_def)
qed

lemma filter_whole_chunk:
  assumes "0 < sz" "q < length buf" "\<not> int (length buf - q) < sz"
    and parsed: "ngx_http_parse_chunked buf pos (rb_chunked rb) = (NGX_OK, q, data_ctx sz (rb_chunked rb))"
    and allowed: "\<not> (max_body \<noteq> 0 \<and> s64 (max_body - content_length_n rb) < sz)"
      "0 \<le> content_length_n rb" "content_length_n rb + sz \<le> NGX_MAX_INT_T_VALUE"
  shows "chunked_filter_buf (Suc fuel) max_body buf pos rb =
    chunked_filter_buf fuel max_body buf (q + nat sz)
      (rb\<lparr>rb_chunked := (data_ctx sz (rb_chunked rb))\<lparr>ck_size := 0\<rparr>,
          content_length_n := content_length_n rb + sz,
          rb_out := rb_out rb @ [Body_data (take (nat sz) (drop q buf))]\<rparr>)"
proof (cases "int (length buf - q) = sz")
  case True
  then have "nat sz = length buf - q" by simp
  with True allowed assms(1,2) show ?thesis
    by (subst filter_round [OF parsed]) simp_all
next
  case False
  with assms(1-3) allowed show ?thesis
    by (subst filter_round [OF parsed]) simp_all
qed

lemma chunked_filter_buf_refines:
  assumes "ck_ready (rb_chunked rb)" "pos \<le> length buf" "length buf - pos + 1 < fuel"
    and "chunk_bytes (ck_entry (rb_chunked rb)) (drop pos buf) = (d, r)" "r \<noteq> Broken"
    and "body_fits max_body rb (d, r)"
  shows "\<exists>rb'. chunked_filter_buf fuel max_body buf pos rb = Some (Inr rb') \<and> body_refines rb (d, r) rb'"
  using assms
proof (induction fuel arbitrary: pos rb d)
  case (Suc fuel)
  let ?ctx = "rb_chunked rb"
  from Suc.prems(1,2,4,5) show ?case
  proof (cases rule: parse_chunked_agrees)
    case (again s)
    then show ?thesis
      by (cases s) (auto simp: body_refines_def body_bytes_def ck_entry_def ck_ready_def)
  next
    case (finished q sz)
    then show ?thesis by (auto simp: body_refines_def body_bytes_def)
  next
    case (data q sz)
    then have xs: "drop q buf \<noteq> []" by simp
    note allowed = chunk_allowed [OF Suc.prems(6) chunk_size_fits [OF data(5,1,2) xs] data(1)]
    show ?thesis
    proof (cases "int (length buf - q) < sz")
      case True
      show ?thesis
        by (rule filter_partial_chunk [OF data(1,2,4) True _ data(5,6) allowed]) (use Suc.prems(3) in simp)
    next
      case False
      then obtain d' where d': "chunk_bytes (sw_after_data, 0) (drop (nat sz) (drop q buf)) = (d', r)"
        "d = take (nat sz) (drop q buf) @ d'"
        using data(5) chunk_bytes_data [OF data(1) xs] by (auto split: prod.splits)
      have len: "length d = nat sz + length d'" using d'(2) False by simp
      let ?pos = "q + nat sz"
      let ?rb' = "rb\<lparr>rb_chunked := (data_ctx sz ?ctx)\<lparr>ck_size := 0\<rparr>,
        content_length_n := content_length_n rb + sz,
        rb_out := rb_out rb @ [Body_data (take (nat sz) (drop q buf))]\<rparr>"
      have "\<exists>rb''. chunked_filter_buf fuel max_body buf ?pos ?rb' = Some (Inr rb'') \<and>
          body_refines ?rb' (d', r) rb''"
      proof (rule Suc.IH)
        show "ck_ready (rb_chunked ?rb')" by (simp add: ck_ready_def ck_entry_def)
        show "?pos \<le> length buf" "length buf - ?pos + 1 < fuel"
          using False data(1,3,4) Suc.prems(3) by auto
        show "chunk_bytes (ck_entry (rb_chunked ?rb')) (drop ?pos buf) = (d', r)"
          using d'(1) by (simp add: ck_entry_def add.commute)
        show "r \<noteq> Broken" by fact
        show "body_fits max_body ?rb' (d', r)"
          using Suc.prems(6) allowed len data(1) by (auto simp: body_fits_def)
      qed
      then obtain rb'' where rb'': "chunked_filter_buf fuel max_body buf ?pos ?rb' = Some (Inr rb'')"
        "body_refines ?rb' (d', r) rb''"
        by blast
      have "body_refines rb (d, r) rb''"
        using rb''(2) d'(2) len data(1) by (simp add: body_refines_def body_bytes_def)
      with rb''(1) show ?thesis
        by (simp only: filter_whole_chunk [OF data(1,4) False data(6) allowed]) blast
    qed
  qed
qed simp

text \<open>Over a chain of buffers the filter computes what the machine computes over their bytes.\<close>

lemma body_fits_append:
  assumes "body_fits max_body rb (d @ d', r)" "ck_inv s" "snd s \<le> ck_limit"
    and "chunk_bytes s ys = (d', r)"
  shows "body_fits max_body rb (d, More s)"
proof -
  obtain st sz where s: "s = (st, sz)" by (cases s)
  have "promised (More s) \<le> int (length d') + promised r"
  proof (cases "st = sw_chunk_data \<and> ys \<noteq> []")
    case True
    with assms(2-4) s chunk_size_fits [of sz ys d' r] show ?thesis by (simp add: promised_def)
  next
    case False
    then show ?thesis
      using assms(4) s promised_nonneg [OF assms(2,4)] by (cases ys) (auto simp: promised_def)
  qed
  with assms(1) show ?thesis by (simp add: body_fits_def)
qed

lemma chunk_bytes_limit:
  "snd s \<le> ck_limit \<Longrightarrow> ck_inv s \<Longrightarrow> chunk_bytes s xs = (d, More s') \<Longrightarrow> snd s' \<le> ck_limit"
proof (induction s xs arbitrary: d rule: chunk_bytes.induct)
  case (2 st sz ch rest)
  show ?case
  proof (cases "st = sw_chunk_data")
    case True
    let ?s = "if sz = 1 then (sw_after_data, 0) else (sw_chunk_data, sz - 1)"
    have "ck_inv ?s" "snd ?s \<le> ck_limit" using 2(3,4) True by auto
    then show ?thesis
      using 2(1) [OF True] 2(5) True by (auto split: prod.splits)
  next
    case False
    then obtain s1 where s1: "chunked_step (st, sz) 0 ch = Next s1" "\<not> snd s1 > ck_limit"
      "chunk_bytes s1 rest = (d, More s')"
      using 2(5) by (auto split: action.splits ck_exit.splits if_splits)
    then show ?thesis
      using 2(2) [OF False s1(1,2) _ chunked_step_inv [OF 2(4) s1(1)] s1(3)] by simp
  qed
qed simp

lemma chunked_filter_chain_refines:
  assumes "ck_ready (rb_chunked rb)" "bufs \<noteq> []"
    and "chunk_bytes (ck_entry (rb_chunked rb)) (concat bufs) = (d, r)"
    and "r = More s \<or> (r = Complete [] \<and> last bufs \<noteq> [])"
    and "body_fits max_body rb (d, r)"
  shows "\<exists>rb'. chunked_filter_chain max_body bufs rb = Some (Inr rb') \<and> body_refines rb (d, r) rb'"
  using assms
proof (induction bufs arbitrary: rb d)
  case (Cons buf bufs)
  let ?s = "ck_entry (rb_chunked rb)"
  have inv: "ck_inv ?s" "snd ?s \<le> ck_limit"
    using Cons.prems(1) by (simp_all add: ck_ready_def ck_entry_def)
  show ?case
  proof (cases "bufs = []")
    case True
    with Cons.prems chunked_filter_buf_refines [of rb 0 buf "length buf + 2" d r max_body]
    show ?thesis by (auto split: chunk_status.splits)
  next
    case False
    obtain d1 r1 where one: "chunk_bytes ?s buf = (d1, r1)" by (cases "chunk_bytes ?s buf")
    have last: "r = Complete [] \<Longrightarrow> concat bufs \<noteq> []"
      using False Cons.prems(4) by (cases bufs rule: rev_cases) auto
    from Cons.prems(3) one last Cons.prems(4) obtain s1 d2 where
      s1: "r1 = More s1" "chunk_bytes s1 (concat bufs) = (d2, r)" "d = d1 @ d2"
      by (auto simp: chunk_bytes_append split: chunk_status.splits prod.splits)
    have inv1: "ck_inv s1" "snd s1 \<le> ck_limit"
      using chunk_bytes_inv [OF inv(1)] chunk_bytes_limit [OF inv(2,1)] one s1(1) by auto
    have fits1: "body_fits max_body rb (d1, More s1)"
      using body_fits_append [OF _ inv1 s1(2)] Cons.prems(5) s1(3) by blast
    obtain rb1 where rb1: "chunked_filter_buf (length buf + 2) max_body buf 0 rb = Some (Inr rb1)"
      "body_refines rb (d1, More s1) rb1"
      using chunked_filter_buf_refines [OF Cons.prems(1), of 0 buf "length buf + 2" d1 "More s1" max_body]
        one s1(1) fits1 by auto
    then have entry: "ck_entry (rb_chunked rb1) = s1" "ck_ready (rb_chunked rb1)"
      "content_length_n rb1 = content_length_n rb + int (length d1)" "body_bytes rb1 = body_bytes rb @ d1"
      by (auto simp: body_refines_def)
    have "\<exists>rb'. chunked_filter_chain max_body bufs rb1 = Some (Inr rb') \<and> body_refines rb1 (d2, r) rb'"
      by (rule Cons.IH) (use False entry s1 Cons.prems(4,5) in \<open>auto simp: body_fits_def\<close>)
    then obtain rb' where "chunked_filter_chain max_body bufs rb1 = Some (Inr rb')"
      "body_refines rb1 (d2, r) rb'" by blast
    with rb1(1) entry s1(3) show ?thesis
      by (auto simp: body_refines_def)
  qed
qed simp

subsection \<open>Reading back what the encoder wrote\<close>

text \<open>The largest size the parser accepts: it tests the size before it looks at the next byte.\<close>

abbreviation (input) chunk_max :: int where "chunk_max \<equiv> 576460752303423487"

lemma chunk_bytes_digits:
  assumes "list_all is_hex ds" "0 \<le> v" "v * 16 ^ length ds + hex_val ds \<le> chunk_max"
  shows "chunk_bytes (sw_chunk_size, v) (ds @ rest) =
     chunk_bytes (sw_chunk_size, v * 16 ^ length ds + hex_val ds) rest"
  using assms
proof (induction ds arbitrary: v)
  case (Cons c ds)
  then obtain x where x: "hex_digit c = Some x" by auto
  note x_range = hex_digit_range [OF x]
  have val: "v * 16 ^ length (c # ds) + hex_val (c # ds) = (v * 16 + x) * 16 ^ length ds + hex_val ds"
    using x by (simp add: hex_val_Cons algebra_simps)
  have "0 \<le> hex_val ds" using Cons.prems(1) by (intro hex_val_nonneg) simp
  moreover have "(v * 16 + x) * 1 \<le> (v * 16 + x) * 16 ^ length ds"
    using Cons.prems(2) x_range by (intro mult_left_mono) auto
  ultimately have "(v * 16 + x) * 1 \<le> (v * 16 + x) * 16 ^ length ds + hex_val ds"
    by (rule add_increasing2)
  then have "v * 16 + x \<le> chunk_max"
    using Cons.prems(3) by (simp only: val mult_1_right)
  with Cons.prems x x_range val show ?case
    by (simp add: chunked_step_digit Cons.IH)
qed simp

lemma chunk_bytes_size:
  assumes "int n \<le> chunk_max"
  shows "chunk_bytes (sw_chunk_start, z) (sprintf_hex hex_lower n [] @ rest) =
     chunk_bytes (sw_chunk_size, int n) rest"
proof -
  let ?ds = "sprintf_hex hex_lower n []"
  have hex: "hex_val ?ds = int n" "list_all is_hex ?ds"
    using sprintf_hex_val [OF hex_lower_digits, of n] by auto
  obtain c cs where ds: "?ds = c # cs" by (cases ?ds) (auto simp: sprintf_hex_unfold [of _ n])
  with hex(2) obtain x where x: "hex_digit c = Some x" by auto
  have "chunk_bytes (sw_chunk_start, z) (?ds @ rest) = chunk_bytes (sw_chunk_size, x) (cs @ rest)"
    using hex_digit_range [OF x] x by (simp add: ds chunked_step_start)
  also have "\<dots> = chunk_bytes (sw_chunk_size, x * 16 ^ length cs + hex_val cs) rest"
    using hex hex_digit_range [OF x] x assms by (intro chunk_bytes_digits) (auto simp: ds hex_val_Cons)
  finally show ?thesis
    using hex(1) x by (simp add: ds hex_val_Cons)
qed

lemma hex_digit_CRLF [simp]: "hex_digit ch_CR = None" "hex_digit ch_LF = None"
  by (simp_all add: hex_digit_def is_digit_def)

lemma chunk_bytes_chunk:
  assumes "int (length data) \<le> chunk_max" "data \<noteq> []"
  shows "chunk_bytes (sw_chunk_start, z)
      (sprintf_hex hex_lower (length data) [] @ [ch_CR, ch_LF] @ data @ [ch_CR, ch_LF] @ rest) =
    (case chunk_bytes (sw_chunk_start, 0) rest of (d, r) \<Rightarrow> (data @ d, r))"
  using assms
  by (simp add: chunk_bytes_size chunked_step_nodigit chunk_bytes_data split: prod.split)

lemma chunk_bytes_last:
  "chunk_bytes (sw_chunk_start, z) [ch_0, ch_CR, ch_LF, ch_CR, ch_LF] = ([], Complete [])"
  by (simp add: chunked_step_start chunked_step_nodigit hex_digit_def is_digit_def)

lemma sprintf_num_chunk_size:
  assumes "int n \<le> chunk_max"
  shows "ngx_sprintf_num 18 n ch_SP 1 0 = sprintf_hex hex_lower n []"
proof -
  have "length (sprintf_hex hex_lower n []) \<le> 16" using assms by (intro sprintf_hex_length) simp_all
  then show ?thesis by (simp add: sprintf_num_take sprintf_temp_def Let_def)
qed

lemma length_concat_sum: "length (concat xss) = sum_list (map length xss)"
  by (rule length_concat)

lemma chunked_body_filter_empty:
  assumes "concat bufs = []"
  shows "ngx_http_chunked_body_filter bufs last_buf =
    (if last_buf then [ch_0, ch_CR, ch_LF, ch_CR, ch_LF] else [])"
proof -
  have "sum_list (map length bufs) = 0"
    by (simp only: length_concat_sum [symmetric] assms list.size)
  then show ?thesis
    by (simp add: ngx_http_chunked_body_filter_def assms Let_def del: sum_list_eq_0_iff concat_eq_Nil_conv)
qed

lemma chunked_body_filter_data:
  assumes "int (length (concat bufs)) \<le> chunk_max" "concat bufs \<noteq> []"
  shows "ngx_http_chunked_body_filter bufs last_buf =
    sprintf_hex hex_lower (length (concat bufs)) [] @ [ch_CR, ch_LF] @ concat bufs @ [ch_CR, ch_LF]
    @ (if last_buf then [ch_0, ch_CR, ch_LF, ch_CR, ch_LF] else [])"
proof -
  have "sum_list (map length bufs) = length (concat bufs)" "length (concat bufs) \<noteq> 0"
    using assms(2) by (simp_all only: length_concat_sum [symmetric] length_0_conv not_False_eq_True)
  then show ?thesis
    by (simp add: ngx_http_chunked_body_filter_def sprintf_num_chunk_size [OF assms(1)] Let_def
        del: sum_list_eq_0_iff concat_eq_Nil_conv length_concat One_nat_def)
qed

text \<open>A response: the calls of the filter before the last one, and the last.\<close>

definition chunked_response :: "u_char list list list \<Rightarrow> u_char list list \<Rightarrow> u_char list" where
  "chunked_response calls final =
     concat (map (\<lambda>bufs. ngx_http_chunked_body_filter bufs False) calls)
     @ ngx_http_chunked_body_filter final True"

definition response_data :: "u_char list list list \<Rightarrow> u_char list list \<Rightarrow> u_char list" where
  "response_data calls final = concat (map concat calls) @ concat final"

lemma chunk_bytes_final:
  assumes "int (length (concat final)) \<le> chunk_max"
  shows "chunk_bytes (sw_chunk_start, 0) (ngx_http_chunked_body_filter final True) =
    (concat final, Complete [])"
proof (cases "concat final = []")
  case True
  then show ?thesis
    by (simp only: chunked_body_filter_empty [OF True] if_True chunk_bytes_last)
next
  case False
  with chunk_bytes_chunk [OF assms False, of 0 "[ch_0, ch_CR, ch_LF, ch_CR, ch_LF]"] show ?thesis
    by (simp only: chunked_body_filter_data [OF assms False] if_True append.assoc chunk_bytes_last prod.case append_Nil2)
qed

lemma chunk_bytes_response:
  assumes "int (length (response_data calls final)) \<le> chunk_max"
  shows "chunk_bytes (sw_chunk_start, 0) (chunked_response calls final) =
    (response_data calls final, Complete [])"
  using assms
proof (induction calls)
  case Nil
  then show ?case by (simp add: chunked_response_def response_data_def chunk_bytes_final)
next
  case (Cons bufs calls)
  have len: "int (length (concat bufs)) \<le> chunk_max"
    "int (length (response_data calls final)) \<le> chunk_max"
    using Cons.prems by (simp_all add: response_data_def del: length_concat)
  have rest: "chunked_response (bufs # calls) final =
      ngx_http_chunked_body_filter bufs False @ chunked_response calls final"
    by (simp add: chunked_response_def)
  show ?case
  proof (cases "concat bufs = []")
    case True
    with Cons.IH len(2) show ?thesis
      by (simp add: rest response_data_def chunked_body_filter_empty del: concat_eq_Nil_conv length_concat)
  next
    case False
    have "chunk_bytes (sw_chunk_start, 0) (chunked_response (bufs # calls) final) =
        (case chunk_bytes (sw_chunk_start, 0) (chunked_response calls final) of
           (d, r) \<Rightarrow> (concat bufs @ d, r))"
      using chunk_bytes_chunk [OF len(1) False, of 0 "chunked_response calls final"]
      by (simp only: rest chunked_body_filter_data [OF len(1) False] if_False append.assoc append_Nil append_Nil2)
    then show ?thesis
      using Cons.IH len(2) by (simp add: response_data_def)
  qed
qed

text \<open>C32: The body of a response that the chunked encoder writes, over any number of calls
  (the last with the last buffer of the response) and cut into any buffers on its way, is
  read back by the request body filter: it passes on exactly the bytes that were encoded,
  reports the end of the body, and counts its length, whenever the length is below the
  largest chunk the parser accepts and \<open>client_max_body_size\<close> allows it. In particular the
  endless loop of the filter ends on every buffer.\<close>

theorem chunked_body_round_trip:
  assumes "rb_rest rb = -1"
    and "concat segs = chunked_response calls final" "segs \<noteq> []" "last segs \<noteq> []"
    and "int (length (response_data calls final)) \<le> chunk_max"
    and "0 \<le> max_body" "max_body \<le> NGX_MAX_INT_T_VALUE"
    and "max_body = 0 \<or> int (length (response_data calls final)) \<le> max_body"
  shows "\<exists>rb'. request_body_chunked_filter max_body segs rb = Some (Inr rb') \<and>
    body_bytes rb' = response_data calls final \<and> last (rb_out rb') = Last_buf \<and> rb_rest rb' = 0 \<and>
    content_length_n rb' = int (length (response_data calls final))"
proof -
  let ?rb = "rb\<lparr>rb_chunked := \<lparr>ck_state = sw_chunk_start, ck_size = 0, ck_length = 0\<rparr>,
    content_length_n := 0, rb_rest := 3, rb_out := []\<rparr>"
  let ?dr = "(response_data calls final, Complete [])"
  have "\<exists>rb'. chunked_filter_chain max_body segs ?rb = Some (Inr rb') \<and> body_refines ?rb ?dr rb'"
  proof (rule chunked_filter_chain_refines)
    show "ck_ready (rb_chunked ?rb)" by (simp add: ck_ready_def ck_entry_def)
    show "chunk_bytes (ck_entry (rb_chunked ?rb)) (concat segs) = ?dr"
      using chunk_bytes_response [OF assms(5)] by (simp add: ck_entry_def assms(2))
    show "body_fits max_body ?rb ?dr"
      using assms(5-8) by (auto simp: body_fits_def promised_def)
  qed (use assms(3,4) in simp_all)
  then show ?thesis
    using assms(1) by (auto simp: request_body_chunked_filter_def body_refines_def body_bytes_def)
qed

definition fresh_body :: request_body where
  "fresh_body = \<lparr>rb_chunked = \<lparr>ck_state = sw_trailer, ck_size = 7, ck_length = 0\<rparr>,
     rb_rest = -1, content_length_n = 0, rb_out = []\<rparr>"

lemma chunked_body_round_trip_witness:
  "\<exists>rb'. request_body_chunked_filter 1000
      [[0x33, ch_CR], [ch_LF, 0x61, 0x62], [0x63, ch_CR, ch_LF, ch_0, ch_CR, ch_LF, ch_CR, ch_LF]]
      fresh_body = Some (Inr rb') \<and>
    body_bytes rb' = [0x61, 0x62, 0x63] \<and> last (rb_out rb') = Last_buf \<and> rb_rest rb' = 0 \<and>
    content_length_n rb' = 3"
  using chunked_body_round_trip [of fresh_body
      "[[0x33, ch_CR], [ch_LF, 0x61, 0x62], [0x63, ch_CR, ch_LF, ch_0, ch_CR, ch_LF, ch_CR, ch_LF]]"
      "[[[0x61], [0x62, 0x63]]]" "[]" 1000]
  by (simp add: fresh_body_def chunked_response_def response_data_def chunked_body_filter_data
      chunked_body_filter_empty sprintf_hex_unfold hex_lower_def)

subsection \<open>Restarting the parser\<close>

lemma parse_chunked_again:
  assumes "ck_inv (ck_entry ctx)" "ngx_http_parse_chunked buf pos ctx = (NGX_AGAIN, p, ctx1)"
  shows "scan chunked_step pos (drop pos buf) (ck_entry ctx) = Inl (ck_entry ctx1)"
    "ctx1 = ctx\<lparr>ck_state := fst (ck_entry ctx1), ck_size := snd (ck_entry ctx1),
       ck_length := ck_length ctx1\<rparr>"
proof -
  obtain st sz where s: "scan chunked_step pos (drop pos buf) (ck_entry ctx) = Inl (st, sz)"
    "chunked_data NGX_AGAIN (length buf) st sz ctx = (NGX_AGAIN, p, ctx1)"
    using assms(2)
    by (auto simp: parse_chunked_entry chunked_data_def Let_def split: sum.splits ck_exit.splits if_splits)
  have "ck_inv (st, sz)" using chunked.scan_inv [OF assms(1) s(1)] .
  then have "ck_entry ctx1 = (st, sz)"
    using s(2) by (auto simp: chunked_data_def Let_def ck_entry_def split: if_splits)
  with s show "scan chunked_step pos (drop pos buf) (ck_entry ctx) = Inl (ck_entry ctx1)"
    "ctx1 = ctx\<lparr>ck_state := fst (ck_entry ctx1), ck_size := snd (ck_entry ctx1),
       ck_length := ck_length ctx1\<rparr>"
    by (auto simp: chunked_data_def Let_def split: if_splits)
qed

text \<open>C33: A chunked body may be cut anywhere: when the parser has consumed the first \<open>n\<close> bytes
  and asked for more, the next call, with more bytes in the buffer, gives the return code
  that one call on all the bytes gives; unless that is an error, also the same position,
  parser state and chunk size, and for NGX_OK and NGX_AGAIN the same context.\<close>

theorem parse_chunked_restart:
  assumes "ck_inv (ck_entry ctx)" "pos \<le> n" "n \<le> length buf"
    and "ngx_http_parse_chunked (take n buf) pos ctx = (NGX_AGAIN, p1, ctx1)"
  shows "\<exists>rc p c p' c'. ngx_http_parse_chunked buf n ctx1 = (rc, p, c) \<and>
    ngx_http_parse_chunked buf pos ctx = (rc, p', c') \<and>
    (rc \<noteq> NGX_ERROR \<longrightarrow> p = p' \<and> ck_state c = ck_state c' \<and> ck_size c = ck_size c') \<and>
    (rc = NGX_OK \<or> rc = NGX_AGAIN \<longrightarrow> c = c')"
proof -
  note first = parse_chunked_again [OF assms(1,4)]
  have "scan chunked_step pos (drop pos buf) (ck_entry ctx) =
      scan chunked_step n (drop n buf) (ck_entry ctx1)"
    by (rule chunked.scan_restart [OF assms(1-3) first(1)])
  then show ?thesis
    unfolding parse_chunked_entry [of buf n ctx1] parse_chunked_entry [of buf pos ctx]
    by (subst (2) first(2), cases "scan chunked_step n (drop n buf) (ck_entry ctx1)")
      (auto simp: chunked_data_def Let_def split: ck_exit.splits)
qed

lemma parse_chunked_restart_witness:
  "\<exists>p c.
     ngx_http_parse_chunked [0x31, 0x30, ch_CR, ch_LF, 0x61] 1 \<lparr>ck_state = sw_chunk_size, ck_size = 1, ck_length = 6\<rparr>
       = (NGX_OK, p, c) \<and>
     ngx_http_parse_chunked [0x31, 0x30, ch_CR, ch_LF, 0x61] 0 \<lparr>ck_state = sw_chunk_start, ck_size = 0, ck_length = 3\<rparr>
       = (NGX_OK, p, c)"
proof -
  let ?buf = "[0x31, 0x30, ch_CR, ch_LF, 0x61] :: u_char list"
  let ?ctx1 = "\<lparr>ck_state = sw_chunk_size, ck_size = 1, ck_length = 6\<rparr>"
  let ?ctx = "\<lparr>ck_state = sw_chunk_start, ck_size = 0, ck_length = 3\<rparr>"
  have "fst (ngx_http_parse_chunked ?buf 1 ?ctx1) = NGX_OK"
    by (simp add: ck_entry_def parse_chunked_entry chunked_step.simps chunked_data_def)
  moreover have "\<exists>rc p c p' c'. ngx_http_parse_chunked ?buf 1 ?ctx1 = (rc, p, c) \<and>
      ngx_http_parse_chunked ?buf 0 ?ctx = (rc, p', c') \<and>
      (rc \<noteq> NGX_ERROR \<longrightarrow> p = p' \<and> ck_state c = ck_state c' \<and> ck_size c = ck_size c') \<and>
      (rc = NGX_OK \<or> rc = NGX_AGAIN \<longrightarrow> c = c')"
    by (rule parse_chunked_restart [of _ 0 1 ?buf 1])
      (simp_all add: ck_entry_def parse_chunked_entry chunked_step.simps chunked_data_def chunked_min_length_def)
  ultimately show ?thesis by fastforce
qed

subsection \<open>The least number of bytes to wait for\<close>

lemma chunked_min_length_pos:
  "ck_inv s \<Longrightarrow> snd s \<le> ck_limit \<Longrightarrow> 1 \<le> chunked_min_length (fst s) (snd s)"
  by (cases s; cases "fst s") (simp_all add: chunked_min_length_def)

lemma chunked_min_length_step:
  assumes "ck_inv (st, sz)" "chunked_step (st, sz) 0 ch = Next s'" "sz \<le> ck_limit" "snd s' \<le> ck_limit"
  shows "chunked_min_length st sz \<le> 1 + chunked_min_length (fst s') (snd s')"
proof (cases st)
  case sw_chunk_start
  with assms show ?thesis
    by (auto simp: chunked_step_start chunked_min_length_def split: option.splits dest: hex_digit_range)
next
  case sw_chunk_size
  have small: "sz \<le> NGX_MAX_INT_T_VALUE div 16"
    using assms(2) sw_chunk_size by (auto simp: chunked_step.simps split: if_splits)
  show ?thesis
  proof (cases "hex_digit ch")
    case None
    with assms small sw_chunk_size show ?thesis
      by (auto simp: chunked_step_nodigit chunked_min_length_def split: if_splits)
  next
    case (Some d)
    with assms small sw_chunk_size hex_digit_range [OF Some] show ?thesis
      by (auto simp: chunked_step_digit chunked_min_length_def)
  qed
qed (use assms in \<open>auto simp: chunked_min_length_def split: if_splits\<close>)

lemma chunked_min_length_lower:
  assumes "ck_inv s" "snd s \<le> ck_limit" "chunk_bytes s ys = (d, Complete rest)"
  shows "chunked_min_length (fst s) (snd s) + int (length rest) \<le> int (length ys)"
  using assms
proof (induction s ys arbitrary: d rule: chunk_bytes.induct)
  case (2 st sz ch ys)
  show ?case
  proof (cases "st = sw_chunk_data")
    case True
    let ?s = "if sz = 1 then (sw_after_data, 0) else (sw_chunk_data, sz - 1)"
    have s: "ck_inv ?s" "snd ?s \<le> ck_limit" using 2(3,4) True by auto
    obtain d' where d': "chunk_bytes ?s ys = (d', Complete rest)"
      using 2(5) True by (auto split: prod.splits)
    show ?thesis
      using 2(1) [OF True s d'] True 2(3,4) by (auto simp: chunked_min_length_def split: if_splits)
  next
    case False
    show ?thesis
    proof (cases "chunked_step (st, sz) 0 ch")
      case (Next s')
      then have s': "\<not> snd s' > ck_limit" "chunk_bytes s' ys = (d, Complete rest)"
        using 2(5) False by (auto split: if_splits)
      from 2(2) [OF False Next s'(1) chunked_step_inv [OF 2(3) Next] _ s'(2)]
        chunked_min_length_step [OF 2(3) Next] s'(1) 2(4)
      show ?thesis by simp
    next
      case (Stop x)
      with 2(5) False have "rest = ys" by (auto split: ck_exit.splits)
      moreover have "chunked_min_length st sz \<le> 1"
        using Stop 2(5) False
        by (cases st) (auto simp: chunked_min_length_def chunked_step.simps Let_def split: if_splits)
      ultimately show ?thesis by simp
    qed
  qed
qed simp

text \<open>Inputs of that length: the shortest way from each state to the end of the body.\<close>

lemma shortest_start: "chunk_bytes (sw_chunk_start, z) [ch_0, ch_LF, ch_LF] = ([], Complete [])"
  by (simp add: chunked_step_start chunked_step_nodigit hex_digit_def is_digit_def)

lemma shortest_data:
  assumes "0 < sz"
  shows "chunk_bytes (sw_chunk_data, sz) (replicate (nat sz) 0 @ [ch_LF, ch_0, ch_LF, ch_LF]) =
    (replicate (nat sz) 0, Complete [])"
  using assms shortest_start by (subst chunk_bytes_data) simp_all

definition shortest :: "ck_state \<Rightarrow> int \<Rightarrow> u_char list" where
  "shortest st sz =
     (let data = replicate (nat sz) 0 @ [ch_LF, ch_0, ch_LF, ch_LF] in
      case st of
        sw_chunk_start \<Rightarrow> [ch_0, ch_LF, ch_LF]
      | sw_chunk_size \<Rightarrow> if sz = 0 then [ch_LF, ch_LF] else ch_LF # data
      | sw_chunk_extension \<Rightarrow> ch_LF # data
      | sw_chunk_extension_almost_done \<Rightarrow> ch_LF # data
      | sw_chunk_data \<Rightarrow> data
      | sw_after_data \<Rightarrow> [ch_LF, ch_0, ch_LF, ch_LF]
      | sw_after_data_almost_done \<Rightarrow> [ch_LF, ch_0, ch_LF, ch_LF]
      | sw_trailer \<Rightarrow> [ch_LF]
      | sw_trailer_almost_done \<Rightarrow> [ch_LF]
      | _ \<Rightarrow> [ch_LF, ch_LF])"

lemma shortest_completes:
  assumes "ck_inv (st, sz)" "sz \<le> ck_limit" "st = sw_chunk_size \<Longrightarrow> sz \<le> chunk_max"
  shows "\<exists>d. chunk_bytes (st, sz) (shortest st sz) = (d, Complete [])"
    "int (length (shortest st sz)) = chunked_min_length st sz"
proof -
  show "\<exists>d. chunk_bytes (st, sz) (shortest st sz) = (d, Complete [])"
    using assms shortest_start
    by (cases st) (auto simp: shortest_def Let_def shortest_data chunked_step_nodigit)
  show "int (length (shortest st sz)) = chunked_min_length st sz"
    using assms by (cases st) (auto simp: shortest_def Let_def chunked_min_length_def)
qed

text \<open>The length the parser asks for is exact: from every state in which it returns, no
  shorter input can complete the body, and one of that length does. (In the middle of a
  chunk size the size must still be one the parser goes on with, otherwise the next byte is
  rejected and no input completes the body.)\<close>

theorem chunked_length_exact:
  assumes "ck_inv (st, sz)" "sz \<le> ck_limit" "st = sw_chunk_size \<Longrightarrow> sz \<le> chunk_max"
  shows "(\<exists>d ys. chunk_bytes (st, sz) ys = (d, Complete []) \<and>
        int (length ys) = chunked_min_length st sz) \<and>
    (\<forall>d ys rest. chunk_bytes (st, sz) ys = (d, Complete rest) \<longrightarrow>
        chunked_min_length st sz + int (length rest) \<le> int (length ys))"
  using shortest_completes [OF assms] chunked_min_length_lower [of "(st, sz)"] assms(1,2) by fastforce

lemma chunked_length_exact_witness:
  "\<exists>d ys. chunk_bytes (sw_chunk_size, 5) ys = (d, Complete []) \<and>
     int (length ys) = chunked_min_length sw_chunk_size 5"
  using chunked_length_exact [of sw_chunk_size 5] by simp

end
