(* ===== verification/Http_Uri.thy ===== *)
theory Http_Uri
  imports Str_Num
begin

section \<open>The request URI: \<open>ngx_http_parse_uri\<close> and \<open>ngx_http_parse_complex_uri\<close>\<close>

text \<open>
  The two passes over the URI of a request (\<open>src/http/ngx_http_parse.c\<close>): the first only
  looks for something to normalise, the second decodes and normalises into a buffer of its
  own; \<open>ngx_http_process_request_uri\<close> (\<open>src/http/ngx_http_request.c\<close>) chooses. The build is
  the Unix one (no \<open>NGX_WIN32\<close>). Pointers into the URI are offsets from \<open>uri_start\<close>.
\<close>

abbreviation (input) NGX_HTTP_PARSE_INVALID_REQUEST :: int where "NGX_HTTP_PARSE_INVALID_REQUEST \<equiv> 11"
abbreviation (input) NGX_HTTP_BAD_REQUEST :: int where "NGX_HTTP_BAD_REQUEST \<equiv> 400"

subsection \<open>The table \<open>usual\<close>\<close>

definition usual :: "32 word list" where
  "usual = [0xffffdbfe, 0x7fff37d6, 0xffffffff, 0xffffffff, 0xffffffff, 0xffffffff, 0xffffffff, 0xffffffff]"

text \<open>\<^verbatim>\<open>usual[ch >> 5] & (1 << (ch & 0x1f))\<close>\<close>

definition is_usual :: "u_char \<Rightarrow> bool" where
  "is_usual ch \<longleftrightarrow> usual ! unat (drop_bit 5 ch) AND push_bit (unat (ch AND 0x1f)) 1 \<noteq> 0"

lemma and_push_bit_1: "(w::32 word) AND push_bit n 1 \<noteq> 0 \<longleftrightarrow> bit w n"
  by (simp only: bit_iff_and_push_bit_not_eq_0)

lemma unat_shift_5: "unat (drop_bit 5 (c::u_char)) = unat c div 32"
  by (simp add: unat_drop_bit_eq) (simp add: drop_bit_eq_div)

lemma unat_and_31: "unat ((c::u_char) AND 0x1f) = unat c mod 32"
proof -
  have "c AND 0x1f = take_bit 5 c" by (simp add: take_bit_eq_mask mask_eq_exp_minus_1)
  also have "\<dots> = c mod 32" by (simp add: take_bit_eq_mod)
  finally show ?thesis by (simp add: unat_mod_distrib)
qed

lemma is_usual_bit: "is_usual ch \<longleftrightarrow> bit (usual ! (unat ch div 32)) (unat ch mod 32)"
  by (simp only: is_usual_def and_push_bit_1 unat_shift_5 unat_and_31)

text \<open>The words of the table, written as the bits that are clear.\<close>

lemma bit_clear_bits:
  "n < 32 \<Longrightarrow> bit (NOT w :: 32 word) n \<longleftrightarrow> \<not> bit w n"
  "n < 32 \<Longrightarrow> bit (push_bit k 1 OR w :: 32 word) n \<longleftrightarrow> n = k \<or> bit w n"
  by (auto simp: bit_not_iff bit_or_iff bit_push_bit_iff bit_1_iff simp del: push_bit_of_1)

lemma usual_clear:
  "(0xffffdbfe :: 32 word) = NOT (push_bit 0 1 OR (push_bit 10 1 OR (push_bit 13 1 OR 0)))"
  "(0x7fff37d6 :: 32 word) = NOT (push_bit 0 1 OR (push_bit 3 1 OR (push_bit 5 1 OR
     (push_bit 11 1 OR (push_bit 14 1 OR (push_bit 15 1 OR (push_bit 31 1 OR 0)))))))"
  "(0xffffffff :: 32 word) = NOT 0"
  by (simp_all add: push_bit_eq_mult)

lemma usual_words:
  "n < 32 \<Longrightarrow> bit (0xffffdbfe :: 32 word) n \<longleftrightarrow> n \<noteq> 0 \<and> n \<noteq> 10 \<and> n \<noteq> 13"
  "n < 32 \<Longrightarrow> bit (0x7fff37d6 :: 32 word) n \<longleftrightarrow>
     n \<noteq> 0 \<and> n \<noteq> 3 \<and> n \<noteq> 5 \<and> n \<noteq> 11 \<and> n \<noteq> 14 \<and> n \<noteq> 15 \<and> n \<noteq> 31"
  "n < 32 \<Longrightarrow> bit (0xffffffff :: 32 word) n"
  by (simp_all only: usual_clear bit_clear_bits) simp_all

lemma is_usual_iff:
  "is_usual ch \<longleftrightarrow> ch \<notin> {ch_NUL, ch_LF, ch_CR, ch_SP, ch_hash, ch_percent, ch_plus, ch_dot, ch_slash, ch_quest}"
proof -
  let ?q = "unat ch div 32" and ?r = "unat ch mod 32"
  have q: "?q < 8" "?r < 32" by (simp_all add: less_mult_imp_div_less)
  have u: "unat ch = 32 * ?q + ?r" by simp
  have "is_usual ch \<longleftrightarrow> unat ch \<notin> {0, 10, 13, 32, 35, 37, 43, 46, 47, 63}"
  proof (cases "?q = 0")
    case True
    have "unat ch = ?r" using u True by linarith
    moreover have "is_usual ch \<longleftrightarrow> ?r \<noteq> 0 \<and> ?r \<noteq> 10 \<and> ?r \<noteq> 13"
      unfolding is_usual_bit True by (simp only: usual_def nth_Cons_0 usual_words(1) [OF q(2)])
    ultimately show ?thesis using q(2) by (simp del: mod_less)
  next
    case q0: False
    show ?thesis
    proof (cases "?q = 1")
      case True
      have "unat ch = 32 + ?r" using u True by linarith
      moreover have "is_usual ch \<longleftrightarrow> ?r \<noteq> 0 \<and> ?r \<noteq> 3 \<and> ?r \<noteq> 5 \<and> ?r \<noteq> 11 \<and> ?r \<noteq> 14 \<and> ?r \<noteq> 15 \<and> ?r \<noteq> 31"
        unfolding is_usual_bit True by (simp only: usual_def One_nat_def nth_Cons_0 nth_Cons_Suc usual_words(2) [OF q(2)])
      ultimately show ?thesis by auto
    next
      case False
      then have ge: "64 \<le> unat ch" using q0 by linarith
      have "?q \<in> {2, 3, 4, 5, 6, 7}" using q(1) q0 False by auto
      then have "usual ! ?q = 0xffffffff" by (auto simp: usual_def)
      then have "is_usual ch" unfolding is_usual_bit by (simp only: usual_words(3) q(2))
      with ge show ?thesis by auto
    qed
  qed
  then show ?thesis by (simp add: word_unat_eq_iff)
qed

subsection \<open>The request's fields\<close>

record uri_request =
  uri_ext :: "nat option"
  args_start :: "nat option"
  uri :: "u_char list"
  exten :: "u_char list"
  args :: "u_char list"
  unparsed_uri :: "u_char list"
  complex_uri :: bool
  quoted_uri :: bool
  plus_in_uri :: bool
  space_in_uri :: bool
  valid_unparsed_uri :: bool

subsection \<open>\<open>ngx_http_parse_uri\<close>\<close>

datatype uri_state = uri_sw_start | sw_after_slash_in_uri | sw_check_uri | sw_uri

fun parse_uri_step :: "uri_state \<times> uri_request \<Rightarrow> nat \<Rightarrow> u_char \<Rightarrow> (uri_state \<times> uri_request, int) action" where
  "parse_uri_step (uri_sw_start, r) p ch =
     (if ch \<noteq> ch_slash then Stop NGX_ERROR else Next (sw_after_slash_in_uri, r))"
| "parse_uri_step (sw_after_slash_in_uri, r) p ch =
     (if is_usual ch then Next (sw_check_uri, r)
      else if ch = ch_SP then Next (sw_check_uri, r\<lparr>space_in_uri := True\<rparr>)
      else if ch = ch_dot then Next (sw_uri, r\<lparr>complex_uri := True\<rparr>)
      else if ch = ch_percent then Next (sw_uri, r\<lparr>quoted_uri := True\<rparr>)
      else if ch = ch_slash then Next (sw_uri, r\<lparr>complex_uri := True\<rparr>)
      else if ch = ch_quest then Next (sw_uri, r\<lparr>args_start := Some (p + 1)\<rparr>)
      else if ch = ch_hash then Next (sw_uri, r\<lparr>complex_uri := True\<rparr>)
      else if ch = ch_plus then Next (sw_after_slash_in_uri, r\<lparr>plus_in_uri := True\<rparr>)
      else Next (sw_check_uri, r))"
| "parse_uri_step (sw_check_uri, r) p ch =
     (if is_usual ch then Next (sw_check_uri, r)
      else if ch = ch_slash then Next (sw_after_slash_in_uri, r\<lparr>uri_ext := None\<rparr>)
      else if ch = ch_dot then Next (sw_check_uri, r\<lparr>uri_ext := Some (p + 1)\<rparr>)
      else if ch = ch_SP then Next (sw_check_uri, r\<lparr>space_in_uri := True\<rparr>)
      else if ch = ch_percent then Next (sw_uri, r\<lparr>quoted_uri := True\<rparr>)
      else if ch = ch_quest then Next (sw_uri, r\<lparr>args_start := Some (p + 1)\<rparr>)
      else if ch = ch_hash then Next (sw_uri, r\<lparr>complex_uri := True\<rparr>)
      else if ch = ch_plus then Next (sw_check_uri, r\<lparr>plus_in_uri := True\<rparr>)
      else Next (sw_check_uri, r))"
| "parse_uri_step (sw_uri, r) p ch =
     (if is_usual ch then Next (sw_uri, r)
      else if ch = ch_SP then Next (sw_uri, r\<lparr>space_in_uri := True\<rparr>)
      else if ch = ch_hash then Next (sw_uri, r\<lparr>complex_uri := True\<rparr>)
      else Next (sw_uri, r))"

text \<open>\<open>text\<close> is the memory from \<open>uri_start\<close> to \<open>uri_end\<close>.\<close>

definition ngx_http_parse_uri :: "u_char list \<Rightarrow> uri_request \<Rightarrow> int \<times> uri_request option" where
  "ngx_http_parse_uri text r =
     (case scan parse_uri_step 0 text (uri_sw_start, r) of
        Inl (_, r) \<Rightarrow> (NGX_OK, Some r)
      | Inr rc \<Rightarrow> (rc, None))"

subsection \<open>\<open>ngx_http_parse_complex_uri\<close>\<close>

text \<open>
  The local variables: \<open>cu_u\<close> holds the bytes written from \<open>r->uri.data\<close> up to \<open>u\<close>,
  \<open>cu_p\<close> is the offset of \<open>p\<close>. The memory behind \<open>p\<close> is the list \<open>mem\<close>, in which the URI
  is the first \<open>n\<close> bytes; the buffer behind \<open>u\<close> has \<open>cap\<close> bytes. A read or write outside
  them leaves the loop with \<open>Cu_fault\<close>.
\<close>

datatype cu_state = sw_usual | sw_slash | sw_dot | sw_dot_dot | sw_quoted | sw_quoted_second

record complex_uri =
  cu_state :: cu_state
  cu_quoted_state :: cu_state
  cu_decoded :: u_char
  cu_ch :: u_char
  cu_p :: nat
  cu_u :: "u_char list"
  cu_req :: uri_request

datatype cu_exit = Cu_done complex_uri | Cu_args complex_uri | Cu_invalid complex_uri | Cu_fault

text \<open>\<^verbatim>\<open>*u++ = c\<close> and \<^verbatim>\<open>ch = *p++\<close>\<close>

definition cu_put :: "nat \<Rightarrow> u_char \<Rightarrow> complex_uri \<Rightarrow> complex_uri option" where
  "cu_put cap c s = (if length (cu_u s) < cap then Some (s\<lparr>cu_u := cu_u s @ [c]\<rparr>) else None)"

definition cu_next :: "u_char list \<Rightarrow> complex_uri option \<Rightarrow> (complex_uri, cu_exit) action" where
  "cu_next mem x =
     (case x of
        None \<Rightarrow> Stop Cu_fault
      | Some s \<Rightarrow> (case rd mem (cu_p s) of
                    None \<Rightarrow> Stop Cu_fault
                  | Some ch \<Rightarrow> Next (s\<lparr>cu_ch := ch, cu_p := cu_p s + 1\<rparr>)))"

abbreviation (input) cu_state_to :: "cu_state \<Rightarrow> complex_uri \<Rightarrow> complex_uri" where
  "cu_state_to st s \<equiv> s\<lparr>cu_state := st\<rparr>"

abbreviation (input) cu_quote :: "complex_uri \<Rightarrow> complex_uri" where
  "cu_quote s \<equiv> s\<lparr>cu_quoted_state := cu_state s, cu_state := sw_quoted\<rparr>"

abbreviation (input) cu_req_set :: "(uri_request \<Rightarrow> uri_request) \<Rightarrow> complex_uri \<Rightarrow> complex_uri" where
  "cu_req_set f s \<equiv> s\<lparr>cu_req := f (cu_req s)\<rparr>"

abbreviation (input) cu_question :: "complex_uri \<Rightarrow> complex_uri" where
  "cu_question s \<equiv> cu_req_set (args_start_update (\<lambda>_. Some (cu_p s))) s"

definition cu_usual :: "u_char list \<Rightarrow> nat \<Rightarrow> complex_uri \<Rightarrow> (complex_uri, cu_exit) action" where
  "cu_usual mem cap s =
     (let ch = cu_ch s in
      if is_usual ch then cu_next mem (cu_put cap ch s)
      else if ch = ch_slash then
        cu_next mem (cu_put cap ch (cu_state_to sw_slash (cu_req_set (uri_ext_update (\<lambda>_. None)) s)))
      else if ch = ch_percent then cu_next mem (Some (cu_quote s))
      else if ch = ch_quest then Stop (Cu_args (cu_question s))
      else if ch = ch_hash then Stop (Cu_done s)
      else if ch = ch_dot then
        cu_next mem (cu_put cap ch (cu_req_set (uri_ext_update (\<lambda>_. Some (length (cu_u s) + 1))) s))
      else if ch = ch_plus then
        cu_next mem (cu_put cap ch (cu_req_set (plus_in_uri_update (\<lambda>_. True)) s))
      else cu_next mem (cu_put cap ch s))"

definition cu_slash :: "u_char list \<Rightarrow> nat \<Rightarrow> bool \<Rightarrow> complex_uri \<Rightarrow> (complex_uri, cu_exit) action" where
  "cu_slash mem cap merge_slashes s =
     (let ch = cu_ch s in
      if is_usual ch then cu_next mem (cu_put cap ch (cu_state_to sw_usual s))
      else if ch = ch_slash then
        cu_next mem (if \<not> merge_slashes then cu_put cap ch s else Some s)
      else if ch = ch_dot then cu_next mem (cu_put cap ch (cu_state_to sw_dot s))
      else if ch = ch_percent then cu_next mem (Some (cu_quote s))
      else if ch = ch_quest then Stop (Cu_args (cu_question s))
      else if ch = ch_hash then Stop (Cu_done s)
      else if ch = ch_plus then
        cu_next mem (cu_put cap ch (cu_state_to sw_usual (cu_req_set (plus_in_uri_update (\<lambda>_. True)) s)))
      else cu_next mem (cu_put cap ch (cu_state_to sw_usual s)))"

definition cu_dot :: "u_char list \<Rightarrow> nat \<Rightarrow> complex_uri \<Rightarrow> (complex_uri, cu_exit) action" where
  "cu_dot mem cap s =
     (let ch = cu_ch s in
      if is_usual ch then cu_next mem (cu_put cap ch (cu_state_to sw_usual s))
      else if ch = ch_slash then
        cu_next mem (if cu_u s = [] then None
                     else Some (cu_state_to sw_slash s\<lparr>cu_u := butlast (cu_u s)\<rparr>))
      else if ch = ch_dot then cu_next mem (cu_put cap ch (cu_state_to sw_dot_dot s))
      else if ch = ch_percent then cu_next mem (Some (cu_quote s))
      else if ch = ch_quest then Stop (Cu_args (cu_question s))
      else if ch = ch_hash then Stop (Cu_done s)
      else if ch = ch_plus then
        cu_next mem (cu_put cap ch (cu_state_to sw_usual (cu_req_set (plus_in_uri_update (\<lambda>_. True)) s)))
      else cu_next mem (cu_put cap ch (cu_state_to sw_usual s)))"

text \<open>
  The loop that looks back for the slash: \<open>cu_back out k\<close> starts at index \<open>k - 1\<close> and
  gives the new length of what is written; None is \<open>u < r->uri.data\<close>.
\<close>

fun cu_back :: "u_char list \<Rightarrow> nat \<Rightarrow> nat option" where
  "cu_back out 0 = None"
| "cu_back out (Suc i) = (if out ! i = ch_slash then Some (Suc i) else cu_back out i)"

definition cu_dot_dot :: "u_char list \<Rightarrow> nat \<Rightarrow> complex_uri \<Rightarrow> (complex_uri, cu_exit) action" where
  "cu_dot_dot mem cap s =
     (let ch = cu_ch s in
      if is_usual ch then cu_next mem (cu_put cap ch (cu_state_to sw_usual s))
      else if ch = ch_slash then
        (case cu_back (cu_u s) (length (cu_u s) - 4) of
           None \<Rightarrow> Stop (Cu_invalid s)
         | Some k \<Rightarrow> cu_next mem (Some (cu_state_to sw_slash s\<lparr>cu_u := take k (cu_u s)\<rparr>)))
      else if ch = ch_percent then cu_next mem (Some (cu_quote s))
      else if ch = ch_quest then Stop (Cu_args (cu_question s))
      else if ch = ch_hash then Stop (Cu_done s)
      else if ch = ch_plus then
        cu_next mem (cu_put cap ch (cu_state_to sw_usual (cu_req_set (plus_in_uri_update (\<lambda>_. True)) s)))
      else cu_next mem (cu_put cap ch (cu_state_to sw_usual s)))"

definition cu_quoted :: "u_char list \<Rightarrow> complex_uri \<Rightarrow> (complex_uri, cu_exit) action" where
  "cu_quoted mem s0 =
     (let s = cu_req_set (quoted_uri_update (\<lambda>_. True)) s0; ch = cu_ch s0 in
      if ch \<ge> ch_0 \<and> ch \<le> ch_9 then
        cu_next mem (Some (cu_state_to sw_quoted_second s\<lparr>cu_decoded := ch - ch_0\<rparr>))
      else let c = ch OR 0x20 in
        if c \<ge> ch_a \<and> c \<le> ch_f then
          cu_next mem (Some (cu_state_to sw_quoted_second s\<lparr>cu_decoded := c - ch_a + 10\<rparr>))
        else Stop (Cu_invalid s))"

definition cu_quoted_second :: "u_char list \<Rightarrow> nat \<Rightarrow> complex_uri \<Rightarrow> (complex_uri, cu_exit) action" where
  "cu_quoted_second mem cap s =
     (let ch = cu_ch s in
      if ch \<ge> ch_0 \<and> ch \<le> ch_9 then
        (let ch = push_bit 4 (cu_decoded s) + ch - ch_0 in
         if ch = ch_percent \<or> ch = ch_hash then cu_next mem (cu_put cap ch (cu_state_to sw_usual s))
         else if ch = ch_NUL then Stop (Cu_invalid s)
         else Next (cu_state_to (cu_quoted_state s) s\<lparr>cu_ch := ch\<rparr>))
      else let c = ch OR 0x20 in
        if c \<ge> ch_a \<and> c \<le> ch_f then
          (let ch = push_bit 4 (cu_decoded s) + c - ch_a + 10 in
           if ch = ch_quest then cu_next mem (cu_put cap ch (cu_state_to sw_usual s))
           else Next (cu_state_to (cu_quoted_state s)
                  (if ch = ch_plus then cu_req_set (plus_in_uri_update (\<lambda>_. True)) s else s)\<lparr>cu_ch := ch\<rparr>))
        else Stop (Cu_invalid s))"

definition complex_uri_step ::
  "u_char list \<Rightarrow> nat \<Rightarrow> bool \<Rightarrow> complex_uri \<Rightarrow> (complex_uri, cu_exit) action"
where
  "complex_uri_step mem cap merge_slashes s =
     (case cu_state s of
        sw_usual \<Rightarrow> cu_usual mem cap s
      | sw_slash \<Rightarrow> cu_slash mem cap merge_slashes s
      | sw_dot \<Rightarrow> cu_dot mem cap s
      | sw_dot_dot \<Rightarrow> cu_dot_dot mem cap s
      | sw_quoted \<Rightarrow> cu_quoted mem s
      | sw_quoted_second \<Rightarrow> cu_quoted_second mem cap s)"

text \<open>
  The loop \<^verbatim>\<open>while (p <= r->uri_end)\<close>, with a bound on its rounds: an escaped byte is
  visited once more after it is decoded, so twice the length is enough.
\<close>

fun complex_uri_loop ::
  "nat \<Rightarrow> u_char list \<Rightarrow> nat \<Rightarrow> nat \<Rightarrow> bool \<Rightarrow> complex_uri \<Rightarrow> cu_exit option"
where
  "complex_uri_loop 0 mem n cap merge_slashes s = None"
| "complex_uri_loop (Suc fuel) mem n cap merge_slashes s =
     (if cu_p s \<le> n then
        (case complex_uri_step mem cap merge_slashes s of
           Next s \<Rightarrow> complex_uri_loop fuel mem n cap merge_slashes s
         | Stop x \<Rightarrow> Some x)
      else Some (Cu_done s))"

text \<open>The code from the label \<open>done\<close>, which the label \<open>args\<close> shares.\<close>

definition complex_uri_done :: "u_char list \<Rightarrow> uri_request \<Rightarrow> (int \<times> uri_request) option" where
  "complex_uri_done u r =
     (case uri_ext r of
        None \<Rightarrow> Some (NGX_OK, r\<lparr>uri := u, uri_ext := None\<rparr>)
      | Some e \<Rightarrow> if e \<le> length u then Some (NGX_OK, r\<lparr>uri := u, exten := drop e u, uri_ext := None\<rparr>)
                 else None)"

fun hash_at :: "u_char list \<Rightarrow> nat \<Rightarrow> nat option" where
  "hash_at [] p = None"
| "hash_at (c # cs) p = (if c \<noteq> ch_hash then hash_at cs (p + 1) else Some p)"

definition complex_uri_args :: "u_char list \<Rightarrow> nat \<Rightarrow> nat \<Rightarrow> uri_request \<Rightarrow> uri_request" where
  "complex_uri_args mem n p r =
     (case hash_at (drop p (take n mem)) p of
        None \<Rightarrow> r
      | Some k \<Rightarrow> r\<lparr>args := drop p (take k mem), args_start := None\<rparr>)"

text \<open>
  The function: \<open>mem\<close> is the memory from \<open>uri_start\<close> on, \<open>n\<close> the length of the URI, \<open>cap\<close>
  the size of the buffer at \<open>r->uri.data\<close>. None is an access outside of them.
\<close>

definition ngx_http_parse_complex_uri ::
  "u_char list \<Rightarrow> nat \<Rightarrow> nat \<Rightarrow> bool \<Rightarrow> uri_request \<Rightarrow> (int \<times> uri_request) option"
where
  "ngx_http_parse_complex_uri mem n cap merge_slashes r =
     (case rd mem 0 of
        None \<Rightarrow> None
      | Some ch \<Rightarrow>
          (case complex_uri_loop (2 * n + 2) mem n cap merge_slashes
             \<lparr>cu_state = sw_usual, cu_quoted_state = sw_usual, cu_decoded = 0, cu_ch = ch, cu_p = 1,
              cu_u = [], cu_req = r\<lparr>uri_ext := None, args_start := None\<rparr>\<rparr> of
             Some (Cu_done s) \<Rightarrow> complex_uri_done (cu_u s) (cu_req s)
           | Some (Cu_args s) \<Rightarrow> complex_uri_done (cu_u s) (complex_uri_args mem n (cu_p s) (cu_req s))
           | Some (Cu_invalid s) \<Rightarrow> Some (NGX_HTTP_PARSE_INVALID_REQUEST, cu_req s)
           | _ \<Rightarrow> None))"

subsection \<open>\<open>ngx_http_process_request_uri\<close>\<close>

text \<open>
  Allocation from the pool is assumed to succeed. \<open>Inl\<close> is the status the request is
  finalized with. \<open>mem\<close> holds the URI in its first \<open>n\<close> bytes. In the fast branch
  \<open>r->uri_ext\<close> points into the request, in the other one it is NULL again.
\<close>

definition ngx_http_process_request_uri ::
  "u_char list \<Rightarrow> nat \<Rightarrow> bool \<Rightarrow> uri_request \<Rightarrow> (int + uri_request) option"
where
  "ngx_http_process_request_uri mem n merge_slashes r =
     (let len = (case args_start r of Some a \<Rightarrow> a - 1 | None \<Rightarrow> n);
          res = (if complex_uri r \<or> quoted_uri r then
                   (case ngx_http_parse_complex_uri mem n (len + 1) merge_slashes r of
                      None \<Rightarrow> None
                    | Some (rc, r) \<Rightarrow> if rc \<noteq> NGX_OK then Some (Inl NGX_HTTP_BAD_REQUEST) else Some (Inr r))
                 else Some (Inr (r\<lparr>uri := take len mem\<rparr>)))
      in case res of
           Some (Inr r) \<Rightarrow>
             (let r = r\<lparr>unparsed_uri := take n mem, valid_unparsed_uri := \<not> space_in_uri r\<rparr>;
                  r = (case uri_ext r of
                         None \<Rightarrow> r
                       | Some e \<Rightarrow> r\<lparr>exten := drop e (take (case args_start r of Some a \<Rightarrow> a - 1 | None \<Rightarrow> n) mem)\<rparr>);
                  r = (case args_start r of
                         Some a \<Rightarrow> if n > a then r\<lparr>args := drop a (take n mem)\<rparr> else r
                       | None \<Rightarrow> r)
              in Some (Inr r))
         | x \<Rightarrow> x)"

end
