(* ===== verification/Http_Request_Line.thy ===== *)
theory Http_Request_Line
  imports Http_Uri
begin

section \<open>The request line: \<open>ngx_http_parse_request_line\<close>\<close>

text \<open>
  The incremental parser of the first line of a request (\<open>src/http/ngx_http_parse.c\<close>), in the
  Unix build on a little-endian machine that reads words unaligned. Pointers into the header
  buffer are offsets into it; those that the code or its callers test for NULL are options. The
  two 16-bit fields of the version wrap. Where the source steps back (\<^verbatim>\<open>p--\<close>) so that the next
  round reads the same byte in another state, and where one case of the switch falls through
  to the next, the model calls that state's step on the byte.
\<close>

abbreviation (input) NGX_HTTP_PARSE_INVALID_METHOD :: int where "NGX_HTTP_PARSE_INVALID_METHOD \<equiv> 10"
abbreviation (input) NGX_HTTP_PARSE_INVALID_09_METHOD :: int where "NGX_HTTP_PARSE_INVALID_09_METHOD \<equiv> 12"

abbreviation (input) NGX_HTTP_UNKNOWN :: nat where "NGX_HTTP_UNKNOWN \<equiv> 0x0001"
abbreviation (input) NGX_HTTP_GET :: nat where "NGX_HTTP_GET \<equiv> 0x0002"
abbreviation (input) NGX_HTTP_HEAD :: nat where "NGX_HTTP_HEAD \<equiv> 0x0004"
abbreviation (input) NGX_HTTP_POST :: nat where "NGX_HTTP_POST \<equiv> 0x0008"
abbreviation (input) NGX_HTTP_PUT :: nat where "NGX_HTTP_PUT \<equiv> 0x0010"
abbreviation (input) NGX_HTTP_DELETE :: nat where "NGX_HTTP_DELETE \<equiv> 0x0020"
abbreviation (input) NGX_HTTP_MKCOL :: nat where "NGX_HTTP_MKCOL \<equiv> 0x0040"
abbreviation (input) NGX_HTTP_COPY :: nat where "NGX_HTTP_COPY \<equiv> 0x0080"
abbreviation (input) NGX_HTTP_MOVE :: nat where "NGX_HTTP_MOVE \<equiv> 0x0100"
abbreviation (input) NGX_HTTP_OPTIONS :: nat where "NGX_HTTP_OPTIONS \<equiv> 0x0200"
abbreviation (input) NGX_HTTP_PROPFIND :: nat where "NGX_HTTP_PROPFIND \<equiv> 0x0400"
abbreviation (input) NGX_HTTP_PROPPATCH :: nat where "NGX_HTTP_PROPPATCH \<equiv> 0x0800"
abbreviation (input) NGX_HTTP_LOCK :: nat where "NGX_HTTP_LOCK \<equiv> 0x1000"
abbreviation (input) NGX_HTTP_UNLOCK :: nat where "NGX_HTTP_UNLOCK \<equiv> 0x2000"
abbreviation (input) NGX_HTTP_PATCH :: nat where "NGX_HTTP_PATCH \<equiv> 0x4000"
abbreviation (input) NGX_HTTP_TRACE :: nat where "NGX_HTTP_TRACE \<equiv> 0x8000"

subsection \<open>State\<close>

datatype rl_state =
    rl_sw_start | rl_sw_method | rl_sw_spaces_before_uri
  | rl_sw_schema | rl_sw_schema_slash | rl_sw_schema_slash_slash
  | rl_sw_host_start | rl_sw_host | rl_sw_host_end | rl_sw_host_ip_literal | rl_sw_port | rl_sw_host_http_09
  | rl_sw_after_slash_in_uri | rl_sw_check_uri | rl_sw_check_uri_http_09 | rl_sw_uri | rl_sw_http_09
  | rl_sw_http_H | rl_sw_http_HT | rl_sw_http_HTT | rl_sw_http_HTTP
  | rl_sw_first_major_digit | rl_sw_major_digit | rl_sw_first_minor_digit | rl_sw_minor_digit
  | rl_sw_spaces_after_digit | rl_sw_almost_done

record request_line =
  rl_state :: rl_state
  request_start :: nat
  method_end :: nat
  rl_method :: nat
  schema_start :: "nat option"
  schema_end :: nat
  host_start :: "nat option"
  host_end :: nat
  port_end :: nat
  uri_start :: nat
  uri_end :: nat
  rl_uri :: uri_request
  http_protocol :: nat
  http_major :: "16 word"
  http_minor :: "16 word"
  request_end :: "nat option"
  http_version :: nat

datatype rl_exit = Rl_done nat request_line | Rl_invalid int request_line

type_synonym rl_action = "(request_line, rl_exit) action"

abbreviation (input) rl_go :: "rl_state \<Rightarrow> request_line \<Rightarrow> rl_action" where
  "rl_go st s \<equiv> Next (s\<lparr>rl_state := st\<rparr>)"

abbreviation (input) rl_bad :: "request_line \<Rightarrow> rl_action" where
  "rl_bad s \<equiv> Stop (Rl_invalid NGX_HTTP_PARSE_INVALID_REQUEST s)"

abbreviation (input) rl_uri_set :: "(uri_request \<Rightarrow> uri_request) \<Rightarrow> request_line \<Rightarrow> request_line" where
  "rl_uri_set f s \<equiv> s\<lparr>rl_uri := f (rl_uri s)\<rparr>"

definition is_letter :: "u_char \<Rightarrow> bool" where
  "is_letter ch \<longleftrightarrow> (let c = ch OR 0x20 in c \<ge> ch_a \<and> c \<le> ch_z)"

subsection \<open>The method\<close>

text \<open>
  The word comparisons \<open>ngx_str3_cmp\<close> to \<open>ngx_str9cmp\<close>, on the memory from \<open>m\<close>. Those with an
  underscore read one byte more, the space at \<open>p\<close>.
\<close>

definition ngx_strNcmp :: "u_char list \<Rightarrow> nat \<Rightarrow> string \<Rightarrow> bool" where
  "ngx_strNcmp buf m w \<longleftrightarrow> byte_range buf m (m + length w) = bytes w"

definition rl_request_method :: "u_char list \<Rightarrow> nat \<Rightarrow> nat \<Rightarrow> nat \<Rightarrow> nat" where
  "rl_request_method buf m p method =
     (let cmp = ngx_strNcmp buf m; n = p - m in
      if n = 3 then
        (if cmp ''GET '' then NGX_HTTP_GET else if cmp ''PUT '' then NGX_HTTP_PUT else method)
      else if n = 4 then
        (if byte_range buf (m + 1) (m + 2) = bytes ''O'' then
           (if cmp ''POST'' then NGX_HTTP_POST
            else if cmp ''COPY'' then NGX_HTTP_COPY
            else if cmp ''MOVE'' then NGX_HTTP_MOVE
            else if cmp ''LOCK'' then NGX_HTTP_LOCK
            else method)
         else if cmp ''HEAD'' then NGX_HTTP_HEAD else method)
      else if n = 5 then
        (if cmp ''MKCOL'' then NGX_HTTP_MKCOL
         else if cmp ''PATCH'' then NGX_HTTP_PATCH
         else if cmp ''TRACE'' then NGX_HTTP_TRACE
         else method)
      else if n = 6 then
        (if cmp ''DELETE'' then NGX_HTTP_DELETE else if cmp ''UNLOCK'' then NGX_HTTP_UNLOCK else method)
      else if n = 7 then (if cmp ''OPTIONS '' then NGX_HTTP_OPTIONS else method)
      else if n = 8 then (if cmp ''PROPFIND'' then NGX_HTTP_PROPFIND else method)
      else if n = 9 then (if cmp ''PROPPATCH'' then NGX_HTTP_PROPPATCH else method)
      else method)"

definition rl_method_step :: "u_char list \<Rightarrow> request_line \<Rightarrow> nat \<Rightarrow> u_char \<Rightarrow> rl_action" where
  "rl_method_step buf s p ch =
     (case rl_state s of
        rl_sw_start \<Rightarrow>
          (let s = s\<lparr>request_start := p\<rparr> in
           if ch = ch_CR \<or> ch = ch_LF then Next s
           else if (ch < ch_A \<or> ch > ch_Z) \<and> ch \<noteq> ch_under then
             Stop (Rl_invalid NGX_HTTP_PARSE_INVALID_METHOD s)
           else rl_go rl_sw_method s)
      | _ \<Rightarrow>
          if ch = ch_SP then
            rl_go rl_sw_spaces_before_uri
              (s\<lparr>method_end := p - 1, rl_method := rl_request_method buf (request_start s) p (rl_method s)\<rparr>)
          else if (ch < ch_A \<or> ch > ch_Z) \<and> ch \<noteq> ch_under then
            Stop (Rl_invalid NGX_HTTP_PARSE_INVALID_METHOD s)
          else Next s)"

subsection \<open>Schema, host and port\<close>

definition rl_schema_step :: "request_line \<Rightarrow> nat \<Rightarrow> u_char \<Rightarrow> rl_action" where
  "rl_schema_step s p ch =
     (case rl_state s of
        rl_sw_spaces_before_uri \<Rightarrow>
          if ch = ch_slash then rl_go rl_sw_after_slash_in_uri (s\<lparr>uri_start := p\<rparr>)
          else if is_letter ch then rl_go rl_sw_schema (s\<lparr>schema_start := Some p\<rparr>)
          else if ch = ch_SP then Next s
          else rl_bad s
      | rl_sw_schema \<Rightarrow>
          if is_letter ch then Next s
          else if ch = ch_colon then rl_go rl_sw_schema_slash (s\<lparr>schema_end := p\<rparr>)
          else rl_bad s
      | rl_sw_schema_slash \<Rightarrow>
          if ch = ch_slash then rl_go rl_sw_schema_slash_slash s else rl_bad s
      | _ \<Rightarrow>
          if ch = ch_slash then rl_go rl_sw_host_start s else rl_bad s)"

text \<open>An absolute URI without a path: \<open>uri_start\<close> and \<open>uri_end\<close> frame a slash of \<open>://\<close>.\<close>

abbreviation (input) rl_no_path :: "request_line \<Rightarrow> request_line" where
  "rl_no_path s \<equiv> s\<lparr>uri_start := schema_end s + 1, uri_end := schema_end s + 2\<rparr>"

definition rl_host_end_step :: "request_line \<Rightarrow> nat \<Rightarrow> u_char \<Rightarrow> rl_action" where
  "rl_host_end_step s0 p ch =
     (let s = s0\<lparr>host_end := p\<rparr> in
      if ch = ch_colon then rl_go rl_sw_port s
      else if ch = ch_slash then rl_go rl_sw_after_slash_in_uri (s\<lparr>uri_start := p\<rparr>)
      else if ch = ch_SP then rl_go rl_sw_host_http_09 (rl_no_path s)
      else rl_bad s)"

definition rl_host_char_step :: "request_line \<Rightarrow> nat \<Rightarrow> u_char \<Rightarrow> rl_action" where
  "rl_host_char_step s p ch =
     (if is_letter ch then Next s
      else if (ch \<ge> ch_0 \<and> ch \<le> ch_9) \<or> ch = ch_dot \<or> ch = ch_minus then Next s
      else rl_host_end_step s p ch)"

definition rl_host_step :: "request_line \<Rightarrow> nat \<Rightarrow> u_char \<Rightarrow> rl_action" where
  "rl_host_step s p ch =
     (case rl_state s of
        rl_sw_host_start \<Rightarrow>
          (let s = s\<lparr>host_start := Some p\<rparr> in
           if ch = ch_lbrack then rl_go rl_sw_host_ip_literal s
           else rl_host_char_step (s\<lparr>rl_state := rl_sw_host\<rparr>) p ch)
      | rl_sw_host \<Rightarrow> rl_host_char_step s p ch
      | rl_sw_host_end \<Rightarrow> rl_host_end_step s p ch
      | rl_sw_host_ip_literal \<Rightarrow>
          if ch \<ge> ch_0 \<and> ch \<le> ch_9 then Next s
          else if is_letter ch then Next s
          else if ch = ch_colon then Next s
          else if ch = ch_rbrack then rl_go rl_sw_host_end s
          else if ch \<in> {ch_minus, ch_dot, ch_under, ch_tilde} then Next s
          else if ch \<in> {ch_bang, ch_dollar, ch_amp, ch_apos, ch_lpar, ch_rpar, ch_star, ch_plus, ch_comma,
                        ch_semi, ch_eq} then Next s
          else rl_bad s
      | rl_sw_port \<Rightarrow>
          if ch \<ge> ch_0 \<and> ch \<le> ch_9 then Next s
          else if ch = ch_slash then rl_go rl_sw_after_slash_in_uri (s\<lparr>port_end := p, uri_start := p\<rparr>)
          else if ch = ch_SP then rl_go rl_sw_host_http_09 (rl_no_path (s\<lparr>port_end := p\<rparr>))
          else rl_bad s
      | _ \<Rightarrow>
          if ch = ch_SP then Next s
          else if ch = ch_CR then rl_go rl_sw_almost_done (s\<lparr>http_minor := 9\<rparr>)
          else if ch = ch_LF then Stop (Rl_done p (s\<lparr>http_minor := 9\<rparr>))
          else if ch = ch_H then rl_go rl_sw_http_H (s\<lparr>http_protocol := p\<rparr>)
          else rl_bad s)"

subsection \<open>The URI\<close>

definition rl_after_slash_step :: "request_line \<Rightarrow> nat \<Rightarrow> u_char \<Rightarrow> rl_action" where
  "rl_after_slash_step s p ch =
     (if is_usual ch then rl_go rl_sw_check_uri s
      else if ch = ch_SP then rl_go rl_sw_check_uri_http_09 (s\<lparr>uri_end := p\<rparr>)
      else if ch = ch_CR then rl_go rl_sw_almost_done (s\<lparr>uri_end := p, http_minor := 9\<rparr>)
      else if ch = ch_LF then Stop (Rl_done p (s\<lparr>uri_end := p, http_minor := 9\<rparr>))
      else if ch = ch_dot then rl_go rl_sw_uri (rl_uri_set (complex_uri_update (\<lambda>_. True)) s)
      else if ch = ch_percent then rl_go rl_sw_uri (rl_uri_set (quoted_uri_update (\<lambda>_. True)) s)
      else if ch = ch_slash then rl_go rl_sw_uri (rl_uri_set (complex_uri_update (\<lambda>_. True)) s)
      else if ch = ch_quest then rl_go rl_sw_uri (rl_uri_set (args_start_update (\<lambda>_. Some (p + 1))) s)
      else if ch = ch_hash then rl_go rl_sw_uri (rl_uri_set (complex_uri_update (\<lambda>_. True)) s)
      else if ch = ch_plus then Next (rl_uri_set (plus_in_uri_update (\<lambda>_. True)) s)
      else if ch = ch_NUL then rl_bad s
      else rl_go rl_sw_check_uri s)"

definition rl_check_uri_step :: "request_line \<Rightarrow> nat \<Rightarrow> u_char \<Rightarrow> rl_action" where
  "rl_check_uri_step s p ch =
     (if is_usual ch then Next s
      else if ch = ch_slash then rl_go rl_sw_after_slash_in_uri (rl_uri_set (uri_ext_update (\<lambda>_. None)) s)
      else if ch = ch_dot then Next (rl_uri_set (uri_ext_update (\<lambda>_. Some (p + 1))) s)
      else if ch = ch_SP then rl_go rl_sw_check_uri_http_09 (s\<lparr>uri_end := p\<rparr>)
      else if ch = ch_CR then rl_go rl_sw_almost_done (s\<lparr>uri_end := p, http_minor := 9\<rparr>)
      else if ch = ch_LF then Stop (Rl_done p (s\<lparr>uri_end := p, http_minor := 9\<rparr>))
      else if ch = ch_percent then rl_go rl_sw_uri (rl_uri_set (quoted_uri_update (\<lambda>_. True)) s)
      else if ch = ch_quest then rl_go rl_sw_uri (rl_uri_set (args_start_update (\<lambda>_. Some (p + 1))) s)
      else if ch = ch_hash then rl_go rl_sw_uri (rl_uri_set (complex_uri_update (\<lambda>_. True)) s)
      else if ch = ch_plus then Next (rl_uri_set (plus_in_uri_update (\<lambda>_. True)) s)
      else if ch = ch_NUL then rl_bad s
      else Next s)"

definition rl_plain_uri_step :: "request_line \<Rightarrow> nat \<Rightarrow> u_char \<Rightarrow> rl_action" where
  "rl_plain_uri_step s p ch =
     (if is_usual ch then Next s
      else if ch = ch_SP then rl_go rl_sw_http_09 (s\<lparr>uri_end := p\<rparr>)
      else if ch = ch_CR then rl_go rl_sw_almost_done (s\<lparr>uri_end := p, http_minor := 9\<rparr>)
      else if ch = ch_LF then Stop (Rl_done p (s\<lparr>uri_end := p, http_minor := 9\<rparr>))
      else if ch = ch_hash then Next (rl_uri_set (complex_uri_update (\<lambda>_. True)) s)
      else if ch = ch_NUL then rl_bad s
      else Next s)"

definition rl_uri_step :: "request_line \<Rightarrow> nat \<Rightarrow> u_char \<Rightarrow> rl_action" where
  "rl_uri_step s p ch =
     (case rl_state s of
        rl_sw_after_slash_in_uri \<Rightarrow> rl_after_slash_step s p ch
      | rl_sw_check_uri \<Rightarrow> rl_check_uri_step s p ch
      | rl_sw_uri \<Rightarrow> rl_plain_uri_step s p ch
      | st \<Rightarrow>
          if ch = ch_SP then Next s
          else if ch = ch_CR then rl_go rl_sw_almost_done (s\<lparr>http_minor := 9\<rparr>)
          else if ch = ch_LF then Stop (Rl_done p (s\<lparr>http_minor := 9\<rparr>))
          else if ch = ch_H then rl_go rl_sw_http_H (s\<lparr>http_protocol := p\<rparr>)
          else
            (let s = rl_uri_set (space_in_uri_update (\<lambda>_. True)) s in
             if st = rl_sw_check_uri_http_09 then rl_check_uri_step (s\<lparr>rl_state := rl_sw_check_uri\<rparr>) p ch
             else rl_plain_uri_step (s\<lparr>rl_state := rl_sw_uri\<rparr>) p ch))"

subsection \<open>The version and the end of the line\<close>

definition rl_version_step :: "request_line \<Rightarrow> nat \<Rightarrow> u_char \<Rightarrow> rl_action" where
  "rl_version_step s p ch =
     (case rl_state s of
        rl_sw_http_H \<Rightarrow> if ch = ch_T then rl_go rl_sw_http_HT s else rl_bad s
      | rl_sw_http_HT \<Rightarrow> if ch = ch_T then rl_go rl_sw_http_HTT s else rl_bad s
      | rl_sw_http_HTT \<Rightarrow> if ch = ch_P then rl_go rl_sw_http_HTTP s else rl_bad s
      | rl_sw_http_HTTP \<Rightarrow> if ch = ch_slash then rl_go rl_sw_first_major_digit s else rl_bad s
      | rl_sw_first_major_digit \<Rightarrow>
          if ch < ch_1 \<or> ch > ch_9 then rl_bad s
          else rl_go rl_sw_major_digit (s\<lparr>http_major := ucast ch - 48\<rparr>)
      | rl_sw_major_digit \<Rightarrow>
          if ch = ch_dot then rl_go rl_sw_first_minor_digit s
          else if ch < ch_0 \<or> ch > ch_9 then rl_bad s
          else Next (s\<lparr>http_major := http_major s * 10 + ucast ch - 48\<rparr>)
      | rl_sw_first_minor_digit \<Rightarrow>
          if ch < ch_0 \<or> ch > ch_9 then rl_bad s
          else rl_go rl_sw_minor_digit (s\<lparr>http_minor := ucast ch - 48\<rparr>)
      | rl_sw_minor_digit \<Rightarrow>
          if ch = ch_CR then rl_go rl_sw_almost_done s
          else if ch = ch_LF then Stop (Rl_done p s)
          else if ch = ch_SP then rl_go rl_sw_spaces_after_digit s
          else if ch < ch_0 \<or> ch > ch_9 then rl_bad s
          else Next (s\<lparr>http_minor := http_minor s * 10 + ucast ch - 48\<rparr>)
      | rl_sw_spaces_after_digit \<Rightarrow>
          if ch = ch_SP then Next s
          else if ch = ch_CR then rl_go rl_sw_almost_done s
          else if ch = ch_LF then Stop (Rl_done p s)
          else rl_bad s
      | _ \<Rightarrow>
          (let s = s\<lparr>request_end := Some (p - 1)\<rparr> in
           if ch = ch_LF then Stop (Rl_done p s) else rl_bad s))"

subsection \<open>The function\<close>

definition request_line_step :: "u_char list \<Rightarrow> request_line \<Rightarrow> nat \<Rightarrow> u_char \<Rightarrow> rl_action" where
  "request_line_step buf s p ch =
     (if rl_state s \<in> {rl_sw_start, rl_sw_method} then rl_method_step buf s p ch
      else if rl_state s \<in> {rl_sw_spaces_before_uri, rl_sw_schema, rl_sw_schema_slash, rl_sw_schema_slash_slash}
      then rl_schema_step s p ch
      else if rl_state s \<in> {rl_sw_host_start, rl_sw_host, rl_sw_host_end, rl_sw_host_ip_literal, rl_sw_port,
                            rl_sw_host_http_09}
      then rl_host_step s p ch
      else if rl_state s \<in> {rl_sw_after_slash_in_uri, rl_sw_check_uri, rl_sw_check_uri_http_09, rl_sw_uri,
                            rl_sw_http_09}
      then rl_uri_step s p ch
      else rl_version_step s p ch)"

text \<open>
  The result is the return code, \<open>b->pos\<close> and the request. In the loop \<open>rl_state\<close> is the local
  copy of \<open>r->state\<close>, which an error does not write back.
\<close>

definition ngx_http_parse_request_line ::
  "u_char list \<Rightarrow> nat \<Rightarrow> request_line \<Rightarrow> int \<times> nat \<times> request_line"
where
  "ngx_http_parse_request_line buf pos r =
     (case scan (request_line_step buf) pos (drop pos buf) r of
        Inl s \<Rightarrow> (NGX_AGAIN, length buf, s)
      | Inr (Rl_done p s) \<Rightarrow>
          (let s = s\<lparr>request_end := (case request_end s of None \<Rightarrow> Some p | Some e \<Rightarrow> Some e),
                     http_version := unat (http_major s) * 1000 + unat (http_minor s),
                     rl_state := rl_sw_start\<rparr>
           in if http_version s = 9 \<and> rl_method s \<noteq> NGX_HTTP_GET
              then (NGX_HTTP_PARSE_INVALID_09_METHOD, p + 1, s)
              else (NGX_OK, p + 1, s))
      | Inr (Rl_invalid rc s) \<Rightarrow> (rc, pos, s\<lparr>rl_state := rl_state r\<rparr>))"

end
