(* ===== verification/Http_Uri_Norm.thy ===== *)
theory Http_Uri_Norm
  imports Http_Uri
begin

section \<open>Normalisation of the request URI\<close>

text \<open>
  What \<open>ngx_http_parse_complex_uri\<close> computes, as a specification on decoded bytes and path
  segments, and the proof that the code computes it within the memory it is given; and that
  the fast path, taken when \<open>ngx_http_parse_uri\<close> saw nothing to normalise, agrees with it.
\<close>

subsection \<open>The specification: decoding and segments\<close>

text \<open>
  The path is what stands before the first \<open>?\<close> or \<open>#\<close>, with its escapes decoded; what
  follows a \<open>?\<close> is the second component. A cut-off escape at the end is dropped, as in the
  code; a wrong one, or an escaped zero byte, is an error.
\<close>

fun decode_uri :: "u_char list \<Rightarrow> (u_char list \<times> u_char list option) option" where
  "decode_uri [] = Some ([], None)"
| "decode_uri (c # cs) =
     (if c = ch_quest then Some ([], Some cs)
      else if c = ch_hash then Some ([], None)
      else if c = ch_percent then
        (case cs of
           [] \<Rightarrow> Some ([], None)
         | h # cs' \<Rightarrow>
             (case hex_digit h of
                None \<Rightarrow> None
              | Some a \<Rightarrow>
                  (case cs' of
                     [] \<Rightarrow> Some ([], None)
                   | l # rest \<Rightarrow>
                       (case hex_digit l of
                          None \<Rightarrow> None
                        | Some b \<Rightarrow>
                            if 16 * a + b = 0 then None
                            else map_option (\<lambda>(path, rem). (word_of_int (16 * a + b) # path, rem))
                                   (decode_uri rest)))))
      else map_option (\<lambda>(path, rem). (c # path, rem)) (decode_uri cs))"

text \<open>
  The segments seen so far: the complete ones, last first, and the one being read. Leaving
  \<open>..\<close> removes the segment before, and an empty segment together with the one before it.
\<close>

fun leave_dot_dot :: "u_char list list \<Rightarrow> u_char list list option" where
  "leave_dot_dot [] = None"
| "leave_dot_dot (seg # segs) =
     (if seg \<noteq> [] then Some segs
      else case segs of [] \<Rightarrow> None | _ # segs' \<Rightarrow> Some segs')"

fun segment_step ::
  "bool \<Rightarrow> u_char list list \<times> u_char list \<Rightarrow> u_char \<Rightarrow> (u_char list list \<times> u_char list) option"
where
  "segment_step merge (segs, seg) c =
     (if c \<noteq> ch_slash then Some (segs, seg @ [c])
      else if seg = [] then Some (if merge then segs else [] # segs, [])
      else if seg = [ch_dot] then Some (segs, [])
      else if seg = [ch_dot, ch_dot] then map_option (\<lambda>segs. (segs, [])) (leave_dot_dot segs)
      else Some (seg # segs, []))"

fun segments :: "bool \<Rightarrow> u_char list \<Rightarrow> u_char list list \<times> u_char list \<Rightarrow> (u_char list list \<times> u_char list) option"
where
  "segments merge [] s = Some s"
| "segments merge (c # cs) s =
     (case segment_step merge s c of None \<Rightarrow> None | Some s' \<Rightarrow> segments merge cs s')"

fun render :: "u_char list list \<times> u_char list \<Rightarrow> u_char list" where
  "render (segs, seg) = concat (map (\<lambda>s. ch_slash # s) (rev segs)) @ ch_slash # seg"

definition normalised :: "bool \<Rightarrow> u_char list \<Rightarrow> (u_char list \<times> u_char list option) option" where
  "normalised merge text =
     (case decode_uri text of
        Some (c # path, rem) \<Rightarrow>
          if c = ch_slash then map_option (\<lambda>s. (render s, rem)) (segments merge path ([], [])) else None
      | _ \<Rightarrow> None)"


subsection \<open>Looking back for the slash\<close>

lemma cu_back_found:
  "ch_slash \<notin> set ys \<Longrightarrow>
   cu_back (xs @ ch_slash # ys @ zs) (length xs + 1 + length ys) = Some (length xs + 1)"
proof (induction ys arbitrary: zs rule: rev_induct)
  case (snoc y ys)
  have "(xs @ ch_slash # (ys @ [y]) @ zs) ! (length xs + 1 + length ys) = y"
    by (simp add: nth_append)
  with snoc show ?case by simp
qed simp

lemma render_Cons: "render (seg # segs, cur) = render (segs, seg) @ ch_slash # cur"
  by simp

lemma render_split: "render (segs, seg) = concat (map (\<lambda>s. ch_slash # s) (rev segs)) @ ch_slash # seg"
  by simp

lemma cu_back_dot_dot:
  assumes "\<forall>x\<in>set segs. ch_slash \<notin> set x"
  shows "case leave_dot_dot segs of
      None \<Rightarrow> cu_back (render (segs, [ch_dot, ch_dot])) (length (render (segs, [ch_dot, ch_dot])) - 4) = None
    | Some segs' \<Rightarrow>
        (\<exists>k. cu_back (render (segs, [ch_dot, ch_dot])) (length (render (segs, [ch_dot, ch_dot])) - 4) = Some k \<and>
             take k (render (segs, [ch_dot, ch_dot])) = render (segs', []))"
proof (cases segs)
  case Nil
  then show ?thesis by simp
next
  case (Cons seg segs1)
  let ?P = "\<lambda>ss. concat (map (\<lambda>s. ch_slash # s) (rev ss)) :: u_char list"
  let ?out = "render (segs, [ch_dot, ch_dot])"
  have out: "?out = ?P segs1 @ ch_slash # seg @ [ch_slash, ch_dot, ch_dot]" by (simp add: Cons)
  show ?thesis
  proof (cases seg rule: rev_cases)
    case Nil
    show ?thesis
    proof (cases segs1)
      case Nil
      then show ?thesis by (simp add: Cons \<open>seg = []\<close>)
    next
      case c2: (Cons seg2 segs2)
      have "ch_slash \<notin> set seg2" using assms Cons c2 by simp
      from cu_back_found [OF this, of "?P segs2" "[ch_slash, ch_slash, ch_dot, ch_dot]"]
      show ?thesis by (simp add: Cons c2 \<open>seg = []\<close>)
    qed
  next
    case (snoc ys y)
    then have "ch_slash \<notin> set ys" using assms Cons by simp
    from cu_back_found [OF this, of "?P segs1" "[y, ch_slash, ch_dot, ch_dot]"]
    show ?thesis by (simp add: Cons snoc)
  qed
qed

subsection \<open>One step of the loop\<close>

definition seg_state :: "u_char list \<Rightarrow> cu_state" where
  "seg_state seg = (if seg = [] then sw_slash else if seg = [ch_dot] then sw_dot
     else if seg = [ch_dot, ch_dot] then sw_dot_dot else sw_usual)"

text \<open>What is known of \<open>r->uri_ext\<close>: it is behind the last dot of what is written, in the last segment.\<close>

definition ext_ok :: "u_char list \<Rightarrow> nat option \<Rightarrow> bool" where
  "ext_ok u ext \<longleftrightarrow>
     (case ext of None \<Rightarrow> True
      | Some e \<Rightarrow> e \<le> length u \<and> (\<exists>pre. u = pre @ ch_dot # drop e u) \<and> ch_slash \<notin> set (drop e u))"

text \<open>The loop's variables against the segments: \<open>cu_out\<close> for all states, \<open>cu_rel\<close> outside of an escape.\<close>

definition cu_out :: "uri_request \<Rightarrow> complex_uri \<Rightarrow> u_char list list \<times> u_char list \<Rightarrow> bool" where
  "cu_out r0 s t \<longleftrightarrow> cu_u s = render t \<and> ext_ok (cu_u s) (uri_ext (cu_req s)) \<and>
     args (cu_req s) = args r0 \<and> exten (cu_req s) = exten r0"

definition cu_rel :: "uri_request \<Rightarrow> complex_uri \<Rightarrow> u_char list list \<times> u_char list \<Rightarrow> bool" where
  "cu_rel r0 s t \<longleftrightarrow> cu_out r0 s t \<and> cu_state s = seg_state (snd t) \<and>
     (\<forall>x\<in>set (fst t). ch_slash \<notin> set x) \<and> ch_slash \<notin> set (snd t) \<and>
     (cu_state s \<noteq> sw_usual \<longrightarrow> uri_ext (cu_req s) = None) \<and> args_start (cu_req s) = None"

lemma cu_next_put:
  assumes "length (cu_u s) < cap" "rd mem (cu_p s) = Some ch"
  shows "cu_next mem (cu_put cap c s) = Next (s\<lparr>cu_u := cu_u s @ [c], cu_ch := ch, cu_p := cu_p s + 1\<rparr>)"
  using assms by (simp add: cu_next_def cu_put_def)

lemma cu_next_some:
  "rd mem (cu_p s) = Some ch \<Longrightarrow> cu_next mem (Some s) = Next (s\<lparr>cu_ch := ch, cu_p := cu_p s + 1\<rparr>)"
  by (simp add: cu_next_def)

lemma ext_ok_append:
  assumes "ext_ok u ext" "c \<noteq> ch_slash"
  shows "ext_ok (u @ [c]) ext"
proof (cases ext)
  case (Some e)
  with assms obtain pre where "e \<le> length u" "u = pre @ ch_dot # drop e u" "ch_slash \<notin> set (drop e u)"
    by (auto simp: ext_ok_def)
  moreover from this have "u @ [c] = pre @ ch_dot # drop e (u @ [c])" by simp
  ultimately show ?thesis using Some assms(2) by (auto simp: ext_ok_def)
qed (simp add: ext_ok_def)

lemma ext_ok_dot: "ext_ok (u @ [ch_dot]) (Some (Suc (length u)))"
  by (simp add: ext_ok_def)

lemma seg_state_snoc:
  "c \<noteq> ch_dot \<Longrightarrow> seg_state (seg @ [c]) = sw_usual"
  "seg_state [] = sw_slash" "seg_state [ch_dot] = sw_dot" "seg_state [ch_dot, ch_dot] = sw_dot_dot"
  by (auto simp: seg_state_def append_eq_Cons_conv)

lemma seg_state_eq:
  "seg_state seg = sw_slash \<longleftrightarrow> seg = []"
  "seg_state seg = sw_dot \<longleftrightarrow> seg = [ch_dot]"
  "seg_state seg = sw_dot_dot \<longleftrightarrow> seg = [ch_dot, ch_dot]"
  "seg_state seg = sw_usual \<longleftrightarrow> seg \<noteq> [] \<and> seg \<noteq> [ch_dot] \<and> seg \<noteq> [ch_dot, ch_dot]"
  by (auto simp: seg_state_def)

lemma seg_state_snoc_usual: "seg_state seg = sw_usual \<Longrightarrow> seg_state (seg @ [c]) = sw_usual"
  by (auto simp: seg_state_def append_eq_Cons_conv split: if_splits)

lemma render_snoc: "render (segs, seg @ [c]) = render (segs, seg) @ [c]"
  by simp

declare render.simps [simp del]

lemma cu_rel_snoc:
  assumes "cu_rel r0 s (segs, seg)" "c \<noteq> ch_slash"
    and "cu_u s' = cu_u s @ [c]" "cu_state s' = seg_state (seg @ [c])"
    and "args (cu_req s') = args r0" "exten (cu_req s') = exten r0" "args_start (cu_req s') = None"
    and "uri_ext (cu_req s') = uri_ext (cu_req s) \<or>
      (c = ch_dot \<and> cu_state s' = sw_usual \<and> uri_ext (cu_req s') = Some (Suc (length (cu_u s))))"
    and "cu_state s' \<noteq> sw_usual \<longrightarrow> uri_ext (cu_req s') = None"
  shows "cu_rel r0 s' (segs, seg @ [c])"
  using assms
  by (auto simp: cu_rel_def cu_out_def render_snoc intro: ext_ok_append ext_ok_dot)

lemmas cu_states = complex_uri_step_def cu_usual_def cu_slash_def cu_dot_def cu_dot_dot_def Let_def

lemma complex_uri_step_byte:
  assumes rel: "cu_rel r0 s (segs, seg)"
    and c: "c = cu_ch s" "c \<noteq> ch_percent" "c \<noteq> ch_quest" "c \<noteq> ch_hash" "c \<noteq> ch_slash"
    and mem: "length (cu_u s) < cap" "rd mem (cu_p s) = Some ch"
  shows "\<exists>s'. complex_uri_step mem cap merge s = Next s' \<and> cu_rel r0 s' (segs, seg @ [c]) \<and>
    cu_ch s' = ch \<and> cu_p s' = cu_p s + 1 \<and> length (cu_u s') = length (cu_u s) + 1"
proof -
  have kept: "args (cu_req s) = args r0" "exten (cu_req s) = exten r0" "args_start (cu_req s) = None"
    "cu_state s = seg_state seg" "cu_state s \<noteq> sw_usual \<longrightarrow> uri_ext (cu_req s) = None"
    using rel by (simp_all add: cu_rel_def cu_out_def)
  have usual_plus: "is_usual c \<Longrightarrow> c \<noteq> ch_dot" "c = ch_plus \<Longrightarrow> c \<noteq> ch_dot"
    by (simp_all add: is_usual_iff)
  note go = cu_rel_snoc [OF rel]
  show ?thesis
  proof (cases "cu_state s")
    case sw_usual
    with kept(4) have "seg_state (seg @ [c]) = sw_usual" by (simp add: seg_state_snoc_usual)
    with sw_usual c mem kept usual_plus show ?thesis
      by (auto simp: cu_states cu_next_put is_usual_iff intro!: go)
  next
    case sw_slash
    with kept(4) have seg: "seg = []" by (metis seg_state_eq(1))
    note go = cu_rel_snoc [OF rel, unfolded seg append_Nil append_Cons]
    from seg sw_slash c mem kept usual_plus show ?thesis
      by (auto simp: cu_states cu_next_put is_usual_iff seg_state_def intro!: go)
  next
    case sw_dot
    with kept(4) have seg: "seg = [ch_dot]" by (metis seg_state_eq(2))
    note go = cu_rel_snoc [OF rel, unfolded seg append_Nil append_Cons]
    from seg sw_dot c mem kept usual_plus show ?thesis
      by (auto simp: cu_states cu_next_put is_usual_iff seg_state_def intro!: go)
  next
    case sw_dot_dot
    with kept(4) have seg: "seg = [ch_dot, ch_dot]" by (metis seg_state_eq(3))
    note go = cu_rel_snoc [OF rel, unfolded seg append_Nil append_Cons]
    from seg sw_dot_dot c mem kept usual_plus show ?thesis
      by (auto simp: cu_states cu_next_put is_usual_iff seg_state_def intro!: go)
  qed (use kept(4) in \<open>auto simp: seg_state_def split: if_splits\<close>)
qed

lemma not_usual_slash: "\<not> is_usual ch_slash"
  by (simp add: is_usual_iff)

lemma complex_uri_step_slash:
  assumes rel: "cu_rel r0 s (segs, seg)" and c: "cu_ch s = ch_slash"
    and mem: "length (cu_u s) < cap" "rd mem (cu_p s) = Some ch"
  shows "case segment_step merge (segs, seg) ch_slash of
      None \<Rightarrow> \<exists>s'. complex_uri_step mem cap merge s = Stop (Cu_invalid s')
    | Some t \<Rightarrow> \<exists>s'. complex_uri_step mem cap merge s = Next s' \<and> cu_rel r0 s' t \<and>
        cu_ch s' = ch \<and> cu_p s' = cu_p s + 1 \<and> length (cu_u s') \<le> length (cu_u s) + 1"
proof -
  have kept: "cu_state s = seg_state seg" "cu_u s = render (segs, seg)"
    and noslash: "\<forall>x\<in>set segs. ch_slash \<notin> set x"
    using rel by (simp_all add: cu_rel_def cu_out_def)
  show ?thesis
  proof (cases "cu_state s")
    case sw_usual
    then have seg: "seg \<noteq> []" "seg \<noteq> [ch_dot]" "seg \<noteq> [ch_dot, ch_dot]"
      using kept(1) by (metis seg_state_eq(4))+
    have "render (seg # segs, []) = render (segs, seg) @ [ch_slash]" by (simp add: render_Cons)
    with sw_usual seg c mem rel show ?thesis
      by (auto simp: cu_states cu_next_put not_usual_slash cu_rel_def cu_out_def seg_state_def ext_ok_def)
  next
    case sw_slash
    then have seg: "seg = []" using kept(1) by (metis seg_state_eq(1))
    have "render ([] # segs, []) = render (segs, []) @ [ch_slash]" by (simp add: render_Cons)
    with sw_slash seg c mem rel show ?thesis
      by (auto simp: cu_states cu_next_put cu_next_some not_usual_slash cu_rel_def cu_out_def seg_state_def ext_ok_def)
  next
    case sw_dot
    then have seg: "seg = [ch_dot]" using kept(1) by (metis seg_state_eq(2))
    have "render (segs, [ch_dot]) = render (segs, []) @ [ch_dot]" by (simp add: render.simps)
    with sw_dot seg c mem rel show ?thesis
      by (auto simp: cu_states cu_next_put cu_next_some not_usual_slash cu_rel_def cu_out_def seg_state_def ext_ok_def)
  next
    case sw_dot_dot
    then have seg: "seg = [ch_dot, ch_dot]" using kept(1) by (metis seg_state_eq(3))
    have sub: "leave_dot_dot segs = Some segs' \<Longrightarrow> set segs' \<subseteq> set segs" for segs'
      by (cases segs) (auto split: if_splits list.splits)
    show ?thesis
    proof (cases "leave_dot_dot segs")
      case None
      with cu_back_dot_dot [OF noslash] have
        "cu_back (cu_u s) (length (cu_u s) - 4) = None" by (simp add: kept(2) seg)
      with None sw_dot_dot seg c show ?thesis
        by (simp add: cu_states not_usual_slash)
    next
      case (Some segs')
      with cu_back_dot_dot [OF noslash] obtain k where
        "cu_back (cu_u s) (length (cu_u s) - 4) = Some k" "take k (cu_u s) = render (segs', [])"
        by (auto simp: kept(2) seg)
      moreover have "length (take k (cu_u s)) \<le> length (cu_u s) + 1" by simp
      ultimately show ?thesis
        using Some sub [OF Some] sw_dot_dot seg c mem rel
        by (auto simp: cu_states cu_next_some not_usual_slash cu_rel_def cu_out_def seg_state_def ext_ok_def)
    qed
  qed (use kept(1) in \<open>auto simp: seg_state_def split: if_splits\<close>)
qed

subsection \<open>Escapes\<close>

lemma decoded_byte:
  "push_bit 4 (word_of_int a :: u_char) + l - 0x30 = word_of_int (16 * a + (uint l - 48))"
  "push_bit 4 (word_of_int a :: u_char) + l - 0x61 + 10 = word_of_int (16 * a + (uint l - 97 + 10))"
  by (simp_all add: push_bit_eq_mult mult.commute)

lemma nibble_byte:
  "(l::u_char) - 0x30 = word_of_int (uint l - 48)" "(l::u_char) - 0x61 + 10 = word_of_int (uint l - 97 + 10)"
  by simp_all

lemma word_of_int_byte_eq:
  "0 \<le> v \<Longrightarrow> v < 256 \<Longrightarrow> 0 \<le> w \<Longrightarrow> w < 256 \<Longrightarrow> (word_of_int v :: u_char) = word_of_int w \<longleftrightarrow> v = w"
  by (simp add: word_of_int_eq_iff take_bit_eq_mod)

lemma hex_digit_cases [case_names digit letter none]:
  assumes "ch \<ge> ch_0 \<and> ch \<le> ch_9 \<Longrightarrow> hex_digit ch = Some (uint ch - 48) \<Longrightarrow> P"
    and "\<not> (ch \<ge> ch_0 \<and> ch \<le> ch_9) \<Longrightarrow> ch OR 0x20 \<ge> ch_a \<and> ch OR 0x20 \<le> ch_f \<Longrightarrow>
      hex_digit ch = Some (uint (ch OR 0x20) - 97 + 10) \<Longrightarrow> P"
    and "\<not> (ch \<ge> ch_0 \<and> ch \<le> ch_9) \<Longrightarrow> \<not> (ch OR 0x20 \<ge> ch_a \<and> ch OR 0x20 \<le> ch_f) \<Longrightarrow>
      hex_digit ch = None \<Longrightarrow> P"
  shows P
proof (cases "ch \<ge> ch_0 \<and> ch \<le> ch_9")
  case True
  have "hex_digit ch = Some (uint ch - 48)" by (simp only: hex_digit_code if_P [OF True])
  then show ?thesis by (rule assms(1) [OF True])
next
  case no_digit: False
  show ?thesis
  proof (cases "ch OR 0x20 \<ge> ch_a \<and> ch OR 0x20 \<le> ch_f")
    case True
    have "hex_digit ch = Some (uint (ch OR 0x20) - 97 + 10)"
      by (simp only: hex_digit_code if_not_P [OF no_digit] if_P [OF True])
    then show ?thesis by (rule assms(2) [OF no_digit True])
  next
    case False
    have "hex_digit ch = None"
      by (simp only: hex_digit_code if_not_P [OF no_digit] if_not_P [OF False])
    then show ?thesis by (rule assms(3) [OF no_digit False])
  qed
qed

lemma cu_quoted_hex:
  assumes "rd mem (cu_p s) = Some ch"
  shows "case hex_digit (cu_ch s) of
      None \<Rightarrow> \<exists>s'. cu_quoted mem s = Stop (Cu_invalid s')
    | Some a \<Rightarrow> cu_quoted mem s = Next (s\<lparr>cu_state := sw_quoted_second, cu_decoded := word_of_int a,
        cu_ch := ch, cu_p := cu_p s + 1, cu_req := (cu_req s)\<lparr>quoted_uri := True\<rparr>\<rparr>)"
proof (cases "cu_ch s" rule: hex_digit_cases)
  case digit
  have "cu_quoted mem s = cu_next mem (Some (s\<lparr>cu_req := (cu_req s)\<lparr>quoted_uri := True\<rparr>,
      cu_state := sw_quoted_second, cu_decoded := cu_ch s - ch_0\<rparr>))"
    by (simp only: cu_quoted_def Let_def if_P [OF digit(1)])
  with assms digit(2) show ?thesis by (simp add: cu_next_some)
next
  case letter
  have "cu_quoted mem s = cu_next mem (Some (s\<lparr>cu_req := (cu_req s)\<lparr>quoted_uri := True\<rparr>,
      cu_state := sw_quoted_second, cu_decoded := (cu_ch s OR 0x20) - ch_a + 10\<rparr>))"
    by (simp only: cu_quoted_def Let_def if_not_P [OF letter(1)] if_P [OF letter(2)])
  with assms letter(3) show ?thesis by (simp add: cu_next_some)
next
  case none
  have "cu_quoted mem s = Stop (Cu_invalid (s\<lparr>cu_req := (cu_req s)\<lparr>quoted_uri := True\<rparr>\<rparr>))"
    by (simp only: cu_quoted_def Let_def if_not_P [OF none(1)] if_not_P [OF none(2)])
  with none(3) show ?thesis by simp
qed

definition escape_literal :: "u_char \<Rightarrow> bool" where
  "escape_literal c \<longleftrightarrow> c = ch_percent \<or> c = ch_hash \<or> c = ch_quest"

lemma cu_quoted_second_digit:
  assumes "cu_ch s \<ge> ch_0 \<and> cu_ch s \<le> ch_9"
  shows "cu_quoted_second mem cap s =
    (let ch = push_bit 4 (cu_decoded s) + cu_ch s - ch_0 in
     if ch = ch_percent \<or> ch = ch_hash then cu_next mem (cu_put cap ch (cu_state_to sw_usual s))
     else if ch = ch_NUL then Stop (Cu_invalid s)
     else Next (cu_state_to (cu_quoted_state s) s\<lparr>cu_ch := ch\<rparr>))"
  by (simp only: cu_quoted_second_def Let_def if_P [OF assms])

lemma cu_quoted_second_letter:
  assumes "\<not> (cu_ch s \<ge> ch_0 \<and> cu_ch s \<le> ch_9)"
    and "cu_ch s OR 0x20 \<ge> ch_a \<and> cu_ch s OR 0x20 \<le> ch_f"
  shows "cu_quoted_second mem cap s =
    (let ch = push_bit 4 (cu_decoded s) + (cu_ch s OR 0x20) - ch_a + 10 in
     if ch = ch_quest then cu_next mem (cu_put cap ch (cu_state_to sw_usual s))
     else Next (cu_state_to (cu_quoted_state s)
            (if ch = ch_plus then cu_req_set (plus_in_uri_update (\<lambda>_. True)) s else s)\<lparr>cu_ch := ch\<rparr>))"
  by (simp only: cu_quoted_second_def Let_def if_not_P [OF assms(1)] if_P [OF assms(2)])

lemma cu_quoted_second_none:
  assumes "\<not> (cu_ch s \<ge> ch_0 \<and> cu_ch s \<le> ch_9)"
    and "\<not> (cu_ch s OR 0x20 \<ge> ch_a \<and> cu_ch s OR 0x20 \<le> ch_f)"
  shows "cu_quoted_second mem cap s = Stop (Cu_invalid s)"
  by (simp only: cu_quoted_second_def Let_def if_not_P [OF assms(1)] if_not_P [OF assms(2)])

lemma escape_value:
  assumes "0 \<le> a" "a \<le> 15" "0 \<le> b" "b \<le> 15" "0 \<le> w" "w < 256"
  shows "(word_of_int (16 * a + b) :: u_char) = word_of_int w \<longleftrightarrow> 16 * a + b = w"
  using assms by (intro word_of_int_byte_eq) auto

lemma escape_literals:
  assumes "0 \<le> a" "a \<le> 15" "0 \<le> b" "b \<le> 15"
  shows "(word_of_int (16 * a + b) = ch_percent) = (16 * a + b = 37)"
    "(word_of_int (16 * a + b) = ch_hash) = (16 * a + b = 35)"
    "(word_of_int (16 * a + b) = ch_quest) = (16 * a + b = 63)"
    "(word_of_int (16 * a + b) = ch_NUL) = (16 * a + b = 0)"
  using escape_value [OF assms, of 37] escape_value [OF assms, of 35]
    escape_value [OF assms, of 63] escape_value [OF assms, of 0] by simp_all

lemma cu_quoted_second_hex:
  assumes a: "cu_decoded s = word_of_int a" "0 \<le> a" "a \<le> 15"
  shows "case hex_digit (cu_ch s) of
      None \<Rightarrow> cu_quoted_second mem cap s = Stop (Cu_invalid s)
    | Some b \<Rightarrow>
        (let c = word_of_int (16 * a + b) in
         if 16 * a + b = 0 then cu_quoted_second mem cap s = Stop (Cu_invalid s)
         else if escape_literal c then
           cu_quoted_second mem cap s = cu_next mem (cu_put cap c (s\<lparr>cu_state := sw_usual\<rparr>))
         else \<exists>r. cu_quoted_second mem cap s =
             Next (s\<lparr>cu_state := cu_quoted_state s, cu_ch := c, cu_req := r\<rparr>) \<and>
             (r = cu_req s \<or> r = (cu_req s)\<lparr>plus_in_uri := True\<rparr>))"
proof (cases "cu_ch s" rule: hex_digit_cases)
  case none
  show ?thesis
    unfolding none(3) option.case by (rule cu_quoted_second_none [OF none(1,2)])
next
  case digit
  let ?b = "uint (cu_ch s) - 48"
  have b: "0 \<le> ?b" "?b \<le> 15" "?b \<le> 9" using digit(1) by (simp_all add: byte_simps)
  define v where "v = 16 * a + ?b"
  have ne: "v \<noteq> 63" using b unfolding v_def by presburger
  note lit = escape_literals [OF a(2,3) b(1,2), folded v_def]
  show ?thesis
    unfolding digit(2) option.case cu_quoted_second_digit [OF digit(1)] a(1) decoded_byte Let_def
      escape_literal_def v_def [symmetric] lit
    using ne by (auto intro!: exI [of _ "cu_req s"])
next
  case letter
  let ?b = "uint (cu_ch s OR 0x20) - 97 + 10"
  have b: "0 \<le> ?b" "?b \<le> 15" "10 \<le> ?b" using letter(2) by (simp_all add: byte_simps)
  define v where "v = 16 * a + ?b"
  have ne: "v \<noteq> 37" "v \<noteq> 35" "v \<noteq> 0" using b a(2) unfolding v_def by presburger+
  note lit = escape_literals [OF a(2,3) b(1,2), folded v_def]
  let ?r = "if word_of_int v = ch_plus then (cu_req s)\<lparr>plus_in_uri := True\<rparr> else cu_req s"
  show ?thesis
    unfolding letter(3) option.case cu_quoted_second_letter [OF letter(1,2)] a(1) decoded_byte Let_def
      escape_literal_def v_def [symmetric] lit
    using ne by (auto intro!: exI [of _ ?r])
qed

subsection \<open>The loop\<close>

definition before_args :: "u_char list \<Rightarrow> nat" where
  "before_args xs = length (takeWhile (\<lambda>c. c \<noteq> ch_quest) xs)"

lemma before_args_Cons: "before_args (c # xs) = (if c = ch_quest then 0 else Suc (before_args xs))"
  by (simp add: before_args_def)

text \<open>The result of the loop on the bytes \<open>xs\<close> that are left, from the segments \<open>t\<close>.\<close>

definition cu_outcome ::
  "uri_request \<Rightarrow> nat \<Rightarrow> bool \<Rightarrow> u_char list list \<times> u_char list \<Rightarrow> u_char list \<Rightarrow> cu_exit \<Rightarrow> bool"
where
  "cu_outcome r0 n merge t xs x \<longleftrightarrow>
     (case decode_uri xs of
        None \<Rightarrow> \<exists>s. x = Cu_invalid s
      | Some (path, rem) \<Rightarrow>
          (case segments merge path t of
             None \<Rightarrow> \<exists>s. x = Cu_invalid s
           | Some t' \<Rightarrow>
               (case rem of
                  None \<Rightarrow> \<exists>s. x = Cu_done s \<and> cu_out r0 s t' \<and> args_start (cu_req s) = None
                | Some ys \<Rightarrow> \<exists>s. x = Cu_args s \<and> cu_out r0 s t' \<and> cu_p s = n - length ys \<and>
                    args_start (cu_req s) = Some (n - length ys))))"

text \<open>Positions and room, when the byte \<open>cu_ch\<close> has been read and \<open>xs\<close> is still behind it.\<close>

definition cu_behind :: "u_char list \<Rightarrow> nat \<Rightarrow> nat \<Rightarrow> u_char list \<Rightarrow> complex_uri \<Rightarrow> bool" where
  "cu_behind mem n cap xs s \<longleftrightarrow> n < length mem \<and> cu_p s + length xs = n \<and>
     drop (cu_p s) (take n mem) = xs \<and> length (cu_u s) + 1 + before_args xs \<le> cap"

definition cu_ready ::
  "uri_request \<Rightarrow> u_char list \<Rightarrow> nat \<Rightarrow> nat \<Rightarrow> u_char list \<Rightarrow> complex_uri \<Rightarrow> u_char list list \<times> u_char list \<Rightarrow> bool"
where
  "cu_ready r0 mem n cap xs s t \<longleftrightarrow> cu_rel r0 s t \<and>
     (case xs of [] \<Rightarrow> cu_p s = n + 1
      | c # xs' \<Rightarrow> cu_ch s = c \<and> n < length mem \<and> cu_p s + length xs' = n \<and>
          drop (cu_p s) (take n mem) = xs' \<and> length (cu_u s) + before_args xs \<le> cap)"

lemma cu_behind_next:
  assumes "cu_behind mem n cap xs s"
  shows "cu_p s \<le> n" "cu_p s < length mem" "length (cu_u s) < cap"
    "rd mem (cu_p s) = Some (mem ! cu_p s)"
    "xs = c # xs' \<Longrightarrow> mem ! cu_p s = c \<and> xs' = drop (Suc (cu_p s)) (take n mem)"
proof -
  show p: "cu_p s \<le> n" "cu_p s < length mem" "length (cu_u s) < cap"
    using assms by (simp_all add: cu_behind_def)
  then show "rd mem (cu_p s) = Some (mem ! cu_p s)" by simp
  show "mem ! cu_p s = c \<and> xs' = drop (Suc (cu_p s)) (take n mem)" if "xs = c # xs'"
  proof -
    have xs: "drop (cu_p s) (take n mem) = c # xs'" and lt: "cu_p s < n"
      using assms that by (simp_all add: cu_behind_def)
    from lt p have "drop (cu_p s) (take n mem) = mem ! cu_p s # drop (Suc (cu_p s)) (take n mem)"
      by (subst Cons_nth_drop_Suc [symmetric]) simp_all
    with xs show ?thesis by simp
  qed
qed

lemma cu_ready_next:
  assumes "cu_behind mem n cap xs s" "cu_rel r0 s' t"
    and "cu_ch s' = mem ! cu_p s" "cu_p s' = cu_p s + 1" "length (cu_u s') \<le> length (cu_u s) + 1"
  shows "cu_ready r0 mem n cap xs s' t"
proof (cases xs)
  case Nil
  with assms show ?thesis by (simp add: cu_ready_def cu_behind_def)
next
  case (Cons c xs')
  have next_byte: "mem ! cu_p s = c" "xs' = drop (Suc (cu_p s)) (take n mem)"
    using cu_behind_next(5) [OF assms(1) Cons] by simp_all
  have room: "n < length mem" "cu_p s + length xs = n" "length (cu_u s) + 1 + before_args xs \<le> cap"
    using assms(1) unfolding cu_behind_def by blast+
  have "cu_p s' + length xs' = n" using room(2) assms(4) Cons by simp
  moreover have "xs' = drop (cu_p s') (take n mem)" using next_byte(2) assms(4) by simp
  moreover have "length (cu_u s') + before_args (c # xs') \<le> cap" using room(3) assms(5) Cons by simp
  ultimately show ?thesis
    using assms(2,3) next_byte(1) room(1) by (simp add: cu_ready_def Cons)
qed

lemma complex_uri_loop_Next:
  "cu_p s \<le> n \<Longrightarrow> complex_uri_step mem cap merge s = Next s' \<Longrightarrow>
   complex_uri_loop (Suc f) mem n cap merge s = complex_uri_loop f mem n cap merge s'"
  by simp

lemma complex_uri_loop_Stop:
  "cu_p s \<le> n \<Longrightarrow> complex_uri_step mem cap merge s = Stop x \<Longrightarrow>
   complex_uri_loop (Suc f) mem n cap merge s = Some x"
  by simp

lemma complex_uri_loop_end:
  "n < cu_p s \<Longrightarrow> complex_uri_loop (Suc f) mem n cap merge s = Some (Cu_done s)"
  by simp

lemma complex_uri_loop_mono:
  "complex_uri_loop f mem n cap merge s = Some x \<Longrightarrow> f \<le> g \<Longrightarrow>
   complex_uri_loop g mem n cap merge s = Some x"
proof (induction f arbitrary: g s)
  case (Suc f)
  then obtain g' where "g = Suc g'" "f \<le> g'" by (cases g) auto
  with Suc show ?case by (auto split: action.splits if_splits)
qed simp

lemma complex_uri_path_byte:
  assumes rel: "cu_rel r0 s t"
    and c: "cu_ch s \<noteq> ch_percent" "cu_ch s \<noteq> ch_quest" "cu_ch s \<noteq> ch_hash"
    and behind: "cu_behind mem n cap xs s"
    and rest: "\<And>s t. cu_ready r0 mem n cap xs s t \<Longrightarrow>
      \<exists>x. complex_uri_loop f mem n cap merge s = Some x \<and> cu_outcome r0 n merge t xs x"
  shows "\<exists>x. complex_uri_loop (Suc f) mem n cap merge s = Some x \<and>
    (case segment_step merge t (cu_ch s) of
       None \<Rightarrow> \<exists>s'. x = Cu_invalid s' | Some t' \<Rightarrow> cu_outcome r0 n merge t' xs x)"
proof -
  obtain segs seg where t: "t = (segs, seg)" by (cases t)
  note next_facts = cu_behind_next [OF behind]
  have step: "case segment_step merge t (cu_ch s) of
      None \<Rightarrow> \<exists>s'. complex_uri_step mem cap merge s = Stop (Cu_invalid s')
    | Some t' \<Rightarrow> \<exists>s'. complex_uri_step mem cap merge s = Next s' \<and> cu_rel r0 s' t' \<and>
        cu_ch s' = mem ! cu_p s \<and> cu_p s' = cu_p s + 1 \<and> length (cu_u s') \<le> length (cu_u s) + 1"
  proof (cases "cu_ch s = ch_slash")
    case True
    show ?thesis
      using complex_uri_step_slash [OF rel [unfolded t] True next_facts(3,4), of merge]
      unfolding t True .
  next
    case False
    obtain s' where "complex_uri_step mem cap merge s = Next s'" "cu_rel r0 s' (segs, seg @ [cu_ch s])"
      "cu_ch s' = mem ! cu_p s" "cu_p s' = cu_p s + 1" "length (cu_u s') = length (cu_u s) + 1"
      using complex_uri_step_byte [OF rel [unfolded t] refl c False next_facts(3,4)] by blast
    then show ?thesis using False by (simp add: t)
  qed
  show ?thesis
  proof (cases "segment_step merge t (cu_ch s)")
    case None
    with step next_facts(1) show ?thesis by (auto dest: complex_uri_loop_Stop)
  next
    case (Some t')
    with step obtain s' where s': "complex_uri_step mem cap merge s = Next s'" "cu_rel r0 s' t'"
      "cu_ch s' = mem ! cu_p s" "cu_p s' = cu_p s + 1" "length (cu_u s') \<le> length (cu_u s) + 1"
      by auto
    from rest [OF cu_ready_next [OF behind s'(2-5)]] Some s'(1) next_facts(1)
    show ?thesis by (simp only: complex_uri_loop_Next option.case)
  qed
qed

text \<open>An escape: two steps read its digits, a third one writes or hands on the decoded byte.\<close>

lemma complex_uri_step_percent:
  assumes "cu_rel r0 s t" "cu_ch s = ch_percent" "rd mem (cu_p s) = Some ch"
  shows "complex_uri_step mem cap merge s =
    Next (s\<lparr>cu_quoted_state := cu_state s, cu_state := sw_quoted, cu_ch := ch, cu_p := cu_p s + 1\<rparr>)"
proof -
  have "\<not> is_usual ch_percent" by (simp add: is_usual_iff)
  moreover have "cu_state s \<in> {sw_usual, sw_slash, sw_dot, sw_dot_dot}"
    using assms(1) by (auto simp: cu_rel_def seg_state_def)
  ultimately show ?thesis using assms(2,3) by (auto simp: cu_states cu_next_some)
qed

lemma cu_out_escape:
  "cu_rel r0 s t \<Longrightarrow> cu_u s' = cu_u s \<Longrightarrow>
   cu_req s' = cu_req s \<or> cu_req s' = (cu_req s)\<lparr>quoted_uri := True\<rparr> \<Longrightarrow>
   cu_out r0 s' t \<and> args_start (cu_req s') = None"
  by (auto simp: cu_rel_def cu_out_def)

lemma cu_rel_escaped:
  assumes "cu_rel r0 s t" "cu_u s' = cu_u s" "cu_state s' = cu_state s"
    and "uri_ext (cu_req s') = uri_ext (cu_req s)" "args (cu_req s') = args (cu_req s)"
    "exten (cu_req s') = exten (cu_req s)" "args_start (cu_req s') = args_start (cu_req s)"
  shows "cu_rel r0 s' t"
  using assms by (auto simp: cu_rel_def cu_out_def)

lemma segment_step_literal:
  "escape_literal c \<Longrightarrow> segment_step merge (segs, seg) c = Some (segs, seg @ [c])"
  by (auto simp: escape_literal_def)

lemma complex_uri_escaped_byte:
  assumes rel: "cu_rel r0 s t" and s2: "s2 = s\<lparr>cu_quoted_state := cu_state s, cu_state := sw_quoted_second,
      cu_decoded := word_of_int a, cu_ch := l, cu_p := p, cu_req := (cu_req s)\<lparr>quoted_uri := True\<rparr>\<rparr>"
    and hex: "hex_digit l = Some b" "0 \<le> a" "a \<le> 15" "16 * a + b \<noteq> 0"
    and behind: "cu_behind mem n cap xs s2"
    and rest: "\<And>s t. cu_ready r0 mem n cap xs s t \<Longrightarrow>
      \<exists>x. complex_uri_loop f mem n cap merge s = Some x \<and> cu_outcome r0 n merge t xs x"
  shows "\<exists>x. complex_uri_loop (Suc (Suc f)) mem n cap merge s2 = Some x \<and>
    (case segment_step merge t (word_of_int (16 * a + b)) of
       None \<Rightarrow> \<exists>s'. x = Cu_invalid s' | Some t' \<Rightarrow> cu_outcome r0 n merge t' xs x)"
proof -
  let ?c = "word_of_int (16 * a + b) :: u_char"
  note next_facts = cu_behind_next [OF behind]
  have fields: "cu_state s2 = sw_quoted_second" "cu_decoded s2 = word_of_int a" "cu_ch s2 = l"
    "cu_quoted_state s2 = cu_state s" by (simp_all add: s2)
  have step: "if escape_literal ?c then
        complex_uri_step mem cap merge s2 = cu_next mem (cu_put cap ?c (s2\<lparr>cu_state := sw_usual\<rparr>))
      else \<exists>r. complex_uri_step mem cap merge s2 =
        Next (s2\<lparr>cu_state := cu_state s, cu_ch := ?c, cu_req := r\<rparr>) \<and>
        (r = cu_req s2 \<or> r = (cu_req s2)\<lparr>plus_in_uri := True\<rparr>)"
    using cu_quoted_second_hex [OF fields(2) hex(2,3), of mem cap]
    by (simp only: complex_uri_step_def fields hex(1) option.case if_not_P [OF hex(4)] Let_def cu_state.case)
  show ?thesis
  proof (cases "escape_literal ?c")
    case True
    obtain segs seg where t: "t = (segs, seg)" by (cases t)
    let ?s' = "s2\<lparr>cu_state := sw_usual, cu_u := cu_u s2 @ [?c], cu_ch := mem ! cu_p s2, cu_p := cu_p s2 + 1\<rparr>"
    have "complex_uri_step mem cap merge s2 = Next ?s'"
      using step True next_facts(3,4) by (simp add: cu_next_put)
    moreover have c: "?c \<noteq> ch_slash" "?c \<noteq> ch_dot" using True by (auto simp: escape_literal_def)
    have "cu_rel r0 ?s' (segs, seg @ [?c])"
      by (rule cu_rel_snoc [OF rel [unfolded t] c(1)])
        (use rel c(2) in \<open>auto simp: s2 seg_state_snoc cu_rel_def cu_out_def\<close>)
    with behind have "cu_ready r0 mem n cap xs ?s' (segs, seg @ [?c])"
      by (rule cu_ready_next) (simp_all add: s2)
    from rest [OF this] obtain x where "complex_uri_loop f mem n cap merge ?s' = Some x"
      "cu_outcome r0 n merge (segs, seg @ [?c]) xs x" by blast
    moreover have "segment_step merge t ?c = Some (segs, seg @ [?c])"
      unfolding t by (rule segment_step_literal [OF True])
    ultimately show ?thesis
      using next_facts(1) complex_uri_loop_mono [of f mem n cap merge ?s' x "Suc f"]
      by (simp only: complex_uri_loop_Next option.case) auto
  next
    case False
    with step obtain r where r: "complex_uri_step mem cap merge s2 =
        Next (s2\<lparr>cu_state := cu_state s, cu_ch := ?c, cu_req := r\<rparr>)"
      "r = cu_req s2 \<or> r = (cu_req s2)\<lparr>plus_in_uri := True\<rparr>" by auto
    let ?s' = "s2\<lparr>cu_state := cu_state s, cu_ch := ?c, cu_req := r\<rparr>"
    have rel': "cu_rel r0 ?s' t"
      by (rule cu_rel_escaped [OF rel]) (use r(2) in \<open>auto simp: s2\<close>)
    have c: "cu_ch ?s' \<noteq> ch_percent" "cu_ch ?s' \<noteq> ch_quest" "cu_ch ?s' \<noteq> ch_hash"
      using False by (auto simp: escape_literal_def)
    have "cu_behind mem n cap xs ?s'" using behind by (simp add: cu_behind_def)
    from complex_uri_path_byte [OF rel' c this rest]
    show ?thesis
      by (simp only: complex_uri_loop_Next [OF next_facts(1) r(1)]) simp
  qed
qed


lemma cu_outcome_byte:
  assumes "decode_uri xs = map_option (\<lambda>(path, rem). (c # path, rem)) (decode_uri xs')"
    and "case segment_step merge t c of
      None \<Rightarrow> \<exists>s'. x = Cu_invalid s' | Some t' \<Rightarrow> cu_outcome r0 n merge t' xs' x"
  shows "cu_outcome r0 n merge t xs x"
  using assms by (auto simp: cu_outcome_def split: option.splits prod.splits)

lemma cu_outcome_bad: "decode_uri xs = None \<Longrightarrow> cu_outcome r0 n merge t xs (Cu_invalid s)"
  by (simp add: cu_outcome_def)

lemma cu_outcome_cut:
  "decode_uri xs = Some ([], None) \<Longrightarrow> cu_out r0 s t \<and> args_start (cu_req s) = None \<Longrightarrow>
   cu_outcome r0 n merge t xs (Cu_done s)"
  by (auto simp: cu_outcome_def)

lemma cu_stop_question:
  assumes "cu_rel r0 s t" "cu_ch s = ch_quest"
  shows "complex_uri_step mem cap merge s = Stop (Cu_args (cu_question s))"
proof -
  have "\<not> is_usual ch_quest" by (simp add: is_usual_iff)
  moreover have "cu_state s \<in> {sw_usual, sw_slash, sw_dot, sw_dot_dot}"
    using assms(1) by (auto simp: cu_rel_def seg_state_def)
  ultimately show ?thesis using assms(2) by (auto simp: cu_states)
qed

lemma cu_stop_hash:
  assumes "cu_rel r0 s t" "cu_ch s = ch_hash"
  shows "complex_uri_step mem cap merge s = Stop (Cu_done s)"
proof -
  have "\<not> is_usual ch_hash" by (simp add: is_usual_iff)
  moreover have "cu_state s \<in> {sw_usual, sw_slash, sw_dot, sw_dot_dot}"
    using assms(1) by (auto simp: cu_rel_def seg_state_def)
  ultimately show ?thesis using assms(2) by (auto simp: cu_states)
qed

lemma cu_ready_behind:
  assumes "cu_ready r0 mem n cap (c # xs) s t" "c \<noteq> ch_quest"
  shows "cu_behind mem n cap xs s" "cu_rel r0 s t" "cu_ch s = c"
  using assms by (simp_all add: cu_ready_def cu_behind_def before_args_Cons)

lemma cu_behind_more:
  assumes "cu_behind mem n cap (c # xs) s" "c \<noteq> ch_quest" "cu_p s' = cu_p s + 1" "cu_u s' = cu_u s"
  shows "cu_behind mem n cap xs s'"
  using assms cu_behind_next(5) [OF assms(1) refl] by (simp add: cu_behind_def before_args_Cons)

lemma hex_digit_not_quest: "hex_digit c = Some a \<Longrightarrow> c \<noteq> ch_quest"
  by (auto simp: hex_digit_def is_digit_def)

lemma complex_uri_escape:
  assumes ready: "cu_ready r0 mem n cap (ch_percent # cs) s t"
    and rest: "\<And>h l xs s t. cs = h # l # xs \<Longrightarrow> cu_ready r0 mem n cap xs s t \<Longrightarrow>
      \<exists>x. complex_uri_loop f mem n cap merge s = Some x \<and> cu_outcome r0 n merge t xs x"
  shows "\<exists>x. complex_uri_loop (Suc (Suc (Suc (Suc f)))) mem n cap merge s = Some x \<and>
    cu_outcome r0 n merge t (ch_percent # cs) x"
proof -
  have behind: "cu_behind mem n cap cs s" and rel: "cu_rel r0 s t" and ch: "cu_ch s = ch_percent"
    using cu_ready_behind [OF ready] by simp_all
  note n0 = cu_behind_next [OF behind]
  let ?s1 = "s\<lparr>cu_quoted_state := cu_state s, cu_state := sw_quoted, cu_ch := mem ! cu_p s, cu_p := cu_p s + 1\<rparr>"
  have step0: "complex_uri_step mem cap merge s = Next ?s1"
    by (rule complex_uri_step_percent [OF rel ch n0(4)])
  show ?thesis
  proof (cases cs)
    case Nil
    then have "n < cu_p ?s1" using behind by (simp add: cu_behind_def)
    moreover have "cu_out r0 ?s1 t \<and> args_start (cu_req ?s1) = None" by (rule cu_out_escape [OF rel]) simp_all
    ultimately show ?thesis
      using Nil step0 n0(1)
      by (simp only: complex_uri_loop_Next complex_uri_loop_end) (simp add: cu_outcome_cut)
  next
    case (Cons h cs')
    have h: "mem ! cu_p s = h" using n0(5) [OF Cons] by simp
    have le1: "cu_p ?s1 \<le> n" using behind Cons by (simp add: cu_behind_def)
    have "rd mem (cu_p ?s1) = Some (mem ! cu_p ?s1)" using le1 behind by (simp add: cu_behind_def)
    note step1 = cu_quoted_hex [OF this, unfolded complex_uri.simps h]
    have q: "complex_uri_step mem cap merge ?s1 = cu_quoted mem ?s1" by (simp add: complex_uri_step_def)
    show ?thesis
    proof (cases "hex_digit h")
      case None
      then have "decode_uri (ch_percent # cs) = None" by (simp add: Cons)
      moreover obtain s' where "complex_uri_step mem cap merge ?s1 = Stop (Cu_invalid s')"
        using step1 None q h by auto
      ultimately show ?thesis
        using step0 n0(1) le1
        by (simp only: complex_uri_loop_Next complex_uri_loop_Stop) (simp add: cu_outcome_bad)
    next
      case a: (Some a)
      let ?s2 = "s\<lparr>cu_quoted_state := cu_state s, cu_state := sw_quoted_second, cu_decoded := word_of_int a,
        cu_ch := mem ! (cu_p s + 1), cu_p := cu_p s + 2, cu_req := (cu_req s)\<lparr>quoted_uri := True\<rparr>\<rparr>"
      have step1': "complex_uri_step mem cap merge ?s1 = Next ?s2"
        using step1 a q h by simp
      have behind1: "cu_behind mem n cap cs' ?s1"
        by (rule cu_behind_more [OF behind [unfolded Cons] hex_digit_not_quest [OF a]]) simp_all
      show ?thesis
      proof (cases cs')
        case Nil
        then have "n < cu_p ?s2" using behind Cons by (simp add: cu_behind_def)
        moreover have "cu_out r0 ?s2 t \<and> args_start (cu_req ?s2) = None" by (rule cu_out_escape [OF rel]) simp_all
        moreover have "decode_uri (ch_percent # cs) = Some ([], None)" by (simp add: Cons Nil a)
        ultimately show ?thesis
          using step0 step1' n0(1) le1
          by (simp only: complex_uri_loop_Next complex_uri_loop_end) (simp add: cu_outcome_cut)
      next
        case c2: (Cons l xs)
        have l: "mem ! (cu_p s + 1) = l" using cu_behind_next(5) [OF behind1 c2] by simp
        have le2: "cu_p ?s2 \<le> n" using behind Cons c2 by (simp add: cu_behind_def)
        have q2: "complex_uri_step mem cap merge ?s2 = cu_quoted_second mem cap ?s2" by (simp add: complex_uri_step_def)
        have a_range: "0 \<le> a" "a \<le> 15" using hex_digit_range [OF a] by auto
        have dec2: "cu_decoded ?s2 = word_of_int a" by simp
        note step2 = cu_quoted_second_hex [OF dec2 a_range, of mem cap, folded q2, unfolded complex_uri.simps]
        have run: "complex_uri_loop (Suc (Suc (Suc (Suc f)))) mem n cap merge s =
            complex_uri_loop (Suc (Suc f)) mem n cap merge ?s2"
          using step0 step1' n0(1) le1 by (simp only: complex_uri_loop_Next)
        show ?thesis
        proof (cases "hex_digit l")
          case None
          then have "decode_uri (ch_percent # cs) = None" by (simp add: Cons c2 a)
          moreover have "complex_uri_step mem cap merge ?s2 = Stop (Cu_invalid ?s2)"
            using step2 None l by simp
          ultimately show ?thesis
            unfolding run using le2 by (simp only: complex_uri_loop_Stop) (simp add: cu_outcome_bad)
        next
          case b: (Some b)
          show ?thesis
          proof (cases "16 * a + b = 0")
            case True
            then have "decode_uri (ch_percent # cs) = None" by (simp add: Cons c2 a b)
            moreover have "complex_uri_step mem cap merge ?s2 = Stop (Cu_invalid ?s2)"
              using step2 b True l by (simp add: Let_def)
            ultimately show ?thesis
              unfolding run using le2 by (simp only: complex_uri_loop_Stop) (simp add: cu_outcome_bad)
          next
            case False
            have cs: "cs = h # l # xs" by (simp add: Cons c2)
            have "cu_behind mem n cap xs ?s2"
              by (rule cu_behind_more [OF behind1 [unfolded c2] hex_digit_not_quest [OF b]]) simp_all
            from complex_uri_escaped_byte [OF rel refl _ a_range False this rest [OF cs]]
            obtain x where x: "complex_uri_loop (Suc (Suc f)) mem n cap merge ?s2 = Some x"
              "case segment_step merge t (word_of_int (16 * a + b)) of
                 None \<Rightarrow> \<exists>s'. x = Cu_invalid s' | Some t' \<Rightarrow> cu_outcome r0 n merge t' xs x"
              using b l by auto
            have "cu_outcome r0 n merge t (ch_percent # cs) x"
              by (rule cu_outcome_byte [OF _ x(2)]) (simp add: cs a b False)
            with x(1) show ?thesis unfolding run by blast
          qed
        qed
      qed
    qed
  qed
qed

lemma complex_uri_loop_correct:
  assumes "cu_ready r0 mem n cap xs s t" "2 * length xs + 2 \<le> f"
  shows "\<exists>x. complex_uri_loop f mem n cap merge s = Some x \<and> cu_outcome r0 n merge t xs x"
  using assms
proof (induction xs arbitrary: s t f rule: length_induct)
  case (1 xs)
  then obtain g where f: "f = Suc g" by (cases f) auto
  have IH: "\<exists>x. complex_uri_loop g mem n cap merge s = Some x \<and> cu_outcome r0 n merge t ys x"
    if "length ys < length xs" "cu_ready r0 mem n cap ys s t" "2 * length ys + 2 \<le> g" for ys s t g
    using 1(1) that by blast
  note ready = 1(2)
  show ?case
  proof (cases xs)
    case Nil
    have "cu_out r0 s t \<and> args_start (cu_req s) = None" "n < cu_p s"
      using ready Nil by (simp_all add: cu_ready_def cu_rel_def)
    then show ?thesis
      unfolding f using Nil by (simp only: complex_uri_loop_end) (simp add: cu_outcome_cut)
  next
    case (Cons c cs)
    have rel: "cu_rel r0 s t" and c: "cu_ch s = c" and p: "cu_p s + length cs = n" "cu_p s \<le> n"
      using ready Cons by (simp_all add: cu_ready_def)
    show ?thesis
    proof (cases "c = ch_quest \<or> c = ch_hash \<or> c = ch_percent")
      case True
      then consider (quest) "c = ch_quest" | (hash) "c = ch_hash" | (percent) "c = ch_percent" by blast
      then show ?thesis
      proof cases
        case quest
        have "cu_out r0 (cu_question s) t" using rel by (auto simp: cu_rel_def cu_out_def)
        moreover have "cu_p s = n - length cs" using p(1) by simp
        ultimately have "cu_outcome r0 n merge t xs (Cu_args (cu_question s))"
          using Cons quest by (simp add: cu_outcome_def)
        with cu_stop_question [OF rel c [unfolded quest]] p(2) show ?thesis
          unfolding f by (simp only: complex_uri_loop_Stop) simp
      next
        case hash
        have "cu_out r0 s t \<and> args_start (cu_req s) = None" using rel by (simp add: cu_rel_def)
        then have "cu_outcome r0 n merge t xs (Cu_done s)"
          using Cons hash by (intro cu_outcome_cut) simp_all
        with cu_stop_hash [OF rel c [unfolded hash]] p(2) show ?thesis
          unfolding f by (simp only: complex_uri_loop_Stop) simp
      next
        case percent
        have "4 \<le> f" using 1(3) Cons by simp
        then obtain k where "f = 4 + k" using le_iff_add by blast
        then have k: "f = Suc (Suc (Suc (Suc k)))" by simp
        show ?thesis
          unfolding k Cons percent
          by (rule complex_uri_escape [OF ready [unfolded Cons percent]], rule IH)
            (use 1(3) Cons k in simp_all)
      qed
    next
      case False
      then have chars: "cu_ch s \<noteq> ch_percent" "cu_ch s \<noteq> ch_quest" "cu_ch s \<noteq> ch_hash"
        using c by auto
      have behind: "cu_behind mem n cap cs s" using cu_ready_behind(1) ready Cons False by blast
      have "\<exists>x. complex_uri_loop g mem n cap merge s = Some x \<and> cu_outcome r0 n merge t cs x"
        if "cu_ready r0 mem n cap cs s t" for s t
        using IH [OF _ that] 1(3) Cons f by simp
      from complex_uri_path_byte [OF rel chars behind this] obtain x where
        "complex_uri_loop f mem n cap merge s = Some x"
        "case segment_step merge t c of
           None \<Rightarrow> \<exists>s'. x = Cu_invalid s' | Some t' \<Rightarrow> cu_outcome r0 n merge t' cs x"
        unfolding f c by blast
      moreover have "decode_uri xs = map_option (\<lambda>(path, rem). (c # path, rem)) (decode_uri cs)"
        using Cons False by simp
      ultimately show ?thesis using cu_outcome_byte by blast
    qed
  qed
qed

subsection \<open>The function\<close>

lemma hash_at_takeWhile:
  "hash_at xs p = (if ch_hash \<in> set xs then Some (p + length (takeWhile (\<lambda>c. c \<noteq> ch_hash) xs)) else None)"
  by (induction xs arbitrary: p) auto

lemma decode_uri_suffix:
  "decode_uri xs = Some (path, Some ys) \<Longrightarrow> \<exists>pre. xs = pre @ ch_quest # ys \<and> length path \<le> length pre"
proof (induction xs arbitrary: path rule: decode_uri.induct)
  case (2 c cs)
  show ?case
  proof (cases "c = ch_quest \<or> c = ch_hash")
    case True
    with 2(3) show ?thesis by auto
  next
    case False
    show ?thesis
    proof (cases "c = ch_percent")
      case True
      with 2(3) False obtain h l rest a b path' where ok: "cs = h # l # rest" "hex_digit h = Some a"
        "hex_digit l = Some b" "16 * a + b \<noteq> 0" "decode_uri rest = Some (path', Some ys)"
        "path = word_of_int (16 * a + b) # path'"
        by (auto split: list.splits option.splits if_splits)
      from 2(1) [OF _ _ True ok(1,2) refl ok(3,4,5)] False ok(1,6) show ?thesis
        by (metis append_Cons length_Cons Suc_le_mono le_SucI)
    next
      case no_esc: False
      with 2(3) False obtain path' where ok: "decode_uri cs = Some (path', Some ys)" "path = c # path'"
        by auto
      from 2(2) [OF _ _ no_esc ok(1)] False ok(2) show ?thesis
        by (metis append_Cons length_Cons Suc_le_mono)
    qed
  qed
qed simp


definition args_split :: "uri_request \<Rightarrow> nat \<Rightarrow> u_char list option \<Rightarrow> uri_request \<Rightarrow> bool" where
  "args_split r n rem r' \<longleftrightarrow>
     (case rem of
        None \<Rightarrow> args_start r' = None \<and> args r' = args r
      | Some q \<Rightarrow>
          if ch_hash \<in> set q then args_start r' = None \<and> args r' = takeWhile (\<lambda>c. c \<noteq> ch_hash) q
          else args_start r' = Some (n - length q) \<and> args r' = args r)"

definition exten_ok :: "uri_request \<Rightarrow> uri_request \<Rightarrow> bool" where
  "exten_ok r r' \<longleftrightarrow> exten r' = exten r \<or>
     (\<exists>pre. uri r' = pre @ ch_dot # exten r' \<and> ch_slash \<notin> set (exten r'))"

lemma complex_uri_done_out:
  assumes "cu_u s = path" "ext_ok path (uri_ext r)" "exten r = exten r0"
  shows "\<exists>r'. complex_uri_done (cu_u s) r = Some (NGX_OK, r') \<and> uri r' = path \<and> uri_ext r' = None \<and>
    exten_ok r0 r' \<and> args_start r' = args_start r \<and> args r' = args r"
  using assms by (auto simp: complex_uri_done_def exten_ok_def ext_ok_def split: option.splits)

lemma drop_take_suffix:
  assumes "take n mem = pre @ c # ys" "n \<le> length mem"
  shows "drop (n - length ys) (take n mem) = ys" "take k (drop (n - length ys) mem) = take k ys \<or> length ys < k"
proof -
  have "length (take n mem) = length (pre @ c # ys)" using assms(1) by simp
  then have n: "n = length pre + 1 + length ys" using assms(2) by simp
  then have "n - length ys = length pre + 1" by simp
  then show *: "drop (n - length ys) (take n mem) = ys" by (simp only: assms(1)) simp
  have "take (length ys) (drop (n - length ys) mem) = ys" using * n by (simp add: drop_take)
  then show "take k (drop (n - length ys) mem) = take k ys \<or> length ys < k"
    by (metis take_take min.absorb1 not_le_imp_less)
qed

lemma complex_uri_args_split:
  assumes "take n mem = pre @ c # ys" "n \<le> length mem" "args_start r = Some (n - length ys)" "args r = args r0"
  shows "args_split r0 n (Some ys) (complex_uri_args mem n (n - length ys) r)"
    "exten (complex_uri_args mem n p r) = exten r" "uri_ext (complex_uri_args mem n p r) = uri_ext r"
proof -
  let ?p = "n - length ys" and ?q = "takeWhile (\<lambda>c. c \<noteq> ch_hash) ys"
  have "drop ?p (take (?p + length ?q) mem) = take (length ?q) (drop ?p mem)"
    by (simp add: drop_take)
  also have "\<dots> = take (length ?q) ys"
    using drop_take_suffix(2) [OF assms(1,2), of "length ?q"] by (auto simp: length_takeWhile_le leD)
  also have "\<dots> = ?q" by (simp add: takeWhile_eq_take [symmetric])
  finally have "drop ?p (take (?p + length ?q) mem) = ?q" .
  then show "args_split r0 n (Some ys) (complex_uri_args mem n ?p r)"
    using assms(3,4)
    by (simp add: complex_uri_args_def drop_take_suffix(1) [OF assms(1,2)] hash_at_takeWhile args_split_def)
  show "exten (complex_uri_args mem n p r) = exten r" "uri_ext (complex_uri_args mem n p r) = uri_ext r"
    by (simp_all add: complex_uri_args_def split: option.splits)
qed

lemma render_root: "render ([], []) = [ch_slash]"
  by (simp add: render.simps)

lemma complex_uri_normal:
  assumes "n < length mem" "take n mem = ch_slash # text" "before_args (take n mem) \<le> cap"
  shows "\<exists>rc r'. ngx_http_parse_complex_uri mem n cap merge r = Some (rc, r') \<and>
    (case normalised merge (take n mem) of
       None \<Rightarrow> rc = NGX_HTTP_PARSE_INVALID_REQUEST
     | Some (path, rem) \<Rightarrow> rc = NGX_OK \<and> uri r' = path \<and> uri_ext r' = None \<and>
         exten_ok r r' \<and> args_split r n rem r')"
proof -
  let ?s0 = "\<lparr>cu_state = sw_usual, cu_quoted_state = sw_usual, cu_decoded = 0, cu_ch = ch_slash, cu_p = 1,
    cu_u = [], cu_req = r\<lparr>uri_ext := None, args_start := None\<rparr>\<rparr>"
  let ?s1 = "?s0\<lparr>cu_state := sw_slash, cu_u := [ch_slash], cu_ch := mem ! 1, cu_p := 2\<rparr>"
  have n: "n = Suc (length text)" using assms(1,2) by (metis length_Cons length_take min.absorb2 less_imp_le)
  have "mem = ch_slash # text @ drop n mem" using assms(2) by (metis append_Cons append_take_drop_id)
  then have "mem ! 0 = ch_slash" by (metis nth_Cons_0)
  then have mem: "rd mem 0 = Some ch_slash" using assms(1) by (subst rd_in) auto
  have tail: "drop 1 (take n mem) = text" using assms(2) by simp
  have cap: "length [] + 1 + before_args text \<le> cap" using assms(2,3) by (simp add: before_args_Cons)
  have behind: "cu_behind mem n cap text ?s0" using assms(1) n tail cap by (simp add: cu_behind_def)
  have "complex_uri_step mem cap merge ?s0 = Next ?s1"
    using assms(1) n cap by (simp add: cu_states not_usual_slash cu_put_def cu_next_def)
  then have step: "complex_uri_loop (2 * n + 2) mem n cap merge ?s0 = complex_uri_loop (2 * n + 1) mem n cap merge ?s1"
    using n by simp
  have "cu_rel (r\<lparr>uri_ext := None, args_start := None\<rparr>) ?s1 ([], [])"
    by (simp add: cu_rel_def cu_out_def seg_state_def render_root ext_ok_def)
  with behind have "cu_ready (r\<lparr>uri_ext := None, args_start := None\<rparr>) mem n cap text ?s1 ([], [])"
    by (rule cu_ready_next) simp_all
  from complex_uri_loop_correct [OF this, of "2 * n + 1" merge] n obtain x where
    x: "complex_uri_loop (2 * n + 1) mem n cap merge ?s1 = Some x"
      "cu_outcome (r\<lparr>uri_ext := None, args_start := None\<rparr>) n merge ([], []) text x" by auto
  have run: "ngx_http_parse_complex_uri mem n cap merge r =
      (case x of
         Cu_done s \<Rightarrow> complex_uri_done (cu_u s) (cu_req s)
       | Cu_args s \<Rightarrow> complex_uri_done (cu_u s) (complex_uri_args mem n (cu_p s) (cu_req s))
       | Cu_invalid s \<Rightarrow> Some (NGX_HTTP_PARSE_INVALID_REQUEST, cu_req s)
       | _ \<Rightarrow> None)"
    unfolding ngx_http_parse_complex_uri_def mem option.case step x(1)
    by (rule refl)
  have decode: "decode_uri (take n mem) = map_option (\<lambda>(path, rem). (ch_slash # path, rem)) (decode_uri text)"
    by (simp add: assms(2))
  have norm: "normalised merge (take n mem) =
      (case decode_uri text of None \<Rightarrow> None
       | Some (path, rem) \<Rightarrow> map_option (\<lambda>s. (render s, rem)) (segments merge path ([], [])))"
    unfolding normalised_def decode by (auto split: option.splits)
  show ?thesis
  proof (cases "normalised merge (take n mem)")
    case None
    then obtain s where "x = Cu_invalid s"
      using x(2) unfolding norm cu_outcome_def by (auto split: option.splits)
    with None show ?thesis by (simp add: run)
  next
    case (Some pr)
    then obtain path rem t where ok: "decode_uri text = Some (path, rem)" "segments merge path ([], []) = Some t"
      "pr = (render t, rem)" unfolding norm by (auto split: option.splits)
    show ?thesis
    proof (cases rem)
      case None
      then obtain s where s: "x = Cu_done s" "cu_out r s t" "args_start (cu_req s) = None"
        using x(2) ok by (auto simp: cu_outcome_def cu_out_def)
      with complex_uri_done_out [of s "render t" "cu_req s" r] show ?thesis
        unfolding Some ok(3) None run by (auto simp: cu_out_def args_split_def)
    next
      case q: (Some q)
      then obtain s where s: "x = Cu_args s" "cu_out r s t" "cu_p s = n - length q"
        "args_start (cu_req s) = Some (n - length q)"
        using x(2) ok by (auto simp: cu_outcome_def cu_out_def)
      obtain pre where "take n mem = pre @ ch_quest # q"
        using decode_uri_suffix [of "text" path q] ok(1) q assms(2) by (metis append_Cons)
      from complex_uri_args_split [OF this _ s(4), of r] s(2) assms(1)
      have split: "args_split r n (Some q) (complex_uri_args mem n (cu_p s) (cu_req s))"
        "exten (complex_uri_args mem n (cu_p s) (cu_req s)) = exten r"
        "uri_ext (complex_uri_args mem n (cu_p s) (cu_req s)) = uri_ext (cu_req s)"
        by (simp_all add: cu_out_def s(3))
      with complex_uri_done_out [of s "render t" "complex_uri_args mem n (cu_p s) (cu_req s)" r] s(1,2)
      show ?thesis
        unfolding Some ok(3) q run by (auto simp: cu_out_def args_split_def split: if_splits)
    qed
  qed
qed

subsection \<open>The fast path\<close>

lemma parse_uri_flags:
  "parse_uri_step (st, r) p ch = Next (st', r') \<Longrightarrow>
   (complex_uri r \<longrightarrow> complex_uri r') \<and> (quoted_uri r \<longrightarrow> quoted_uri r')"
  by (cases st) (auto split: if_splits)

lemma parse_uri_scan_flags:
  "scan parse_uri_step p xs (st, r) = Inl (st', r') \<Longrightarrow>
   (complex_uri r \<longrightarrow> complex_uri r') \<and> (quoted_uri r \<longrightarrow> quoted_uri r')"
proof (induction xs arbitrary: p st r)
  case (Cons c xs)
  then obtain st1 r1 where "parse_uri_step (st, r) p c = Next (st1, r1)"
    "scan parse_uri_step (Suc p) xs (st1, r1) = Inl (st', r')"
    by (auto split: action.splits)
  with Cons.IH parse_uri_flags [of st r p c st1 r1] show ?case by blast
qed simp

lemma parse_uri_scan_uri:
  "scan parse_uri_step p xs (sw_uri, r) = Inl (st', r') \<Longrightarrow>
   args_start r' = args_start r \<and> args r' = args r \<and> quoted_uri r' = quoted_uri r \<and> uri_ext r' = uri_ext r \<and>
   complex_uri r' = (complex_uri r \<or> ch_hash \<in> set xs)"
proof (induction xs arbitrary: p r)
  case (Cons c xs)
  have "\<not> is_usual ch_hash" by (simp add: is_usual_iff)
  with Cons show ?case by (auto split: if_splits)
qed simp

definition after_quest :: "u_char list \<Rightarrow> u_char list option" where
  "after_quest xs = (case dropWhile (\<lambda>c. c \<noteq> ch_quest) xs of [] \<Rightarrow> None | _ # q \<Rightarrow> Some q)"

lemma after_quest_Cons: "after_quest (c # xs) = (if c = ch_quest then Some xs else after_quest xs)"
  by (simp add: after_quest_def)

lemma after_quest_length: "after_quest xs = Some q \<Longrightarrow> length q < length xs"
  by (induction xs) (auto simp: after_quest_Cons after_quest_def split: if_splits)

abbreviation (input) path_part :: "u_char list \<Rightarrow> u_char list" where
  "path_part xs \<equiv> takeWhile (\<lambda>c. c \<noteq> ch_quest) xs"

definition plain_result ::
  "bool \<Rightarrow> nat \<Rightarrow> u_char list list \<times> u_char list \<Rightarrow> u_char list \<Rightarrow> uri_request \<Rightarrow> uri_request \<Rightarrow> bool"
where
  "plain_result merge p t xs r r' \<longleftrightarrow>
     decode_uri xs = Some (path_part xs, after_quest xs) \<and>
     (\<exists>t'. segments merge (path_part xs) t = Some t' \<and> render t' = render t @ path_part xs) \<and>
     args r' = args r \<and>
     (case after_quest xs of
        None \<Rightarrow> args_start r' = args_start r
      | Some q \<Rightarrow> args_start r' = Some (p + length xs - length q) \<and> ch_hash \<notin> set q)"

lemma plain_result_byte:
  assumes "plain_result merge (Suc p) t' xs r1 r'" "segment_step merge t c = Some t'"
    and "render t' = render t @ [c]" "c \<noteq> ch_quest" "c \<noteq> ch_percent" "c \<noteq> ch_hash"
    and "args_start r1 = args_start r" "args r1 = args r"
  shows "plain_result merge p t (c # xs) r r'"
  using assms by (auto simp: plain_result_def after_quest_Cons split: option.splits)

lemma plain_result_quest:
  assumes "ch_hash \<notin> set xs" "args_start r' = Some (Suc p)" "args r' = args r"
  shows "plain_result merge p t (ch_quest # xs) r r'"
  using assms by (auto simp: plain_result_def after_quest_Cons)

definition seg_plain :: "uri_state \<Rightarrow> u_char list \<Rightarrow> bool" where
  "seg_plain st seg \<longleftrightarrow> (st = sw_after_slash_in_uri \<or> st = sw_check_uri \<and> seg \<noteq> []) \<and>
     (seg = [] \<or> hd seg \<noteq> ch_dot)"

lemma parse_uri_plain_step:
  assumes "parse_uri_step (st, r) p c = Next (st1, r1)" "seg_plain st seg"
    and "\<not> complex_uri r1" "\<not> quoted_uri r1"
  shows "(c = ch_quest \<and> st1 = sw_uri \<and> args_start r1 = Some (Suc p) \<and> args r1 = args r) \<or>
    (c \<noteq> ch_quest \<and> c \<noteq> ch_percent \<and> c \<noteq> ch_hash \<and> args_start r1 = args_start r \<and> args r1 = args r \<and>
     (if c = ch_slash then st1 = sw_after_slash_in_uri \<and> st = sw_check_uri
      else seg_plain st1 (seg @ [c])))"
proof (cases "is_usual c")
  case True
  then have "c \<notin> {ch_quest, ch_percent, ch_hash, ch_slash, ch_dot}" by (simp add: is_usual_iff)
  with True assms show ?thesis by (cases st) (auto simp: seg_plain_def hd_append)
next
  case False
  with assms show ?thesis
    by (cases st) (auto simp: seg_plain_def hd_append split: if_splits)
qed

lemma segment_step_plain_slash:
  assumes "seg \<noteq> []" "hd seg \<noteq> ch_dot"
  shows "segment_step merge (segs, seg) ch_slash = Some (seg # segs, [])"
  using assms by auto

lemma parse_uri_scan_plain:
  assumes "scan parse_uri_step p xs (st, r) = Inl (st', r')" "seg_plain st seg"
    and "\<not> complex_uri r'" "\<not> quoted_uri r'"
  shows "plain_result merge p (segs, seg) xs r r'"
  using assms
proof (induction xs arbitrary: p st r segs seg)
  case Nil
  then show ?case by (simp add: plain_result_def after_quest_def)
next
  case (Cons c xs)
  then obtain st1 r1 where step: "parse_uri_step (st, r) p c = Next (st1, r1)"
    "scan parse_uri_step (Suc p) xs (st1, r1) = Inl (st', r')"
    by (auto split: action.splits)
  have flags: "\<not> complex_uri r1" "\<not> quoted_uri r1"
    using parse_uri_scan_flags [OF step(2)] Cons.prems(3,4) by auto
  consider (quest) "c = ch_quest" "st1 = sw_uri" "args_start r1 = Some (Suc p)" "args r1 = args r"
    | (slash) "c = ch_slash" "st1 = sw_after_slash_in_uri" "st = sw_check_uri"
        "args_start r1 = args_start r" "args r1 = args r"
    | (byte) "c \<noteq> ch_quest" "c \<noteq> ch_percent" "c \<noteq> ch_hash" "c \<noteq> ch_slash" "seg_plain st1 (seg @ [c])"
        "args_start r1 = args_start r" "args r1 = args r"
    using parse_uri_plain_step [OF step(1) Cons.prems(2) flags] by (auto split: if_splits)
  then show ?case
  proof cases
    case quest
    with parse_uri_scan_uri [of "Suc p" xs r1 st' r'] step(2) Cons.prems(3)
    show ?thesis by (auto intro: plain_result_quest)
  next
    case slash
    have seg: "seg \<noteq> []" "hd seg \<noteq> ch_dot"
      using slash(3) Cons.prems(2) by (auto simp: seg_plain_def)
    have "plain_result merge (Suc p) (seg # segs, []) xs r1 r'"
      by (rule Cons.IH [OF step(2) _ Cons.prems(3,4)]) (simp add: slash seg_plain_def)
    then show ?thesis
      unfolding slash(1)
      by (rule plain_result_byte [OF _ segment_step_plain_slash [OF seg]])
        (simp_all add: render_Cons slash)
  next
    case byte
    have "plain_result merge (Suc p) (segs, seg @ [c]) xs r1 r'"
      by (rule Cons.IH [OF step(2) byte(5) Cons.prems(3,4)])
    then show ?thesis
      by (rule plain_result_byte) (use byte in \<open>simp_all add: render_snoc\<close>)
  qed
qed

subsection \<open>The request's URI\<close>

lemma path_part_take: "path_part xs = take (length xs - (case after_quest xs of None \<Rightarrow> 0 | Some q \<Rightarrow> length q + 1)) xs"
proof -
  have "xs = path_part xs @ dropWhile (\<lambda>c. c \<noteq> ch_quest) xs" by simp
  moreover have "length (dropWhile (\<lambda>c. c \<noteq> ch_quest) xs) = (case after_quest xs of None \<Rightarrow> 0 | Some q \<Rightarrow> length q + 1)"
    by (simp add: after_quest_def split: list.splits)
  ultimately show ?thesis
    by (metis append_eq_conv_conj diff_add_inverse2 length_append)
qed

lemma after_quest_split: "after_quest xs = Some q \<Longrightarrow> \<exists>pre. xs = pre @ ch_quest # q"
proof (induction xs)
  case (Cons x xs)
  then show ?case by (auto simp: after_quest_Cons split: if_splits intro: exI [of _ "[]"] exI [of _ "x # _"])
qed (simp add: after_quest_def)

lemma after_quest_suffix: "after_quest xs = Some q \<Longrightarrow> drop (length xs - length q) xs = q"
  by (auto dest!: after_quest_split)

lemma takeWhile_no_hash: "ch_hash \<notin> set q \<Longrightarrow> takeWhile (\<lambda>c. c \<noteq> ch_hash) q = q"
  by (auto simp: takeWhile_eq_all_conv)

lemma parse_uri_start:
  assumes "ngx_http_parse_uri (c # xs) r0 = (NGX_OK, Some r)"
  shows "c = ch_slash" "\<exists>st. scan parse_uri_step 1 xs (sw_after_slash_in_uri, r0) = Inl (st, r)"
  using assms by (auto simp: ngx_http_parse_uri_def split: if_splits sum.splits)

lemma parse_uri_args_start:
  "scan parse_uri_step p xs (st, r) = Inl (st', r') \<Longrightarrow> args_start r' = Some a \<Longrightarrow>
   args_start r = Some a \<or> p + before_args xs < a"
proof (induction xs arbitrary: p st r)
  case (Cons c xs)
  then obtain st1 r1 where step: "parse_uri_step (st, r) p c = Next (st1, r1)"
    "scan parse_uri_step (Suc p) xs (st1, r1) = Inl (st', r')"
    by (auto split: action.splits)
  have "args_start r1 = args_start r \<and> c \<noteq> ch_quest \<or> c = ch_quest \<and> args_start r1 \<in> {args_start r, Some (Suc p)}"
  proof (cases "is_usual c")
    case True
    then have "c \<noteq> ch_quest" by (simp add: is_usual_iff)
    with True step(1) show ?thesis by (cases st) (auto split: if_splits)
  next
    case False
    with step(1) show ?thesis by (cases st) (auto split: if_splits)
  qed
  with Cons.IH [OF step(2) Cons.prems(2)] show ?case
    by (auto simp: before_args_Cons)
qed simp

lemma parse_uri_args: "scan parse_uri_step p xs (st, r) = Inl (st', r') \<Longrightarrow> args r' = args r"
proof (induction xs arbitrary: p st r)
  case (Cons c xs)
  then obtain st1 r1 where step: "parse_uri_step (st, r) p c = Next (st1, r1)"
    "scan parse_uri_step (Suc p) xs (st1, r1) = Inl (st', r')"
    by (auto split: action.splits)
  have "args r1 = args r" using step(1) by (cases st) (auto split: if_splits)
  with Cons.IH [OF step(2)] show ?case by simp
qed simp

lemma process_uri_complex:
  assumes "n < length mem" "take n mem = ch_slash # rest"
    and "complex_uri r \<or> quoted_uri r" "args r = []"
    and "before_args (take n mem) \<le> (case args_start r of Some a \<Rightarrow> a - 1 | None \<Rightarrow> n) + 1"
  shows "case normalised merge (take n mem) of
      None \<Rightarrow> ngx_http_process_request_uri mem n merge r = Some (Inl NGX_HTTP_BAD_REQUEST)
    | Some (path, rem) \<Rightarrow> \<exists>r'. ngx_http_process_request_uri mem n merge r = Some (Inr r') \<and>
        uri r' = path \<and> unparsed_uri r' = take n mem \<and>
        args r' = (case rem of None \<Rightarrow> [] | Some q \<Rightarrow> takeWhile (\<lambda>c. c \<noteq> ch_hash) q)"
proof -
  let ?len = "case args_start r of Some a \<Rightarrow> a - 1 | None \<Rightarrow> n"
  obtain rc r1 where run: "ngx_http_parse_complex_uri mem n (?len + 1) merge r = Some (rc, r1)"
    and res: "case normalised merge (take n mem) of
       None \<Rightarrow> rc = NGX_HTTP_PARSE_INVALID_REQUEST
     | Some (path, rem) \<Rightarrow> rc = NGX_OK \<and> uri r1 = path \<and> uri_ext r1 = None \<and> exten_ok r r1 \<and> args_split r n rem r1"
    using complex_uri_normal [OF assms(1,2,5), of merge r] by blast
  show ?thesis
  proof (cases "normalised merge (take n mem)")
    case None
    with res run assms(3) show ?thesis
      by (auto simp: ngx_http_process_request_uri_def Let_def)
  next
    case (Some pr)
    obtain path rem where pr: "pr = (path, rem)" by (cases pr)
    with Some res have ok: "rc = NGX_OK" "uri r1 = path" "uri_ext r1 = None" "args_split r n rem r1" by auto
    have q: "rem = Some q \<Longrightarrow> \<exists>pre. take n mem = pre @ ch_quest # q" for q
      using Some pr decode_uri_suffix [of "take n mem" _ q]
      by (auto simp: normalised_def split: option.splits list.splits if_splits)
    have process: "ngx_http_process_request_uri mem n merge r =
      (let r = r1\<lparr>unparsed_uri := take n mem, valid_unparsed_uri := \<not> space_in_uri r1\<rparr>
       in Some (Inr (case args_start r of Some a \<Rightarrow> if n > a then r\<lparr>args := drop a (take n mem)\<rparr> else r | None \<Rightarrow> r)))"
      using run ok(1,3) assms(3) by (simp add: ngx_http_process_request_uri_def Let_def split: option.split)
    show ?thesis
    proof (cases rem)
      case None
      with ok assms(4) show ?thesis
        unfolding Some pr process by (simp add: args_split_def)
    next
      case r: (Some q)
      obtain pre where pre: "take n mem = pre @ ch_quest # q" using q [OF r] by blast
      have suffix: "drop (n - length q) (take n mem) = q"
        by (rule drop_take_suffix(1) [OF pre]) (use assms(1) in simp)
      have "length (take n mem) = length (pre @ ch_quest # q)" using pre by simp
      then have len: "length q < n" using assms(1) by simp
      show ?thesis
        using ok assms(4) suffix len
        unfolding Some pr process r by (auto simp: args_split_def Let_def takeWhile_no_hash split: if_splits)
    qed
  qed
qed

lemma process_uri_plain:
  assumes "n < length mem" "take n mem = ch_slash # rest"
    and "\<not> complex_uri r" "\<not> quoted_uri r" "args r0 = []" "args_start r0 = None"
    and "plain_result merge 1 ([], []) rest r0 r"
  shows "\<exists>path rem r'. normalised merge (take n mem) = Some (path, rem) \<and>
    ngx_http_process_request_uri mem n merge r = Some (Inr r') \<and>
    uri r' = path \<and> unparsed_uri r' = take n mem \<and>
    args r' = (case rem of None \<Rightarrow> [] | Some q \<Rightarrow> takeWhile (\<lambda>c. c \<noteq> ch_hash) q)"
proof -
  have n: "n = Suc (length rest)" using assms(1,2) by (metis length_Cons length_take min.absorb2 less_imp_le)
  obtain t' where t': "decode_uri rest = Some (path_part rest, after_quest rest)"
    "segments merge (path_part rest) ([], []) = Some t'" "render t' = ch_slash # path_part rest"
    using assms(7) by (auto simp: plain_result_def render_root)
  have norm: "normalised merge (take n mem) = Some (path_part (take n mem), after_quest (take n mem))"
    using t' by (simp add: normalised_def assms(2) after_quest_Cons)
  have args: "args r = []" and start: "case after_quest rest of None \<Rightarrow> args_start r = None
      | Some q \<Rightarrow> args_start r = Some (n - length q) \<and> ch_hash \<notin> set q"
    using assms(5-7) n by (auto simp: plain_result_def split: option.splits)
  have after: "after_quest (take n mem) = after_quest rest" by (simp add: assms(2) after_quest_Cons)
  have path: "path_part (take n mem) = take (case args_start r of Some a \<Rightarrow> a - 1 | None \<Rightarrow> n) mem"
    using path_part_take [of "take n mem"] start assms(1) unfolding after
    by (auto split: option.splits)
  have tail: "after_quest rest = Some q \<Longrightarrow> drop (n - length q) (take n mem) = q \<and> length q < n" for q
    using after_quest_suffix [of "take n mem" q] after_quest_length [of "take n mem" q] assms(1) after by simp
  show ?thesis
    unfolding norm after path ngx_http_process_request_uri_def Let_def
    using assms(3,4) args start tail
    by (auto simp: takeWhile_no_hash split: option.splits)
qed

lemma process_uri_normal:
  assumes "n < length mem" "0 < n"
    and "ngx_http_parse_uri (take n mem) r0 = (NGX_OK, Some r)"
    and "args r0 = []" "args_start r0 = None"
  shows "case normalised merge (take n mem) of
      None \<Rightarrow> ngx_http_process_request_uri mem n merge r = Some (Inl NGX_HTTP_BAD_REQUEST)
    | Some (path, rem) \<Rightarrow> \<exists>r'. ngx_http_process_request_uri mem n merge r = Some (Inr r') \<and>
        uri r' = path \<and> unparsed_uri r' = take n mem \<and>
        args r' = (case rem of None \<Rightarrow> [] | Some q \<Rightarrow> takeWhile (\<lambda>c. c \<noteq> ch_hash) q)"
proof -
  obtain c rest where xs: "take n mem = c # rest" using assms(1,2) by (cases "take n mem") auto
  obtain st where c: "take n mem = ch_slash # rest"
    and scan: "scan parse_uri_step 1 rest (sw_after_slash_in_uri, r0) = Inl (st, r)"
    using parse_uri_start [OF assms(3) [unfolded xs]] xs by blast
  show ?thesis
  proof (cases "complex_uri r \<or> quoted_uri r")
    case True
    have "length (take n mem) = n" using assms(1) by simp
    then have "before_args (take n mem) \<le> n" using length_takeWhile_le by (metis before_args_def)
    moreover have "args_start r = Some a \<Longrightarrow> before_args (take n mem) < a" for a
      using parse_uri_args_start [OF scan] assms(5) by (auto simp: c before_args_Cons)
    ultimately have room: "before_args (take n mem) \<le> (case args_start r of Some a \<Rightarrow> a - 1 | None \<Rightarrow> n) + 1"
      by (auto split: option.splits intro: less_imp_le)
    have "args r = []" using parse_uri_args [OF scan] assms(4) by simp
    from process_uri_complex [OF assms(1) c True this room] show ?thesis .
  next
    case False
    have "plain_result merge 1 ([], []) rest r0 r"
      by (rule parse_uri_scan_plain [OF scan]) (use False in \<open>simp_all add: seg_plain_def\<close>)
    with process_uri_plain [OF assms(1) c _ _ assms(4,5)] False show ?thesis by fastforce
  qed
qed

subsection \<open>The shape of normalised paths\<close>

definition clean_segment :: "bool \<Rightarrow> u_char list \<Rightarrow> bool" where
  "clean_segment merge x \<longleftrightarrow>
     ch_slash \<notin> set x \<and> x \<noteq> [ch_dot] \<and> x \<noteq> [ch_dot, ch_dot] \<and> (merge \<longrightarrow> x \<noteq> [])"

definition clean_segments :: "bool \<Rightarrow> u_char list list \<times> u_char list \<Rightarrow> bool" where
  "clean_segments merge t \<longleftrightarrow> (\<forall>x\<in>set (fst t). clean_segment merge x) \<and> ch_slash \<notin> set (snd t)"

lemma leave_dot_dot_subset: "leave_dot_dot segs = Some segs' \<Longrightarrow> set segs' \<subseteq> set segs"
  by (cases segs) (auto split: if_splits list.splits)

lemma clean_segment_step:
  assumes "clean_segments merge t" "segment_step merge t c = Some t'"
  shows "clean_segments merge t'"
proof -
  obtain segs seg where t: "t = (segs, seg)" by (cases t)
  consider (byte) "c \<noteq> ch_slash" "t' = (segs, seg @ [c])"
    | (empty) "seg = []" "t' = (if merge then segs else [] # segs, [])"
    | (dot) "t' = (segs, [])"
    | (dot_dot) segs' where "leave_dot_dot segs = Some segs'" "t' = (segs', [])"
    | (plain) "seg \<noteq> []" "seg \<noteq> [ch_dot]" "seg \<noteq> [ch_dot, ch_dot]" "t' = (seg # segs, [])"
    using assms(2) unfolding t segment_step.simps
    by (auto simp only: split: if_split_asm) auto
  then show ?thesis
    using assms(1) leave_dot_dot_subset [of segs]
    by cases (auto simp only: t clean_segments_def clean_segment_def fst_conv snd_conv list.set set_append
      split: if_splits)
qed

lemma clean_segments_path: "clean_segments merge t \<Longrightarrow> segments merge xs t = Some t' \<Longrightarrow> clean_segments merge t'"
  by (induction xs arbitrary: t) (auto dest: clean_segment_step split: option.splits)

lemma append_slash_free:
  assumes "xs @ ch_slash # ys = zs @ ch_slash # ws" "ch_slash \<notin> set xs"
  shows "(\<exists>us. zs = xs @ ch_slash # us \<and> ys = us @ ch_slash # ws) \<or> xs = zs \<and> ys = ws"
proof -
  from assms(1) obtain us where "xs @ us = zs \<and> ch_slash # ys = us @ ch_slash # ws \<or>
      xs = zs @ us \<and> us @ ch_slash # ys = ch_slash # ws"
    unfolding append_eq_append_conv2 by blast
  with assms(2) show ?thesis by (cases us) auto
qed

lemma segment_between:
  assumes "concat (map (\<lambda>s. ch_slash # s) L) @ ch_slash # cur = A @ ch_slash # w @ ch_slash # B"
    and "\<forall>x\<in>set L. ch_slash \<notin> set x" "ch_slash \<notin> set cur" "ch_slash \<notin> set w"
  shows "w \<in> set L"
  using assms
proof (induction L arbitrary: A)
  case Nil
  then have "ch_slash \<in> set cur"
    by (cases A) (auto simp: append_eq_Cons_conv)
  with Nil show ?case by simp
next
  case (Cons x L)
  let ?rest = "concat (map (\<lambda>s. ch_slash # s) L) @ ch_slash # cur"
  obtain ys where ys: "?rest = ch_slash # ys" by (cases L) auto
  have x: "ch_slash \<notin> set x" using Cons.prems(2) by simp
  show ?case
  proof (cases A)
    case Nil
    then have "x @ ch_slash # ys = w @ ch_slash # B" using Cons.prems(1) ys by simp
    from append_slash_free [OF this x] Cons.prems(4) show ?thesis by auto
  next
    case (Cons a A')
    then have "x @ ch_slash # ys = A' @ ch_slash # w @ ch_slash # B" using Cons.prems(1) ys by simp
    from append_slash_free [OF this x] have "\<exists>A''. ?rest = A'' @ ch_slash # w @ ch_slash # B"
      unfolding ys by (metis append_Cons append_Nil)
    then show ?thesis using Cons.IH Cons.prems(2-4) by auto
  qed
qed

definition has_segment :: "u_char list \<Rightarrow> u_char list \<Rightarrow> bool" where
  "has_segment path w \<longleftrightarrow> (\<exists>A B. path = A @ ch_slash # w @ ch_slash # B)"

lemma clean_render:
  assumes "clean_segments merge t"
  shows "\<not> has_segment (render t) [ch_dot]" "\<not> has_segment (render t) [ch_dot, ch_dot]"
    "merge \<Longrightarrow> \<not> has_segment (render t) []"
proof -
  obtain segs seg where t: "t = (segs, seg)" by (cases t)
  have seg: "w \<in> set segs" if "has_segment (render t) w" "ch_slash \<notin> set w" for w
    using that segment_between [of "rev segs" seg _ w] assms
    by (auto simp: t has_segment_def render.simps clean_segments_def clean_segment_def)
  show "\<not> has_segment (render t) [ch_dot]" "\<not> has_segment (render t) [ch_dot, ch_dot]"
    "merge \<Longrightarrow> \<not> has_segment (render t) []"
    using seg [of "[ch_dot]"] seg [of "[ch_dot, ch_dot]"] seg [of "[]"] assms
    by (auto simp: t clean_segments_def clean_segment_def)
qed

lemma normalised_clean:
  assumes "normalised merge xs = Some (path, rem)"
  shows "\<not> has_segment path [ch_dot]" "\<not> has_segment path [ch_dot, ch_dot]" "merge \<Longrightarrow> \<not> has_segment path []"
    "hd path = ch_slash"
proof -
  obtain t ys where t: "path = render t" "segments merge ys ([], []) = Some t"
    using assms by (auto simp: normalised_def split: option.splits list.splits if_splits)
  have "clean_segments merge t"
    by (rule clean_segments_path [OF _ t(2)]) (simp add: clean_segments_def)
  from clean_render [OF this]
  show "\<not> has_segment path [ch_dot]" "\<not> has_segment path [ch_dot, ch_dot]" "merge \<Longrightarrow> \<not> has_segment path []"
    unfolding t(1) .
  show "hd path = ch_slash"
    unfolding t(1) by (cases t; cases "rev (fst t)") (auto simp: render.simps)
qed

subsection \<open>Properties\<close>

text \<open>C29: For every URI that starts with a slash, \<open>ngx_http_parse_complex_uri\<close> ends, reads at
  most the one byte behind the URI and writes no more bytes than stand before its first
  question mark; it stores exactly the normalised path of the specification, with the extension of its
  last segment and the argument string up to a hash sign, and it returns
  NGX_HTTP_PARSE_INVALID_REQUEST exactly when the specification has no normal form (a wrong
  or zero escape, or a \<open>..\<close> above the root).\<close>

theorem complex_uri_normalises:
  assumes "n < length mem" "take n mem = ch_slash # rest" "before_args (take n mem) \<le> cap"
  shows "\<exists>rc r'. ngx_http_parse_complex_uri mem n cap merge r = Some (rc, r') \<and>
    (case normalised merge (take n mem) of
       None \<Rightarrow> rc = NGX_HTTP_PARSE_INVALID_REQUEST
     | Some (path, rem) \<Rightarrow> rc = NGX_OK \<and> uri r' = path \<and> uri_ext r' = None \<and>
         exten_ok r r' \<and> args_split r n rem r')"
  by (rule complex_uri_normal [OF assms])

definition blank_request :: uri_request where
  "blank_request = \<lparr>uri_ext = None, args_start = None, uri = [], exten = [], args = [], unparsed_uri = [],
     complex_uri = False, quoted_uri = False, plus_in_uri = False, space_in_uri = False,
     valid_unparsed_uri = False\<rparr>"

lemma complex_uri_normalises_witness:
  "\<exists>r'. ngx_http_parse_complex_uri (bytes ''/a/..//%62.c?d '') 14 12 True blank_request = Some (NGX_OK, r') \<and>
     uri r' = bytes ''/b.c''"
  using complex_uri_normalises [of 14 "bytes ''/a/..//%62.c?d ''" "bytes ''a/..//%62.c?d''" 12 True blank_request]
  by (auto simp: before_args_def normalised_def hex_digit_def is_digit_def render.simps split: option.splits)

text \<open>C30: Whatever \<open>ngx_http_parse_complex_uri\<close> accepts, the URI it stores is rooted and
  contains no segment \<open>.\<close> or \<open>..\<close> between two slashes, so it cannot climb above the root; with
  \<open>merge_slashes\<close> it contains no two slashes in a row. (A last segment \<open>.\<close> or \<open>..\<close>, not
  followed by a slash, is kept.)\<close>

theorem complex_uri_clean:
  assumes "n < length mem" "take n mem = ch_slash # rest" "before_args (take n mem) \<le> cap"
    and "ngx_http_parse_complex_uri mem n cap merge r = Some (NGX_OK, r')"
  shows "hd (uri r') = ch_slash \<and> \<not> has_segment (uri r') [ch_dot] \<and> \<not> has_segment (uri r') [ch_dot, ch_dot] \<and>
    (merge \<longrightarrow> \<not> has_segment (uri r') [])"
proof -
  obtain path rem where "normalised merge (take n mem) = Some (path, rem)" "uri r' = path"
    using complex_uri_normal [OF assms(1-3), of merge r] assms(4)
    by (auto split: option.splits)
  with normalised_clean [of merge "take n mem" path rem] show ?thesis by blast
qed

lemma complex_uri_clean_witness:
  "\<exists>r'. ngx_http_parse_complex_uri (bytes ''/%2e%2e'' @ [ch_SP]) 7 7 True blank_request = Some (NGX_OK, r') \<and>
     \<not> has_segment (uri r') [ch_dot, ch_dot]"
proof -
  have len: "7 < length (bytes ''/%2e%2e'' @ [ch_SP])"
    "take 7 (bytes ''/%2e%2e'' @ [ch_SP]) = ch_slash # bytes ''%2e%2e''"
    "before_args (take 7 (bytes ''/%2e%2e'' @ [ch_SP])) \<le> 7"
    by (simp_all add: before_args_def)
  obtain r' where "ngx_http_parse_complex_uri (bytes ''/%2e%2e'' @ [ch_SP]) 7 7 True blank_request = Some (NGX_OK, r')"
    using complex_uri_normal [OF len, of True blank_request]
    by (auto simp: normalised_def hex_digit_def is_digit_def)
  with complex_uri_clean [OF len this] show ?thesis by blast
qed

text \<open>C31: The two passes together, on any request URI that \<open>ngx_http_parse_uri\<close> accepts: whether
  \<open>ngx_http_process_request_uri\<close> takes the URI as it stands, because the first pass saw
  nothing to normalise, or has it decoded into a buffer of the size the first pass found,
  the request gets the normalised path and the arguments of the specification, or status
  400 when there is no normal form.\<close>

theorem process_request_uri_normalises:
  assumes "n < length mem" "0 < n"
    and "ngx_http_parse_uri (take n mem) r0 = (NGX_OK, Some r)"
    and "args r0 = []" "args_start r0 = None"
  shows "case normalised merge (take n mem) of
      None \<Rightarrow> ngx_http_process_request_uri mem n merge r = Some (Inl NGX_HTTP_BAD_REQUEST)
    | Some (path, rem) \<Rightarrow> \<exists>r'. ngx_http_process_request_uri mem n merge r = Some (Inr r') \<and>
        uri r' = path \<and> unparsed_uri r' = take n mem \<and>
        args r' = (case rem of None \<Rightarrow> [] | Some q \<Rightarrow> takeWhile (\<lambda>c. c \<noteq> ch_hash) q)"
  by (rule process_uri_normal [OF assms])

lemma process_request_uri_normalises_witness:
  "\<exists>r'. ngx_http_process_request_uri (bytes ''/a.b?c'' @ [ch_SP]) 6 True
       (blank_request\<lparr>uri_ext := Some 3, args_start := Some 5\<rparr>) = Some (Inr r') \<and>
     uri r' = bytes ''/a.b'' \<and> args r' = bytes ''c''"
  using process_request_uri_normalises [of 6 "bytes ''/a.b?c'' @ [ch_SP]" blank_request
      "blank_request\<lparr>uri_ext := Some 3, args_start := Some 5\<rparr>" True]
  by (auto simp: blank_request_def ngx_http_parse_uri_def is_usual_iff normalised_def render.simps)

text \<open>
  What the specification leaves unnormalised, as the code does: a last segment \<open>..\<close>, which
  names the directory above, and an escape that the end of the URI cuts off, which is dropped.
\<close>

lemma complex_uri_keeps_last_dots:
  "\<exists>r'. ngx_http_parse_complex_uri (bytes ''/a/../.. '') 8 8 True blank_request = Some (NGX_OK, r') \<and>
     uri r' = bytes ''/..''"
  using complex_uri_normal [of 8 "bytes ''/a/../.. ''" "bytes ''a/../..''" 8 True blank_request]
  by (auto simp: before_args_def normalised_def render.simps split: option.splits)

lemma complex_uri_drops_cut_escape:
  "\<exists>r'. ngx_http_parse_complex_uri (bytes ''/a%2 '') 4 4 True blank_request = Some (NGX_OK, r') \<and>
     uri r' = bytes ''/a''"
  using complex_uri_normal [of 4 "bytes ''/a%2 ''" "bytes ''a%2''" 4 True blank_request]
  by (auto simp: before_args_def normalised_def hex_digit_def is_digit_def render.simps split: option.splits)

end
