(* ===== verification/Http_Request_Line_Uri.thy ===== *)
theory Http_Request_Line_Uri
  imports Http_Request_Line Http_Uri_Norm
begin

section \<open>The request line: restart, method, and the URI it frames\<close>

text \<open>
  The request line parser is restartable; the URI it finds is one that \<open>ngx_http_parse_uri\<close>
  accepts with the same flags, although the two are separate state machines; so the whole
  way from the bytes of the request line to the normalised URI is covered.
\<close>

subsection \<open>Restart\<close>

definition rl_inv :: "nat \<Rightarrow> request_line \<Rightarrow> bool" where
  "rl_inv p s \<longleftrightarrow> (rl_state s = rl_sw_method \<longrightarrow> request_start s < p)"

lemma ngx_strNcmp_take:
  "m + length w \<le> n \<Longrightarrow> ngx_strNcmp (take n buf) m w = ngx_strNcmp buf m w"
  by (simp add: ngx_strNcmp_def byte_range_take)

lemma rl_request_method_take:
  assumes "m < p" "p < n"
  shows "rl_request_method (take n buf) m p method = rl_request_method buf m p method"
proof -
  have cmp: "ngx_strNcmp (take n buf) m w = ngx_strNcmp buf m w" if "length w \<le> Suc (p - m)" for w
    using that assms by (intro ngx_strNcmp_take) simp
  have one: "byte_range (take n buf) (m + 1) (m + 2) = byte_range buf (m + 1) (m + 2)" if "p - m = 4"
    using that assms by (intro byte_range_take) simp
  show ?thesis
    unfolding rl_request_method_def Let_def
    using one by (simp add: cmp cong: if_cong)
qed

lemma rl_version_not_method: "rl_version_step s p ch = Next s' \<Longrightarrow> rl_state s \<noteq> rl_sw_start \<Longrightarrow>
   rl_state s \<noteq> rl_sw_method \<Longrightarrow> rl_state s' \<noteq> rl_sw_method"
  by (cases "rl_state s") (auto simp: rl_version_step_def Let_def split: if_split_asm)

lemma rl_uri_not_method: "rl_uri_step s p ch = Next s' \<Longrightarrow> rl_state s \<noteq> rl_sw_method \<Longrightarrow> rl_state s' \<noteq> rl_sw_method"
  by (cases "rl_state s")
    (auto simp: rl_uri_step_def rl_after_slash_step_def rl_check_uri_step_def rl_plain_uri_step_def Let_def
      split: if_split_asm)

lemma rl_host_not_method: "rl_host_step s p ch = Next s' \<Longrightarrow> rl_state s \<noteq> rl_sw_method \<Longrightarrow> rl_state s' \<noteq> rl_sw_method"
  by (cases "rl_state s")
    (auto simp: rl_host_step_def rl_host_char_step_def rl_host_end_step_def Let_def split: if_split_asm)

lemma rl_schema_not_method: "rl_schema_step s p ch = Next s' \<Longrightarrow> rl_state s \<noteq> rl_sw_method \<Longrightarrow> rl_state s' \<noteq> rl_sw_method"
  by (cases "rl_state s") (auto simp: rl_schema_step_def split: if_split_asm)

lemma rl_inv_step:
  assumes "rl_inv p s" "request_line_step buf s p ch = Next s'"
  shows "rl_inv (Suc p) s'"
proof (cases "rl_state s \<in> {rl_sw_start, rl_sw_method}")
  case True
  with assms show ?thesis
    by (auto simp: request_line_step_def rl_method_step_def rl_inv_def Let_def split: if_split_asm)
next
  case False
  then have "rl_state s' \<noteq> rl_sw_method"
    using assms(2)
    by (auto simp: request_line_step_def
        dest: rl_version_not_method rl_uri_not_method rl_host_not_method rl_schema_not_method
        split: if_split_asm)
  then show ?thesis by (simp add: rl_inv_def)
qed

lemma rl_looks_behind:
  "rl_inv p s \<Longrightarrow> p < n \<Longrightarrow> request_line_step (take n buf) s p ch = request_line_step buf s p ch"
  by (cases "rl_state s = rl_sw_method")
    (auto simp: request_line_step_def rl_method_step_def rl_inv_def rl_request_method_take
      split: rl_state.splits)

interpretation request_line: byte_machine request_line_step rl_inv
  by unfold_locales (auto intro: rl_inv_step simp: rl_looks_behind)

subsection \<open>The URI between the two machines\<close>

text \<open>Offsets into the URI as offsets into the buffer.\<close>

definition shift_uri :: "nat \<Rightarrow> uri_request \<Rightarrow> uri_request" where
  "shift_uri k r = r\<lparr>uri_ext := map_option (\<lambda>e. k + e) (uri_ext r),
     args_start := map_option (\<lambda>e. k + e) (args_start r)\<rparr>"

text \<open>Running the first pass over the bytes from \<open>a\<close> to \<open>b\<close> gives the flags \<open>r\<close> in state \<open>st\<close>.\<close>

definition uri_seen :: "u_char list \<Rightarrow> uri_request \<Rightarrow> nat \<Rightarrow> nat \<Rightarrow> uri_state \<Rightarrow> uri_request \<Rightarrow> bool" where
  "uri_seen buf r0 a b st r \<longleftrightarrow> a < b \<and>
     scan parse_uri_step 0 (byte_range buf a b) (uri_sw_start, r0) = Inl (st, r)"

lemma uri_seen_step:
  assumes "uri_seen buf r0 a p st r" "p < length buf"
    and "parse_uri_step (st, r) (p - a) (buf ! p) = Next (st1, r1)"
  shows "uri_seen buf r0 a (Suc p) st1 r1"
proof -
  have len: "length (byte_range buf a p) = p - a" "a < p"
    using assms(1,2) by (simp_all add: byte_range_def uri_seen_def)
  have split: "byte_range buf a (Suc p) = byte_range buf a p @ [buf ! p]"
    by (rule byte_range_snoc) (use len(2) assms(2) in simp_all)
  show ?thesis using assms by (simp add: uri_seen_def split scan_append len(1))
qed

lemma uri_seen_slash:
  assumes "p < length buf" "buf ! p = ch_slash"
  shows "uri_seen buf r0 p (Suc p) sw_after_slash_in_uri r0"
  using assms byte_range_snoc [of p p buf] by (simp add: uri_seen_def)

fun uri_state_of :: "rl_state \<Rightarrow> uri_state" where
  "uri_state_of rl_sw_after_slash_in_uri = sw_after_slash_in_uri"
| "uri_state_of rl_sw_check_uri = sw_check_uri"
| "uri_state_of rl_sw_check_uri_http_09 = sw_check_uri"
| "uri_state_of _ = sw_uri"

abbreviation (input) uri_states :: "rl_state set" where
  "uri_states \<equiv> {rl_sw_after_slash_in_uri, rl_sw_check_uri, rl_sw_uri}"

abbreviation (input) pause_states :: "rl_state set" where
  "pause_states \<equiv> {rl_sw_check_uri_http_09, rl_sw_http_09}"

text \<open>One byte of the URI, in both machines.\<close>

definition uri_inside :: "u_char list \<Rightarrow> uri_request \<Rightarrow> nat \<Rightarrow> request_line \<Rightarrow> bool" where
  "uri_inside buf r0 p s \<longleftrightarrow> rl_state s \<in> uri_states \<and>
     (\<exists>r. uri_seen buf r0 (uri_start s) p (uri_state_of (rl_state s)) r \<and> rl_uri s = shift_uri (uri_start s) r)"

definition uri_framed :: "u_char list \<Rightarrow> uri_request \<Rightarrow> nat \<Rightarrow> request_line \<Rightarrow> bool" where
  "uri_framed buf r0 p s \<longleftrightarrow> uri_end s < p \<and>
     (\<exists>st r. uri_seen buf r0 (uri_start s) (uri_end s) st r \<and> rl_uri s = shift_uri (uri_start s) r)"

text \<open>After a space: the URI may end before it, or go on.\<close>

definition uri_paused :: "u_char list \<Rightarrow> uri_request \<Rightarrow> nat \<Rightarrow> request_line \<Rightarrow> bool" where
  "uri_paused buf r0 p s \<longleftrightarrow> rl_state s \<in> pause_states \<and> uri_framed buf r0 p s \<and>
     (\<exists>r. uri_seen buf r0 (uri_start s) p (uri_state_of (rl_state s)) r \<and>
        (rl_uri s)\<lparr>space_in_uri := True\<rparr> = shift_uri (uri_start s) r)"

lemma shift_uri_fields:
  "(shift_uri k r)\<lparr>complex_uri := b\<rparr> = shift_uri k (r\<lparr>complex_uri := b\<rparr>)"
  "(shift_uri k r)\<lparr>quoted_uri := b\<rparr> = shift_uri k (r\<lparr>quoted_uri := b\<rparr>)"
  "(shift_uri k r)\<lparr>plus_in_uri := b\<rparr> = shift_uri k (r\<lparr>plus_in_uri := b\<rparr>)"
  "(shift_uri k r)\<lparr>space_in_uri := b\<rparr> = shift_uri k (r\<lparr>space_in_uri := b\<rparr>)"
  "(shift_uri k r)\<lparr>uri_ext := None\<rparr> = shift_uri k (r\<lparr>uri_ext := None\<rparr>)"
  "k \<le> p \<Longrightarrow> (shift_uri k r)\<lparr>uri_ext := Some (Suc p)\<rparr> = shift_uri k (r\<lparr>uri_ext := Some (Suc (p - k))\<rparr>)"
  "k \<le> p \<Longrightarrow> (shift_uri k r)\<lparr>args_start := Some (Suc p)\<rparr> = shift_uri k (r\<lparr>args_start := Some (Suc (p - k))\<rparr>)"
  by (simp_all add: shift_uri_def)

text \<open>What the step of a URI state does: it stays in step with the first pass, or frames the URI.\<close>

definition uri_step_ok :: "u_char list \<Rightarrow> uri_request \<Rightarrow> nat \<Rightarrow> rl_action \<Rightarrow> bool" where
  "uri_step_ok buf r0 p a \<longleftrightarrow>
     (case a of
        Next s' \<Rightarrow> uri_inside buf r0 (Suc p) s' \<or> uri_paused buf r0 (Suc p) s' \<or>
          (rl_state s' = rl_sw_almost_done \<and> uri_framed buf r0 (Suc p) s')
      | Stop (Rl_done q s') \<Rightarrow> q = p \<and> uri_framed buf r0 (Suc p) s'
      | Stop (Rl_invalid rc s') \<Rightarrow> rc = NGX_HTTP_PARSE_INVALID_REQUEST)"

lemma uri_seen_less: "uri_seen buf r0 a p st r \<Longrightarrow> a < p"
  by (simp add: uri_seen_def)

lemma uri_step_inside:
  assumes "uri_seen buf r0 (uri_start s) p (uri_state_of (rl_state s)) r" "p < length buf"
    and "parse_uri_step (uri_state_of (rl_state s), r) (p - uri_start s) (buf ! p) = Next (uri_state_of (rl_state s'), r')"
    and "rl_state s' \<in> uri_states" "uri_start s' = uri_start s" "rl_uri s' = shift_uri (uri_start s) r'"
  shows "uri_step_ok buf r0 p (Next s')"
  using uri_seen_step [OF assms(1-3)] assms(4-6) by (auto simp: uri_step_ok_def uri_inside_def)

lemma uri_step_pause:
  assumes "uri_seen buf r0 (uri_start s) p (uri_state_of (rl_state s)) r" "p < length buf"
    and "parse_uri_step (uri_state_of (rl_state s), r) (p - uri_start s) (buf ! p) = Next (uri_state_of st', r\<lparr>space_in_uri := True\<rparr>)"
    and "rl_uri s = shift_uri (uri_start s) r" "st' \<in> pause_states"
  shows "uri_step_ok buf r0 p (Next (s\<lparr>uri_end := p, rl_state := st'\<rparr>))"
  using uri_seen_step [OF assms(1-3)] assms(1,4,5)
  by (auto simp: uri_step_ok_def uri_paused_def uri_framed_def shift_uri_fields)

lemma uri_step_end:
  assumes "uri_seen buf r0 (uri_start s) p (uri_state_of (rl_state s)) r"
    and "rl_uri s = shift_uri (uri_start s) r"
  shows "uri_step_ok buf r0 p (Next (s\<lparr>uri_end := p, http_minor := v, rl_state := rl_sw_almost_done\<rparr>))"
    "uri_step_ok buf r0 p (Stop (Rl_done p (s\<lparr>uri_end := p, http_minor := v\<rparr>)))"
  using assms by (auto simp: uri_step_ok_def uri_framed_def)

lemma uri_step_bad: "uri_step_ok buf r0 p (rl_bad s)"
  by (simp add: uri_step_ok_def)

lemma rl_after_slash_ok:
  assumes "rl_state s = rl_sw_after_slash_in_uri" "p < length buf"
    and seen: "uri_seen buf r0 (uri_start s) p sw_after_slash_in_uri r" "rl_uri s = shift_uri (uri_start s) r"
  shows "uri_step_ok buf r0 p (rl_after_slash_step s p (buf ! p))"
proof -
  have le: "uri_start s \<le> p" using uri_seen_less [OF seen(1)] by simp
  note go = uri_step_inside [of buf r0 s p r] uri_step_pause [of buf r0 s p r] uri_step_end [of buf r0 s p r] uri_step_bad
  show ?thesis
    unfolding rl_after_slash_step_def
    using assms le by (auto simp: shift_uri_fields is_usual_iff intro!: go)
qed

lemma rl_check_uri_ok:
  assumes "rl_state s = rl_sw_check_uri" "p < length buf"
    and seen: "uri_seen buf r0 (uri_start s) p sw_check_uri r" "rl_uri s = shift_uri (uri_start s) r"
  shows "uri_step_ok buf r0 p (rl_check_uri_step s p (buf ! p))"
proof -
  have le: "uri_start s \<le> p" using uri_seen_less [OF seen(1)] by simp
  note go = uri_step_inside [of buf r0 s p r] uri_step_pause [of buf r0 s p r] uri_step_end [of buf r0 s p r] uri_step_bad
  show ?thesis
    unfolding rl_check_uri_step_def
    using assms le by (auto simp: shift_uri_fields is_usual_iff intro!: go)
qed

lemma rl_plain_uri_ok:
  assumes "rl_state s = rl_sw_uri" "p < length buf"
    and seen: "uri_seen buf r0 (uri_start s) p sw_uri r" "rl_uri s = shift_uri (uri_start s) r"
  shows "uri_step_ok buf r0 p (rl_plain_uri_step s p (buf ! p))"
proof -
  have le: "uri_start s \<le> p" using uri_seen_less [OF seen(1)] by simp
  note go = uri_step_inside [of buf r0 s p r] uri_step_pause [of buf r0 s p r] uri_step_end [of buf r0 s p r] uri_step_bad
  show ?thesis
    unfolding rl_plain_uri_step_def
    using assms le by (auto simp: shift_uri_fields is_usual_iff intro!: go)
qed

lemma shift_space: "u\<lparr>space_in_uri := True\<rparr> = shift_uri k r \<Longrightarrow> r\<lparr>space_in_uri := True\<rparr> = r"
proof -
  assume "u\<lparr>space_in_uri := True\<rparr> = shift_uri k r"
  then have "space_in_uri (shift_uri k r)" by (metis uri_request.select_convs(10) uri_request.surjective uri_request.update_convs(10))
  then have "space_in_uri r" by (simp add: shift_uri_def)
  then show ?thesis by (cases r) simp
qed

definition uri_done_ok :: "u_char list \<Rightarrow> uri_request \<Rightarrow> nat \<Rightarrow> rl_action \<Rightarrow> bool" where
  "uri_done_ok buf r0 p a \<longleftrightarrow>
     (case a of
        Next s' \<Rightarrow> rl_state s' \<in> {rl_sw_almost_done, rl_sw_http_H} \<and> uri_framed buf r0 (Suc p) s'
      | Stop (Rl_done q s') \<Rightarrow> q = p \<and> uri_framed buf r0 (Suc p) s'
      | Stop (Rl_invalid rc s') \<Rightarrow> rc = NGX_HTTP_PARSE_INVALID_REQUEST)"

lemma uri_framed_keep:
  "uri_framed buf r0 p s \<Longrightarrow> uri_start s' = uri_start s \<Longrightarrow> uri_end s' = uri_end s \<Longrightarrow> rl_uri s' = rl_uri s \<Longrightarrow>
   uri_framed buf r0 (Suc p) s'"
  by (auto simp: uri_framed_def)

lemma rl_paused_ok:
  assumes "uri_paused buf r0 p s" "p < length buf"
  shows "uri_step_ok buf r0 p (rl_uri_step s p (buf ! p)) \<or> uri_done_ok buf r0 p (rl_uri_step s p (buf ! p))"
proof -
  obtain r where st: "rl_state s \<in> pause_states" and framed: "uri_framed buf r0 p s"
    and seen: "uri_seen buf r0 (uri_start s) p (uri_state_of (rl_state s)) r"
    and space: "(rl_uri s)\<lparr>space_in_uri := True\<rparr> = shift_uri (uri_start s) r"
    using assms(1) by (auto simp: uri_paused_def)
  note keep = uri_framed_keep [OF framed]
  consider "buf ! p = ch_SP" | "buf ! p \<in> {ch_CR, ch_LF, ch_H}" | (on) "buf ! p \<notin> {ch_SP, ch_CR, ch_LF, ch_H}" by blast
  then show ?thesis
  proof cases
    case 1
    have "parse_uri_step (uri_state_of (rl_state s), r) (p - uri_start s) (buf ! p) =
        Next (uri_state_of (rl_state s), r\<lparr>space_in_uri := True\<rparr>)"
      using st 1 by (auto simp: is_usual_iff)
    then have "parse_uri_step (uri_state_of (rl_state s), r) (p - uri_start s) (buf ! p) =
        Next (uri_state_of (rl_state s), r)"
      by (simp only: shift_space [OF space])
    from uri_seen_step [OF seen assms(2) this] have "uri_paused buf r0 (Suc p) s"
      using st space keep [of s] by (auto simp: uri_paused_def)
    then show ?thesis using 1 st by (auto simp: rl_uri_step_def uri_step_ok_def)
  next
    case 2
    then show ?thesis
      using st by (auto simp: rl_uri_step_def uri_done_ok_def intro!: keep)
  next
    case on
    show ?thesis
    proof (cases "rl_state s = rl_sw_check_uri_http_09")
      case True
      let ?s = "s\<lparr>rl_uri := (rl_uri s)\<lparr>space_in_uri := True\<rparr>, rl_state := rl_sw_check_uri\<rparr>"
      have "uri_step_ok buf r0 p (rl_check_uri_step ?s p (buf ! p))"
        by (rule rl_check_uri_ok [of _ _ _ _ r]) (use seen space assms(2) True in simp_all)
      then show ?thesis using on True by (auto simp: rl_uri_step_def Let_def)
    next
      case False
      let ?s = "s\<lparr>rl_uri := (rl_uri s)\<lparr>space_in_uri := True\<rparr>, rl_state := rl_sw_uri\<rparr>"
      have "uri_step_ok buf r0 p (rl_plain_uri_step ?s p (buf ! p))"
        by (rule rl_plain_uri_ok [of _ _ _ _ r]) (use seen space assms(2) False st in auto)
      then show ?thesis using on False st by (auto simp: rl_uri_step_def Let_def)
    qed
  qed
qed

lemma rl_uri_step_ok:
  assumes "uri_inside buf r0 p s" "p < length buf"
  shows "uri_step_ok buf r0 p (rl_uri_step s p (buf ! p))"
proof -
  obtain r where "rl_state s \<in> uri_states" "rl_uri s = shift_uri (uri_start s) r"
    "uri_seen buf r0 (uri_start s) p (uri_state_of (rl_state s)) r"
    using assms(1) by (auto simp: uri_inside_def)
  with rl_after_slash_ok [of s p buf r0 r] rl_check_uri_ok [of s p buf r0 r] rl_plain_uri_ok [of s p buf r0 r] assms(2)
  show ?thesis by (auto simp: rl_uri_step_def)
qed

subsection \<open>The invariant of the whole machine\<close>

definition host_ok :: "u_char list \<Rightarrow> uri_request \<Rightarrow> nat \<Rightarrow> request_line \<Rightarrow> bool" where
  "host_ok buf r0 p s \<longleftrightarrow> rl_uri s = r0 \<and> schema_end s + 1 < p \<and> buf ! (schema_end s + 1) = ch_slash"

definition rl_ok :: "u_char list \<Rightarrow> uri_request \<Rightarrow> nat \<Rightarrow> request_line \<Rightarrow> bool" where
  "rl_ok buf r0 p s \<longleftrightarrow>
     (case rl_state s of
        rl_sw_start \<Rightarrow> rl_uri s = r0
      | rl_sw_method \<Rightarrow> rl_uri s = r0
      | rl_sw_spaces_before_uri \<Rightarrow> rl_uri s = r0
      | rl_sw_schema \<Rightarrow> rl_uri s = r0
      | rl_sw_schema_slash \<Rightarrow> rl_uri s = r0 \<and> p = schema_end s + 1
      | rl_sw_schema_slash_slash \<Rightarrow> rl_uri s = r0 \<and> p = schema_end s + 2 \<and> buf ! (schema_end s + 1) = ch_slash
      | rl_sw_host_start \<Rightarrow> host_ok buf r0 p s
      | rl_sw_host \<Rightarrow> host_ok buf r0 p s
      | rl_sw_host_end \<Rightarrow> host_ok buf r0 p s
      | rl_sw_host_ip_literal \<Rightarrow> host_ok buf r0 p s
      | rl_sw_port \<Rightarrow> host_ok buf r0 p s
      | rl_sw_after_slash_in_uri \<Rightarrow> uri_inside buf r0 p s
      | rl_sw_check_uri \<Rightarrow> uri_inside buf r0 p s
      | rl_sw_uri \<Rightarrow> uri_inside buf r0 p s
      | rl_sw_check_uri_http_09 \<Rightarrow> uri_paused buf r0 p s
      | rl_sw_http_09 \<Rightarrow> uri_paused buf r0 p s
      | _ \<Rightarrow> uri_framed buf r0 p s)"

abbreviation (input) plain_flags :: "uri_request \<Rightarrow> bool" where
  "plain_flags r \<equiv> uri_ext r = None \<and> args_start r = None"

lemma shift_plain: "plain_flags r \<Longrightarrow> shift_uri k r = r"
  by (cases r) (simp add: shift_uri_def)

lemma uri_inside_start:
  assumes "plain_flags r0" "p < length buf" "buf ! p = ch_slash"
    and "rl_uri s = r0" "uri_start s = p" "rl_state s = rl_sw_after_slash_in_uri"
  shows "uri_inside buf r0 (Suc p) s"
  using uri_seen_slash [OF assms(2,3), of r0] shift_plain [OF assms(1)] assms(4-6) by (auto simp: uri_inside_def)

lemma uri_framed_no_path:
  assumes "plain_flags r0" "k < length buf" "buf ! k = ch_slash" "k < p"
    and "rl_uri s = r0" "uri_start s = k" "uri_end s = Suc k"
  shows "uri_framed buf r0 (Suc p) s"
proof -
  have "uri_seen buf r0 (uri_start s) (uri_end s) sw_after_slash_in_uri r0"
    using uri_seen_slash [OF assms(2,3)] assms(6,7) by simp
  moreover have "rl_uri s = shift_uri (uri_start s) r0" using shift_plain [OF assms(1)] assms(5) by simp
  ultimately show ?thesis using assms(4,7) unfolding uri_framed_def by auto
qed

lemma rl_ok_method:
  assumes "rl_ok buf r0 p s" "rl_state s = rl_sw_start \<or> rl_state s = rl_sw_method" "rl_method_step buf s p ch = Next s'"
  shows "rl_ok buf r0 (Suc p) s'"
  using assms(2)
proof
  assume "rl_state s = rl_sw_start"
  with assms(1,3) show ?thesis
    by (auto simp: rl_ok_def rl_method_step_def Let_def split: if_split_asm)
next
  assume "rl_state s = rl_sw_method"
  with assms(1,3) show ?thesis
    by (auto simp: rl_ok_def rl_method_step_def split: if_split_asm)
qed

lemma rl_ok_schema:
  assumes "rl_ok buf r0 p s" "plain_flags r0" "p < length buf" "rl_schema_step s p (buf ! p) = Next s'"
  shows "rl_state s = rl_sw_spaces_before_uri \<Longrightarrow> rl_ok buf r0 (Suc p) s'"
    "rl_state s = rl_sw_schema \<Longrightarrow> rl_ok buf r0 (Suc p) s'"
    "rl_state s = rl_sw_schema_slash \<Longrightarrow> rl_ok buf r0 (Suc p) s'"
    "rl_state s = rl_sw_schema_slash_slash \<Longrightarrow> rl_ok buf r0 (Suc p) s'"
  using assms
  by (auto simp: rl_ok_def rl_schema_step_def host_ok_def intro!: uri_inside_start split: if_split_asm)

lemma rl_ok_no_path:
  assumes "host_ok buf r0 p s" "plain_flags r0" "p < length buf"
    and "rl_state s' = rl_sw_host_http_09" "rl_uri s' = rl_uri s"
    and "uri_start s' = schema_end s + 1" "uri_end s' = schema_end s + 2"
  shows "rl_ok buf r0 (Suc p) s'"
proof -
  have "uri_framed buf r0 (Suc p) s'"
    by (rule uri_framed_no_path [OF assms(2), of "schema_end s + 1"]) (use assms in \<open>simp_all add: host_ok_def\<close>)
  with assms(4) show ?thesis by (simp add: rl_ok_def)
qed

lemma rl_ok_path:
  assumes "host_ok buf r0 p s" "plain_flags r0" "p < length buf" "buf ! p = ch_slash"
    and "rl_state s' = rl_sw_after_slash_in_uri" "rl_uri s' = rl_uri s" "uri_start s' = p"
  shows "rl_ok buf r0 (Suc p) s'"
proof -
  have "uri_inside buf r0 (Suc p) s'"
    by (rule uri_inside_start) (use assms in \<open>simp_all add: host_ok_def\<close>)
  with assms(5) show ?thesis by (simp add: rl_ok_def)
qed

lemma rl_ok_in_host:
  assumes "host_ok buf r0 p s" "rl_state s' \<in> {rl_sw_host, rl_sw_host_end, rl_sw_host_ip_literal, rl_sw_port}"
    and "rl_uri s' = rl_uri s" "schema_end s' = schema_end s"
  shows "rl_ok buf r0 (Suc p) s'"
proof -
  have "host_ok buf r0 (Suc p) s'" using assms by (auto simp: host_ok_def)
  with assms(2) show ?thesis by (auto simp: rl_ok_def)
qed

lemma rl_ok_host_end:
  assumes "host_ok buf r0 p s" "plain_flags r0" "p < length buf" "rl_host_end_step s p (buf ! p) = Next s'"
  shows "rl_ok buf r0 (Suc p) s'"
proof -
  note go = rl_ok_no_path [OF assms(1-3)] rl_ok_path [OF assms(1-3)] rl_ok_in_host [OF assms(1)]
  show ?thesis
    using assms(4) unfolding rl_host_end_step_def Let_def by (auto split: if_split_asm intro: go)
qed

lemma rl_ok_host_char:
  assumes "host_ok buf r0 p s" "plain_flags r0" "p < length buf"
    and "rl_state s = rl_sw_host" "rl_host_char_step s p (buf ! p) = Next s'"
  shows "rl_ok buf r0 (Suc p) s'"
proof -
  have "s' = s \<or> rl_host_end_step s p (buf ! p) = Next s'"
    using assms(5) unfolding rl_host_char_step_def by (auto split: if_split_asm)
  with rl_ok_host_end [OF assms(1-3)] rl_ok_in_host [OF assms(1), of s'] assms(4) show ?thesis by auto
qed

lemma rl_ok_host:
  assumes "host_ok buf r0 p s" "plain_flags r0" "p < length buf" "rl_host_step s p (buf ! p) = Next s'"
  shows "rl_state s = rl_sw_host_start \<Longrightarrow> rl_ok buf r0 (Suc p) s'"
    "rl_state s = rl_sw_host \<Longrightarrow> rl_ok buf r0 (Suc p) s'"
    "rl_state s = rl_sw_host_end \<Longrightarrow> rl_ok buf r0 (Suc p) s'"
    "rl_state s = rl_sw_host_ip_literal \<Longrightarrow> rl_ok buf r0 (Suc p) s'"
    "rl_state s = rl_sw_port \<Longrightarrow> rl_ok buf r0 (Suc p) s'"
proof -
  note go = rl_ok_no_path [OF assms(1-3)] rl_ok_path [OF assms(1-3)] rl_ok_in_host [OF assms(1)]
  show "rl_ok buf r0 (Suc p) s'" if st: "rl_state s = rl_sw_host_start"
  proof (cases "buf ! p = ch_lbrack")
    case True
    with assms(4) st show ?thesis by (auto simp: rl_host_step_def Let_def intro: go)
  next
    case False
    with assms(4) st
    have step: "rl_host_char_step (s\<lparr>host_start := Some p, rl_state := rl_sw_host\<rparr>) p (buf ! p) = Next s'"
      by (simp add: rl_host_step_def Let_def)
    show ?thesis
      by (rule rl_ok_host_char [OF _ assms(2,3) _ step]) (use assms(1) in \<open>simp_all add: host_ok_def\<close>)
  qed
  show "rl_ok buf r0 (Suc p) s'" if st: "rl_state s = rl_sw_host"
    using rl_ok_host_char [OF assms(1-3) st] assms(4) st by (simp add: rl_host_step_def)
  show "rl_ok buf r0 (Suc p) s'" if st: "rl_state s = rl_sw_host_end"
    using rl_ok_host_end [OF assms(1-3)] assms(4) st by (simp add: rl_host_step_def)
  show "rl_ok buf r0 (Suc p) s'" if st: "rl_state s = rl_sw_host_ip_literal"
  proof -
    have "s' = s \<or> s' = s\<lparr>rl_state := rl_sw_host_end\<rparr>"
      using assms(4) st unfolding rl_host_step_def by (simp split: if_split_asm)
    with st show ?thesis by (auto intro: go)
  qed
  show "rl_ok buf r0 (Suc p) s'" if st: "rl_state s = rl_sw_port"
    using assms(4) st unfolding rl_host_step_def by (auto split: if_split_asm intro: go)
qed

lemma rl_ok_version:
  assumes "uri_framed buf r0 p s" "rl_version_step s p ch = Next s'"
    and "rl_state s \<in> {rl_sw_http_H, rl_sw_http_HT, rl_sw_http_HTT, rl_sw_http_HTTP, rl_sw_first_major_digit,
      rl_sw_major_digit, rl_sw_first_minor_digit, rl_sw_minor_digit, rl_sw_spaces_after_digit, rl_sw_almost_done}"
  shows "rl_ok buf r0 (Suc p) s'"
proof -
  have framed: "uri_framed buf r0 (Suc p) s'" if "uri_start s' = uri_start s" "uri_end s' = uri_end s" "rl_uri s' = rl_uri s"
    by (rule uri_framed_keep [OF assms(1) that])
  show ?thesis
    using assms(2,3) framed
    by (cases "rl_state s") (auto simp: rl_ok_def rl_version_step_def Let_def split: if_split_asm)
qed

lemma rl_ok_step:
  assumes "rl_ok buf r0 p s" "plain_flags r0" "p < length buf" "request_line_step buf s p (buf ! p) = Next s'"
  shows "rl_ok buf r0 (Suc p) s'"
proof (cases "rl_state s \<in> {rl_sw_after_slash_in_uri, rl_sw_check_uri, rl_sw_uri}")
  case True
  then have "uri_inside buf r0 p s" "rl_uri_step s p (buf ! p) = Next s'"
    using assms(1,4) by (auto simp: rl_ok_def request_line_step_def)
  with rl_uri_step_ok [OF _ assms(3)] have "uri_step_ok buf r0 p (Next s')" by metis
  then show ?thesis by (auto simp: uri_step_ok_def rl_ok_def uri_inside_def uri_paused_def)
next
  case no_uri: False
  show ?thesis
  proof (cases "rl_state s \<in> {rl_sw_check_uri_http_09, rl_sw_http_09}")
    case True
    then have "uri_paused buf r0 p s" "rl_uri_step s p (buf ! p) = Next s'"
      using assms(1,4) by (auto simp: rl_ok_def request_line_step_def)
    with rl_paused_ok [OF _ assms(3)] have "uri_step_ok buf r0 p (Next s') \<or> uri_done_ok buf r0 p (Next s')" by metis
    then show ?thesis by (auto simp: uri_step_ok_def uri_done_ok_def rl_ok_def uri_inside_def uri_paused_def)
  next
    case False
    have host_ok: "host_ok buf r0 p s"
      if "rl_state s \<in> {rl_sw_host_start, rl_sw_host, rl_sw_host_end, rl_sw_host_ip_literal, rl_sw_port}"
      using assms(1) that by (auto simp: rl_ok_def)
    have framed: "uri_framed buf r0 p s"
      if "rl_state s \<in> {rl_sw_http_H, rl_sw_http_HT, rl_sw_http_HTT, rl_sw_http_HTTP, rl_sw_first_major_digit,
        rl_sw_major_digit, rl_sw_first_minor_digit, rl_sw_minor_digit, rl_sw_spaces_after_digit, rl_sw_almost_done}"
      using assms(1) that by (auto simp: rl_ok_def)
    note rules = rl_ok_host [OF host_ok assms(2,3)] rl_ok_schema [OF assms(1-3)] rl_ok_method [OF assms(1)]
      rl_ok_version [OF framed]
    show ?thesis
    proof (cases "rl_state s")
      case rl_sw_host_http_09
      then have "uri_framed buf r0 p s" using assms(1) by (simp add: rl_ok_def)
      with assms(4) rl_sw_host_http_09 show ?thesis
        by (auto simp: request_line_step_def rl_host_step_def rl_ok_def split: if_split_asm intro!: uri_framed_keep [of buf r0 p s])
    qed (use assms(4) no_uri False in \<open>simp_all add: request_line_step_def rules\<close>)
  qed
qed

lemma rl_ok_done:
  assumes "rl_ok buf r0 p s" "plain_flags r0" "p < length buf" "request_line_step buf s p (buf ! p) = Stop (Rl_done q s')"
  shows "q = p \<and> uri_framed buf r0 (Suc p) s'"
proof (cases "rl_state s \<in> {rl_sw_after_slash_in_uri, rl_sw_check_uri, rl_sw_uri, rl_sw_check_uri_http_09, rl_sw_http_09}")
  case True
  then have "uri_inside buf r0 p s \<or> uri_paused buf r0 p s" "rl_uri_step s p (buf ! p) = Stop (Rl_done q s')"
    using assms(1,4) by (auto simp: rl_ok_def request_line_step_def)
  with rl_uri_step_ok [OF _ assms(3), of r0 s] rl_paused_ok [OF _ assms(3), of r0 s] show ?thesis
    by (auto simp: uri_step_ok_def uri_done_ok_def)
next
  case False
  have framed: "uri_framed buf r0 (Suc p) s'"
    if "uri_framed buf r0 p s" "uri_start s' = uri_start s" "uri_end s' = uri_end s" "rl_uri s' = rl_uri s"
    by (rule uri_framed_keep [OF that])
  show ?thesis
    using assms(1,4) False framed
    by (cases "rl_state s")
      (auto simp: rl_ok_def request_line_step_def rl_method_step_def rl_schema_step_def rl_host_step_def
        rl_host_char_step_def rl_host_end_step_def rl_version_step_def Let_def split: if_split_asm)
qed

text \<open>An error is one of two codes.\<close>

lemma request_line_error:
  assumes "request_line_step buf s q ch = Stop (Rl_invalid rc s')"
  shows "rc = NGX_HTTP_PARSE_INVALID_METHOD \<or> rc = NGX_HTTP_PARSE_INVALID_REQUEST"
  using assms
  by (cases "rl_state s")
    (auto simp: request_line_step_def rl_method_step_def rl_schema_step_def rl_host_step_def rl_host_char_step_def
      rl_host_end_step_def rl_uri_step_def rl_after_slash_step_def rl_check_uri_step_def rl_plain_uri_step_def
      rl_version_step_def Let_def split: if_split_asm)

lemma request_line_scan_error:
  assumes "rl_inv pos r" "scan (request_line_step buf) pos xs r = Inr (Rl_invalid rc s)"
  shows "rc = NGX_HTTP_PARSE_INVALID_METHOD \<or> rc = NGX_HTTP_PARSE_INVALID_REQUEST"
  using request_line.scan_stop [OF assms] request_line_error by blast

lemma request_line_again:
  assumes "rl_inv pos r" "ngx_http_parse_request_line buf pos r = (NGX_AGAIN, p, r')"
  shows "scan (request_line_step buf) pos (drop pos buf) r = Inl r'"
  using assms(2) request_line_scan_error [OF assms(1)]
  by (fastforce simp: ngx_http_parse_request_line_def Let_def split: sum.splits rl_exit.splits if_split_asm)

lemma request_line_frames:
  assumes "ngx_http_parse_request_line buf pos r = (rc, pos', r')" "rc = NGX_OK"
    and "pos \<le> length buf" "rl_state r = rl_sw_start" "plain_flags (rl_uri r)"
  shows "uri_framed buf (rl_uri r) pos' r' \<and> pos' \<le> length buf"
proof -
  let ?scan = "scan (request_line_step buf) pos (drop pos buf) r"
  obtain p s where fin: "?scan = Inr (Rl_done p s)" "pos' = Suc p" "rl_uri r' = rl_uri s"
    "uri_start r' = uri_start s" "uri_end r' = uri_end s"
  proof (cases ?scan)
    case (Inl s)
    with assms(1,2) show thesis by (simp add: ngx_http_parse_request_line_def)
  next
    case (Inr x)
    have "rc \<noteq> NGX_OK" if "x = Rl_invalid rc s" for s
      using request_line_scan_error [of pos r buf "drop pos buf" rc s] Inr that assms(4) by (auto simp: rl_inv_def)
    with Inr assms(1,2) show thesis
      by (cases x) (auto simp: ngx_http_parse_request_line_def Let_def intro!: that split: if_split_asm)
  qed
  have "rl_ok buf (rl_uri r) pos r" using assms(4) by (simp add: rl_ok_def)
  from scan_invariant [of "rl_ok buf (rl_uri r)" buf "request_line_step buf" pos r, OF _ this assms(3)]
  obtain q s' where q: "rl_ok buf (rl_uri r) q s'" "q < length buf"
    "request_line_step buf s' q (buf ! q) = Stop (Rl_done p s)"
    using fin(1) rl_ok_step assms(5) by fastforce
  from rl_ok_done [OF q(1) assms(5) q(2,3)] have "p = q" "uri_framed buf (rl_uri r) (Suc q) s" by simp_all
  with fin(2-5) q(2) show ?thesis by (simp add: uri_framed_def)
qed

lemma uri_framed_parse:
  assumes "uri_framed buf r0 p s" "p \<le> length buf"
  shows "\<exists>r1. ngx_http_parse_uri (byte_range buf (uri_start s) (uri_end s)) r0 = (NGX_OK, Some r1) \<and>
    rl_uri s = shift_uri (uri_start s) r1 \<and> uri_start s < uri_end s \<and> uri_end s < p"
  using assms by (auto simp: uri_framed_def uri_seen_def ngx_http_parse_uri_def)

subsection \<open>Properties\<close>

text \<open>The request as \<open>ngx_http_create_request\<close> leaves it.\<close>

definition fresh_request_line :: request_line where
  "fresh_request_line = \<lparr>rl_state = rl_sw_start, request_start = 0, method_end = 0, rl_method = NGX_HTTP_UNKNOWN,
     schema_start = None, schema_end = 0, host_start = None, host_end = 0, port_end = 0, uri_start = 0, uri_end = 0,
     rl_uri = blank_request, http_protocol = 0, http_major = 0, http_minor = 0, request_end = None, http_version = 1000\<rparr>"

text \<open>C26: The request line may arrive in pieces: when the parser has asked for more after the
  first \<open>n\<close> bytes, the next call with more bytes in the buffer gives the return code that one
  call on all of them gives, and for NGX_OK, NGX_AGAIN and a bad HTTP/0.9 method the same
  position and request.\<close>

theorem request_line_restart:
  assumes "rl_inv pos r" "pos \<le> n" "n \<le> length buf"
    and "ngx_http_parse_request_line (take n buf) pos r = (NGX_AGAIN, p1, r1)"
  shows "\<exists>rc p r' p' r''. ngx_http_parse_request_line buf n r1 = (rc, p, r') \<and>
    ngx_http_parse_request_line buf pos r = (rc, p', r'') \<and>
    (rc \<in> {NGX_OK, NGX_AGAIN, NGX_HTTP_PARSE_INVALID_09_METHOD} \<longrightarrow> p = p' \<and> r' = r'')"
proof -
  have first: "scan (request_line_step (take n buf)) pos (drop pos (take n buf)) r = Inl r1"
    by (rule request_line_again [OF assms(1,4)])
  have "scan (request_line_step buf) pos (drop pos buf) r = scan (request_line_step buf) n (drop n buf) r1"
    by (rule request_line.scan_restart [OF assms(1-3) first])
  moreover have "rl_inv (pos + length (drop pos (take n buf))) r1"
    by (rule request_line.scan_inv [OF assms(1) first])
  then have "scan (request_line_step buf) n (drop n buf) r1 = Inr (Rl_invalid rc s) \<Longrightarrow>
      rc = NGX_HTTP_PARSE_INVALID_METHOD \<or> rc = NGX_HTTP_PARSE_INVALID_REQUEST" for rc s
    using request_line_scan_error [of n r1] assms(2,3) by simp
  ultimately show ?thesis
    unfolding ngx_http_parse_request_line_def
    by (cases "scan (request_line_step buf) n (drop n buf) r1")
      (fastforce simp: Let_def split: rl_exit.splits)+
qed

lemma request_line_restart_witness:
  "\<exists>rc p r' p' r''. ngx_http_parse_request_line (bytes ''GET /'' @ [ch_LF]) 5
       (fresh_request_line\<lparr>rl_state := rl_sw_after_slash_in_uri, method_end := 2, rl_method := NGX_HTTP_GET,
          uri_start := 4\<rparr>) = (rc, p, r') \<and>
     ngx_http_parse_request_line (bytes ''GET /'' @ [ch_LF]) 0 fresh_request_line = (rc, p', r'')"
proof -
  have "ngx_http_parse_request_line (take 5 (bytes ''GET /'' @ [ch_LF])) 0 fresh_request_line = (NGX_AGAIN, 5,
       fresh_request_line\<lparr>rl_state := rl_sw_after_slash_in_uri, method_end := 2, rl_method := NGX_HTTP_GET,
          uri_start := 4\<rparr>)"
    by (simp add: ngx_http_parse_request_line_def request_line_step_def rl_method_step_def rl_schema_step_def
        rl_request_method_def ngx_strNcmp_def byte_range_def fresh_request_line_def Let_def)
  from request_line_restart [OF _ _ _ this] show ?thesis
    by (fastforce simp: rl_inv_def fresh_request_line_def)
qed

text \<open>Whenever the parser accepts a request line, the URI it frames is not empty and stands
  before the end of the line, the separate state machine \<open>ngx_http_parse_uri\<close> accepts it, and
  the flags that decide about decoding (a dot segment or double slash, an escape, a plus, a
  space, the place of the arguments and of the extension) are those that machine computes.\<close>

theorem request_line_uri_flags:
  assumes "ngx_http_parse_request_line buf pos r = (NGX_OK, pos', r')"
    and "pos \<le> length buf" "rl_state r = rl_sw_start" "uri_ext (rl_uri r) = None" "args_start (rl_uri r) = None"
  shows "\<exists>r1. ngx_http_parse_uri (byte_range buf (uri_start r') (uri_end r')) (rl_uri r) = (NGX_OK, Some r1) \<and>
    rl_uri r' = shift_uri (uri_start r') r1 \<and>
    uri_start r' < uri_end r' \<and> uri_end r' < pos' \<and> pos' \<le> length buf"
  using request_line_frames [OF assms(1) refl assms(2,3)] uri_framed_parse [of buf "rl_uri r" pos' r'] assms(4,5)
  by blast

lemma request_line_uri_flags_witness:
  "\<exists>r1. ngx_http_parse_uri (bytes ''/'') blank_request = (NGX_OK, Some r1)"
proof -
  let ?r = "fresh_request_line\<lparr>method_end := 2, rl_method := NGX_HTTP_GET, uri_start := 4, uri_end := 5,
    http_minor := 9, request_end := Some 5, http_version := 9\<rparr>"
  have "ngx_http_parse_request_line (bytes ''GET /'' @ [ch_LF]) 0 fresh_request_line = (NGX_OK, 6, ?r)"
    by (simp add: ngx_http_parse_request_line_def request_line_step_def rl_method_step_def rl_schema_step_def
        rl_uri_step_def rl_after_slash_step_def is_usual_iff
        rl_request_method_def ngx_strNcmp_def byte_range_def fresh_request_line_def Let_def)
  from request_line_uri_flags [OF this] show ?thesis
    by (auto simp: fresh_request_line_def blank_request_def byte_range_def)
qed

end
