(* ===== verification/Http_Header.thy ===== *)
theory Http_Header
  imports Prelude
begin

section \<open>Header lines: \<open>ngx_http_parse_header_line\<close>\<close>

text \<open>
  The incremental parser of one header line (\<open>src/http/ngx_http_parse.c\<close>), used for
  requests and for the responses of upstream servers, with the part of
  \<open>ngx_http_process_request_headers\<close> (\<open>src/http/ngx_http_request.c\<close>) that makes a header of
  what it found. The request's fields are a record; pointers into the header buffer are
  offsets. The local copies of \<open>r->state\<close>, \<open>r->header_hash\<close> and \<open>r->lowcase_index\<close> are the
  first fields of the loop's state.
\<close>

abbreviation (input) NGX_HTTP_PARSE_HEADER_DONE :: int where "NGX_HTTP_PARSE_HEADER_DONE \<equiv> 1"
abbreviation (input) NGX_HTTP_PARSE_INVALID_HEADER :: int where "NGX_HTTP_PARSE_INVALID_HEADER \<equiv> 13"
abbreviation (input) NGX_HTTP_LC_HEADER_LEN :: nat where "NGX_HTTP_LC_HEADER_LEN \<equiv> 32"

subsection \<open>The table \<open>lowcase\<close>, hashing and lowering\<close>

definition lowcase :: "u_char list" where
  "lowcase = replicate 32 0
     @ replicate 13 0 @ bytes ''-'' @ replicate 2 0 @ bytes ''0123456789'' @ replicate 6 0
     @ replicate 1 0 @ bytes ''abcdefghijklmnopqrstuvwxyz'' @ replicate 5 0
     @ replicate 1 0 @ bytes ''abcdefghijklmnopqrstuvwxyz'' @ replicate 5 0
     @ replicate 32 0 @ replicate 32 0 @ replicate 32 0 @ replicate 32 0"

definition ngx_hash :: "64 word \<Rightarrow> u_char \<Rightarrow> 64 word" where
  "ngx_hash key c = key * 31 + ucast c"

definition ngx_hash_key :: "u_char list \<Rightarrow> 64 word" where
  "ngx_hash_key data = foldl ngx_hash 0 data"

definition ngx_tolower :: "u_char \<Rightarrow> u_char" where
  "ngx_tolower c = (if c \<ge> ch_A \<and> c \<le> ch_Z then c OR 0x20 else c)"

definition ngx_strlow :: "u_char list \<Rightarrow> u_char list" where
  "ngx_strlow src = map ngx_tolower src"

subsection \<open>State\<close>

datatype hl_state = hl_sw_start | hl_sw_name | hl_sw_space_before_value | hl_sw_value
  | hl_sw_space_after_value | hl_sw_ignore_line | hl_sw_almost_done | hl_sw_header_almost_done

record header_request =
  hr_state :: hl_state
  header_hash :: "64 word"
  lowcase_index :: nat
  lowcase_header :: "u_char list"
  header_name_start :: nat
  header_name_end :: nat
  header_start :: nat
  header_end :: nat
  invalid_header :: bool

record header_line =
  hl_state :: hl_state
  hl_hash :: "64 word"
  hl_i :: nat
  hl_r :: header_request

datatype hl_exit = Hl_done nat header_line | Hl_header_done nat header_line
  | Hl_invalid header_line | Hl_fault

abbreviation (input) hl_set :: "(header_request \<Rightarrow> header_request) \<Rightarrow> header_line \<Rightarrow> header_line" where
  "hl_set f s \<equiv> s\<lparr>hl_r := f (hl_r s)\<rparr>"

subsection \<open>The byte loop\<close>

text \<open>\<open>r->lowcase_header[k] = c\<close>, an array of 32 bytes\<close>

definition hl_store :: "nat \<Rightarrow> u_char \<Rightarrow> header_line \<Rightarrow> header_line option" where
  "hl_store k c s =
     (if k < length (lowcase_header (hl_r s))
      then Some (s\<lparr>hl_r := (hl_r s)\<lparr>lowcase_header := (lowcase_header (hl_r s))[k := c]\<rparr>\<rparr>)
      else None)"

definition hl_first :: "u_char \<Rightarrow> header_line \<Rightarrow> (header_line, hl_exit) action" where
  "hl_first c s =
     (case hl_store 0 c s of
        None \<Rightarrow> Stop Hl_fault
      | Some s \<Rightarrow> Next (s\<lparr>hl_hash := ngx_hash 0 c, hl_i := 1\<rparr>))"

definition hl_more :: "u_char \<Rightarrow> header_line \<Rightarrow> (header_line, hl_exit) action" where
  "hl_more c s =
     (case hl_store (hl_i s) c s of
        None \<Rightarrow> Stop Hl_fault
      | Some s \<Rightarrow> Next (s\<lparr>hl_hash := ngx_hash (hl_hash s) c,
                          hl_i := (hl_i s + 1) AND (NGX_HTTP_LC_HEADER_LEN - 1)\<rparr>))"

definition hl_start :: "bool \<Rightarrow> header_line \<Rightarrow> nat \<Rightarrow> u_char \<Rightarrow> (header_line, hl_exit) action" where
  "hl_start allow_underscores s0 p ch =
     (let s = hl_set (\<lambda>r. r\<lparr>header_name_start := p, invalid_header := False\<rparr>) s0 in
      if ch = ch_CR then Next (hl_set (\<lambda>r. r\<lparr>header_end := p\<rparr>) (s\<lparr>hl_state := hl_sw_header_almost_done\<rparr>))
      else if ch = ch_LF then Stop (Hl_header_done p (hl_set (\<lambda>r. r\<lparr>header_end := p\<rparr>) s))
      else
        (let s = s\<lparr>hl_state := hl_sw_name\<rparr>; c = lowcase ! unat ch in
         if c \<noteq> 0 then hl_first c s
         else if ch = ch_under then
           (if allow_underscores then hl_first ch s
            else Next (hl_set (\<lambda>r. r\<lparr>invalid_header := True\<rparr>) s))
         else if ch = ch_NUL then Stop (Hl_invalid s)
         else Next (hl_set (\<lambda>r. r\<lparr>invalid_header := True\<rparr>) s)))"

text \<open>
  \<open>upstream\<close> is whether \<open>r->upstream\<close> is set; \<open>ngx_strncmp\<close> with four bytes reads at most
  up to \<open>p\<close>.
\<close>

definition hl_name ::
  "u_char list \<Rightarrow> bool \<Rightarrow> bool \<Rightarrow> header_line \<Rightarrow> nat \<Rightarrow> u_char \<Rightarrow> (header_line, hl_exit) action"
where
  "hl_name buf upstream allow_underscores s p ch =
     (let c = lowcase ! unat ch in
      if c \<noteq> 0 then hl_more c s
      else if ch = ch_under then
        (if allow_underscores then hl_more ch s
         else Next (hl_set (\<lambda>r. r\<lparr>invalid_header := True\<rparr>) s))
      else if ch = ch_colon then
        Next (hl_set (\<lambda>r. r\<lparr>header_name_end := p\<rparr>) (s\<lparr>hl_state := hl_sw_space_before_value\<rparr>))
      else if ch = ch_CR then
        Next (hl_set (\<lambda>r. r\<lparr>header_name_end := p, header_start := p, header_end := p\<rparr>)
          (s\<lparr>hl_state := hl_sw_almost_done\<rparr>))
      else if ch = ch_LF then
        Stop (Hl_done p (hl_set (\<lambda>r. r\<lparr>header_name_end := p, header_start := p, header_end := p\<rparr>) s))
      else if ch = ch_slash \<and> upstream \<and> p - header_name_start (hl_r s) = 4 \<and>
          take 4 (drop (header_name_start (hl_r s)) buf) = bytes ''HTTP'' then
        Next (s\<lparr>hl_state := hl_sw_ignore_line\<rparr>)
      else if ch = ch_NUL then Stop (Hl_invalid s)
      else Next (hl_set (\<lambda>r. r\<lparr>invalid_header := True\<rparr>) s))"

definition hl_value :: "header_line \<Rightarrow> nat \<Rightarrow> u_char \<Rightarrow> (header_line, hl_exit) action" where
  "hl_value s p ch =
     (case hl_state s of
        hl_sw_space_before_value \<Rightarrow>
          if ch = ch_SP then Next s
          else if ch = ch_CR then
            Next (hl_set (\<lambda>r. r\<lparr>header_start := p, header_end := p\<rparr>) (s\<lparr>hl_state := hl_sw_almost_done\<rparr>))
          else if ch = ch_LF then Stop (Hl_done p (hl_set (\<lambda>r. r\<lparr>header_start := p, header_end := p\<rparr>) s))
          else if ch = ch_NUL then Stop (Hl_invalid s)
          else Next (hl_set (\<lambda>r. r\<lparr>header_start := p\<rparr>) (s\<lparr>hl_state := hl_sw_value\<rparr>))
      | hl_sw_value \<Rightarrow>
          if ch = ch_SP then
            Next (hl_set (\<lambda>r. r\<lparr>header_end := p\<rparr>) (s\<lparr>hl_state := hl_sw_space_after_value\<rparr>))
          else if ch = ch_CR then
            Next (hl_set (\<lambda>r. r\<lparr>header_end := p\<rparr>) (s\<lparr>hl_state := hl_sw_almost_done\<rparr>))
          else if ch = ch_LF then Stop (Hl_done p (hl_set (\<lambda>r. r\<lparr>header_end := p\<rparr>) s))
          else if ch = ch_NUL then Stop (Hl_invalid s)
          else Next s
      | _ \<Rightarrow>
          if ch = ch_SP then Next s
          else if ch = ch_CR then Next (s\<lparr>hl_state := hl_sw_almost_done\<rparr>)
          else if ch = ch_LF then Stop (Hl_done p s)
          else if ch = ch_NUL then Stop (Hl_invalid s)
          else Next (s\<lparr>hl_state := hl_sw_value\<rparr>))"

definition header_line_step ::
  "bool \<Rightarrow> bool \<Rightarrow> u_char list \<Rightarrow> header_line \<Rightarrow> nat \<Rightarrow> u_char \<Rightarrow> (header_line, hl_exit) action"
where
  "header_line_step upstream allow_underscores buf s p ch =
     (case hl_state s of
        hl_sw_start \<Rightarrow> hl_start allow_underscores s p ch
      | hl_sw_name \<Rightarrow> hl_name buf upstream allow_underscores s p ch
      | hl_sw_space_before_value \<Rightarrow> hl_value s p ch
      | hl_sw_value \<Rightarrow> hl_value s p ch
      | hl_sw_space_after_value \<Rightarrow> hl_value s p ch
      | hl_sw_ignore_line \<Rightarrow>
          if ch = ch_LF then Next (s\<lparr>hl_state := hl_sw_start\<rparr>) else Next s
      | hl_sw_almost_done \<Rightarrow>
          if ch = ch_LF then Stop (Hl_done p s)
          else if ch = ch_CR then Next s
          else Stop (Hl_invalid s)
      | hl_sw_header_almost_done \<Rightarrow>
          if ch = ch_LF then Stop (Hl_header_done p s) else Stop (Hl_invalid s))"

subsection \<open>The function\<close>

text \<open>The result is the return code, \<open>b->pos\<close> and the request; None is a store outside of \<open>lowcase_header\<close>.\<close>

definition ngx_http_parse_header_line ::
  "bool \<Rightarrow> bool \<Rightarrow> u_char list \<Rightarrow> nat \<Rightarrow> header_request \<Rightarrow> (int \<times> nat \<times> header_request) option"
where
  "ngx_http_parse_header_line upstream allow_underscores buf pos r =
     (case scan (header_line_step upstream allow_underscores buf) pos (drop pos buf)
        \<lparr>hl_state = hr_state r, hl_hash = header_hash r, hl_i = lowcase_index r, hl_r = r\<rparr> of
        Inl s \<Rightarrow> Some (NGX_AGAIN, length buf,
          (hl_r s)\<lparr>hr_state := hl_state s, header_hash := hl_hash s, lowcase_index := hl_i s\<rparr>)
      | Inr (Hl_done p s) \<Rightarrow> Some (NGX_OK, p + 1,
          (hl_r s)\<lparr>hr_state := hl_sw_start, header_hash := hl_hash s, lowcase_index := hl_i s\<rparr>)
      | Inr (Hl_header_done p s) \<Rightarrow> Some (NGX_HTTP_PARSE_HEADER_DONE, p + 1, (hl_r s)\<lparr>hr_state := hl_sw_start\<rparr>)
      | Inr (Hl_invalid s) \<Rightarrow> Some (NGX_HTTP_PARSE_INVALID_HEADER, pos, hl_r s)
      | Inr Hl_fault \<Rightarrow> None)"

subsection \<open>From the line to the header\<close>

record ngx_table_elt =
  te_hash :: "64 word"
  te_key :: "u_char list"
  te_value :: "u_char list"
  te_lowcase_key :: "u_char list"

text \<open>
  What \<open>ngx_http_process_request_headers\<close> pushes on the list of headers after NGX_OK; None
  when an invalid header is ignored.
\<close>

definition process_header_line :: "bool \<Rightarrow> u_char list \<Rightarrow> header_request \<Rightarrow> ngx_table_elt option" where
  "process_header_line ignore_invalid_headers buf r =
     (if invalid_header r \<and> ignore_invalid_headers then None
      else
        (let key = byte_range buf (header_name_start r) (header_name_end r) in
         Some \<lparr>te_hash = header_hash r, te_key = key,
               te_value = byte_range buf (header_start r) (header_end r),
               te_lowcase_key = (if length key = lowcase_index r then take (length key) (lowcase_header r)
                                 else ngx_strlow key)\<rparr>))"

subsection \<open>What the table says\<close>

lemma letters: "i < 26 \<Longrightarrow> bytes ''abcdefghijklmnopqrstuvwxyz'' ! i = word_of_nat (97 + i)"
  by (auto simp: less_Suc_eq numeral_eq_Suc)
lemma digits: "i < 10 \<Longrightarrow> bytes ''0123456789'' ! i = word_of_nat (48 + i)"
  by (auto simp: less_Suc_eq numeral_eq_Suc)

definition lowcase_nat :: "nat \<Rightarrow> nat" where
  "lowcase_nat u = (if u = 45 \<or> 48 \<le> u \<and> u \<le> 57 \<or> 97 \<le> u \<and> u \<le> 122 then u
     else if 65 \<le> u \<and> u \<le> 90 then u + 32 else 0)"

abbreviation (input) low :: "nat \<Rightarrow> u_char" where "low u \<equiv> word_of_nat (lowcase_nat u)"

lemma low_zeros:
  "(\<And>u. a \<le> u \<Longrightarrow> u < b \<Longrightarrow> lowcase_nat u = 0) \<Longrightarrow> replicate (b - a) 0 = map low [a..<b]"
  by (rule nth_equalityI) simp_all

lemma low_run:
  "length xs = b - a \<Longrightarrow> (\<And>i. i < b - a \<Longrightarrow> xs ! i = low (a + i)) \<Longrightarrow> xs = map low [a..<b]"
  by (rule nth_equalityI) simp_all

lemma upt_join: "a \<le> b \<Longrightarrow> b \<le> c \<Longrightarrow> map low [a..<b] @ map low [b..<c] = map low [a..<c]"
  using upt_add_eq_append [of a b "c - b"] by (simp flip: map_append)

lemma lowcase_map: "lowcase = map low [0..<256]"
proof -
  have z: "replicate 32 0 = map low [0..<32]" "replicate 13 0 = map low [32..<45]"
    "replicate 2 0 = map low [46..<48]" "replicate 6 0 = map low [58..<64]" "replicate 1 0 = map low [64..<65]"
    "replicate 5 0 = map low [91..<96]" "replicate 1 0 = map low [96..<97]" "replicate 5 0 = map low [123..<128]"
    "replicate 32 0 = map low [128..<160]" "replicate 32 0 = map low [160..<192]"
    "replicate 32 0 = map low [192..<224]" "replicate 32 0 = map low [224..<256]"
    using low_zeros [of 0 32] low_zeros [of 32 45] low_zeros [of 46 48] low_zeros [of 58 64] low_zeros [of 64 65]
      low_zeros [of 91 96] low_zeros [of 96 97] low_zeros [of 123 128] low_zeros [of 128 160] low_zeros [of 160 192]
      low_zeros [of 192 224] low_zeros [of 224 256]
    by (simp_all add: lowcase_nat_def)
  have r: "bytes ''-'' = map low [45..<46]" "bytes ''0123456789'' = map low [48..<58]"
     "bytes ''abcdefghijklmnopqrstuvwxyz'' = map low [65..<91]"
     "bytes ''abcdefghijklmnopqrstuvwxyz'' = map low [97..<123]"
    by (rule low_run, simp, (simp only: letters digits lowcase_nat_def, simp add: lowcase_nat_def less_Suc_eq)?)+
  have "lowcase = map low [0..<32] @ map low [32..<45] @ map low [45..<46] @ map low [46..<48] @ map low [48..<58] @
   map low [58..<64] @ map low [64..<65] @ map low [65..<91] @ map low [91..<96] @ map low [96..<97] @ map low [97..<123]
   @ map low [123..<128] @ map low [128..<160] @ map low [160..<192] @ map low [192..<224] @ map low [224..<256]"
    unfolding lowcase_def
    by (intro arg_cong2 [of _ _ _ _ "(@)"]; rule z r)
  then show ?thesis by (simp only: upt_join)
qed
lemma lowcase_nth: "lowcase ! unat (ch::u_char) = low (unat ch)"
  using unat_u_char_less [of ch] unfolding lowcase_map by (subst nth_map) simp_all

lemma lowcase_zero: "lowcase ! unat (ch::u_char) = 0 \<longleftrightarrow> lowcase_nat (unat ch) = 0"
proof -
  have "lowcase_nat (unat ch) < 256"
    using unat_u_char_less [of ch] by (simp add: lowcase_nat_def)
  then show ?thesis by (simp add: lowcase_nth word_unat_eq_iff unsigned_of_nat take_bit_eq_mod)
qed

lemma lowcase_tolower:
  assumes "lowcase ! unat ch \<noteq> 0"
  shows "lowcase ! unat ch = ngx_tolower ch"
proof -
  let ?u = "unat ch"
  consider (same) "lowcase_nat ?u = ?u" "\<not> (65 \<le> ?u \<and> ?u \<le> 90)" | (upper) "65 \<le> ?u" "?u \<le> 90" "lowcase_nat ?u = ?u + 32"
    using assms unfolding lowcase_zero by (auto simp: lowcase_nat_def split: if_splits)
  then show ?thesis
  proof cases
    case same
    then show ?thesis by (auto simp: lowcase_nth ngx_tolower_def unat_u_char_le_iff)
  next
    case upper
    then have "?u div 32 = 2" by linarith
    then have "unat (ch OR 0x20) = ?u + 32" by (simp add: unat_or_0x20)
    with upper have "ch OR 0x20 = word_of_nat (?u + 32)"
      by (simp add: word_unat_eq_iff unsigned_of_nat take_bit_eq_mod del: of_nat_add)
    with upper show ?thesis by (simp add: lowcase_nth ngx_tolower_def unat_u_char_le_iff)
  qed
qed

lemma lowcase_special:
  "lowcase ! unat ch_colon = 0" "lowcase ! unat ch_under = 0" "lowcase ! unat ch_CR = 0" "lowcase ! unat ch_LF = 0"
  "lowcase ! unat ch_NUL = 0" "lowcase ! unat ch_SP = 0"
  by (simp_all only: lowcase_zero) (simp_all add: lowcase_nat_def)

subsection \<open>Invariant and restart\<close>

lemma and_31: "(n::nat) AND 31 = n mod 32"
proof -
  have "n AND 31 = take_bit 5 n" by (simp add: take_bit_eq_mask mask_eq_exp_minus_1)
  then show ?thesis by (simp add: take_bit_eq_mod)
qed

text \<open>
  The index into the array of 32 bytes stays inside it, and the positions found so far are in
  order and behind \<open>p\<close>.
\<close>

fun hl_order :: "hl_state \<Rightarrow> nat \<Rightarrow> header_request \<Rightarrow> bool" where
  "hl_order hl_sw_name p r \<longleftrightarrow> header_name_start r < p"
| "hl_order hl_sw_space_before_value p r \<longleftrightarrow>
     header_name_start r < header_name_end r \<and> header_name_end r < p"
| "hl_order hl_sw_value p r \<longleftrightarrow>
     header_name_start r < header_name_end r \<and> header_name_end r \<le> header_start r \<and> header_start r < p"
| "hl_order hl_sw_space_after_value p r \<longleftrightarrow>
     header_name_start r < header_name_end r \<and> header_name_end r \<le> header_start r \<and>
     header_start r \<le> header_end r \<and> header_end r < p"
| "hl_order hl_sw_almost_done p r \<longleftrightarrow>
     header_name_start r < header_name_end r \<and> header_name_end r \<le> header_start r \<and>
     header_start r \<le> header_end r \<and> header_end r < p"
| "hl_order _ p r \<longleftrightarrow> True"

definition hl_array :: "header_line \<Rightarrow> bool" where
  "hl_array s \<longleftrightarrow> hl_i s < 32 \<and> length (lowcase_header (hl_r s)) = 32"

definition hl_inv :: "nat \<Rightarrow> header_line \<Rightarrow> bool" where
  "hl_inv p s \<longleftrightarrow> hl_array s \<and> hl_order (hl_state s) p (hl_r s)"

lemma hl_array_simps [simp]:
  "hl_array (s\<lparr>hl_state := st\<rparr>) = hl_array s"
  "lowcase_header r = lowcase_header (hl_r s) \<Longrightarrow> hl_array (s\<lparr>hl_r := r\<rparr>) = hl_array s"
  by (simp_all add: hl_array_def)

lemma hl_first_ok:
  "hl_array s \<Longrightarrow> hl_first c s = Next (s\<lparr>hl_r := (hl_r s)\<lparr>lowcase_header := (lowcase_header (hl_r s))[0 := c]\<rparr>,
     hl_hash := ngx_hash 0 c, hl_i := 1\<rparr>)"
  by (simp add: hl_first_def hl_store_def hl_array_def)

lemma hl_more_ok:
  "hl_array s \<Longrightarrow> hl_more c s = Next (s\<lparr>hl_r := (hl_r s)\<lparr>lowcase_header := (lowcase_header (hl_r s))[hl_i s := c]\<rparr>,
     hl_hash := ngx_hash (hl_hash s) c, hl_i := (hl_i s + 1) mod 32\<rparr>)"
  by (simp add: hl_more_def hl_store_def hl_array_def and_31)

lemma hl_inv_store:
  "hl_inv p s \<Longrightarrow> k < 32 \<Longrightarrow> hl_state s' = hl_sw_name \<Longrightarrow>
   lowcase_header (hl_r s') = (lowcase_header (hl_r s))[j := c] \<Longrightarrow> hl_i s' = k \<Longrightarrow>
   header_name_start (hl_r s') \<le> p \<Longrightarrow> hl_inv (Suc p) s'"
  by (simp add: hl_inv_def hl_array_def)

lemma hl_array_inv: "hl_inv p s \<Longrightarrow> hl_array s"
  by (simp add: hl_inv_def)

lemma hl_inv_start:
  assumes "hl_inv p s" "hl_start allow s p ch = Next s'"
  shows "hl_inv (Suc p) s'"
proof -
  note arr = hl_array_inv [OF assms(1)]
  show ?thesis
    using assms(2) arr unfolding hl_start_def Let_def
    by (auto simp: hl_first_ok hl_inv_def hl_array_def split: if_split_asm)
qed

lemma hl_inv_name:
  assumes "hl_inv p s" "hl_state s = hl_sw_name" "hl_name buf up allow s p ch = Next s'"
  shows "hl_inv (Suc p) s'"
proof -
  note arr = hl_array_inv [OF assms(1)]
  have start: "header_name_start (hl_r s) < p" using assms(1,2) by (simp add: hl_inv_def)
  consider c where "hl_more c s = Next s'" | "hl_array s'" "hl_order (hl_state s') (Suc p) (hl_r s')"
    using assms(2,3) arr start unfolding hl_name_def Let_def by (auto split: if_split_asm)
  then show ?thesis
  proof cases
    case 1
    then show ?thesis
      using arr start assms(2)
      by (auto simp: hl_more_ok intro: hl_inv_store [OF assms(1), of "(hl_i s + 1) mod 32"])
  qed (simp add: hl_inv_def)
qed

lemma hl_inv_value:
  assumes "hl_inv p s" "hl_state s \<in> {hl_sw_space_before_value, hl_sw_value, hl_sw_space_after_value}"
    "hl_value s p ch = Next s'"
  shows "hl_inv (Suc p) s'"
  using assms by (auto simp: hl_inv_def hl_value_def split: if_split_asm)

lemma hl_inv_step:
  assumes "hl_inv p s" "header_line_step up allow buf s p ch = Next s'"
  shows "hl_inv (Suc p) s'"
proof (cases "hl_state s")
  case hl_sw_start
  with assms show ?thesis by (auto simp: header_line_step_def intro: hl_inv_start)
next
  case hl_sw_name
  with assms show ?thesis by (auto simp: header_line_step_def intro: hl_inv_name)
next
  case hl_sw_ignore_line
  with assms show ?thesis by (auto simp: header_line_step_def hl_inv_def split: if_split_asm)
next
  case hl_sw_almost_done
  with assms show ?thesis by (auto simp: header_line_step_def hl_inv_def split: if_split_asm)
next
  case hl_sw_header_almost_done
  with assms show ?thesis by (auto simp: header_line_step_def split: if_split_asm)
qed (use assms in \<open>auto simp: header_line_step_def intro: hl_inv_value\<close>)

text \<open>The one look behind \<open>p\<close>, for the four bytes \<open>HTTP\<close>, stays in what has been read.\<close>

lemma hl_looks_behind:
  assumes "hl_inv p s" "p < n"
  shows "header_line_step up allow (take n buf) s p ch = header_line_step up allow buf s p ch"
proof (cases "hl_state s = hl_sw_name \<and> p - header_name_start (hl_r s) = 4")
  case True
  then have "take 4 (drop (header_name_start (hl_r s)) (take n buf)) = take 4 (drop (header_name_start (hl_r s)) buf)"
    using assms by (auto simp: hl_inv_def drop_take min_def)
  then show ?thesis by (simp only: header_line_step_def hl_name_def)
next
  case False
  then show ?thesis by (cases "hl_state s") (auto simp: header_line_step_def hl_name_def)
qed

interpretation header_line: byte_machine "header_line_step up allow" hl_inv
  by unfold_locales (auto intro: hl_inv_step simp: hl_looks_behind)

abbreviation (input) hl_entry :: "header_request \<Rightarrow> header_line" where
  "hl_entry r \<equiv> \<lparr>hl_state = hr_state r, hl_hash = header_hash r, hl_i = lowcase_index r, hl_r = r\<rparr>"

lemma hl_no_fault:
  assumes "hl_inv p s"
  shows "header_line_step up allow buf s p ch \<noteq> Stop Hl_fault"
proof -
  note arr = hl_array_inv [OF assms]
  show ?thesis
    by (cases "hl_state s")
      (simp_all add: header_line_step_def hl_start_def hl_first_ok arr hl_name_def hl_more_ok hl_value_def Let_def)
qed

lemma hl_done_order:
  assumes "hl_inv p s" "header_line_step up allow buf s p ch = Stop (Hl_done q s')"
  shows "q = p \<and> header_name_start (hl_r s') < header_name_end (hl_r s') \<and>
    header_name_end (hl_r s') \<le> header_start (hl_r s') \<and> header_start (hl_r s') \<le> header_end (hl_r s') \<and>
    header_end (hl_r s') \<le> p \<and> hl_array s'"
proof -
  note arr = hl_array_inv [OF assms(1)]
  show ?thesis
    using assms arr
    by (cases "hl_state s")
      (auto simp: header_line_step_def hl_start_def hl_first_ok hl_name_def hl_more_ok hl_value_def
        hl_inv_def Let_def split: if_split_asm)
qed

subsection \<open>What a line is parsed to\<close>

definition header_char :: "bool \<Rightarrow> u_char \<Rightarrow> bool" where
  "header_char allow_underscores c \<longleftrightarrow> lowcase ! unat c \<noteq> 0 \<or> (c = ch_under \<and> allow_underscores)"

definition rstrip :: "u_char list \<Rightarrow> u_char list" where
  "rstrip xs = rev (dropWhile (\<lambda>c. c = ch_SP) (rev xs))"

lemma rstrip_snoc: "rstrip (xs @ [c]) = (if c = ch_SP then rstrip xs else xs @ [c])"
  by (simp add: rstrip_def)

lemma tolower_under: "ngx_tolower ch_under = ch_under"
  by (simp add: ngx_tolower_def)

lemma header_line_name_first:
  assumes "header_char allow c" "hl_array s" "hl_state s = hl_sw_start"
  shows "header_line_step up allow buf s p c =
    Next (s\<lparr>hl_state := hl_sw_name, hl_hash := ngx_hash 0 (ngx_tolower c), hl_i := 1,
      hl_r := (hl_r s)\<lparr>header_name_start := p, invalid_header := False,
        lowcase_header := (lowcase_header (hl_r s))[0 := ngx_tolower c]\<rparr>\<rparr>)"
proof -
  have "c \<noteq> ch_CR" "c \<noteq> ch_LF" using assms(1) lowcase_special by (auto simp: header_char_def)
  with assms show ?thesis
    by (auto simp: header_line_step_def hl_start_def hl_first_ok header_char_def lowcase_tolower
      lowcase_special tolower_under Let_def)
qed

lemma header_line_name_more:
  assumes "header_char allow c" "hl_array s" "hl_state s = hl_sw_name"
  shows "header_line_step up allow buf s p c =
    Next (s\<lparr>hl_hash := ngx_hash (hl_hash s) (ngx_tolower c), hl_i := (hl_i s + 1) mod 32,
      hl_r := (hl_r s)\<lparr>lowcase_header := (lowcase_header (hl_r s))[hl_i s := ngx_tolower c]\<rparr>\<rparr>)"
  using assms
  by (auto simp: header_line_step_def hl_name_def hl_more_ok header_char_def lowcase_tolower
    lowcase_special tolower_under Let_def)

lemma header_line_name_scan:
  assumes "list_all (header_char allow) cs" "hl_array s" "hl_state s = hl_sw_name"
  shows "\<exists>L. scan (header_line_step up allow buf) p cs s =
      Inl (s\<lparr>hl_hash := foldl ngx_hash (hl_hash s) (map ngx_tolower cs), hl_i := (hl_i s + length cs) mod 32,
        hl_r := (hl_r s)\<lparr>lowcase_header := L\<rparr>\<rparr>) \<and> length L = 32 \<and>
    (hl_i s + length cs < 32 \<longrightarrow>
       take (hl_i s + length cs) L = take (hl_i s) (lowcase_header (hl_r s)) @ map ngx_tolower cs)"
  using assms
proof (induction cs arbitrary: s p)
  case Nil
  then show ?case by (auto simp: hl_array_def intro!: exI [of _ "lowcase_header (hl_r s)"])
next
  case (Cons c cs)
  let ?s = "s\<lparr>hl_hash := ngx_hash (hl_hash s) (ngx_tolower c), hl_i := (hl_i s + 1) mod 32,
      hl_r := (hl_r s)\<lparr>lowcase_header := (lowcase_header (hl_r s))[hl_i s := ngx_tolower c]\<rparr>\<rparr>"
  have step: "header_line_step up allow buf s p c = Next ?s"
    by (rule header_line_name_more) (use Cons.prems in simp_all)
  have "hl_array ?s" using Cons.prems(2) by (simp add: hl_array_def)
  from Cons.IH [OF _ this, of "Suc p"] Cons.prems(1,3) obtain L where L:
    "scan (header_line_step up allow buf) (Suc p) cs ?s =
      Inl (?s\<lparr>hl_hash := foldl ngx_hash (hl_hash ?s) (map ngx_tolower cs), hl_i := (hl_i ?s + length cs) mod 32,
        hl_r := (hl_r ?s)\<lparr>lowcase_header := L\<rparr>\<rparr>)" "length L = 32"
    "hl_i ?s + length cs < 32 \<longrightarrow>
       take (hl_i ?s + length cs) L = take (hl_i ?s) (lowcase_header (hl_r ?s)) @ map ngx_tolower cs"
    by auto
  have "take (hl_i s + length (c # cs)) L = take (hl_i s) (lowcase_header (hl_r s)) @ map ngx_tolower (c # cs)"
    if "hl_i s + length (c # cs) < 32"
  proof -
    have i: "hl_i ?s = Suc (hl_i s)" "hl_i s < length (lowcase_header (hl_r s))"
      using that Cons.prems(2) by (simp_all add: hl_array_def)
    with that L(3) show ?thesis by (simp add: take_Suc_conv_app_nth)
  qed
  with L(1,2) step show ?case
    by (intro exI [of _ L]) (simp add: mod_add_left_eq)
qed

definition value_char :: "u_char \<Rightarrow> bool" where
  "value_char c \<longleftrightarrow> c \<noteq> ch_NUL \<and> c \<noteq> ch_CR \<and> c \<noteq> ch_LF"

lemma header_line_spaces:
  "hl_state s = hl_sw_space_before_value \<Longrightarrow>
   scan (header_line_step up allow buf) p (replicate k ch_SP) s = Inl s"
  by (induction k arbitrary: p) (simp_all add: header_line_step_def hl_value_def)

lemma header_line_value_byte:
  assumes "value_char c" "hl_state s = hl_sw_value \<or> hl_state s = hl_sw_space_after_value"
  shows "header_line_step up allow buf s p c =
    Next (s\<lparr>hl_state := if c = ch_SP then hl_sw_space_after_value else hl_sw_value,
      hl_r := if c = ch_SP \<and> hl_state s = hl_sw_value then (hl_r s)\<lparr>header_end := p\<rparr> else hl_r s\<rparr>)"
  using assms by (cases s) (auto simp: header_line_step_def hl_value_def value_char_def)

text \<open>In a value the end is only known when a space follows.\<close>

lemma header_line_value_scan:
  assumes "list_all value_char v" "hl_state s = hl_sw_value"
  shows "\<exists>e. scan (header_line_step up allow buf) p v s =
      Inl (s\<lparr>hl_state := (if v \<noteq> [] \<and> last v = ch_SP then hl_sw_space_after_value else hl_sw_value),
        hl_r := (hl_r s)\<lparr>header_end := e\<rparr>\<rparr>) \<and>
    (v \<noteq> [] \<and> last v = ch_SP \<longrightarrow> e = p + length (rstrip v))"
  using assms(1)
proof (induction v rule: rev_induct)
  case Nil
  then show ?case using assms(2) by (auto intro!: exI [of _ "header_end (hl_r s)"])
next
  case (snoc c v)
  then obtain e where e: "scan (header_line_step up allow buf) p v s =
      Inl (s\<lparr>hl_state := (if v \<noteq> [] \<and> last v = ch_SP then hl_sw_space_after_value else hl_sw_value),
        hl_r := (hl_r s)\<lparr>header_end := e\<rparr>\<rparr>)"
    "v \<noteq> [] \<and> last v = ch_SP \<longrightarrow> e = p + length (rstrip v)" by auto
  have rs: "v = [] \<or> last v \<noteq> ch_SP \<Longrightarrow> rstrip v = v"
    by (cases v rule: rev_cases) (simp_all add: rstrip_snoc, simp add: rstrip_def)
  have c: "value_char c" using snoc.prems by simp
  show ?case
    unfolding scan_append e(1) sum.case scan.simps
    by (subst header_line_value_byte [OF c]) (use e(2) rs in \<open>auto simp: rstrip_snoc\<close>)
qed

lemma header_line_eol:
  assumes "eol = [ch_CR, ch_LF] \<or> eol = [ch_LF]" "hl_state s = hl_sw_value \<or> hl_state s = hl_sw_space_after_value"
  shows "\<exists>s' q. scan (header_line_step up allow buf) p (eol @ rest) s = Inr (Hl_done q s') \<and>
    q + 1 = p + length eol \<and> hl_hash s' = hl_hash s \<and> hl_i s' = hl_i s \<and>
    hl_r s' = (if hl_state s = hl_sw_value then (hl_r s)\<lparr>header_end := p\<rparr> else hl_r s)"
  using assms by (auto simp: header_line_step_def hl_value_def)

lemma header_line_eol_empty:
  assumes "eol = [ch_CR, ch_LF] \<or> eol = [ch_LF]" "hl_state s = hl_sw_space_before_value"
  shows "\<exists>s' q. scan (header_line_step up allow buf) p (eol @ rest) s = Inr (Hl_done q s') \<and>
    q + 1 = p + length eol \<and> hl_hash s' = hl_hash s \<and> hl_i s' = hl_i s \<and>
    hl_r s' = (hl_r s)\<lparr>header_start := p, header_end := p\<rparr>"
  using assms by (auto simp: header_line_step_def hl_value_def)

lemma rstrip_id: "v = [] \<or> last v \<noteq> ch_SP \<Longrightarrow> rstrip v = v"
  by (cases v rule: rev_cases) (simp_all add: rstrip_snoc, simp add: rstrip_def)

lemma rstrip_prefix: "\<exists>k. v = rstrip v @ replicate k ch_SP"
proof (induction v rule: rev_induct)
  case Nil
  show ?case by (simp add: rstrip_def)
next
  case (snoc c v)
  then obtain k where "v = rstrip v @ replicate k ch_SP" by blast
  then have "v @ [ch_SP] = rstrip v @ replicate (Suc k) ch_SP"
    by (metis append.assoc replicate_append_same replicate_Suc)
  then show ?case
    by (cases "c = ch_SP") (metis rstrip_snoc, simp add: rstrip_snoc exI [of _ 0])
qed

text \<open>The value, from the first byte that is not a space, with the end of the line.\<close>

lemma header_line_value_eol:
  assumes "list_all value_char v" "v = [] \<or> hd v \<noteq> ch_SP" "eol = [ch_CR, ch_LF] \<or> eol = [ch_LF]"
    and "hl_state s = hl_sw_space_before_value"
  shows "\<exists>s' q. scan (header_line_step up allow buf) p (v @ eol @ rest) s = Inr (Hl_done q s') \<and>
    q + 1 = p + length v + length eol \<and> hl_hash s' = hl_hash s \<and> hl_i s' = hl_i s \<and>
    hl_r s' = (hl_r s)\<lparr>header_start := p, header_end := p + length (rstrip v)\<rparr>"
proof (cases v)
  case Nil
  with header_line_eol_empty [OF assms(3,4), of up allow buf p rest] show ?thesis
    by (simp add: rstrip_def)
next
  case (Cons c cs)
  let ?s1 = "s\<lparr>hl_state := hl_sw_value, hl_r := (hl_r s)\<lparr>header_start := p\<rparr>\<rparr>"
  have c: "c \<noteq> ch_SP" "value_char c" "list_all value_char cs" using assms(1,2) Cons by simp_all
  have first: "header_line_step up allow buf s p c = Next ?s1"
    using c assms(4) by (auto simp: header_line_step_def hl_value_def value_char_def)
  obtain e where e: "scan (header_line_step up allow buf) (Suc p) cs ?s1 =
      Inl (?s1\<lparr>hl_state := (if cs \<noteq> [] \<and> last cs = ch_SP then hl_sw_space_after_value else hl_sw_value),
        hl_r := (hl_r ?s1)\<lparr>header_end := e\<rparr>\<rparr>)"
    "cs \<noteq> [] \<and> last cs = ch_SP \<longrightarrow> e = Suc p + length (rstrip cs)"
    using header_line_value_scan [OF c(3), of ?s1 up allow buf "Suc p"] by auto
  let ?s2 = "?s1\<lparr>hl_state := (if cs \<noteq> [] \<and> last cs = ch_SP then hl_sw_space_after_value else hl_sw_value),
        hl_r := (hl_r ?s1)\<lparr>header_end := e\<rparr>\<rparr>"
  have strip: "rstrip v = c # rstrip cs"
    unfolding Cons rstrip_def by (simp add: dropWhile_append c(1))
  have "hl_state ?s2 = hl_sw_value \<or> hl_state ?s2 = hl_sw_space_after_value" by simp
  from header_line_eol [OF assms(3) this, of up allow buf "Suc p + length cs" rest]
  obtain s' q where s': "scan (header_line_step up allow buf) (Suc p + length cs) (eol @ rest) ?s2 = Inr (Hl_done q s')"
    "q + 1 = Suc p + length cs + length eol" "hl_hash s' = hl_hash ?s2" "hl_i s' = hl_i ?s2"
    "hl_r s' = (if hl_state ?s2 = hl_sw_value then (hl_r ?s2)\<lparr>header_end := Suc p + length cs\<rparr> else hl_r ?s2)"
    by blast
  have "scan (header_line_step up allow buf) p (v @ eol @ rest) s = Inr (Hl_done q s')"
    by (simp only: Cons append_Cons scan.simps first action.case scan_append [of _ _ cs] e(1) sum.case s'(1))
  moreover have "hl_r s' = (hl_r s)\<lparr>header_start := p, header_end := p + length (rstrip v)\<rparr>"
    using s'(5) e(2) rstrip_id [of cs] by (auto simp: strip)
  ultimately show ?thesis using s'(2-4) Cons by auto
qed

lemma header_line_parsed:
  assumes name: "name \<noteq> []" "list_all (header_char allow) name"
    and v: "list_all value_char v" "v = [] \<or> hd v \<noteq> ch_SP" and eol: "eol = [ch_CR, ch_LF] \<or> eol = [ch_LF]"
    and r: "hr_state r = hl_sw_start" "lowcase_index r < 32" "length (lowcase_header r) = 32"
    and buf: "buf = pre @ name @ [ch_colon] @ replicate k ch_SP @ v @ eol @ rest"
  shows "\<exists>r'. ngx_http_parse_header_line up allow buf (length pre) r = Some (NGX_OK, length buf - length rest, r') \<and>
    hr_state r' = hl_sw_start \<and>
    process_header_line ignore_invalid buf r' =
      Some \<lparr>te_hash = ngx_hash_key (ngx_strlow name), te_key = name, te_value = rstrip v,
            te_lowcase_key = ngx_strlow name\<rparr>"
proof -
  let ?scan = "scan (header_line_step up allow buf)" and ?p = "length pre"
  obtain c cs where cs: "name = c # cs" using name(1) by (cases name) auto
  let ?s1 = "(hl_entry r)\<lparr>hl_state := hl_sw_name, hl_hash := ngx_hash 0 (ngx_tolower c), hl_i := 1,
      hl_r := (hl_r (hl_entry r))\<lparr>header_name_start := ?p, invalid_header := False,
        lowcase_header := (lowcase_header (hl_r (hl_entry r)))[0 := ngx_tolower c]\<rparr>\<rparr>"
  have first: "header_line_step up allow buf (hl_entry r) ?p c = Next ?s1"
    by (rule header_line_name_first) (use name(2) r in \<open>simp_all add: cs hl_array_def\<close>)
  have "list_all (header_char allow) cs" "hl_array ?s1" "hl_state ?s1 = hl_sw_name"
    using name(2) r by (simp_all add: cs hl_array_def)
  from header_line_name_scan [OF this, of up buf "Suc ?p"] obtain L where
    L: "?scan (Suc ?p) cs ?s1 = Inl (?s1\<lparr>hl_hash := foldl ngx_hash (hl_hash ?s1) (map ngx_tolower cs),
        hl_i := (hl_i ?s1 + length cs) mod 32, hl_r := (hl_r ?s1)\<lparr>lowcase_header := L\<rparr>\<rparr>)" "length L = 32"
      "hl_i ?s1 + length cs < 32 \<longrightarrow>
         take (hl_i ?s1 + length cs) L = take (hl_i ?s1) (lowcase_header (hl_r ?s1)) @ map ngx_tolower cs"
    by blast
  let ?s2 = "?s1\<lparr>hl_hash := foldl ngx_hash (hl_hash ?s1) (map ngx_tolower cs),
        hl_i := (hl_i ?s1 + length cs) mod 32, hl_r := (hl_r ?s1)\<lparr>lowcase_header := L\<rparr>\<rparr>"
  let ?s3 = "?s2\<lparr>hl_state := hl_sw_space_before_value, hl_r := (hl_r ?s2)\<lparr>header_name_end := ?p + length name\<rparr>\<rparr>"
  have colon: "header_line_step up allow buf ?s2 (Suc ?p + length cs) ch_colon = Next ?s3"
    using lowcase_special(1) by (simp add: header_line_step_def hl_name_def cs)
  have "hl_state ?s3 = hl_sw_space_before_value" by simp
  note spaces = header_line_spaces [OF this, of up allow buf "Suc (Suc ?p + length cs)" k]
  let ?q = "Suc (Suc ?p + length cs) + k"
  from header_line_value_eol [OF v eol \<open>hl_state ?s3 = hl_sw_space_before_value\<close>, of up allow buf ?q rest]
  obtain s' q where s': "?scan ?q (v @ eol @ rest) ?s3 = Inr (Hl_done q s')"
    "q + 1 = ?q + length v + length eol" "hl_hash s' = hl_hash ?s3" "hl_i s' = hl_i ?s3"
    "hl_r s' = (hl_r ?s3)\<lparr>header_start := ?q, header_end := ?q + length (rstrip v)\<rparr>"
    by blast
  have drop: "drop ?p buf = c # cs @ ch_colon # replicate k ch_SP @ v @ eol @ rest" by (simp add: buf cs)
  have run: "?scan ?p (drop ?p buf) (hl_entry r) = Inr (Hl_done q s')"
    by (simp only: drop scan.simps first action.case scan_append [of _ _ cs] L(1) sum.case colon
        scan_append [of _ _ "replicate k ch_SP"] spaces length_replicate s'(1))
  let ?r' = "(hl_r s')\<lparr>hr_state := hl_sw_start, header_hash := hl_hash s', lowcase_index := hl_i s'\<rparr>"
  have parse: "ngx_http_parse_header_line up allow buf ?p r = Some (NGX_OK, q + 1, ?r')"
    by (simp only: ngx_http_parse_header_line_def run sum.case hl_exit.case)
  have pos: "q + 1 = length buf - length rest" using s'(2) by (simp add: buf cs)
  have key: "byte_range buf (header_name_start ?r') (header_name_end ?r') = name"
    unfolding buf by (rule byte_range_pieces) (simp_all add: s'(5))
  obtain j where j: "v = rstrip v @ replicate j ch_SP" using rstrip_prefix by blast
  have bufv: "buf = (pre @ name @ [ch_colon] @ replicate k ch_SP) @ rstrip v @ replicate j ch_SP @ eol @ rest"
    unfolding buf using j by simp
  have val: "byte_range buf (header_start ?r') (header_end ?r') = rstrip v"
    by (subst bufv, rule byte_range_pieces) (simp_all add: s'(5) cs)
  have hash: "header_hash ?r' = ngx_hash_key (ngx_strlow name)"
    by (simp add: s'(3) ngx_hash_key_def ngx_strlow_def cs)
  have low: "take (length name) (lowcase_header ?r') = ngx_strlow name" if "length name = lowcase_index ?r'"
  proof -
    have "length name < 32" using that s'(4) by (simp add: cs)
    with L(3) r(3) show ?thesis by (simp add: s'(5) cs ngx_strlow_def take_Suc_conv_app_nth)
  qed
  have "invalid_header ?r' = False" by (simp add: s'(5))
  then have "process_header_line ignore_invalid buf ?r' =
      Some \<lparr>te_hash = ngx_hash_key (ngx_strlow name), te_key = name, te_value = rstrip v,
            te_lowcase_key = ngx_strlow name\<rparr>"
    unfolding process_header_line_def Let_def key val hash using low by simp
  with parse pos show ?thesis by auto
qed

subsection \<open>Properties\<close>

text \<open>C27: Every well-formed header line, wherever it stands in the buffer, is parsed to the
  header it denotes: a name of letters, digits, hyphens (and underscores where they are
  allowed), a colon, any number of spaces, a value without control bytes NUL, CR and LF,
  and a CRLF or a bare LF. The parser stops behind the line, the key is the name, the value
  is the text without the spaces after it, the lower-case key is the lowered name, whatever
  its length, and the hash is the one under which \<open>ngx_hash_key\<close> files the lowered name.\<close>

theorem header_line_round_trip:
  assumes "name \<noteq> []" "list_all (header_char allow) name"
    and "list_all value_char v" "v = [] \<or> hd v \<noteq> ch_SP" "eol = [ch_CR, ch_LF] \<or> eol = [ch_LF]"
    and "hr_state r = hl_sw_start" "lowcase_index r < 32" "length (lowcase_header r) = 32"
    and "buf = pre @ name @ [ch_colon] @ replicate k ch_SP @ v @ eol @ rest"
  shows "\<exists>r'. ngx_http_parse_header_line up allow buf (length pre) r = Some (NGX_OK, length buf - length rest, r') \<and>
    hr_state r' = hl_sw_start \<and>
    process_header_line ignore_invalid buf r' =
      Some \<lparr>te_hash = ngx_hash_key (ngx_strlow name), te_key = name, te_value = rstrip v,
            te_lowcase_key = ngx_strlow name\<rparr>"
  by (rule header_line_parsed [OF assms])

definition fresh_header :: header_request where
  "fresh_header = \<lparr>hr_state = hl_sw_start, header_hash = 0, lowcase_index = 0, lowcase_header = replicate 32 0,
     header_name_start = 0, header_name_end = 0, header_start = 0, header_end = 0, invalid_header = False\<rparr>"

lemma lowcase_at: "u < 256 \<Longrightarrow> lowcase ! u = word_of_nat (lowcase_nat u)"
  unfolding lowcase_map by (subst nth_map) simp_all

lemma header_line_round_trip_witness:
  "\<exists>r'. ngx_http_parse_header_line False False (bytes ''Host: a b  '' @ [ch_CR, ch_LF]) 0 fresh_header
       = Some (NGX_OK, 13, r') \<and> hr_state r' = hl_sw_start \<and>
     process_header_line True (bytes ''Host: a b  '' @ [ch_CR, ch_LF]) r' =
       Some \<lparr>te_hash = ngx_hash_key (bytes ''host''), te_key = bytes ''Host'', te_value = bytes ''a b'',
             te_lowcase_key = bytes ''host''\<rparr>"
proof -
  let ?buf = "bytes ''Host: a b  '' @ [ch_CR, ch_LF]"
  have len: "length ?buf - length ([] :: u_char list) = 13" by simp
  have char: "list_all (header_char False) (bytes ''Host'')"
    by (simp add: header_char_def lowcase_at lowcase_nat_def)
  have low: "ngx_strlow (bytes ''Host'') = bytes ''host''"
    by (simp add: ngx_strlow_def ngx_tolower_def)
  have strip: "rstrip (bytes ''a b  '') = bytes ''a b''" by (simp add: rstrip_def)
  have "\<exists>r'. ngx_http_parse_header_line False False ?buf (length ([] :: u_char list)) fresh_header
       = Some (NGX_OK, length ?buf - length ([] :: u_char list), r') \<and> hr_state r' = hl_sw_start \<and>
     process_header_line True ?buf r' =
       Some \<lparr>te_hash = ngx_hash_key (ngx_strlow (bytes ''Host'')), te_key = bytes ''Host'',
             te_value = rstrip (bytes ''a b  ''), te_lowcase_key = ngx_strlow (bytes ''Host'')\<rparr>"
    by (rule header_line_round_trip [OF _ char, where v = "bytes ''a b  ''" and eol = "[ch_CR, ch_LF]"
          and k = 1 and pre = "[]" and rest = "[]"])
      (simp_all add: value_char_def fresh_header_def)
  then show ?thesis unfolding len low strip by simp
qed

text \<open>C28: For every input and every request whose index into the lower-case array is in range,
  one call of the parser stores nothing outside that array, and an accepted line has its
  name, value and end in order and inside the buffer; after NGX_AGAIN the same holds of the
  saved state, so that the next call may go on from it.\<close>

theorem header_line_safe:
  assumes "hl_inv pos (hl_entry r)" "pos \<le> length buf"
  shows "\<exists>rc pos' r'. ngx_http_parse_header_line up allow buf pos r = Some (rc, pos', r') \<and>
    (rc = NGX_AGAIN \<longrightarrow> pos' = length buf \<and> hl_inv pos' (hl_entry r')) \<and>
    (rc = NGX_OK \<longrightarrow> header_name_start r' < header_name_end r' \<and> header_name_end r' \<le> header_start r' \<and>
       header_start r' \<le> header_end r' \<and> header_end r' < pos' \<and> pos' \<le> length buf)"
proof (cases "scan (header_line_step up allow buf) pos (drop pos buf) (hl_entry r)")
  case (Inl s)
  have "hl_inv (pos + length (drop pos buf)) s"
    by (rule header_line.scan_inv [OF assms(1) Inl])
  with Inl assms(2) show ?thesis
    by (cases "hl_state s") (simp_all add: ngx_http_parse_header_line_def hl_inv_def hl_array_def)
next
  case (Inr x)
  from header_line.scan_stop [OF assms(1) this] obtain q s ch where q:
    "hl_inv q s" "q < length buf" "header_line_step up allow buf s q ch = Stop x"
    using assms(2) by auto
  show ?thesis
  proof (cases x)
    case (Hl_done p s')
    with hl_done_order [OF q(1), of up allow buf ch p s'] q(2,3) Inr show ?thesis
      by (simp add: ngx_http_parse_header_line_def)
  next
    case Hl_fault
    with hl_no_fault [OF q(1)] q(3) show ?thesis by simp
  qed (use Inr in \<open>simp_all add: ngx_http_parse_header_line_def\<close>)
qed

lemma header_line_safe_witness:
  "\<exists>rc pos' r'. ngx_http_parse_header_line True False (bytes ''a:'' @ [ch_LF]) 0 fresh_header = Some (rc, pos', r')"
  using header_line_safe [of 0 fresh_header "bytes ''a:'' @ [ch_LF]" True False]
  by (auto simp: hl_inv_def hl_array_def fresh_header_def)

text \<open>The loop does not look at the fields that it keeps in local variables.\<close>

definition hl_saved :: "header_request \<Rightarrow> header_line \<Rightarrow> header_line" where
  "hl_saved q s = s\<lparr>hl_r := (hl_r s)\<lparr>hr_state := hr_state q, header_hash := header_hash q,
     lowcase_index := lowcase_index q\<rparr>\<rparr>"

lemma hl_saved_fields:
  "hl_state (hl_saved q s) = hl_state s" "hl_hash (hl_saved q s) = hl_hash s" "hl_i (hl_saved q s) = hl_i s"
  "header_name_start (hl_r (hl_saved q s)) = header_name_start (hl_r s)"
  "lowcase_header (hl_r (hl_saved q s)) = lowcase_header (hl_r s)"
  "hl_saved q (s\<lparr>hl_state := st\<rparr>) = (hl_saved q s)\<lparr>hl_state := st\<rparr>"
  by (simp_all add: hl_saved_def)

definition hl_map :: "header_request \<Rightarrow> (header_line, hl_exit) action \<Rightarrow> (header_line, hl_exit) action" where
  "hl_map q a =
     (case a of
        Next s \<Rightarrow> Next (hl_saved q s)
      | Stop (Hl_done p s) \<Rightarrow> Stop (Hl_done p (hl_saved q s))
      | Stop (Hl_header_done p s) \<Rightarrow> Stop (Hl_header_done p (hl_saved q s))
      | Stop (Hl_invalid s) \<Rightarrow> Stop (Hl_invalid (hl_saved q s))
      | Stop Hl_fault \<Rightarrow> Stop Hl_fault)"

lemma hl_store_saved:
  "hl_store k c (hl_saved q s) = map_option (hl_saved q) (hl_store k c s)"
  by (simp add: hl_store_def hl_saved_def)

lemma hl_first_saved: "hl_first c (hl_saved q s) = hl_map q (hl_first c s)"
  by (simp add: hl_first_def hl_store_saved hl_map_def split: option.split) (simp add: hl_saved_def)

lemma hl_more_saved: "hl_more c (hl_saved q s) = hl_map q (hl_more c s)"
  by (simp add: hl_more_def hl_store_saved hl_map_def hl_saved_fields split: option.split)
    (simp add: hl_saved_def)

lemma hl_set_saved:
  "(hl_saved q s)\<lparr>hl_r := (hl_r (hl_saved q s))\<lparr>header_name_start := p, invalid_header := b\<rparr>\<rparr> =
     hl_saved q (s\<lparr>hl_r := (hl_r s)\<lparr>header_name_start := p, invalid_header := b\<rparr>\<rparr>)"
  by (simp add: hl_saved_def)

lemma hl_start_saved: "hl_start allow (hl_saved q s) p ch = hl_map q (hl_start allow s p ch)"
  unfolding hl_start_def Let_def hl_set_saved
  by (auto simp: hl_first_saved hl_saved_fields(6) [symmetric])
    (simp_all add: hl_map_def hl_saved_def)

lemma hl_name_saved: "hl_name buf up allow (hl_saved q s) p ch = hl_map q (hl_name buf up allow s p ch)"
  unfolding hl_name_def Let_def hl_saved_fields
  by (auto simp: hl_more_saved) (simp_all add: hl_map_def hl_saved_def)

lemma hl_value_saved: "hl_value (hl_saved q s) p ch = hl_map q (hl_value s p ch)"
  by (cases "hl_state s") (simp_all add: hl_value_def hl_map_def hl_saved_def)

lemma header_line_step_saved:
  "header_line_step up allow buf (hl_saved q s) p ch = hl_map q (header_line_step up allow buf s p ch)"
  by (cases "hl_state s")
    (simp_all add: header_line_step_def hl_saved_fields hl_start_saved hl_name_saved hl_value_saved,
     simp_all add: hl_map_def hl_saved_fields)

lemma scan_saved:
  "scan (header_line_step up allow buf) p xs (hl_saved q s) =
     (case scan (header_line_step up allow buf) p xs s of
        Inl s' \<Rightarrow> Inl (hl_saved q s')
      | Inr (Hl_done k s') \<Rightarrow> Inr (Hl_done k (hl_saved q s'))
      | Inr (Hl_header_done k s') \<Rightarrow> Inr (Hl_header_done k (hl_saved q s'))
      | Inr (Hl_invalid s') \<Rightarrow> Inr (Hl_invalid (hl_saved q s'))
      | Inr Hl_fault \<Rightarrow> Inr Hl_fault)"
proof (induction xs arbitrary: p s)
  case (Cons x xs)
  show ?case
  proof (cases "header_line_step up allow buf s p x")
    case (Next s1)
    with Cons.IH show ?thesis by (simp add: header_line_step_saved hl_map_def)
  next
    case (Stop e)
    then show ?thesis by (cases e) (simp_all add: header_line_step_saved hl_map_def)
  qed
qed simp

text \<open>The parser may be fed in pieces: after NGX_AGAIN on the first \<open>n\<close> bytes, calling it
  again with more bytes in the buffer gives the same return code, position and header
  fields as one call on all of them, whatever the two calls return. This needs that
  the look back for \<open>HTTP/\<close> in the responses of upstream servers reads only earlier bytes.\<close>

theorem header_line_restart:
  assumes "hl_inv pos (hl_entry r)" "pos \<le> n" "n \<le> length buf"
    and "ngx_http_parse_header_line up allow (take n buf) pos r = Some (NGX_AGAIN, p1, r1)"
  shows "\<exists>rc p r' p' r''. ngx_http_parse_header_line up allow buf n r1 = Some (rc, p, r') \<and>
    ngx_http_parse_header_line up allow buf pos r = Some (rc, p', r'') \<and>
    (rc = NGX_OK \<or> rc = NGX_AGAIN \<longrightarrow> p = p' \<and> r' = r'') \<and>
    (rc = NGX_HTTP_PARSE_HEADER_DONE \<longrightarrow> p = p' \<and> header_end r' = header_end r'')"
proof -
  obtain s where s: "scan (header_line_step up allow (take n buf)) pos (drop pos (take n buf)) (hl_entry r) = Inl s"
    "r1 = (hl_r s)\<lparr>hr_state := hl_state s, header_hash := hl_hash s, lowcase_index := hl_i s\<rparr>"
    using assms(4) by (auto simp: ngx_http_parse_header_line_def split: sum.splits hl_exit.splits)
  have "hl_inv (pos + length (drop pos (take n buf))) s"
    by (rule header_line.scan_inv [OF assms(1) s(1)])
  then have inv: "hl_inv n s" using assms(2,3) by simp
  have rest: "scan (header_line_step up allow buf) pos (drop pos buf) (hl_entry r) =
      scan (header_line_step up allow buf) n (drop n buf) s"
    by (rule header_line.scan_restart [OF assms(1-3) s(1)])
  have entry: "hl_entry r1 = hl_saved r1 s" by (simp add: s(2) hl_saved_def)
  have second: "scan (header_line_step up allow buf) n (drop n buf) (hl_entry r1) \<noteq> Inr Hl_fault"
  proof
    assume "scan (header_line_step up allow buf) n (drop n buf) (hl_entry r1) = Inr Hl_fault"
    moreover have "hl_inv n (hl_entry r1)" using inv by (cases "hl_state s") (simp_all add: s(2) hl_inv_def hl_array_def)
    ultimately show False using header_line.scan_stop hl_no_fault by blast
  qed
  show ?thesis
    using second unfolding ngx_http_parse_header_line_def rest entry scan_saved
    by (cases "scan (header_line_step up allow buf) n (drop n buf) s")
      (auto simp: hl_saved_def split: hl_exit.splits)
qed

lemma header_line_restart_witness:
  "\<exists>rc p r' p' r''. ngx_http_parse_header_line True False [ch_a, ch_LF] 1
       (fresh_header\<lparr>hr_state := hl_sw_name, header_hash := ngx_hash 0 ch_a, lowcase_index := 1,
         lowcase_header := (replicate 32 0)[0 := ch_a]\<rparr>) = Some (rc, p, r') \<and>
     ngx_http_parse_header_line True False [ch_a, ch_LF] 0 fresh_header = Some (rc, p', r'')"
proof -
  have "ngx_http_parse_header_line True False (take 1 [ch_a, ch_LF]) 0 fresh_header = Some (NGX_AGAIN, 1,
      fresh_header\<lparr>hr_state := hl_sw_name, header_hash := ngx_hash 0 ch_a, lowcase_index := 1,
         lowcase_header := (replicate 32 0)[0 := ch_a]\<rparr>)"
    by (simp add: ngx_http_parse_header_line_def header_line_step_def hl_start_def hl_first_def hl_store_def
        fresh_header_def lowcase_at lowcase_nat_def)
  from header_line_restart [OF _ _ _ this] show ?thesis
    by (fastforce simp: hl_inv_def hl_array_def fresh_header_def)
qed

text \<open>
  A line that starts with a byte that is no header character is not a fresh start: the hash
  and the lower-case key go on from the line before. When invalid headers are not ignored,
  \<open>_ost: x\<close> behind \<open>H: y\<close> is filed under the hash and the lower-case key of \<open>host\<close>.
\<close>

lemma header_line_stale_key:
  assumes "r = fresh_header\<lparr>header_hash := ngx_hash_key [0x68], lowcase_index := 1,
    lowcase_header := (replicate 32 0)[0 := 0x68]\<rparr>" "buf = [ch_under] @ bytes ''ost'' @ [ch_colon] @ bytes ''x'' @ [ch_LF]"
  shows "\<exists>r'. ngx_http_parse_header_line False False buf 0 r = Some (NGX_OK, 7, r') \<and>
     process_header_line False buf r' =
       Some \<lparr>te_hash = ngx_hash_key (bytes ''host''), te_key = bytes ''_ost'', te_value = bytes ''x'',
             te_lowcase_key = bytes ''host''\<rparr>"
proof -
  let ?scan = "scan (header_line_step False False buf)"
  let ?s1 = "(hl_entry r)\<lparr>hl_state := hl_sw_name,
    hl_r := (hl_r (hl_entry r))\<lparr>header_name_start := 0, invalid_header := True\<rparr>\<rparr>"
  have first: "header_line_step False False buf (hl_entry r) 0 ch_under = Next ?s1"
    using lowcase_special(2) by (simp add: assms header_line_step_def hl_start_def fresh_header_def)
  have "list_all (header_char False) (bytes ''ost'')" "hl_array ?s1" "hl_state ?s1 = hl_sw_name"
    by (simp_all add: assms fresh_header_def hl_array_def header_char_def lowcase_at lowcase_nat_def)
  from header_line_name_scan [OF this, of False buf "Suc 0"] obtain L where
    L: "?scan (Suc 0) (bytes ''ost'') ?s1 = Inl (?s1\<lparr>hl_hash := foldl ngx_hash (hl_hash ?s1) (map ngx_tolower (bytes ''ost'')),
        hl_i := (hl_i ?s1 + length (bytes ''ost'')) mod 32, hl_r := (hl_r ?s1)\<lparr>lowcase_header := L\<rparr>\<rparr>)"
      "hl_i ?s1 + length (bytes ''ost'') < 32 \<longrightarrow> take (hl_i ?s1 + length (bytes ''ost'')) L =
         take (hl_i ?s1) (lowcase_header (hl_r ?s1)) @ map ngx_tolower (bytes ''ost'')"
    by blast
  let ?s2 = "?s1\<lparr>hl_hash := foldl ngx_hash (hl_hash ?s1) (map ngx_tolower (bytes ''ost'')),
        hl_i := (hl_i ?s1 + length (bytes ''ost'')) mod 32, hl_r := (hl_r ?s1)\<lparr>lowcase_header := L\<rparr>\<rparr>"
  let ?p1 = "Suc 0 + length (bytes ''ost'')"
  let ?s3 = "?s2\<lparr>hl_state := hl_sw_space_before_value, hl_r := (hl_r ?s2)\<lparr>header_name_end := ?p1\<rparr>\<rparr>"
  have colon: "header_line_step False False buf ?s2 ?p1 ch_colon = Next ?s3"
    using lowcase_special(1) by (simp add: header_line_step_def hl_name_def)
  have "list_all value_char (bytes ''x'')" "bytes ''x'' = [] \<or> hd (bytes ''x'') \<noteq> ch_SP"
    "[ch_LF] = [ch_CR, ch_LF] \<or> [ch_LF] = [ch_LF]" "hl_state ?s3 = hl_sw_space_before_value"
    by (simp_all add: value_char_def)
  from header_line_value_eol [OF this, of False False buf "Suc ?p1" "[]"]
  obtain s' q where s': "?scan (Suc ?p1) (bytes ''x'' @ [ch_LF] @ []) ?s3 = Inr (Hl_done q s')"
    "q + 1 = Suc ?p1 + length (bytes ''x'') + length [ch_LF]" "hl_hash s' = hl_hash ?s3" "hl_i s' = hl_i ?s3"
    "hl_r s' = (hl_r ?s3)\<lparr>header_start := Suc ?p1, header_end := Suc ?p1 + length (rstrip (bytes ''x''))\<rparr>"
    by blast
  have drop: "drop 0 buf = ch_under # bytes ''ost'' @ ch_colon # bytes ''x'' @ [ch_LF] @ []" by (simp add: assms(2))
  have run: "?scan 0 (drop 0 buf) (hl_entry r) = Inr (Hl_done q s')"
    by (simp only: drop scan.simps first action.case scan_append [of _ _ "bytes ''ost''"] L(1) sum.case colon s'(1))
  let ?r' = "(hl_r s')\<lparr>hr_state := hl_sw_start, header_hash := hl_hash s', lowcase_index := hl_i s'\<rparr>"
  have parse: "ngx_http_parse_header_line False False buf 0 r = Some (NGX_OK, q + 1, ?r')"
    by (simp only: ngx_http_parse_header_line_def run sum.case hl_exit.case)
  have q: "q + 1 = 7" using s'(2) by simp
  have key: "byte_range buf (header_name_start ?r') (header_name_end ?r') = bytes ''_ost''"
    unfolding assms(2) by (simp add: s'(5) byte_range_def)
  have val: "byte_range buf (header_start ?r') (header_end ?r') = bytes ''x''"
    unfolding assms(2) by (simp add: s'(5) byte_range_def rstrip_def)
  have hash: "header_hash ?r' = ngx_hash_key (bytes ''host'')" "lowcase_index ?r' = 4"
    by (simp_all add: s'(3,4) assms(1) fresh_header_def ngx_hash_key_def ngx_tolower_def)
  have low: "take 4 (lowcase_header ?r') = bytes ''host''"
  proof -
    have four: "(4::nat) = Suc (Suc (Suc (Suc 0)))" by simp
    show ?thesis unfolding four
      using L(2) by (simp add: s'(5) assms(1) fresh_header_def ngx_tolower_def take_Suc_conv_app_nth)
  qed
  have len: "length (bytes ''_ost'') = 4" by simp
  have "process_header_line False buf ?r' =
       Some \<lparr>te_hash = ngx_hash_key (bytes ''host''), te_key = bytes ''_ost'', te_value = bytes ''x'',
             te_lowcase_key = bytes ''host''\<rparr>"
    unfolding process_header_line_def Let_def key val hash len low by (simp only: simp_thms if_True if_False)
  with parse show ?thesis unfolding q by blast
qed

end
