(* ===== verification/Http_Host.thy ===== *)
theory Http_Host
  imports Http_Header
begin

section \<open>The host of a request: \<open>ngx_http_validate_host\<close>\<close>

text \<open>
  The check that a host name from a request line, from a \<open>Host\<close> header or from SNI passes
  before a virtual server is looked up with it (\<open>src/http/ngx_http_request.c\<close>), in the Unix
  build, where the path separator is the slash. The allocation from the pool succeeds. Without
  an upper-case letter and without \<open>alloc\<close> the host stays where it is; its bytes are the same
  either way.
\<close>

subsection \<open>The function\<close>

datatype host_state = host_sw_usual | host_sw_literal | host_sw_rest

record host_scan =
  dot_pos :: nat
  host_len :: nat
  host_state :: host_state
  host_alloc :: bool

definition validate_host_step :: "nat \<Rightarrow> u_char \<Rightarrow> host_scan \<Rightarrow> host_scan option" where
  "validate_host_step i ch s =
     (if ch = ch_dot then (if Suc (dot_pos s) = i then None else Some (s\<lparr>dot_pos := i\<rparr>))
      else if ch = ch_colon then
        Some (if host_state s = host_sw_usual then s\<lparr>host_len := i, host_state := host_sw_rest\<rparr> else s)
      else if ch = ch_lbrack then Some (if i = 0 then s\<lparr>host_state := host_sw_literal\<rparr> else s)
      else if ch = ch_rbrack then
        Some (if host_state s = host_sw_literal then s\<lparr>host_len := i + 1, host_state := host_sw_rest\<rparr> else s)
      else if ch = ch_NUL then None
      else if ch = ch_slash then None
      else Some (if ch \<ge> ch_A \<and> ch \<le> ch_Z then s\<lparr>host_alloc := True\<rparr> else s))"

fun validate_host_loop :: "nat \<Rightarrow> u_char list \<Rightarrow> host_scan \<Rightarrow> host_scan option" where
  "validate_host_loop i [] s = Some s"
| "validate_host_loop i (ch # rest) s =
     (case validate_host_step i ch s of None \<Rightarrow> None | Some s' \<Rightarrow> validate_host_loop (Suc i) rest s')"

definition ngx_http_validate_host :: "u_char list \<Rightarrow> bool \<Rightarrow> int \<times> u_char list" where
  "ngx_http_validate_host host alloc =
     (case validate_host_loop 0 host \<lparr>dot_pos = length host, host_len = length host,
             host_state = host_sw_usual, host_alloc = alloc\<rparr> of
        None \<Rightarrow> (NGX_DECLINED, host)
      | Some s \<Rightarrow>
          (let hlen = (if Suc (dot_pos s) = host_len s then host_len s - 1 else host_len s) in
           if hlen = 0 then (NGX_DECLINED, host)
           else (NGX_OK, if host_alloc s then ngx_strlow (take hlen host) else take hlen host)))"

subsection \<open>What the loop knows\<close>

definition upper :: "u_char \<Rightarrow> bool" where
  "upper c \<longleftrightarrow> ch_A \<le> c \<and> c \<le> ch_Z"

text \<open>No two dots in a row.\<close>

fun dots_apart :: "u_char list \<Rightarrow> bool" where
  "dots_apart (a # b # xs) \<longleftrightarrow> \<not> (a = ch_dot \<and> b = ch_dot) \<and> dots_apart (b # xs)"
| "dots_apart _ \<longleftrightarrow> True"

lemma dots_apart_snoc: "dots_apart (xs @ [c]) \<longleftrightarrow> dots_apart xs \<and> \<not> (c = ch_dot \<and> xs \<noteq> [] \<and> last xs = ch_dot)"
  by (induction xs rule: dots_apart.induct) auto

lemma dots_apart_append: "dots_apart (xs @ ys) \<Longrightarrow> dots_apart xs"
  by (induction ys rule: rev_induct) (simp_all add: dots_apart_snoc flip: append_assoc)

lemma dots_apart_take: "dots_apart xs \<Longrightarrow> dots_apart (take n xs)"
  using dots_apart_append [of "take n xs" "drop n xs"] by simp

text \<open>After the bytes \<open>seen\<close> of a host of \<open>n\<close> bytes: what they contain, and where the name ends.\<close>

definition host_text :: "u_char list \<Rightarrow> nat \<Rightarrow> host_scan \<Rightarrow> bool" where
  "host_text seen n s \<longleftrightarrow> dots_apart seen \<and> ch_NUL \<notin> set seen \<and> ch_slash \<notin> set seen \<and>
     (dot_pos s < length seen \<or> dot_pos s = n) \<and>
     (seen \<noteq> [] \<and> last seen = ch_dot \<longrightarrow> Suc (dot_pos s) = length seen) \<and>
     (Bex (set seen) upper \<longrightarrow> host_alloc s)"

definition host_form :: "u_char list \<Rightarrow> nat \<Rightarrow> host_scan \<Rightarrow> bool" where
  "host_form seen n s \<longleftrightarrow>
     (case host_state s of
        host_sw_usual \<Rightarrow> host_len s = n \<and> ch_colon \<notin> set seen
      | host_sw_literal \<Rightarrow> host_len s = n \<and> seen \<noteq> [] \<and> hd seen = ch_lbrack
      | host_sw_rest \<Rightarrow> seen \<noteq> [] \<and> host_len s \<le> length seen \<and>
          (ch_colon \<in> set (take (host_len s) seen) \<longrightarrow> hd seen = ch_lbrack))"

lemma host_text_step:
  assumes "host_text seen n s" "length seen < n" "validate_host_step (length seen) ch s = Some s'"
  shows "host_text (seen @ [ch]) n s'"
proof (cases "ch = ch_dot")
  case True
  then have "Suc (dot_pos s) \<noteq> length seen" and s': "s' = s\<lparr>dot_pos := length seen\<rparr>"
    using assms(3) by (simp_all add: validate_host_step_def split: if_split_asm)
  with assms(1,2) True show ?thesis
    by (auto simp: host_text_def dots_apart_snoc upper_def)
next
  case False
  then have "dot_pos s' = dot_pos s" "host_alloc s' \<longleftrightarrow> host_alloc s \<or> upper ch" "ch \<noteq> ch_NUL" "ch \<noteq> ch_slash"
    using assms(3) by (auto simp: validate_host_step_def upper_def split: if_split_asm)
  with assms(1,2) False show ?thesis
    by (auto simp: host_text_def dots_apart_snoc)
qed

lemma host_form_step:
  assumes "host_form seen n s" "length seen < n" "validate_host_step (length seen) ch s = Some s'"
  shows "host_form (seen @ [ch]) n s'"
proof -
  have same: "s' = s \<or> s' = s\<lparr>dot_pos := length seen\<rparr> \<or> s' = s\<lparr>host_alloc := True\<rparr>"
    if "ch \<notin> {ch_colon, ch_lbrack, ch_rbrack}"
    using assms(3) that by (auto simp: validate_host_step_def split: if_split_asm)
  consider "ch = ch_colon" | "ch = ch_lbrack" | "ch = ch_rbrack" | "ch \<notin> {ch_colon, ch_lbrack, ch_rbrack}" by blast
  then show ?thesis
  proof cases
    case 1
    with assms show ?thesis
      by (cases "host_state s") (auto simp: host_form_def validate_host_step_def hd_append)
  next
    case 2
    with assms show ?thesis
      by (cases "host_state s") (auto simp: host_form_def validate_host_step_def hd_append)
  next
    case 3
    with assms show ?thesis
      by (cases "host_state s") (auto simp: host_form_def validate_host_step_def hd_append)
  next
    case 4
    with assms(1,2) same [OF 4] show ?thesis
      by (cases "host_state s") (auto simp: host_form_def hd_append)
  qed
qed

lemma validate_host_seen:
  "host_text seen n s \<Longrightarrow> host_form seen n s \<Longrightarrow> length seen + length rest = n \<Longrightarrow>
   validate_host_loop (length seen) rest s = Some s' \<Longrightarrow> host_text (seen @ rest) n s' \<and> host_form (seen @ rest) n s'"
proof (induction rest arbitrary: seen s)
  case (Cons ch rest)
  then obtain s1 where s1: "validate_host_step (length seen) ch s = Some s1"
    "validate_host_loop (length (seen @ [ch])) rest s1 = Some s'"
    by (auto split: option.splits)
  have "length seen < n" using Cons.prems(3) by simp
  with Cons.IH [of "seen @ [ch]" s1] host_text_step [OF Cons.prems(1) _ s1(1)] host_form_step [OF Cons.prems(2) _ s1(1)]
    s1(2) Cons.prems(3)
  show ?case by simp
qed simp

subsection \<open>Lower case\<close>

lemma unat_tolower: "unat (ngx_tolower c) = (if upper c then unat c + 32 else unat c)"
proof (cases "upper c")
  case True
  then have "65 \<le> unat c" "unat c \<le> 90" by (simp_all add: upper_def unat_u_char_le_iff)
  then have "unat c div 32 = 2" by simp
  with True show ?thesis by (simp add: ngx_tolower_def upper_def unat_or_0x20)
next
  case False
  then show ?thesis by (auto simp: ngx_tolower_def upper_def)
qed

lemma upper_unat: "upper c \<longleftrightarrow> 65 \<le> unat c \<and> unat c \<le> 90"
  by (simp add: upper_def unat_u_char_le_iff)

lemma tolower_not_upper: "\<not> upper (ngx_tolower c)"
  by (simp add: upper_unat unat_tolower)

lemma tolower_other: "\<not> upper c \<Longrightarrow> ngx_tolower c = c"
  by (auto simp: ngx_tolower_def upper_def)

lemma tolower_eq_iff: "unat d < 65 \<or> 90 < unat d \<and> unat d < 97 \<Longrightarrow> ngx_tolower c = d \<longleftrightarrow> c = d"
  by (auto simp: word_unat_eq_iff [where 'a = 8] unat_tolower upper_unat)

lemma strlow_lower: "\<not> Bex (set xs) upper \<Longrightarrow> ngx_strlow xs = xs"
  unfolding ngx_strlow_def by (rule map_idI) (auto simp: tolower_other)

lemma strlow_mem: "unat d < 65 \<or> 90 < unat d \<and> unat d < 97 \<Longrightarrow> d \<in> set (ngx_strlow xs) \<longleftrightarrow> d \<in> set xs"
  unfolding ngx_strlow_def using tolower_eq_iff [of d] by (metis (no_types, opaque_lifting) imageE image_eqI list.set_map)

lemma strlow_dots: "dots_apart (ngx_strlow xs) \<longleftrightarrow> dots_apart xs"
  by (induction xs rule: dots_apart.induct) (simp_all add: ngx_strlow_def tolower_eq_iff)

lemma strlow_not_upper: "\<not> Bex (set (ngx_strlow xs)) upper"
  by (auto simp: ngx_strlow_def tolower_not_upper)

subsection \<open>What is a valid host\<close>

definition valid_host :: "u_char list \<Rightarrow> bool" where
  "valid_host h \<longleftrightarrow> h \<noteq> [] \<and> ch_NUL \<notin> set h \<and> ch_slash \<notin> set h \<and> dots_apart h \<and>
     \<not> Bex (set h) upper \<and> (ch_colon \<in> set h \<longrightarrow> hd h = ch_lbrack)"

lemma host_form_colon:
  "host_form host (length host) s \<Longrightarrow> ch_colon \<in> set (take (host_len s) host) \<Longrightarrow> hd host = ch_lbrack"
  by (cases "host_state s") (auto simp: host_form_def)

lemma host_form_len: "host_form host (length host) s \<Longrightarrow> host_len s \<le> length host"
  by (cases "host_state s") (auto simp: host_form_def)

lemma validate_host_valid:
  assumes "ngx_http_validate_host host alloc = (NGX_OK, h)"
  shows "valid_host h \<and> length h \<le> length host \<and> h = ngx_strlow (take (length h) host)"
proof -
  let ?s0 = "\<lparr>dot_pos = length host, host_len = length host, host_state = host_sw_usual, host_alloc = alloc\<rparr>"
  obtain s where s: "validate_host_loop 0 host ?s0 = Some s"
    using assms by (auto simp: ngx_http_validate_host_def split: option.splits)
  have "host_text [] (length host) ?s0" "host_form [] (length host) ?s0"
    by (simp_all add: host_text_def host_form_def)
  from validate_host_seen [OF this] s
  have seen: "host_text host (length host) s" "host_form host (length host) s" by auto
  define n where "n = (if Suc (dot_pos s) = host_len s then host_len s - 1 else host_len s)"
  have n: "0 < n" "n \<le> host_len s" and h: "h = (if host_alloc s then ngx_strlow (take n host) else take n host)"
    using assms s by (auto simp: ngx_http_validate_host_def Let_def n_def split: if_split_asm)
  have le: "n \<le> length host" using n(2) host_form_len [OF seen(2)] by simp
  have "\<not> host_alloc s \<Longrightarrow> \<not> Bex (set (take n host)) upper"
    using seen(1) by (auto simp: host_text_def dest: in_set_takeD)
  then have h_low: "h = ngx_strlow (take n host)" using h by (auto simp: strlow_lower)
  have "take n host \<noteq> []" using n(1) le by auto
  moreover have "ch_NUL \<notin> set (take n host)" "ch_slash \<notin> set (take n host)" "dots_apart (take n host)"
    using seen(1) by (auto simp: host_text_def dots_apart_take dest: in_set_takeD)
  moreover have "ch_colon \<in> set (take n host) \<Longrightarrow> hd (take n host) = ch_lbrack"
    using host_form_colon [OF seen(2)] set_take_subset_set_take [OF n(2), of host] n(1) by auto
  ultimately have "valid_host h"
    unfolding h_low valid_host_def
    by (auto simp: strlow_mem strlow_dots strlow_not_upper) (auto simp: ngx_strlow_def hd_map tolower_eq_iff)
  moreover have "length h = n" using h_low le by (simp add: ngx_strlow_def)
  ultimately show ?thesis using h_low le by simp
qed

subsection \<open>Names with a port\<close>

definition host_char :: "u_char \<Rightarrow> bool" where
  "host_char c \<longleftrightarrow> c \<notin> {ch_colon, ch_lbrack, ch_rbrack, ch_slash, ch_NUL}"

definition last_dot :: "u_char list \<Rightarrow> nat \<Rightarrow> nat \<Rightarrow> bool" where
  "last_dot seen n d \<longleftrightarrow> (Suc d = length seen \<longleftrightarrow> seen \<noteq> [] \<and> last seen = ch_dot) \<and> (d < length seen \<or> d = n)"

lemma validate_host_name:
  "list_all host_char xs \<Longrightarrow> dots_apart (seen @ xs) \<Longrightarrow> last_dot seen n (dot_pos s) \<Longrightarrow> length (seen @ xs) \<le> n \<Longrightarrow>
   \<exists>s'. validate_host_loop (length seen) (xs @ ys) s = validate_host_loop (length (seen @ xs)) ys s' \<and>
     last_dot (seen @ xs) n (dot_pos s') \<and> host_state s' = host_state s \<and> host_len s' = host_len s \<and>
     (host_alloc s' \<longleftrightarrow> host_alloc s \<or> Bex (set xs) upper)"
proof (induction xs arbitrary: seen s)
  case (Cons c xs)
  have apart: "dots_apart (seen @ [c])"
    using dots_apart_append [of "seen @ [c]" xs] Cons.prems(2) by simp
  obtain s1 where s1: "validate_host_step (length seen) c s = Some s1" "last_dot (seen @ [c]) n (dot_pos s1)"
    "host_state s1 = host_state s" "host_len s1 = host_len s" "host_alloc s1 \<longleftrightarrow> host_alloc s \<or> upper c"
  proof (cases "c = ch_dot")
    case True
    then have "Suc (dot_pos s) \<noteq> length seen"
      using apart Cons.prems(3) by (auto simp: last_dot_def dots_apart_snoc)
    with True show thesis
      by (intro that [of "s\<lparr>dot_pos := length seen\<rparr>"]) (simp_all add: validate_host_step_def last_dot_def upper_def)
  next
    case False
    with Cons.prems show thesis
      by (intro that [of "if upper c then s\<lparr>host_alloc := True\<rparr> else s"])
        (auto simp: validate_host_step_def last_dot_def host_char_def upper_def)
  qed
  then obtain s' where s': "validate_host_loop (length (seen @ [c])) (xs @ ys) s1 = validate_host_loop (length (seen @ c # xs)) ys s'"
    "last_dot (seen @ c # xs) n (dot_pos s')" "host_state s' = host_state s1" "host_len s' = host_len s1"
    "host_alloc s' \<longleftrightarrow> host_alloc s1 \<or> Bex (set xs) upper"
    using Cons.IH [of "seen @ [c]" s1] Cons.prems by auto
  show ?case by (rule exI [of _ s']) (use s1 s' in auto)
qed (use exI in auto)

lemma validate_host_port:
  assumes "list_all is_digit ds" "host_state s = host_sw_rest"
  shows "validate_host_loop i ds s = Some s"
  using assms(1)
proof (induction ds arbitrary: i)
  case (Cons c ds)
  then have "validate_host_step i c s = Some s"
    by (auto simp: validate_host_step_def is_digit_uint byte_simps u_char_eq_iff)
  with Cons show ?case by simp
qed simp

lemma validate_host_accepts:
  assumes "name \<noteq> []" "last name \<noteq> ch_dot" "list_all host_char name" "dots_apart name"
    and "dot \<in> {[], [ch_dot]}" and "port = [] \<or> (\<exists>ds. port = ch_colon # ds \<and> list_all is_digit ds)"
  shows "ngx_http_validate_host (name @ dot @ port) alloc = (NGX_OK, ngx_strlow name)"
proof -
  let ?host = "name @ dot @ port"
  let ?n = "length ?host"
  let ?s0 = "\<lparr>dot_pos = ?n, host_len = ?n, host_state = host_sw_usual, host_alloc = alloc\<rparr>"
  have "list_all host_char (name @ dot)" "dots_apart ([] @ name @ dot)"
    using assms(1-5) by (auto simp: dots_apart_snoc host_char_def)
  from validate_host_name [OF this, of ?n ?s0 port]
  obtain s where s: "validate_host_loop 0 ?host ?s0 = validate_host_loop (length (name @ dot)) port s"
    "last_dot (name @ dot) ?n (dot_pos s)" "host_state s = host_sw_usual" "host_len s = ?n"
    "host_alloc s \<longleftrightarrow> alloc \<or> Bex (set (name @ dot)) upper"
    by (auto simp: last_dot_def)
  obtain s' where s': "validate_host_loop 0 ?host ?s0 = Some s'" "dot_pos s' = dot_pos s" "host_alloc s' = host_alloc s"
    "host_len s' = length (name @ dot)"
  proof (cases port)
    case Nil
    with s(1,4) show thesis by (intro that [of s]) simp_all
  next
    case (Cons c ds)
    then have c: "c = ch_colon" "list_all is_digit ds" using assms(6) by auto
    then have "validate_host_step (length (name @ dot)) c s =
        Some (s\<lparr>host_len := length (name @ dot), host_state := host_sw_rest\<rparr>)"
      using s(3) by (simp add: validate_host_step_def)
    with validate_host_port [OF c(2)] s(1) Cons show thesis
      by (intro that [of "s\<lparr>host_len := length (name @ dot), host_state := host_sw_rest\<rparr>"]) simp_all
  qed
  have "Suc (dot_pos s') = host_len s' \<longleftrightarrow> dot = [ch_dot]"
    using s(2) s'(2,4) assms(1,2,5) by (auto simp: last_dot_def)
  then have hlen: "(if Suc (dot_pos s') = host_len s' then host_len s' - 1 else host_len s') = length name"
    using s'(4) assms(5) by auto
  have "\<not> host_alloc s' \<Longrightarrow> ngx_strlow name = name"
    using s(5) s'(3) by (auto intro: strlow_lower)
  then show ?thesis
    unfolding ngx_http_validate_host_def s'(1)
    using hlen assms(1) by (simp add: Let_def)
qed

subsection \<open>Properties\<close>

text \<open>C34: Whatever \<open>ngx_http_validate_host\<close> accepts becomes a well-formed host: not empty, without
  a zero byte or a slash, without two dots in a row, in lower case, and without a colon unless it
  is a literal in brackets; and it is the lower-case form of the first bytes of what was given.\<close>

theorem validate_host_type:
  assumes "ngx_http_validate_host host alloc = (NGX_OK, h)"
  shows "valid_host h \<and> length h \<le> length host \<and> h = ngx_strlow (take (length h) host)"
  by (rule validate_host_valid [OF assms])

lemma validate_host_type_witness:
  "valid_host (bytes ''a.b'')"
proof -
  have "ngx_http_validate_host (bytes ''A.b.:80'') False = (NGX_OK, bytes ''a.b'')"
    by (simp add: ngx_http_validate_host_def validate_host_step_def ngx_strlow_def ngx_tolower_def Let_def)
  from validate_host_type [OF this] show ?thesis by blast
qed

text \<open>A name, with or without the dot of the root, and with or without a port, is accepted,
  and what is looked up is the name in lower case without dot and port.\<close>

theorem validate_host_strips:
  assumes "name \<noteq> []" "last name \<noteq> ch_dot" "list_all host_char name" "dots_apart name"
    and "dot \<in> {[], [ch_dot]}" and "port = [] \<or> (\<exists>ds. port = ch_colon # ds \<and> list_all is_digit ds)"
  shows "ngx_http_validate_host (name @ dot @ port) alloc = (NGX_OK, ngx_strlow name)"
  by (rule validate_host_accepts [OF assms])

lemma validate_host_strips_witness:
  "ngx_http_validate_host (bytes ''Ab.c'' @ [ch_dot] @ bytes '':80'') False = (NGX_OK, ngx_strlow (bytes ''Ab.c''))"
  by (rule validate_host_strips) (simp_all add: host_char_def is_digit_def)

text \<open>
  The dot of the root stays when the rest of the value has a dot of its own: only the last dot of
  the whole value is compared with the end of the name.
\<close>

lemma validate_host_keeps_dot:
  "ngx_http_validate_host (bytes ''a.:8.0'') False = (NGX_OK, bytes ''a.'')"
  by (simp add: ngx_http_validate_host_def validate_host_step_def Let_def)

end
