(* ===== verification/Http_Request_Line_Form.thy ===== *)
theory Http_Request_Line_Form
  imports Http_Request_Line_Uri Http_Host
begin

section \<open>Request lines by their form\<close>

text \<open>
  The request line parser on a line written as a client writes it: the method code is the one of
  the method's name, and the fields frame exactly the pieces of the line. Then the step of
  \<open>ngx_http_process_request_line\<close> that follows, from the accepted line to the normalised URI and
  the validated host.
\<close>

subsection \<open>Method codes\<close>

definition http_methods :: "(u_char list \<times> nat) list" where
  "http_methods =
     [(bytes ''GET'', NGX_HTTP_GET), (bytes ''PUT'', NGX_HTTP_PUT), (bytes ''POST'', NGX_HTTP_POST),
      (bytes ''COPY'', NGX_HTTP_COPY), (bytes ''MOVE'', NGX_HTTP_MOVE), (bytes ''LOCK'', NGX_HTTP_LOCK),
      (bytes ''HEAD'', NGX_HTTP_HEAD), (bytes ''MKCOL'', NGX_HTTP_MKCOL), (bytes ''PATCH'', NGX_HTTP_PATCH),
      (bytes ''TRACE'', NGX_HTTP_TRACE), (bytes ''DELETE'', NGX_HTTP_DELETE), (bytes ''UNLOCK'', NGX_HTTP_UNLOCK),
      (bytes ''OPTIONS'', NGX_HTTP_OPTIONS), (bytes ''PROPFIND'', NGX_HTTP_PROPFIND),
      (bytes ''PROPPATCH'', NGX_HTTP_PROPPATCH)]"

definition method_code :: "u_char list \<Rightarrow> nat \<Rightarrow> nat" where
  "method_code m other = (case map_of http_methods m of Some c \<Rightarrow> c | None \<Rightarrow> other)"

lemma byte_range_front: "byte_range (pre @ xs) (length pre) (length pre + k) = take k xs"
  by (simp add: byte_range_def)

lemma strNcmp_word:
  "length w = length m \<Longrightarrow> ngx_strNcmp (pre @ m @ rest) (length pre) w \<longleftrightarrow> m = bytes w"
  by (simp add: ngx_strNcmp_def byte_range_front)

lemma strNcmp_space:
  assumes "length w = Suc (length m)"
  shows "ngx_strNcmp (pre @ m @ ch_SP # rest) (length pre) w \<longleftrightarrow> m @ [ch_SP] = bytes w"
proof -
  have "byte_range (pre @ (m @ [ch_SP]) @ rest) (length pre) (length pre + length (m @ [ch_SP])) = m @ [ch_SP]"
    by (rule byte_range_pieces) simp_all
  with assms show ?thesis by (simp add: ngx_strNcmp_def)
qed



lemma request_method_code:
  "rl_request_method (pre @ m @ ch_SP # rest) (length pre) (length pre + length m) other = method_code m other"
proof -
  let ?buf = "pre @ m @ ch_SP # rest"
  have cmp: "ngx_strNcmp ?buf (length pre) w \<longleftrightarrow> m = bytes w" if "length w = length m" for w
    by (rule strNcmp_word [OF that])
  have cmp1: "ngx_strNcmp ?buf (length pre) (w @ '' '') \<longleftrightarrow> m = bytes w" if "length w = length m" for w
    using strNcmp_space [of "w @ '' ''" m pre rest] that by (simp add: bytes_def)
  have second: "byte_range ?buf (length pre + 1) (length pre + 2) = [m ! 1]" if "length m = 4"
  proof -
    have "length pre + 1 < length ?buf" using that by simp
    with byte_range_snoc [of "length pre + 1" "length pre + 1" ?buf] that show ?thesis
      by (simp add: nth_append)
  qed
  have other_length: "length w \<noteq> length m \<Longrightarrow> (m = bytes w) = False" for w
    by (metis bytes_simps(3))
  consider "length m = 3" | "length m = 4" | "length m = 5" | "length m = 6" | "length m = 7" | "length m = 8" |
    "length m = 9" | "length m \<notin> {3, 4, 5, 6, 7, 8, 9}" by blast
  then show ?thesis
  proof cases
    case 1
    have "rl_request_method ?buf (length pre) (length pre + length m) other =
       (if m = bytes ''GET'' then NGX_HTTP_GET else if m = bytes ''PUT'' then NGX_HTTP_PUT else other)"
      unfolding rl_request_method_def Let_def add_diff_cancel_left' 1
      by (simp only: rel_simps refl if_True if_False cmp1 [of "''GET''", unfolded 1, simplified] cmp1 [of "''PUT''", unfolded 1, simplified]) simp
    also have "\<dots> = method_code m other"
      by (simp add: method_code_def http_methods_def other_length 1 del: bytes_simps)
    finally show ?thesis .
  next
    case 2
    note words = cmp [of "''POST''"] cmp [of "''COPY''"] cmp [of "''MOVE''"] cmp [of "''LOCK''"] cmp [of "''HEAD''"]
    have "rl_request_method ?buf (length pre) (length pre + length m) other =
       (if [m ! 1] = bytes ''O'' then
           (if m = bytes ''POST'' then NGX_HTTP_POST
            else if m = bytes ''COPY'' then NGX_HTTP_COPY
            else if m = bytes ''MOVE'' then NGX_HTTP_MOVE
            else if m = bytes ''LOCK'' then NGX_HTTP_LOCK
            else other)
         else if m = bytes ''HEAD'' then NGX_HTTP_HEAD else other)"
      unfolding rl_request_method_def Let_def add_diff_cancel_left' second [OF 2] 2
      by (simp only: rel_simps refl if_True if_False words [unfolded 2, simplified]) simp
    also have "\<dots> = method_code m other"
    proof (cases "[m ! 1] = bytes ''O''")
      case True
      then have "m \<noteq> bytes ''HEAD''" by auto
      with True show ?thesis by (simp add: method_code_def http_methods_def other_length 2 del: bytes_simps)
    next
      case False
      then have "m \<noteq> bytes ''POST''" "m \<noteq> bytes ''COPY''" "m \<noteq> bytes ''MOVE''" "m \<noteq> bytes ''LOCK''" by auto
      with False show ?thesis by (simp add: method_code_def http_methods_def other_length 2 del: bytes_simps)
    qed
    finally show ?thesis .
  next
    case 3
    have "rl_request_method ?buf (length pre) (length pre + length m) other =
       (if m = bytes ''MKCOL'' then NGX_HTTP_MKCOL else if m = bytes ''PATCH'' then NGX_HTTP_PATCH else if m = bytes ''TRACE'' then NGX_HTTP_TRACE else other)"
      unfolding rl_request_method_def Let_def add_diff_cancel_left' 3
      by (simp only: rel_simps refl if_True if_False cmp [of "''MKCOL''", unfolded 3, simplified] cmp [of "''PATCH''", unfolded 3, simplified] cmp [of "''TRACE''", unfolded 3, simplified]) simp
    also have "\<dots> = method_code m other"
      by (simp add: method_code_def http_methods_def other_length 3 del: bytes_simps)
    finally show ?thesis .
  next
    case 4
    have "rl_request_method ?buf (length pre) (length pre + length m) other =
       (if m = bytes ''DELETE'' then NGX_HTTP_DELETE else if m = bytes ''UNLOCK'' then NGX_HTTP_UNLOCK else other)"
      unfolding rl_request_method_def Let_def add_diff_cancel_left' 4
      by (simp only: rel_simps refl if_True if_False cmp [of "''DELETE''", unfolded 4, simplified] cmp [of "''UNLOCK''", unfolded 4, simplified]) simp
    also have "\<dots> = method_code m other"
      by (simp add: method_code_def http_methods_def other_length 4 del: bytes_simps)
    finally show ?thesis .
  next
    case 5
    have "rl_request_method ?buf (length pre) (length pre + length m) other =
       (if m = bytes ''OPTIONS'' then NGX_HTTP_OPTIONS else other)"
      unfolding rl_request_method_def Let_def add_diff_cancel_left' 5
      by (simp only: rel_simps refl if_True if_False cmp1 [of "''OPTIONS''", unfolded 5, simplified]) simp
    also have "\<dots> = method_code m other"
      by (simp add: method_code_def http_methods_def other_length 5 del: bytes_simps)
    finally show ?thesis .
  next
    case 6
    have "rl_request_method ?buf (length pre) (length pre + length m) other =
       (if m = bytes ''PROPFIND'' then NGX_HTTP_PROPFIND else other)"
      unfolding rl_request_method_def Let_def add_diff_cancel_left' 6
      by (simp only: rel_simps refl if_True if_False cmp [of "''PROPFIND''", unfolded 6, simplified]) simp
    also have "\<dots> = method_code m other"
      by (simp add: method_code_def http_methods_def other_length 6 del: bytes_simps)
    finally show ?thesis .
  next
    case 7
    have "rl_request_method ?buf (length pre) (length pre + length m) other =
       (if m = bytes ''PROPPATCH'' then NGX_HTTP_PROPPATCH else other)"
      unfolding rl_request_method_def Let_def add_diff_cancel_left' 7
      by (simp only: rel_simps refl if_True if_False cmp [of "''PROPPATCH''", unfolded 7, simplified]) simp
    also have "\<dots> = method_code m other"
      by (simp add: method_code_def http_methods_def other_length 7 del: bytes_simps)
    finally show ?thesis .
  next
    case 8
    then show ?thesis
      by (simp add: rl_request_method_def method_code_def http_methods_def other_length del: bytes_simps)
  qed
qed


text \<open>The pieces of a request line, each taken by the loop in turn.\<close>

definition method_char :: "u_char \<Rightarrow> bool" where
  "method_char ch \<longleftrightarrow> ch_A \<le> ch \<and> ch \<le> ch_Z \<or> ch = ch_under"

definition plain_uri_char :: "u_char \<Rightarrow> bool" where
  "plain_uri_char ch \<longleftrightarrow> ch \<noteq> ch_SP \<and> ch \<noteq> ch_CR \<and> ch \<noteq> ch_LF \<and> ch \<noteq> ch_NUL"

lemma method_char_test: "method_char ch \<Longrightarrow> \<not> ((ch < ch_A \<or> ch > ch_Z) \<and> ch \<noteq> ch_under) \<and> ch \<noteq> ch_SP \<and> ch \<noteq> ch_CR \<and> ch \<noteq> ch_LF"
  by (auto simp: method_char_def byte_simps u_char_eq_iff)

lemma scan_method_more:
  "rl_state s = rl_sw_method \<Longrightarrow> list_all method_char m \<Longrightarrow> scan (request_line_step buf) p m s = Inl s"
proof (induction m arbitrary: p)
  case (Cons ch m)
  then have "request_line_step buf s p ch = Next s"
    using method_char_test [of ch] by (auto simp: request_line_step_def rl_method_step_def)
  with Cons show ?case by simp
qed simp

lemma scan_method:
  assumes "rl_state s = rl_sw_start" "m \<noteq> []" "list_all method_char m"
  shows "scan (request_line_step buf) p m s = Inl (s\<lparr>request_start := p, rl_state := rl_sw_method\<rparr>)"
proof -
  obtain ch m' where m: "m = ch # m'" using assms(2) by (cases m) auto
  then have "request_line_step buf s p ch = Next (s\<lparr>request_start := p, rl_state := rl_sw_method\<rparr>)"
    using method_char_test [of ch] assms by (auto simp: request_line_step_def rl_method_step_def)
  with assms(3) m show ?thesis by (simp add: scan_method_more)
qed

text \<open>The fields that the URI states leave alone.\<close>

definition uri_kept :: "request_line \<Rightarrow> request_line \<Rightarrow> bool" where
  "uri_kept s s' \<longleftrightarrow> request_start s' = request_start s \<and> method_end s' = method_end s \<and>
     rl_method s' = rl_method s \<and> uri_start s' = uri_start s \<and> request_end s' = request_end s \<and>
     host_start s' = host_start s"

lemma uri_kept_trans: "uri_kept s s' \<Longrightarrow> uri_kept s' s'' \<Longrightarrow> uri_kept s s''"
  by (simp add: uri_kept_def)

lemma uri_char_step:
  assumes "rl_state s \<in> {rl_sw_after_slash_in_uri, rl_sw_check_uri, rl_sw_uri}" "plain_uri_char ch"
  shows "\<exists>s'. request_line_step buf s p ch = Next s' \<and>
    rl_state s' \<in> {rl_sw_after_slash_in_uri, rl_sw_check_uri, rl_sw_uri} \<and> uri_kept s s'"
  using assms
  by (auto simp: request_line_step_def rl_uri_step_def rl_after_slash_step_def rl_check_uri_step_def
      rl_plain_uri_step_def plain_uri_char_def uri_kept_def)

lemma scan_uri:
  "rl_state s \<in> {rl_sw_after_slash_in_uri, rl_sw_check_uri, rl_sw_uri} \<Longrightarrow> list_all plain_uri_char u \<Longrightarrow>
   \<exists>s'. scan (request_line_step buf) p u s = Inl s' \<and>
     rl_state s' \<in> {rl_sw_after_slash_in_uri, rl_sw_check_uri, rl_sw_uri} \<and> uri_kept s s'"
proof (induction u arbitrary: p s)
  case Nil
  then show ?case by (simp add: uri_kept_def)
next
  case (Cons ch u)
  then obtain s1 where s1: "request_line_step buf s p ch = Next s1" "uri_kept s s1"
    "rl_state s1 \<in> {rl_sw_after_slash_in_uri, rl_sw_check_uri, rl_sw_uri}"
    using uri_char_step [of s ch buf p] by auto
  with Cons.IH [of s1 "Suc p"] Cons.prems(2) show ?case by (auto intro: uri_kept_trans)
qed

lemma scan_version_digits:
  assumes "rl_state s = rl_sw_http_H" "is_digit d1" "d1 \<noteq> ch_0" "is_digit d0"
  shows "scan (request_line_step buf) p (bytes ''TTP/'' @ [d1, ch_dot, d0, ch_CR, ch_LF] @ rest) s =
    Inr (Rl_done (p + 8) (s\<lparr>http_major := ucast d1 - 48,
      http_minor := ucast d0 - 48, request_end := Some (p + 7), rl_state := rl_sw_almost_done\<rparr>))"
proof -
  have d: "\<not> (d1 < ch_1 \<or> d1 > ch_9)" "\<not> (d0 < ch_0 \<or> d0 > ch_9)"
    using assms(2-4) by (auto simp: is_digit_def byte_simps u_char_eq_iff)
  show ?thesis
    by (simp add: request_line_step_def rl_version_step_def assms(1) d [simplified])
qed

lemma scan_version:
  assumes "rl_state s \<in> {rl_sw_after_slash_in_uri, rl_sw_check_uri, rl_sw_uri}"
    and "is_digit d1" "d1 \<noteq> ch_0" "is_digit d0"
  shows "scan (request_line_step buf) p (bytes '' HTTP/'' @ [d1, ch_dot, d0, ch_CR, ch_LF] @ rest) s =
    Inr (Rl_done (p + 10) (s\<lparr>uri_end := p, http_protocol := Suc p, http_major := ucast d1 - 48,
      http_minor := ucast d0 - 48, request_end := Some (p + 9), rl_state := rl_sw_almost_done\<rparr>))"
proof -
  have usual: "\<not> is_usual ch_SP" by (simp add: is_usual_iff)
  define st where "st = (if rl_state s = rl_sw_uri then rl_sw_http_09 else rl_sw_check_uri_http_09)"
  have st: "st = rl_sw_check_uri_http_09 \<or> st = rl_sw_http_09"
    by (simp add: st_def)
  have step: "request_line_step buf s p ch_SP = Next (s\<lparr>uri_end := p, rl_state := st\<rparr>)"
    using assms(1) usual
    by (cases "rl_state s") (simp_all add: request_line_step_def rl_uri_step_def rl_after_slash_step_def
      rl_check_uri_step_def rl_plain_uri_step_def st_def)
  have "request_line_step buf (s\<lparr>uri_end := p, rl_state := st\<rparr>) (Suc p) ch_H =
      Next (s\<lparr>uri_end := p, http_protocol := Suc p, rl_state := rl_sw_http_H\<rparr>)"
    using st by (auto simp: request_line_step_def rl_uri_step_def)
  with step scan_version_digits [of "s\<lparr>uri_end := p, http_protocol := Suc p, rl_state := rl_sw_http_H\<rparr>" d1 d0 buf "Suc (Suc p)" rest]
    assms(2-4)
  show ?thesis by simp
qed

lemma scan_line_start:
  assumes "rl_state s = rl_sw_start" "m \<noteq> []" "list_all method_char m" "p = length pre"
    and "buf = pre @ m @ ch_SP # ch_slash # rest"
  shows "scan (request_line_step buf) p (m @ [ch_SP, ch_slash]) s =
    Inl (s\<lparr>request_start := p, method_end := p + length m - 1, rl_method := method_code m (rl_method s),
      uri_start := p + length m + 1, rl_state := rl_sw_after_slash_in_uri\<rparr>)"
proof -
  let ?s = "s\<lparr>request_start := p, rl_state := rl_sw_method\<rparr>"
  let ?t = "?s\<lparr>method_end := p + length m - 1, rl_method := method_code m (rl_method s), rl_state := rl_sw_spaces_before_uri\<rparr>"
  have "request_line_step buf ?s (p + length m) ch_SP = Next ?t"
    using request_method_code [of pre m "ch_slash # rest" "rl_method s"] assms(4,5)
    by (simp add: request_line_step_def rl_method_step_def)
  moreover have "request_line_step buf ?t (Suc (p + length m)) ch_slash =
      Next (?t\<lparr>uri_start := p + length m + 1, rl_state := rl_sw_after_slash_in_uri\<rparr>)"
    by (simp add: request_line_step_def rl_schema_step_def)
  ultimately show ?thesis
    using scan_method [OF assms(1-3), of buf p] by (simp add: scan_append)
qed

lemma http_digit_value:
  assumes "is_digit d"
  shows "unat (ucast d - 48 :: 16 word) = unat d - 48"
proof -
  have u: "unat (ucast d :: 16 word) = unat d"
    using less_trans [OF unat_u_char_less [of d], of 65536] by (simp add: unsigned_ucast_eq take_bit_nat_eq_self_iff)
  have "48 \<le> unat d" using assms by (simp add: is_digit_def unat_u_char_le_iff)
  then have "(48 :: 16 word) \<le> ucast d" by (simp add: word_le_nat_alt u)
  then show ?thesis by (simp add: unat_sub u)
qed

text \<open>The request line of a method, an absolute path with or without arguments, and a version.\<close>

definition request_line_text :: "u_char list \<Rightarrow> u_char list \<Rightarrow> u_char \<Rightarrow> u_char \<Rightarrow> u_char list" where
  "request_line_text m u major minor =
     m @ [ch_SP] @ u @ bytes '' HTTP/'' @ [major, ch_dot, minor, ch_CR, ch_LF]"

lemma request_line_parsed:
  assumes "m \<noteq> []" "list_all method_char m" "list_all plain_uri_char u"
    and "is_digit major" "major \<noteq> ch_0" "is_digit minor"
    and "rl_state r = rl_sw_start" "request_end r = None"
  shows "\<exists>r'. ngx_http_parse_request_line (pre @ request_line_text m (ch_slash # u) major minor @ rest) (length pre) r =
      (NGX_OK, length pre + length (request_line_text m (ch_slash # u) major minor), r') \<and>
    request_start r' = length pre \<and> method_end r' + 1 = length pre + length m \<and>
    rl_method r' = method_code m (rl_method r) \<and>
    uri_start r' = length pre + length m + 1 \<and> uri_end r' = uri_start r' + length (ch_slash # u) \<and>
    http_version r' = (unat major - 48) * 1000 + (unat minor - 48) \<and> host_start r' = host_start r"
proof -
  let ?p = "length pre" and ?tail = "bytes '' HTTP/'' @ [major, ch_dot, minor, ch_CR, ch_LF] @ rest"
  let ?buf = "pre @ request_line_text m (ch_slash # u) major minor @ rest"
  let ?s = "r\<lparr>request_start := ?p, method_end := ?p + length m - 1, rl_method := method_code m (rl_method r),
      uri_start := ?p + length m + 1, rl_state := rl_sw_after_slash_in_uri\<rparr>"
  have buf: "?buf = pre @ (m @ [ch_SP, ch_slash]) @ u @ ?tail" by (simp add: request_line_text_def)
  have start: "scan (request_line_step ?buf) ?p (m @ [ch_SP, ch_slash]) r = Inl ?s"
    by (rule scan_line_start [OF assms(7,1,2)]) (simp_all add: request_line_text_def)
  let ?q = "?p + length m + 2"
  obtain s1 where s1: "scan (request_line_step ?buf) ?q u ?s = Inl s1" "uri_kept ?s s1"
    "rl_state s1 \<in> {rl_sw_after_slash_in_uri, rl_sw_check_uri, rl_sw_uri}"
    using scan_uri [of ?s u ?buf ?q] assms(3) by auto
  have "drop ?p ?buf = (m @ [ch_SP, ch_slash]) @ u @ ?tail" by (simp add: buf)
  then have "scan (request_line_step ?buf) ?p (drop ?p ?buf) r =
      scan (request_line_step ?buf) (?q + length u) ?tail s1"
    using scan_append_Inl [OF start, of "u @ ?tail"] scan_append_Inl [OF s1(1), of ?tail] by simp
  with scan_version [OF s1(3) assms(4-6), of ?buf "?q + length u" rest]
  have line: "scan (request_line_step ?buf) ?p (drop ?p ?buf) r =
    Inr (Rl_done (?q + length u + 10) (s1\<lparr>uri_end := ?q + length u, http_protocol := Suc (?q + length u),
      http_major := ucast major - 48, http_minor := ucast minor - 48, request_end := Some (?q + length u + 9),
      rl_state := rl_sw_almost_done\<rparr>))"
    by simp
  have "48 \<le> unat major" "unat major \<noteq> 48"
    using assms(4,5) by (auto simp: is_digit_def unat_u_char_le_iff word_unat_eq_iff)
  then have "1000 \<le> (unat major - 48) * 1000 + (unat minor - 48)" by simp
  moreover have "length (request_line_text m (ch_slash # u) major minor) = length m + length u + 13"
    by (simp add: request_line_text_def)
  moreover have "0 < length m" using assms(1) by simp
  ultimately show ?thesis
    unfolding ngx_http_parse_request_line_def line
    using s1(2)
    by (simp add: Let_def http_digit_value [OF assms(4)] http_digit_value [OF assms(6)] uri_kept_def)
qed

subsection \<open>Properties\<close>

text \<open>C15: A request line of any method, absolute path and version digits is accepted wherever it
  stands in the buffer; the position is behind its line feed; the fields frame exactly the method
  and the URI, the method code is the one of the method's name, and the version is the one
  written.\<close>

theorem request_line_round_trip:
  assumes "m \<noteq> []" "list_all method_char m" "list_all plain_uri_char u"
    and "is_digit major" "major \<noteq> ch_0" "is_digit minor"
    and "rl_state r = rl_sw_start" "request_end r = None"
  defines "line \<equiv> request_line_text m (ch_slash # u) major minor"
  shows "\<exists>r'. ngx_http_parse_request_line (pre @ line @ rest) (length pre) r = (NGX_OK, length (pre @ line), r') \<and>
    byte_range (pre @ line @ rest) (request_start r') (method_end r' + 1) = m \<and>
    byte_range (pre @ line @ rest) (uri_start r') (uri_end r') = ch_slash # u \<and>
    rl_method r' = method_code m (rl_method r) \<and>
    http_version r' = (unat major - 48) * 1000 + (unat minor - 48)"
proof -
  from request_line_parsed [OF assms(1-8), of pre rest, folded line_def]
  obtain r' where r': "ngx_http_parse_request_line (pre @ line @ rest) (length pre) r =
      (NGX_OK, length pre + length line, r')"
    "request_start r' = length pre" "method_end r' + 1 = length pre + length m"
    "rl_method r' = method_code m (rl_method r)"
    "uri_start r' = length pre + length m + 1" "uri_end r' = uri_start r' + length (ch_slash # u)"
    "http_version r' = (unat major - 48) * 1000 + (unat minor - 48)"
    by (elim exE conjE) (rule that)
  have "byte_range (pre @ line @ rest) (request_start r') (method_end r' + 1) = m"
    unfolding line_def request_line_text_def append_assoc
    by (rule byte_range_pieces) (use r'(2,3) in simp_all)
  moreover have "byte_range ((pre @ m @ [ch_SP]) @ (ch_slash # u) @
      (bytes '' HTTP/'' @ [major, ch_dot, minor, ch_CR, ch_LF] @ rest)) (uri_start r') (uri_end r') = ch_slash # u"
    by (rule byte_range_pieces) (use r'(5,6) in simp_all)
  then have "byte_range (pre @ line @ rest) (uri_start r') (uri_end r') = ch_slash # u"
    by (simp add: line_def request_line_text_def)
  ultimately show ?thesis using r'(1,4,7) by auto
qed

lemma request_line_round_trip_witness:
  "\<exists>r'. ngx_http_parse_request_line ([] @ request_line_text (bytes ''PUT'') (ch_slash # bytes ''a?b'') ch_1 ch_0 @ []) 0
      fresh_request_line = (NGX_OK, 19, r') \<and> rl_method r' = NGX_HTTP_PUT \<and> http_version r' = 1000"
proof -
  have len: "length ([] @ request_line_text (bytes ''PUT'') (ch_slash # bytes ''a?b'') ch_1 ch_0) = 19"
    by (simp add: request_line_text_def)
  have "method_code (bytes ''PUT'') (rl_method fresh_request_line) = NGX_HTTP_PUT"
    by (simp add: method_code_def http_methods_def)
  moreover have "(unat ch_1 - 48) * 1000 + (unat ch_0 - 48) = 1000" by simp
  ultimately show ?thesis
    using request_line_round_trip [of "bytes ''PUT''" "bytes ''a?b''" ch_1 ch_0 fresh_request_line "[]" "[]", unfolded len]
    by (auto simp: method_char_def plain_uri_char_def is_digit_def fresh_request_line_def)
qed

end
