(* ===== verification/Http_Process_Request.thy ===== *)
theory Http_Process_Request
  imports Http_Request_Line_Form
begin

section \<open>From the request line to URI and host: \<open>ngx_http_process_request_line\<close>\<close>

text \<open>
  What \<open>ngx_http_process_request_line\<close> (\<open>src/http/ngx_http_request.c\<close>) does with the bytes that
  have arrived: the parser, then \<open>ngx_http_process_request_uri\<close> on the URI it framed, then the
  host of an absolute URI. Reading from the socket, growing the header buffer, logging and the
  choice of a virtual server are left out. The pointers the parser left in the URI fields are
  taken relative to \<open>uri_start\<close>, as the model of the URI functions has them. An offset into the
  buffer is never the null pointer for \<open>host_end\<close>, as a host has a schema before it.
\<close>

record request_info =
  method_name :: "u_char list"
  line_bytes :: "u_char list"
  line_uri :: uri_request
  server :: "u_char list"
  line_request :: request_line

datatype line_result = Line_again request_line | Line_finalize int | Line_fault | Line_ok request_info

definition unshift_uri :: "nat \<Rightarrow> uri_request \<Rightarrow> uri_request" where
  "unshift_uri k r = r\<lparr>uri_ext := map_option (\<lambda>e. e - k) (uri_ext r),
     args_start := map_option (\<lambda>e. e - k) (args_start r)\<rparr>"

definition request_line_host :: "u_char list \<Rightarrow> request_line \<Rightarrow> int + u_char list" where
  "request_line_host buf r =
     (case host_start r of
        None \<Rightarrow> Inr []
      | Some h \<Rightarrow>
          if host_end r = 0 then Inr []
          else (case ngx_http_validate_host (byte_range buf h (host_end r)) False of
                  (rc, host) \<Rightarrow> if rc = NGX_OK then Inr host else Inl NGX_HTTP_BAD_REQUEST))"

definition process_request_line :: "bool \<Rightarrow> u_char list \<Rightarrow> nat \<Rightarrow> request_line \<Rightarrow> line_result" where
  "process_request_line merge_slashes buf pos r =
     (case ngx_http_parse_request_line buf pos r of
        (rc, pos', r) \<Rightarrow>
          if rc = NGX_OK then
            (case ngx_http_process_request_uri (drop (uri_start r) buf) (uri_end r - uri_start r) merge_slashes
                    (unshift_uri (uri_start r) (rl_uri r)) of
               None \<Rightarrow> Line_fault
             | Some (Inl status) \<Rightarrow> Line_finalize status
             | Some (Inr u) \<Rightarrow>
                 (case request_line_host buf r of
                    Inl status \<Rightarrow> Line_finalize status
                  | Inr host \<Rightarrow>
                      Line_ok \<lparr>method_name = byte_range buf (request_start r) (method_end r + 1),
                        line_bytes = byte_range buf (request_start r)
                          (case request_end r of Some e \<Rightarrow> e | None \<Rightarrow> request_start r),
                        line_uri = u, server = host, line_request = r\<rparr>))
          else if rc = NGX_AGAIN then Line_again r
          else Line_finalize NGX_HTTP_BAD_REQUEST)"

subsection \<open>Putting the parts together\<close>

lemma unshift_shift: "unshift_uri k (shift_uri k r) = r"
  by (simp add: unshift_uri_def shift_uri_def option.map_comp comp_def map_option.identity)

text \<open>The URI of any accepted line, from the buffer to its normal form.\<close>

lemma request_line_uri_normal:
  assumes "ngx_http_parse_request_line buf pos r = (NGX_OK, pos', r')"
    and "pos \<le> length buf" "rl_state r = rl_sw_start" "rl_uri r = blank_request"
  defines "text \<equiv> byte_range buf (uri_start r') (uri_end r')"
  shows "case normalised merge text of
      None \<Rightarrow> ngx_http_process_request_uri (drop (uri_start r') buf) (uri_end r' - uri_start r') merge
        (unshift_uri (uri_start r') (rl_uri r')) = Some (Inl NGX_HTTP_BAD_REQUEST)
    | Some (path, rem) \<Rightarrow> \<exists>u. ngx_http_process_request_uri (drop (uri_start r') buf) (uri_end r' - uri_start r') merge
        (unshift_uri (uri_start r') (rl_uri r')) = Some (Inr u) \<and>
        uri u = path \<and> unparsed_uri u = text \<and>
        args u = (case rem of None \<Rightarrow> [] | Some q \<Rightarrow> takeWhile (\<lambda>c. c \<noteq> ch_hash) q)"
proof -
  have plain: "uri_ext (rl_uri r) = None" "args_start (rl_uri r) = None"
    using assms(4) by (simp_all add: blank_request_def)
  from request_line_frames [OF assms(1) refl assms(2,3)] plain
  have framed: "uri_framed buf (rl_uri r) pos' r'" "pos' \<le> length buf" by auto
  from uri_framed_parse [OF this] obtain r1 where r1:
    "ngx_http_parse_uri text (rl_uri r) = (NGX_OK, Some r1)"
    "rl_uri r' = shift_uri (uri_start r') r1" "uri_start r' < uri_end r'" "uri_end r' < pos'"
    unfolding text_def by blast
  let ?mem = "drop (uri_start r') buf" and ?n = "uri_end r' - uri_start r'"
  have "?n < length ?mem" "0 < ?n" using r1(3,4) framed(2) by simp_all
  moreover have e: "take ?n ?mem = text" by (simp add: text_def byte_range_def)
  moreover have "args (rl_uri r) = []" using assms(4) by (simp add: blank_request_def)
  ultimately show ?thesis
    unfolding r1(2) unshift_shift
    using process_uri_normal [of ?n ?mem "rl_uri r" r1 merge, unfolded e] r1(1) plain by simp
qed

text \<open>What the application sees of an accepted line: its method, URI, arguments and version.\<close>

definition line_view :: "line_result \<Rightarrow> int + (u_char list \<times> nat \<times> u_char list \<times> u_char list \<times> nat)" where
  "line_view res =
     (case res of
        Line_ok i \<Rightarrow> Inr (method_name i, rl_method (line_request i), uri (line_uri i), args (line_uri i),
          http_version (line_request i))
      | Line_finalize status \<Rightarrow> Inl status
      | _ \<Rightarrow> Inl 0)"

lemma process_line_view:
  assumes "m \<noteq> []" "list_all method_char m" "list_all plain_uri_char u"
    and "is_digit major" "major \<noteq> ch_0" "is_digit minor"
    and "rl_state r = rl_sw_start" "request_end r = None" "rl_uri r = blank_request" "host_start r = None"
  shows "line_view (process_request_line merge
      (pre @ request_line_text m (ch_slash # u) major minor @ rest) (length pre) r) =
    (case normalised merge (ch_slash # u) of
       None \<Rightarrow> Inl NGX_HTTP_BAD_REQUEST
     | Some (path, rem) \<Rightarrow>
         Inr (m, method_code m (rl_method r), path,
           case rem of None \<Rightarrow> [] | Some q \<Rightarrow> takeWhile (\<lambda>c. c \<noteq> ch_hash) q,
           (unat major - 48) * 1000 + (unat minor - 48)))"
proof -
  let ?buf = "pre @ request_line_text m (ch_slash # u) major minor @ rest"
  obtain r' where r': "ngx_http_parse_request_line ?buf (length pre) r =
      (NGX_OK, length pre + length (request_line_text m (ch_slash # u) major minor), r')"
    "request_start r' = length pre" "method_end r' + 1 = length pre + length m"
    "rl_method r' = method_code m (rl_method r)"
    "uri_start r' = length pre + length m + 1" "uri_end r' = uri_start r' + length (ch_slash # u)"
    "http_version r' = (unat major - 48) * 1000 + (unat minor - 48)" "host_start r' = host_start r"
    using request_line_parsed [OF assms(1-8), of pre rest] by (elim exE conjE) (rule that)
  have uri_text: "byte_range ?buf (uri_start r') (uri_end r') = ch_slash # u"
  proof -
    have "byte_range ((pre @ m @ [ch_SP]) @ (ch_slash # u) @
        (bytes '' HTTP/'' @ [major, ch_dot, minor, ch_CR, ch_LF] @ rest)) (uri_start r') (uri_end r') = ch_slash # u"
      by (rule byte_range_pieces) (use r'(5,6) in simp_all)
    then show ?thesis by (simp add: request_line_text_def)
  qed
  have name: "byte_range ?buf (request_start r') (method_end r' + 1) = m"
    unfolding request_line_text_def append_assoc
    by (rule byte_range_pieces) (use r'(2,3) in simp_all)
  let ?u = "ngx_http_process_request_uri (drop (uri_start r') ?buf) (uri_end r' - uri_start r') merge
    (unshift_uri (uri_start r') (rl_uri r'))"
  have no_host: "request_line_host ?buf r' = Inr []" using r'(8) assms(10) by (simp add: request_line_host_def)
  note normal = request_line_uri_normal [OF r'(1) _ assms(7,9), of merge, unfolded uri_text]
  show ?thesis
  proof (cases "normalised merge (ch_slash # u)")
    case None
    then have "?u = Some (Inl NGX_HTTP_BAD_REQUEST)" using normal by simp
    with None show ?thesis by (simp add: process_request_line_def r'(1) line_view_def)
  next
    case (Some pr)
    obtain path rem where pr: "pr = (path, rem)" by (cases pr)
    with Some normal obtain w where w: "?u = Some (Inr w)" "uri w = path"
      "args w = (case rem of None \<Rightarrow> [] | Some q \<Rightarrow> takeWhile (\<lambda>c. c \<noteq> ch_hash) q)" by auto
    with Some pr no_host name r'(4,7) show ?thesis
      by (simp add: process_request_line_def r'(1) line_view_def)
  qed
qed

text \<open>The outcomes on any buffer.\<close>

lemma request_line_host_ok:
  "request_line_host buf r = Inl status \<Longrightarrow> status = NGX_HTTP_BAD_REQUEST"
  "request_line_host buf r = Inr h \<Longrightarrow> h = [] \<or> valid_host h"
  using validate_host_valid
  by (auto simp: request_line_host_def split: option.splits if_split_asm prod.splits)

lemma process_line_outcome:
  assumes "pos \<le> length buf" "rl_state r = rl_sw_start" "rl_uri r = blank_request"
  shows "case process_request_line merge buf pos r of
      Line_again r' \<Rightarrow> True
    | Line_finalize status \<Rightarrow> status = NGX_HTTP_BAD_REQUEST
    | Line_fault \<Rightarrow> False
    | Line_ok i \<Rightarrow> (\<exists>rem. normalised merge (unparsed_uri (line_uri i)) = Some (uri (line_uri i), rem)) \<and>
        (server i = [] \<or> valid_host (server i))"
proof -
  obtain rc pos' r' where run: "ngx_http_parse_request_line buf pos r = (rc, pos', r')" by (metis prod_cases3)
  show ?thesis
  proof (cases "rc = NGX_OK")
    case False
    then show ?thesis by (simp add: process_request_line_def run)
  next
    case True
    let ?text = "byte_range buf (uri_start r') (uri_end r')"
    let ?u = "ngx_http_process_request_uri (drop (uri_start r') buf) (uri_end r' - uri_start r') merge
      (unshift_uri (uri_start r') (rl_uri r'))"
    note normal = request_line_uri_normal [OF run [unfolded True] assms, of merge]
    show ?thesis
    proof (cases "normalised merge ?text")
      case None
      then have "?u = Some (Inl NGX_HTTP_BAD_REQUEST)" using normal by simp
      with True show ?thesis by (simp add: process_request_line_def run)
    next
      case (Some pr)
      then obtain w where w: "?u = Some (Inr w)" "uri w = fst pr" "unparsed_uri w = ?text"
        using normal by (cases pr) auto
      have norm: "\<exists>rem. normalised merge (unparsed_uri w) = Some (uri w, rem)"
        using Some w(2,3) by (cases pr) simp
      show ?thesis
      proof (cases "request_line_host buf r'")
        case (Inl status)
        with True w(1) request_line_host_ok(1) show ?thesis by (simp add: process_request_line_def run)
      next
        case (Inr h)
        with True w(1) norm request_line_host_ok(2) show ?thesis by (simp add: process_request_line_def run)
      qed
    qed
  qed
qed

subsection \<open>Properties\<close>

text \<open>C13: A request line of a method, a path with or without arguments, and a version goes through
  parser and URI processing to the method with its code, the normal form of the path, the
  arguments and the version; it ends with status 400 exactly when the path has no normal form.\<close>

theorem process_request_line_normalises:
  assumes "m \<noteq> []" "list_all method_char m" "list_all plain_uri_char u"
    and "is_digit major" "major \<noteq> ch_0" "is_digit minor"
    and "rl_state r = rl_sw_start" "request_end r = None" "rl_uri r = blank_request" "host_start r = None"
  shows "line_view (process_request_line merge
      (pre @ request_line_text m (ch_slash # u) major minor @ rest) (length pre) r) =
    (case normalised merge (ch_slash # u) of
       None \<Rightarrow> Inl NGX_HTTP_BAD_REQUEST
     | Some (path, rem) \<Rightarrow>
         Inr (m, method_code m (rl_method r), path,
           case rem of None \<Rightarrow> [] | Some q \<Rightarrow> takeWhile (\<lambda>c. c \<noteq> ch_hash) q,
           (unat major - 48) * 1000 + (unat minor - 48)))"
  by (rule process_line_view [OF assms])

lemma process_request_line_normalises_witness:
  "line_view (process_request_line True
      ([] @ request_line_text (bytes ''GET'') (ch_slash # bytes ''a/../%62?c'') ch_1 ch_1 @ []) (length ([] :: u_char list))
      fresh_request_line) =
    Inr (bytes ''GET'', NGX_HTTP_GET, bytes ''/b'', bytes ''c'', 1001)"
  by (subst process_request_line_normalises)
    (simp_all add: method_char_def plain_uri_char_def is_digit_def fresh_request_line_def method_code_def
      http_methods_def normalised_def hex_digit_def render.simps split: option.splits)

text \<open>C14: Whatever the bytes, processing a request line reads and writes only its own memory, and
  ends in one of three ways: more bytes are needed, the client gets status 400, or the request
  has the normal form of its URI and a host that is absent or well formed.\<close>

theorem process_request_line_outcome:
  assumes "pos \<le> length buf" "rl_state r = rl_sw_start" "rl_uri r = blank_request"
  shows "case process_request_line merge buf pos r of
      Line_again r' \<Rightarrow> True
    | Line_finalize status \<Rightarrow> status = NGX_HTTP_BAD_REQUEST
    | Line_fault \<Rightarrow> False
    | Line_ok i \<Rightarrow> (\<exists>rem. normalised merge (unparsed_uri (line_uri i)) = Some (uri (line_uri i), rem)) \<and>
        (server i = [] \<or> valid_host (server i))"
  by (rule process_line_outcome [OF assms])

lemma process_request_line_outcome_witness:
  "process_request_line True (bytes ''GET x'') 0 fresh_request_line \<noteq> Line_fault"
  using process_request_line_outcome [of 0 "bytes ''GET x''" fresh_request_line True]
  by (auto simp: fresh_request_line_def split: line_result.splits)

end
