(* ===== verification/Upstream_Round_Robin.thy ===== *)
theory Upstream_Round_Robin
  imports Prelude
begin

section \<open>Round robin balancing of an upstream\<close>

text \<open>
  The smooth weighted round robin of \<open>src/http/ngx_http_upstream_round_robin.c\<close>: building the peers
  of an upstream from its servers, choosing a peer for a request, falling back to the backup
  peers, and giving the peer back with its success or failure. The linked list of peers is a
  list, the chain of peer groups (primary, backup) a list of groups. The bitmap of tried peers is
  kept as the words it consists of; a word outside of it is a fault, the value None. Weights
  and counters are kept at their width: what is stored in an \<open>ngx_int_t\<close> or a \<open>time_t\<close> goes through \<open>s64\<close>,
  what is stored in an \<open>ngx_uint_t\<close> is taken modulo \<open>2 ^ 64\<close>. The number of peers, each an object in memory, is a natural number. Shared memory
  locks, TLS sessions, logging and the connection itself are left out; \<open>ngx_time()\<close> is an argument.
\<close>

subsection \<open>Peers\<close>

record rr_peer =
  peer_addr :: string
  peer_server :: string
  current_weight :: int
  effective_weight :: int
  weight :: int
  conns :: int
  fails :: int
  accessed :: int
  checked :: int
  max_fails :: int
  fail_timeout :: int
  down :: bool

record rr_peers =
  number :: nat
  single :: bool
  weighted :: bool
  total_weight :: int
  peer :: "rr_peer list"

record upstream_server =
  srv_name :: string
  srv_addrs :: "string list"
  srv_weight :: int
  srv_max_fails :: int
  srv_fail_timeout :: int
  srv_down :: bool
  srv_backup :: bool

definition rr_peer_of :: "upstream_server \<Rightarrow> string \<Rightarrow> rr_peer" where
  "rr_peer_of s addr = \<lparr>peer_addr = addr, peer_server = srv_name s, current_weight = 0,
     effective_weight = s64 (srv_weight s), weight = s64 (srv_weight s), conns = 0, fails = 0, accessed = 0, checked = 0,
     max_fails = srv_max_fails s, fail_timeout = srv_fail_timeout s, down = srv_down s\<rparr>"

definition rr_group :: "upstream_server list \<Rightarrow> rr_peers" where
  "rr_group servers =
     (let n = sum_list (map (\<lambda>s. length (srv_addrs s)) servers);
          w = sum_list (map (\<lambda>s. int (length (srv_addrs s)) * srv_weight s) servers) mod 2 ^ 64
      in \<lparr>number = n, single = (n = 1), weighted = (w \<noteq> int n), total_weight = w,
          peer = concat (map (\<lambda>s. map (rr_peer_of s) (srv_addrs s)) servers)\<rparr>)"

text \<open>With servers configured in the upstream block; the value is the chain of groups.\<close>

definition ngx_http_upstream_init_round_robin :: "upstream_server list \<Rightarrow> int + rr_peers list" where
  "ngx_http_upstream_init_round_robin servers =
     (let peers = rr_group (filter (\<lambda>s. \<not> srv_backup s) servers); backup = rr_group (filter srv_backup servers) in
      if number peers = 0 then Inl NGX_ERROR
      else if number backup = 0 then Inr [peers]
      else Inr [peers\<lparr>single := False\<rparr>, backup\<lparr>single := False\<rparr>])"

text \<open>An upstream given by an address: \<open>addrs\<close> is what the name was resolved to.\<close>

definition init_round_robin_resolved :: "string \<Rightarrow> string list \<Rightarrow> rr_peers list" where
  "init_round_robin_resolved host addrs =
     [\<lparr>number = length addrs, single = (length addrs = 1), weighted = False, total_weight = int (length addrs),
       peer = map (\<lambda>a. \<lparr>peer_addr = a, peer_server = [], current_weight = 0, effective_weight = 1, weight = 1,
         conns = 0, fails = 0, accessed = 0, checked = 0, max_fails = 1, fail_timeout = 10, down = False\<rparr>) addrs\<rparr>]"

definition ngx_http_upstream_init_round_robin_peer :: "rr_peers list \<Rightarrow> 64 word list" where
  "ngx_http_upstream_init_round_robin_peer groups =
     (let n = (case groups of
                 [] \<Rightarrow> 0
               | [g] \<Rightarrow> number g
               | g # g2 # _ \<Rightarrow> if number g2 > number g then number g2 else number g)
      in if n \<le> 64 then [0] else replicate ((n + 63) div 64) 0)"

subsection \<open>Choosing a peer\<close>

definition tried_mask :: "nat \<Rightarrow> 64 word" where
  "tried_mask i = push_bit (i mod 64) 1"

definition rr_skipped :: "int \<Rightarrow> rr_peer \<Rightarrow> bool" where
  "rr_skipped now p \<longleftrightarrow> down p \<or> (max_fails p \<noteq> 0 \<and> fails p \<ge> max_fails p \<and> s64 (now - checked p) \<le> fail_timeout p)"

fun rr_scan ::
  "int \<Rightarrow> 64 word list \<Rightarrow> nat \<Rightarrow> rr_peer list \<Rightarrow> (nat \<times> int) option \<Rightarrow> int \<Rightarrow>
   (rr_peer list \<times> (nat \<times> int) option \<times> int) option"
where
  "rr_scan now tried i [] best tot = Some ([], best, tot)"
| "rr_scan now tried i (p # ps) best tot =
     (case rd tried (i div 64) of
        None \<Rightarrow> None
      | Some w \<Rightarrow>
          if w AND tried_mask i \<noteq> 0 \<or> rr_skipped now p then
            map_option (\<lambda>(ps', r). (p # ps', r)) (rr_scan now tried (Suc i) ps best tot)
          else
            (let cw = s64 (current_weight p + effective_weight p);
                 p' = p\<lparr>current_weight := cw,
                   effective_weight := (if effective_weight p < weight p then s64 (effective_weight p + 1)
                                        else effective_weight p)\<rparr>;
                 best' = (case best of
                            None \<Rightarrow> Some (i, cw)
                          | Some (b, bw) \<Rightarrow> if cw > bw then Some (i, cw) else best)
             in map_option (\<lambda>(ps', r). (p' # ps', r))
                  (rr_scan now tried (Suc i) ps best' (s64 (tot + effective_weight p)))))"

definition rr_take :: "int \<Rightarrow> int \<Rightarrow> rr_peer \<Rightarrow> rr_peer" where
  "rr_take now tot p =
     (let p = p\<lparr>current_weight := s64 (current_weight p - tot)\<rparr> in
      if s64 (now - checked p) > fail_timeout p then p\<lparr>checked := now\<rparr> else p)"

text \<open>The chosen peer (None for NULL), the bitmap, and the peers.\<close>

definition ngx_http_upstream_get_peer ::
  "int \<Rightarrow> 64 word list \<Rightarrow> rr_peer list \<Rightarrow> (nat option \<times> 64 word list \<times> rr_peer list) option"
where
  "ngx_http_upstream_get_peer now tried ps =
     (case rr_scan now tried 0 ps None 0 of
        None \<Rightarrow> None
      | Some (ps', None, tot) \<Rightarrow> Some (None, tried, ps')
      | Some (ps', Some (b, bw), tot) \<Rightarrow>
          (case rd tried (b div 64) of
             None \<Rightarrow> None
           | Some w \<Rightarrow> Some (Some b, tried[b div 64 := w OR tried_mask b], ps'[b := rr_take now tot (ps' ! b)])))"

text \<open>
  The value is the return code, how many groups further \<open>rrp->peers\<close> now points, the groups,
  the bitmap, and the chosen peer.
\<close>

fun ngx_http_upstream_get_round_robin_peer ::
  "int \<Rightarrow> rr_peers list \<Rightarrow> 64 word list \<Rightarrow> (int \<times> nat \<times> rr_peers list \<times> 64 word list \<times> nat option) option"
where
  "ngx_http_upstream_get_round_robin_peer now [] tried = None"
| "ngx_http_upstream_get_round_robin_peer now (g # next) tried =
     (case (if single g
            then (case peer g of [] \<Rightarrow> None | p # _ \<Rightarrow> Some (if down p then None else Some 0, tried, peer g))
            else ngx_http_upstream_get_peer now tried (peer g)) of
        None \<Rightarrow> None
      | Some (Some i, tried, ps) \<Rightarrow>
          Some (NGX_OK, 0, g\<lparr>peer := ps[i := (ps ! i)\<lparr>conns := (conns (ps ! i) + 1) mod 2 ^ 64\<rparr>]\<rparr> # next, tried, Some i)
      | Some (None, tried, ps) \<Rightarrow>
          (let live = g\<lparr>peer := map (\<lambda>p. p\<lparr>fails := 0\<rparr>) ps\<rparr> in
           case next of
             [] \<Rightarrow> Some (NGX_BUSY, 0, [live], tried, None)
           | backup # _ \<Rightarrow>
               (let n = (number backup + 63) div 64 in
                if length tried < n then None
                else
                  (case ngx_http_upstream_get_round_robin_peer now next (replicate n 0 @ drop n tried) of
                     None \<Rightarrow> None
                   | Some (rc, at, next', tried', cur) \<Rightarrow>
                       if rc \<noteq> NGX_BUSY then Some (rc, Suc at, g\<lparr>peer := ps\<rparr> # next', tried', cur)
                       else Some (NGX_BUSY, Suc at, live # next', tried', None)))))"

subsection \<open>Giving a peer back\<close>

text \<open>
  \<open>one\<close> is \<open>rrp->peers->single\<close>, \<open>failed\<close> the flag \<open>NGX_PEER_FAILED\<close> of the state. The division is
  the unsigned one, \<open>max_fails\<close> being an \<open>ngx_uint_t\<close>. The value is the peer and \<open>pc->tries\<close>.
\<close>

definition ngx_http_upstream_free_round_robin_peer ::
  "int \<Rightarrow> bool \<Rightarrow> bool \<Rightarrow> nat \<Rightarrow> rr_peer \<Rightarrow> rr_peer \<times> nat"
where
  "ngx_http_upstream_free_round_robin_peer now one failed tries p =
     (if one then (p\<lparr>conns := (conns p - 1) mod 2 ^ 64\<rparr>, 0)
      else
        (let p = (if failed then
                    (let p = p\<lparr>fails := (fails p + 1) mod 2 ^ 64, accessed := now, checked := now\<rparr>;
                         p = (if max_fails p \<noteq> 0
                              then p\<lparr>effective_weight := s64 (effective_weight p - weight p mod 2 ^ 64 div max_fails p)\<rparr> else p)
                     in if effective_weight p < 0 then p\<lparr>effective_weight := 0\<rparr> else p)
                  else if accessed p < checked p then p\<lparr>fails := 0\<rparr> else p)
         in (p\<lparr>conns := (conns p - 1) mod 2 ^ 64\<rparr>, if tries \<noteq> 0 then tries - 1 else tries)))"

subsection \<open>What a choice does\<close>

definition tried_bit :: "64 word list \<Rightarrow> nat \<Rightarrow> bool" where
  "tried_bit tried i \<longleftrightarrow> bit (tried ! (i div 64)) (i mod 64)"

lemma bit_tried_mask: "bit (tried_mask i) n \<longleftrightarrow> n = i mod 64"
  by (auto simp: tried_mask_def bit_exp_iff)

lemma tried_mask_bit: "w AND tried_mask i \<noteq> 0 \<longleftrightarrow> bit w (i mod 64)"
proof -
  have "bit (w AND tried_mask i) n \<longleftrightarrow> bit w n \<and> n = i mod 64" for n
    by (auto simp: bit_and_iff bit_tried_mask)
  then show ?thesis by (metis bit_0_eq bot_apply bot_bool_def bit_eqI)
qed

lemma tried_bit_set:
  assumes "b div 64 < length tried"
  shows "tried_bit (tried[b div 64 := tried ! (b div 64) OR tried_mask b]) i \<longleftrightarrow> tried_bit tried i \<or> i = b"
proof -
  have "i = b \<longleftrightarrow> i div 64 = b div 64 \<and> i mod 64 = b mod 64" by (metis div_mult_mod_eq)
  then show ?thesis
    using assms by (cases "i div 64 = b div 64") (auto simp: tried_bit_def bit_or_iff bit_tried_mask)
qed

definition rr_eligible :: "int \<Rightarrow> 64 word list \<Rightarrow> nat \<Rightarrow> rr_peer \<Rightarrow> bool" where
  "rr_eligible now tried i p \<longleftrightarrow> \<not> tried_bit tried i \<and> \<not> rr_skipped now p"

definition rr_offer :: "rr_peer \<Rightarrow> int" where
  "rr_offer p = s64 (current_weight p + effective_weight p)"

definition rr_raise :: "rr_peer \<Rightarrow> rr_peer" where
  "rr_raise p = p\<lparr>current_weight := rr_offer p,
     effective_weight := (if effective_weight p < weight p then s64 (effective_weight p + 1) else effective_weight p)\<rparr>"

fun rr_raised :: "int \<Rightarrow> 64 word list \<Rightarrow> nat \<Rightarrow> rr_peer list \<Rightarrow> rr_peer list" where
  "rr_raised now tried i [] = []"
| "rr_raised now tried i (p # ps) =
     (if rr_eligible now tried i p then rr_raise p else p) # rr_raised now tried (Suc i) ps"

fun rr_total :: "int \<Rightarrow> 64 word list \<Rightarrow> nat \<Rightarrow> rr_peer list \<Rightarrow> int" where
  "rr_total now tried i [] = 0"
| "rr_total now tried i (p # ps) =
     (if rr_eligible now tried i p then effective_weight p else 0) + rr_total now tried (Suc i) ps"

text \<open>The first of the best offers, given the best so far.\<close>

fun rr_best :: "int \<Rightarrow> 64 word list \<Rightarrow> nat \<Rightarrow> rr_peer list \<Rightarrow> (nat \<times> int) option \<Rightarrow> (nat \<times> int) option" where
  "rr_best now tried i [] best = best"
| "rr_best now tried i (p # ps) best =
     rr_best now tried (Suc i) ps
       (if rr_eligible now tried i p then
          (case best of None \<Rightarrow> Some (i, rr_offer p)
           | Some (b, bw) \<Rightarrow> if rr_offer p > bw then Some (i, rr_offer p) else best)
        else best)"

lemma rr_scan_parts:
  "i + length ps \<le> 64 * length tried \<Longrightarrow> s64 tot = tot \<Longrightarrow>
   rr_scan now tried i ps best tot =
     Some (rr_raised now tried i ps, rr_best now tried i ps best, s64 (tot + rr_total now tried i ps))"
proof (induction ps arbitrary: i best tot)
  case (Cons p ps)
  then have "i div 64 < length tried" by (simp add: less_mult_imp_div_less mult.commute)
  moreover from Cons.prems have "Suc i + length ps \<le> 64 * length tried" by simp
  moreover have "tried ! (i div 64) AND tried_mask i \<noteq> 0 \<or> rr_skipped now p \<longleftrightarrow> \<not> rr_eligible now tried i p"
    by (simp add: tried_mask_bit rr_eligible_def tried_bit_def)
  ultimately show ?case
    using Cons.IH Cons.prems(2) by (simp add: rr_raise_def rr_offer_def Let_def s64_add s64_s64 add.assoc split: option.splits)
qed simp

lemma rr_raised_length [simp]: "length (rr_raised now tried i ps) = length ps"
  by (induction ps arbitrary: i) simp_all

lemma rr_raised_nth:
  "j < length ps \<Longrightarrow> rr_raised now tried i ps ! j =
     (if rr_eligible now tried (i + j) (ps ! j) then rr_raise (ps ! j) else ps ! j)"
  by (induction ps arbitrary: i j) (auto simp: nth_Cons split: nat.splits)

lemma rr_best_None:
  "rr_best now tried i ps best = None \<longleftrightarrow>
   best = None \<and> (\<forall>j < length ps. \<not> rr_eligible now tried (i + j) (ps ! j))"
proof (induction ps arbitrary: i best)
  case (Cons p ps)
  have shift: "(\<forall>j < length (p # ps). \<not> rr_eligible now tried (i + j) ((p # ps) ! j)) \<longleftrightarrow>
      \<not> rr_eligible now tried i p \<and> (\<forall>j < length ps. \<not> rr_eligible now tried (Suc i + j) (ps ! j))"
    by (auto simp: less_Suc_eq_0_disj)
  show ?case unfolding shift using Cons.IH by (auto split: option.splits)
qed simp

definition rr_maximal :: "int \<Rightarrow> 64 word list \<Rightarrow> nat \<Rightarrow> rr_peer list \<Rightarrow> int \<Rightarrow> bool" where
  "rr_maximal now tried i ps bw \<longleftrightarrow> (\<forall>k < length ps. rr_eligible now tried (i + k) (ps ! k) \<longrightarrow> rr_offer (ps ! k) \<le> bw)"

lemma rr_maximal_Cons:
  "rr_maximal now tried i (p # ps) bw \<longleftrightarrow>
   (rr_eligible now tried i p \<longrightarrow> rr_offer p \<le> bw) \<and> rr_maximal now tried (Suc i) ps bw"
  by (auto simp: rr_maximal_def less_Suc_eq_0_disj)

lemma rr_best_Some:
  "rr_best now tried i ps best = Some (b, bw) \<Longrightarrow>
   rr_maximal now tried i ps bw \<and> (\<forall>b0 w0. best = Some (b0, w0) \<longrightarrow> w0 \<le> bw) \<and>
   (best = Some (b, bw) \<or>
    i \<le> b \<and> b < i + length ps \<and> rr_eligible now tried b (ps ! (b - i)) \<and> bw = rr_offer (ps ! (b - i)))"
proof (induction ps arbitrary: i best)
  case (Cons p ps)
  define best1 where "best1 = (if rr_eligible now tried i p then
       (case best of None \<Rightarrow> Some (i, rr_offer p)
        | Some (b, bw) \<Rightarrow> if rr_offer p > bw then Some (i, rr_offer p) else best) else best)"
  have "rr_best now tried (Suc i) ps best1 = Some (b, bw)"
    using Cons.prems by (simp only: rr_best.simps best1_def)
  note ih = Cons.IH [OF this]
  have best1: "best1 = best \<or> best1 = Some (i, rr_offer p) \<and> rr_eligible now tried i p"
    by (auto simp: best1_def split: option.splits)
  have ge: "rr_eligible now tried i p \<Longrightarrow> rr_offer p \<le> bw"
    using ih by (auto simp: best1_def split: option.splits if_split_asm)
  have ge': "best = Some (b0, w0) \<Longrightarrow> w0 \<le> bw" for b0 w0
    using ih by (auto simp: best1_def split: option.splits if_split_asm)
  have at: "Suc i \<le> b \<Longrightarrow> (p # ps) ! (b - i) = ps ! (b - Suc i)"
    by (simp add: nth_Cons' Suc_diff_Suc)
  show ?case
    using ih best1 ge ge' at by (auto simp: rr_maximal_Cons)
qed (simp add: rr_maximal_def)

text \<open>The choice: an eligible peer with a maximal offer, or none when there is none.\<close>

lemma get_peer_none:
  assumes "length ps \<le> 64 * length tried"
  shows "ngx_http_upstream_get_peer now tried ps = Some (None, tried', ps') \<longleftrightarrow>
    tried' = tried \<and> ps' = ps \<and> (\<forall>j < length ps. \<not> rr_eligible now tried j (ps ! j))"
proof -
  have same: "(\<forall>j < length ps. \<not> rr_eligible now tried j (ps ! j)) \<Longrightarrow> rr_raised now tried 0 ps = ps"
    by (rule nth_equalityI) (simp_all add: rr_raised_nth)
  show ?thesis
    using rr_scan_parts [where i = 0 and ps = ps and tried = tried and now = now and best = None and tot = 0] assms same rr_best_None [of now tried 0 ps None]
    by (auto simp: ngx_http_upstream_get_peer_def rd_def split: option.splits)
qed

lemma get_peer_some:
  assumes "length ps \<le> 64 * length tried"
    and "j < length ps" "rr_eligible now tried j (ps ! j)"
  obtains b where "b < length ps" "rr_eligible now tried b (ps ! b)"
    and "rr_maximal now tried 0 ps (rr_offer (ps ! b))"
    and "ngx_http_upstream_get_peer now tried ps =
      Some (Some b, tried[b div 64 := tried ! (b div 64) OR tried_mask b],
        (rr_raised now tried 0 ps)[b := rr_take now (s64 (rr_total now tried 0 ps)) (rr_raise (ps ! b))])"
proof -
  obtain b bw where best: "rr_best now tried 0 ps None = Some (b, bw)"
    using rr_best_None [of now tried 0 ps None] assms(2,3) by (metis add_0 not_None_eq surj_pair)
  from rr_best_Some [OF this] have b: "b < length ps" "rr_eligible now tried b (ps ! b)" "bw = rr_offer (ps ! b)"
    "rr_maximal now tried 0 ps (rr_offer (ps ! b))" by auto
  moreover have "b div 64 < length tried" using b(1) assms(1) by (simp add: less_mult_imp_div_less mult.commute)
  ultimately show thesis
    using rr_scan_parts [where i = 0 and ps = ps and tried = tried and now = now and best = None and tot = 0] assms(1) best
    by (intro that) (simp_all add: ngx_http_upstream_get_peer_def rr_raised_nth)
qed

subsection \<open>What a choice does to the weights\<close>

definition total_of :: "rr_peer list \<Rightarrow> int" where
  "total_of ps = sum_list (map weight ps)"

text \<open>
  What keeps the sums within \<open>ngx_int_t\<close>: not the weight of a peer alone but that of any set of peers is
  bounded, by the total weight times the numbers of the peers in the set and outside of it.
\<close>

definition weight_ok :: "rr_peer \<Rightarrow> bool" where
  "weight_ok p \<longleftrightarrow> 0 \<le> effective_weight p \<and> effective_weight p \<le> weight p"

definition spread :: "nat \<Rightarrow> int \<Rightarrow> (nat \<Rightarrow> int) \<Rightarrow> bool" where
  "spread n W c \<longleftrightarrow> (\<Sum>i<n. c i) = 0 \<and> (\<forall>T \<subseteq> {..<n}. (\<Sum>i\<in>T. c i) \<le> W * (int (card T) * (int n - int (card T))))"

definition weights_ok :: "rr_peer list \<Rightarrow> bool" where
  "weights_ok ps \<longleftrightarrow> list_all weight_ok ps \<and> spread (length ps) (total_of ps) (\<lambda>i. current_weight (ps ! i))"

definition total_fits :: "rr_peer list \<Rightarrow> bool" where
  "total_fits ps \<longleftrightarrow> int (length ps) * total_of ps \<le> NGX_MAX_INT_T_VALUE"

lemma spread_cong:
  assumes "\<And>i. i < n \<Longrightarrow> c i = c' i"
  shows "spread n W c = spread n W c'"
proof -
  have "(\<Sum>i\<in>T. c i) = (\<Sum>i\<in>T. c' i)" if "T \<subseteq> {..<n}" for T
    by (rule sum.cong) (use that assms in auto)
  then show ?thesis by (simp add: spread_def)
qed

text \<open>The set \<open>E\<close> is raised by the weights \<open>w\<close>, and one that is then maximal in it pays for all.\<close>

lemma spread_step:
  assumes c: "spread n W c" and E: "E \<subseteq> {..<n}" "b \<in> E" and w: "\<And>i. i < n \<Longrightarrow> 0 \<le> w i" "(\<Sum>i<n. w i) \<le> W"
    and best: "\<And>i. i \<in> E \<Longrightarrow> c i + w i \<le> c b + w b"
  shows "spread n W (\<lambda>i. c i + (if i \<in> E then w i else 0) - (if i = b then \<Sum>i\<in>E. w i else 0))" (is "spread n W ?c")
proof -
  have fin: "finite T" if "T \<subseteq> {..<n}" for T using that finite_subset by blast
  have new: "(\<Sum>i\<in>T. ?c i) = (\<Sum>i\<in>T. c i) + (\<Sum>i\<in>T \<inter> E. w i) - (if b \<in> T then \<Sum>i\<in>E. w i else 0)" if "T \<subseteq> {..<n}" for T
    using fin [OF that] by (simp add: sum.distrib sum_subtractf sum.delta sum.inter_restrict)
  have some: "(\<Sum>i\<in>T. w i) \<le> (\<Sum>i\<in>U. w i)" if "T \<subseteq> U" "U \<subseteq> {..<n}" for T U
    using that fin w(1) by (intro sum_mono2) auto
  have "(\<Sum>i\<in>T. ?c i) \<le> W * (int (card T) * (int n - int (card T)))" if T: "T \<subseteq> {..<n}" for T
  proof (cases "b \<in> T \<or> T \<inter> E = {}")
    case True
    have "(\<Sum>i\<in>T \<inter> E. w i) - (if b \<in> T then \<Sum>i\<in>E. w i else 0) \<le> 0"
      using True some [of "T \<inter> E" E] E(1) by (cases "b \<in> T") simp_all
    moreover have "(\<Sum>i\<in>T. c i) \<le> W * (int (card T) * (int n - int (card T)))" using c T unfolding spread_def by blast
    ultimately show ?thesis unfolding new [OF T] by linarith
  next
    case False
    then obtain i where i: "i \<in> T" "i \<in> E" and b: "b \<notin> T" by blast
    let ?k = "int (card T)"
    have "b \<in> {..<n}" using E by blast
    then have "(\<Sum>i\<in>insert b T. c i) \<le> W * (int (card (insert b T)) * (int n - int (card (insert b T))))"
      using c T unfolding spread_def by blast
    then have up: "(\<Sum>i\<in>T. c i) + c b \<le> W * ((?k + 1) * (int n - (?k + 1)))" using fin [OF T] b by (simp add: algebra_simps)
    have "T - {i} \<subseteq> {..<n}" using T by blast
    then have "(\<Sum>i\<in>T - {i}. c i) \<le> W * (int (card (T - {i})) * (int n - int (card (T - {i}))))"
      using c unfolding spread_def by blast
    moreover have "int (card (T - {i})) = ?k - 1" using card_Suc_Diff1 [OF fin [OF T] i(1)] by linarith
    moreover have "(\<Sum>i\<in>T - {i}. c i) = (\<Sum>i\<in>T. c i) - c i" using fin [OF T] i(1) by (simp add: sum_diff1)
    ultimately have down: "(\<Sum>i\<in>T. c i) - c i \<le> W * ((?k - 1) * (int n - (?k - 1)))" by simp
    have "insert b (T \<inter> E) \<subseteq> {..<n}" using \<open>b \<in> {..<n}\<close> T by blast
    then have "(\<Sum>i\<in>insert b (T \<inter> E). w i) \<le> W" using some [of "insert b (T \<inter> E)" "{..<n}"] w(2) by simp
    then have gain: "(\<Sum>i\<in>T \<inter> E. w i) + w b \<le> W" using fin [OF T] b by simp
    have "0 \<le> w i" "0 \<le> w b" using i(1) T w(1) \<open>b \<in> {..<n}\<close> by auto
    with best [OF i(2)] have "c i - c b \<le> w b" by linarith
    with up down have "2 * (\<Sum>i\<in>T. c i) \<le> W * ((?k + 1) * (int n - (?k + 1))) + W * ((?k - 1) * (int n - (?k - 1))) + w b" by linarith
    also have "\<dots> = 2 * (W * (?k * (int n - ?k))) - 2 * W + w b" by (simp add: algebra_simps)
    finally show ?thesis using new [OF T] b gain \<open>0 \<le> w b\<close> by simp
  qed
  moreover have "(\<Sum>i<n. ?c i) = 0"
    using new [of "{..<n}"] c E by (simp add: spread_def Int_absorb1 subset_iff)
  ultimately show ?thesis by (simp add: spread_def)
qed

lemma spread_bounds:
  assumes "spread n W c" "i < n"
  shows "c i \<le> W * (int n - 1)" "- (W * (int n - 1)) \<le> c i"
proof -
  have one: "{i} \<subseteq> {..<n}" "{..<n} - {i} \<subseteq> {..<n}" using assms(2) by auto
  then have "(\<Sum>j\<in>{i}. c j) \<le> W * (int (card {i}) * (int n - int (card {i})))"
    "(\<Sum>j\<in>{..<n} - {i}. c j) \<le> W * (int (card ({..<n} - {i})) * (int n - int (card ({..<n} - {i}))))"
    using assms(1) unfolding spread_def by blast+
  moreover have "(\<Sum>j\<in>{..<n} - {i}. c j) = - c i" using assms by (simp add: sum_diff1 spread_def)
  moreover have "int (card ({..<n} - {i})) = int n - 1" using assms(2) by simp
  ultimately show "c i \<le> W * (int n - 1)" "- (W * (int n - 1)) \<le> c i" by simp_all
qed

lemma rr_total_sum:
  "rr_total now tried i ps = (\<Sum>j<length ps. if rr_eligible now tried (i + j) (ps ! j) then effective_weight (ps ! j) else 0)"
proof (induction ps arbitrary: i)
  case (Cons p ps)
  then show ?case by (simp add: sum.lessThan_Suc_shift del: sum.lessThan_Suc cong: if_cong)
qed simp

lemma total_of_sum: "total_of ps = (\<Sum>i<length ps. weight (ps ! i))"
  by (simp add: total_of_def sum_list_sum_nth atLeast0LessThan)

lemma rr_take_fields [simp]:
  "effective_weight (rr_take now tot p) = effective_weight p" "weight (rr_take now tot p) = weight p"
  "fails (rr_take now tot p) = fails p" "max_fails (rr_take now tot p) = max_fails p"
  "down (rr_take now tot p) = down p" "current_weight (rr_take now tot p) = s64 (current_weight p - tot)"
  by (simp_all add: rr_take_def Let_def)

lemma rr_raise_fields [simp]:
  "weight (rr_raise p) = weight p" "fails (rr_raise p) = fails p" "max_fails (rr_raise p) = max_fails p"
  "down (rr_raise p) = down p" "current_weight (rr_raise p) = rr_offer p"
  by (simp_all add: rr_raise_def)

lemma weights_range:
  assumes "weights_ok ps" "total_fits ps" "i < length ps"
  shows "\<bar>current_weight (ps ! i)\<bar> \<le> (int (length ps) - 1) * total_of ps" "0 \<le> effective_weight (ps ! i)"
    "effective_weight (ps ! i) \<le> weight (ps ! i)" "weight (ps ! i) \<le> total_of ps"
    "(int (length ps) - 1) * total_of ps + total_of ps \<le> NGX_MAX_INT_T_VALUE"
    "rr_offer (ps ! i) = current_weight (ps ! i) + effective_weight (ps ! i)"
proof -
  have ok: "\<forall>j < length ps. 0 \<le> effective_weight (ps ! j) \<and> effective_weight (ps ! j) \<le> weight (ps ! j)"
    using assms(1) by (auto simp: weights_ok_def weight_ok_def list_all_length)
  then show e: "0 \<le> effective_weight (ps ! i)" "effective_weight (ps ! i) \<le> weight (ps ! i)" using assms(3) by simp_all
  have "0 \<le> weight (ps ! j)" if "j < length ps" for j using ok that by force
  then show w: "weight (ps ! i) \<le> total_of ps"
    unfolding total_of_sum using assms(3) by (intro member_le_sum) auto
  show c: "\<bar>current_weight (ps ! i)\<bar> \<le> (int (length ps) - 1) * total_of ps"
    using assms(1,3) spread_bounds [of "length ps" "total_of ps" "\<lambda>i. current_weight (ps ! i)" i]
    by (simp add: weights_ok_def abs_le_iff mult.commute)
  show f: "(int (length ps) - 1) * total_of ps + total_of ps \<le> NGX_MAX_INT_T_VALUE"
    using assms(2) by (simp add: total_fits_def algebra_simps)
  show "rr_offer (ps ! i) = current_weight (ps ! i) + effective_weight (ps ! i)"
    unfolding rr_offer_def using c f e w by (intro s64_id) linarith+
qed

text \<open>
  One choice, with all sums exact: the chosen peer has the greatest offer of those that may be tried, these
  are raised by their effective weights, and the chosen one pays for all.
\<close>

definition rr_chosen :: "int \<Rightarrow> 64 word list \<Rightarrow> nat \<Rightarrow> rr_peer list \<Rightarrow> rr_peer list \<Rightarrow> bool" where
  "rr_chosen now tried b ps ps' \<longleftrightarrow> length ps' = length ps \<and> (\<forall>i < length ps.
     (let p = ps ! i; p' = ps' ! i; elig = rr_eligible now tried i p in
      current_weight p' = current_weight p + (if elig then effective_weight p else 0) -
        (if i = b then rr_total now tried 0 ps else 0) \<and>
      effective_weight p' = (if elig \<and> effective_weight p < weight p then effective_weight p + 1 else effective_weight p) \<and>
      weight p' = weight p \<and> down p' = down p \<and> fails p' = fails p \<and> max_fails p' = max_fails p))"

lemma chosen_weights: "rr_chosen now tried b ps ps' \<Longrightarrow> map weight ps' = map weight ps"
  by (intro nth_equalityI) (simp_all add: rr_chosen_def Let_def)

lemma chosen_ok:
  assumes "weights_ok ps" "rr_chosen now tried b ps ps'" "b < length ps" "rr_eligible now tried b (ps ! b)"
    and "\<And>i. i < length ps \<Longrightarrow> rr_eligible now tried i (ps ! i) \<Longrightarrow>
      current_weight (ps ! i) + effective_weight (ps ! i) \<le> current_weight (ps ! b) + effective_weight (ps ! b)"
  shows "weights_ok ps'"
proof -
  let ?E = "{i. i < length ps \<and> rr_eligible now tried i (ps ! i)}"
  let ?c = "\<lambda>i. current_weight (ps ! i)" and ?w = "\<lambda>i. effective_weight (ps ! i)"
  have len: "length ps' = length ps" using assms(2) by (simp add: rr_chosen_def)
  have total: "total_of ps' = total_of ps" using chosen_weights [OF assms(2)] by (simp only: total_of_def)
  have w: "0 \<le> ?w i" "?w i \<le> weight (ps ! i)" if "i < length ps" for i
    using assms(1) that by (auto simp: weights_ok_def weight_ok_def list_all_length)
  have "(\<Sum>i<length ps. ?w i) \<le> total_of ps" unfolding total_of_sum using w(2) by (intro sum_mono) simp
  then have "spread (length ps) (total_of ps) (\<lambda>i. ?c i + (if i \<in> ?E then ?w i else 0) - (if i = b then \<Sum>i\<in>?E. ?w i else 0))"
    using assms(1,3-5) w(1) by (intro spread_step) (auto simp: weights_ok_def)
  moreover have "(\<Sum>i\<in>?E. ?w i) = rr_total now tried 0 ps"
    unfolding rr_total_sum using sum.inter_filter [of "{..<length ps}" ?w "\<lambda>i. rr_eligible now tried i (ps ! i)"] by simp
  ultimately have "spread (length ps) (total_of ps) (\<lambda>i. ?c i + (if i \<in> ?E then ?w i else 0) - (if i = b then rr_total now tried 0 ps else 0))"
    by (simp cong: if_cong)
  then have "spread (length ps) (total_of ps) (\<lambda>i. current_weight (ps' ! i))"
    by (rule spread_cong [THEN iffD1, rotated]) (use assms(2) in \<open>simp add: rr_chosen_def Let_def\<close>)
  moreover have "list_all weight_ok ps'"
    using assms(2) w len by (auto simp: rr_chosen_def Let_def list_all_length weight_ok_def)
  ultimately show ?thesis by (simp add: weights_ok_def len total)
qed

lemma rr_total_range:
  assumes "weights_ok ps" "total_fits ps"
  shows "0 \<le> rr_total now tried 0 ps" "rr_total now tried 0 ps \<le> total_of ps" "s64 (rr_total now tried 0 ps) = rr_total now tried 0 ps"
proof -
  have w: "0 \<le> effective_weight (ps ! i)" "effective_weight (ps ! i) \<le> weight (ps ! i)" if "i < length ps" for i
    using weights_range [OF assms that] by simp_all
  then show 0: "0 \<le> rr_total now tried 0 ps" unfolding rr_total_sum by (intro sum_nonneg) simp
  have "0 \<le> weight (ps ! i)" if "i < length ps" for i using w [OF that] by linarith
  with w show 1: "rr_total now tried 0 ps \<le> total_of ps" unfolding rr_total_sum total_of_sum by (intro sum_mono) simp
  show "s64 (rr_total now tried 0 ps) = rr_total now tried 0 ps"
  proof (cases "ps = []")
    case False
    then have "0 < length ps" by simp
    note r = weights_range [OF assms this]
    have "total_of ps \<le> NGX_MAX_INT_T_VALUE" using r(1,5) by linarith
    then show ?thesis using 0 1 by simp
  qed (simp add: s64_def)
qed

lemma get_peer_chosen:
  assumes "length ps \<le> 64 * length tried" "weights_ok ps" "total_fits ps"
    and "j < length ps" "rr_eligible now tried j (ps ! j)"
  obtains b ps' where "b < length ps" "rr_eligible now tried b (ps ! b)"
    and "\<And>i. i < length ps \<Longrightarrow> rr_eligible now tried i (ps ! i) \<Longrightarrow>
      current_weight (ps ! i) + effective_weight (ps ! i) \<le> current_weight (ps ! b) + effective_weight (ps ! b)"
    and "ngx_http_upstream_get_peer now tried ps = Some (Some b, tried[b div 64 := tried ! (b div 64) OR tried_mask b], ps')"
    and "rr_chosen now tried b ps ps'" "weights_ok ps'"
proof -
  let ?n = "int (length ps)" and ?W = "total_of ps" and ?t = "rr_total now tried 0 ps"
  obtain b where b: "b < length ps" "rr_eligible now tried b (ps ! b)" "rr_maximal now tried 0 ps (rr_offer (ps ! b))"
    "ngx_http_upstream_get_peer now tried ps =
      Some (Some b, tried[b div 64 := tried ! (b div 64) OR tried_mask b],
        (rr_raised now tried 0 ps)[b := rr_take now (s64 ?t) (rr_raise (ps ! b))])"
    using get_peer_some [OF assms(1,4,5)] .
  let ?ps = "(rr_raised now tried 0 ps)[b := rr_take now (s64 ?t) (rr_raise (ps ! b))]"
  note r = weights_range [OF assms(2,3)] and t = rr_total_range [OF assms(2,3), of now tried]
  have best: "current_weight (ps ! i) + effective_weight (ps ! i) \<le> current_weight (ps ! b) + effective_weight (ps ! b)"
    if "i < length ps" "rr_eligible now tried i (ps ! i)" for i
    using b(3) that r(6) [OF that(1)] r(6) [OF b(1)] by (auto simp: rr_maximal_def)
  have paid: "s64 (rr_offer (ps ! b) - ?t) = rr_offer (ps ! b) - ?t"
    using r(1-6) [OF b(1)] t(1,2) by (intro s64_id) linarith+
  have up: "effective_weight (rr_raise (ps ! i)) = (if effective_weight (ps ! i) < weight (ps ! i) then effective_weight (ps ! i) + 1 else effective_weight (ps ! i))"
    if "i < length ps" for i
    using r(1-5) [OF that] by (simp add: rr_raise_def)
  have "rr_chosen now tried b ps ?ps"
    unfolding rr_chosen_def Let_def
    using b(1,2) r(6) up paid by (auto simp: rr_raised_nth nth_list_update t(3))
  then show thesis using that [OF b(1,2) best b(4) _ chosen_ok [OF assms(2) _ b(1,2) best]] by blast
qed

lemma get_peer_ok:
  assumes "length ps \<le> 64 * length tried" "weights_ok ps" "total_fits ps"
    and "ngx_http_upstream_get_peer now tried ps = Some (cur, tried', ps')"
  shows "weights_ok ps'" "map weight ps' = map weight ps" "map max_fails ps' = map max_fails ps"
proof -
  have "weights_ok ps' \<and> map weight ps' = map weight ps \<and> map max_fails ps' = map max_fails ps"
  proof (cases "\<forall>j < length ps. \<not> rr_eligible now tried j (ps ! j)")
    case True
    then have "ngx_http_upstream_get_peer now tried ps = Some (None, tried, ps)"
      using get_peer_none [OF assms(1)] by blast
    with assms show ?thesis by simp
  next
    case False
    then obtain j where "j < length ps" "rr_eligible now tried j (ps ! j)" by blast
    from get_peer_chosen [OF assms(1-3) this] obtain b ps1 where
      "ngx_http_upstream_get_peer now tried ps = Some (Some b, tried[b div 64 := tried ! (b div 64) OR tried_mask b], ps1)"
      "rr_chosen now tried b ps ps1" "weights_ok ps1" by metis
    moreover from this(2) have "map max_fails ps1 = map max_fails ps"
      by (intro nth_equalityI) (simp_all add: rr_chosen_def Let_def)
    ultimately show ?thesis using assms(4) chosen_weights by auto
  qed
  then show "weights_ok ps'" "map weight ps' = map weight ps" "map max_fails ps' = map max_fails ps" by simp_all
qed

subsection \<open>Invariants of the weights\<close>

text \<open>The life of a group of peers, with any number of requests, failures and times in any order.\<close>

inductive rr_step :: "rr_peer list \<Rightarrow> rr_peer list \<Rightarrow> bool" where
  choose: "length ps \<le> 64 * length tried \<Longrightarrow>
    ngx_http_upstream_get_peer now tried ps = Some (cur, tried', ps') \<Longrightarrow> rr_step ps ps'"
| connect: "i < length ps \<Longrightarrow> rr_step ps (ps[i := (ps ! i)\<lparr>conns := (conns (ps ! i) + 1) mod 2 ^ 64\<rparr>])"
| give_back: "i < length ps \<Longrightarrow>
    rr_step ps (ps[i := fst (ngx_http_upstream_free_round_robin_peer now False failed tries (ps ! i))])"
| all_failed: "rr_step ps (map (\<lambda>p. p\<lparr>fails := 0\<rparr>) ps)"

inductive_cases rr_stepE: "rr_step ps ps'"

definition rr_sound :: "rr_peer list \<Rightarrow> bool" where
  "rr_sound ps \<longleftrightarrow> weights_ok ps \<and> total_fits ps \<and> list_all (\<lambda>p. 0 \<le> max_fails p) ps"

lemma list_all_update: "list_all P xs \<Longrightarrow> P y \<Longrightarrow> list_all P (xs[b := y])"
  unfolding list_all_length by (metis length_list_update nth_list_update_eq nth_list_update_neq)

lemma rr_sound_views:
  assumes "rr_sound ps" "map weight ps' = map weight ps" "map max_fails ps' = map max_fails ps" "weights_ok ps'"
  shows "rr_sound ps'"
proof -
  have "length ps' = length ps" by (rule map_eq_imp_length_eq [OF assms(2)])
  moreover have "total_of ps' = total_of ps" using assms(2) by (simp only: total_of_def)
  moreover have "list_all (\<lambda>m. 0 \<le> m) (map max_fails ps')" using assms(1) unfolding assms(3) by (simp add: rr_sound_def list.pred_map comp_def)
  ultimately show ?thesis using assms(1,4) by (simp add: rr_sound_def total_fits_def list.pred_map comp_def)
qed

text \<open>What does not touch the current weights of any peer.\<close>

lemma rr_sound_update:
  assumes "rr_sound ps" "i < length ps" "weight_ok p" "current_weight p = current_weight (ps ! i)"
    and "weight p = weight (ps ! i)" "max_fails p = max_fails (ps ! i)"
  shows "rr_sound (ps[i := p])" "map weight (ps[i := p]) = map weight ps"
proof -
  have m: "map weight (ps[i := p]) = map weight ps" "map max_fails (ps[i := p]) = map max_fails ps"
    using assms(2,5,6) by (intro nth_equalityI; auto simp: nth_list_update)+
  then show "map weight (ps[i := p]) = map weight ps" by simp
  have "total_of (ps[i := p]) = total_of ps" using m(1) by (simp only: total_of_def)
  moreover have "spread (length ps) (total_of ps) (\<lambda>j. current_weight (ps[i := p] ! j)) =
      spread (length ps) (total_of ps) (\<lambda>j. current_weight (ps ! j))"
    by (rule spread_cong) (use assms(2,4) in \<open>simp add: nth_list_update\<close>)
  ultimately have "weights_ok (ps[i := p])" using assms(1,3) by (simp add: rr_sound_def weights_ok_def list_all_update)
  with m show "rr_sound (ps[i := p])" by (intro rr_sound_views [OF assms(1)])
qed

lemma free_peer_ok:
  fixes now :: int and one failed :: bool and tries :: nat
  assumes "weight_ok p" "0 \<le> max_fails p" "weight p \<le> NGX_MAX_INT_T_VALUE"
  defines "p' \<equiv> fst (ngx_http_upstream_free_round_robin_peer now one failed tries p)"
  shows "weight_ok p'" "current_weight p' = current_weight p" "weight p' = weight p" "max_fails p' = max_fails p"
proof -
  have w: "0 \<le> weight p" "0 \<le> effective_weight p" "effective_weight p \<le> weight p" using assms(1) by (auto simp: weight_ok_def)
  have q: "0 \<le> weight p mod 2 ^ 64 div max_fails p \<and> weight p mod 2 ^ 64 div max_fails p \<le> weight p" if "max_fails p \<noteq> 0"
  proof -
    have "0 < max_fails p" using that assms(2) by simp
    then show ?thesis using w(1) assms(3) zdiv_mono2 [of "weight p" 1 "max_fails p"]
      by (simp add: pos_imp_zdiv_nonneg_iff) 
  qed
  show "weight_ok p'" "current_weight p' = current_weight p" "weight p' = weight p" "max_fails p' = max_fails p"
    using w q assms(3) by (auto simp: p'_def ngx_http_upstream_free_round_robin_peer_def Let_def weight_ok_def)
qed

lemma rr_step_sound: "rr_step ps ps' \<Longrightarrow> rr_sound ps \<Longrightarrow> rr_sound ps' \<and> map weight ps' = map weight ps"
proof (induction rule: rr_step.induct)
  case (choose ps tried now cur tried' ps')
  have "weights_ok ps" "total_fits ps" using choose.prems by (simp_all add: rr_sound_def)
  note ok = get_peer_ok [OF choose.hyps(1) this choose.hyps(2)]
  show ?case using rr_sound_views [OF choose.prems ok(2,3,1)] ok(2) by simp
next
  case (connect i ps)
  then have "weight_ok (ps ! i)" by (simp add: rr_sound_def weights_ok_def list_all_length)
  with connect show ?case by (auto intro!: rr_sound_update simp: weight_ok_def)
next
  case (give_back i ps now failed tries)
  have ok: "weights_ok ps" "total_fits ps" and p: "weight_ok (ps ! i)" "0 \<le> max_fails (ps ! i)"
    using give_back by (auto simp: rr_sound_def weights_ok_def list_all_length)
  have "weight (ps ! i) \<le> NGX_MAX_INT_T_VALUE" using weights_range(1,4,5) [OF ok give_back.hyps] by linarith
  note free = free_peer_ok [OF p this]
  show ?case using rr_sound_update [OF give_back.prems give_back.hyps free] by blast
next
  case (all_failed ps)
  let ?ps = "map (\<lambda>p. p\<lparr>fails := 0\<rparr>) ps"
  have m: "map weight ?ps = map weight ps" "map max_fails ?ps = map max_fails ps" by simp_all
  have "total_of ?ps = total_of ps" using m(1) by (simp only: total_of_def)
  moreover have "spread (length ps) (total_of ps) (\<lambda>i. current_weight (?ps ! i)) = spread (length ps) (total_of ps) (\<lambda>i. current_weight (ps ! i))"
    by (rule spread_cong) simp
  moreover have "list_all weight_ok ps" using all_failed by (simp add: rr_sound_def weights_ok_def)
  then have "list_all weight_ok ?ps" by (auto simp: list_all_iff weight_ok_def)
  ultimately have "weights_ok ?ps" using all_failed by (simp add: weights_ok_def rr_sound_def)
  then show ?case using rr_sound_views [OF all_failed m] m by blast
qed

lemma rr_steps_sound: "rr_step\<^sup>*\<^sup>* ps ps' \<Longrightarrow> rr_sound ps \<Longrightarrow> rr_sound ps' \<and> map weight ps' = map weight ps"
  by (induction rule: rtranclp_induct) (auto dest: rr_step_sound)

lemma rr_sound_bounds:
  assumes "rr_sound ps"
  shows "sum_list (map current_weight ps) = 0"
    "list_all (\<lambda>p. \<bar>current_weight p\<bar> \<le> (int (length ps) - 1) * total_of ps \<and> 0 \<le> effective_weight p \<and> effective_weight p \<le> weight p) ps"
proof -
  have ok: "weights_ok ps" "total_fits ps" using assms by (simp_all add: rr_sound_def)
  show "sum_list (map current_weight ps) = 0"
    using ok(1) by (simp add: weights_ok_def spread_def sum_list_sum_nth atLeast0LessThan)
  show "list_all (\<lambda>p. \<bar>current_weight p\<bar> \<le> (int (length ps) - 1) * total_of ps \<and> 0 \<le> effective_weight p \<and> effective_weight p \<le> weight p) ps"
    using weights_range(1-3) [OF ok] by (simp add: list_all_length)
qed

lemma fresh_weights:
  assumes "list_all weight_ok ps" "list_all (\<lambda>p. current_weight p = 0) ps"
  shows "weights_ok ps"
proof -
  have zero: "current_weight (ps ! i) = 0" if "i < length ps" for i using assms(2) that by (simp add: list_all_length)
  have "spread (length ps) (total_of ps) (\<lambda>i. current_weight (ps ! i)) = spread (length ps) (total_of ps) (\<lambda>i. 0)"
    by (rule spread_cong) (rule zero)
  moreover have "0 \<le> weight (ps ! i)" if "i < length ps" for i using assms(1) that by (force simp: list_all_length weight_ok_def)
  then have "0 \<le> total_of ps" unfolding total_of_sum by (intro sum_nonneg) simp
  moreover have "card T \<le> length ps" if "T \<subseteq> {..<length ps}" for T using card_mono [OF _ that] by simp
  ultimately show ?thesis using assms(1) by (auto simp: weights_ok_def spread_def intro!: mult_nonneg_nonneg)
qed

text \<open>What \<open>ngx_atoi\<close> can have given for the parameters of a server.\<close>

definition server_ok :: "upstream_server \<Rightarrow> bool" where
  "server_ok s \<longleftrightarrow> 0 \<le> srv_weight s \<and> srv_weight s \<le> NGX_MAX_INT_T_VALUE \<and> 0 \<le> srv_max_fails s"

lemma rr_group_peer: "p \<in> set (peer (rr_group servers)) \<longleftrightarrow> (\<exists>s \<in> set servers. \<exists>a \<in> set (srv_addrs s). p = rr_peer_of s a)"
  by (auto simp: rr_group_def Let_def)

lemma rr_group_sound:
  assumes "list_all server_ok servers" "total_fits (peer (rr_group servers))"
  shows "rr_sound (peer (rr_group servers))"
proof -
  have "weight_ok p \<and> current_weight p = 0 \<and> 0 \<le> max_fails p" if "p \<in> set (peer (rr_group servers))" for p
    using that assms(1) unfolding rr_group_peer by (auto simp: rr_peer_of_def weight_ok_def list_all_iff server_ok_def)
  then show ?thesis using assms(2) by (simp add: rr_sound_def fresh_weights list_all_iff)
qed

lemma init_groups_sound:
  assumes "ngx_http_upstream_init_round_robin servers = Inr groups" "list_all server_ok servers" "g \<in> set groups" "total_fits (peer g)"
  shows "rr_sound (peer g)"
proof -
  have "list_all server_ok (filter P servers)" for P using assms(2) by (simp add: list_all_iff)
  then have "total_fits (peer (rr_group (filter P servers))) \<Longrightarrow> rr_sound (peer (rr_group (filter P servers)))" for P
    by (rule rr_group_sound)
  with assms(1,3,4) show ?thesis
    by (auto simp: ngx_http_upstream_init_round_robin_def Let_def split: if_split_asm)
qed

subsection \<open>Groups, and running out of peers\<close>

definition group_ok :: "64 word list \<Rightarrow> rr_peers \<Rightarrow> bool" where
  "group_ok tried g \<longleftrightarrow> number g = length (peer g) \<and> peer g \<noteq> [] \<and> number g \<le> 64 * length tried"

definition group_usable :: "int \<Rightarrow> 64 word list \<Rightarrow> rr_peers \<Rightarrow> bool" where
  "group_usable now tried g \<longleftrightarrow>
     (if single g then \<not> down (hd (peer g))
      else \<exists>i < length (peer g). rr_eligible now tried i (peer g ! i))"

definition clear_tried :: "rr_peers \<Rightarrow> 64 word list \<Rightarrow> 64 word list" where
  "clear_tried g tried = (let n = (number g + 63) div 64 in replicate n 0 @ drop n tried)"

fun rr_usable :: "int \<Rightarrow> 64 word list \<Rightarrow> rr_peers list \<Rightarrow> bool" where
  "rr_usable now tried [] \<longleftrightarrow> False"
| "rr_usable now tried [g] \<longleftrightarrow> group_usable now tried g"
| "rr_usable now tried (g # g2 # gs) \<longleftrightarrow> group_usable now tried g \<or> rr_usable now (clear_tried g2 tried) (g2 # gs)"

definition all_live :: "rr_peers list \<Rightarrow> bool" where
  "all_live groups \<longleftrightarrow> list_all (\<lambda>g. list_all (\<lambda>p. fails p = 0) (peer g)) groups"

lemma clear_tried_length: "number g \<le> 64 * length tried \<Longrightarrow> length (clear_tried g tried) = length tried"
  by (simp add: clear_tried_def Let_def)

text \<open>The first group alone.\<close>

lemma group_choice:
  fixes now :: int
  assumes "group_ok tried g"
  defines "choice \<equiv> (if single g
      then (case peer g of [] \<Rightarrow> None | p # _ \<Rightarrow> Some (if down p then None else Some 0, tried, peer g))
      else ngx_http_upstream_get_peer now tried (peer g))"
  shows "if group_usable now tried g then \<exists>i tried' ps. choice = Some (Some i, tried', ps)
    else choice = Some (None, tried, peer g)"
proof (cases "single g")
  case True
  then show ?thesis using assms by (cases "peer g") (auto simp: group_usable_def choice_def group_ok_def)
next
  case False
  have len: "length (peer g) \<le> 64 * length tried" using assms(1) by (simp add: group_ok_def)
  show ?thesis
  proof (cases "group_usable now tried g")
    case True
    with False obtain j where "j < length (peer g)" "rr_eligible now tried j (peer g ! j)"
      by (auto simp: group_usable_def)
    from get_peer_some [OF len this] show ?thesis using False True unfolding choice_def by (metis (no_types, lifting))
  next
    case none: False
    with False have "\<forall>j < length (peer g). \<not> rr_eligible now tried j (peer g ! j)" by (auto simp: group_usable_def)
    with get_peer_none [OF len] False none show ?thesis by (auto simp: choice_def)
  qed
qed

lemma get_round_robin_outcome:
  "groups \<noteq> [] \<Longrightarrow> list_all (group_ok tried) groups \<Longrightarrow>
   \<exists>rc at groups' tried' cur.
     ngx_http_upstream_get_round_robin_peer now groups tried = Some (rc, at, groups', tried', cur) \<and>
     (if rr_usable now tried groups then rc = NGX_OK \<and> cur \<noteq> None else rc = NGX_BUSY \<and> all_live groups')"
proof (induction groups arbitrary: tried)
  case (Cons g gs)
  let ?choice = "if single g
      then (case peer g of [] \<Rightarrow> None | p # _ \<Rightarrow> Some (if down p then None else Some 0, tried, peer g))
      else ngx_http_upstream_get_peer now tried (peer g)"
  have choice: "if group_usable now tried g then \<exists>i tried' ps. ?choice = Some (Some i, tried', ps)
      else ?choice = Some (None, tried, peer g)"
    using group_choice [of tried g now] Cons.prems by simp
  show ?case
  proof (cases "group_usable now tried g")
    case True
    with choice obtain i tried' ps where "?choice = Some (Some i, tried', ps)" by auto
    then show ?thesis using True by (cases gs) simp_all
  next
    case False
    with choice have none: "?choice = Some (None, tried, peer g)" by simp
    have live: "all_live [g\<lparr>peer := map (\<lambda>p. p\<lparr>fails := 0\<rparr>) (peer g)\<rparr>]" by (simp add: all_live_def list_all_iff)
    show ?thesis
    proof (cases gs)
      case Nil
      with False none live show ?thesis by simp
    next
      case (Cons g2 gs2)
      have "group_ok tried g2" using Cons Cons.prems by simp
      then have room: "\<not> length tried < (number g2 + 63) div 64" "length (clear_tried g2 tried) = length tried"
        by (auto simp: group_ok_def clear_tried_length)
      have "list_all (group_ok (clear_tried g2 tried)) gs"
        using Cons.prems room(2) by (auto simp: group_ok_def list_all_iff)
      from Cons.IH [OF _ this] obtain rc at gs' tried' cur where ih:
        "ngx_http_upstream_get_round_robin_peer now gs (clear_tried g2 tried) = Some (rc, at, gs', tried', cur)"
        "if rr_usable now (clear_tried g2 tried) gs then rc = NGX_OK \<and> cur \<noteq> None else rc = NGX_BUSY \<and> all_live gs'"
        using Cons by auto
      then have "ngx_http_upstream_get_round_robin_peer now (g # gs) tried =
          (if rc \<noteq> NGX_BUSY then Some (rc, Suc at, g # gs', tried', cur)
           else Some (NGX_BUSY, Suc at, g\<lparr>peer := map (\<lambda>p. p\<lparr>fails := 0\<rparr>) (peer g)\<rparr> # gs', tried', None))"
        using none room(1) Cons by (simp add: clear_tried_def Let_def)
      with ih(2) False live Cons show ?thesis by (auto simp: all_live_def split: if_split_asm)
    qed
  qed
qed simp

text \<open>What the configuration and a new request start from.\<close>

lemma rr_group_number: "number (rr_group servers) = length (peer (rr_group servers))"
  by (induction servers) (simp_all add: rr_group_def Let_def)

lemma bitmap_words: "(m :: nat) \<le> n \<Longrightarrow> m \<le> 64 * ((n + 63) div 64)"
  by linarith

lemma init_peer_room:
  "number g \<le> 64 * length (ngx_http_upstream_init_round_robin_peer [g])"
  "number g \<le> 64 * length (ngx_http_upstream_init_round_robin_peer [g, g2])"
  "number g2 \<le> 64 * length (ngx_http_upstream_init_round_robin_peer [g, g2])"
  by (simp_all add: ngx_http_upstream_init_round_robin_peer_def Let_def bitmap_words)

lemma init_groups_form:
  assumes "ngx_http_upstream_init_round_robin servers = Inr groups"
  shows "groups \<noteq> [] \<and> list_all (group_ok (ngx_http_upstream_init_round_robin_peer groups)) groups \<and>
    list_all (\<lambda>g. single g \<longrightarrow> groups = [g] \<and> number g = 1) groups"
proof -
  let ?p = "rr_group (filter (\<lambda>s. \<not> srv_backup s) servers)" and ?b = "rr_group (filter srv_backup servers)"
  have p: "number ?p \<noteq> 0" using assms by (auto simp: ngx_http_upstream_init_round_robin_def Let_def split: if_split_asm)
  have single: "single (rr_group s) \<longleftrightarrow> number (rr_group s) = 1" for s by (simp add: rr_group_def Let_def)
  show ?thesis
  proof (cases "number ?b = 0")
    case True
    then have "groups = [?p]" using assms p by (simp add: ngx_http_upstream_init_round_robin_def Let_def)
    with p single show ?thesis
      using init_peer_room(1) [of ?p] rr_group_number [of "filter (\<lambda>s. \<not> srv_backup s) servers"]
      by (auto simp: group_ok_def)
  next
    case False
    then have g: "groups = [?p\<lparr>single := False\<rparr>, ?b\<lparr>single := False\<rparr>]"
      using assms p by (simp add: ngx_http_upstream_init_round_robin_def Let_def)
    show ?thesis
      unfolding g using p False init_peer_room(2,3) [where g = "?p\<lparr>single := False\<rparr>" and ?g2.0 = "?b\<lparr>single := False\<rparr>"]
        rr_group_number [of "filter (\<lambda>s. \<not> srv_backup s) servers"] rr_group_number [of "filter srv_backup servers"]
      by (auto simp: group_ok_def)
  qed
qed

subsection \<open>Fairness\<close>

text \<open>Requests one after the other, each with its own empty bitmap: the peers they got.\<close>

fun rr_run :: "int list \<Rightarrow> rr_peer list \<Rightarrow> (nat list \<times> rr_peer list) option" where
  "rr_run [] ps = Some ([], ps)"
| "rr_run (now # nows) ps =
     (case ngx_http_upstream_get_peer now (replicate ((length ps + 63) div 64) 0) ps of
        Some (Some i, _, ps') \<Rightarrow> map_option (\<lambda>(picks, ps''). (i # picks, ps'')) (rr_run nows ps')
      | _ \<Rightarrow> None)"

text \<open>A peer in service at its full weight.\<close>

definition in_service :: "rr_peer \<Rightarrow> bool" where
  "in_service p \<longleftrightarrow> \<not> down p \<and> (max_fails p = 0 \<or> fails p < max_fails p) \<and>
     effective_weight p = weight p \<and> 0 \<le> weight p"

lemma fresh_bit: "i < n \<Longrightarrow> \<not> tried_bit (replicate ((n + 63) div 64) 0) i"
proof -
  assume "i < n"
  then have "i div 64 < (n + 63) div 64" by linarith
  then show ?thesis by (simp add: tried_bit_def)
qed

lemma in_service_eligible:
  "in_service p \<Longrightarrow> i < n \<Longrightarrow> rr_eligible now (replicate ((n + 63) div 64) 0) i p"
  by (auto simp: rr_eligible_def fresh_bit rr_skipped_def in_service_def)

lemma rr_total_in_service:
  "list_all in_service ps \<Longrightarrow> i + length ps \<le> n \<Longrightarrow>
   rr_total now (replicate ((n + 63) div 64) 0) i ps = total_of ps"
proof (induction ps arbitrary: i)
  case (Cons p ps)
  then have "rr_eligible now (replicate ((n + 63) div 64) 0) i p"
    by (intro in_service_eligible) simp_all
  with Cons show ?case by (simp add: total_of_def in_service_def)
qed (simp add: total_of_def)

text \<open>After \<open>t\<close> requests of which \<open>ns ! i\<close> went to peer \<open>i\<close>.\<close>

definition rr_account :: "rr_peer list \<Rightarrow> nat \<Rightarrow> nat list \<Rightarrow> rr_peer list \<Rightarrow> bool" where
  "rr_account ps0 t ns ps \<longleftrightarrow>
     weights_ok ps \<and> total_fits ps \<and> list_all in_service ps \<and> map weight ps = map weight ps0 \<and>
     length ns = length ps0 \<and> sum_list ns = t \<and>
     (\<forall>i < length ps0. current_weight (ps ! i) = int t * weight (ps0 ! i) - int (ns ! i) * total_of ps0 \<and>
        int (ns ! i) \<le> weight (ps0 ! i))"

lemma positive_in_sum: "0 < sum_list (xs :: int list) \<Longrightarrow> \<exists>j < length xs. 0 < xs ! j"
proof (rule ccontr)
  assume "0 < sum_list xs" "\<not> (\<exists>j < length xs. 0 < xs ! j)"
  then have "\<And>x. x \<in> set xs \<Longrightarrow> x \<le> 0" by (metis in_set_conv_nth not_le)
  then have "sum_list xs \<le> 0" by (rule sum_list_nonpos)
  with \<open>0 < sum_list xs\<close> show False by simp
qed

lemma rr_account_step:
  assumes "rr_account ps0 t ns ps" "int t < total_of ps0"
  shows "\<exists>b tried' ps'. ngx_http_upstream_get_peer now (replicate ((length ps + 63) div 64) 0) ps =
      Some (Some b, tried', ps') \<and> b < length ps0 \<and> rr_account ps0 (Suc t) (ns[b := Suc (ns ! b)]) ps'"
proof -
  let ?tried = "replicate ((length ps + 63) div 64) 0 :: 64 word list" and ?W = "total_of ps0"
  let ?offer = "\<lambda>i. current_weight (ps ! i) + effective_weight (ps ! i)"
  have len: "length ps = length ps0" "length ns = length ps0" and service: "list_all in_service ps"
    and weights: "map weight ps = map weight ps0" and ok: "weights_ok ps" "total_fits ps"
    using assms(1) map_eq_imp_length_eq [of weight ps weight ps0] by (auto simp: rr_account_def)
  have W: "total_of ps = ?W" using weights by (simp only: total_of_def)
  have tot: "rr_total now ?tried 0 ps = ?W"
    using rr_total_in_service [OF service, of 0 "length ps" now] W by simp
  have room: "length ps \<le> 64 * length ?tried" by simp
  have w: "weight (ps ! i) = weight (ps0 ! i)" "effective_weight (ps ! i) = weight (ps0 ! i)" "in_service (ps ! i)"
    if "i < length ps0" for i
    using that len service arg_cong [OF weights, of "\<lambda>xs. xs ! i"] by (auto simp: list_all_length in_service_def)
  have cw: "?offer i = (int t + 1) * weight (ps0 ! i) - int (ns ! i) * ?W" "int (ns ! i) \<le> weight (ps0 ! i)"
    if "i < length ps0" for i
    using assms(1) that w(2) [OF that] by (simp_all add: rr_account_def algebra_simps)
  have "map effective_weight ps = map weight ps" using service by (auto simp: list_all_iff in_service_def)
  then have "sum_list (map (\<lambda>p. current_weight p + effective_weight p) ps) = sum_list (map current_weight ps) + sum_list (map weight ps)"
    unfolding sum_list_addf by (simp only:)
  also have "\<dots> = ?W"
    using ok(1) W by (simp add: weights_ok_def spread_def sum_list_sum_nth [of "map current_weight ps"] atLeast0LessThan total_of_def)
  finally have "0 < sum_list (map (\<lambda>p. current_weight p + effective_weight p) ps)" using assms(2) by simp
  from positive_in_sum [OF this] obtain j where j: "j < length ps0" "0 < ?offer j" using len by auto
  have elig: "rr_eligible now ?tried i (ps ! i)" if "i < length ps0" for i
    using in_service_eligible [OF w(3) [OF that]] that len by simp
  obtain b ps' where b: "b < length ps0" "\<And>i. i < length ps0 \<Longrightarrow> ?offer i \<le> ?offer b"
    "ngx_http_upstream_get_peer now ?tried ps = Some (Some b, ?tried[b div 64 := ?tried ! (b div 64) OR tried_mask b], ps')"
    "rr_chosen now ?tried b ps ps'" "weights_ok ps'"
    using get_peer_chosen [OF room ok _ elig [OF j(1)]] j(1) elig unfolding len(1) by metis
  have fresh: "int (ns ! b) < weight (ps0 ! b)"
  proof (rule ccontr)
    assume "\<not> int (ns ! b) < weight (ps0 ! b)"
    with cw [OF b(1)] have "?offer b = (int t + 1 - ?W) * weight (ps0 ! b)" by (simp add: algebra_simps)
    moreover have "int t + 1 - ?W \<le> 0" "0 \<le> weight (ps0 ! b)"
      using assms(2) cw(2) [OF b(1)] by simp_all
    ultimately have "?offer b \<le> 0" by (simp only: mult_nonpos_nonneg)
    with b(2) [OF j(1)] j(2) show False by simp
  qed
  have new: "in_service (ps' ! i)" "current_weight (ps' ! i) = ?offer i - (if i = b then ?W else 0)" if "i < length ps0" for i
    using b(4) w [OF that] elig [OF that] that len tot by (auto simp: rr_chosen_def Let_def in_service_def)
  have len': "length ps' = length ps0" using b(4) len by (simp add: rr_chosen_def)
  have weights': "map weight ps' = map weight ps0" using chosen_weights [OF b(4)] weights by simp
  then have "total_of ps' = ?W" by (simp only: total_of_def)
  then have "total_fits ps'" using ok(2) W len len' by (simp add: total_fits_def)
  moreover have "list_all in_service ps'" using new(1) len' by (simp add: list_all_length)
  moreover have "sum_list (ns[b := Suc (ns ! b)]) = Suc t"
    using assms(1) b(1) len elem_le_sum_list [of b ns] by (simp add: rr_account_def sum_list_update)
  moreover have "current_weight (ps' ! i) = int (Suc t) * weight (ps0 ! i) - int (ns[b := Suc (ns ! b)] ! i) * ?W \<and>
      int (ns[b := Suc (ns ! b)] ! i) \<le> weight (ps0 ! i)" if "i < length ps0" for i
  proof -
    have "ns[b := Suc (ns ! b)] ! i = (if i = b then Suc (ns ! b) else ns ! i)"
      using b(1) len by (simp add: nth_list_update)
    then show ?thesis
      unfolding new(2) [OF that] using cw [OF that] fresh by (cases "i = b") (simp_all add: algebra_simps)
  qed
  ultimately have "rr_account ps0 (Suc t) (ns[b := Suc (ns ! b)]) ps'"
    using len b(5) weights' by (simp add: rr_account_def)
  with b(1,3) show ?thesis by blast
qed

lemma rr_account_run:
  "rr_account ps0 t ns ps \<Longrightarrow> int (t + length nows) \<le> total_of ps0 \<Longrightarrow>
   \<exists>picks ps'. rr_run nows ps = Some (picks, ps') \<and>
     rr_account ps0 (t + length nows) (map (\<lambda>i. ns ! i + count_list picks i) [0..<length ps0]) ps'"
proof (induction nows arbitrary: t ns ps)
  case Nil
  then have "map (\<lambda>i. ns ! i) [0..<length ps0] = ns"
    by (intro nth_equalityI) (simp_all add: rr_account_def)
  with Nil show ?case by simp
next
  case (Cons now nows)
  then obtain b tried' ps1 where b: "ngx_http_upstream_get_peer now (replicate ((length ps + 63) div 64) 0) ps =
      Some (Some b, tried', ps1)" "b < length ps0" "rr_account ps0 (Suc t) (ns[b := Suc (ns ! b)]) ps1"
    using rr_account_step [OF Cons.prems(1), of now] Cons.prems(2) by (auto simp del: of_nat_Suc)
  have "int (Suc t + length nows) \<le> total_of ps0" using Cons.prems(2) by simp
  from Cons.IH [OF b(3) this] obtain picks ps' where ih: "rr_run nows ps1 = Some (picks, ps')"
    "rr_account ps0 (Suc t + length nows) (map (\<lambda>i. ns[b := Suc (ns ! b)] ! i + count_list picks i) [0..<length ps0]) ps'"
    by blast
  have "length ns = length ps0" using Cons.prems(1) by (simp add: rr_account_def)
  then have "map (\<lambda>i. ns[b := Suc (ns ! b)] ! i + count_list picks i) [0..<length ps0] =
      map (\<lambda>i. ns ! i + count_list (b # picks) i) [0..<length ps0]"
    by (auto simp: nth_list_update)
  with ih b(1) show ?case by (auto intro!: exI [of _ "b # picks"])
qed

lemma same_sum_same:
  assumes "length xs = length ys" "\<forall>i < length ys. xs ! i \<le> (ys ! i :: int)" "sum_list xs = sum_list ys"
  shows "xs = ys"
  using assms
proof (induction xs ys rule: list_induct2)
  case (Cons x xs y ys)
  then have le: "x \<le> y" "\<forall>i < length ys. xs ! i \<le> ys ! i" by force+
  have "sum_list xs \<le> sum_list ys"
    unfolding sum_list_sum_nth atLeast0LessThan Cons.hyps by (rule sum_mono) (use le(2) in simp)
  with le Cons show ?case by simp
qed simp

lemma rr_full_round:
  assumes "list_all in_service ps" "list_all (\<lambda>p. current_weight p = 0) ps" "int (length nows) = total_of ps" "total_fits ps"
  shows "\<exists>picks ps'. rr_run nows ps = Some (picks, ps') \<and>
    map (\<lambda>i. int (count_list picks i)) [0..<length ps] = map weight ps \<and> map current_weight ps' = map (\<lambda>_. 0) ps"
proof -
  have "list_all weight_ok ps" using assms(1) by (auto simp: list_all_iff in_service_def weight_ok_def)
  then have "weights_ok ps" by (rule fresh_weights) (rule assms(2))
  then have "rr_account ps 0 (replicate (length ps) 0) ps"
    using assms(1,2,4) by (auto simp: rr_account_def sum_list_replicate list_all_length in_service_def)
  from rr_account_run [OF this, of nows] assms(3) obtain picks ps' where run: "rr_run nows ps = Some (picks, ps')"
    "rr_account ps (0 + length nows) (map (\<lambda>i. replicate (length ps) 0 ! i + count_list picks i) [0..<length ps]) ps'"
    by auto
  have "map (\<lambda>i. replicate (length ps) 0 ! i + count_list picks i) [0..<length ps] = map (\<lambda>i. count_list picks i) [0..<length ps]"
    by simp
  with run(2) have run': "rr_account ps (length nows) (map (\<lambda>i. count_list picks i) [0..<length ps]) ps'"
    by (simp only: add_0)
  let ?n = "map (\<lambda>i. int (count_list picks i)) [0..<length ps]"
  have "sum_list ?n = int (sum_list (map (\<lambda>i. count_list picks i) [0..<length ps]))"
    by (simp add: sum_list_of_nat [symmetric] comp_def) 
  also have "\<dots> = total_of ps" using run' assms(3) by (simp add: rr_account_def)
  finally have eq: "?n = map weight ps"
    using run' by (intro same_sum_same) (simp_all add: rr_account_def total_of_def)
  have "length ps' = length ps"
    using run' map_eq_imp_length_eq [of weight ps' weight ps] by (simp add: rr_account_def)
  moreover have "current_weight (ps' ! i) = 0" if "i < length ps" for i
    using run' that arg_cong [OF eq, of "\<lambda>xs. xs ! i"] assms(3) by (simp add: rr_account_def)
  ultimately have "map current_weight ps' = map (\<lambda>_. 0) ps" by (intro nth_equalityI) simp_all
  with run(1) eq show ?thesis by blast
qed

subsection \<open>Properties\<close>

text \<open>C16: Fairness. While all peers are in service, as many requests as the weights add up to give
  every peer exactly as many requests as its weight, whenever they come, and leave the
  current weights at zero, so that the next round starts as this one did. The weights are those of
  \<open>ngx_int_t\<close>: the number of peers times the sum of their weights is to fit it.\<close>

theorem rr_fair:
  assumes "list_all in_service ps" "list_all (\<lambda>p. current_weight p = 0) ps" "int (length nows) = sum_list (map weight ps)"
    and "int (length ps) * sum_list (map weight ps) \<le> NGX_MAX_INT_T_VALUE"
  shows "\<exists>picks ps'. rr_run nows ps = Some (picks, ps') \<and>
    map (\<lambda>i. int (count_list picks i)) [0..<length ps] = map weight ps \<and> map current_weight ps' = map (\<lambda>_. 0) ps"
  by (rule rr_full_round [OF assms(1,2)]) (simp_all add: total_of_def total_fits_def assms(3,4))

definition sample_peers :: "rr_peer list" where
  "sample_peers = map (\<lambda>w. rr_peer_of \<lparr>srv_name = ''s'', srv_addrs = [''a''], srv_weight = w, srv_max_fails = 1,
     srv_fail_timeout = 10, srv_down = False, srv_backup = False\<rparr> ''a'') [5, 1, 1]"

lemma rr_fair_witness:
  "\<exists>picks ps'. rr_run [1, 1, 2, 3, 5, 8, 13] sample_peers = Some (picks, ps') \<and>
     map (\<lambda>i. int (count_list picks i)) [0..<3] = [5, 1, 1] \<and> map current_weight ps' = [0, 0, 0]"
proof -
  have facts: "list_all in_service sample_peers" "list_all (\<lambda>p. current_weight p = 0) sample_peers"
    by (simp_all add: sample_peers_def rr_peer_of_def in_service_def)
  have views: "length sample_peers = 3" "map weight sample_peers = [5, 1, 1]" "map (\<lambda>_. 0 :: int) sample_peers = [0, 0, 0]"
    by (simp_all add: sample_peers_def rr_peer_of_def)
  show ?thesis
    by (rule rr_fair [OF facts, of "[1, 1, 2, 3, 5, 8, 13]", unfolded views]) simp_all
qed

text \<open>C17: In any sequence of choices, connections, failures and successes of any requests, from
  the peers that the configuration makes on, the current weights of a group add up to zero, none is
  further from zero than the sum of the weights times one less than the number of peers, and every
  effective weight stays between zero and the configured weight. So nothing overflows, as long as the
  number of peers times the sum of their weights fits \<open>ngx_int_t\<close>.\<close>

theorem rr_invariant:
  assumes "ngx_http_upstream_init_round_robin servers = Inr groups" "list_all server_ok servers" "g \<in> set groups"
    and "int (length (peer g)) * sum_list (map weight (peer g)) \<le> NGX_MAX_INT_T_VALUE" "rr_step\<^sup>*\<^sup>* (peer g) ps"
  shows "sum_list (map current_weight ps) = 0 \<and>
    list_all (\<lambda>p. \<bar>current_weight p\<bar> \<le> (int (length (peer g)) - 1) * sum_list (map weight (peer g)) \<and>
      0 \<le> effective_weight p \<and> effective_weight p \<le> weight p) ps"
proof -
  have "rr_sound (peer g)"
    by (rule init_groups_sound [OF assms(1-3)]) (simp add: total_fits_def total_of_def assms(4))
  with rr_steps_sound [OF assms(5)] have "rr_sound ps" and m: "map weight ps = map weight (peer g)" by blast+
  moreover have "length ps = length (peer g)" by (rule map_eq_imp_length_eq [OF m])
  ultimately show ?thesis using rr_sound_bounds [of ps] by (simp add: total_of_def)
qed

lemma sample_choice:
  "\<exists>ps. ngx_http_upstream_get_peer 0 [0] sample_peers = Some (Some 0, [1], ps) \<and>
     map current_weight ps = [-2, 1, 1] \<and> map effective_weight ps = [5, 1, 1] \<and>
     map effective_weight (ps[0 := fst (ngx_http_upstream_free_round_robin_peer 0 False True 3 (ps ! 0))]) = [0, 1, 1] \<and>
     map current_weight (ps[0 := fst (ngx_http_upstream_free_round_robin_peer 0 False True 3 (ps ! 0))]) = [-2, 1, 1]"
  by (simp add: ngx_http_upstream_get_peer_def sample_peers_def rr_peer_of_def tried_mask_def rr_skipped_def rr_take_def
      ngx_http_upstream_free_round_robin_peer_def Let_def rd_def)

lemma rr_invariant_witness:
  "\<exists>ps. rr_step\<^sup>*\<^sup>* sample_peers ps \<and> map current_weight ps = [-2, 1, 1] \<and> map effective_weight ps = [0, 1, 1] \<and>
    sum_list (map current_weight ps) = 0 \<and> list_all (\<lambda>p. \<bar>current_weight p\<bar> \<le> 14 \<and> 0 \<le> effective_weight p) ps"
proof -
  let ?srv = "\<lambda>w. \<lparr>srv_name = ''s'', srv_addrs = [''a''], srv_weight = w, srv_max_fails = 1,
     srv_fail_timeout = 10, srv_down = False, srv_backup = False\<rparr>"
  have init: "ngx_http_upstream_init_round_robin (map ?srv [5, 1, 1]) = Inr [rr_group (map ?srv [5, 1, 1])]"
    by (simp add: ngx_http_upstream_init_round_robin_def rr_group_def Let_def)
  have peers: "peer (rr_group (map ?srv [5, 1, 1])) = sample_peers"
    by (simp add: rr_group_def sample_peers_def Let_def)
  obtain ps where ps: "ngx_http_upstream_get_peer 0 [0] sample_peers = Some (Some 0, [1], ps)"
    "map effective_weight (ps[0 := fst (ngx_http_upstream_free_round_robin_peer 0 False True 3 (ps ! 0))]) = [0, 1, 1]"
    "map current_weight (ps[0 := fst (ngx_http_upstream_free_round_robin_peer 0 False True 3 (ps ! 0))]) = [-2, 1, 1]"
    "map current_weight ps = [-2, 1, 1]"
    by (rule exE [OF sample_choice]) (elim conjE, rule that)
  let ?ps = "ps[0 := fst (ngx_http_upstream_free_round_robin_peer 0 False True 3 (ps ! 0))]"
  have "0 < length ps" using arg_cong [OF ps(4), of length] by simp
  then have "rr_step sample_peers ps" "rr_step ps ?ps"
    using rr_step.choose [OF _ ps(1)] rr_step.give_back [of 0 ps 0 True 3] by (simp_all add: sample_peers_def)
  then have steps: "rr_step\<^sup>*\<^sup>* sample_peers ?ps" by simp
  have "list_all server_ok (map ?srv [5, 1, 1])" by (simp add: server_ok_def)
  note inv = rr_invariant [OF init this, of "rr_group (map ?srv [5, 1, 1])", unfolded peers, OF _ _ steps]
  have views: "length sample_peers = 3" "map weight sample_peers = [5, 1, 1]"
    by (simp_all add: sample_peers_def rr_peer_of_def)
  have "sum_list (map current_weight ?ps) = 0 \<and>
      list_all (\<lambda>p. \<bar>current_weight p\<bar> \<le> 14 \<and> 0 \<le> effective_weight p \<and> effective_weight p \<le> weight p) ?ps"
    using inv unfolding views by simp
  then show ?thesis by (intro exI [of _ ?ps] conjI steps ps(2,3)) (auto simp: list_all_iff)
qed

text \<open>
  A weight may be as great as \<open>ngx_atoi\<close> gives, and nothing checks the sum: with three servers of
  the greatest weight the total wraps at the first choice, and the current weights no longer add up to zero.
\<close>

definition greatest_peers :: "rr_peer list" where
  "greatest_peers = map (\<lambda>_. rr_peer_of \<lparr>srv_name = ''s'', srv_addrs = [''a''], srv_weight = NGX_MAX_INT_T_VALUE, srv_max_fails = 1,
     srv_fail_timeout = 10, srv_down = False, srv_backup = False\<rparr> ''a'') [0 :: nat, 1, 2]"

lemma rr_weights_overflow:
  "\<exists>ps. ngx_http_upstream_get_peer 0 [0] greatest_peers = Some (Some 0, [1], ps) \<and>
     map current_weight ps = [2, NGX_MAX_INT_T_VALUE, NGX_MAX_INT_T_VALUE]"
proof -
  have "s64 18446744073709551614 = - 2" by (simp add: s64_def)
  then show ?thesis
    by (simp add: ngx_http_upstream_get_peer_def greatest_peers_def rr_peer_of_def tried_mask_def rr_skipped_def rr_take_def Let_def rd_def)
qed

text \<open>Asking for a peer never reads outside of the bitmap; it fails with NGX_BUSY exactly when
  no peer of this group or of the groups behind it may be tried, and then every peer is marked
  live again for the requests to come; otherwise a peer is chosen.\<close>

theorem rr_busy:
  assumes "groups \<noteq> []" "list_all (group_ok tried) groups"
  shows "\<exists>rc at groups' tried' cur.
     ngx_http_upstream_get_round_robin_peer now groups tried = Some (rc, at, groups', tried', cur) \<and>
     (if rr_usable now tried groups then rc = NGX_OK \<and> cur \<noteq> None else rc = NGX_BUSY \<and> all_live groups')"
  by (rule get_round_robin_outcome [OF assms])

lemma rr_busy_witness:
  "\<exists>at groups' tried' cur. ngx_http_upstream_get_round_robin_peer 0
      [\<lparr>number = 3, single = False, weighted = True, total_weight = 7, peer = sample_peers\<rparr>] [7] =
        Some (NGX_BUSY, at, groups', tried', cur)"
proof -
  let ?g = "\<lparr>number = 3, single = False, weighted = True, total_weight = 7, peer = sample_peers\<rparr>"
  have "group_ok [7] ?g" by (simp add: group_ok_def sample_peers_def)
  moreover have "\<not> rr_usable 0 [7] [?g]"
  proof -
    have "bit (7 :: 64 word) 0" "bit (7 :: 64 word) 1" "bit (7 :: 64 word) 2" by simp_all
    then have "tried_bit [7] i" if "i < 3" for i
      using that by (auto simp: tried_bit_def numeral_3_eq_3 less_Suc_eq)
    then show ?thesis by (auto simp: group_usable_def rr_eligible_def sample_peers_def)
  qed
  ultimately show ?thesis using rr_busy [of "[?g]" "[7]" 0] by auto
qed

text \<open>A choice follows the weights: the chosen peer is one that may be tried, none of the
  others offers more, its bit and no other is set in the bitmap, so that a request never gets
  the same peer twice; and no peer is chosen only when none may be tried.\<close>

theorem get_peer_choice:
  assumes "length ps \<le> 64 * length tried"
    and "ngx_http_upstream_get_peer now tried ps = Some (cur, tried', ps')"
  shows "case cur of
      None \<Rightarrow> tried' = tried \<and> ps' = ps \<and> (\<forall>j < length ps. \<not> rr_eligible now tried j (ps ! j))
    | Some b \<Rightarrow> b < length ps \<and> rr_eligible now tried b (ps ! b) \<and> rr_maximal now tried 0 ps (rr_offer (ps ! b)) \<and>
        (\<forall>i. tried_bit tried' i \<longleftrightarrow> tried_bit tried i \<or> i = b)"
proof (cases "\<forall>j < length ps. \<not> rr_eligible now tried j (ps ! j)")
  case True
  with get_peer_none [OF assms(1), of now tried ps] assms(2) show ?thesis by auto
next
  case False
  then obtain j where "j < length ps" "rr_eligible now tried j (ps ! j)" by blast
  from get_peer_some [OF assms(1) this] obtain b where b: "b < length ps" "rr_eligible now tried b (ps ! b)"
    "rr_maximal now tried 0 ps (rr_offer (ps ! b))"
    "ngx_http_upstream_get_peer now tried ps =
      Some (Some b, tried[b div 64 := tried ! (b div 64) OR tried_mask b],
        (rr_raised now tried 0 ps)[b := rr_take now (s64 (rr_total now tried 0 ps)) (rr_raise (ps ! b))])" .
  have "b div 64 < length tried" using b(1) assms(1) by (simp add: less_mult_imp_div_less mult.commute)
  from tried_bit_set [OF this] b assms(2) show ?thesis by auto
qed

lemma get_peer_choice_witness:
  "\<exists>ps'. ngx_http_upstream_get_peer 0 [0] sample_peers = Some (Some 0, [1], ps') \<and> rr_eligible 0 [0] 0 (sample_peers ! 0)"
proof -
  have run: "\<exists>ps'. ngx_http_upstream_get_peer 0 [0] sample_peers = Some (Some 0, [1], ps')"
    by (simp add: ngx_http_upstream_get_peer_def sample_peers_def rr_peer_of_def tried_mask_def rr_skipped_def Let_def rd_def)
  then obtain ps' where ps': "ngx_http_upstream_get_peer 0 [0] sample_peers = Some (Some 0, [1], ps')" by blast
  have "length sample_peers \<le> 64 * length [0 :: 64 word]" by (simp add: sample_peers_def)
  from get_peer_choice [OF this ps'] ps' show ?thesis by simp
qed

text \<open>Configuration and request start well formed: every group has at least one peer, as many
  as its count says, all of them have a bit in the new bitmap, and the shortcut for a single peer
  is taken only for an upstream that consists of one peer.\<close>

theorem rr_init_type:
  assumes "ngx_http_upstream_init_round_robin servers = Inr groups"
  shows "groups \<noteq> [] \<and> list_all (group_ok (ngx_http_upstream_init_round_robin_peer groups)) groups \<and>
    list_all (\<lambda>g. single g \<longrightarrow> groups = [g] \<and> number g = 1) groups"
  by (rule init_groups_form [OF assms])

lemma rr_init_type_witness:
  "\<exists>g. ngx_http_upstream_init_round_robin [\<lparr>srv_name = ''s'', srv_addrs = [''a'', ''b''], srv_weight = 2,
      srv_max_fails = 1, srv_fail_timeout = 10, srv_down = False, srv_backup = False\<rparr>] = Inr [g] \<and> group_ok [0] g"
proof -
  let ?srv = "\<lparr>srv_name = ''s'', srv_addrs = [''a'', ''b''], srv_weight = 2,
      srv_max_fails = 1, srv_fail_timeout = 10, srv_down = False, srv_backup = False\<rparr>"
  have "ngx_http_upstream_init_round_robin [?srv] = Inr [rr_group [?srv]]"
    by (simp add: ngx_http_upstream_init_round_robin_def rr_group_def Let_def)
  from rr_init_type [OF this] this show ?thesis
    by (auto simp: ngx_http_upstream_init_round_robin_peer_def rr_group_def Let_def)
qed

end
