(* ===== verification/Base64.thy ===== *)
theory Base64
  imports Prelude
begin

section \<open>Base64\<close>

text \<open>
  \<open>ngx_encode_base64\<close>, \<open>ngx_encode_base64url\<close>, \<open>ngx_decode_base64\<close> and \<open>ngx_decode_base64url\<close> of
  \<open>src/core/ngx_string.c\<close>. The loops step through the source three, respectively four bytes at
  a time, as the recursions below do. All table indices are bytes or six-bit values, so that no
  read leaves its table.
\<close>

subsection \<open>Tables\<close>

definition basis64 :: "u_char list" where
  "basis64 = bytes ''ABCDEFGHIJKLMNOPQRSTUVWXYZabcdefghijklmnopqrstuvwxyz0123456789+/''"

definition basis64url :: "u_char list" where
  "basis64url = bytes ''ABCDEFGHIJKLMNOPQRSTUVWXYZabcdefghijklmnopqrstuvwxyz0123456789-_''"

definition unbasis64 :: "u_char list" where
  "unbasis64 =
     replicate 16 77 @ replicate 16 77 @
     [77, 77, 77, 77, 77, 77, 77, 77, 77, 77, 77, 62, 77, 77, 77, 63,
      52, 53, 54, 55, 56, 57, 58, 59, 60, 61, 77, 77, 77, 77, 77, 77,
      77,  0,  1,  2,  3,  4,  5,  6,  7,  8,  9, 10, 11, 12, 13, 14,
      15, 16, 17, 18, 19, 20, 21, 22, 23, 24, 25, 77, 77, 77, 77, 77,
      77, 26, 27, 28, 29, 30, 31, 32, 33, 34, 35, 36, 37, 38, 39, 40,
      41, 42, 43, 44, 45, 46, 47, 48, 49, 50, 51, 77, 77, 77, 77, 77] @ replicate 128 77"

definition unbasis64url :: "u_char list" where
  "unbasis64url =
     replicate 16 77 @ replicate 16 77 @
     [77, 77, 77, 77, 77, 77, 77, 77, 77, 77, 77, 77, 77, 62, 77, 77,
      52, 53, 54, 55, 56, 57, 58, 59, 60, 61, 77, 77, 77, 77, 77, 77,
      77,  0,  1,  2,  3,  4,  5,  6,  7,  8,  9, 10, 11, 12, 13, 14,
      15, 16, 17, 18, 19, 20, 21, 22, 23, 24, 25, 77, 77, 77, 77, 63,
      77, 26, 27, 28, 29, 30, 31, 32, 33, 34, 35, 36, 37, 38, 39, 40,
      41, 42, 43, 44, 45, 46, 47, 48, 49, 50, 51, 77, 77, 77, 77, 77] @ replicate 128 77"

subsection \<open>Encoding\<close>

fun ngx_encode_base64_internal :: "u_char list \<Rightarrow> bool \<Rightarrow> u_char list \<Rightarrow> u_char list" where
  "ngx_encode_base64_internal basis padding (s0 # s1 # s2 # s) =
     basis ! unat (drop_bit 2 s0 AND 0x3f) #
     basis ! unat (push_bit 4 (s0 AND 3) OR drop_bit 4 s1) #
     basis ! unat (push_bit 2 (s1 AND 0x0f) OR drop_bit 6 s2) #
     basis ! unat (s2 AND 0x3f) # ngx_encode_base64_internal basis padding s"
| "ngx_encode_base64_internal basis padding [s0] =
     [basis ! unat (drop_bit 2 s0 AND 0x3f), basis ! unat (push_bit 4 (s0 AND 3))] @
     (if padding then [ch_eq] else []) @ (if padding then [ch_eq] else [])"
| "ngx_encode_base64_internal basis padding [s0, s1] =
     [basis ! unat (drop_bit 2 s0 AND 0x3f), basis ! unat (push_bit 4 (s0 AND 3) OR drop_bit 4 s1),
      basis ! unat (push_bit 2 (s1 AND 0x0f))] @ (if padding then [ch_eq] else [])"
| "ngx_encode_base64_internal basis padding [] = []"

definition ngx_encode_base64 :: "u_char list \<Rightarrow> u_char list" where
  "ngx_encode_base64 src = ngx_encode_base64_internal basis64 True src"

definition ngx_encode_base64url :: "u_char list \<Rightarrow> u_char list" where
  "ngx_encode_base64url src = ngx_encode_base64_internal basis64url False src"

definition ngx_base64_encoded_length :: "nat \<Rightarrow> nat" where
  "ngx_base64_encoded_length len = ((len + 2) div 3) * 4"

definition ngx_base64_decoded_length :: "nat \<Rightarrow> nat" where
  "ngx_base64_decoded_length len = ((len + 3) div 4) * 3"

subsection \<open>Decoding\<close>

text \<open>The first loop: the number of characters before an equals sign, or an error.\<close>

fun decode_base64_scan :: "u_char list \<Rightarrow> nat \<Rightarrow> u_char list \<Rightarrow> nat option" where
  "decode_base64_scan basis len [] = Some len"
| "decode_base64_scan basis len (c # cs) =
     (if c = ch_eq then Some len
      else if basis ! unat c = 77 then None
      else decode_base64_scan basis (Suc len) cs)"

fun decode_base64_loop :: "u_char list \<Rightarrow> u_char list \<Rightarrow> u_char list" where
  "decode_base64_loop b (s0 # s1 # s2 # s3 # s) =
     (push_bit 2 (b ! unat s0) OR drop_bit 4 (b ! unat s1)) #
     (push_bit 4 (b ! unat s1) OR drop_bit 2 (b ! unat s2)) #
     (push_bit 6 (b ! unat s2) OR b ! unat s3) # decode_base64_loop b s"
| "decode_base64_loop b [s0, s1] = [push_bit 2 (b ! unat s0) OR drop_bit 4 (b ! unat s1)]"
| "decode_base64_loop b [s0, s1, s2] =
     [push_bit 2 (b ! unat s0) OR drop_bit 4 (b ! unat s1),
      push_bit 4 (b ! unat s1) OR drop_bit 2 (b ! unat s2)]"
| "decode_base64_loop b _ = []"

definition ngx_decode_base64_internal :: "u_char list \<Rightarrow> u_char list \<Rightarrow> int + u_char list" where
  "ngx_decode_base64_internal basis src =
     (case decode_base64_scan basis 0 src of
        None \<Rightarrow> Inl NGX_ERROR
      | Some len \<Rightarrow> if len mod 4 = 1 then Inl NGX_ERROR else Inr (decode_base64_loop basis (take len src)))"

definition ngx_decode_base64 :: "u_char list \<Rightarrow> int + u_char list" where
  "ngx_decode_base64 src = ngx_decode_base64_internal unbasis64 src"

definition ngx_decode_base64url :: "u_char list \<Rightarrow> int + u_char list" where
  "ngx_decode_base64url src = ngx_decode_base64_internal unbasis64url src"

subsection \<open>Six bits\<close>

lemma and_masks: "(c :: u_char) AND 0x3f = take_bit 6 c" "c AND 0x0f = take_bit 4 c" "c AND 3 = take_bit 2 c"
  by (simp_all add: take_bit_eq_mask mask_eq_exp_minus_1)

lemma byte_eqI:
  assumes "\<And>n. n \<in> {0, 1, 2, 3, 4, 5, 6, 7} \<Longrightarrow> bit a n = bit b n"
  shows "a = (b :: u_char)"
proof (rule bit_word_eqI)
  fix n
  assume "n < LENGTH(8)"
  then have "n \<in> {0, 1, 2, 3, 4, 5, 6, 7}" by auto
  then show "bit a n = bit b n" by (rule assms)
qed

lemma byte_high_bit: "8 \<le> n \<Longrightarrow> \<not> bit (w :: u_char) n"
  using bit_imp_le_length [of w n] by auto

lemma sextets:
  fixes s0 s1 s2 :: u_char
  shows "push_bit 2 (take_bit 6 (drop_bit 2 s0)) OR drop_bit 4 (push_bit 4 (take_bit 2 s0) OR drop_bit 4 s1) = s0"
    and "push_bit 2 (take_bit 6 (drop_bit 2 s0)) OR drop_bit 4 (push_bit 4 (take_bit 2 s0)) = s0"
    and "push_bit 4 (push_bit 4 (take_bit 2 s0) OR drop_bit 4 s1) OR
      drop_bit 2 (push_bit 2 (take_bit 4 s1) OR drop_bit 6 s2) = s1"
    and "push_bit 4 (push_bit 4 (take_bit 2 s0) OR drop_bit 4 s1) OR drop_bit 2 (push_bit 2 (take_bit 4 s1)) = s1"
    and "push_bit 6 (push_bit 2 (take_bit 4 s1) OR drop_bit 6 s2) OR take_bit 6 s2 = s2"
    and "push_bit 4 (drop_bit 4 s1) OR drop_bit 2 (push_bit 2 (take_bit 4 s1)) = s1"
    and "push_bit 6 (drop_bit 6 s2) OR take_bit 6 s2 = s2"
  by (rule byte_eqI; auto simp: bit_simps byte_high_bit simp flip: numeral_2_eq_2 numeral_3_eq_3)+


text \<open>The four indices that the encoder computes are below 64.\<close>

lemma sextet_bounds:
  fixes s0 s1 s2 :: u_char
  shows "unat (take_bit 6 s0) < 64"
    and "unat (push_bit 4 (take_bit 2 s0) OR drop_bit 4 s1) < 64"
    and "unat (push_bit 4 (take_bit 2 s0)) < 64"
    and "unat (push_bit 2 (take_bit 4 s1) OR drop_bit 6 s2) < 64"
    and "unat (push_bit 2 (take_bit 4 s1)) < 64"
proof -
  have low: "unat w < 64" if "take_bit 6 w = w" for w :: u_char
  proof -
    have "unat (take_bit 6 w) = take_bit 6 (unat w)" by (rule unsigned_take_bit_eq)
    then show ?thesis using take_bit_nat_less_exp [of 6 "unat w"] that by simp
  qed
  show "unat (take_bit 6 s0) < 64" by (rule low) simp
  show "unat (push_bit 4 (take_bit 2 s0) OR drop_bit 4 s1) < 64"
    by (rule low, rule byte_eqI, auto simp: bit_simps byte_high_bit)
  show "unat (push_bit 4 (take_bit 2 s0)) < 64" by (rule low, rule byte_eqI, auto simp: bit_simps byte_high_bit)
  show "unat (push_bit 2 (take_bit 4 s1) OR drop_bit 6 s2) < 64"
    by (rule low, rule byte_eqI, auto simp: bit_simps byte_high_bit)
  show "unat (push_bit 2 (take_bit 4 s1)) < 64" by (rule low, rule byte_eqI, auto simp: bit_simps byte_high_bit)
qed

text \<open>A pair of tables that fit.\<close>

definition tables_fit :: "u_char list \<Rightarrow> u_char list \<Rightarrow> bool" where
  "tables_fit enc dec \<longleftrightarrow>
     list_all (\<lambda>i. dec ! unat (enc ! i) = word_of_nat i \<and> enc ! i \<noteq> ch_eq) [0..<64]"

lemma tables_fit_base64: "tables_fit basis64 unbasis64" "tables_fit basis64url unbasis64url"
  by code_simp+

lemma tables_fitD:
  assumes "tables_fit enc dec" "unat w < 64"
  shows "dec ! unat (enc ! unat w) = w" "enc ! unat w \<noteq> ch_eq" "w \<noteq> 77"
  using assms by (auto simp: tables_fit_def list_all_iff)

subsection \<open>Round trip\<close>

lemma encode_padding:
  "\<exists>k. ngx_encode_base64_internal basis padding src = ngx_encode_base64_internal basis False src @ replicate k ch_eq"
proof (induction basis padding src rule: ngx_encode_base64_internal.induct)
  case (2 basis padding s0)
  show ?case by (rule exI [of _ "if padding then 2 else 0"]) (simp add: numeral_2_eq_2)
next
  case (3 basis padding s0 s1)
  show ?case by (rule exI [of _ "if padding then 1 else 0"]) simp
qed auto

definition sextet_char :: "u_char list \<Rightarrow> u_char \<Rightarrow> bool" where
  "sextet_char dec c \<longleftrightarrow> c \<noteq> ch_eq \<and> dec ! unat c \<noteq> 77"

lemma tables_fit_char: "tables_fit enc dec \<Longrightarrow> unat (w :: u_char) < 64 \<Longrightarrow> sextet_char dec (enc ! unat w)"
  using tables_fitD [of enc dec w] by (simp add: sextet_char_def)

lemma encode_chars:
  "tables_fit enc dec \<Longrightarrow> list_all (sextet_char dec) (ngx_encode_base64_internal enc False src)"
  by (induction enc False src rule: ngx_encode_base64_internal.induct)
    (simp_all add: and_masks tables_fit_char sextet_bounds)

lemma decode_scan:
  "list_all (sextet_char dec) cs \<Longrightarrow> decode_base64_scan dec n (cs @ replicate k ch_eq) = Some (n + length cs)"
proof (induction cs arbitrary: n)
  case Nil
  then show ?case by (cases k) simp_all
qed (simp add: sextet_char_def)

lemma decode_loop_encode:
  "tables_fit enc dec \<Longrightarrow> decode_base64_loop dec (ngx_encode_base64_internal enc False src) = src"
  by (induction enc False src rule: ngx_encode_base64_internal.induct)
    (simp_all add: and_masks tables_fitD sextet_bounds sextets)

lemma encode_length_mod: "length (ngx_encode_base64_internal enc False src) mod 4 \<noteq> 1"
  by (induction enc False src rule: ngx_encode_base64_internal.induct) simp_all

lemma base64_internal_round_trip:
  assumes "tables_fit enc dec"
  shows "ngx_decode_base64_internal dec (ngx_encode_base64_internal enc padding src) = Inr src"
proof -
  obtain k where k: "ngx_encode_base64_internal enc padding src = ngx_encode_base64_internal enc False src @ replicate k ch_eq"
    using encode_padding by blast
  show ?thesis
    unfolding ngx_decode_base64_internal_def k decode_scan [OF encode_chars [OF assms]]
    using encode_length_mod [of enc src] decode_loop_encode [OF assms] by simp
qed

lemma div_steps: "(5 + n) div 3 = Suc (Suc (Suc n) div 3)" "(7 + n) div 4 = Suc ((n + 3) div 4)" for n :: nat
  by linarith+

lemma encoded_length: "length (ngx_encode_base64_internal enc True src) = ngx_base64_encoded_length (length src)"
  by (induction enc True src rule: ngx_encode_base64_internal.induct)
    (simp_all add: ngx_base64_encoded_length_def div_steps)

lemma encoded_length_url: "length (ngx_encode_base64_internal enc False src) \<le> ngx_base64_encoded_length (length src)"
  by (induction enc False src rule: ngx_encode_base64_internal.induct)
    (simp_all add: ngx_base64_encoded_length_def div_steps)

text \<open>The alphabet of a decoding table, and what the decoder does with any text.\<close>

definition alphabet :: "u_char list \<Rightarrow> u_char list \<Rightarrow> bool" where
  "alphabet enc dec \<longleftrightarrow> (\<forall>c :: u_char. dec ! unat c = 77 \<longleftrightarrow> c \<notin> set enc)"

lemma word_of_nat_64: "i < 64 \<Longrightarrow> unat (word_of_nat i :: u_char) = i"
  by (simp add: unsigned_of_nat take_bit_nat_eq_self_iff)

lemma alphabetI:
  assumes fit: "tables_fit enc dec" and len: "length enc = 64" "length dec = 256"
    and count: "length (filter (\<lambda>x. x \<noteq> 77) dec) = 64"
  shows "alphabet enc dec"
proof -
  let ?used = "{i. i < length dec \<and> dec ! i \<noteq> 77}"
  have at: "dec ! unat (enc ! i) = word_of_nat i" if "i < 64" for i
    using fit that by (auto simp: tables_fit_def list_all_iff)
  have "inj_on (\<lambda>i. unat (enc ! i)) {..<64}"
    by (rule inj_onI) (metis at lessThan_iff word_of_nat_64)
  then have "card ((\<lambda>i. unat (enc ! i)) ` {..<64}) = 64" by (simp add: card_image)
  moreover have "(\<lambda>i. unat (enc ! i)) ` {..<64} \<subseteq> ?used"
  proof clarsimp
    fix i :: nat
    assume "i < 64"
    then show "unat (enc ! i) < length dec \<and> dec ! unat (enc ! i) \<noteq> 77"
      using at [of i] word_of_nat_64 [of i] len(2) by auto
  qed
  moreover have "card ?used = 64" using count by (simp add: length_filter_conv_card)
  ultimately have used: "(\<lambda>i. unat (enc ! i)) ` {..<64} = ?used" by (intro card_subset_eq) simp_all
  have "c \<in> set enc \<longleftrightarrow> unat c \<in> (\<lambda>i. unat (enc ! i)) ` {..<64}" for c
    unfolding in_set_conv_nth len(1) image_iff Bex_def lessThan_iff word_unat_eq_iff by (metis)
  then show ?thesis unfolding used alphabet_def using len(2) by simp
qed

lemma alphabet_base64: "alphabet basis64 unbasis64" "alphabet basis64url unbasis64url"
proof -
  show "alphabet basis64 unbasis64"
    by (rule alphabetI [OF tables_fit_base64(1)]) (simp_all add: basis64_def unbasis64_def)
  show "alphabet basis64url unbasis64url"
    by (rule alphabetI [OF tables_fit_base64(2)]) (simp_all add: basis64url_def unbasis64url_def)
qed

lemma alphabetD: "alphabet enc dec \<Longrightarrow> dec ! unat (c :: u_char) = 77 \<longleftrightarrow> c \<notin> set enc"
  by (simp add: alphabet_def)

lemma decode_scan_any:
  assumes "alphabet enc dec"
  shows "decode_base64_scan dec n src =
    (if list_all (\<lambda>c. c \<in> set enc) (takeWhile (\<lambda>c. c \<noteq> ch_eq) src)
     then Some (n + length (takeWhile (\<lambda>c. c \<noteq> ch_eq) src)) else None)"
  by (induction src arbitrary: n) (simp_all add: alphabetD [OF assms])

lemma decode_loop_length:
  "length s mod 4 \<noteq> 1 \<Longrightarrow> length (decode_base64_loop dec s) = length s * 3 div 4"
  by (induction dec s rule: decode_base64_loop.induct) simp_all

definition decoded_or_error :: "u_char list \<Rightarrow> u_char list \<Rightarrow> int + u_char list \<Rightarrow> bool" where
  "decoded_or_error enc src res \<longleftrightarrow>
     (let cs = takeWhile (\<lambda>c. c \<noteq> ch_eq) src; good = (list_all (\<lambda>c. c \<in> set enc) cs \<and> length cs mod 4 \<noteq> 1) in
      case res of
        Inl rc \<Rightarrow> rc = NGX_ERROR \<and> \<not> good
      | Inr d \<Rightarrow> good \<and> length d = length cs * 3 div 4 \<and> length d \<le> ngx_base64_decoded_length (length src))"

lemma three_quarters: "m \<le> n \<Longrightarrow> m * 3 div 4 \<le> (n + 3) div 4 * 3" for m n :: nat
  by linarith

lemma decode_internal_any:
  assumes "alphabet enc dec"
  shows "decoded_or_error enc src (ngx_decode_base64_internal dec src)"
proof -
  let ?cs = "takeWhile (\<lambda>c. c \<noteq> ch_eq) src"
  have le: "length ?cs \<le> length src" by (rule length_takeWhile_le)
  have "take (length ?cs) src = ?cs" by (metis takeWhile_eq_take length_takeWhile_le min_absorb2 length_take)
  moreover have "length ?cs * 3 div 4 \<le> ngx_base64_decoded_length (length src)"
    unfolding ngx_base64_decoded_length_def by (rule three_quarters [OF le])
  ultimately show ?thesis
    using decode_loop_length [of ?cs dec]
    by (simp add: decoded_or_error_def ngx_decode_base64_internal_def decode_scan_any [OF assms] Let_def)
qed

subsection \<open>Properties\<close>

text \<open>C39: Decoding gives back every byte string that was encoded, with the padding of the standard
  alphabet and without it in the URL alphabet, and the encoded text fits the buffer of
  \<open>ngx_base64_encoded_length\<close> bytes, filling it exactly when it is padded.\<close>

theorem base64_round_trip:
  "ngx_decode_base64 (ngx_encode_base64 src) = Inr src \<and>
   ngx_decode_base64url (ngx_encode_base64url src) = Inr src \<and>
   length (ngx_encode_base64 src) = ngx_base64_encoded_length (length src) \<and>
   length (ngx_encode_base64url src) \<le> ngx_base64_encoded_length (length src)"
  unfolding ngx_decode_base64_def ngx_encode_base64_def ngx_decode_base64url_def ngx_encode_base64url_def
  by (simp add: base64_internal_round_trip tables_fit_base64 encoded_length encoded_length_url)

text \<open>On any text the decoders fail exactly when a character before the first equals sign is
  not in their alphabet or the number of those characters leaves one over, and otherwise write three
  quarters of that number of bytes, which fit the \<open>ngx_base64_decoded_length\<close> bytes that the callers
  allocate.\<close>

theorem base64_decode_total:
  "decoded_or_error basis64 src (ngx_decode_base64 src) \<and> decoded_or_error basis64url src (ngx_decode_base64url src)"
  by (simp add: ngx_decode_base64_def ngx_decode_base64url_def decode_internal_any alphabet_base64)

end
