(* ===== verification/Rwlock.thy ===== *)
theory Rwlock
  imports Prelude
begin

section \<open>The reader/writer lock\<close>

text \<open>
  \<open>src/core/ngx_rwlock.c\<close>: \<open>ngx_rwlock_wlock\<close>, \<open>ngx_rwlock_rlock\<close> and \<open>ngx_rwlock_unlock\<close> on a lock
  word in shared memory, run by any number of processes at once. A process is at a point of one of
  the three functions; one step of it is one access to the lock word (a read, a write, or the
  atomic \<open>ngx_atomic_cmp_set\<close>) with the local computation that follows. The number in a waiting
  point is the variable \<open>n\<close> of the spin loop, 0 for the first attempt of a round; the pauses and
  \<open>ngx_sched_yield\<close> have no effect on the memory. The steps of different processes interleave
  in any way.
\<close>

abbreviation (input) NGX_RWLOCK_SPIN :: nat where "NGX_RWLOCK_SPIN \<equiv> 2048"

definition NGX_RWLOCK_WLOCK :: "64 word" where "NGX_RWLOCK_WLOCK = -1"

subsection \<open>One process\<close>

datatype rw_pc =
    Rw_idle
  | W_test nat | W_cas nat
  | R_read nat | R_cas nat "64 word"
  | Rw_held
  | U_read | U_clear | U_cas "64 word" | U_again

definition next_spin :: "bool \<Rightarrow> nat \<Rightarrow> nat" where
  "next_spin smp n =
     (if \<not> smp then 0
      else if n = 0 then 1
      else if 2 * n < NGX_RWLOCK_SPIN then 2 * n
      else 0)"

fun rw_exec :: "bool \<Rightarrow> rw_pc \<Rightarrow> 64 word \<Rightarrow> rw_pc \<times> 64 word" where
  "rw_exec smp (W_test n) l = (if l = 0 then (W_cas n, l) else (W_test (next_spin smp n), l))"
| "rw_exec smp (W_cas n) l = (if l = 0 then (Rw_held, NGX_RWLOCK_WLOCK) else (W_test (next_spin smp n), l))"
| "rw_exec smp (R_read n) l = (if l \<noteq> NGX_RWLOCK_WLOCK then (R_cas n l, l) else (R_read (next_spin smp n), l))"
| "rw_exec smp (R_cas n readers) l = (if l = readers then (Rw_held, readers + 1) else (R_read (next_spin smp n), l))"
| "rw_exec smp U_read l = (if l = NGX_RWLOCK_WLOCK then (U_clear, l) else (U_cas l, l))"
| "rw_exec smp U_clear l = (Rw_idle, 0)"
| "rw_exec smp (U_cas readers) l = (if l = readers then (Rw_idle, readers - 1) else (U_again, l))"
| "rw_exec smp U_again l = (U_cas l, l)"
| "rw_exec smp pc l = (pc, l)"

subsection \<open>All processes\<close>

text \<open>
  The processes are numbered from 0 to \<open>n - 1\<close>. How a process holds the lock is not in the
  program: it is recorded beside it, when its call of a lock function returns and when its unlock
  takes effect.
\<close>

datatype rw_mode = Free | Reader | Writer

record rw_system =
  rw_lock :: "64 word"
  rw_at :: "nat \<Rightarrow> rw_pc"
  rw_mode :: "nat \<Rightarrow> rw_mode"

fun mode_after :: "rw_pc \<Rightarrow> rw_pc \<Rightarrow> rw_mode \<Rightarrow> rw_mode" where
  "mode_after (W_cas n) Rw_held m = Writer"
| "mode_after (R_cas n v) Rw_held m = Reader"
| "mode_after _ Rw_idle m = Free"
| "mode_after _ _ m = m"

definition rw_run :: "bool \<Rightarrow> nat \<Rightarrow> rw_system \<Rightarrow> rw_system" where
  "rw_run smp p s =
     (case rw_exec smp (rw_at s p) (rw_lock s) of
        (pc, l) \<Rightarrow> s\<lparr>rw_lock := l, rw_at := (rw_at s)(p := pc),
          rw_mode := (rw_mode s)(p := mode_after (rw_at s p) pc (rw_mode s p))\<rparr>)"

inductive rw_step :: "bool \<Rightarrow> nat \<Rightarrow> rw_system \<Rightarrow> rw_system \<Rightarrow> bool" for smp :: bool and n :: nat where
  wlock: "p < n \<Longrightarrow> rw_at s p = Rw_idle \<Longrightarrow> rw_step smp n s (s\<lparr>rw_at := (rw_at s)(p := W_test 0)\<rparr>)"
| rlock: "p < n \<Longrightarrow> rw_at s p = Rw_idle \<Longrightarrow> rw_step smp n s (s\<lparr>rw_at := (rw_at s)(p := R_read 0)\<rparr>)"
| unlock: "p < n \<Longrightarrow> rw_at s p = Rw_held \<Longrightarrow> rw_step smp n s (s\<lparr>rw_at := (rw_at s)(p := U_read)\<rparr>)"
| run: "p < n \<Longrightarrow> rw_at s p \<notin> {Rw_idle, Rw_held} \<Longrightarrow> rw_step smp n s (rw_run smp p s)"

inductive_cases rw_stepE: "rw_step smp n s s'"

definition rw_init :: rw_system where
  "rw_init = \<lparr>rw_lock = 0, rw_at = (\<lambda>_. Rw_idle), rw_mode = (\<lambda>_. Free)\<rparr>"

subsection \<open>The invariant\<close>

fun rw_pc_ok :: "rw_pc \<Rightarrow> rw_mode \<Rightarrow> bool" where
  "rw_pc_ok (R_cas n v) m \<longleftrightarrow> m = Free \<and> v \<noteq> NGX_RWLOCK_WLOCK"
| "rw_pc_ok Rw_held m \<longleftrightarrow> m \<noteq> Free"
| "rw_pc_ok U_read m \<longleftrightarrow> m \<noteq> Free"
| "rw_pc_ok U_clear m \<longleftrightarrow> m = Writer"
| "rw_pc_ok (U_cas v) m \<longleftrightarrow> m = Reader"
| "rw_pc_ok U_again m \<longleftrightarrow> m = Reader"
| "rw_pc_ok _ m \<longleftrightarrow> m = Free"

definition holders :: "nat \<Rightarrow> rw_mode \<Rightarrow> (nat \<Rightarrow> rw_mode) \<Rightarrow> nat set" where
  "holders n m mode = {p. p < n \<and> mode p = m}"

definition rw_word_ok :: "nat \<Rightarrow> 64 word \<Rightarrow> (nat \<Rightarrow> rw_mode) \<Rightarrow> bool" where
  "rw_word_ok n l mode \<longleftrightarrow>
     (holders n Writer mode = {} \<and> l = word_of_nat (card (holders n Reader mode))) \<or>
     (\<exists>p. holders n Writer mode = {p} \<and> holders n Reader mode = {} \<and> l = NGX_RWLOCK_WLOCK)"

definition rw_inv :: "nat \<Rightarrow> rw_system \<Rightarrow> bool" where
  "rw_inv n s \<longleftrightarrow> (\<forall>p < n. rw_pc_ok (rw_at s p) (rw_mode s p)) \<and> rw_word_ok n (rw_lock s) (rw_mode s)"

lemma finite_holders [simp]: "finite (holders n m mode)"
  by (simp add: holders_def)

lemma card_holders_le: "card (holders n m mode) \<le> n"
  using card_mono [of "{..<n}" "holders n m mode"] by (auto simp: holders_def)

lemma holders_upd:
  "p < n \<Longrightarrow> holders n m (mode(p := m')) = (if m = m' then insert p (holders n m mode) else holders n m mode - {p})"
  by (auto simp: holders_def)

lemma holders_mem: "p < n \<Longrightarrow> p \<in> holders n m mode \<longleftrightarrow> mode p = m"
  by (simp add: holders_def)

text \<open>The reader count cannot reach the value that means a writer.\<close>

lemma count_not_wlock:
  assumes "n < 18446744073709551615" "k \<le> n"
  shows "(word_of_nat k :: 64 word) \<noteq> NGX_RWLOCK_WLOCK" "unat (word_of_nat k :: 64 word) = k"
proof -
  show u: "unat (word_of_nat k :: 64 word) = k"
    using assms by (simp add: unsigned_of_nat take_bit_nat_eq_self_iff)
  show "(word_of_nat k :: 64 word) \<noteq> NGX_RWLOCK_WLOCK"
  proof
    assume "(word_of_nat k :: 64 word) = NGX_RWLOCK_WLOCK"
    then have "k = unat (-1 :: 64 word)" using u by (simp add: NGX_RWLOCK_WLOCK_def)
    with assms show False by (simp add: unsigned_minus_1_eq_mask mask_eq_exp_minus_1)
  qed
qed

lemma word_ok_zero:
  assumes "n < 18446744073709551615" "rw_word_ok n 0 mode" "p < n"
  shows "mode p = Free"
proof -
  have "(0 :: 64 word) \<noteq> NGX_RWLOCK_WLOCK" by (simp add: NGX_RWLOCK_WLOCK_def)
  with assms(2) have "holders n Writer mode = {}" "(0 :: 64 word) = word_of_nat (card (holders n Reader mode))"
    by (auto simp: rw_word_ok_def)
  moreover from this(2) have "card (holders n Reader mode) = 0"
    using count_not_wlock(2) [OF assms(1) card_holders_le, of Reader mode] by (metis unsigned_0)
  ultimately have "holders n Writer mode = {}" "holders n Reader mode = {}" by simp_all
  with assms(3) show ?thesis by (cases "mode p") (auto simp: holders_def)
qed

lemma word_ok_writer: "rw_word_ok n l mode \<Longrightarrow> p < n \<Longrightarrow> mode p = Writer \<Longrightarrow>
   holders n Writer mode = {p} \<and> holders n Reader mode = {} \<and> l = NGX_RWLOCK_WLOCK"
  using holders_mem [of p n Writer mode] by (auto simp: rw_word_ok_def)

lemma word_ok_reader:
  assumes "n < 18446744073709551615" "rw_word_ok n l mode" "p < n" "mode p = Reader"
  shows "holders n Writer mode = {}" "l = word_of_nat (card (holders n Reader mode))" "l \<noteq> NGX_RWLOCK_WLOCK"
proof -
  show "holders n Writer mode = {}" "l = word_of_nat (card (holders n Reader mode))"
    using assms(2-4) by (auto simp: rw_word_ok_def holders_def)
  then show "l \<noteq> NGX_RWLOCK_WLOCK"
    using count_not_wlock(1) [OF assms(1) card_holders_le, of Reader mode] by simp
qed

text \<open>The four ways the word changes.\<close>

lemma word_ok_acquire_write:
  assumes "n < 18446744073709551615" "rw_word_ok n 0 mode" "p < n"
  shows "rw_word_ok n NGX_RWLOCK_WLOCK (mode(p := Writer))"
proof -
  have "holders n Writer mode = {}" "holders n Reader mode = {}"
    using word_ok_zero [OF assms(1,2)] by (auto simp: holders_def)
  then show ?thesis using assms(3) by (simp add: rw_word_ok_def holders_upd)
qed

lemma word_ok_acquire_read:
  assumes "rw_word_ok n l mode" "l \<noteq> NGX_RWLOCK_WLOCK" "p < n" "mode p = Free"
  shows "rw_word_ok n (l + 1) (mode(p := Reader))"
proof -
  have "p \<notin> holders n Reader mode" using assms(3,4) by (simp add: holders_mem)
  then show ?thesis using assms by (auto simp: rw_word_ok_def holders_upd)
qed

lemma word_ok_release_write:
  assumes "rw_word_ok n l mode" "p < n" "mode p = Writer"
  shows "rw_word_ok n 0 (mode(p := Free))"
  using word_ok_writer [OF assms] assms(2) by (simp add: rw_word_ok_def holders_upd)

lemma word_ok_release_read:
  assumes "n < 18446744073709551615" "rw_word_ok n l mode" "p < n" "mode p = Reader"
  shows "rw_word_ok n (l - 1) (mode(p := Free))"
proof -
  note r = word_ok_reader [OF assms]
  have p: "p \<in> holders n Reader mode" using assms(3,4) by (simp add: holders_mem)
  have count: "card (holders n Reader mode) = Suc (card (holders n Reader mode - {p}))"
    by (rule card_Suc_Diff1 [OF finite_holders p, symmetric])
  have "l - 1 = word_of_nat (card (holders n Reader mode - {p}))" unfolding r(2) count by simp
  with r(1) assms(3) show ?thesis by (simp add: rw_word_ok_def holders_upd)
qed

lemma rw_exec_ok:
  assumes "n < 18446744073709551615" "rw_word_ok n l mode" "p < n" "rw_pc_ok pc (mode p)" "rw_exec smp pc l = (pc', l')"
  shows "rw_pc_ok pc' (mode_after pc pc' (mode p)) \<and> rw_word_ok n l' (mode(p := mode_after pc pc' (mode p)))"
proof (cases pc)
  case (W_test k)
  with assms show ?thesis by (auto simp: fun_upd_idem split: if_split_asm)
next
  case (W_cas k)
  with assms show ?thesis by (auto split: if_split_asm simp: fun_upd_idem word_ok_acquire_write)
next
  case (R_read k)
  with assms show ?thesis by (auto simp: fun_upd_idem split: if_split_asm)
next
  case (R_cas k v)
  with assms show ?thesis by (auto split: if_split_asm simp: fun_upd_idem word_ok_acquire_read)
next
  case U_read
  have "mode p = Writer \<Longrightarrow> l = NGX_RWLOCK_WLOCK" "mode p = Reader \<Longrightarrow> l \<noteq> NGX_RWLOCK_WLOCK"
    using word_ok_writer [OF assms(2,3)] word_ok_reader(3) [OF assms(1-3)] by auto
  with U_read assms show ?thesis by (cases "mode p") (auto simp: fun_upd_idem split: if_split_asm)
next
  case U_clear
  with assms show ?thesis by (auto simp: word_ok_release_write)
next
  case (U_cas v)
  with assms show ?thesis by (auto split: if_split_asm simp: fun_upd_idem word_ok_release_read)
next
  case U_again
  with assms show ?thesis by (auto simp: fun_upd_idem)
qed (use assms in \<open>auto simp: fun_upd_idem\<close>)

lemma rw_inv_step:
  assumes "n < 18446744073709551615" "rw_step smp n s s'" "rw_inv n s"
  shows "rw_inv n s'"
  using assms(2)
proof (cases rule: rw_step.cases)
  case (run p)
  obtain pc l where e: "rw_exec smp (rw_at s p) (rw_lock s) = (pc, l)" by fastforce
  from rw_exec_ok [OF assms(1) _ run(2) _ e, of "rw_mode s"] assms(3) run(2)
  show ?thesis by (auto simp: rw_inv_def rw_run_def e run(1))
qed (use assms(3) in \<open>auto simp: rw_inv_def\<close>)

lemma rw_inv_init: "rw_inv n rw_init"
  by (simp add: rw_inv_def rw_init_def rw_word_ok_def holders_def)

lemma rw_inv_reachable:
  assumes "n < 18446744073709551615" "(rw_step smp n)\<^sup>*\<^sup>* rw_init s"
  shows "rw_inv n s"
  using assms(2) by (induction rule: rtranclp_induct) (auto intro: rw_inv_init rw_inv_step [OF assms(1)])

subsection \<open>Progress\<close>

text \<open>Steps that one process takes while the others rest.\<close>

fun rw_alone :: "bool \<Rightarrow> nat \<Rightarrow> nat \<Rightarrow> rw_system \<Rightarrow> rw_system" where
  "rw_alone smp p 0 s = s"
| "rw_alone smp p (Suc k) s = rw_alone smp p k (rw_run smp p s)"

lemma rw_free_word:
  assumes "rw_inv n s" "holders n Reader (rw_mode s) = {}" "holders n Writer (rw_mode s) = {}"
  shows "rw_lock s = 0"
  using assms by (auto simp: rw_inv_def rw_word_ok_def)

lemma rw_acquires:
  assumes "n < 18446744073709551615" "rw_inv n s" "p < n" "\<forall>q < n. rw_mode s q = Free" "rw_at s p = W_test k \<or> rw_at s p = R_read k"
  shows "rw_at (rw_alone smp p 2 s) p = Rw_held"
proof -
  have "holders n Reader (rw_mode s) = {}" "holders n Writer (rw_mode s) = {}"
    using assms(4) by (auto simp: holders_def)
  then have "rw_lock s = 0" by (rule rw_free_word [OF assms(2)])
  moreover have "(0 :: 64 word) \<noteq> NGX_RWLOCK_WLOCK" by (simp add: NGX_RWLOCK_WLOCK_def)
  ultimately show ?thesis using assms(5) by (auto simp: numeral_2_eq_2 rw_run_def)
qed

lemma rw_unlocks:
  assumes "rw_inv n s" "p < n" "rw_at s p \<in> {U_read, U_clear, U_again} \<union> range U_cas"
  shows "\<exists>k \<le> 3. rw_at (rw_alone smp p k s) p = Rw_idle"
proof -
  consider "rw_at s p = U_read" | "rw_at s p = U_clear" | "rw_at s p = U_again" | v where "rw_at s p = U_cas v"
    using assms(3) by auto
  then show ?thesis
  proof cases
    case 1
    then have "rw_at (rw_alone smp p 2 s) p = Rw_idle" by (auto simp: numeral_2_eq_2 rw_run_def)
    then show ?thesis by (intro exI [of _ 2]) simp
  next
    case 2
    then have "rw_at (rw_alone smp p 1 s) p = Rw_idle" by (auto simp: rw_run_def)
    then show ?thesis by (intro exI [of _ 1]) simp
  next
    case 3
    then have "rw_at (rw_alone smp p 2 s) p = Rw_idle" by (auto simp: numeral_2_eq_2 rw_run_def)
    then show ?thesis by (intro exI [of _ 2]) simp
  next
    case 4
    then have "rw_at (rw_alone smp p 1 s) p = Rw_idle \<or> rw_at (rw_alone smp p 3 s) p = Rw_idle"
      by (auto simp: numeral_3_eq_3 rw_run_def)
    then show ?thesis by (elim disjE) (auto intro: exI [of _ 1] exI [of _ 3])
  qed
qed

subsection \<open>Properties\<close>

text \<open>C24: However the processes interleave, a writer holds the lock alone, readers hold it only
  without a writer, and the lock word says which: zero when nobody holds it, the number of
  readers, or the value of a writer; with fewer than \<open>2^64 - 1\<close> processes.\<close>

theorem rwlock_exclusion:
  assumes "n < 18446744073709551615" "(rw_step smp n)\<^sup>*\<^sup>* rw_init s"
  shows "(if \<exists>p < n. rw_mode s p = Writer
      then rw_lock s = NGX_RWLOCK_WLOCK \<and> card {p. p < n \<and> rw_mode s p \<noteq> Free} = 1
      else unat (rw_lock s) = card {p. p < n \<and> rw_mode s p = Reader})"
proof -
  have ok: "rw_word_ok n (rw_lock s) (rw_mode s)"
    using rw_inv_reachable [OF assms] by (simp add: rw_inv_def)
  show ?thesis
  proof (cases "\<exists>p < n. rw_mode s p = Writer")
    case True
    then obtain p where p: "p < n" "rw_mode s p = Writer" by blast
    have "rw_mode s q \<noteq> Free \<longleftrightarrow> rw_mode s q = Writer \<or> rw_mode s q = Reader" for q by (cases "rw_mode s q") simp_all
    then have "{q. q < n \<and> rw_mode s q \<noteq> Free} = holders n Writer (rw_mode s) \<union> holders n Reader (rw_mode s)"
      by (auto simp: holders_def)
    with word_ok_writer [OF ok p] True show ?thesis by simp
  next
    case False
    then have "rw_lock s = word_of_nat (card (holders n Reader (rw_mode s)))"
      using ok by (auto simp: rw_word_ok_def holders_def)
    then have "unat (rw_lock s) = card (holders n Reader (rw_mode s))"
      using count_not_wlock(2) [OF assms(1) card_holders_le, of Reader "rw_mode s"] by simp
    with False show ?thesis by (auto simp: holders_def)
  qed
qed

text \<open>Two processes, one of which has taken the lock for writing.\<close>

definition one_writer :: rw_system where
  "one_writer = rw_run True 0 (rw_run True 0 (rw_init\<lparr>rw_at := (rw_at rw_init)(0 := W_test 0)\<rparr>))"

lemma one_writer_reachable: "(rw_step True 2)\<^sup>*\<^sup>* rw_init one_writer"
proof -
  let ?s = "rw_init\<lparr>rw_at := (rw_at rw_init)(0 := W_test 0)\<rparr>"
  have "rw_step True 2 rw_init ?s" by (rule rw_step.wlock) (simp_all add: rw_init_def)
  moreover have "rw_step True 2 ?s (rw_run True 0 ?s)" by (rule rw_step.run) simp_all
  moreover have "rw_step True 2 (rw_run True 0 ?s) one_writer"
    unfolding one_writer_def by (rule rw_step.run) (simp_all add: rw_run_def rw_init_def)
  ultimately show ?thesis by (meson rtranclp.rtrancl_into_rtrancl rtranclp.rtrancl_refl)
qed

lemma rwlock_exclusion_witness: "rw_lock one_writer = NGX_RWLOCK_WLOCK \<and> card {p. p < 2 \<and> rw_mode one_writer p \<noteq> Free} = 1"
proof -
  have "rw_mode one_writer 0 = Writer" by (simp add: one_writer_def rw_run_def rw_init_def)
  then have "\<exists>p < 2. rw_mode one_writer p = Writer" by (intro exI [of _ 0]) simp
  with rwlock_exclusion [OF _ one_writer_reachable] show ?thesis by simp
qed

text \<open>C25: The lock does not wedge: in any reachable state in which nobody holds it, a process that
  waits to write or to read has it after two steps of its own if the others rest, and a
  process in \<open>ngx_rwlock_unlock\<close> is through after at most three.\<close>

theorem rwlock_progress:
  assumes "n < 18446744073709551615" "(rw_step smp n)\<^sup>*\<^sup>* rw_init s" "p < n"
  shows "((\<forall>q < n. rw_mode s q = Free) \<and> (\<exists>k. rw_at s p = W_test k \<or> rw_at s p = R_read k) \<longrightarrow>
      rw_at (rw_alone smp p 2 s) p = Rw_held) \<and>
    (rw_at s p \<in> {U_read, U_clear, U_again} \<union> range U_cas \<longrightarrow>
      (\<exists>k \<le> 3. rw_at (rw_alone smp p k s) p = Rw_idle))"
  using rw_acquires [OF assms(1) rw_inv_reachable [OF assms(1,2)] assms(3)]
    rw_unlocks [OF rw_inv_reachable [OF assms(1,2)] assms(3)] by blast

lemma rwlock_progress_witness:
  "rw_at (rw_alone True 0 2 (rw_init\<lparr>rw_at := (rw_at rw_init)(0 := W_test 0)\<rparr>)) 0 = Rw_held"
proof -
  let ?s = "rw_init\<lparr>rw_at := (rw_at rw_init)(0 := W_test 0)\<rparr>"
  have "rw_step True 2 rw_init ?s" by (rule rw_step.wlock) (simp_all add: rw_init_def)
  then have "(rw_step True 2)\<^sup>*\<^sup>* rw_init ?s" by simp
  from rwlock_progress [OF _ this, of 0] show ?thesis by (simp add: rw_init_def)
qed

end
