(* ===== verification/Shmtx.thy ===== *)
theory Shmtx
  imports Prelude
begin

section \<open>The shared memory mutex\<close>

text \<open>
  \<open>src/core/ngx_shmtx.c\<close> in the build with atomic operations and POSIX semaphores: trylock, lock
  with its spinning and its wait on the semaphore, unlock, the unlock that the master does for a
  process that died, and the wake-up. The lock word holds the pid of the holder or zero; process
  number \<open>p\<close> has the pid \<open>p + 1\<close>. A process is at a point of one of these functions; one step is one
  access to the shared words (or to the semaphore) with the local computation that follows, and
  steps of different processes interleave in any way. The counter of waiting processes, which the
  code reads as a signed number, is an integer. \<open>sem_wait\<close> fails only with EINTR, which the code
  repeats; a wait on a semaphore of value zero is a step that cannot be taken. Logging is left out.
\<close>

record shmtx_conf =
  smp :: bool
  spin :: nat
  semaphore :: bool

record shmtx_mem =
  mx_lock :: nat
  mx_wait :: int
  mx_sem :: nat

datatype mx_pc =
    Mx_idle | T_read | T_cas
  | L_read nat | L_cas nat | L_wait | L_recheck | L_recas | L_unwait | L_sem
  | Mx_held | X_cas | K_read | K_cas int | K_post | Mx_dead

abbreviation (input) ngx_pid :: "nat \<Rightarrow> nat" where "ngx_pid p \<equiv> Suc p"

subsection \<open>One process\<close>

text \<open>Where \<open>ngx_shmtx_lock\<close> goes on after a failed attempt; \<open>n\<close> is 0 for the first of a round.\<close>

definition after_attempt :: "shmtx_conf \<Rightarrow> nat \<Rightarrow> mx_pc" where
  "after_attempt c n =
     (let n' = (if n = 0 then 1 else 2 * n) in
      if smp c \<and> n' < spin c then L_read n'
      else if semaphore c then L_wait
      else L_read 0)"

fun mx_exec :: "shmtx_conf \<Rightarrow> nat \<Rightarrow> mx_pc \<Rightarrow> shmtx_mem \<Rightarrow> (mx_pc \<times> shmtx_mem) option" where
  "mx_exec c p T_read m = Some (if mx_lock m = 0 then (T_cas, m) else (Mx_idle, m))"
| "mx_exec c p T_cas m =
     Some (if mx_lock m = 0 then (Mx_held, m\<lparr>mx_lock := ngx_pid p\<rparr>) else (Mx_idle, m))"
| "mx_exec c p (L_read n) m = Some (if mx_lock m = 0 then (L_cas n, m) else (after_attempt c n, m))"
| "mx_exec c p (L_cas n) m =
     Some (if mx_lock m = 0 then (Mx_held, m\<lparr>mx_lock := ngx_pid p\<rparr>) else (after_attempt c n, m))"
| "mx_exec c p L_wait m = Some (L_recheck, m\<lparr>mx_wait := mx_wait m + 1\<rparr>)"
| "mx_exec c p L_recheck m = Some (if mx_lock m = 0 then (L_recas, m) else (L_sem, m))"
| "mx_exec c p L_recas m =
     Some (if mx_lock m = 0 then (L_unwait, m\<lparr>mx_lock := ngx_pid p\<rparr>) else (L_sem, m))"
| "mx_exec c p L_unwait m = Some (Mx_held, m\<lparr>mx_wait := mx_wait m - 1\<rparr>)"
| "mx_exec c p L_sem m = (if mx_sem m = 0 then None else Some (L_read 0, m\<lparr>mx_sem := mx_sem m - 1\<rparr>))"
| "mx_exec c p X_cas m =
     Some (if mx_lock m = ngx_pid p
           then (if semaphore c then K_read else Mx_idle, m\<lparr>mx_lock := 0\<rparr>)
           else (Mx_idle, m))"
| "mx_exec c p K_read m = Some (if mx_wait m \<le> 0 then (Mx_idle, m) else (K_cas (mx_wait m), m))"
| "mx_exec c p (K_cas w) m =
     Some (if mx_wait m = w then (K_post, m\<lparr>mx_wait := w - 1\<rparr>) else (K_read, m))"
| "mx_exec c p K_post m = Some (Mx_idle, m\<lparr>mx_sem := mx_sem m + 1\<rparr>)"
| "mx_exec c p pc m = None"

subsection \<open>All processes\<close>

record mx_system =
  mx_mem :: shmtx_mem
  mx_at :: "nat \<Rightarrow> mx_pc"

text \<open>
  \<open>force\<close> is \<open>ngx_shmtx_force_unlock\<close>, which the master calls for a process that ended while it
  held the lock: the same compare-and-set with the pid of that process, and the wake-up. When it is
  through, the process is a new one.
\<close>

inductive mx_step :: "shmtx_conf \<Rightarrow> nat \<Rightarrow> mx_system \<Rightarrow> mx_system \<Rightarrow> bool" for c :: shmtx_conf and n :: nat where
  trylock: "p < n \<Longrightarrow> mx_at s p = Mx_idle \<Longrightarrow> mx_step c n s (s\<lparr>mx_at := (mx_at s)(p := T_read)\<rparr>)"
| lock: "p < n \<Longrightarrow> mx_at s p = Mx_idle \<Longrightarrow> mx_step c n s (s\<lparr>mx_at := (mx_at s)(p := L_read 0)\<rparr>)"
| unlock: "p < n \<Longrightarrow> mx_at s p = Mx_held \<Longrightarrow> mx_step c n s (s\<lparr>mx_at := (mx_at s)(p := X_cas)\<rparr>)"
| death: "p < n \<Longrightarrow> mx_at s p = Mx_held \<Longrightarrow> mx_step c n s (s\<lparr>mx_at := (mx_at s)(p := Mx_dead)\<rparr>)"
| force: "p < n \<Longrightarrow> mx_at s p = Mx_dead \<Longrightarrow> mx_step c n s (s\<lparr>mx_at := (mx_at s)(p := X_cas)\<rparr>)"
| run: "p < n \<Longrightarrow> mx_exec c p (mx_at s p) (mx_mem s) = Some (pc, m) \<Longrightarrow>
    mx_step c n s (s\<lparr>mx_mem := m, mx_at := (mx_at s)(p := pc)\<rparr>)"

definition mx_init :: mx_system where
  "mx_init = \<lparr>mx_mem = \<lparr>mx_lock = 0, mx_wait = 0, mx_sem = 0\<rparr>, mx_at = (\<lambda>_. Mx_idle)\<rparr>"

subsection \<open>The invariant\<close>

text \<open>The points at which a process has the lock; those at which it is counted as waiting.\<close>

definition has_lock :: "mx_pc \<Rightarrow> bool" where
  "has_lock pc \<longleftrightarrow> pc \<in> {L_unwait, Mx_held, X_cas, Mx_dead}"

definition is_waiting :: "mx_pc \<Rightarrow> bool" where
  "is_waiting pc \<longleftrightarrow> pc \<in> {L_recheck, L_recas, L_unwait, L_sem}"

definition at_rest :: "mx_pc \<Rightarrow> bool" where
  "at_rest pc \<longleftrightarrow> pc = Mx_idle \<or> pc = L_sem"

definition uses_semaphore :: "mx_pc \<Rightarrow> bool" where
  "uses_semaphore pc \<longleftrightarrow> is_waiting pc \<or> pc = L_wait \<or> pc = K_read \<or> pc = K_post \<or> (\<exists>w. pc = K_cas w)"

definition count_at :: "nat \<Rightarrow> (mx_pc \<Rightarrow> bool) \<Rightarrow> (nat \<Rightarrow> mx_pc) \<Rightarrow> int" where
  "count_at n P at = (\<Sum>p < n. if P (at p) then 1 else 0)"

definition lock_ok :: "nat \<Rightarrow> mx_system \<Rightarrow> bool" where
  "lock_ok n s \<longleftrightarrow> (\<forall>p < n. has_lock (mx_at s p) \<longleftrightarrow> mx_lock (mx_mem s) = ngx_pid p)"

definition count_ok :: "nat \<Rightarrow> mx_system \<Rightarrow> bool" where
  "count_ok n s \<longleftrightarrow> mx_wait (mx_mem s) + int (mx_sem (mx_mem s)) + count_at n (\<lambda>pc. pc = K_post) (mx_at s) =
     count_at n is_waiting (mx_at s)"

definition wake_ok :: "nat \<Rightarrow> mx_system \<Rightarrow> bool" where
  "wake_ok n s \<longleftrightarrow> mx_lock (mx_mem s) \<noteq> 0 \<or> mx_wait (mx_mem s) \<le> 0 \<or> mx_sem (mx_mem s) \<noteq> 0 \<or>
     (\<exists>p < n. \<not> at_rest (mx_at s p))"

definition no_sem_ok :: "shmtx_conf \<Rightarrow> nat \<Rightarrow> mx_system \<Rightarrow> bool" where
  "no_sem_ok c n s \<longleftrightarrow> (\<not> semaphore c \<longrightarrow> mx_wait (mx_mem s) = 0 \<and> (\<forall>p < n. \<not> uses_semaphore (mx_at s p)))"

definition mx_inv :: "shmtx_conf \<Rightarrow> nat \<Rightarrow> mx_system \<Rightarrow> bool" where
  "mx_inv c n s \<longleftrightarrow> lock_ok n s \<and> count_ok n s \<and> wake_ok n s \<and> no_sem_ok c n s"

lemma count_at_upd:
  assumes "p < n"
  shows "count_at n P (at(p := pc)) = count_at n P at - (if P (at p) then 1 else 0) + (if P pc then 1 else 0)"
proof -
  have split: "(\<Sum>q < n. f q) = f p + (\<Sum>q \<in> {..<n} - {p}. f q)" for f :: "nat \<Rightarrow> int"
    using assms by (simp add: sum.remove)
  have "(\<Sum>q \<in> {..<n} - {p}. if P ((at(p := pc)) q) then 1 else 0 :: int) = (\<Sum>q \<in> {..<n} - {p}. if P (at q) then 1 else 0)"
    by (rule sum.cong) auto
  then show ?thesis unfolding count_at_def split by simp
qed

lemma after_attempt_cases: "after_attempt c n = L_wait \<and> semaphore c \<or> (\<exists>k. after_attempt c n = L_read k)"
  by (auto simp: after_attempt_def Let_def)

text \<open>A step that leaves the shared words alone and does not touch lock or semaphore.\<close>

lemmas mx_points = has_lock_def is_waiting_def at_rest_def uses_semaphore_def

lemma lock_ok_exec:
  assumes "lock_ok n s" "p < n" "mx_exec c p (mx_at s p) (mx_mem s) = Some (pc, m)"
  shows "lock_ok n (s\<lparr>mx_mem := m, mx_at := (mx_at s)(p := pc)\<rparr>)"
proof -
  have own: "has_lock (mx_at s q) \<longleftrightarrow> mx_lock (mx_mem s) = ngx_pid q" if "q < n" for q
    using assms(1) that by (simp add: lock_ok_def)
  have "(has_lock pc \<longleftrightarrow> mx_lock m = ngx_pid p) \<and>
      (mx_lock m = mx_lock (mx_mem s) \<or> (mx_lock (mx_mem s) = 0 \<or> mx_lock (mx_mem s) = ngx_pid p) \<and>
        (mx_lock m = 0 \<or> mx_lock m = ngx_pid p))"
    using assms(3) own [OF assms(2)] after_attempt_cases [of c]
    by (cases "mx_at s p") (auto simp: has_lock_def split: if_split_asm, (metis mx_pc.distinct)+)
  then show ?thesis using own by (auto simp: lock_ok_def)
qed

lemma after_attempt_plain:
  "\<not> is_waiting (after_attempt c n)" "\<not> has_lock (after_attempt c n)" "after_attempt c n \<noteq> K_post"
  "\<not> at_rest (after_attempt c n)" "\<not> semaphore c \<Longrightarrow> \<not> uses_semaphore (after_attempt c n)"
  using after_attempt_cases [of c n] by (auto simp: mx_points)

lemma count_ok_exec:
  assumes "count_ok n s" "p < n" "mx_exec c p (mx_at s p) (mx_mem s) = Some (pc, m)"
  shows "count_ok n (s\<lparr>mx_mem := m, mx_at := (mx_at s)(p := pc)\<rparr>)"
proof -
  let ?one = "\<lambda>b. if b then 1 else 0 :: int"
  have "mx_wait m + int (mx_sem m) + ?one (pc = K_post) - ?one (is_waiting pc) =
      mx_wait (mx_mem s) + int (mx_sem (mx_mem s)) + ?one (mx_at s p = K_post) - ?one (is_waiting (mx_at s p))"
    using assms(3) after_attempt_plain [of c]
    by (cases "mx_at s p") (auto simp: is_waiting_def split: if_split_asm)
  then show ?thesis
    using assms(1) by (simp add: count_ok_def count_at_upd [OF assms(2)])
qed

lemma wake_ok_exec:
  assumes "lock_ok n s" "wake_ok n s" "no_sem_ok c n s" "p < n" "mx_exec c p (mx_at s p) (mx_mem s) = Some (pc, m)"
  shows "wake_ok n (s\<lparr>mx_mem := m, mx_at := (mx_at s)(p := pc)\<rparr>)"
proof (cases "at_rest pc")
  case False
  then show ?thesis using assms(4) by (auto simp: wake_ok_def)
next
  case True
  have own: "has_lock (mx_at s p) \<longleftrightarrow> mx_lock (mx_mem s) = ngx_pid p"
    using assms(1,4) by (simp add: lock_ok_def)
  have "mx_lock m \<noteq> 0 \<or> mx_wait m \<le> 0 \<or> mx_sem m \<noteq> 0"
    using assms(3-5) own True after_attempt_plain [of c]
    by (cases "mx_at s p") (auto simp: at_rest_def has_lock_def no_sem_ok_def split: if_split_asm)
  then show ?thesis by (auto simp: wake_ok_def)
qed

lemma no_sem_ok_exec:
  assumes "no_sem_ok c n s" "p < n" "mx_exec c p (mx_at s p) (mx_mem s) = Some (pc, m)"
  shows "no_sem_ok c n (s\<lparr>mx_mem := m, mx_at := (mx_at s)(p := pc)\<rparr>)"
proof (cases "semaphore c")
  case False
  then have quiet: "mx_wait (mx_mem s) = 0" "\<not> uses_semaphore (mx_at s p)"
    using assms(1,2) by (auto simp: no_sem_ok_def)
  have "mx_wait m = 0 \<and> \<not> uses_semaphore pc"
    using assms(3) quiet False after_attempt_plain(5) [OF False]
    by (cases "mx_at s p") (auto simp: uses_semaphore_def is_waiting_def split: if_split_asm)
  with assms(1) False show ?thesis by (auto simp: no_sem_ok_def)
qed (simp add: no_sem_ok_def)

lemma mx_inv_exec:
  assumes "mx_inv c n s" "p < n" "mx_exec c p (mx_at s p) (mx_mem s) = Some (pc, m)"
  shows "mx_inv c n (s\<lparr>mx_mem := m, mx_at := (mx_at s)(p := pc)\<rparr>)"
  using assms lock_ok_exec [of n s p c pc m] count_ok_exec [of n s p c pc m] wake_ok_exec [of n s c p pc m]
    no_sem_ok_exec [of c n s p pc m]
  by (simp add: mx_inv_def)

text \<open>A call, or the death of a process, changes one point only.\<close>

lemma mx_inv_move:
  assumes "mx_inv c n s" "p < n"
    and "has_lock pc \<longleftrightarrow> has_lock (mx_at s p)" "is_waiting pc \<longleftrightarrow> is_waiting (mx_at s p)"
    and "pc \<noteq> K_post" "mx_at s p \<noteq> K_post" "\<not> at_rest pc" "\<not> uses_semaphore pc"
  shows "mx_inv c n (s\<lparr>mx_at := (mx_at s)(p := pc)\<rparr>)"
proof -
  have "lock_ok n (s\<lparr>mx_at := (mx_at s)(p := pc)\<rparr>)"
    using assms(1-3) by (auto simp: mx_inv_def lock_ok_def)
  moreover have "count_ok n (s\<lparr>mx_at := (mx_at s)(p := pc)\<rparr>)"
    using assms(1,4-6) by (simp add: mx_inv_def count_ok_def count_at_upd [OF assms(2)])
  moreover have "wake_ok n (s\<lparr>mx_at := (mx_at s)(p := pc)\<rparr>)"
    using assms(2,7) by (auto simp: wake_ok_def)
  moreover have "no_sem_ok c n (s\<lparr>mx_at := (mx_at s)(p := pc)\<rparr>)"
    using assms(1,8) by (auto simp: mx_inv_def no_sem_ok_def)
  ultimately show ?thesis by (simp add: mx_inv_def)
qed

lemma mx_inv_step: "mx_step c n s s' \<Longrightarrow> mx_inv c n s \<Longrightarrow> mx_inv c n s'"
proof (induction rule: mx_step.induct)
  case (run p s pc m)
  then show ?case by (intro mx_inv_exec)
qed (auto intro!: mx_inv_move simp: mx_points)

lemma mx_inv_init: "mx_inv c n mx_init"
  by (simp add: mx_inv_def mx_init_def lock_ok_def count_ok_def wake_ok_def no_sem_ok_def count_at_def mx_points)

lemma mx_inv_reachable: "(mx_step c n)\<^sup>*\<^sup>* mx_init s \<Longrightarrow> mx_inv c n s"
  by (induction rule: rtranclp_induct) (auto intro: mx_inv_init mx_inv_step)

text \<open>Without a process between points, the waiting ones are those blocked in \<open>sem_wait\<close>.\<close>

lemma count_at_rest:
  assumes "\<forall>p < n. at_rest (at p)"
  shows "count_at n is_waiting at = count_at n (\<lambda>pc. pc = L_sem) at" "count_at n (\<lambda>pc. pc = K_post) at = 0"
  using assms by (auto simp: count_at_def at_rest_def is_waiting_def intro!: sum.cong sum.neutral)

lemma count_at_pos: "p < n \<Longrightarrow> P (at p) \<Longrightarrow> 0 < count_at n P at"
  unfolding count_at_def by (rule sum_pos2 [of _ p]) auto

lemma mx_wakes:
  assumes "mx_inv c n s" "mx_lock (mx_mem s) = 0" "\<forall>p < n. at_rest (mx_at s p)" "q < n" "mx_at s q = L_sem"
  shows "0 < mx_sem (mx_mem s)"
proof (rule ccontr)
  assume "\<not> 0 < mx_sem (mx_mem s)"
  then have "mx_wait (mx_mem s) \<le> 0" "mx_sem (mx_mem s) = 0" using assms(1-3) by (auto simp: mx_inv_def wake_ok_def)
  moreover have "mx_wait (mx_mem s) + int (mx_sem (mx_mem s)) = count_at n (\<lambda>pc. pc = L_sem) (mx_at s)"
    using assms(1) count_at_rest [OF assms(3)] by (simp add: mx_inv_def count_ok_def)
  moreover have "0 < count_at n (\<lambda>pc. pc = L_sem) (mx_at s)"
    by (rule count_at_pos [of q]) (use assms(4,5) in simp_all)
  ultimately show False by simp
qed

subsection \<open>Schedules\<close>

text \<open>A run given as a list: a process calls lock, or unlock, or takes its next step.\<close>

datatype mx_move = Lock nat | Unlock nat | Run nat

fun mx_play :: "shmtx_conf \<Rightarrow> mx_move list \<Rightarrow> mx_system \<Rightarrow> mx_system" where
  "mx_play c [] s = s"
| "mx_play c (Lock p # ms) s =
     mx_play c ms (if mx_at s p = Mx_idle then s\<lparr>mx_at := (mx_at s)(p := L_read 0)\<rparr> else s)"
| "mx_play c (Unlock p # ms) s =
     mx_play c ms (if mx_at s p = Mx_held then s\<lparr>mx_at := (mx_at s)(p := X_cas)\<rparr> else s)"
| "mx_play c (Run p # ms) s =
     mx_play c ms (case mx_exec c p (mx_at s p) (mx_mem s) of
        None \<Rightarrow> s | Some (pc, m) \<Rightarrow> s\<lparr>mx_mem := m, mx_at := (mx_at s)(p := pc)\<rparr>)"

fun move_ok :: "nat \<Rightarrow> mx_move \<Rightarrow> bool" where
  "move_ok n (Lock p) \<longleftrightarrow> p < n"
| "move_ok n (Unlock p) \<longleftrightarrow> p < n"
| "move_ok n (Run p) \<longleftrightarrow> p < n"

lemma mx_play_steps: "list_all (move_ok n) ms \<Longrightarrow> (mx_step c n)\<^sup>*\<^sup>* s (mx_play c ms s)"
proof (induction ms arbitrary: s)
  case (Cons m ms)
  have "\<exists>s1. (mx_step c n)\<^sup>*\<^sup>* s s1 \<and> mx_play c (m # ms) s = mx_play c ms s1"
  proof (cases m)
    case (Lock p)
    let ?s1 = "s\<lparr>mx_at := (mx_at s)(p := L_read 0)\<rparr>"
    have "(mx_step c n)\<^sup>*\<^sup>* s ?s1" if "mx_at s p = Mx_idle"
      using Cons.prems Lock that by (intro r_into_rtranclp mx_step.lock) simp_all
    with Lock show ?thesis by (intro exI [of _ "if mx_at s p = Mx_idle then ?s1 else s"]) simp
  next
    case (Unlock p)
    let ?s1 = "s\<lparr>mx_at := (mx_at s)(p := X_cas)\<rparr>"
    have "(mx_step c n)\<^sup>*\<^sup>* s ?s1" if "mx_at s p = Mx_held"
      using Cons.prems Unlock that by (intro r_into_rtranclp mx_step.unlock) simp_all
    with Unlock show ?thesis by (intro exI [of _ "if mx_at s p = Mx_held then ?s1 else s"]) simp
  next
    case (Run p)
    show ?thesis
    proof (cases "mx_exec c p (mx_at s p) (mx_mem s)")
      case None
      with Run show ?thesis by auto
    next
      case (Some r)
      obtain pc m where r: "r = (pc, m)" by (cases r)
      have "mx_step c n s (s\<lparr>mx_mem := m, mx_at := (mx_at s)(p := pc)\<rparr>)"
        using Cons.prems Run Some r by (intro mx_step.run) simp_all
      with Run Some r show ?thesis by (intro exI [of _ "s\<lparr>mx_mem := m, mx_at := (mx_at s)(p := pc)\<rparr>"]) auto
    qed
  qed
  then obtain s1 where "(mx_step c n)\<^sup>*\<^sup>* s s1" "mx_play c (m # ms) s = mx_play c ms s1" by blast
  with Cons.IH [of s1] Cons.prems show ?case by auto
qed simp

text \<open>One processor, two processes: the second blocks while the first holds the lock and lets it go.\<close>

definition one_cpu :: shmtx_conf where
  "one_cpu = \<lparr>smp = False, spin = 2048, semaphore = True\<rparr>"

definition blocked_schedule :: "mx_move list" where
  "blocked_schedule = [Lock 0, Run 0, Run 0, Lock 1, Run 1, Run 1, Run 1, Unlock 0, Run 0, Run 0, Run 0, Run 0]"

lemma blocked_state:
  "mx_play one_cpu blocked_schedule mx_init = \<lparr>mx_mem = \<lparr>mx_lock = 0, mx_wait = 0, mx_sem = 1\<rparr>,
     mx_at = (\<lambda>_. Mx_idle)(0 := Mx_idle, 1 := L_sem)\<rparr>"
  by (auto simp: blocked_schedule_def one_cpu_def mx_init_def after_attempt_def)

subsection \<open>Properties\<close>

text \<open>C22: Mutual exclusion: however the processes interleave, and even when processes die with the
  lock and the master takes it from them, at most one process is at a point behind its
  successful compare-and-set, and the lock word is its pid, or zero when there is none.\<close>

theorem shmtx_exclusion:
  assumes "(mx_step c n)\<^sup>*\<^sup>* mx_init s" "p < n" "has_lock (mx_at s p)"
  shows "mx_lock (mx_mem s) = ngx_pid p \<and> {q. q < n \<and> has_lock (mx_at s q)} = {p}"
proof -
  have own: "has_lock (mx_at s q) \<longleftrightarrow> mx_lock (mx_mem s) = ngx_pid q" if "q < n" for q
    using mx_inv_reachable [OF assms(1)] that by (simp add: mx_inv_def lock_ok_def)
  with assms(2,3) show ?thesis by auto
qed

lemma shmtx_exclusion_witness:
  "mx_lock (mx_mem (mx_play one_cpu (take 3 blocked_schedule) mx_init)) = 1"
proof -
  let ?s = "mx_play one_cpu (take 3 blocked_schedule) mx_init"
  have "(mx_step one_cpu 2)\<^sup>*\<^sup>* mx_init ?s" by (rule mx_play_steps) (simp add: blocked_schedule_def)
  moreover have "has_lock (mx_at ?s 0)" by (simp add: blocked_schedule_def one_cpu_def mx_init_def has_lock_def)
  ultimately show ?thesis using shmtx_exclusion [of one_cpu 2 ?s 0] by simp
qed

text \<open>C23: No lost wake-up: when the lock is free and every process is idle or blocked in
  \<open>sem_wait\<close>, and one is blocked, the semaphore is positive, so that a blocked process goes on to
  take the lock; the waiting and waking of \<open>ngx_shmtx_lock\<close> and \<open>ngx_shmtx_unlock\<close> cannot
  leave it behind.\<close>

theorem shmtx_no_lost_wakeup:
  assumes "(mx_step c n)\<^sup>*\<^sup>* mx_init s" "mx_lock (mx_mem s) = 0"
    and "\<forall>p < n. mx_at s p = Mx_idle \<or> mx_at s p = L_sem" "q < n" "mx_at s q = L_sem"
  shows "\<exists>m. mx_exec c q (mx_at s q) (mx_mem s) = Some (L_read 0, m) \<and> mx_lock m = 0"
proof -
  have "0 < mx_sem (mx_mem s)"
    using mx_wakes [OF mx_inv_reachable [OF assms(1)] assms(2) _ assms(4,5)] assms(3) by (simp add: at_rest_def)
  then show ?thesis using assms(2,5) by simp
qed

lemma shmtx_no_lost_wakeup_witness:
  "\<exists>m. mx_exec one_cpu 1 L_sem (mx_mem (mx_play one_cpu blocked_schedule mx_init)) = Some (L_read 0, m)"
proof -
  let ?s = "mx_play one_cpu blocked_schedule mx_init"
  have "(mx_step one_cpu 2)\<^sup>*\<^sup>* mx_init ?s" by (rule mx_play_steps) (simp add: blocked_schedule_def)
  moreover have "\<forall>p < 2. mx_at ?s p = Mx_idle \<or> mx_at ?s p = L_sem" by (simp add: blocked_state)
  ultimately show ?thesis using shmtx_no_lost_wakeup [of one_cpu 2 ?s 1] by (simp add: blocked_state)
qed

end
