(* ===== verification/Escape.thy ===== *)
theory Escape
  imports Prelude
begin

section \<open>Escaping for URIs, HTML and JSON\<close>

text \<open>
  \<open>ngx_escape_uri\<close>, \<open>ngx_unescape_uri\<close>, \<open>ngx_escape_html\<close> and \<open>ngx_escape_json\<close> of
  \<open>src/core/ngx_string.c\<close>. The escaping functions are called twice: with a null destination they
  count, so that the caller can allocate, then they write. The two uses are separate definitions.
\<close>

subsection \<open>\<open>ngx_escape_uri\<close>\<close>

definition hex_digits :: "u_char list" where
  "hex_digits = bytes ''0123456789ABCDEF''"

definition escape_map :: "32 word list list" where
  "escape_map =
     (let uri = [0xffffffff, 0x80000029, 0x00000000, 0x80000000, 0xffffffff, 0xffffffff, 0xffffffff, 0xffffffff];
          args = [0xffffffff, 0x88000869, 0x00000000, 0x80000000, 0xffffffff, 0xffffffff, 0xffffffff, 0xffffffff];
          uri_component = [0xffffffff, 0xfc009fff, 0x78000001, 0xb8000001,
                           0xffffffff, 0xffffffff, 0xffffffff, 0xffffffff];
          html = [0xffffffff, 0x000000ad, 0x00000000, 0x80000000, 0xffffffff, 0xffffffff, 0xffffffff, 0xffffffff];
          refresh = [0xffffffff, 0x00000085, 0x00000000, 0x80000000, 0xffffffff, 0xffffffff, 0xffffffff, 0xffffffff];
          memcached = [0xffffffff, 0x00000021, 0x00000000, 0x00000000,
                       0x00000000, 0x00000000, 0x00000000, 0x00000000]
      in [uri, args, uri_component, html, refresh, memcached, memcached])"

definition escaped_char :: "nat \<Rightarrow> u_char \<Rightarrow> bool" where
  "escaped_char type c \<longleftrightarrow> (escape_map ! type ! unat (drop_bit 5 c)) AND push_bit (unat (c AND 0x1f)) 1 \<noteq> 0"

fun escape_uri_count :: "nat \<Rightarrow> u_char list \<Rightarrow> nat" where
  "escape_uri_count type [] = 0"
| "escape_uri_count type (c # src) =
     (if escaped_char type c then Suc (escape_uri_count type src) else escape_uri_count type src)"

fun ngx_escape_uri :: "nat \<Rightarrow> u_char list \<Rightarrow> u_char list" where
  "ngx_escape_uri type [] = []"
| "ngx_escape_uri type (c # src) =
     (if escaped_char type c
      then [ch_percent, hex_digits ! unat (drop_bit 4 c), hex_digits ! unat (c AND 0xf)] @ ngx_escape_uri type src
      else c # ngx_escape_uri type src)"

subsection \<open>\<open>ngx_unescape_uri\<close>\<close>

datatype unescape_state = un_usual | un_quoted | un_quoted_second

text \<open>
  The loop: \<open>prev\<close> is the byte at \<open>s - 2\<close>, once \<open>s\<close> has been moved behind \<open>ch\<close>. The value is what is
  written to the destination, and the source that is left.
\<close>

abbreviation (input) NGX_UNESCAPE_URI :: nat where "NGX_UNESCAPE_URI \<equiv> 1"
abbreviation (input) NGX_UNESCAPE_REDIRECT :: nat where "NGX_UNESCAPE_REDIRECT \<equiv> 2"

definition put :: "u_char list \<Rightarrow> u_char list \<times> u_char list \<Rightarrow> u_char list \<times> u_char list" where
  "put out r = (out @ fst r, snd r)"

fun unescape_loop :: "nat \<Rightarrow> unescape_state \<Rightarrow> u_char \<Rightarrow> u_char \<Rightarrow> u_char list \<Rightarrow> u_char list \<times> u_char list" where
  "unescape_loop type state decoded prev [] = ([], [])"
| "unescape_loop type state decoded prev (ch # s) =
     (case state of
        un_usual \<Rightarrow>
          if ch = ch_quest \<and> type AND (NGX_UNESCAPE_URI OR NGX_UNESCAPE_REDIRECT) \<noteq> 0 then ([ch], s)
          else if ch = ch_percent then unescape_loop type un_quoted decoded ch s
          else put [ch] (unescape_loop type un_usual decoded ch s)
      | un_quoted \<Rightarrow>
          if ch \<ge> ch_0 \<and> ch \<le> ch_9 then unescape_loop type un_quoted_second (ch - ch_0) ch s
          else
            (let c = ch OR 0x20 in
             if c \<ge> ch_a \<and> c \<le> ch_f then unescape_loop type un_quoted_second (c - ch_a + 10) ch s
             else put [ch] (unescape_loop type un_usual decoded ch s))
      | un_quoted_second \<Rightarrow>
          if ch \<ge> ch_0 \<and> ch \<le> ch_9 then
            (let v = push_bit 4 decoded + ch - ch_0 in
             if type AND NGX_UNESCAPE_REDIRECT \<noteq> 0 then
               (if v > ch_percent \<and> v < 0x7f then put [v] (unescape_loop type un_usual decoded ch s)
                else put [ch_percent, prev, ch] (unescape_loop type un_usual decoded ch s))
             else put [v] (unescape_loop type un_usual decoded ch s))
          else
            (let c = ch OR 0x20 in
             if c \<ge> ch_a \<and> c \<le> ch_f then
               (let v = push_bit 4 decoded + c - ch_a + 10 in
                if type AND NGX_UNESCAPE_URI \<noteq> 0 then
                  (if v = ch_quest then ([v], s) else put [v] (unescape_loop type un_usual decoded ch s))
                else if type AND NGX_UNESCAPE_REDIRECT \<noteq> 0 then
                  (if v = ch_quest then ([v], s)
                   else if v > ch_percent \<and> v < 0x7f then put [v] (unescape_loop type un_usual decoded ch s)
                   else put [ch_percent, prev, ch] (unescape_loop type un_usual decoded ch s))
                else put [v] (unescape_loop type un_usual decoded ch s))
             else unescape_loop type un_usual decoded ch s))"

definition ngx_unescape_uri :: "nat \<Rightarrow> u_char list \<Rightarrow> u_char list \<times> u_char list" where
  "ngx_unescape_uri type src = unescape_loop type un_usual 0 0 src"

subsection \<open>\<open>ngx_escape_html\<close> and \<open>ngx_escape_json\<close>\<close>

fun escape_html_count :: "u_char list \<Rightarrow> nat" where
  "escape_html_count [] = 0"
| "escape_html_count (c # src) =
     (if c = ch_lt then 3 else if c = ch_gt then 3 else if c = ch_amp then 4 else if c = ch_quot then 5 else 0) +
     escape_html_count src"

fun ngx_escape_html :: "u_char list \<Rightarrow> u_char list" where
  "ngx_escape_html [] = []"
| "ngx_escape_html (ch # src) =
     (if ch = ch_lt then bytes ''&lt;''
      else if ch = ch_gt then bytes ''&gt;''
      else if ch = ch_amp then bytes ''&amp;''
      else if ch = ch_quot then bytes ''&quot;''
      else [ch]) @ ngx_escape_html src"

fun escape_json_count :: "u_char list \<Rightarrow> nat" where
  "escape_json_count [] = 0"
| "escape_json_count (ch # src) =
     (if ch = ch_bslash \<or> ch = ch_quot then 1 else if ch \<le> 0x1f then 5 else 0) + escape_json_count src"

fun ngx_escape_json :: "u_char list \<Rightarrow> u_char list" where
  "ngx_escape_json [] = []"
| "ngx_escape_json (ch # src) =
     (if ch > 0x1f then (if ch = ch_bslash \<or> ch = ch_quot then [ch_bslash] else []) @ [ch]
      else ch_bslash # bytes ''u00'' @
        [ch_0 + drop_bit 4 ch,
         (let low = ch AND 0xf in if low < 10 then ch_0 + low else ch_A + low - 10)]) @ ngx_escape_json src"

subsection \<open>Lengths\<close>

lemma escape_uri_length: "length (ngx_escape_uri type src) = length src + 2 * escape_uri_count type src"
  by (induction type src rule: ngx_escape_uri.induct) simp_all

lemma escape_html_length: "length (ngx_escape_html src) = length src + escape_html_count src"
  by (induction src rule: ngx_escape_html.induct) simp_all

lemma escape_json_length: "length (ngx_escape_json src) = length src + escape_json_count src"
proof (induction src rule: ngx_escape_json.induct)
  case (2 ch src)
  have "ch \<le> 0x1f \<Longrightarrow> ch \<noteq> ch_bslash \<and> ch \<noteq> ch_quot" by (auto simp: byte_simps)
  with 2 show ?case by (auto simp: not_less[symmetric] Let_def)
qed simp

subsection \<open>Unescaping what was escaped\<close>

text \<open>The sixteen digits: each is read back as its value, as a digit or as a letter.\<close>

definition nibble_ok :: "nat \<Rightarrow> bool" where
  "nibble_ok v \<longleftrightarrow>
     (let h = hex_digits ! v; l = h OR 0x20 in
      if ch_0 \<le> h \<and> h \<le> ch_9 then h - ch_0 = word_of_nat v
      else ch_a \<le> l \<and> l \<le> ch_f \<and> l - ch_a + 10 = word_of_nat v)"

lemma nibbles: "list_all nibble_ok [0..<16]"
  by code_simp

lemma nibble: "v < 16 \<Longrightarrow> nibble_ok v"
  using nibbles by (simp add: list_all_iff)

lemma unescape_quoted:
  assumes "v < 16"
  shows "unescape_loop type un_quoted d p (hex_digits ! v # s) =
    unescape_loop type un_quoted_second (word_of_nat v) (hex_digits ! v) s"
  using nibble [OF assms] by (auto simp: nibble_ok_def Let_def split: if_split_asm)

lemma unescape_quoted_second:
  assumes "v < 16"
  shows "unescape_loop 0 un_quoted_second d p (hex_digits ! v # s) =
    put [push_bit 4 d + word_of_nat v] (unescape_loop 0 un_usual d (hex_digits ! v) s)"
proof -
  let ?h = "hex_digits ! v"
  have sum: "push_bit 4 d + ?h - ch_0 = push_bit 4 d + (?h - ch_0)"
    "push_bit 4 d + (?h OR 0x20) - ch_a + 10 = push_bit 4 d + ((?h OR 0x20) - ch_a + 10)"
    by (simp_all add: algebra_simps)
  show ?thesis
    using nibble [OF assms] unfolding nibble_ok_def Let_def
    by (simp add: sum Let_def split: if_split_asm)
qed

lemma unescape_forget:
  "st \<noteq> un_quoted_second \<Longrightarrow> unescape_loop type st d p s = unescape_loop type st d' p' s"
proof (induction s arbitrary: st d p d' p')
  case (Cons ch s)
  then show ?case by (cases st) (simp_all add: Let_def, (metis unescape_state.distinct)+)
qed simp

lemma byte_nibbles:
  fixes c :: u_char
  shows "unat (drop_bit 4 c) < 16" "unat (c AND 0xf) < 16"
    and "push_bit 4 (word_of_nat (unat (drop_bit 4 c))) + word_of_nat (unat (c AND 0xf)) = c"
proof -
  show "unat (drop_bit 4 c) < 16" by (simp add: unat_high_nibble)
  show "unat (c AND 0xf) < 16" by (simp add: unat_low_nibble)
  have "c AND 0xf = take_bit 4 c" by (simp add: take_bit_eq_mask mask_eq_exp_minus_1)
  then show "push_bit 4 (word_of_nat (unat (drop_bit 4 c))) + word_of_nat (unat (c AND 0xf)) = c"
    by (simp add: bits_ident)
qed

lemma unescape_percent: "unescape_loop 0 un_usual d p (ch_percent # s) = unescape_loop 0 un_quoted d ch_percent s"
  by simp

lemma unescape_escape:
  assumes "escaped_char type ch_percent \<or> ch_percent \<notin> set src"
  shows "unescape_loop 0 un_usual d p (ngx_escape_uri type src) = (src, [])"
  using assms
proof (induction src arbitrary: d p)
  case (Cons c src)
  have IH: "unescape_loop 0 un_usual d p (ngx_escape_uri type src) = (src, [])" for d p
    by (rule Cons.IH) (use Cons.prems in auto)
  show ?case
  proof (cases "escaped_char type c")
    case True
    let ?h = "unat (drop_bit 4 c)" and ?l = "unat (c AND 0xf)"
    have "ngx_escape_uri type (c # src) = ch_percent # hex_digits ! ?h # hex_digits ! ?l # ngx_escape_uri type src"
      using True by simp
    then show ?thesis
      by (simp only: unescape_percent unescape_quoted [OF byte_nibbles(1)] unescape_quoted_second [OF byte_nibbles(2)]
          byte_nibbles(3) IH put_def fst_conv snd_conv append.simps)
  next
    case False
    then have "c \<noteq> ch_percent" using Cons.prems by auto
    with False IH show ?thesis by (simp add: put_def)
  qed
qed simp

text \<open>Which maps escape the percent sign: all but that of a Refresh header.\<close>

lemma percent_escaped: "type < 7 \<Longrightarrow> escaped_char type ch_percent \<longleftrightarrow> type \<noteq> 4"
proof -
  assume "type < 7"
  then have "type \<in> {0, 1, 2, 3, 4, 5, 6}" by auto
  then show ?thesis by (auto simp: escaped_char_def escape_map_def Let_def)
qed

subsection \<open>What the output contains\<close>

definition hex_plain :: "nat \<Rightarrow> bool" where
  "hex_plain type \<longleftrightarrow> list_all (\<lambda>v. \<not> escaped_char type (hex_digits ! v)) [0..<16]"

lemma hex_plain_all: "list_all hex_plain [0..<7]"
  by code_simp

lemma hex_digit_plain: "type < 7 \<Longrightarrow> v < 16 \<Longrightarrow> \<not> escaped_char type (hex_digits ! v)"
  using hex_plain_all by (simp add: list_all_iff hex_plain_def)

lemma escape_uri_output:
  assumes "type < 7"
  shows "list_all (\<lambda>c. \<not> escaped_char type c \<or> c = ch_percent) (ngx_escape_uri type src)"
  by (induction src) (simp_all add: hex_digit_plain [OF assms] byte_nibbles)

lemma escape_html_output: "list_all (\<lambda>c. c \<notin> {ch_lt, ch_gt, ch_quot}) (ngx_escape_html src)"
  by (induction src) simp_all

lemma escape_json_output: "list_all (\<lambda>c. 0x1f < c) (ngx_escape_json src)"
proof (induction src)
  case (Cons ch src)
  have high: "0x1f < ch_0 + drop_bit 4 ch"
  proof -
    have "unat (drop_bit 4 ch) < 16" by (rule byte_nibbles)
    then have "unat (ch_0 + drop_bit 4 ch) = 48 + unat (drop_bit 4 ch)" by (subst unat_plus_byte) simp_all
    then show ?thesis by (simp add: unat_u_char_le_iff)
  qed
  have low: "0x1f < (let low = ch AND 0xf in if low < 10 then ch_0 + low else ch_A + low - 10)"
  proof -
    have l: "unat (ch AND 0xf) < 16" by (rule byte_nibbles)
    then have "unat (ch_0 + (ch AND 0xf)) = 48 + unat (ch AND 0xf)" by (subst unat_plus_byte) simp_all
    moreover have "ch_A + (ch AND 0xf) - 10 = 0x37 + (ch AND 0xf)" by simp
    moreover have "unat (0x37 + (ch AND 0xf)) = 55 + unat (ch AND 0xf)" using l by (subst unat_plus_byte) simp_all
    ultimately show ?thesis by (simp add: unat_u_char_le_iff Let_def)
  qed
  show ?case using Cons high low by simp
qed simp

subsection \<open>Properties\<close>

text \<open>C40: What \<open>ngx_escape_uri\<close> wrote with any of its maps but that of Refresh headers is read back unchanged
  by \<open>ngx_unescape_uri\<close> with type 0, to the last byte. The map of Refresh headers leaves the percent sign alone, although
  the comment above it lists it: there the same holds for strings without a percent sign. The only byte of the
  output of any map that it would escape is the percent sign. (With the type \<open>NGX_UNESCAPE_URI\<close> the decoding ends
  at the first question mark, also at one that was escaped.)\<close>

theorem escape_uri_round_trip:
  assumes "type < 7" "type \<noteq> 4 \<or> ch_percent \<notin> set src"
  shows "ngx_unescape_uri 0 (ngx_escape_uri type src) = (src, []) \<and>
    list_all (\<lambda>c. \<not> escaped_char type c \<or> c = ch_percent) (ngx_escape_uri type src)"
  using unescape_escape [of type src] percent_escaped [OF assms(1)] assms(2) escape_uri_output [OF assms(1)]
  by (simp add: ngx_unescape_uri_def)

lemma escape_uri_round_trip_witness:
  "ngx_unescape_uri 0 (ngx_escape_uri 2 (bytes ''a/%b c'')) = (bytes ''a/%b c'', []) \<and>
   ngx_unescape_uri 0 (ngx_escape_uri 4 (bytes ''a b'')) = (bytes ''a b'', [])"
  using escape_uri_round_trip [of 2 "bytes ''a/%b c''"] escape_uri_round_trip [of 4 "bytes ''a b''"] by simp

text \<open>Two cases that the round trip leaves out: the percent sign in a Refresh header, and the question mark
  when only the path is decoded.\<close>

lemma escape_refresh_percent:
  "ngx_escape_uri 4 (bytes ''%41'') = bytes ''%41'' \<and> ngx_unescape_uri 0 (bytes ''%41'') = (bytes ''A'', [])"
  by (simp add: percent_escaped escaped_char_def escape_map_def ngx_unescape_uri_def put_def Let_def)

lemma escape_question_mark:
  "ngx_escape_uri 0 (bytes ''a?b'') = bytes ''a%3Fb'' \<and> ngx_unescape_uri 1 (bytes ''a%3Fb'') = (bytes ''a?'', bytes ''b'')"
  by (simp add: escaped_char_def escape_map_def hex_digits_def ngx_unescape_uri_def put_def Let_def)

text \<open>The counting call of the three escaping functions returns exactly what the writing call
  needs beyond the length of its source, so that a buffer allocated by it is filled and never
  overrun; the HTML output has no markup left, the JSON output no control character.\<close>

theorem escape_lengths_exact:
  "length (ngx_escape_uri type src) = length src + 2 * escape_uri_count type src \<and>
   length (ngx_escape_html src) = length src + escape_html_count src \<and>
   length (ngx_escape_json src) = length src + escape_json_count src \<and>
   list_all (\<lambda>c. c \<notin> {ch_lt, ch_gt, ch_quot}) (ngx_escape_html src) \<and>
   list_all (\<lambda>c. 0x1f < c) (ngx_escape_json src)"
  using escape_uri_length escape_html_length escape_json_length escape_html_output escape_json_output by simp

text \<open>
  With NGX_UNESCAPE_REDIRECT the visible characters are the ones that are decoded, and the
  others stay escaped; a bad second digit drops the whole escape, a bad first digit only the
  percent sign.
\<close>

lemma unescape_redirect_visible:
  "ngx_unescape_uri 2 (bytes ''%41'') = (bytes ''A'', []) \<and> ngx_unescape_uri 2 (bytes ''%01'') = (bytes ''%01'', [])"
  by (simp add: ngx_unescape_uri_def put_def Let_def)

lemma unescape_bad_digits:
  "ngx_unescape_uri 0 (bytes ''a%4Gb'') = (bytes ''ab'', []) \<and> ngx_unescape_uri 0 (bytes ''a%Gb'') = (bytes ''aGb'', [])"
  by (simp add: ngx_unescape_uri_def put_def Let_def)

end
