(* ===== verification/Utf8.thy ===== *)
theory Utf8
  imports Prelude
begin

section \<open>UTF-8\<close>

text \<open>
  \<open>ngx_utf8_decode\<close>, \<open>ngx_utf8_length\<close> and \<open>ngx_utf8_cpystrn\<close> of \<open>src/core/ngx_string.c\<close>. Strings are
  offsets into a memory \<open>mem\<close>; a read outside of it is the value None. The 32-bit code point is a
  natural number, as at most 21 bits of it are used; the two error values are the C ones.
\<close>

subsection \<open>The functions\<close>

abbreviation (input) utf8_invalid :: nat where "utf8_invalid \<equiv> 0xffffffff"
abbreviation (input) utf8_short :: nat where "utf8_short \<equiv> 0xfffffffe"

text \<open>The loop over the continuation bytes: the code point and the pointer, or the invalid value.\<close>

fun utf8_continue :: "u_char list \<Rightarrow> nat \<Rightarrow> nat \<Rightarrow> nat \<Rightarrow> (nat \<times> nat \<times> bool) option" where
  "utf8_continue mem p u 0 = Some (u, p, True)"
| "utf8_continue mem p u (Suc len) =
     (case rd mem p of
        None \<Rightarrow> None
      | Some i \<Rightarrow>
          if i < 0x80 then Some (u, Suc p, False)
          else utf8_continue mem (Suc p) (push_bit 6 u OR take_bit 6 (unat i)) len)"

definition ngx_utf8_decode :: "u_char list \<Rightarrow> nat \<Rightarrow> nat \<Rightarrow> (nat \<times> nat) option" where
  "ngx_utf8_decode mem p n =
     (case rd mem p of
        None \<Rightarrow> None
      | Some c \<Rightarrow>
          (let go = (\<lambda>u valid len.
                 if n \<noteq> 0 \<and> n - 1 < len then Some (utf8_short, p)
                 else (case utf8_continue mem (Suc p) u len of
                         None \<Rightarrow> None
                       | Some (u, p', ok) \<Rightarrow>
                           if ok \<and> u > valid then Some (u, p') else Some (utf8_invalid, p')))
           in if c \<ge> 0xf0 then go (take_bit 3 (unat c)) 0xffff 3
              else if c \<ge> 0xe0 then go (take_bit 4 (unat c)) 0x7ff 2
              else if c \<ge> 0xc2 then go (take_bit 5 (unat c)) 0x7f 1
              else Some (utf8_invalid, Suc p)))"

text \<open>\<open>fuel\<close> bounds the rounds of the loop, each of which moves \<open>p\<close> or returns.\<close>

fun utf8_length_loop :: "nat \<Rightarrow> u_char list \<Rightarrow> nat \<Rightarrow> nat \<Rightarrow> nat \<Rightarrow> nat \<Rightarrow> nat option" where
  "utf8_length_loop 0 mem p lim n len = None"
| "utf8_length_loop (Suc fuel) mem p lim n len =
     (if p < lim then
        (case rd mem p of
           None \<Rightarrow> None
         | Some c \<Rightarrow>
             if c < 0x80 then utf8_length_loop fuel mem (Suc p) lim n (Suc len)
             else (case ngx_utf8_decode mem p n of
                     None \<Rightarrow> None
                   | Some (u, p') \<Rightarrow>
                       if u > 0x10ffff then Some n
                       else utf8_length_loop fuel mem p' lim n (Suc len)))
      else Some len)"

definition ngx_utf8_length :: "u_char list \<Rightarrow> nat \<Rightarrow> nat \<Rightarrow> nat option" where
  "ngx_utf8_length mem p n = utf8_length_loop (Suc n) mem p (p + n) n 0"

text \<open>
  \<open>ngx_utf8_cpystrn\<close>: the bytes written before the terminating zero; \<open>n\<close> counts characters. The
  argument of the loop is \<open>n\<close> before its decrement.
\<close>

fun utf8_cpystrn_loop :: "u_char list \<Rightarrow> nat \<Rightarrow> nat \<Rightarrow> nat \<Rightarrow> u_char list option" where
  "utf8_cpystrn_loop mem src 0 len = Some []"
| "utf8_cpystrn_loop mem src (Suc n) len =
     (if n = 0 then Some []
      else
        (case rd mem src of
           None \<Rightarrow> None
         | Some c \<Rightarrow>
             if c < 0x80 then
               (if c \<noteq> 0 then map_option ((#) c) (utf8_cpystrn_loop mem (Suc src) n (len - 1)) else Some [])
             else (case ngx_utf8_decode mem src len of
                     None \<Rightarrow> None
                   | Some (u, next) \<Rightarrow>
                       if u > 0x10ffff then Some []
                       else map_option ((@) (byte_range mem src next))
                              (utf8_cpystrn_loop mem next n (len - (next - src))))))"

subsection \<open>The encoding\<close>

text \<open>The bytes of a code point beyond ASCII, by the standard.\<close>

definition utf8_bytes :: "nat \<Rightarrow> u_char list" where
  "utf8_bytes u =
     map word_of_nat
      (if u < 0x800 then [0xc0 + u div 64, 0x80 + u mod 64]
       else if u < 0x10000 then [0xe0 + u div 4096, 0x80 + u div 64 mod 64, 0x80 + u mod 64]
       else [0xf0 + u div 262144, 0x80 + u div 4096 mod 64, 0x80 + u div 64 mod 64, 0x80 + u mod 64])"

lemma push_or: "push_bit 6 u OR take_bit 6 i = u * 64 + i mod 64" for u i :: nat
proof -
  have "push_bit 6 u OR take_bit 6 i = push_bit 6 u + take_bit 6 i"
    by (rule disjunctive_add [symmetric]) (auto simp: bit_simps)
  then show ?thesis by (simp add: push_bit_eq_mult take_bit_eq_mod)
qed

lemma unat_byte: "k < 256 \<Longrightarrow> unat (word_of_nat k :: u_char) = k"
  by (simp add: unsigned_of_nat take_bit_nat_eq_self_iff)

lemma byte_cmp:
  assumes "k < 256"
  shows "(word_of_nat k :: u_char) < 0x80 \<longleftrightarrow> k < 128" "0xf0 \<le> (word_of_nat k :: u_char) \<longleftrightarrow> 240 \<le> k"
    "0xe0 \<le> (word_of_nat k :: u_char) \<longleftrightarrow> 224 \<le> k" "0xc2 \<le> (word_of_nat k :: u_char) \<longleftrightarrow> 194 \<le> k"
  using unat_byte [OF assms] by (simp_all add: unat_u_char_le_iff)

text \<open>A continuation byte adds six bits.\<close>

lemma continue_byte:
  assumes "rd mem p = Some (word_of_nat (0x80 + k))" "k < 64"
  shows "utf8_continue mem p u (Suc len) = utf8_continue mem (Suc p) (u * 64 + k) len"
proof -
  have "unat (word_of_nat (0x80 + k) :: u_char) = 0x80 + k" using assms(2) by (intro unat_byte) simp
  moreover have "\<not> (word_of_nat (0x80 + k) :: u_char) < 0x80" using assms(2) by (subst byte_cmp) simp_all
  moreover have "(0x80 + k) mod 64 = k" using assms(2) by (simp add: mod_add_left_eq [symmetric])
  ultimately show ?thesis using assms(1) by (simp only: utf8_continue.simps option.case if_False push_or)
qed

text \<open>The three lead bytes.\<close>

lemma decode_lead:
  assumes "rd mem p = Some (word_of_nat k)" "k < 256"
    and "240 \<le> k \<and> (v, len) = (0xffff, 3) \<and> u0 = take_bit 3 k \<or>
      224 \<le> k \<and> k < 240 \<and> (v, len) = (0x7ff, 2) \<and> u0 = take_bit 4 k \<or>
      194 \<le> k \<and> k < 224 \<and> (v, len) = (0x7f, 1) \<and> u0 = take_bit 5 k"
    and "utf8_continue mem (Suc p) u0 len = Some (u, p', True)" "v < u" "n = 0 \<or> len < n"
  shows "ngx_utf8_decode mem p n = Some (u, p')"
proof -
  have n: "\<not> (n \<noteq> 0 \<and> n - 1 < len)" using assms(6) by linarith
  have b: "unat (word_of_nat k :: u_char) = k" by (rule unat_byte [OF assms(2)])
  show ?thesis
    using assms(3)
  proof (elim disjE conjE)
    assume "240 \<le> k" "(v, len) = (0xffff, 3)" "u0 = take_bit 3 k"
    with assms(1,4,5) n b show ?thesis by (auto simp: ngx_utf8_decode_def Let_def byte_cmp [OF assms(2)])
  next
    assume "224 \<le> k" "k < 240" "(v, len) = (0x7ff, 2)" "u0 = take_bit 4 k"
    with assms(1,4,5) n b show ?thesis by (auto simp: ngx_utf8_decode_def Let_def byte_cmp [OF assms(2)])
  next
    assume "194 \<le> k" "k < 224" "(v, len) = (0x7f, 1)" "u0 = take_bit 5 k"
    with assms(1,4,5) n b show ?thesis by (auto simp: ngx_utf8_decode_def Let_def byte_cmp [OF assms(2)])
  qed
qed

lemma rd_append: "rd (xs @ ys) (length xs + i) = rd ys i"
  by (simp add: rd_def)

lemma decode_bytes:
  assumes "0x80 \<le> u" "u \<le> 0x10ffff" "n = 0 \<or> length (utf8_bytes u) \<le> n"
  shows "ngx_utf8_decode (pre @ utf8_bytes u @ rest) (length pre) n = Some (u, length pre + length (utf8_bytes u))"
proof -
  let ?p = "length pre" and ?mem = "pre @ utf8_bytes u @ rest"
  have at: "rd ?mem (?p + i) = Some (utf8_bytes u ! i)" if "i < length (utf8_bytes u)" for i
    using rd_append [of pre "utf8_bytes u @ rest" i] that by (simp add: nth_append)
  consider (two) "u < 0x800" | (three) "0x800 \<le> u" "u < 0x10000" | (four) "0x10000 \<le> u" by linarith
  then show ?thesis
  proof cases
    case two
    then have b: "utf8_bytes u = [word_of_nat (0xc0 + u div 64), word_of_nat (0x80 + u mod 64)]"
      by (simp add: utf8_bytes_def)
    have r: "rd ?mem ?p = Some (word_of_nat (0xc0 + u div 64))" "rd ?mem (Suc ?p) = Some (word_of_nat (0x80 + u mod 64))"
      using at [of 0] at [of 1] unfolding b by simp_all
    have tb: "take_bit 5 (0xc0 + u div 64) = u div 64"
      using two mod_mult_self3 [of 6 32 "u div 64"] by (simp add: take_bit_eq_mod)
    have c: "utf8_continue ?mem (Suc ?p) (u div 64) 1 = Some (u, ?p + 2, True)"
      using continue_byte [OF r(2), of "u div 64" 0] by simp
    have len: "length (utf8_bytes u) = 2" by (simp add: b)
    show ?thesis
      unfolding len
      by (rule decode_lead [OF r(1) _ _ c, where v = "0x7f"]) (use two assms tb len in \<open>auto simp: less_mult_imp_div_less\<close>)
  next
    case three
    then have b: "utf8_bytes u = [word_of_nat (0xe0 + u div 4096), word_of_nat (0x80 + u div 64 mod 64),
        word_of_nat (0x80 + u mod 64)]"
      by (simp add: utf8_bytes_def)
    have r: "rd ?mem ?p = Some (word_of_nat (0xe0 + u div 4096))"
      "rd ?mem (Suc ?p) = Some (word_of_nat (0x80 + u div 64 mod 64))"
      "rd ?mem (Suc (Suc ?p)) = Some (word_of_nat (0x80 + u mod 64))"
      using at [of 0] at [of 1] at [of 2] unfolding b by simp_all
    have tb: "take_bit 4 (0xe0 + u div 4096) = u div 4096"
      using three mod_mult_self3 [of 14 16 "u div 4096"] by (simp add: take_bit_eq_mod)
    have "u div 4096 * 64 + u div 64 mod 64 = u div 64"
      using div_mult_mod_eq [of "u div 64" 64] by (simp add: div_mult2_eq [symmetric])
    then have c: "utf8_continue ?mem (Suc ?p) (u div 4096) 2 = Some (u, ?p + 3, True)"
      using continue_byte [OF r(2), of "u div 4096" 1] continue_byte [OF r(3), of "u div 64" 0]
      by (simp add: numeral_2_eq_2)
    have len: "length (utf8_bytes u) = 3" by (simp add: b)
    show ?thesis
      unfolding len
      by (rule decode_lead [OF r(1) _ _ c, where v = "0x7ff"]) (use three assms tb len in \<open>auto simp: less_mult_imp_div_less\<close>)
  next
    case four
    then have b: "utf8_bytes u = [word_of_nat (0xf0 + u div 262144), word_of_nat (0x80 + u div 4096 mod 64),
        word_of_nat (0x80 + u div 64 mod 64), word_of_nat (0x80 + u mod 64)]"
      by (simp add: utf8_bytes_def)
    have r: "rd ?mem ?p = Some (word_of_nat (0xf0 + u div 262144))"
      "rd ?mem (Suc ?p) = Some (word_of_nat (0x80 + u div 4096 mod 64))"
      "rd ?mem (Suc (Suc ?p)) = Some (word_of_nat (0x80 + u div 64 mod 64))"
      "rd ?mem (Suc (Suc (Suc ?p))) = Some (word_of_nat (0x80 + u mod 64))"
      using at [of 0] at [of 1] at [of 2] at [of 3] unfolding b by (simp_all add: numeral_3_eq_3)
    have tb: "take_bit 3 (0xf0 + u div 262144) = u div 262144"
      using assms(2) mod_mult_self3 [of 30 8 "u div 262144"] by (simp add: take_bit_eq_mod)
    have "u div 262144 * 64 + u div 4096 mod 64 = u div 4096" "u div 4096 * 64 + u div 64 mod 64 = u div 64"
      using div_mult_mod_eq [of "u div 4096" 64] div_mult_mod_eq [of "u div 64" 64] by (simp_all add: div_mult2_eq [symmetric])
    then have c: "utf8_continue ?mem (Suc ?p) (u div 262144) 3 = Some (u, ?p + 4, True)"
      using continue_byte [OF r(2), of "u div 262144" 2] continue_byte [OF r(3), of "u div 4096" 1]
        continue_byte [OF r(4), of "u div 64" 0]
      by (simp add: numeral_3_eq_3 numeral_2_eq_2)
    have len: "length (utf8_bytes u) = 4" by (simp add: b)
    show ?thesis
      unfolding len
      by (rule decode_lead [OF r(1) _ _ c, where v = "0xffff"]) (use four assms tb len in \<open>auto simp: less_mult_imp_div_less\<close>)
  qed
qed

subsection \<open>Counting\<close>

definition utf8_char :: "nat \<Rightarrow> u_char list" where
  "utf8_char u = (if u < 0x80 then [word_of_nat u] else utf8_bytes u)"

lemma utf8_bytes_first: "0x80 \<le> u \<Longrightarrow> u \<le> 0x10ffff \<Longrightarrow> \<exists>b rest. utf8_bytes u = b # rest \<and> \<not> b < 0x80"
  by (auto simp: utf8_bytes_def byte_cmp less_mult_imp_div_less simp del: of_nat_add)

lemma utf8_char_length: "1 \<le> length (utf8_char u)"
  by (simp add: utf8_char_def utf8_bytes_def)

lemma length_loop_counts:
  "list_all (\<lambda>u. u \<le> 0x10ffff) us \<Longrightarrow> length (concat (map utf8_char us)) < fuel \<Longrightarrow>
   length (concat (map utf8_char us)) \<le> n \<Longrightarrow>
   utf8_length_loop fuel (pre @ concat (map utf8_char us) @ rest) (length pre)
     (length pre + length (concat (map utf8_char us))) n k = Some (k + length us)"
proof (induction us arbitrary: fuel pre k)
  case Nil
  then show ?case by (cases fuel) simp_all
next
  case (Cons u us)
  let ?t = "concat (map utf8_char us)" and ?mem = "pre @ utf8_char u @ concat (map utf8_char us) @ rest"
  obtain f where f: "fuel = Suc f" using Cons.prems(2) by (cases fuel) simp_all
  have less: "length ?t < f" using Cons.prems(2) utf8_char_length [of u] f by simp
  note ih = Cons.IH [of f "pre @ utf8_char u" "Suc k"]
  have ih': "utf8_length_loop f ?mem (length pre + length (utf8_char u))
      (length pre + length (utf8_char u) + length ?t) n (Suc k) = Some (Suc k + length us)"
    using ih less Cons.prems by simp
  show ?case
  proof (cases "u < 0x80")
    case True
    then have b: "utf8_char u = [word_of_nat u]" "(word_of_nat u :: u_char) < 0x80" by (simp_all add: utf8_char_def byte_cmp)
    have "rd ?mem (length pre) = Some (word_of_nat u)" by (simp add: rd_def b(1))
    with ih' b show ?thesis by (simp add: f)
  next
    case False
    then have u: "0x80 \<le> u" "u \<le> 0x10ffff" using Cons.prems(1) by simp_all
    then have c: "utf8_char u = utf8_bytes u" by (simp add: utf8_char_def)
    obtain b bs where b: "utf8_bytes u = b # bs" "\<not> b < 0x80" using utf8_bytes_first [OF u] by blast
    have "rd ?mem (length pre) = Some b" by (simp add: rd_def c b(1))
    moreover have "ngx_utf8_decode ?mem (length pre) n = Some (u, length pre + length (utf8_bytes u))"
      unfolding c by (rule decode_bytes [OF u]) (use Cons.prems(3) c in simp)
    moreover have "0 < length (utf8_bytes u)" by (simp add: b(1))
    moreover have "pre @ concat (map utf8_char (u # us)) @ rest = ?mem"
      "length pre + length (concat (map utf8_char (u # us))) = length pre + length (utf8_char u) + length ?t" by simp_all
    ultimately show ?thesis using ih' u(2) b(2) unfolding f c
      by (simp only: utf8_length_loop.simps option.case prod.case if_False not_less [symmetric]) (simp add: c)
  qed
qed

text \<open>Three bytes behind the string are enough for the reads that leave it.\<close>

lemma continue_total:
  "p + len \<le> length mem \<Longrightarrow> \<exists>u' p' ok. utf8_continue mem p u len = Some (u', p', ok) \<and> p \<le> p' \<and> p' \<le> p + len"
proof (induction len arbitrary: p u)
  case 0
  show ?case by (intro exI conjI, rule utf8_continue.simps) simp_all
next
  case (Suc len)
  then have rd: "rd mem p = Some (mem ! p)" by simp
  show ?case
  proof (cases "mem ! p < 0x80")
    case True
    then have "utf8_continue mem p u (Suc len) = Some (u, Suc p, False)" using rd by simp
    then show ?thesis by (intro exI conjI) (assumption, simp_all)
  next
    case False
    with Suc.IH [of "Suc p" "push_bit 6 u OR take_bit 6 (unat (mem ! p))"] Suc.prems
    obtain u' p' ok where "utf8_continue mem (Suc p) (push_bit 6 u OR take_bit 6 (unat (mem ! p))) len = Some (u', p', ok)"
      "Suc p \<le> p'" "p' \<le> Suc p + len" by auto
    then show ?thesis using rd False by simp
  qed
qed

lemma decode_total:
  assumes "p + 3 < length mem"
  shows "\<exists>u p'. ngx_utf8_decode mem p n = Some (u, p') \<and> (u \<le> 0x10ffff \<longrightarrow> p < p')"
proof -
  have go: "\<exists>u p'. (if n \<noteq> 0 \<and> n - 1 < len then Some (utf8_short, p)
       else (case utf8_continue mem (Suc p) u0 len of
               None \<Rightarrow> None
             | Some (u, p', ok) \<Rightarrow> if ok \<and> u > v then Some (u, p') else Some (utf8_invalid, p'))) =
      Some (u, p') \<and> (u \<le> 0x10ffff \<longrightarrow> p < p')" if "len \<le> 3" for u0 v len
  proof -
    have "Suc p + len \<le> length mem" using assms that by simp
    from continue_total [OF this, of u0] obtain u' p' ok where
      "utf8_continue mem (Suc p) u0 len = Some (u', p', ok)" "Suc p \<le> p'" by blast
    then show ?thesis by auto
  qed
  have rd: "rd mem p = Some (mem ! p)" using assms by simp
  consider "0xf0 \<le> mem ! p" | "\<not> 0xf0 \<le> mem ! p" "0xe0 \<le> mem ! p" | "\<not> 0xf0 \<le> mem ! p" "\<not> 0xe0 \<le> mem ! p" "0xc2 \<le> mem ! p"
    | "\<not> 0xf0 \<le> mem ! p" "\<not> 0xe0 \<le> mem ! p" "\<not> 0xc2 \<le> mem ! p" by blast
  then show ?thesis
  proof cases
    case 1
    then show ?thesis using go [of 3] unfolding ngx_utf8_decode_def Let_def rd option.case by (simp only: if_True)
  next
    case 2
    then show ?thesis using go [of 2] unfolding ngx_utf8_decode_def Let_def rd option.case by (simp only: if_True if_False)
  next
    case 3
    then show ?thesis using go [of 1] unfolding ngx_utf8_decode_def Let_def rd option.case by (simp only: if_True if_False)
  next
    case 4
    then show ?thesis unfolding ngx_utf8_decode_def Let_def rd option.case by (simp only: if_False) simp
  qed
qed

lemma length_loop_total:
  "lim - p < fuel \<Longrightarrow> lim + 3 \<le> length mem \<Longrightarrow> k + (lim - p) \<le> n \<Longrightarrow>
   \<exists>len \<le> n. utf8_length_loop fuel mem p lim n k = Some len"
proof (induction fuel arbitrary: p k)
  case (Suc fuel)
  show ?case
  proof (cases "p < lim")
    case False
    then show ?thesis using Suc.prems(3) by simp
  next
    case True
    then have rd: "rd mem p = Some (mem ! p)" using Suc.prems(2) by simp
    show ?thesis
    proof (cases "mem ! p < 0x80")
      case True
      with Suc.IH [of "Suc p" "Suc k"] Suc.prems \<open>p < lim\<close> rd show ?thesis by simp
    next
      case False
      from decode_total [of p mem n] True Suc.prems(2) obtain u p' where
        u: "ngx_utf8_decode mem p n = Some (u, p')" "u \<le> 0x10ffff \<longrightarrow> p < p'" by auto
      show ?thesis
      proof (cases "u \<le> 0x10ffff")
        case big: False
        then show ?thesis using True False rd u(1) by simp
      next
        case small: True
        then have "\<exists>len \<le> n. utf8_length_loop fuel mem p' lim n (Suc k) = Some len"
          using u(2) Suc.prems True by (intro Suc.IH) auto
        then show ?thesis using True False small rd u(1) by simp
      qed
    qed
  qed
qed simp

subsection \<open>Properties\<close>

text \<open>\<open>ngx_utf8_length\<close> of a text of any valid code points, wherever it stands in memory, is the
  number of its code points: \<open>ngx_utf8_decode\<close> gives back each one and moves behind it.\<close>

theorem utf8_length_counts:
  assumes "list_all (\<lambda>u. u \<le> 0x10ffff) us"
  defines "str \<equiv> concat (map utf8_char us)"
  shows "ngx_utf8_length (pre @ str @ rest) (length pre) (length str) = Some (length us)"
  using length_loop_counts [OF assms(1), of "Suc (length str)" "length str" pre rest 0]
  by (simp add: ngx_utf8_length_def str_def)

lemma utf8_length_counts_witness:
  "ngx_utf8_length ([] @ concat (map utf8_char [0x41, 0xe9, 0x20ac, 0x1f600]) @ []) (length ([] :: u_char list))
     (length (concat (map utf8_char [0x41, 0xe9, 0x20ac, 0x1f600]))) = Some (length [0x41 :: nat, 0xe9, 0x20ac, 0x1f600])"
  by (rule utf8_length_counts) simp

text \<open>On any bytes \<open>ngx_utf8_length\<close> returns, with at most the number of bytes, provided three
  bytes behind the string may be read.\<close>

theorem utf8_length_returns:
  assumes "p + n + 3 \<le> length mem"
  shows "\<exists>len. ngx_utf8_length mem p n = Some len \<and> len \<le> n"
  using length_loop_total [of "p + n" p "Suc n" mem 0 n] assms by (auto simp: ngx_utf8_length_def)

lemma utf8_length_returns_witness: "\<exists>len. ngx_utf8_length [0xe0, 0, 0, 0, 0] 0 2 = Some len \<and> len \<le> 2"
  using utf8_length_returns [of 0 2 "[0xe0, 0, 0, 0, 0]"] by simp

text \<open>
  They are read: \<open>ngx_utf8_length\<close> hands the length of the whole string to \<open>ngx_utf8_decode\<close> for every
  character, so that a lead byte near the end is followed beyond it. And a byte that starts
  another character passes as a continuation byte.
\<close>

lemma utf8_length_reads_beyond: "ngx_utf8_length [0x61, 0x61, 0xe0] 0 3 = None"
  by code_simp

lemma utf8_decode_takes_lead_byte: "ngx_utf8_decode [0xc3, 0xe9] 0 2 = Some (0xe9, 2)"
proof -
  have "push_bit 6 3 OR take_bit 6 (233 :: nat) = 233" by (simp add: push_or)
  then show ?thesis by (simp add: ngx_utf8_decode_def Let_def take_bit_eq_mod push_or)
qed

end
