(* ===== verification/Spec2Isabelle.thy ===== *)
theory Spec2Isabelle
  imports Limit_Req_Handler Limit_Conn Crc32 Queue Rbtree_Search Range_Filter Http_Time Sprintf Event_Timer Parse Http_Chunked_Body Http_Process_Request Upstream_Round_Robin Base64 Rwlock Shmtx Escape Utf8 Rbtree_Delete
begin

text \<open>
  A model of parts of nginx 1.9.2 (the commented tree under \<open>src/nginx-1.9.2/src\<close>; paths below are
  relative to it), translated by hand from the C sources, with the properties that make each part
  correct.

  \<^bold>\<open>Conventions.\<close> The build is the Unix one on an LP64 machine. A byte is an \<open>8 word\<close>; a string or a
  buffer is a list of bytes with positions in it for pointers, and a read outside of the memory the
  code was given is the value None, so that a theorem with Some in it also says that there was no
  such read. Unsigned machine words are \<open>w word\<close> where they wrap or are used bitwise; signed 64-bit
  integers are \<open>int\<close> with the wrap-around \<open>s64\<close> written out where a value may leave the range. Return
  codes are the C constants. Pool allocation is assumed to succeed and logging is left out
  everywhere.

  \<^bold>\<open>Incremental parsers.\<close> The state machines of \<open>http/ngx_http_parse.c\<close> keep their state in the request
  and are called again when more bytes have arrived. Each has an enumeration of its states, a record
  of the request's fields it writes, a function for one byte (one branch for each case label), and
  the loop \<open>scan\<close> of Prelude, with its exits. The locale \<open>byte_machine\<close> of Prelude is the interface that
  makes them restartable; the parsers are its interpretations.

  \<^bold>\<open>The theories.\<close>
  \<^item> Prelude: bytes, C integers, memory reads, hexadecimal digits, the loop of the parsers.
  \<^item> Str_Num, Parse: \<open>ngx_atoi\<close> and its relatives, \<open>ngx_hextoi\<close>, \<open>ngx_hex_dump\<close>, number printing
    (\<open>core/ngx_string.c\<close>); sizes, offsets and times of the configuration (\<open>core/ngx_parse.c\<close>). They are
    exact on every string, read back what was printed, and never overflow.
  \<^item> Sprintf: \<open>ngx_vslprintf\<close> (\<open>core/ngx_string.c\<close>) as an interpreter of formats over typed arguments; it stays
    within its room and truncates; rules to print a given format.
  \<^item> Http_Time (\<open>core/ngx_times.c\<close>, \<open>core/ngx_parse_time.c\<close>): calendar dates, their texts and the parser,
    against the Gregorian calendar.
  \<^item> Crc32 (\<open>core/ngx_crc32.c\<close>): both table-driven checksums against the division of bits; changes they detect.
  \<^item> Base64, Escape, Utf8 (\<open>core/ngx_string.c\<close>): round trips, exact lengths, error cases.
  \<^item> Rwlock, Shmtx (\<open>core/ngx_rwlock.c\<close>, \<open>core/ngx_shmtx.c\<close>): the locks in shared memory, one access at a
    time, under all interleavings of any number of processes: exclusion and progress by rule induction
    over the reachable states.
  \<^item> Rbtree, Rbtree_Shape, Rbtree_Insert, Rbtree_Delete (\<open>core/ngx_rbtree.c\<close>): the red-black tree on a memory of
    linked nodes, in the option monad; the tree a memory holds, positions in it, and that insertion
    and deletion keep it a red-black tree with the right nodes and touch nothing else. The two mirror
    branches of the code are one definition with the side as a parameter. The locale
    \<open>rb_insert_callback\<close> is what \<open>ngx_rbtree_insert\<close> relies on in the tree's \<open>insert\<close> callback.
  \<^item> Rbtree_Search: trees of strings (\<open>ngx_str_rbtree_lookup\<close> and its callback in \<open>core/ngx_string.c\<close>, those of
    the limiting modules). The locale \<open>search_tree\<close> is what callback and lookup have to agree on; the
    trees are dictionaries.
  \<^item> Queue (\<open>core/ngx_queue.h\<close>, \<open>core/ngx_queue.c\<close>): circular lists in memory against lists; sorting is the stable
    sort.
  \<^item> Event_Timer (\<open>event/ngx_event_timer.c\<close>): timers in such a tree, ordered by a clock that wraps; arming,
    expiry, cancelling. The locale \<open>timer_handler\<close> is what the expiry loop relies on in the handlers: none
    arms a timer that is due at once; with one that always does, the loop does not return.
  \<^item> Http_Chunked, Http_Chunked_Body: chunked bodies, parser, request filter and response encoder
    (\<open>http/ngx_http_parse.c\<close>, \<open>http/ngx_http_request_body.c\<close>, \<open>http/modules/ngx_http_chunked_filter_module.c\<close>): the
    filter reads back what the encoder wrote, however it is cut into buffers.
  \<^item> Http_Uri, Http_Uri_Norm: the URI state machines; the normal form of a path as a specification on
    segments, and that the code computes it within its buffer on both of its paths.
  \<^item> Http_Header: header lines, the lower-case key and its hash.
  \<^item> Http_Request_Line, Http_Request_Line_Form, Http_Request_Line_Uri: the request line parser; what it
    frames; that the URI inside agrees with the URI parser.
  \<^item> Http_Host: \<open>ngx_http_validate_host\<close>.
  \<^item> Http_Process_Request: \<open>ngx_http_process_request_line\<close>, which composes parser, URI and host.
  \<^item> Range_Filter (\<open>http/modules/ngx_http_range_filter_module.c\<close>): the \<open>Range\<close> header against a grammar of
    ranges, and the response of the header and body filters, byte by byte, \<open>Content-Range\<close> and the headers of
    the parts included. The sum of the sizes is kept in 64 bits, as in the code: where it wraps, the check
    against the length of the response is passed by ranges that are larger than it.
  \<^item> Slab, Zone_Tree: what the limiting modules have in common: the slab allocator, a parameter that keeps
    \<open>slab_laws\<close>, and trees of keys whose nodes it provides. It may refuse at any time.
  \<^item> Limit_Conn (\<open>http/modules/ngx_http_limit_conn_module.c\<close>): connections counted in such a tree; the handler,
    and all interleavings of the steps of requests, against the outstanding cleanups.
  \<^item> Limit_Req, Limit_Req_Handler (\<open>http/modules/ngx_http_limit_req_module.c\<close>): leaky buckets in such a tree and a
    queue, which together refine a list of buckets; the rate that is kept and that nobody within it is
    refused, for every allocator: what a zone short of memory forgets or refuses is counted (\<open>shortages\<close>); all interleavings of the sections of processes against the references they keep; the handler
    for any number of limits.
  \<^item> Upstream_Round_Robin (\<open>http/ngx_http_upstream_round_robin.c\<close>): peers, selection, fallback to backup peers,
    failures, with weights and counts at their width. The weights do not wrap as long as the number of
    peers times the sum of their weights fits a signed word; beyond that they do.

  \<^bold>\<open>Termination.\<close> Loops over bytes are structural recursions on what is left of the buffer. Three loops
  that are not have a fuel argument: \<open>chunked_filter_buf\<close>, \<open>complex_uri_loop\<close> and \<open>utf8_length_loop\<close> are run
  with the length of the input and a little more, and the theorems show that it is enough (the result
  is never None for want of it). Loops along the links of a memory, which end only if the memory is
  well formed (descent, rebalancing, minimum), and those around the handlers of timers are
  \<open>partial_function (option)\<close>; that they return is part of the theorems.

  \<^bold>\<open>Not modelled.\<close> Reading from and writing to sockets and files, the event modules, processes and signals;
  configuration parsing and the merging of configurations; the upstream engine, the file cache, the
  phases of the request and the content handlers, which are callbacks over structures of all modules;
  TLS (OpenSSL), regular expressions (PCRE) and compression (zlib); the HTTP/2, SPDY, mail and stream
  protocols; the third-party modules and LuaJIT kept in the tree.
\<close>

end
